(* ===== verification/Lock_Prelude.thy ===== *)
theory Lock_Prelude
  imports Main "HOL-Library.Word"
begin

unbundle bit_operations_syntax

text \<open>
  Shared material of the development: the names of the machine types, the collections of
  rewrite rules the component proofs use, facts on 16-bit halves and bytes of words, runs of
  a step function under a schedule, and the interfaces (locales) that the lock algorithms
  implement: systems with an invariant, mutual exclusion, first-come first-served hand-over
  and the simulation of one system by another.
\<close>

section \<open>Machine types\<close>

type_synonym u8 = "8 word"
type_synonym u16 = "16 word"
type_synonym u32 = "32 word"
type_synonym u64 = "64 word"

text \<open>Worker threads are numbered from 0, as \<open>thread_num\<close> of \<open>thread_args_t\<close> does.\<close>

type_synonym tid = nat

text \<open>
  The machines the lock algorithms are written for: x86-64, AArch64 with the LSE instructions
  (\<open>USE_LSE\<close>) and AArch64 with load/store exclusive only.
\<close>

datatype arch = X86_64 | AArch64_LSE | AArch64_LLSC

named_theorems word_parts \<comment> \<open>reading back a part of a word after writing a part of it\<close>
named_theorems model_defs \<comment> \<open>definitions a step proof unfolds\<close>

section \<open>Halves of a 32-bit word\<close>

text \<open>
  A 16-bit access at the address of a 32-bit word touches its low half on the little-endian
  machines the code is written for.
\<close>

definition lo16 :: "u32 \<Rightarrow> u16" where
  "lo16 w = ucast w"

definition hi16 :: "u32 \<Rightarrow> u16" where
  "hi16 w = ucast (drop_bit 16 w)"

definition mk32 :: "u16 \<Rightarrow> u16 \<Rightarrow> u32" where
  "mk32 h l = push_bit 16 (ucast h) OR ucast l"

lemma lo16_mk32 [simp, word_parts]: "lo16 (mk32 h l) = l"
  unfolding lo16_def mk32_def by (rule bit_word_eqI) (auto simp: bit_simps)

lemma hi16_mk32 [simp, word_parts]: "hi16 (mk32 h l) = h"
  unfolding hi16_def mk32_def
  by (rule bit_word_eqI) (auto simp: bit_simps dest: bit_imp_le_length)

lemma mk32_hi16_lo16 [simp, word_parts]: "mk32 (hi16 w) (lo16 w) = w"
  unfolding hi16_def lo16_def mk32_def
  by (rule bit_word_eqI) (auto simp: bit_simps)

lemma word32_eq_iff: "v = w \<longleftrightarrow> hi16 v = hi16 w \<and> lo16 v = lo16 w"
  by (metis mk32_hi16_lo16)

lemma lo16_ucast [simp, word_parts]: "lo16 (ucast h) = h"
  unfolding lo16_def by (rule bit_word_eqI) (auto simp: bit_simps)

lemma ucast16_eq_iff [simp]: "(ucast g :: u32) = ucast h \<longleftrightarrow> g = (h :: u16)"
  by (metis lo16_ucast)

lemma drop_bit_16_hi16: "drop_bit 16 w = (ucast (hi16 w) :: u32)"
  unfolding hi16_def by (rule bit_word_eqI) (auto simp: bit_simps dest: bit_imp_le_length)

lemma and_mask_16_lo16: "w AND 0xFFFF = (ucast (lo16 w) :: u32)"
proof -
  have "w AND mask 16 = (ucast (lo16 w) :: u32)"
    unfolding lo16_def by (rule bit_word_eqI) (auto simp: bit_simps)
  then show ?thesis by (simp add: mask_eq_exp_minus_1)
qed

lemma unat_lo16: "unat (lo16 w) = unat w mod 65536"
  unfolding lo16_def by (simp add: unsigned_ucast_eq take_bit_eq_mod unsigned_take_bit_eq)

lemma unat_hi16: "unat (hi16 w) = unat w div 65536"
proof -
  have "unat w < 4294967296" using unsigned_less [of w, where 'a = nat] by simp
  then show ?thesis
    unfolding hi16_def
    by (simp add: unsigned_ucast_eq unsigned_take_bit_eq take_bit_eq_mod drop_bit_eq_div unat_div)
qed

lemma unat_mk32: "unat (mk32 h l) = 65536 * unat h + unat l"
  using unat_hi16 [of "mk32 h l"] unat_lo16 [of "mk32 h l"] by simp

lemma mod_mult_add: "l < m \<Longrightarrow> (m * a + l) mod (m * n) = m * (a mod n) + (l :: nat)"
  by (simp add: mod_mult2_eq)

lemma mk32_add_hi: "mk32 h l + mk32 k 0 = mk32 (h + k) l"
proof -
  have l: "unat l < 65536" using unsigned_less [of l, where 'a = nat] by simp
  have e: "65536 * unat h + unat l + 65536 * unat k = 65536 * (unat h + unat k) + unat l"
    by simp
  have "unat (mk32 h l + mk32 k 0) = (65536 * (unat h + unat k) + unat l) mod (65536 * 65536)"
    by (simp add: unat_word_ariths unat_mk32 e del: distrib_left_numeral)
  also have "\<dots> = 65536 * ((unat h + unat k) mod 65536) + unat l"
    using l by (rule mod_mult_add)
  also have "\<dots> = unat (mk32 (h + k) l)"
    by (simp add: unat_mk32 unat_word_ariths)
  finally show ?thesis by (rule word_unat_eq_iff [THEN iffD2])
qed

text \<open>An addition to the high half never disturbs the low half, and wraps at 16 bits.\<close>

lemma lo16_add_hi [simp, word_parts]: "lo16 (w + mk32 k 0) = lo16 w"
  and hi16_add_hi [simp, word_parts]: "hi16 (w + mk32 k 0) = hi16 w + k"
  using mk32_add_hi [of "hi16 w" "lo16 w" k] by simp_all

lemma numeral_mk32_hi: "(0x10000 :: u32) = mk32 1 0" "(0x20000 :: u32) = mk32 2 0"
  by (simp_all add: mk32_def)

section \<open>Bytes of a 16-bit word\<close>

definition lo8 :: "u16 \<Rightarrow> u8" where
  "lo8 w = ucast w"

definition hi8 :: "u16 \<Rightarrow> u8" where
  "hi8 w = ucast (drop_bit 8 w)"

definition mk16 :: "u8 \<Rightarrow> u8 \<Rightarrow> u16" where
  "mk16 h l = push_bit 8 (ucast h) OR ucast l"

lemma lo8_mk16 [simp, word_parts]: "lo8 (mk16 h l) = l"
  unfolding lo8_def mk16_def by (rule bit_word_eqI) (auto simp: bit_simps)

lemma hi8_mk16 [simp, word_parts]: "hi8 (mk16 h l) = h"
  unfolding hi8_def mk16_def
  by (rule bit_word_eqI) (auto simp: bit_simps dest: bit_imp_le_length)

lemma mk16_hi8_lo8 [simp, word_parts]: "mk16 (hi8 w) (lo8 w) = w"
  unfolding hi8_def lo8_def mk16_def
  by (rule bit_word_eqI) (auto simp: bit_simps)

lemma mk16_eq_iff [simp]: "mk16 h l = mk16 h' l' \<longleftrightarrow> h = h' \<and> l = l'"
  by (metis hi8_mk16 lo8_mk16)

lemma mk32_eq_iff [simp]: "mk32 h l = mk32 h' l' \<longleftrightarrow> h = h' \<and> l = l'"
  by (metis hi16_mk32 lo16_mk32)

text \<open>Bits of a word by the part they are in.\<close>

lemma bit_mk16: "bit (mk16 h l) k \<longleftrightarrow> (if k < 8 then bit l k else bit h (k - 8))"
  unfolding mk16_def by (auto simp: bit_simps dest: bit_imp_le_length)

lemma bit_mk32: "bit (mk32 h l) k \<longleftrightarrow> (if k < 16 then bit l k else bit h (k - 16))"
  unfolding mk32_def by (auto simp: bit_simps dest: bit_imp_le_length)

section \<open>Narrowing\<close>

lemma ucast_diff_down:
  "LENGTH('b) \<le> LENGTH('a) \<Longrightarrow> (ucast (x - y :: 'a::len word) :: 'b::len word) = ucast x - ucast y"
  by transfer (simp, subst (1 2) take_bit_diff [symmetric], simp)

lemma ucast_add_down:
  "LENGTH('b) \<le> LENGTH('a) \<Longrightarrow> (ucast (x + y :: 'a::len word) :: 'b::len word) = ucast x + ucast y"
  by transfer (simp, subst (1 2) take_bit_add [symmetric], simp)

lemma and_mask_16_ucast: "(x AND 0xFFFF :: u64) = ucast (ucast x :: u16)"
proof -
  have "x AND mask 16 = (ucast (ucast x :: u16) :: u64)"
    by (rule bit_word_eqI) (auto simp: bit_simps)
  then show ?thesis by (simp add: mask_eq_exp_minus_1)
qed

lemma ucast_ucast_up: "LENGTH('a) \<le> LENGTH('b) \<Longrightarrow> (ucast (ucast (x::'a::len word) :: 'b::len word) :: 'a word) = x"
  by (rule bit_word_eqI) (auto simp: bit_simps dest: bit_imp_le_length)

lemma unat_ucast_up:
  "LENGTH('a) \<le> LENGTH('b) \<Longrightarrow> unat (ucast (x :: 'a::len word) :: 'b::len word) = unat x"
  by (subst unsigned_ucast_eq) (simp only: unsigned_take_bit_eq [symmetric] take_bit_word_eq_self)

section \<open>Lists\<close>

lemma in_set_tl [dest]: "x \<in> set (tl xs) \<Longrightarrow> x \<in> set xs"
  by (cases xs) auto

lemma ex_fun_upd_other: "v \<noteq> w \<Longrightarrow> g i \<noteq> w \<Longrightarrow> (\<exists>j. (g(i := v)) j = w) \<longleftrightarrow> (\<exists>j. g j = w)"
  by (metis fun_upd_apply)

section \<open>Sums over the threads\<close>

text \<open>Changing the state of one thread changes a sum over the threads by that thread's share.\<close>

lemma sum_fun_upd:
  "i < N \<Longrightarrow> (\<Sum>j<N. f ((g(i := v)) j)) + f (g i) = (\<Sum>j<N. f (g j)) + (f v :: nat)"
  for N :: nat
proof -
  assume "i < N"
  then have i: "i \<in> {..<N}" by simp
  have "(\<Sum>j<N. f ((g(i := v)) j)) = f v + (\<Sum>j\<in>{..<N} - {i}. f (g j))"
    by (simp add: sum.remove [OF finite_lessThan i])
  moreover have "(\<Sum>j<N. f (g j)) = f (g i) + (\<Sum>j\<in>{..<N} - {i}. f (g j))"
    by (simp add: sum.remove [OF finite_lessThan i])
  ultimately show ?thesis by simp
qed

lemma sum_fun_upd_less:
  "i < N \<Longrightarrow> f v < f (g i) \<Longrightarrow> (\<Sum>j<N. f ((g(i := v)) j)) < (\<Sum>j<N. f (g j) :: nat)"
  for N :: nat
  using sum_fun_upd [of i N f g v] by linarith

section \<open>Flags with at most one holder\<close>

text \<open>A flag that is 1 while exactly one thread is in some section of the code, and 0 while none is.\<close>

definition flag_ok :: "'a::len word \<Rightarrow> (tid \<Rightarrow> bool) \<Rightarrow> bool" where
  "flag_ok b P \<longleftrightarrow> b = 0 \<and> (\<forall>i. \<not> P i) \<or> b = 1 \<and> (\<exists>!i. P i)"

lemma flag_ok_set: "flag_ok 0 P \<Longrightarrow> flag_ok 1 (P(i := True))"
  by (auto simp: flag_ok_def)

lemma flag_ok_clear: "flag_ok b P \<Longrightarrow> P i \<Longrightarrow> flag_ok 0 (P(i := False))"
  by (auto simp: flag_ok_def)

lemma flag_ok_zero: "flag_ok b P \<Longrightarrow> b = 0 \<longleftrightarrow> (\<forall>i. \<not> P i)"
  by (auto simp: flag_ok_def)

lemma flag_ok_excl: "flag_ok b P \<Longrightarrow> P i \<Longrightarrow> P j \<Longrightarrow> i = j"
  by (auto simp: flag_ok_def)

lemma flag_ok_bit: "flag_ok b P \<Longrightarrow> b = 0 \<or> b = 1"
  by (auto simp: flag_ok_def)

lemma fun_upd_pred: "(\<lambda>j. P ((g(i := v)) j)) = (\<lambda>j. P (g j))(i := P v)"
  by auto

section \<open>Runs of a step function\<close>

text \<open>
  Every concurrent algorithm is a total, executable function \<open>step l s\<close>: the label \<open>l\<close>
  names the thread that moves (and, where the environment has a choice, that choice), and
  one application is one access to shared memory. A schedule is a list of labels; what holds
  for every schedule holds for every interleaving of the threads.
\<close>

primrec run :: "('l \<Rightarrow> 's \<Rightarrow> 's) \<Rightarrow> 'l list \<Rightarrow> 's \<Rightarrow> 's" where
  "run step [] s = s"
| "run step (l # ls) s = run step ls (step l s)"

text \<open>The observations a run makes, in order.\<close>

primrec observe :: "('l \<Rightarrow> 's \<Rightarrow> 'e list) \<Rightarrow> ('l \<Rightarrow> 's \<Rightarrow> 's) \<Rightarrow> 'l list \<Rightarrow> 's \<Rightarrow> 'e list" where
  "observe obs step [] s = []"
| "observe obs step (l # ls) s = obs l s @ observe obs step ls (step l s)"

lemma run_append: "run step (ls @ ms) s = run step ms (run step ls s)"
  by (induction ls arbitrary: s) auto

lemma run_replicate_fix: "step l s = s \<Longrightarrow> run step (replicate n l) s = s"
  by (induction n) auto

section \<open>Interfaces\<close>

text \<open>A system with an invariant: it holds initially and every step keeps it.\<close>

locale invariant_system =
  fixes init :: "'s \<Rightarrow> bool"
    and step :: "'l \<Rightarrow> 's \<Rightarrow> 's"
    and inv :: "'s \<Rightarrow> bool"
  assumes inv_init: "init s \<Longrightarrow> inv s"
    and inv_step: "inv s \<Longrightarrow> inv (step l s)"
begin

lemma inv_run: "inv s \<Longrightarrow> inv (run step ls s)"
  by (induction ls arbitrary: s) (auto intro: inv_step)

lemma reachable_inv: "init s \<Longrightarrow> inv (run step ls s)"
  by (intro inv_run inv_init)

end

text \<open>A lock: at most one thread holds it in a state that satisfies the invariant.\<close>

locale mutex_system = invariant_system init step inv
  for init :: "'s \<Rightarrow> bool" and step :: "'l \<Rightarrow> 's \<Rightarrow> 's" and inv :: "'s \<Rightarrow> bool" +
  fixes holds :: "'s \<Rightarrow> tid \<Rightarrow> bool"
  assumes holds_excl: "inv s \<Longrightarrow> holds s i \<Longrightarrow> holds s j \<Longrightarrow> i = j"
begin

lemma mutual_exclusion:
  "init s \<Longrightarrow> holds (run step ls s) i \<Longrightarrow> holds (run step ls s) j \<Longrightarrow> i = j"
  by (rule holds_excl [OF reachable_inv])

lemma at_most_one_holder: "init s \<Longrightarrow> card {i. holds (run step ls s) i} \<le> 1"
proof -
  assume "init s"
  then have "\<forall>i\<in>{i. holds (run step ls s) i}. \<forall>j\<in>{i. holds (run step ls s) i}. i = j"
    using mutual_exclusion by blast
  then show ?thesis by (cases "finite {i. holds (run step ls s) i}") (auto simp: card_le_Suc0_iff_eq)
qed

end

text \<open>
  First come, first served: \<open>requests\<close> are the threads that pass the doorway of the lock in a
  step and \<open>entries\<close> those that obtain it; a step may only let the longest waiting thread in.
\<close>

locale fifo_system = invariant_system init step inv
  for init :: "'s \<Rightarrow> bool" and step :: "'l \<Rightarrow> 's \<Rightarrow> 's" and inv :: "'s \<Rightarrow> bool" +
  fixes waiting :: "'s \<Rightarrow> tid list \<Rightarrow> bool"
    and requests :: "'l \<Rightarrow> 's \<Rightarrow> tid list"
    and entries :: "'l \<Rightarrow> 's \<Rightarrow> tid list"
  assumes waiting_init: "init s \<Longrightarrow> waiting s []"
    and waiting_step: "inv s \<Longrightarrow> waiting s w \<Longrightarrow>
      \<exists>w'. waiting (step l s) w' \<and> w @ requests l s = entries l s @ w'"
begin

lemma fifo_run:
  "inv s \<Longrightarrow> waiting s w \<Longrightarrow>
   \<exists>w'. waiting (run step ls s) w' \<and>
        w @ observe requests step ls s = observe entries step ls s @ w'"
proof (induction ls arbitrary: s w)
  case Nil
  then show ?case by auto
next
  case (Cons l ls)
  from waiting_step [OF Cons.prems, of l] obtain v
    where v: "waiting (step l s) v" "w @ requests l s = entries l s @ v" by blast
  from Cons.IH [OF inv_step [OF Cons.prems(1)] v(1)] obtain w' where
    "waiting (run step ls (step l s)) w'"
    "v @ observe requests step ls (step l s) = observe entries step ls (step l s) @ w'" by blast
  moreover from this(2) v(2) have
    "w @ observe requests step (l # ls) s = observe entries step (l # ls) s @ w'"
    by simp (metis append.assoc)
  ultimately show ?case by auto
qed

lemma fifo:
  "init s \<Longrightarrow> \<exists>w. waiting (run step ls s) w \<and>
     observe requests step ls s = observe entries step ls s @ w"
  using fifo_run [OF inv_init waiting_init, of s ls] by simp

end

text \<open>
  Absence of deadlock: while the goal is not reached some thread can make a step that brings
  it closer, so from every state of every run the goal can still be reached.
\<close>

locale progress_system = invariant_system init step inv
  for init :: "'s \<Rightarrow> bool" and step :: "'l \<Rightarrow> 's \<Rightarrow> 's" and inv :: "'s \<Rightarrow> bool" +
  fixes goal :: "'s \<Rightarrow> bool"
    and distance :: "'s \<Rightarrow> nat"
  assumes closer: "inv s \<Longrightarrow> \<not> goal s \<Longrightarrow> \<exists>l. distance (step l s) < distance s"
begin

lemma goal_possible: "inv s \<Longrightarrow> \<exists>ls. goal (run step ls s)"
proof (induction "distance s" arbitrary: s rule: less_induct)
  case less
  show ?case
  proof (cases "goal s")
    case True
    then have "goal (run step [] s)" by simp
    then show ?thesis ..
  next
    case False
    with less.prems obtain l where "distance (step l s) < distance s" using closer by blast
    then obtain ls where "goal (run step ls (step l s))"
      using less inv_step by blast
    then have "goal (run step (l # ls) s)" by simp
    then show ?thesis ..
  qed
qed

lemma never_stuck: "init s \<Longrightarrow> \<exists>ms. goal (run step (ls @ ms) s)"
  using goal_possible [OF reachable_inv] by (simp add: run_append)

end

end
