(* ===== verification/C_Strings.thy ===== *)
theory C_Strings
  imports Lock_Prelude
begin

text \<open>
  What the option parsers use of the C library: \<open>strtoul\<close> and its relatives, \<open>strtok_r\<close> and \<open>strsep\<close>. A string
  is its list of characters without the terminating null. The number printed in decimal is read back.
\<close>

section \<open>Numbers\<close>

definition c_isspace :: "char \<Rightarrow> bool" where
  "c_isspace c \<longleftrightarrow> c = CHR '' '' \<or> (9 \<le> (of_char c :: nat) \<and> (of_char c :: nat) \<le> 13)"

text \<open>The value of a digit or a letter; 36 is out of every radix.\<close>

definition digit_val :: "char \<Rightarrow> nat" where
  "digit_val c = (let n = of_char c in
     if 48 \<le> n \<and> n \<le> 57 then n - 48 else if 97 \<le> n \<and> n \<le> 122 then n - 87 else if 65 \<le> n \<and> n \<le> 90 then n - 55 else 36)"

fun scan_digits :: "nat \<Rightarrow> nat \<Rightarrow> string \<Rightarrow> nat \<times> string" where
  "scan_digits b acc [] = (acc, [])"
| "scan_digits b acc (c # cs) = (if digit_val c < b then scan_digits b (acc * b + digit_val c) cs else (acc, c # cs))"

definition scan_sign :: "string \<Rightarrow> bool \<times> string" where
  "scan_sign s = (case s of c # cs \<Rightarrow> if c = CHR ''-'' then (True, cs) else if c = CHR ''+'' then (False, cs) else (False, s) | [] \<Rightarrow> (False, s))"

text \<open>The radix: base 0 asks for the prefix, and a prefix \<open>0x\<close> counts only before a hexadecimal digit.\<close>

definition scan_radix :: "nat \<Rightarrow> string \<Rightarrow> nat \<times> string" where
  "scan_radix b s = (case s of
       z # x # d # cs \<Rightarrow> if (b = 0 \<or> b = 16) \<and> z = CHR ''0'' \<and> (x = CHR ''x'' \<or> x = CHR ''X'') \<and> digit_val d < 16 then (16, d # cs)
         else (if b = 0 then if z = CHR ''0'' then 8 else 10 else b, s)
     | z # cs \<Rightarrow> (if b = 0 then if z = CHR ''0'' then 8 else 10 else b, s)
     | [] \<Rightarrow> (if b = 0 then 10 else b, s))"

text \<open>The sign, the magnitude and the rest of the string, or nothing when there is no digit.\<close>

definition scan_number :: "nat \<Rightarrow> string \<Rightarrow> (bool \<times> nat \<times> string) option" where
  "scan_number b s = (let (neg, s1) = scan_sign (dropWhile c_isspace s); (r, s2) = scan_radix b s1 in
     case s2 of [] \<Rightarrow> None | c # _ \<Rightarrow> if digit_val c < r then let (v, rest) = scan_digits r 0 s2 in Some (neg, v, rest) else None)"

text \<open>The result, what \<open>endptr\<close> points to, and whether \<open>errno\<close> is set to \<open>ERANGE\<close>.\<close>

definition strtoul :: "string \<Rightarrow> nat \<Rightarrow> u64 \<times> string \<times> bool" where
  "strtoul s b = (case scan_number b s of None \<Rightarrow> (0, s, False)
     | Some (neg, v, rest) \<Rightarrow> if v < 2 ^ 64 then (if neg then - of_nat v else of_nat v, rest, False) else (- 1, rest, True))"

definition LLONG_MAX :: int where "LLONG_MAX = 2 ^ 63 - 1"
definition LLONG_MIN :: int where "LLONG_MIN = - (2 ^ 63)"

definition strtoll :: "string \<Rightarrow> nat \<Rightarrow> int \<times> string \<times> bool" where
  "strtoll s b = (case scan_number b s of None \<Rightarrow> (0, s, False)
     | Some (neg, v, rest) \<Rightarrow> let i = if neg then - int v else int v in
         if i > LLONG_MAX then (LLONG_MAX, rest, True) else if i < LLONG_MIN then (LLONG_MIN, rest, True) else (i, rest, False))"

section \<open>Tokens\<close>

text \<open>
  \<open>strtok_r\<close> skips delimiters and cuts a nonempty token off, or finds none; \<open>strsep\<close> cuts at the first delimiter
  and also gives empty tokens. Both return the token and what \<open>saveptr\<close> or the pointer is left at; for \<open>strsep\<close>
  that is a null pointer when there was no delimiter.
\<close>

definition strtok_r :: "string \<Rightarrow> string \<Rightarrow> (string \<times> string) option" where
  "strtok_r s delim = (case dropWhile (\<lambda>c. c \<in> set delim) s of [] \<Rightarrow> None
     | t \<Rightarrow> Some (takeWhile (\<lambda>c. c \<notin> set delim) t, drop 1 (dropWhile (\<lambda>c. c \<notin> set delim) t)))"

definition strsep :: "string \<Rightarrow> string \<Rightarrow> string \<times> string option" where
  "strsep s delim = (takeWhile (\<lambda>c. c \<notin> set delim) s,
     case dropWhile (\<lambda>c. c \<notin> set delim) s of [] \<Rightarrow> None | _ # r \<Rightarrow> Some r)"

lemma strsep_shorter: "strsep s delim = (token, Some r) \<Longrightarrow> length r < length s"
proof -
  assume "strsep s delim = (token, Some r)"
  then obtain x where "dropWhile (\<lambda>c. c \<notin> set delim) s = x # r"
    by (auto simp: strsep_def simp del: dropWhile_eq_Nil_conv split: list.splits)
  with length_dropWhile_le [of "\<lambda>c. c \<notin> set delim" s] show ?thesis by simp
qed

section \<open>Printing\<close>

text \<open>The decimal digits of a number, as \<open>printf(\<dots>)\<close> and people write them.\<close>

fun decimal :: "nat \<Rightarrow> string" where
  "decimal n = (if n < 10 then [char_of (n + 48)] else decimal (n div 10) @ [char_of (n mod 10 + 48)])"

declare decimal.simps [simp del]

lemma digit_val_char: "d < 10 \<Longrightarrow> digit_val (char_of (d + 48)) = d"
  by (simp add: digit_val_def)

lemma scan_digits_append:
  "(\<And>c. c \<in> set xs \<Longrightarrow> digit_val c < b) \<Longrightarrow> scan_digits b acc (xs @ ys) = scan_digits b (fst (scan_digits b acc xs)) ys"
  by (induction xs arbitrary: acc) simp_all

lemma decimal_digits: "c \<in> set (decimal n) \<Longrightarrow> \<exists>d<10. c = char_of (d + 48 :: nat)"
proof (induction n rule: decimal.induct)
  case (1 n)
  show ?case
  proof (cases "n < 10")
    case True
    then have "c = char_of (n + 48)" using 1(2) by (simp add: decimal.simps [of n])
    with True show ?thesis by blast
  next
    case False
    then have "c \<in> set (decimal (n div 10)) \<or> c = char_of (n mod 10 + 48)" using 1(2) by (auto simp: decimal.simps [of n])
    moreover have "n mod 10 < 10" by simp
    ultimately show ?thesis using 1(1) False by blast
  qed
qed

lemma decimal_val: "c \<in> set (decimal n) \<Longrightarrow> digit_val c < 10"
  using decimal_digits digit_val_char by fastforce

lemma decimal_nonempty: "decimal n \<noteq> []"
  by (subst decimal.simps) simp

lemma scan_decimal: "fst (scan_digits 10 0 (decimal n)) = n"
proof (induction n rule: decimal.induct)
  case (1 n)
  show ?case
  proof (cases "n < 10")
    case True
    then show ?thesis by (subst decimal.simps) (simp add: digit_val_char)
  next
    case False
    have "scan_digits 10 0 (decimal (n div 10) @ [char_of (n mod 10 + 48)]) =
        scan_digits 10 (fst (scan_digits 10 0 (decimal (n div 10)))) [char_of (n mod 10 + 48)]"
      by (rule scan_digits_append) (rule decimal_val)
    then show ?thesis using False 1 by (subst decimal.simps) (simp add: digit_val_char)
  qed
qed

lemma decimal_first: "decimal n = c # cs \<Longrightarrow> c = CHR ''0'' \<Longrightarrow> n = 0 \<and> cs = []"
proof (induction n arbitrary: cs rule: decimal.induct)
  case (1 n)
  show ?case
  proof (cases "n < 10")
    case True
    have "char_of (n + 48) = (CHR ''0'' :: char) \<Longrightarrow> n = 0"
    proof -
      assume "char_of (n + 48) = (CHR ''0'' :: char)"
      then have "digit_val (char_of (n + 48)) = digit_val CHR ''0''" by simp
      with True show "n = 0" by (simp add: digit_val_char) (simp add: digit_val_def)
    qed
    then show ?thesis using True 1(2,3) by (subst (asm) decimal.simps) auto
  next
    case False
    then have "decimal (n div 10) @ [char_of (n mod 10 + 48)] = c # cs" using 1(2) by (simp add: decimal.simps [of n])
    then obtain ds where "decimal (n div 10) = c # ds" using decimal_nonempty [of "n div 10"] by (cases "decimal (n div 10)") auto
    then have "n div 10 = 0" using 1 False by blast
    with False show ?thesis by simp
  qed
qed

text \<open>A digit is neither a space nor a sign nor a delimiter.\<close>

lemma decimal_char:
  assumes "c \<in> set (decimal n)"
  shows "\<not> c_isspace c" "c \<noteq> CHR ''-''" "c \<noteq> CHR ''+''" "c \<noteq> CHR '':''" "c \<noteq> CHR '',''"
proof -
  obtain d :: nat where d: "d < 10" "c = char_of (d + 48)" using decimal_digits [OF assms] by blast
  then have o: "(of_char c :: nat) = d + 48" by simp
  have ne: "c \<noteq> e" if "(of_char e :: nat) < 48 \<or> 57 < (of_char e :: nat)" for e
  proof
    assume "c = e"
    with o d(1) that show False by simp
  qed
  show "\<not> c_isspace c" using o ne [of "CHR '' ''"] by (simp add: c_isspace_def)
  show "c \<noteq> CHR ''-''" "c \<noteq> CHR ''+''" "c \<noteq> CHR '':''" "c \<noteq> CHR '',''"
    by (rule ne; simp)+
qed

text \<open>The round trip: what is printed in decimal is read back, up to the first character that is no digit.\<close>

lemma scan_number_decimal:
  assumes r: "case rest of [] \<Rightarrow> True | c # _ \<Rightarrow> \<not> digit_val c < 10" and b: "b = 10 \<or> b = 0 \<and> (n = 0 \<longrightarrow> rest = [])"
  shows "scan_number b (decimal n @ rest) = Some (False, n, rest)"
proof -
  obtain c cs where e: "decimal n = c # cs" using decimal_nonempty by (cases "decimal n") auto
  then have c: "c \<in> set (decimal n)" by simp
  have sp: "dropWhile c_isspace (decimal n @ rest) = decimal n @ rest" using decimal_char(1) [OF c] by (simp add: e)
  have sg: "scan_sign (decimal n @ rest) = (False, decimal n @ rest)" using decimal_char(2,3) [OF c] by (simp add: e scan_sign_def)
  have rd: "\<exists>r'. scan_radix b (decimal n @ rest) = (r', decimal n @ rest) \<and> scan_digits r' 0 (decimal n @ rest) = (n, rest) \<and> digit_val c < r'"
  proof (cases "b = 0 \<and> n = 0")
    case True
    then have "decimal n = [char_of (48 :: nat)]" "rest = []" using b by (simp_all add: decimal.simps [of 0])
    moreover have "char_of (48 :: nat) = (CHR ''0'')" by code_simp
    moreover have "digit_val CHR ''0'' = 0" by (simp add: digit_val_def)
    ultimately show ?thesis using True e by (auto simp: scan_radix_def)
  next
    case False
    then have "c \<noteq> CHR ''0'' \<or> b = 10" using decimal_first [OF e] b by auto
    then have "scan_radix b (decimal n @ rest) = (10, decimal n @ rest)"
      using b by (auto simp: e scan_radix_def split: list.split)
    moreover have "scan_digits 10 0 (decimal n @ rest) = (n, rest)"
      using scan_digits_append [of "decimal n" 10 0 rest] decimal_val scan_decimal [of n] r by (cases rest) auto
    ultimately show ?thesis using decimal_val [OF c] by blast
  qed
  then show ?thesis unfolding scan_number_def sp sg by (auto simp: e)
qed

lemma strtoul_decimal:
  assumes "case rest of [] \<Rightarrow> True | c # _ \<Rightarrow> \<not> digit_val c < 10" and "b = 10 \<or> b = 0 \<and> (n = 0 \<longrightarrow> rest = [])" and "n < 2 ^ 64"
  shows "strtoul (decimal n @ rest) b = (of_nat n, rest, False)"
  using scan_number_decimal [OF assms(1,2)] assms(3) by (simp add: strtoul_def)

end
