(* ===== verification/Pinorder.thy ===== *)
theory Pinorder
  imports C_Strings
begin

text \<open>
  On which CPUs the worker threads run: the options \<open>-o\<close> and \<open>-t\<close> of \<open>args.c\<close> and the placement in \<open>main\<close> of
  \<open>lockhammer.c\<close>. A call of \<open>exit\<close> is \<open>Exit\<close> with its code; a write behind the end of the array \<open>cpus_specified\<close>,
  which has one element per configured CPU, is \<open>Overrun\<close>.
\<close>

datatype pin_error = Exit int | Overrun

section \<open>Numbers with delimiters\<close>

text \<open>
  \<open>parse_helper\<close>: numbers separated by the given delimiters; the result is the list of the numbers found, empty
  for an error. The last number has no delimiter.
\<close>

fun parse_helper :: "string \<Rightarrow> string list \<Rightarrow> u64 list" where
  "parse_helper s [] = (case strtoul s 0 of (v, endptr, _) \<Rightarrow> if endptr = s then [] else if endptr \<noteq> [] then [] else [v])"
| "parse_helper s (delim # delims) = (case strsep s delim of (token, rest) \<Rightarrow>
     case strtoul token 0 of (v, endptr, _) \<Rightarrow>
       if endptr = token then [] else if endptr \<noteq> [] \<and> hd endptr \<notin> set delim then []
       else (case rest of None \<Rightarrow> [v] | Some r \<Rightarrow> (case parse_helper r delims of [] \<Rightarrow> [] | vs \<Rightarrow> v # vs)))"

definition parse_num_threads :: "string \<Rightarrow> u64 list" where
  "parse_num_threads s = parse_helper s ['':'']"

definition parse_cpulist_range :: "string \<Rightarrow> u64 list" where
  "parse_cpulist_range s = parse_helper s [''-'', '':'']"

section \<open>The option \<open>-o\<close>\<close>

text \<open>
  The loops that fill \<open>cpus_specified\<close>. The counter is an \<open>int\<close>; the comparison with the \<open>unsigned long\<close> limit
  converts it, and the addition of the \<open>long\<close> step is truncated. \<open>CPU_SET\<close> keeps numbers below \<open>CPU_SETSIZE\<close>.
\<close>

definition cpu_isset :: "u32 \<Rightarrow> u32 list \<Rightarrow> bool" where
  "cpu_isset cpu xs \<longleftrightarrow> (scast cpu :: u64) < 1024 \<and> cpu \<in> set xs"

function pin_range :: "nat \<Rightarrow> bool \<Rightarrow> u64 \<Rightarrow> u64 \<Rightarrow> u32 \<Rightarrow> u32 list \<Rightarrow> pin_error + u32 list" where
  "pin_range num_cores up limit skip cpu xs =
     (if \<not> (if up then scast cpu \<le> limit else scast cpu \<ge> limit) then Inr xs
      else if cpu_isset cpu xs then Inl (Exit (- 1))
      else if length xs \<ge> num_cores then Inl Overrun
      else pin_range num_cores up limit skip (if up then ucast ((scast cpu :: u64) + skip) else ucast ((scast cpu :: u64) - skip)) (xs @ [cpu]))"
  by pat_completeness auto
termination by (relation "measure (\<lambda>(n, _, _, _, _, xs). n - length xs)") auto

declare pin_range.simps [simp del]

text \<open>One comma-separated part: \<open>m\<close>, \<open>m-n\<close> or \<open>m-n:skip\<close>.\<close>

definition pin_csv :: "nat \<Rightarrow> string \<Rightarrow> u32 list \<Rightarrow> pin_error + u32 list" where
  "pin_csv num_cores csv xs = (let range = parse_cpulist_range csv in
     if range = [] then Inl (Exit (- 1)) else
     let a = range ! 0; b = if length range = 1 then a else range ! 1; skip = if length range = 3 then range ! 2 else 1 in
     if b \<ge> of_nat num_cores then Inl (Exit (- 1))
     else if sint skip < 1 then Inl (Exit (- 1))
     else pin_range num_cores (b \<ge> a) b skip (ucast a) xs)"

text \<open>\<open>strsep(&optarg, ",")\<close> until it returns a null pointer.\<close>

fun pin_csvs :: "nat \<Rightarrow> string list \<Rightarrow> u32 list \<Rightarrow> pin_error + u32 list" where
  "pin_csvs num_cores [] xs = Inr xs"
| "pin_csvs num_cores (csv # csvs) xs = (case pin_csv num_cores csv xs of Inl e \<Rightarrow> Inl e | Inr xs' \<Rightarrow> pin_csvs num_cores csvs xs')"

function strsep_all :: "string \<Rightarrow> string \<Rightarrow> string list" where
  "strsep_all s delim = (case strsep s delim of (token, None) \<Rightarrow> [token] | (token, Some r) \<Rightarrow> token # strsep_all r delim)"
  by pat_completeness auto
termination by (relation "measure (length \<circ> fst)") (auto dest: strsep_shorter [OF sym])

declare strsep_all.simps [simp del]

record pinorder =
  cpu_list :: "u32 list option"
  po_num_threads :: u64
  ileave :: u64

definition pinorder_o :: "nat \<Rightarrow> string \<Rightarrow> pin_error + pinorder" where
  "pinorder_o num_cores optarg = (case pin_csvs num_cores (strsep_all optarg '','') [] of Inl e \<Rightarrow> Inl e
     | Inr xs \<Rightarrow> if card {c \<in> set xs. (scast c :: u64) < 1024} > num_cores then Inl (Exit (- 1))
         else Inr \<lparr>cpu_list = Some xs, po_num_threads = of_nat (length xs), ileave = 0\<rparr>)"

section \<open>The option \<open>-t\<close>\<close>

definition pinorder_t :: "nat \<Rightarrow> string \<Rightarrow> pin_error + pinorder" where
  "pinorder_t num_online_cores optarg = (let numbers = parse_num_threads optarg in
     if numbers = [] then Inl (Exit (- 1)) else
     let num = numbers ! 0; il = if length numbers = 1 then 0 else numbers ! 1 in
     if sint il < 0 then Inl (Exit (- 1))
     else if num > of_nat num_online_cores then Inl (Exit (- 1))
     else Inr \<lparr>cpu_list = None, po_num_threads = num, ileave = il\<rparr>)"

section \<open>Placement\<close>

record system_info =
  num_cores :: nat
  num_online_cores :: nat
  avail_cores :: "nat set"
  num_avail_cores :: nat

text \<open>The loop of \<open>calculate_affinity\<close>: \<open>base_core\<close> and \<open>thread_offset\<close> after \<open>t\<close> rounds.\<close>

fun affinity_loop :: "nat \<Rightarrow> nat \<Rightarrow> nat \<Rightarrow> nat \<times> nat" where
  "affinity_loop n il 0 = (0, 0)"
| "affinity_loop n il (Suc t) = (case affinity_loop n il t of (base, off) \<Rightarrow>
     let base = (base + il) mod 2 ^ 64 in if base \<ge> n then (0, off + 1) else (base, off))"

definition calculate_affinity :: "nat \<Rightarrow> system_info \<Rightarrow> nat \<Rightarrow> pin_error + nat" where
  "calculate_affinity thread_num psysinfo il =
     (if thread_num \<ge> num_cores psysinfo then Inl (Exit (- 1))
      else case affinity_loop (num_cores psysinfo) il thread_num of (base, off) \<Rightarrow> Inr ((base + off) mod 2 ^ 64))"

text \<open>\<open>get_next_available_cpu\<close>, looking at \<open>cpu\<close> and on; \<open>None\<close> is -1.\<close>

function next_available :: "nat set \<Rightarrow> nat \<Rightarrow> nat \<Rightarrow> nat option" where
  "next_available avail n cpu = (if cpu < n then if cpu \<in> avail then Some cpu else next_available avail n (Suc cpu) else None)"
  by pat_completeness auto
termination by (relation "measure (\<lambda>(_, n, cpu). n - cpu)") auto

declare next_available.simps [simp del]

definition get_next_available_cpu :: "nat set \<Rightarrow> nat \<Rightarrow> nat option \<Rightarrow> nat option" where
  "get_next_available_cpu avail n last_cpu_seen = next_available avail n (case last_cpu_seen of None \<Rightarrow> 0 | Some c \<Rightarrow> Suc c)"

fun place_numeric :: "system_info \<Rightarrow> nat \<Rightarrow> nat option \<Rightarrow> pin_error + nat list" where
  "place_numeric si 0 last_cpu = Inr []"
| "place_numeric si (Suc k) last_cpu = (case get_next_available_cpu (avail_cores si) (num_cores si) last_cpu of
     None \<Rightarrow> Inl (Exit (- 1))
   | Some cpu \<Rightarrow> (case place_numeric si k (Some cpu) of Inl e \<Rightarrow> Inl e | Inr cpus \<Rightarrow> Inr (cpu # cpus)))"

text \<open>
  Placement in the order of the file given with \<open>-C\<close>. \<open>cpu_order\<close> is a global array of \<open>MAXTHREADS\<close> numbers: behind
  the numbers of the file it holds zeros. \<open>next_ordered\<close> is the loop that looks for the next available CPU.
\<close>

definition MAXTHREADS :: nat where "MAXTHREADS = 513"

text \<open>The number at an index, read into an \<open>int\<close>.\<close>

definition cpu_order_at :: "u64 list \<Rightarrow> nat \<Rightarrow> nat" where
  "cpu_order_at ord idx = unat (scast (ucast (if idx < length ord then ord ! idx else 0) :: u32) :: u64)"

function next_ordered :: "nat set \<Rightarrow> u64 list \<Rightarrow> nat \<Rightarrow> pin_error + (nat \<times> nat)" where
  "next_ordered avail ord idx = (if idx \<ge> MAXTHREADS then Inl Overrun else
     let cpu = cpu_order_at ord idx in
     if cpu \<in> avail then Inr (cpu, Suc idx) else if Suc idx \<ge> length ord then Inl (Exit (- 1)) else next_ordered avail ord (Suc idx))"
  by pat_completeness auto
termination by (relation "measure (\<lambda>(_, _, idx). MAXTHREADS - idx)") auto

declare next_ordered.simps [simp del]

fun place_ordered :: "nat set \<Rightarrow> u64 list \<Rightarrow> nat \<Rightarrow> nat \<Rightarrow> pin_error + nat list" where
  "place_ordered avail ord 0 idx = Inr []"
| "place_ordered avail ord (Suc k) idx = (case next_ordered avail ord idx of Inl e \<Rightarrow> Inl e
   | Inr (cpu, idx') \<Rightarrow> (case place_ordered avail ord k idx' of Inl e \<Rightarrow> Inl e | Inr cpus \<Rightarrow> Inr (cpu # cpus)))"

fun place_interleaved :: "system_info \<Rightarrow> nat \<Rightarrow> nat list \<Rightarrow> pin_error + nat list" where
  "place_interleaved si il [] = Inr []"
| "place_interleaved si il (j # js) = (case calculate_affinity j si il of Inl e \<Rightarrow> Inl e
   | Inr cpu \<Rightarrow> (case place_interleaved si il js of Inl e \<Rightarrow> Inl e | Inr cpus \<Rightarrow> Inr (cpu # cpus)))"

text \<open>The loop body of \<open>main\<close> that gives every pinorder its CPU list; \<open>ord\<close> holds the numbers of the file.\<close>

definition generate_cpu_list :: "system_info \<Rightarrow> u64 list \<Rightarrow> pinorder \<Rightarrow> pin_error + nat list" where
  "generate_cpu_list si ord po =
     (let n = if po_num_threads po = 0 then num_avail_cores si else unat (po_num_threads po) in
      if n > MAXTHREADS then Inl (Exit (- 1))
      else case cpu_list po of Some cpus \<Rightarrow> Inr (map unat cpus)
      | None \<Rightarrow> if ileave po \<noteq> 0 then place_interleaved si (unat (ileave po)) [0..<n]
          else if ord \<noteq> [] then place_ordered (avail_cores si) ord n 0
          else place_numeric si n None)"

end
