(* ===== verification/Pinorder_Correct.thy ===== *)
theory Pinorder_Correct
  imports Pinorder
begin

text \<open>
  What the options for the placement of the worker threads do: a CPU list that is written down is the list the
  threads are pinned to, and which lists and placements go wrong.
\<close>

section \<open>Ranges of CPUs\<close>

text \<open>The numbers \<open>a\<close>, \<open>a + k\<close>, \<dots> up to \<open>b\<close>, and \<open>a\<close>, \<open>a - k\<close>, \<dots> down to \<open>b\<close>.\<close>

definition range_up :: "nat \<Rightarrow> nat \<Rightarrow> nat \<Rightarrow> nat list" where
  "range_up a b k = map (\<lambda>i. a + i * k) [0..<Suc ((b - a) div k)]"

definition range_down :: "nat \<Rightarrow> nat \<Rightarrow> nat \<Rightarrow> nat list" where
  "range_down a b k = map (\<lambda>i. a - i * k) [0..<Suc ((a - b) div k)]"

definition cpu_range :: "nat \<times> nat \<times> nat \<Rightarrow> nat list" where
  "cpu_range r = (case r of (a, b, k) \<Rightarrow> if a \<le> b then range_up a b k else range_down a b k)"

text \<open>The numbers a loop of \<open>-o\<close> runs through.\<close>

fun pin_path :: "bool \<Rightarrow> u64 \<Rightarrow> u64 \<Rightarrow> u32 \<Rightarrow> nat list \<Rightarrow> bool" where
  "pin_path up limit skip cpu [] \<longleftrightarrow> \<not> (if up then scast cpu \<le> limit else scast cpu \<ge> limit)"
| "pin_path up limit skip cpu (u # us) \<longleftrightarrow> cpu = of_nat u \<and> (if up then scast cpu \<le> limit else scast cpu \<ge> limit) \<and>
     pin_path up limit skip (if up then ucast ((scast cpu :: u64) + skip) else ucast ((scast cpu :: u64) - skip)) us"

lemma scast_of_nat: "u < 2 ^ 31 \<Longrightarrow> (scast (of_nat u :: u32) :: u64) = of_nat u"
proof -
  assume u: "u < 2 ^ 31"
  have "sint (of_nat u :: u32) = int u" using u by (simp add: signed_of_nat signed_take_bit_int_eq_self)
  then show ?thesis by (simp add: scast_eq)
qed

lemma ucast_of_nat_32: "(ucast (of_nat m :: u64) :: u32) = of_nat m"
  by (simp only: word_unat_eq_iff unsigned_ucast_eq unat_of_nat take_bit_nat_def) (simp add: mod_mod_cancel)

lemma of_nat_u32: "u < 2 ^ 31 \<Longrightarrow> v < 2 ^ 31 \<Longrightarrow> (of_nat u :: u32) = of_nat v \<longleftrightarrow> u = v"
  by (simp add: word_unat_eq_iff unat_of_nat)

lemma of_nat_u64_less: "u < 2 ^ 63 \<Longrightarrow> v < 2 ^ 63 \<Longrightarrow> (of_nat u :: u64) < of_nat v \<longleftrightarrow> u < v"
  "u < 2 ^ 63 \<Longrightarrow> v < 2 ^ 63 \<Longrightarrow> (of_nat u :: u64) \<le> of_nat v \<longleftrightarrow> u \<le> v"
  by (simp_all add: word_less_nat_alt word_le_nat_alt unat_of_nat)

lemma cpu_isset_map:
  assumes "u < 1024" "\<And>v. v \<in> set vs \<Longrightarrow> v < 1024"
  shows "cpu_isset (of_nat u) (map of_nat vs) \<longleftrightarrow> u \<in> set vs"
proof -
  have "(scast (of_nat u :: u32) :: u64) < 1024" using assms(1) of_nat_u64_less(1) [of u 1024] by (simp add: scast_of_nat)
  moreover have "(of_nat u :: u32) \<in> of_nat ` set vs \<longleftrightarrow> u \<in> set vs" using assms of_nat_u32 by fastforce
  ultimately show ?thesis by (simp add: cpu_isset_def)
qed

text \<open>The loop appends its numbers, unless one of them has been there before.\<close>

lemma pin_range_path:
  assumes "pin_path up limit skip cpu us" and "n \<le> 1024" and "distinct vs" and "\<And>v. v \<in> set (vs @ us) \<Longrightarrow> v < n"
  shows "pin_range n up limit skip cpu (map of_nat vs) = (if distinct (vs @ us) then Inr (map of_nat (vs @ us)) else Inl (Exit (- 1)))"
  using assms
proof (induction us arbitrary: cpu vs)
  case Nil
  then show ?case by (subst pin_range.simps) simp
next
  case (Cons u us)
  let ?next = "if up then ucast ((scast cpu :: u64) + skip) else ucast ((scast cpu :: u64) - skip)"
  have c: "cpu = of_nat u" "(if up then scast cpu \<le> limit else scast cpu \<ge> limit)" "pin_path up limit skip ?next us" using Cons.prems(1) unfolding pin_path.simps by blast+
  have b: "v < n" "v < 1024" if "v \<in> set vs \<or> v = u \<or> v \<in> set us" for v
    using Cons.prems(2) Cons.prems(4) [of v] that by auto
  have iss: "cpu_isset cpu (map of_nat vs) \<longleftrightarrow> u \<in> set vs" unfolding c(1) by (rule cpu_isset_map) (use b in auto)
  show ?case
  proof (cases "u \<in> set vs")
    case True
    then show ?thesis using c(2) iss by (subst pin_range.simps) auto
  next
    case False
    have "insert u (set vs) \<subseteq> {..<n}" using b by auto
    then have "card (insert u (set vs)) \<le> n" using card_mono [of "{..<n}"] by fastforce
    then have room: "length vs < n" using False Cons.prems(3) distinct_card [of vs] by simp
    have "pin_range n up limit skip cpu (map of_nat vs) = pin_range n up limit skip ?next (map of_nat (vs @ [u]))"
      using c(1,2) iss False room by (subst pin_range.simps) (cases up; simp)
    also have "\<dots> = (if distinct ((vs @ [u]) @ us) then Inr (map of_nat ((vs @ [u]) @ us)) else Inl (Exit (- 1)))"
      by (rule Cons.IH [OF c(3) Cons.prems(2)]) (use False Cons.prems in auto)
    finally show ?thesis by simp
  qed
qed

lemma pin_path_up:
  assumes "b + k < 2 ^ 31" "0 < k" "a \<le> b + k" "us = (if a \<le> b then range_up a b k else [])"
  shows "pin_path True (of_nat b) (of_nat k) (of_nat a) us"
  using assms(3,4)
proof (induction us arbitrary: a)
  case Nil
  then have "b < a" by (auto simp: range_up_def split: if_splits)
  then show ?case using Nil assms by (simp add: scast_of_nat of_nat_u64_less)
next
  case (Cons u us)
  have ab: "a \<le> b" using Cons.prems(2) by (auto split: if_splits)
  have e: "range_up a b k = a # (if a + k \<le> b then range_up (a + k) b k else [])"
  proof (cases "a + k \<le> b")
    case True
    then have "(b - a) div k = Suc ((b - (a + k)) div k)" using assms(2) by (simp add: le_div_geq)
    then show ?thesis using True by (simp add: range_up_def map_upt_Suc algebra_simps del: upt_Suc)
  next
    case False
    then have "(b - a) div k = 0" using assms(2) by simp
    then show ?thesis using False by (simp add: range_up_def)
  qed
  then have u: "u = a" "us = (if a + k \<le> b then range_up (a + k) b k else [])" using Cons.prems(2) ab by (simp_all split: if_splits)
  have "(ucast ((of_nat a :: u64) + of_nat k) :: u32) = of_nat (a + k)" by (simp only: ucast_of_nat_32 flip: of_nat_add)
  moreover have "pin_path True (of_nat b) (of_nat k) (of_nat (a + k)) us" by (rule Cons.IH) (use u ab in auto)
  ultimately show ?case using ab assms u by (simp add: scast_of_nat of_nat_u64_less)
qed

lemma pin_path_down:
  assumes "a < 2 ^ 31" "0 < k" "k \<le> b" "b \<le> a + k" "us = (if b \<le> a then range_down a b k else [])" and b: "b < 2 ^ 31"
  shows "pin_path False (of_nat b) (of_nat k) (of_nat a) us"
  using assms(1,4,5)
proof (induction us arbitrary: a)
  case Nil
  then have "a < b" by (auto simp: range_down_def split: if_splits)
  then show ?case using Nil b assms by (simp add: scast_of_nat of_nat_u64_less)
next
  case (Cons u us)
  have ab: "b \<le> a" using Cons.prems(3) by (auto split: if_splits)
  have e: "range_down a b k = a # (if b \<le> a - k then range_down (a - k) b k else [])"
  proof (cases "b \<le> a - k")
    case True
    then have "(a - b) div k = Suc ((a - k - b) div k)" using assms(2,3) by (simp add: le_div_geq add.commute)
    then show ?thesis using True by (simp add: range_down_def map_upt_Suc algebra_simps del: upt_Suc)
  next
    case False
    then have "(a - b) div k = 0" using assms(2,3) ab by (simp add: div_less)
    then show ?thesis using False by (simp add: range_down_def)
  qed
  then have u: "u = a" "us = (if b \<le> a - k then range_down (a - k) b k else [])" using Cons.prems(3) ab by (simp_all split: if_splits)
  have "(of_nat a :: u64) - of_nat k = of_nat (a - k)" using ab assms(3) by (simp add: of_nat_diff)
  then have "(ucast ((of_nat a :: u64) - of_nat k) :: u32) = of_nat (a - k)" by (simp only: ucast_of_nat_32)
  moreover have "pin_path False (of_nat b) (of_nat k) (of_nat (a - k)) us" by (rule Cons.IH) (use u ab Cons.prems in auto)
  ultimately show ?case using ab Cons.prems(1) assms u by (simp add: scast_of_nat of_nat_u64_less)
qed

section \<open>A written list of CPUs\<close>

definition show_range :: "nat \<times> nat \<times> nat \<Rightarrow> string" where
  "show_range r = (case r of (a, b, k) \<Rightarrow> decimal a @ ''-'' @ decimal b @ '':'' @ decimal k)"

fun show_ranges :: "(nat \<times> nat \<times> nat) list \<Rightarrow> string" where
  "show_ranges [] = []"
| "show_ranges [r] = show_range r"
| "show_ranges (r # rs) = show_range r @ '','' @ show_ranges rs"

lemma strsep_cut:
  assumes "\<And>c. c \<in> set xs \<Longrightarrow> c \<noteq> d"
  shows "strsep (xs @ d # ys) [d] = (xs, Some ys)" "strsep xs [d] = (xs, None)"
proof -
  have n: "\<And>c. c \<in> set xs \<Longrightarrow> c \<notin> set [d]" using assms by simp
  have "takeWhile (\<lambda>c. c \<notin> set [d]) (xs @ d # ys) = xs" "dropWhile (\<lambda>c. c \<notin> set [d]) (xs @ d # ys) = d # ys" using n
    by (simp_all add: takeWhile_append2 dropWhile_append2)
  then show "strsep (xs @ d # ys) [d] = (xs, Some ys)" by (simp add: strsep_def)
  have "takeWhile (\<lambda>c. c \<notin> set [d]) xs = xs" "dropWhile (\<lambda>c. c \<notin> set [d]) xs = []" using n by simp_all
  then show "strsep xs [d] = (xs, None)" unfolding strsep_def by (simp only: list.case)
qed

lemma strtoul_whole: "n < 2 ^ 64 \<Longrightarrow> strtoul (decimal n) 0 = (of_nat n, [], False)"
  using strtoul_decimal [of "[]" 0 n] by simp

lemma parse_cpulist_range_show:
  assumes "a < 2 ^ 64" "b < 2 ^ 64" "k < 2 ^ 64"
  shows "parse_cpulist_range (show_range (a, b, k)) = [of_nat a, of_nat b, of_nat k]"
proof -
  have a: "strsep (decimal a @ CHR ''-'' # decimal b @ CHR '':'' # decimal k) ''-'' = (decimal a, Some (decimal b @ CHR '':'' # decimal k))"
    by (rule strsep_cut(1)) (rule decimal_char(2))
  have b: "strsep (decimal b @ CHR '':'' # decimal k) '':'' = (decimal b, Some (decimal k))"
    by (rule strsep_cut(1)) (rule decimal_char(4))
  have "[] \<noteq> decimal m" for m using decimal_nonempty [of m] by simp
  then show ?thesis using assms decimal_nonempty
    by (simp add: parse_cpulist_range_def show_range_def a b strtoul_whole)
qed

definition range_ok :: "nat \<Rightarrow> nat \<times> nat \<times> nat \<Rightarrow> bool" where
  "range_ok n r = (case r of (a, b, k) \<Rightarrow> a < n \<and> b < n \<and> 0 < k \<and> k < 2 ^ 30 \<and> (b < a \<longrightarrow> k \<le> b))"

lemma cpu_range_below: "range_ok n r \<Longrightarrow> u \<in> set (cpu_range r) \<Longrightarrow> u < n"
proof -
  assume r: "range_ok n r" "u \<in> set (cpu_range r)"
  obtain a b k where e: "r = (a, b, k)" by (cases r)
  show ?thesis
  proof (cases "a \<le> b")
    case True
    then have "u \<in> (\<lambda>i. a + i * k) ` set [0..<Suc ((b - a) div k)]" using r e by (simp only: cpu_range_def range_up_def prod.case if_True set_map)
    then obtain i where i: "u = a + i * k" and "i \<in> set [0..<Suc ((b - a) div k)]" by (rule imageE)
    then have i2: "i \<le> (b - a) div k" by (simp only: set_upt) simp
    have "i * k \<le> (b - a) div k * k" using i2 by simp
    also have "\<dots> \<le> b - a" by simp
    finally have "u \<le> b" using i True by simp
    then show ?thesis using r e by (simp add: range_ok_def)
  next
    case False
    then show ?thesis using r e by (auto simp: cpu_range_def range_down_def range_ok_def)
  qed
qed

lemma sint_small: "k < 2 ^ 31 \<Longrightarrow> sint (of_nat k :: u64) = int k"
  by (simp add: signed_of_nat signed_take_bit_int_eq_self)

lemma pin_csv_show:
  assumes r: "range_ok n r" and n: "n \<le> 1024" and vs: "distinct vs" "\<And>v. v \<in> set vs \<Longrightarrow> v < n"
  shows "pin_csv n (show_range r) (map of_nat vs) =
    (if distinct (vs @ cpu_range r) then Inr (map of_nat (vs @ cpu_range r)) else Inl (Exit (- 1)))"
proof -
  obtain a b k where e: "r = (a, b, k)" by (cases r)
  have b: "a < n" "b < n" "0 < k" "k < 2 ^ 30" "b < a \<Longrightarrow> k \<le> b" using r by (simp_all add: e range_ok_def)
  have "\<not> (of_nat b :: u64) \<ge> of_nat n" "(of_nat b :: u64) \<ge> of_nat a \<longleftrightarrow> a \<le> b" "sint (of_nat k :: u64) = int k"
    using b n by (simp_all add: of_nat_u64_less not_le sint_small)
  then have "pin_csv n (show_range r) (map of_nat vs) = pin_range n (a \<le> b) (of_nat b) (of_nat k) (of_nat a) (map of_nat vs)"
    using b n parse_cpulist_range_show [of a b k] by (simp add: pin_csv_def e Let_def ucast_of_nat_32)
  also have "\<dots> = (if distinct (vs @ cpu_range r) then Inr (map of_nat (vs @ cpu_range r)) else Inl (Exit (- 1)))"
  proof (rule pin_range_path [OF _ n vs(1)])
    show "pin_path (a \<le> b) (of_nat b) (of_nat k) (of_nat a) (cpu_range r)"
    proof (cases "a \<le> b")
      case True
      then show ?thesis using b n pin_path_up [of b k a "cpu_range r"] by (simp add: e cpu_range_def)
    next
      case False
      then show ?thesis using b n pin_path_down [of a k b "cpu_range r"] by (simp add: e cpu_range_def)
    qed
    show "\<And>v. v \<in> set (vs @ cpu_range r) \<Longrightarrow> v < n" using vs(2) cpu_range_below [OF r] by auto
  qed
  finally show ?thesis .
qed

lemma pin_csvs_show:
  assumes "\<And>r. r \<in> set rs \<Longrightarrow> range_ok n r" and n: "n \<le> 1024" and vs: "distinct vs" "\<And>v. v \<in> set vs \<Longrightarrow> v < n"
  shows "pin_csvs n (map show_range rs) (map of_nat vs) =
    (if distinct (vs @ concat (map cpu_range rs)) then Inr (map of_nat (vs @ concat (map cpu_range rs))) else Inl (Exit (- 1)))"
  using assms(1) vs
proof (induction rs arbitrary: vs)
  case (Cons r rs)
  have ok: "range_ok n r" using Cons.prems(1) by simp
  show ?case
  proof (cases "distinct (vs @ cpu_range r)")
    case True
    have "pin_csvs n (map show_range rs) (map of_nat (vs @ cpu_range r)) =
        (if distinct ((vs @ cpu_range r) @ concat (map cpu_range rs)) then Inr (map of_nat ((vs @ cpu_range r) @ concat (map cpu_range rs)))
         else Inl (Exit (- 1)))"
      by (rule Cons.IH) (use Cons.prems True cpu_range_below [OF ok] in auto)
    then show ?thesis using True pin_csv_show [OF ok n Cons.prems(2,3)] by simp
  next
    case False
    then show ?thesis using pin_csv_show [OF ok n Cons.prems(2,3)] by auto
  qed
qed simp

lemma show_range_no_comma: "c \<in> set (show_range r) \<Longrightarrow> c \<noteq> CHR '',''"
  by (auto simp: show_range_def dest: decimal_char(5) split: prod.splits)

lemma strsep_all_show: "rs \<noteq> [] \<Longrightarrow> strsep_all (show_ranges rs) '','' = map show_range rs"
proof (induction rs rule: show_ranges.induct)
  case (2 r)
  then show ?case using strsep_cut(2) [of "show_range r" "CHR '',''"] show_range_no_comma by (subst strsep_all.simps) simp
next
  case (3 r q rs)
  have "strsep (show_range r @ CHR '','' # show_ranges (q # rs)) '','' = (show_range r, Some (show_ranges (q # rs)))"
    by (rule strsep_cut(1)) (rule show_range_no_comma)
  then show ?case using 3 by (subst strsep_all.simps) simp
qed simp

text \<open>A CPU list is what it says: on a machine with at most 1024 CPUs (the size of a \<open>cpu_set_t\<close>), a list of ranges that is
  given to \<open>-o\<close>, counting upwards or downwards to a CPU whose number is not below the step, yields exactly these CPUs in this order,
  one thread each, if no CPU occurs twice; otherwise the program exits with an error.\<close>

theorem pinorder_list_roundtrip:
  assumes "\<forall>r\<in>set rs. range_ok n r" and "rs \<noteq> []" and "n \<le> 1024"
  shows "pinorder_o n (show_ranges rs) = (let cpus = concat (map cpu_range rs) in
    if distinct cpus then Inr \<lparr>cpu_list = Some (map of_nat cpus), po_num_threads = of_nat (length cpus), ileave = 0\<rparr> else Inl (Exit (- 1)))"
proof -
  let ?cpus = "concat (map cpu_range rs)"
  have p: "pin_csvs n (strsep_all (show_ranges rs) '','') [] = (if distinct ?cpus then Inr (map of_nat ?cpus) else Inl (Exit (- 1)))"
    using pin_csvs_show [of rs n "[]"] assms strsep_all_show by simp
  have below: "set ?cpus \<subseteq> {..<n}" using cpu_range_below assms(1) by fastforce
  have "card {c \<in> set (map of_nat ?cpus :: u32 list). (scast c :: u64) < 1024} \<le> card (set (map of_nat ?cpus :: u32 list))"
    by (rule card_mono) auto
  also have "\<dots> \<le> card (set ?cpus)" by (simp add: card_image_le)
  also have "\<dots> \<le> n" using card_mono [OF _ below] by simp
  finally show ?thesis using p by (simp add: pinorder_o_def Let_def)
qed

text \<open>\<open>-o 0-3:1,7-5:2\<close> on eight CPUs.\<close>

theorem pinorder_list_roundtrip_witness:
  "pinorder_o 8 (show_ranges [(0, 3, 1), (7, 5, 2)]) = Inr \<lparr>cpu_list = Some [0, 1, 2, 3, 7, 5], po_num_threads = 6, ileave = 0\<rparr>"
proof -
  have "concat (map cpu_range [(0, 3, 1), (7, 5, 2)]) = [0, 1, 2, 3, 7, 5]"
    by (simp add: cpu_range_def range_up_def range_down_def upt_rec)
  then show ?thesis using pinorder_list_roundtrip [of "[(0, 3, 1), (7, 5, 2)]" 8] by (simp add: range_ok_def)
qed

section \<open>Counting down to CPU 0\<close>

text \<open>The counter goes on below 0: converted to \<open>unsigned long\<close> a negative number is not less than 0.\<close>

lemma countdown_fresh:
  assumes "j \<le> 1024"
  shows "(of_nat a - of_nat j :: u32) \<notin> set (map (\<lambda>i. of_nat a - of_nat i) [0..<j])"
proof
  assume "(of_nat a - of_nat j :: u32) \<in> set (map (\<lambda>i. of_nat a - of_nat i) [0..<j])"
  then obtain i where i: "i < j" "(of_nat j :: u32) = of_nat i" by auto
  then show False using of_nat_u32 [of j i] assms by simp
qed

lemma pin_range_zero:
  assumes n: "n \<le> 1024" "a < n" and j: "j \<le> n"
  shows "pin_range n False 0 1 (of_nat a - of_nat j) (map (\<lambda>i. of_nat a - of_nat i) [0..<j]) = Inl Overrun"
  using j
proof (induction "n - j" arbitrary: j)
  case 0
  then have j: "j = n" by simp
  have "(of_nat a - of_nat j :: u32) \<notin> set (map (\<lambda>i. of_nat a - of_nat i) [0..<j])" by (rule countdown_fresh) (use j n in simp)
  then show ?case using j by (subst pin_range.simps) (simp add: cpu_isset_def)
next
  case (Suc m)
  then have j: "j < n" by simp
  have "(of_nat a - of_nat j :: u32) \<notin> set (map (\<lambda>i. of_nat a - of_nat i) [0..<j])" by (rule countdown_fresh) (use j n in simp)
  moreover have "(ucast ((scast (of_nat a - of_nat j :: u32) :: u64) - 1) :: u32) = of_nat a - of_nat (Suc j)"
  proof -
    have dec: "(ucast ((scast w :: u64) - 1) :: u32) = w - 1" for w :: u32
    proof transfer
      fix k :: int
      have "take_bit 32 (signed_take_bit 31 k - 1) = take_bit 32 (take_bit 32 (signed_take_bit 31 k) - take_bit 32 1)" by (simp only: take_bit_diff)
      also have "take_bit 32 (signed_take_bit 31 k) = take_bit 32 k" by (simp add: take_bit_signed_take_bit)
      also have "take_bit 32 (take_bit 32 k - take_bit 32 1) = take_bit 32 (k - 1)" by (simp only: take_bit_diff)
      finally show "take_bit LENGTH(32) (take_bit LENGTH(64) ((signed_take_bit (LENGTH(32) - Suc 0)) k - 1)) = take_bit LENGTH(32) (k - 1)" by simp
    qed
    show ?thesis unfolding dec by (simp add: algebra_simps)
  qed
  ultimately have "pin_range n False 0 1 (of_nat a - of_nat j) (map (\<lambda>i. of_nat a - of_nat i) [0..<j]) =
      pin_range n False 0 1 (of_nat a - of_nat (Suc j)) (map (\<lambda>i. of_nat a - of_nat i) [0..<Suc j])"
    using j by (subst pin_range.simps) (simp add: cpu_isset_def)
  also have "\<dots> = Inl Overrun" by (rule Suc.hyps(1)) (use Suc.hyps(2) j in auto)
  finally show ?case .
qed

text \<open>C37: counting down to CPU 0 writes behind the end of \<open>cpus_specified\<close>: \<open>-o a-0\<close> is accepted by every check, but its loop
  does not stop at 0, because the negative counter is compared as an \<open>unsigned long\<close>.\<close>

theorem pinorder_down_to_zero_overruns:
  assumes "0 < a" "a < n" "n \<le> 1024"
  shows "pinorder_o n (decimal a @ ''-0'') = Inl Overrun"
proof -
  have z: "decimal 0 = ''0''" by code_simp
  have "strsep (decimal a @ CHR ''-'' # ''0'') ''-'' = (decimal a, Some ''0'')" by (rule strsep_cut(1)) (rule decimal_char(2))
  moreover have "strsep ''0'' '':'' = (''0'', None)" by (simp add: strsep_def)
  moreover have "strtoul ''0'' 0 = (0, [], False)" using strtoul_whole [of 0] by (simp add: z)
  moreover have "strtoul (decimal a) 0 = (of_nat a, [], False)" using strtoul_whole [of a] assms by simp
  moreover have "[] \<noteq> decimal a" using decimal_nonempty [of a] by simp
  ultimately have r: "parse_cpulist_range (decimal a @ ''-0'') = [of_nat a, 0]" by (simp add: parse_cpulist_range_def)
  have "\<not> (0 :: u64) \<ge> of_nat a" "\<not> (0 :: u64) \<ge> of_nat n" using assms of_nat_u64_less(1) [of 0 a] of_nat_u64_less(1) [of 0 n] by (simp_all add: not_le)
  then have "pin_csv n (decimal a @ ''-0'') [] = pin_range n False 0 1 (of_nat a) []"
    using r by (simp add: pin_csv_def Let_def ucast_of_nat_32)
  also have "\<dots> = Inl Overrun" using pin_range_zero [of n a 0] assms by simp
  finally have p: "pin_csv n (decimal a @ ''-0'') [] = Inl Overrun" .
  have "c \<noteq> CHR '',''" if "c \<in> set (decimal a @ ''-0'')" for c using that decimal_char(5) by auto
  then have "strsep_all (decimal a @ ''-0'') '','' = [decimal a @ ''-0'']"
    using strsep_cut(2) [of "decimal a @ ''-0''" "CHR '',''"] by (subst strsep_all.simps) simp
  then show ?thesis using p by (simp add: pinorder_o_def)
qed

theorem pinorder_down_to_zero_overruns_witness: "pinorder_o 8 ''3-0'' = Inl Overrun"
proof -
  have "decimal 3 = ''3''" by code_simp
  then show ?thesis using pinorder_down_to_zero_overruns [of 3 8] by simp
qed

end
