(* ===== verification/Placement.thy ===== *)
theory Placement
  imports Pinorder_Correct
begin

text \<open>
  The CPU lists that \<open>main\<close> makes for the threads of a \<open>-t\<close> option: in numerical order, in the order of a file, and
  interleaved.
\<close>

section \<open>Numerical order\<close>

lemma next_available_filter:
  "next_available avail n cpu = (case filter (\<lambda>c. c \<in> avail) [cpu..<n] of [] \<Rightarrow> None | c # _ \<Rightarrow> Some c)"
  by (induction avail n cpu rule: next_available.induct) (subst next_available.simps, auto simp: upt_conv_Cons)

lemma next_available_rest:
  "next_available avail n cpu = Some c \<Longrightarrow> filter (\<lambda>c. c \<in> avail) [cpu..<n] = c # filter (\<lambda>c. c \<in> avail) [Suc c..<n]"
proof (induction avail n cpu rule: next_available.induct)
  case (1 avail n cpu)
  then show ?case by (auto simp: next_available.simps [of avail n cpu] upt_conv_Cons split: if_splits)
qed

lemma place_numeric_filter:
  "place_numeric si k last_cpu =
     (let av = filter (\<lambda>c. c \<in> avail_cores si) [(case last_cpu of None \<Rightarrow> 0 | Some c \<Rightarrow> Suc c)..<num_cores si]
      in if k \<le> length av then Inr (take k av) else Inl (Exit (- 1)))"
proof (induction k arbitrary: last_cpu)
  case 0
  show ?case by simp
next
  case (Suc k)
  let ?from = "case last_cpu of None \<Rightarrow> 0 | Some c \<Rightarrow> Suc c"
  show ?case
  proof (cases "next_available (avail_cores si) (num_cores si) ?from")
    case None
    then have "filter (\<lambda>c. c \<in> avail_cores si) [?from..<num_cores si] = []" by (simp add: next_available_filter split: list.splits)
    then show ?thesis using None by (simp add: get_next_available_cpu_def)
  next
    case (Some c)
    from next_available_rest [OF this] Some show ?thesis
      by (simp add: get_next_available_cpu_def Suc.IH [of "Some c"] Let_def)
  qed
qed

section \<open>The order of a file\<close>

definition small_cpus :: "nat list \<Rightarrow> bool" where
  "small_cpus cs \<longleftrightarrow> (\<forall>c\<in>set cs. c < 1024)"

lemma cpu_order_at_map:
  assumes "small_cpus cs"
  shows "cpu_order_at (map of_nat cs) i = (if i < length cs then cs ! i else 0)"
proof -
  have "unat (scast (ucast (of_nat c :: u64) :: u32) :: u64) = c" if "c < 1024" for c
    using that by (simp only: ucast_of_nat_32) (simp add: scast_of_nat unat_of_nat)
  then show ?thesis using assms by (simp add: cpu_order_at_def small_cpus_def)
qed

text \<open>One search: the first available CPU of the rest of the file, and the index behind it.\<close>

lemma next_ordered_found:
  assumes "small_cpus cs" "length cs \<le> MAXTHREADS" "idx < length cs" "c \<in> avail" "drop idx cs = xs @ c # ys" "\<And>x. x \<in> set xs \<Longrightarrow> x \<notin> avail"
  shows "next_ordered avail (map of_nat cs) idx = Inr (c, Suc (idx + length xs))"
  using assms(3-)
proof (induction xs arbitrary: idx)
  case Nil
  then have "cs ! idx = c" by (simp add: nth_via_drop)
  then show ?case using Nil assms(1, 2) by (subst next_ordered.simps) (simp add: cpu_order_at_map)
next
  case (Cons x xs)
  then have x: "cs ! idx = x" "x \<notin> avail" by (auto simp: nth_via_drop)
  have d: "drop (Suc idx) cs = xs @ c # ys" using Cons.prems(3) by (metis append_Cons drop_Suc list.sel(3) tl_drop)
  then have l: "Suc idx < length cs" by (metis append_is_Nil_conv drop_eq_Nil linorder_not_less list.distinct(1))
  have "next_ordered avail (map of_nat cs) (Suc idx) = Inr (c, Suc (Suc idx + length xs))"
    by (rule Cons.IH) (use l d Cons.prems in auto)
  then show ?case using l x assms(1, 2) by (subst next_ordered.simps) (simp add: cpu_order_at_map)
qed

lemma next_ordered_none:
  assumes "small_cpus cs" "length cs \<le> MAXTHREADS" "idx < length cs" "\<And>x. x \<in> set (drop idx cs) \<Longrightarrow> x \<notin> avail"
  shows "next_ordered avail (map of_nat cs) idx = Inl (Exit (- 1))"
  using assms(3-)
proof (induction "length cs - idx" arbitrary: idx)
  case 0
  then show ?case by simp
next
  case (Suc m)
  have x: "cs ! idx \<notin> avail" using Suc.prems by (metis Cons_nth_drop_Suc list.set_intros(1))
  have "next_ordered avail (map of_nat cs) (Suc idx) = Inl (Exit (- 1))" if "Suc idx < length cs"
    by (rule Suc.hyps(1)) (use that Suc.hyps(2) Suc.prems(2) set_drop_subset_set_drop [of idx "Suc idx" cs] in auto)
  then show ?case using x Suc.prems(1) assms(1, 2) by (subst next_ordered.simps) (auto simp: cpu_order_at_map)
qed

text \<open>The threads get the available CPUs in the order of the file, as long as there are enough of them.\<close>

lemma filter_first: "filter P xs = y # ys \<Longrightarrow> \<exists>us vs. xs = us @ y # vs \<and> (\<forall>u\<in>set us. \<not> P u) \<and> P y \<and> ys = filter P vs"
  by (drule filter_eq_ConsD) auto

lemma place_ordered_prefix:
  assumes "small_cpus cs" "length cs \<le> MAXTHREADS" "k \<le> length (filter (\<lambda>c. c \<in> avail) (drop idx cs))"
  shows "place_ordered avail (map of_nat cs) k idx = Inr (take k (filter (\<lambda>c. c \<in> avail) (drop idx cs)))"
  using assms(3)
proof (induction k arbitrary: idx)
  case 0
  show ?case by simp
next
  case (Suc k)
  then obtain c rest where f: "filter (\<lambda>c. c \<in> avail) (drop idx cs) = c # rest"
    by (cases "filter (\<lambda>c. c \<in> avail) (drop idx cs)") auto
  from filter_first [OF this] obtain us vs where us: "drop idx cs = us @ c # vs" "\<And>u. u \<in> set us \<Longrightarrow> u \<notin> avail"
    "c \<in> avail" "rest = filter (\<lambda>c. c \<in> avail) vs" by auto
  have idx: "idx < length cs" using us(1) by (metis append_is_Nil_conv drop_eq_Nil linorder_not_less list.distinct(1))
  have d: "drop (Suc (idx + length us)) cs = vs"
  proof -
    have "drop (Suc (idx + length us)) cs = drop (Suc (length us)) (drop idx cs)" by (simp add: add.commute)
    then show ?thesis using us(1) by simp
  qed
  have n: "next_ordered avail (map of_nat cs) idx = Inr (c, Suc (idx + length us))"
    by (rule next_ordered_found) (use assms idx us in auto)
  have "place_ordered avail (map of_nat cs) k (Suc (idx + length us)) = Inr (take k rest)"
    using Suc.IH [of "Suc (idx + length us)"] Suc.prems f us(4) by (simp only: d) simp
  then show ?case using n f by simp
qed

text \<open>Once all available CPUs of the file are used, the search goes on behind the last of them.\<close>

lemma place_ordered_all:
  assumes "small_cpus cs" "length cs \<le> MAXTHREADS" "idx \<le> length cs" "filter (\<lambda>c. c \<in> avail) (drop idx cs) = fs"
    "fs = [] \<Longrightarrow> p = idx" "fs \<noteq> [] \<Longrightarrow> 0 < p \<and> p \<le> length cs \<and> cs ! (p - 1) \<in> avail \<and> (\<forall>c\<in>set (drop p cs). c \<notin> avail)"
  shows "place_ordered avail (map of_nat cs) (length fs + k) idx =
    (case place_ordered avail (map of_nat cs) k p of Inl e \<Rightarrow> Inl e | Inr r \<Rightarrow> Inr (fs @ r))"
  using assms(3-)
proof (induction fs arbitrary: idx)
  case Nil
  then show ?case by (simp split: sum.split)
next
  case (Cons f fs)
  from filter_first [OF Cons.prems(2)] obtain us vs where us: "drop idx cs = us @ f # vs" "\<And>u. u \<in> set us \<Longrightarrow> u \<notin> avail"
    "f \<in> avail" "fs = filter (\<lambda>c. c \<in> avail) vs" by auto
  let ?i = "Suc (idx + length us)"
  have idx: "idx < length cs" using us(1) by (metis append_is_Nil_conv drop_eq_Nil linorder_not_less list.distinct(1))
  have len: "length (drop idx cs) = length us + Suc (length vs)" by (simp add: us(1))
  have d: "drop ?i cs = vs"
  proof -
    have "drop ?i cs = drop (Suc (length us)) (drop idx cs)" by (simp add: add.commute)
    then show ?thesis using us(1) by simp
  qed
  have f: "cs ! (idx + length us) = f" using us(1) idx nth_append_length [of us f vs] nth_drop [of idx cs "length us"] by simp
  have n: "next_ordered avail (map of_nat cs) idx = Inr (f, ?i)"
    by (rule next_ordered_found) (use assms(1,2) idx us in auto)
  have p: "0 < p" "p \<le> length cs" "cs ! (p - 1) \<in> avail" "\<And>c. c \<in> set (drop p cs) \<Longrightarrow> c \<notin> avail" using Cons.prems(4) by auto
  have i: "?i \<le> p"
  proof (rule ccontr)
    assume "\<not> ?i \<le> p"
    then have "p \<le> idx + length us" "idx + length us < length cs" using len by auto
    then have "f \<in> set (drop p cs)" using f nth_drop [of p cs "idx + length us - p"] by (metis Cons_nth_drop_Suc list.set_intros(1) set_drop_subset_set_drop subsetD)
    then show False using p(4) us(3) by blast
  qed
  have e: "p = ?i" if "fs = []"
  proof (rule ccontr)
    assume "p \<noteq> ?i"
    then have "p - Suc 0 = Suc (p - 2)" using i by simp
    then have "cs ! (p - 1) = vs ! (p - 1 - ?i)" "p - 1 - ?i < length vs" using \<open>p \<noteq> ?i\<close> i p(1,2) d nth_drop [of ?i cs "p - 1 - ?i"] len by auto
    then have "cs ! (p - 1) \<in> set vs" by simp
    moreover have "\<forall>v\<in>set vs. v \<notin> avail" using that us(4) by (metis empty_filter_conv)
    ultimately show False using p(3) by blast
  qed
  have "place_ordered avail (map of_nat cs) (length fs + k) ?i =
    (case place_ordered avail (map of_nat cs) k p of Inl e \<Rightarrow> Inl e | Inr r \<Rightarrow> Inr (fs @ r))"
  proof (rule Cons.IH)
    show "?i \<le> length cs" using i p(2) by simp
    show "filter (\<lambda>c. c \<in> avail) (drop ?i cs) = fs" by (simp only: d us(4))
    show "p = ?i" if "fs = []" by (rule e [OF that])
    show "0 < p \<and> p \<le> length cs \<and> cs ! (p - 1) \<in> avail \<and> (\<forall>c\<in>set (drop p cs). c \<notin> avail)" using p by blast
  qed
  then show ?case using n by (simp split: sum.splits)
qed

lemma place_ordered_one_more:
  assumes "small_cpus cs" "length cs < MAXTHREADS" "cs \<noteq> []" "filter (\<lambda>c. c \<in> avail) cs = fs"
  shows "place_ordered avail (map of_nat cs) (Suc (length fs)) 0 =
    (if last cs \<in> avail \<and> 0 \<in> avail then Inr (fs @ [0]) else Inl (Exit (- 1)))"
proof (cases "fs = []")
  case True
  then have "\<And>x. x \<in> set (drop 0 cs) \<Longrightarrow> x \<notin> avail" using assms(4) by (auto simp: filter_empty_conv)
  then have "next_ordered avail (map of_nat cs) 0 = Inl (Exit (- 1))" "last cs \<notin> avail"
    using next_ordered_none [of cs 0 avail] assms last_in_set [of cs] by auto
  then show ?thesis using True by simp
next
  case False
  then obtain f where "f \<in> set cs" "f \<in> avail" using assms(4) by (metis empty_filter_conv)
  then obtain us f' vs where cs: "cs = us @ f' # vs" "f' \<in> avail" "\<forall>v\<in>set vs. v \<notin> avail"
    using split_list_last_prop [of cs "\<lambda>c. c \<in> avail"] by blast
  let ?p = "Suc (length us)"
  have "place_ordered avail (map of_nat cs) (length fs + 1) 0 =
      (case place_ordered avail (map of_nat cs) 1 ?p of Inl e \<Rightarrow> Inl e | Inr r \<Rightarrow> Inr (fs @ r))"
    by (rule place_ordered_all) (use assms False cs in auto)
  moreover have "next_ordered avail (map of_nat cs) ?p =
      (if vs = [] \<and> 0 \<in> avail then Inr (0, Suc ?p) else Inl (Exit (- 1)))"
  proof (cases "vs = []")
    case True
    then have "length cs = ?p" using cs(1) by simp
    moreover from this have "cpu_order_at (map of_nat cs) ?p = 0" using cpu_order_at_map [OF assms(1), of ?p] by simp
    ultimately show ?thesis using True assms(2) by (subst next_ordered.simps) simp
  next
    case False
    then show ?thesis using next_ordered_none [of cs ?p avail] cs assms(1, 2) by simp
  qed
  moreover have "last cs \<in> avail \<longleftrightarrow> vs = []" using cs by auto
  ultimately show ?thesis by (simp split: if_splits)
qed

section \<open>Interleaving\<close>

text \<open>The loop counts in two digits, the lower one to the number of multiples of the interleave below the number of CPUs.\<close>

lemma affinity_loop_digits:
  assumes il: "0 < il" and n: "0 < n" and bound: "n + il < 2 ^ 64" and m: "m = (n - 1) div il + 1"
  shows "affinity_loop n il t = (t mod m * il, t div m)"
proof (induction t)
  case 0
  show ?case by simp
next
  case (Suc t)
  have lt: "t mod m * il < n"
  proof -
    have "t mod m \<le> (n - 1) div il" using m mod_less_divisor [of m t] by simp
    then have "t mod m * il \<le> (n - 1) div il * il" by simp
    also have "\<dots> \<le> n - 1" by simp
    finally show ?thesis using n by simp
  qed
  then have "(t mod m * il + il) mod 2 ^ 64 = Suc (t mod m) * il" using bound by simp
  moreover have "Suc (t mod m) * il \<ge> n \<longleftrightarrow> Suc (t mod m) = m"
  proof -
    have "n \<le> Suc (t mod m) * il \<longleftrightarrow> (n - 1) div il < Suc (t mod m)" using il n by (subst div_less_iff_less_mult) auto
    moreover have "t mod m < m" using m by simp
    moreover have "(n - 1) div il = m - 1" using m by simp
    ultimately show ?thesis by linarith
  qed
  ultimately show ?case using Suc.IH m by (simp add: Let_def mod_Suc div_Suc del: mult_Suc)
qed

lemma affinity_distinct:
  fixes il n m :: nat
  assumes "0 < il" "s < n" "t < n" "m = (n - 1) div il + 1" and eq: "s mod m * il + s div m = t mod m * il + t div m"
  shows "s = t"
proof -
  have d: "u div m < il" if "u < n" for u
  proof -
    have "n \<le> m * il"
    proof -
      have "n - 1 < ((n - 1) div il + 1) * il" using dividend_less_div_times [OF assms(1), of "n - 1"] by simp
      then show ?thesis using assms(4) by simp
    qed
    then show ?thesis using that by (simp add: less_mult_imp_div_less mult.commute)
  qed
  have "(a * il + b) div il = a" "(a * il + b) mod il = b" if "b < il" for a b using that by simp_all
  from this [OF d [OF assms(2)], of "s mod m"] this [OF d [OF assms(3)], of "t mod m"]
  have "s mod m = t mod m" "s div m = t div m" using eq by simp_all
  then show ?thesis by (metis div_mult_mod_eq)
qed

definition interleaved :: "nat \<Rightarrow> nat \<Rightarrow> nat \<Rightarrow> nat list" where
  "interleaved n il k = (let m = (n - 1) div il + 1 in map (\<lambda>t. t mod m * il + t div m) [0..<k])"

lemma place_interleaved_map:
  assumes "\<And>t. t \<in> set ts \<Longrightarrow> calculate_affinity t si il = Inr (f t)"
  shows "place_interleaved si il ts = Inr (map f ts)"
  using assms by (induction ts) simp_all

lemma calculate_affinity_digits:
  assumes "0 < il" "t < num_cores si" "num_cores si + il < 2 ^ 63" "m = (num_cores si - 1) div il + 1"
  shows "calculate_affinity t si il = Inr (t mod m * il + t div m)"
proof -
  have "t mod m * il \<le> (num_cores si - 1) div il * il" using assms(4) mod_less_divisor [of m t] by (intro mult_le_mono1) simp
  then have "t mod m * il \<le> num_cores si - 1" by (rule order_trans) simp
  moreover have "t div m \<le> t" by simp
  ultimately have "t mod m * il + t div m < 2 ^ 64" using assms(2,3) by (simp del: div_le_dividend)
  moreover have "affinity_loop (num_cores si) il t = (t mod m * il, t div m)" by (rule affinity_loop_digits) (use assms in auto)
  ultimately show ?thesis using assms(2) by (simp add: calculate_affinity_def)
qed

lemma interleaved_distinct:
  assumes "0 < il" "k \<le> n"
  shows "distinct (interleaved n il k)"
proof -
  define m where "m = (n - 1) div il + 1"
  have "inj_on (\<lambda>t. t mod m * il + t div m) {0..<k}"
  proof (rule inj_onI)
    fix s t
    assume "s \<in> {0..<k}" "t \<in> {0..<k}" and eq: "s mod m * il + s div m = t mod m * il + t div m"
    then have "s < n" "t < n" using assms(2) by simp_all
    then show "s = t" by (rule affinity_distinct [OF assms(1) _ _ m_def eq])
  qed
  then show ?thesis by (simp add: interleaved_def Let_def m_def distinct_map)
qed

lemma interleaved_range:
  assumes "0 < il" "k \<le> n" "il dvd n" "c \<in> set (interleaved n il k)"
  shows "c < n"
proof -
  obtain q where q: "n = il * q" using assms(3) by (elim dvdE)
  obtain t where t: "t < k" "c = t mod ((n - 1) div il + 1) * il + t div ((n - 1) div il + 1)"
    using assms(4) by (auto simp: interleaved_def Let_def)
  have "0 < q" using q t(1) assms(2) by (cases q) auto
  then have "(n - 1) div il + 1 = q"
    using q assms(1) by (cases q) (auto simp: div_mult_self1 Suc_diff_le add_diff_assoc2 div_nat_eqI)
  then have c: "c = t mod q * il + t div q" using t(2) by simp
  have "t div q < il" using t(1) assms(2) q by (simp add: less_mult_imp_div_less)
  moreover have "t mod q * il \<le> (q - 1) * il" using mod_less_divisor [OF \<open>0 < q\<close>, of t] by (intro mult_le_mono1) linarith
  ultimately have "c < (q - 1) * il + il" unfolding c by (intro add_le_less_mono)
  also have "\<dots> = n" using q \<open>0 < q\<close> by (cases q) (simp_all add: algebra_simps)
  finally show ?thesis .
qed

lemma interleaved_outside:
  assumes "0 < il" "\<not> il dvd n" "((n - 1) div il + 1) * (n mod il + 1) \<le> k"
  shows "n \<in> set (interleaved n il k)"
proof -
  define m where "m = (n - 1) div il + 1"
  have n: "n \<noteq> 0" "n mod il \<noteq> 0" using assms(2) by (metis dvd_0_right, simp add: dvd_eq_mod_eq_0)
  have "(n - 1) div il = n div il"
  proof (rule div_nat_eqI)
    have "il * (n div il) + n mod il = n" by simp
    then show "il * (n div il) \<le> n - 1" using n(2) by linarith
    show "n - 1 < il * Suc (n div il)" using dividend_less_times_div [OF assms(1), of n] by simp
  qed
  then have m1: "m - 1 = n div il" by (simp add: m_def)
  let ?t = "m * (n mod il) + (m - 1)"
  have pos: "0 < m" by (simp add: m_def)
  have "?t < k" using assms(3) pos unfolding m_def [symmetric] by (simp add: algebra_simps)
  then have t: "?t \<in> {0..<k}" by simp
  have "(m * a + b) mod m = b" "(m * a + b) div m = a" if "b < m" for a b using that by simp_all
  from this [of "m - 1" "n mod il"] have "?t mod m = m - 1" "?t div m = n mod il" using pos by simp_all
  then have "?t mod m * il + ?t div m = n" using m1 by simp
  from this [symmetric] t have "n \<in> (\<lambda>t. t mod m * il + t div m) ` {0..<k}" by (rule image_eqI)
  then show ?thesis by (simp add: interleaved_def Let_def m_def)
qed

section \<open>The lists of \<open>main\<close>\<close>

text \<open>The threads of \<open>-t n\<close> get the first \<open>n\<close> CPUs of the affinity mask, in numerical order or in the order of the file;
  with numerical order the program stops when the mask has fewer.\<close>

theorem placement_in_order:
  assumes "cpu_list po = None" "ileave po = 0"
    and n: "n = (if po_num_threads po = 0 then num_avail_cores si else unat (po_num_threads po))" "n \<le> MAXTHREADS"
    and cs: "small_cpus cs" "length cs \<le> MAXTHREADS"
    and av: "av = filter (\<lambda>c. c \<in> avail_cores si) (if cs = [] then [0..<num_cores si] else cs)" "cs = [] \<or> n \<le> length av"
  shows "generate_cpu_list si (map of_nat cs) po = (if n \<le> length av then Inr (take n av) else Inl (Exit (- 1)))"
proof (cases "cs = []")
  case True
  then show ?thesis using assms(1-4) av place_numeric_filter [of si n None] by (auto simp: generate_cpu_list_def Let_def)
next
  case False
  then have "place_ordered (avail_cores si) (map of_nat cs) n 0 = Inr (take n av)"
    using place_ordered_prefix [OF cs, of n "avail_cores si" 0] av by simp
  then show ?thesis using False assms(1-4) av by (auto simp: generate_cpu_list_def Let_def)
qed

text \<open>With one thread more than the file has available CPUs, the search reads behind the last number of the file: the program stops
  only if the last number is not available; otherwise it pins the thread to CPU 0, though the file may not name it.\<close>

theorem placement_behind_file:
  assumes "cpu_list po = None" "ileave po = 0" "po_num_threads po \<noteq> 0"
    and cs: "small_cpus cs" "length cs < MAXTHREADS" "cs \<noteq> []"
    and fs: "fs = filter (\<lambda>c. c \<in> avail_cores si) cs" "unat (po_num_threads po) = Suc (length fs)"
  shows "generate_cpu_list si (map of_nat cs) po =
    (if last cs \<in> avail_cores si \<and> 0 \<in> avail_cores si then Inr (fs @ [0]) else Inl (Exit (- 1)))"
proof -
  have "length fs \<le> length cs" using fs(1) by simp
  then show ?thesis using assms(1-3) cs fs(2) place_ordered_one_more [OF cs fs(1) [symmetric]] by (simp add: generate_cpu_list_def)
qed

text \<open>A file with the CPUs 2 and 3, and three threads.\<close>

theorem placement_behind_file_witness:
  "generate_cpu_list \<lparr>num_cores = 4, num_online_cores = 4, avail_cores = {0, 1, 2, 3}, num_avail_cores = 4\<rparr> (map of_nat [2, 3])
     \<lparr>cpu_list = None, po_num_threads = 3, ileave = 0\<rparr> = Inr [2, 3, 0]"
  using placement_behind_file [of "\<lparr>cpu_list = None, po_num_threads = 3, ileave = 0\<rparr>" "[2, 3]" "[2, 3]"
    "\<lparr>num_cores = 4, num_online_cores = 4, avail_cores = {0, 1, 2, 3}, num_avail_cores = 4\<rparr>"]
  by (simp add: small_cpus_def MAXTHREADS_def)

theorem placement_in_order_witness:
  "generate_cpu_list \<lparr>num_cores = 4, num_online_cores = 4, avail_cores = {1, 3}, num_avail_cores = 2\<rparr> (map of_nat [])
     \<lparr>cpu_list = None, po_num_threads = 0, ileave = 0\<rparr> = Inr [1, 3]"
  using placement_in_order [of "\<lparr>cpu_list = None, po_num_threads = 0, ileave = 0\<rparr>" 2
    "\<lparr>num_cores = 4, num_online_cores = 4, avail_cores = {1, 3}, num_avail_cores = 2\<rparr>" "[]" "[1, 3]"]
  by (simp add: small_cpus_def MAXTHREADS_def upt_rec)

text \<open>With an interleave no two threads share a CPU; the CPUs exist if the interleave divides their number, and otherwise, given
  enough threads, one of them is pinned to the CPU behind the last.\<close>

theorem placement_interleaved:
  assumes "cpu_list po = None" "unat (ileave po) = il" "0 < il" "num_cores si = n" "n + il < 2 ^ 63"
    and k: "unat (po_num_threads po) = k" "0 < k" "k \<le> n" "k \<le> MAXTHREADS"
  shows "\<exists>cpus. generate_cpu_list si ord po = Inr cpus \<and> length cpus = k \<and> distinct cpus \<and>
    (il dvd n \<longrightarrow> (\<forall>c\<in>set cpus. c < n)) \<and> (\<not> il dvd n \<and> ((n - 1) div il + 1) * (n mod il + 1) \<le> k \<longrightarrow> n \<in> set cpus)"
proof (intro exI conjI impI ballI)
  have "ileave po \<noteq> 0" "po_num_threads po \<noteq> 0" using assms(2,3) k(1,2) by auto
  moreover have "place_interleaved si il [0..<k] = Inr (interleaved n il k)"
    using place_interleaved_map [of "[0..<k]" si il] calculate_affinity_digits assms(3-5) k(3) by (simp add: interleaved_def Let_def)
  ultimately show "generate_cpu_list si ord po = Inr (interleaved n il k)" using assms(1,2) k by (simp add: generate_cpu_list_def)
  show "length (interleaved n il k) = k" by (simp add: interleaved_def Let_def)
  show "distinct (interleaved n il k)" by (rule interleaved_distinct) (use assms k in auto)
  show "c < n" if "il dvd n" "c \<in> set (interleaved n il k)" for c by (rule interleaved_range) (use that assms k in auto)
  show "n \<in> set (interleaved n il k)" if "\<not> il dvd n \<and> ((n - 1) div il + 1) * (n mod il + 1) \<le> k"
    by (rule interleaved_outside) (use that assms k in auto)
qed

text \<open>Six threads on seven CPUs with interleave 3: one of them is to run on CPU 7, which does not exist.\<close>

theorem placement_interleaved_witness:
  "\<exists>cpus. generate_cpu_list \<lparr>num_cores = 7, num_online_cores = 7, avail_cores = {0..<7}, num_avail_cores = 7\<rparr> []
     \<lparr>cpu_list = None, po_num_threads = 6, ileave = 3\<rparr> = Inr cpus \<and> length cpus = 6 \<and> distinct cpus \<and> 7 \<in> set cpus"
  using placement_interleaved [of "\<lparr>cpu_list = None, po_num_threads = 6, ileave = 3\<rparr>" 3
    "\<lparr>num_cores = 7, num_online_cores = 7, avail_cores = {0..<7}, num_avail_cores = 7\<rparr>" 7 6 "[]"]
  by (auto simp: MAXTHREADS_def)

end
