(* ===== verification/Pagemap.thy ===== *)
theory Pagemap
  imports Lock_Prelude
begin

text \<open>
  \<open>pagemap.h\<close>: the physical address of a page, from the entry of \<open>/proc/PID/pagemap\<close> that the kernel provides for it. The system
  calls are parameters: \<open>pread k off cnt\<close> is the answer to the \<open>k\<close>-th call, \<open>None\<close> for -1 and no bytes at the end of the file.
\<close>

type_synonym pread_call = "nat \<Rightarrow> nat \<Rightarrow> nat \<Rightarrow> u8 list option"

record LkmcPagemapEntry =
  pfn :: u64
  soft_dirty :: bool
  file_page :: bool
  swapped :: bool
  present :: bool

text \<open>The \<open>uint64_t\<close> whose bytes in memory are given, in little-endian order.\<close>

fun le64 :: "u8 list \<Rightarrow> u64" where
  "le64 [] = 0"
| "le64 (b # bs) = ucast b OR push_bit 8 (le64 bs)"

text \<open>The loop that reads the eight bytes of \<open>data\<close>, however many a call returns.\<close>

function pagemap_read :: "pread_call \<Rightarrow> u64 \<Rightarrow> nat \<Rightarrow> u8 list \<Rightarrow> u8 list option" where
  "pagemap_read pread vpn k data =
     (if length data < 8 then (case pread k (unat (vpn * 8 + of_nat (length data))) (8 - length data) of
         None \<Rightarrow> None
       | Some bs \<Rightarrow> if bs = [] then None else pagemap_read pread vpn (Suc k) (data @ bs))
      else Some data)"
  by pat_completeness auto
termination by (relation "measure (\<lambda>(_, _, _, data). 8 - length data)") (auto simp: neq_Nil_conv)

declare pagemap_read.simps [simp del]

definition pagemap_decode :: "u64 \<Rightarrow> LkmcPagemapEntry" where
  "pagemap_decode data = \<lparr>pfn = data AND (push_bit 55 1 - 1), soft_dirty = (drop_bit 55 data AND 1 \<noteq> 0), file_page = (drop_bit 61 data AND 1 \<noteq> 0),
     swapped = (drop_bit 62 data AND 1 \<noteq> 0), present = (drop_bit 63 data AND 1 \<noteq> 0)\<rparr>"

text \<open>\<open>None\<close> is the return value 1.\<close>

definition lkmc_pagemap_get_entry :: "pread_call \<Rightarrow> u64 \<Rightarrow> u64 \<Rightarrow> LkmcPagemapEntry option" where
  "lkmc_pagemap_get_entry pread page_size vaddr =
     (case pagemap_read pread (vaddr div page_size) 0 [] of None \<Rightarrow> None | Some data \<Rightarrow> Some (pagemap_decode (le64 data)))"

text \<open>\<open>opened\<close> tells whether \<open>open\<close> succeeded.\<close>

definition lkmc_pagemap_virt_to_phys_user :: "bool \<Rightarrow> pread_call \<Rightarrow> u64 \<Rightarrow> u64 \<Rightarrow> u64 option" where
  "lkmc_pagemap_virt_to_phys_user opened pread page_size vaddr =
     (if \<not> opened then None else case lkmc_pagemap_get_entry pread page_size vaddr of None \<Rightarrow> None
      | Some entry \<Rightarrow> Some (pfn entry * page_size + vaddr mod page_size))"

section \<open>Reading the entry\<close>

text \<open>What the manual page of \<open>pread\<close> promises: at most as many bytes as asked for, and those of the file.\<close>

definition pread_reads :: "pread_call \<Rightarrow> (nat \<Rightarrow> u8) \<Rightarrow> bool" where
  "pread_reads pread bytes \<longleftrightarrow> (\<forall>k off cnt bs. pread k off cnt = Some bs \<longrightarrow> length bs \<le> cnt \<and> (\<forall>j<length bs. bs ! j = bytes (off + j)))"

text \<open>A call fails or finds the end of the file.\<close>

definition pread_fails :: "pread_call \<Rightarrow> bool" where
  "pread_fails pread \<longleftrightarrow> (\<exists>k off cnt. 0 < cnt \<and> (pread k off cnt = None \<or> pread k off cnt = Some []))"

lemma pagemap_read_bytes:
  assumes rd: "pread_reads pread bytes" and off: "unat vpn * 8 + 8 < 2 ^ 64"
  shows "length data \<le> 8 \<Longrightarrow> (\<And>j. j < length data \<Longrightarrow> data ! j = bytes (unat vpn * 8 + j)) \<Longrightarrow>
    pagemap_read pread vpn k data = Some (map (\<lambda>j. bytes (unat vpn * 8 + j)) [0..<8]) \<or> pagemap_read pread vpn k data = None \<and> pread_fails pread"
proof (induction "8 - length data" arbitrary: k data rule: less_induct)
  case less
  let ?off = "unat (vpn * 8 + of_nat (length data))"
  have o: "?off = unat vpn * 8 + length data"
  proof -
    have "vpn * 8 + of_nat (length data) = of_nat (unat vpn * 8 + length data)" by simp
    moreover have "unat vpn * 8 + length data < 2 ^ 64" using off less.prems(1) by linarith
    ultimately show ?thesis by (simp only: unat_of_nat) simp
  qed
  show ?case
  proof (cases "length data < 8")
    case False
    then have "data = map (\<lambda>j. bytes (unat vpn * 8 + j)) [0..<8]" using less.prems by (intro nth_equalityI) auto
    then show ?thesis using False by (subst (1) pagemap_read.simps) simp
  next
    case short: True
    show ?thesis
    proof (cases "pread k ?off (8 - length data)")
      case None
      then have "pread_fails pread" using short unfolding pread_fails_def by (intro exI [of _ k] exI [of _ ?off] exI [of _ "8 - length data"]) simp
      then show ?thesis using None short by (subst (2) pagemap_read.simps) simp
    next
      case (Some bs)
      show ?thesis
      proof (cases "bs = []")
        case True
        then have "pread_fails pread" using Some short unfolding pread_fails_def
          by (intro exI [of _ k] exI [of _ ?off] exI [of _ "8 - length data"]) simp
        then show ?thesis using Some True short by (subst (2) pagemap_read.simps) simp
      next
        case False
        have bs: "length bs \<le> 8 - length data" "\<And>j. j < length bs \<Longrightarrow> bs ! j = bytes (?off + j)"
          using rd Some by (auto simp: pread_reads_def)
        have "pagemap_read pread vpn k data = pagemap_read pread vpn (Suc k) (data @ bs)"
          using Some False short by (subst pagemap_read.simps) simp
        moreover have "(data @ bs) ! j = bytes (unat vpn * 8 + j)" if "j < length (data @ bs)" for j
          using that less.prems(2) [of j] bs(2) [of "j - length data"] o by (auto simp: nth_append)
        moreover have "8 - length (data @ bs) < 8 - length data" "length (data @ bs) \<le> 8" using False bs(1) short by (cases bs; simp)+
        ultimately show ?thesis using less.hyps [of "data @ bs" "Suc k"] by simp
      qed
    qed
  qed
qed

lemma bit_le64: "bit (le64 bs) n \<longleftrightarrow> n < 64 \<and> n div 8 < length bs \<and> bit (bs ! (n div 8)) (n mod 8)"
proof (induction bs arbitrary: n)
  case (Cons b bs)
  show ?case
  proof (cases "n < 8")
    case True
    then show ?thesis by (auto simp: bit_simps dest: bit_imp_le_length)
  next
    case False
    then have "n div 8 = Suc ((n - 8) div 8)" "n mod 8 = (n - 8) mod 8" by (simp_all add: le_div_geq le_mod_geq)
    with False Cons.IH [of "n - 8"] show ?thesis by (auto simp: bit_simps dest: bit_imp_le_length)
  qed
qed simp

text \<open>The bytes of a word in memory.\<close>

definition byte_of :: "u64 \<Rightarrow> nat \<Rightarrow> u8" where
  "byte_of w j = ucast (drop_bit (8 * j) w)"

lemma le64_bytes: "le64 (map (byte_of w) [0..<8]) = w"
proof (rule bit_word_eqI)
  fix n
  assume "n < LENGTH(64)"
  then have n: "n < 64" "n div 8 < 8" by auto
  have "8 * (n div 8) + n mod 8 = n" "n mod 8 < LENGTH(8)" by simp_all
  then have "bit (byte_of w (n div 8)) (n mod 8) \<longleftrightarrow> bit w n" unfolding byte_of_def bit_ucast_iff bit_drop_bit_eq by (simp add: comp_def)
  then show "bit (le64 (map (byte_of w) [0..<8])) n \<longleftrightarrow> bit w n" using n by (simp add: bit_le64)
qed

lemma pagemap_decode_fields:
  "pfn (pagemap_decode w) = take_bit 55 w" "soft_dirty (pagemap_decode w) = bit w 55" "file_page (pagemap_decode w) = bit w 61"
  "swapped (pagemap_decode w) = bit w 62" "present (pagemap_decode w) = bit w 63"
proof -
  have "w AND (push_bit 55 1 - 1) = w AND mask 55" by (simp only: mask_eq_exp_minus_1 push_bit_eq_mult mult_1)
  then show "pfn (pagemap_decode w) = take_bit 55 w" by (simp only: pagemap_decode_def LkmcPagemapEntry.select_convs take_bit_eq_mask)
qed (simp_all add: pagemap_decode_def and_one_eq odd_iff_mod_2_eq_one [symmetric] bit_iff_odd_drop_bit)

section \<open>Properties\<close>

text \<open>The translation is right however \<open>pread\<close> cuts the eight bytes of the entry: if the file holds the word \<open>w\<close> for the page, the result
  is the page frame number in the low 55 bits of \<open>w\<close> times the page size plus the offset in the page; an error is reported only if a
  call failed.\<close>

theorem pagemap_translation:
  assumes "pread_reads pread bytes" and "unat (vaddr div page_size) * 8 + 8 < 2 ^ 64"
    and "\<And>j. j < 8 \<Longrightarrow> bytes (unat (vaddr div page_size) * 8 + j) = byte_of w j"
  shows "lkmc_pagemap_virt_to_phys_user True pread page_size vaddr = Some (take_bit 55 w * page_size + vaddr mod page_size) \<or>
    lkmc_pagemap_virt_to_phys_user True pread page_size vaddr = None \<and> pread_fails pread"
proof -
  have "map (\<lambda>j. bytes (unat (vaddr div page_size) * 8 + j)) [0..<8] = map (byte_of w) [0..<8]" using assms(3) by simp
  from pagemap_read_bytes [OF assms(1,2), of "[]" 0, unfolded this]
  have "pagemap_read pread (vaddr div page_size) 0 [] = Some (map (byte_of w) [0..<8]) \<or>
      pagemap_read pread (vaddr div page_size) 0 [] = None \<and> pread_fails pread" by simp
  then show ?thesis
    by (rule disj_forward)
      (simp_all only: lkmc_pagemap_virt_to_phys_user_def lkmc_pagemap_get_entry_def le64_bytes pagemap_decode_fields option.case not_True_eq_False if_False simp_thms)
qed

text \<open>Frame \<open>0x1234\<close>, present, read five bytes and then one at a time.\<close>

theorem pagemap_translation_witness:
  "lkmc_pagemap_virt_to_phys_user True
     (\<lambda>k off cnt. Some (map (\<lambda>j. byte_of 0x8000000000001234 ((off + j) mod 8)) [0..<if k = 0 then min cnt 5 else min cnt 1])) 0x1000 0x7FABC = Some 0x1234ABC"
proof -
  let ?pread = "\<lambda>k off cnt. Some (map (\<lambda>j. byte_of 0x8000000000001234 ((off + j) mod 8)) [0..<if k = 0 then min cnt 5 else min cnt 1])"
  have "pread_reads ?pread (\<lambda>j. byte_of 0x8000000000001234 (j mod 8))" by (auto simp: pread_reads_def)
  moreover have "\<not> pread_fails ?pread" by (auto simp: pread_fails_def)
  moreover have "(1016 + j) mod 8 = j" if "j < 8" for j :: nat using that by presburger
  ultimately show ?thesis using pagemap_translation [where pread = ?pread and bytes = "\<lambda>j. byte_of 0x8000000000001234 (j mod 8)" and vaddr = "0x7FABC" and page_size = "0x1000"
        and w = "0x8000000000001234"] by (simp add: take_bit_eq_mask mask_eq_exp_minus_1)
qed

end
