(* ===== verification/Lock_Memory.thy ===== *)
theory Lock_Memory
  imports Pagemap Pinorder
begin

text \<open>
  Memory for the lock (\<open>alloc.c\<close>): the parameter of \<open>-M\<close>, the physical address of a page with the one-entry cache of \<open>get_phys_addr\<close>, and the search for the huge
  page at a requested physical address. The answers of \<open>mmap\<close> are a parameter, \<open>None\<close> for \<open>MAP_FAILED\<close>.
\<close>

section \<open>Sizes\<close>

text \<open>\<open>strcasecmp\<close> tells that two strings are equal up to case.\<close>

definition c_tolower :: "char \<Rightarrow> char" where
  "c_tolower c = (let n = of_char c :: nat in if 65 \<le> n \<and> n \<le> 90 then char_of (n + 32) else c)"

definition strcasecmp_equal :: "string \<Rightarrow> string \<Rightarrow> bool" where
  "strcasecmp_equal s t \<longleftrightarrow> map c_tolower s = map c_tolower t"

text \<open>The enumeration: \<open>HUGEPAGES_NONE\<close> is 0, the default 1, then 64K, 2M, 32M, 512M, 1G and 16G; \<open>HUGEPAGES_MAX_ENUM\<close> is 8.\<close>

definition HUGEPAGES_NONE :: int where "HUGEPAGES_NONE = 0"
definition HUGEPAGES_MAX_ENUM :: int where "HUGEPAGES_MAX_ENUM = 8"

definition hugepage_mapping :: "(string \<times> int) list" where
  "hugepage_mapping = [(''none'', 0), (''0'', 0), (''default'', 1), (''1'', 1), (''64K'', 2), (''64KB'', 2), (''2M'', 3), (''2MB'', 3), (''32M'', 4), (''32MB'', 4),
     (''512M'', 5), (''512MB'', 5), (''1G'', 6), (''1GB'', 6), (''16G'', 7), (''16GB'', 7)]"

definition parse_hugepage_parameter :: "string \<Rightarrow> pin_error + int" where
  "parse_hugepage_parameter optarg = (if strcasecmp_equal optarg ''help'' then Inl (Exit (- 1)) else
     let use_hugepages = (case find (\<lambda>(size_string, _). strcasecmp_equal optarg size_string) hugepage_mapping of
         Some (_, v) \<Rightarrow> v
       | None \<Rightarrow> sint (ucast (fst (strtoul optarg 0)) :: u32))
     in if use_hugepages \<ge> HUGEPAGES_MAX_ENUM \<or> use_hugepages < HUGEPAGES_NONE then Inl (Exit (- 1)) else Inr use_hugepages)"

text \<open>The \<open>length\<close> that \<open>do_hugepage_alloc\<close> maps.\<close>

definition hugepage_length :: "int \<Rightarrow> nat option" where
  "hugepage_length use_hugepages =
     (if use_hugepages = 1 then Some (2 * 1024 * 1024) else if use_hugepages = 2 then Some (64 * 1024) else if use_hugepages = 3 then Some (2 * 1024 * 1024)
      else if use_hugepages = 4 then Some (32 * 1024 * 1024) else if use_hugepages = 5 then Some (512 * 1024 * 1024)
      else if use_hugepages = 6 then Some (1024 * 1024 * 1024) else if use_hugepages = 7 then Some (16 * 1024 * 1024 * 1024) else None)"

section \<open>Physical addresses\<close>

text \<open>The static variables of \<open>get_phys_addr\<close>.\<close>

record phys_cache =
  last_vpage :: u64
  last_ppage :: u64

definition phys_cache_init :: phys_cache where
  "phys_cache_init = \<lparr>last_vpage = 1, last_ppage = 1\<rparr>"

text \<open>\<open>root\<close>: the effective user is root. When the translation fails, the value \<open>EXIT_FAILURE\<close> is returned as an address.\<close>

definition get_phys_addr :: "u64 \<Rightarrow> bool \<Rightarrow> (u64 \<Rightarrow> u64 option) \<Rightarrow> phys_cache \<Rightarrow> u64 \<Rightarrow> pin_error + (u64 \<times> phys_cache)" where
  "get_phys_addr PAGESIZE root virt_to_phys_user c vaddr = (let PAGE_MASK = NOT (PAGESIZE - 1) in
     if vaddr AND PAGE_MASK = last_vpage c then Inr (last_ppage c OR (vaddr AND NOT PAGE_MASK), c)
     else if root then (case virt_to_phys_user vaddr of
         None \<Rightarrow> Inr (1, c)
       | Some paddr \<Rightarrow> Inr (paddr, \<lparr>last_vpage = vaddr AND PAGE_MASK, last_ppage = paddr AND PAGE_MASK\<rparr>))
     else Inl (Exit (- 1)))"

section \<open>Huge pages\<close>

definition MAX_MMAP_TRIES :: nat where "MAX_MMAP_TRIES = 10"

text \<open>\<open>munmap va\<close> tells whether the call succeeds; the first failure ends the program.\<close>

definition unmap_hugepage_mappings :: "(u64 \<Rightarrow> bool) \<Rightarrow> u64 list \<Rightarrow> pin_error + u64 list" where
  "unmap_hugepage_mappings munmap tried = (if list_all munmap tried then Inr tried else Inl (Exit (- 1)))"

text \<open>The loop of \<open>do_hugepage_alloc\<close>: the mapping it returns and those it has unmapped. \<open>tried\<close> are the addresses in \<open>mmap_try\<close>.\<close>

fun mmap_tries :: "(nat \<Rightarrow> u64 option) \<Rightarrow> (u64 \<Rightarrow> bool) \<Rightarrow> (phys_cache \<Rightarrow> u64 \<Rightarrow> pin_error + (u64 \<times> phys_cache)) \<Rightarrow> u64 \<Rightarrow> nat \<Rightarrow> nat \<Rightarrow> phys_cache \<Rightarrow> u64 list \<Rightarrow>
    pin_error + (u64 \<times> u64 list)" where
  "mmap_tries mmap munmap phys req 0 k c tried = (case unmap_hugepage_mappings munmap tried of Inl e \<Rightarrow> Inl e | Inr _ \<Rightarrow> Inl (Exit (- 1)))"
| "mmap_tries mmap munmap phys req (Suc left) k c tried = (case mmap k of
       None \<Rightarrow> Inl (Exit (- 1))
     | Some mmap_ret \<Rightarrow> if req = 0 then Inr (mmap_ret, [])
         else (case phys c mmap_ret of Inl e \<Rightarrow> Inl e
           | Inr (pa, c) \<Rightarrow> if pa = req then (case unmap_hugepage_mappings munmap tried of Inl e \<Rightarrow> Inl e | Inr unmapped \<Rightarrow> Inr (mmap_ret, unmapped)) else mmap_tries mmap munmap phys req left (Suc k) c (tried @ [mmap_ret])))"

definition do_hugepage_alloc :: "(nat \<Rightarrow> u64 option) \<Rightarrow> (u64 \<Rightarrow> bool) \<Rightarrow> (phys_cache \<Rightarrow> u64 \<Rightarrow> pin_error + (u64 \<times> phys_cache)) \<Rightarrow> int \<Rightarrow> u64 \<Rightarrow> phys_cache \<Rightarrow>
    pin_error + (u64 \<times> u64 list)" where
  "do_hugepage_alloc mmap munmap phys use_hugepages hugepage_req_physaddr c = (case hugepage_length use_hugepages of
       None \<Rightarrow> Inl (Exit (- 1))
     | Some _ \<Rightarrow> mmap_tries mmap munmap phys hugepage_req_physaddr MAX_MMAP_TRIES 0 c [])"

text \<open>\<open>aligned\<close>: what \<open>posix_memalign\<close> returns.\<close>

definition do_alloc :: "(nat \<Rightarrow> u64 option) \<Rightarrow> (u64 \<Rightarrow> bool) \<Rightarrow> u64 option \<Rightarrow> (phys_cache \<Rightarrow> u64 \<Rightarrow> pin_error + (u64 \<times> phys_cache)) \<Rightarrow> int \<Rightarrow> u64 \<Rightarrow> phys_cache \<Rightarrow>
    pin_error + (u64 \<times> u64 list)" where
  "do_alloc mmap munmap aligned phys use_hugepages hugepage_req_physaddr c =
     (if use_hugepages \<noteq> HUGEPAGES_NONE then do_hugepage_alloc mmap munmap phys use_hugepages hugepage_req_physaddr c
      else case aligned of None \<Rightarrow> Inl (Exit (- 1)) | Some p \<Rightarrow> Inr (p, []))"

section \<open>The cache agrees with the page table\<close>

text \<open>The physical address of \<open>vaddr\<close> when the table of the kernel holds the entry \<open>entry n\<close> for page \<open>n\<close> of \<open>2 ^ k\<close> bytes.\<close>

definition phys_of :: "nat \<Rightarrow> (u64 \<Rightarrow> u64) \<Rightarrow> u64 \<Rightarrow> u64" where
  "phys_of k entry vaddr = push_bit k (take_bit 55 (entry (drop_bit k vaddr))) OR take_bit k vaddr"

definition cache_ok :: "nat \<Rightarrow> (u64 \<Rightarrow> u64) \<Rightarrow> phys_cache \<Rightarrow> bool" where
  "cache_ok k entry c \<longleftrightarrow> odd (last_vpage c) \<or>
     (\<exists>n. last_vpage c = push_bit k n \<and> last_ppage c = push_bit k (take_bit 55 (entry (drop_bit k (push_bit k n)))))"

lemma page_parts:
  fixes v :: u64
  shows "v AND NOT (2 ^ k - 1) = push_bit k (drop_bit k v)" "v AND NOT (NOT (2 ^ k - 1)) = take_bit k v"
  unfolding mask_eq_exp_minus_1 [symmetric] by (rule bit_word_eqI; auto simp: bit_simps)+

lemma phys_of_page: "phys_of k entry v AND NOT (2 ^ k - 1) = push_bit k (take_bit 55 (entry (drop_bit k v)))"
  unfolding mask_eq_exp_minus_1 [symmetric] phys_of_def by (rule bit_word_eqI; auto simp: bit_simps)

lemma drop_push_drop: "drop_bit k (push_bit k (drop_bit k v)) = drop_bit k (v :: u64)"
  by (rule bit_word_eqI) (auto simp: bit_simps dest: bit_imp_le_length)

lemma even_push: "0 < k \<Longrightarrow> even (push_bit k n :: u64)"
  by (simp add: even_push_bit_iff)

lemma cached_address:
  assumes k: "0 < k" and c: "cache_ok k entry c" and tr: "\<And>v. tr v = Some (phys_of k entry v)"
  shows "\<exists>c'. get_phys_addr (2 ^ k) True tr c v = Inr (phys_of k entry v, c') \<and> cache_ok k entry c'"
proof (cases "v AND NOT (2 ^ k - 1) = last_vpage c")
  case True
  then have l: "last_vpage c = push_bit k (drop_bit k v)" using page_parts by simp
  with c even_push [OF k] obtain n where n: "push_bit k n = push_bit k (drop_bit k v)"
    "last_ppage c = push_bit k (take_bit 55 (entry (drop_bit k (push_bit k n))))" by (auto simp: cache_ok_def)
  then have "last_ppage c OR (v AND NOT (NOT (2 ^ k - 1))) = phys_of k entry v"
    unfolding page_parts(2) by (simp add: phys_of_def drop_push_drop)
  then show ?thesis using True c by (simp add: get_phys_addr_def)
next
  case False
  have "cache_ok k entry \<lparr>last_vpage = v AND NOT (2 ^ k - 1), last_ppage = phys_of k entry v AND NOT (2 ^ k - 1)\<rparr>"
    unfolding cache_ok_def phys_of_page unfolding page_parts(1) phys_cache.simps by (intro disjI2 exI [of _ "drop_bit k v"]) (simp only: drop_push_drop simp_thms)
  then show ?thesis using False by (simp add: get_phys_addr_def tr Let_def)
qed

section \<open>The search\<close>

text \<open>The first of the mappings that has the requested address, if it comes before a failure.\<close>

fun first_match :: "(nat \<Rightarrow> u64 option) \<Rightarrow> (u64 \<Rightarrow> u64) \<Rightarrow> u64 \<Rightarrow> nat \<Rightarrow> nat \<Rightarrow> nat option" where
  "first_match mmap pa req 0 k = None"
| "first_match mmap pa req (Suc left) k = (case mmap k of None \<Rightarrow> None | Some va \<Rightarrow> if pa va = req then Some k else first_match mmap pa req left (Suc k))"

lemma first_match_SomeD:
  "first_match mmap pa req left k = Some m \<Longrightarrow> k \<le> m \<and> m < k + left \<and> (\<exists>va. mmap m = Some va \<and> pa va = req) \<and>
     (\<forall>j. k \<le> j \<and> j < m \<longrightarrow> (\<exists>va. mmap j = Some va \<and> pa va \<noteq> req))"
proof (induction left arbitrary: k)
  case (Suc left)
  show ?case
  proof (cases "mmap k")
    case None
    then show ?thesis using Suc.prems by simp
  next
    case (Some va)
    show ?thesis
    proof (cases "pa va = req")
      case True
      then show ?thesis using Some Suc.prems by auto
    next
      case False
      then have "first_match mmap pa req left (Suc k) = Some m" using Some Suc.prems by simp
      note r = Suc.IH [OF this]
      have "\<exists>va. mmap j = Some va \<and> pa va \<noteq> req" if "k \<le> j" "j < m" for j using that r False Some by (cases "j = k") auto
      then show ?thesis using r by auto
    qed
  qed
qed simp

lemma mmap_tries_first:
  assumes req: "req \<noteq> 0" and phys: "\<And>c va. ok c \<Longrightarrow> \<exists>c'. phys c va = Inr (pa va, c') \<and> ok c'"
  shows "ok c \<Longrightarrow> mmap_tries mmap munmap phys req left k c tried = (case first_match mmap pa req left k of None \<Rightarrow> Inl (Exit (- 1))
    | Some m \<Rightarrow> let others = tried @ map (\<lambda>j. the (mmap j)) [k..<m] in if list_all munmap others then Inr (the (mmap m), others) else Inl (Exit (- 1)))"
proof (induction left arbitrary: k c tried)
  case (Suc left)
  show ?case
  proof (cases "mmap k")
    case None
    then show ?thesis by simp
  next
    case (Some va)
    obtain c' where c': "phys c va = Inr (pa va, c')" "ok c'" using phys [OF Suc.prems] by blast
    show ?thesis
    proof (cases "pa va = req")
      case True
      then show ?thesis using Some c' req by (simp add: unmap_hugepage_mappings_def)
    next
      case False
      have "tried @ map (\<lambda>j. the (mmap j)) [k..<m] = (tried @ [va]) @ map (\<lambda>j. the (mmap j)) [Suc k..<m]" if "Suc k \<le> m" for m
        using that Some by (simp add: upt_conv_Cons)
      then show ?thesis using Some c' req False Suc.IH [OF c'(2), of "Suc k" "tried @ [va]"] first_match_SomeD [of mmap pa req left "Suc k"]
        by (auto simp: Let_def split: option.split)
    qed
  qed
qed (simp add: unmap_hugepage_mappings_def)

section \<open>Properties\<close>

text \<open>The entries of the file are those of the pages, and every read succeeds.\<close>

definition pagemap_holds :: "pread_call \<Rightarrow> (u64 \<Rightarrow> u64) \<Rightarrow> bool" where
  "pagemap_holds pread entry \<longleftrightarrow> \<not> pread_fails pread \<and>
     (\<exists>bytes. pread_reads pread bytes \<and> (\<forall>n j. j < 8 \<longrightarrow> bytes (unat n * 8 + j) = byte_of (entry n) j))"

lemma pagemap_phys_of:
  assumes k: "4 \<le> k" "k < 64" and p: "pagemap_holds pread entry"
  shows "lkmc_pagemap_virt_to_phys_user True pread (2 ^ k) v = Some (phys_of k entry v)"
proof -
  obtain bytes where b: "pread_reads pread bytes" "\<And>n j. j < 8 \<Longrightarrow> bytes (unat n * 8 + j) = byte_of (entry n) j" "\<not> pread_fails pread"
    using p by (auto simp: pagemap_holds_def)
  have d: "v div 2 ^ k = drop_bit k v" "v mod 2 ^ k = take_bit k v" by (simp_all add: drop_bit_eq_div take_bit_eq_mod)
  have "unat (drop_bit k v) < 2 ^ 60"
  proof -
    have v: "unat v < 2 ^ 64" using unsigned_less [of v] by simp
    have "unat (drop_bit k v) = unat v div 2 ^ k" using take_bit_nat_eq_self [of "unat v" 64] v by (simp only: unsigned_drop_bit_eq) (simp add: drop_bit_eq_div)
    also have "\<dots> \<le> unat v div 2 ^ 4" using power_increasing [OF k(1), of "2 :: nat"] by (intro div_le_mono2) simp_all
    also have "\<dots> < 2 ^ 60" using v by (simp add: less_mult_imp_div_less)
    finally show ?thesis .
  qed
  then have o: "unat (drop_bit k v) * 8 + 8 < 2 ^ 64" by simp
  have "take_bit 55 (entry (drop_bit k v)) * 2 ^ k + take_bit k v = phys_of k entry v"
  proof -
    have "take_bit 55 (entry (drop_bit k v)) * 2 ^ k = push_bit k (take_bit 55 (entry (drop_bit k v)))" by (simp add: push_bit_eq_mult)
    moreover have "push_bit k (take_bit 55 (entry (drop_bit k v))) + take_bit k v = phys_of k entry v"
      unfolding phys_of_def by (rule disjunctive_add) (auto simp: bit_simps)
    ultimately show ?thesis by simp
  qed
  with pagemap_translation [OF b(1), of v "2 ^ k" "entry (drop_bit k v)"] b(2,3) o show ?thesis by (simp only: d) blast
qed

text \<open>C39: the huge page at a requested physical address is found if one of the first ten mappings has it: \<open>do_hugepage_alloc\<close> then returns the first such
  mapping and has unmapped all the others, which are the earlier ones, and none of them has that address; otherwise, and when an unmapping fails, the program
  stops. The addresses come through the cache of \<open>get_phys_addr\<close> from \<open>/proc/PID/pagemap\<close>, however \<open>pread\<close> cuts its entries.\<close>

theorem hugepage_found:
  assumes "4 \<le> k" "k < 64" "pagemap_holds pread entry" "hugepage_length use \<noteq> None" "req \<noteq> 0"
    and "alloc = do_hugepage_alloc mmap munmap (get_phys_addr (2 ^ k) True (lkmc_pagemap_virt_to_phys_user True pread (2 ^ k))) use req phys_cache_init"
  shows "(\<exists>m<10. (\<exists>va. mmap m = Some va \<and> phys_of k entry va = req) \<and> (\<forall>j<m. \<exists>va. mmap j = Some va \<and> phys_of k entry va \<noteq> req) \<and>
      (let others = map (\<lambda>j. the (mmap j)) [0..<m] in alloc = (if list_all munmap others then Inr (the (mmap m), others) else Inl (Exit (- 1))))) \<or>
    alloc = Inl (Exit (- 1)) \<and> (\<forall>m<10. (\<forall>j\<le>m. mmap j \<noteq> None) \<longrightarrow> phys_of k entry (the (mmap m)) \<noteq> req)"
proof -
  let ?phys = "get_phys_addr (2 ^ k) True (lkmc_pagemap_virt_to_phys_user True pread (2 ^ k))"
  have "cache_ok k entry phys_cache_init" by (simp add: cache_ok_def phys_cache_init_def)
  moreover have "\<exists>c'. ?phys c va = Inr (phys_of k entry va, c') \<and> cache_ok k entry c'" if "cache_ok k entry c" for c va
    using cached_address [of k entry c, OF _ that pagemap_phys_of [OF assms(1-3)]] assms(1) by auto
  ultimately have a: "alloc = (case first_match mmap (phys_of k entry) req 10 0 of None \<Rightarrow> Inl (Exit (- 1))
      | Some m \<Rightarrow> let others = map (\<lambda>j. the (mmap j)) [0..<m] in if list_all munmap others then Inr (the (mmap m), others) else Inl (Exit (- 1)))"
    using mmap_tries_first [of req "cache_ok k entry" ?phys "phys_of k entry" phys_cache_init mmap munmap 10 0 "[]"] assms(4-6)
    by (auto simp: do_hugepage_alloc_def MAX_MMAP_TRIES_def Let_def simp del: mmap_tries.simps first_match.simps split: option.split)
  have none: "phys_of k entry (the (mmap m)) \<noteq> req"
    if "first_match mmap (phys_of k entry) req left i = None" "i \<le> m" "m < i + left" "\<forall>j\<le>m. mmap j \<noteq> None" for left i m
    using that
  proof (induction left arbitrary: i)
    case (Suc left)
    then obtain va where va: "mmap i = Some va" by blast
    with Suc.prems have n: "phys_of k entry va \<noteq> req" "first_match mmap (phys_of k entry) req left (Suc i) = None" by (auto split: if_splits)
    show ?case using va n Suc.IH [OF n(2)] Suc.prems by (cases "i = m") auto
  qed simp
  show ?thesis
  proof (cases "first_match mmap (phys_of k entry) req 10 0")
    case None
    then show ?thesis using a none [of 10 0] by simp
  next
    case (Some m)
    then show ?thesis using a first_match_SomeD [OF Some] by (auto simp: Let_def)
  qed
qed

text \<open>Pages of 4096 bytes, page \<open>n\<close> in frame \<open>n + 1\<close>; the third mapping is the one.\<close>

definition example_pread :: pread_call where
  "example_pread k off cnt = Some (map (\<lambda>j. byte_of (of_nat ((off + j) div 8 + 1)) ((off + j) mod 8)) [0..<cnt])"

lemma example_pagemap: "pagemap_holds example_pread (\<lambda>n. 1 + n)"
proof -
  have "pread_reads example_pread (\<lambda>m. byte_of (of_nat (m div 8 + 1)) (m mod 8))" by (auto simp: pread_reads_def example_pread_def)
  moreover have "\<not> pread_fails example_pread" by (auto simp: pread_fails_def example_pread_def)
  moreover have "(unat n * 8 + j) div 8 = unat n" "(unat n * 8 + j) mod 8 = j" if "j < 8" for n :: u64 and j using that by simp_all
  moreover have "(of_nat (unat n + 1) :: u64) = n + 1" for n :: u64 by simp
  ultimately show ?thesis unfolding pagemap_holds_def by (intro conjI exI [of _ "\<lambda>m. byte_of (of_nat (m div 8 + 1)) (m mod 8)"]) simp_all
qed

theorem hugepage_found_witness:
  "do_hugepage_alloc (\<lambda>k. Some (of_nat k * 0x200000)) (\<lambda>_. True) (get_phys_addr (2 ^ 12) True (lkmc_pagemap_virt_to_phys_user True example_pread (2 ^ 12))) 3 0x401000 phys_cache_init =
     Inr (0x400000, [0, 0x200000])"
proof -
  let ?mmap = "\<lambda>k. Some (of_nat k * 0x200000 :: u64)" and ?pa = "phys_of 12 (\<lambda>n. 1 + n)"
  let ?a = "do_hugepage_alloc ?mmap (\<lambda>_. True) (get_phys_addr (2 ^ 12) True (lkmc_pagemap_virt_to_phys_user True example_pread (2 ^ 12))) 3 0x401000 phys_cache_init"
  have p: "?pa 0 \<noteq> 0x401000" "?pa 0x200000 \<noteq> 0x401000" "?pa 0x400000 = 0x401000" by code_simp+
  have l: "hugepage_length 3 \<noteq> None" by (simp add: hugepage_length_def)
  have r: "(\<exists>m<10. (\<exists>va. ?mmap m = Some va \<and> ?pa va = 0x401000) \<and> (\<forall>j<m. \<exists>va. ?mmap j = Some va \<and> ?pa va \<noteq> 0x401000) \<and>
      ?a = Inr (the (?mmap m), map (\<lambda>j. the (?mmap j)) [0..<m])) \<or>
    ?a = Inl (Exit (- 1)) \<and> (\<forall>m<10. (\<forall>j\<le>m. ?mmap j \<noteq> None) \<longrightarrow> ?pa (the (?mmap m)) \<noteq> 0x401000)"
    using hugepage_found [of 12 example_pread "\<lambda>n. 1 + n" 3 "0x401000" ?a ?mmap "\<lambda>_. True", OF _ _ example_pagemap l _ refl] by (simp add: Let_def list_all_iff)
  have "\<not> (\<forall>m<10. (\<forall>j\<le>m. ?mmap j \<noteq> None) \<longrightarrow> ?pa (the (?mmap m)) \<noteq> 0x401000)"
    using p(3) by (auto intro!: exI [of _ "2 :: nat"])
  with r obtain m where m: "?pa (of_nat m * 0x200000) = 0x401000" "\<forall>j<m. ?pa (of_nat j * 0x200000) \<noteq> 0x401000"
    "?a = Inr (of_nat m * 0x200000, map (\<lambda>j. of_nat j * 0x200000) [0..<m])" by auto
  have "m = 2"
  proof (rule ccontr)
    assume "m \<noteq> 2"
    then consider "m = 0" | "m = 1" | "2 < m" by linarith
    then show False
    proof cases
      case 3
      with m(2) have "?pa (of_nat 2 * 0x200000) \<noteq> 0x401000" by blast
      then show False using p(3) by simp
    qed (use m(1) p in simp_all)
  qed
  with m(3) show ?thesis by (simp add: upt_conv_Cons)
qed

text \<open>The parameter of \<open>-M\<close> is not checked for what follows the number: 4M means the fourth size, 32M, and an unknown word means none.\<close>

theorem hugepage_parameter_prefix:
  "parse_hugepage_parameter ''2m'' = Inr 3" "parse_hugepage_parameter ''4M'' = Inr 4" "hugepage_length 4 = Some (32 * 1024 * 1024)"
  "parse_hugepage_parameter ''huge'' = Inr HUGEPAGES_NONE" "parse_hugepage_parameter ''9'' = Inl (Exit (- 1))"
  by (simp_all add: parse_hugepage_parameter_def hugepage_mapping_def hugepage_length_def strcasecmp_equal_def c_tolower_def HUGEPAGES_MAX_ENUM_def HUGEPAGES_NONE_def
      strtoul_def scan_number_def scan_sign_def scan_radix_def c_isspace_def digit_val_def char_of_def bit_0)

end
