(* ===== verification/Cpu_Frequency.thy ===== *)
theory Cpu_Frequency
  imports Pinorder
begin

text \<open>
  The checks of the CPU frequency before the measurements (\<open>cpufreq-scaling-detect.c\<close>, \<open>main\<close>): over the files under \<open>/sys\<close>, which are a parameter, \<open>None\<close>
  for a file that cannot be opened or read. The messages are left out.
\<close>

section \<open>Files\<close>

definition get_proc_file_first_line :: "(string \<Rightarrow> string option) \<Rightarrow> string \<Rightarrow> string" where
  "get_proc_file_first_line files filename = (case files filename of None \<Rightarrow> [] | Some content \<Rightarrow> takeWhile (\<lambda>c. c \<noteq> CHR 0x0A) content)"

text \<open>The path fits into the buffer of 200 bytes, as shown below, so the branch for a longer one is not taken.\<close>

definition scaling_path :: "nat \<Rightarrow> string \<Rightarrow> string" where
  "scaling_path cpunum filename = ''/sys/devices/system/cpu/cpufreq/policy'' @ decimal cpunum @ ''/'' @ filename"

definition get_scaling_string :: "(string \<Rightarrow> string option) \<Rightarrow> nat \<Rightarrow> string \<Rightarrow> string" where
  "get_scaling_string files cpunum filename = get_proc_file_first_line files (scaling_path cpunum filename)"

definition get_scaling_governor :: "(string \<Rightarrow> string option) \<Rightarrow> nat \<Rightarrow> string" where
  "get_scaling_governor files cpunum = get_scaling_string files cpunum ''scaling_governor''"

definition get_scaling_driver :: "(string \<Rightarrow> string option) \<Rightarrow> nat \<Rightarrow> string" where
  "get_scaling_driver files cpunum = get_scaling_string files cpunum ''scaling_driver''"

definition get_scaling_max_freq :: "(string \<Rightarrow> string option) \<Rightarrow> nat \<Rightarrow> string" where
  "get_scaling_max_freq files cpunum = get_scaling_string files cpunum ''scaling_max_freq''"

definition get_scaling_min_freq :: "(string \<Rightarrow> string option) \<Rightarrow> nat \<Rightarrow> string" where
  "get_scaling_min_freq files cpunum = get_scaling_string files cpunum ''scaling_min_freq''"

text \<open>\<open>strtol\<close> is \<open>strtoll\<close> where \<open>long\<close> has 64 bits; the value is returned as an \<open>int\<close>.\<close>

definition get_boost_value :: "(string \<Rightarrow> string option) \<Rightarrow> int" where
  "get_boost_value files = sint (word_of_int (fst (strtoll (get_proc_file_first_line files ''/sys/devices/system/cpu/cpufreq/boost'') 0)) :: u32)"

section \<open>The checks\<close>

text \<open>\<open>None\<close> is a null pointer, which fits every string.\<close>

record scaling =
  scaling_driver :: "string option"
  scaling_governor :: "string option"

definition known_good_cpufreq_scalers :: "scaling list" where
  "known_good_cpufreq_scalers = [\<lparr>scaling_driver = Some '''', scaling_governor = Some ''''\<rparr>,
     \<lparr>scaling_driver = Some ''cppc_cpufreq'', scaling_governor = Some ''performance''\<rparr>,
     \<lparr>scaling_driver = Some ''acpi-cpufreq'', scaling_governor = Some ''performance''\<rparr>]"

definition known_bad_cpufreq_scalers :: "scaling list" where
  "known_bad_cpufreq_scalers = [\<lparr>scaling_driver = None, scaling_governor = Some ''conservative''\<rparr>, \<lparr>scaling_driver = None, scaling_governor = Some ''ondemand''\<rparr>]"

fun search_cpufreq_list :: "scaling list \<Rightarrow> string \<Rightarrow> string \<Rightarrow> bool" where
  "search_cpufreq_list [] driver governor = False"
| "search_cpufreq_list (e # scaling_list) driver governor =
     (if scaling_driver e \<noteq> None \<and> scaling_driver e \<noteq> Some driver then search_cpufreq_list scaling_list driver governor
      else if scaling_governor e \<noteq> None \<and> scaling_governor e \<noteq> Some governor then search_cpufreq_list scaling_list driver governor
      else True)"

definition check_scaling_min_max_freq_are_equal :: "(string \<Rightarrow> string option) \<Rightarrow> nat \<Rightarrow> bool" where
  "check_scaling_min_max_freq_are_equal files cpunum \<longleftrightarrow> get_scaling_min_freq files cpunum = get_scaling_max_freq files cpunum"

definition check_cpufreq_boost_is_OK :: "(string \<Rightarrow> string option) \<Rightarrow> bool \<Rightarrow> bool" where
  "check_cpufreq_boost_is_OK files ignore \<longleftrightarrow> (if get_boost_value files = 0 then True else ignore)"

definition check_cpufreq_governor_is_OK_on_cpunum :: "(string \<Rightarrow> string option) \<Rightarrow> nat \<Rightarrow> bool \<Rightarrow> bool" where
  "check_cpufreq_governor_is_OK_on_cpunum files cpunum ignore \<longleftrightarrow>
     (let driver = get_scaling_driver files cpunum; governor = get_scaling_governor files cpunum in
      if search_cpufreq_list known_good_cpufreq_scalers driver governor then check_scaling_min_max_freq_are_equal files cpunum \<or> ignore
      else if search_cpufreq_list known_bad_cpufreq_scalers driver governor then False
      else if driver = ''intel_pstate'' then ignore
      else False)"

text \<open>A pinorder is its number of threads with its CPU list.\<close>

definition check_if_cpufreq_governors_of_pinorder_are_ok :: "(string \<Rightarrow> string option) \<Rightarrow> nat \<times> nat list \<Rightarrow> bool \<Rightarrow> bool" where
  "check_if_cpufreq_governors_of_pinorder_are_ok files p ignore \<longleftrightarrow>
     list_all (\<lambda>i. check_cpufreq_governor_is_OK_on_cpunum files (snd p ! i) ignore) [0..<fst p]"

text \<open>The part of \<open>main\<close> between the placement and the measurements. It reads \<open>cpu_list\<close> for every thread; \<open>Overrun\<close> is a list with fewer CPUs.\<close>

definition check_frequencies :: "(string \<Rightarrow> string option) \<Rightarrow> bool \<Rightarrow> (nat \<times> nat list) list \<Rightarrow> pin_error + unit" where
  "check_frequencies files ignore ps =
     (if \<not> check_cpufreq_boost_is_OK files ignore \<and> \<not> ignore then Inl (Exit (- 1))
      else if fst (hd ps) = 0 then Inl (Exit (- 1))
      else if list_ex (\<lambda>p. length (snd p) < fst p) ps then Inl Overrun
      else let a_pinorder_failed = list_ex (\<lambda>p. \<not> check_if_cpufreq_governors_of_pinorder_are_ok files p ignore) ps in
        if a_pinorder_failed \<and> \<not> ignore then Inl (Exit (- 1)) else Inr ())"

section \<open>What they decide\<close>

lemma scaling_path_fits:
  assumes "cpunum < 2 ^ 64" "length filename \<le> 100"
  shows "length (scaling_path cpunum filename) < 200"
proof -
  have "length (decimal n) \<le> d" if "n < 10 ^ d" "0 < d" for n d
    using that
  proof (induction n arbitrary: d rule: decimal.induct)
    case (1 n)
    show ?case
    proof (cases "n < 10")
      case False
      then obtain e where e: "d = Suc e" "0 < e" using "1.prems" by (cases d; cases "d - 1") auto
      then have "n div 10 < 10 ^ e" using "1.prems"(1) by (simp add: less_mult_imp_div_less mult.commute)
      then show ?thesis using "1.IH" [of e] False e by (simp add: decimal.simps [of n])
    qed (use "1.prems" in \<open>simp add: decimal.simps [of n]\<close>)
  qed
  from this [of cpunum 20] show ?thesis using assms by (simp add: scaling_path_def)
qed

text \<open>A CPU whose frequency stays where it is.\<close>

definition steady_cpu :: "(string \<Rightarrow> string option) \<Rightarrow> nat \<Rightarrow> bool" where
  "steady_cpu files cpunum \<longleftrightarrow>
     (get_scaling_driver files cpunum, get_scaling_governor files cpunum) \<in> {('''', ''''), (''cppc_cpufreq'', ''performance''), (''acpi-cpufreq'', ''performance'')} \<and>
     get_scaling_min_freq files cpunum = get_scaling_max_freq files cpunum"

lemma governor_ok_steady: "check_cpufreq_governor_is_OK_on_cpunum files cpunum False \<longleftrightarrow> steady_cpu files cpunum"
  by (auto simp: check_cpufreq_governor_is_OK_on_cpunum_def steady_cpu_def known_good_cpufreq_scalers_def known_bad_cpufreq_scalers_def
      check_scaling_min_max_freq_are_equal_def Let_def)

lemma check_frequencies_iff:
  assumes "fst (hd ps) \<noteq> 0" "\<forall>p\<in>set ps. length (snd p) = fst p"
  shows "check_frequencies files ignore ps = Inr () \<longleftrightarrow> ignore \<or> get_boost_value files = 0 \<and> (\<forall>p\<in>set ps. \<forall>cpu\<in>set (snd p). steady_cpu files cpu)"
proof -
  have "check_if_cpufreq_governors_of_pinorder_are_ok files p False \<longleftrightarrow> (\<forall>cpu\<in>set (snd p). steady_cpu files cpu)" if "p \<in> set ps" for p
    using bspec [OF assms(2) that] by (auto simp: check_if_cpufreq_governors_of_pinorder_are_ok_def list_all_iff governor_ok_steady all_set_conv_all_nth)
  moreover have "\<not> list_ex (\<lambda>p. length (snd p) < fst p) ps" using assms(2) by (auto simp: list_ex_iff)
  ultimately show ?thesis using assms(1) by (cases ignore) (auto simp: check_frequencies_def check_cpufreq_boost_is_OK_def list_ex_iff Let_def)
qed

text \<open>A CPU for which there are no files passes: one without frequency scaling, but also one that is offline, and every CPU but the first of those that share a policy, whatever
  the governor of the policy.\<close>

lemma missing_files_pass:
  assumes "\<And>filename. files (scaling_path cpunum filename) = None"
  shows "check_cpufreq_governor_is_OK_on_cpunum files cpunum ignore"
  using assms by (simp add: check_cpufreq_governor_is_OK_on_cpunum_def known_good_cpufreq_scalers_def check_scaling_min_max_freq_are_equal_def
      get_scaling_driver_def get_scaling_governor_def get_scaling_min_freq_def get_scaling_max_freq_def get_scaling_string_def get_proc_file_first_line_def)

end
