(* ===== verification/Calibrate.thy ===== *)
theory Calibrate
  imports Lock_Prelude "HOL-Library.Multiset"
begin

text \<open>
  The calibration of the delay loop in \<open>measure.c\<close>: how long \<open>blackhole(tokens)\<close> takes, and the binary search for the number of tokens that
  takes a given time. The timer is a parameter: \<open>hw k tokens j i\<close> is the difference of the two timer values around the call of
  \<open>blackhole\<close> in round \<open>j\<close>, \<open>i\<close> of the \<open>k\<close>-th evaluation, and \<open>clk k\<close> the pair of values read for the overhead of the timer itself.
\<close>

section \<open>Measuring\<close>

text \<open>\<open>MAX(x, 0)\<close> on 64-bit integers with sign.\<close>

definition max0 :: "u64 \<Rightarrow> u64" where
  "max0 x = (if sint x > 0 then x else 0)"

definition evaluate_timer_overhead :: "u64 \<times> u64 \<Rightarrow> u64" where
  "evaluate_timer_overhead clk = (case clk of (outer_cycles_start, outer_cycles_end) \<Rightarrow> max0 (outer_cycles_end - outer_cycles_start))"

text \<open>\<open>elapsed_total\<close> of one round, and \<open>sum_elapsed_total\<close> with \<open>avg_elapsed_total\<close> after \<open>j\<close> rounds.\<close>

fun elapsed_round :: "(nat \<Rightarrow> u64) \<Rightarrow> nat \<Rightarrow> u64" where
  "elapsed_round e 0 = 0"
| "elapsed_round e (Suc i) = elapsed_round e i + e i"

fun evaluate_rounds :: "(nat \<Rightarrow> nat \<Rightarrow> u64) \<Rightarrow> u64 \<Rightarrow> nat \<Rightarrow> nat \<Rightarrow> u64 \<times> u64" where
  "evaluate_rounds e overhead NUMTRIES 0 = (0, 0)"
| "evaluate_rounds e overhead NUMTRIES (Suc j) = (case evaluate_rounds e overhead NUMTRIES j of (sum_elapsed_total, _) \<Rightarrow>
     let sum_elapsed_total = sum_elapsed_total + max0 (elapsed_round (e j) NUMTRIES - overhead * of_nat NUMTRIES)
     in (sum_elapsed_total, sum_elapsed_total div of_nat (Suc j)))"

definition evaluate_blackhole :: "u64 \<times> u64 \<Rightarrow> (nat \<Rightarrow> nat \<Rightarrow> u64) \<Rightarrow> nat \<Rightarrow> u64" where
  "evaluate_blackhole clk e NUMTRIES = snd (evaluate_rounds e (evaluate_timer_overhead clk) NUMTRIES NUMTRIES)"

section \<open>Searching\<close>

record blackhole_measurement =
  bm_tokens :: u64
  bm_ticks :: u64

text \<open>\<open>labs\<close> of a difference.\<close>

definition ticks_diff_abs :: "u64 \<Rightarrow> u64 \<Rightarrow> nat" where
  "ticks_diff_abs t target = nat \<bar>sint (t - target)\<bar>"

text \<open>
  \<open>ev k tokens\<close> is the \<open>k\<close>-th evaluation. With equal bounds the recursion need not end, so the search is partial. The result comes with
  the number of the next evaluation.
\<close>

partial_function (option) calibrate_blackhole_helper ::
    "(nat \<Rightarrow> u64 \<Rightarrow> u64) \<Rightarrow> u64 \<Rightarrow> u64 \<Rightarrow> u64 \<Rightarrow> nat \<Rightarrow> (blackhole_measurement \<times> nat) option" where
  "calibrate_blackhole_helper ev target_total_ticks tokens_low tokens_high k =
     (let tokens_diff = tokens_high - tokens_low; tokens_mid = tokens_diff div 2 + tokens_low in
      if tokens_diff = 1 then
        let low_ticks = ev k tokens_low; high_ticks = ev (Suc k) tokens_high in
        Some (if ticks_diff_abs low_ticks target_total_ticks < ticks_diff_abs high_ticks target_total_ticks
              then \<lparr>bm_tokens = tokens_low, bm_ticks = low_ticks\<rparr> else \<lparr>bm_tokens = tokens_high, bm_ticks = high_ticks\<rparr>, Suc (Suc k))
      else
        let t = ev k tokens_mid in
        if t > target_total_ticks then calibrate_blackhole_helper ev target_total_ticks tokens_low tokens_mid (Suc k)
        else if t < target_total_ticks then calibrate_blackhole_helper ev target_total_ticks tokens_mid tokens_high (Suc k)
        else Some (\<lparr>bm_tokens = tokens_mid, bm_ticks = t\<rparr>, Suc k))"

text \<open>The difference of the ticks, truncated to \<open>int\<close>.\<close>

definition cmp_blackhole_measurement :: "blackhole_measurement \<Rightarrow> blackhole_measurement \<Rightarrow> int" where
  "cmp_blackhole_measurement a b = sint (ucast (bm_ticks a - bm_ticks b) :: u32)"

fun calibrate_tries :: "(nat \<Rightarrow> u64 \<Rightarrow> u64) \<Rightarrow> u64 \<Rightarrow> u64 \<Rightarrow> u64 \<Rightarrow> nat \<Rightarrow> nat \<Rightarrow> blackhole_measurement list option" where
  "calibrate_tries ev target_total_ticks low high 0 k = Some []"
| "calibrate_tries ev target_total_ticks low high (Suc n) k = (case calibrate_blackhole_helper ev target_total_ticks low high k of None \<Rightarrow> None
   | Some (m, k') \<Rightarrow> (case calibrate_tries ev target_total_ticks low high n k' of None \<Rightarrow> None | Some ms \<Rightarrow> Some (m # ms)))"

definition calibrate_blackhole ::
    "((blackhole_measurement \<Rightarrow> blackhole_measurement \<Rightarrow> int) \<Rightarrow> blackhole_measurement list \<Rightarrow> blackhole_measurement list) \<Rightarrow>
     (nat \<Rightarrow> u64 \<times> u64) \<Rightarrow> (nat \<Rightarrow> u64 \<Rightarrow> nat \<Rightarrow> nat \<Rightarrow> u64) \<Rightarrow> u64 \<Rightarrow> u64 \<Rightarrow> u64 \<Rightarrow> nat \<Rightarrow> u64 option" where
  "calibrate_blackhole qsort clk hw target_ticks tokens_low tokens_high NUMTRIES =
     (let ev = (\<lambda>k tokens. evaluate_blackhole (clk k) (hw k tokens) NUMTRIES) in
      case calibrate_tries ev (of_nat NUMTRIES * target_ticks) tokens_low tokens_high 5 0 of None \<Rightarrow> None
      | Some results \<Rightarrow> Some (bm_tokens (qsort cmp_blackhole_measurement results ! (5 div 2))))"

section \<open>A steady timer\<close>

lemma sint_of_nat: "n < 2 ^ 63 \<Longrightarrow> sint (of_nat n :: u64) = int n"
  by (simp add: signed_of_nat signed_take_bit_int_eq_self)

lemma max0_of_nat: "n < 2 ^ 63 \<Longrightarrow> max0 (of_nat n) = of_nat n"
  by (simp add: max0_def sint_of_nat)

lemma elapsed_round_const: "(\<And>i. e i = c) \<Longrightarrow> elapsed_round e n = of_nat n * c"
  by (induction n) (simp_all add: algebra_simps)

lemma of_nat_div_u64: "a < 2 ^ 64 \<Longrightarrow> b < 2 ^ 64 \<Longrightarrow> (of_nat a :: u64) div of_nat b = of_nat (a div b)"
proof -
  assume a: "a < 2 ^ 64" and b: "b < 2 ^ 64"
  have u: "unat (of_nat m :: u64) = m" if "m < 2 ^ 64" for m using that by (simp only: unat_of_nat) simp
  have "a div b < 2 ^ 64" using a by (rule le_less_trans [OF div_le_dividend])
  then show ?thesis by (simp only: word_unat_eq_iff unat_div u a b)
qed

lemma evaluate_rounds_const:
  assumes c: "\<And>j i. e j i = of_nat c" and v: "v \<le> c" and n: "n < 2 ^ 32" "n * (n * (c - v)) < 2 ^ 63"
  shows "j \<le> n \<Longrightarrow> evaluate_rounds e (of_nat v) n j = (of_nat (j * (n * (c - v))), if j = 0 then 0 else of_nat (n * (c - v)))"
proof (induction j)
  case (Suc j)
  have "elapsed_round (e j) n - of_nat v * of_nat n = of_nat n * (of_nat c - of_nat v)"
    by (simp add: elapsed_round_const [of "e j" "of_nat c"] c algebra_simps)
  then have d: "elapsed_round (e j) n - of_nat v * of_nat n = of_nat (n * (c - v))" using v by (simp add: of_nat_diff)
  let ?x = "n * (c - v)"
  have "Suc j * ?x \<le> n * ?x" using Suc.prems by (rule mult_le_mono1)
  moreover have "1 * ?x \<le> Suc j * ?x" by (rule mult_le_mono1) simp
  ultimately have le: "Suc j * ?x < 2 ^ 63" "?x < 2 ^ 63" using n(2) by linarith+
  have m: "max0 (of_nat ?x) = of_nat ?x" by (rule max0_of_nat [OF le(2)])
  have "(of_nat (Suc j * ?x) :: u64) div of_nat (Suc j) = of_nat (Suc j * ?x div Suc j)"
    by (rule of_nat_div_u64) (use le(1) n(1) Suc.prems in simp_all)
  moreover have "Suc j * ?x div Suc j = ?x" by (rule nonzero_mult_div_cancel_left) simp
  ultimately have q: "(of_nat (Suc j * ?x) :: u64) div of_nat (Suc j) = of_nat ?x" by (simp only:)
  have "of_nat (j * ?x) + of_nat ?x = (of_nat (Suc j * ?x) :: u64)" by (simp only: mult_Suc of_nat_add add.commute)
  then show ?case using Suc d m q by (simp del: of_nat_mult of_nat_Suc mult_Suc)
qed simp

lemma evaluate_blackhole_steady:
  assumes "\<And>j i. e j i = of_nat c" "v \<le> c" "0 < n" "n < 2 ^ 32" "n * (n * (c - v)) < 2 ^ 63" "v < 2 ^ 63"
    and "snd clk - fst clk = of_nat v"
  shows "evaluate_blackhole clk e n = of_nat (n * (c - v))"
proof -
  have "evaluate_timer_overhead clk = of_nat v" using assms(6,7) max0_of_nat [of v] by (cases clk) (simp add: evaluate_timer_overhead_def)
  then show ?thesis using evaluate_rounds_const [OF assms(1,2,4,5), of n] assms(3) by (simp add: evaluate_blackhole_def)
qed

section \<open>The binary search\<close>

lemma ticks_diff_abs_nat:
  assumes "a < 2 ^ 62" "b < 2 ^ 62"
  shows "ticks_diff_abs (of_nat a) (of_nat b) = nat \<bar>int a - int b\<bar>"
proof -
  have "of_nat a - of_nat b = (word_of_int (int a - int b) :: u64)" by simp
  moreover have "sint (word_of_int (int a - int b) :: u64) = int a - int b"
    using assms by (simp only: signed_of_int) (simp add: signed_take_bit_int_eq_self)
  ultimately show ?thesis by (simp only: ticks_diff_abs_def)
qed

definition closest :: "(nat \<Rightarrow> nat) \<Rightarrow> nat \<Rightarrow> nat \<Rightarrow> nat \<Rightarrow> nat \<Rightarrow> bool" where
  "closest g T l h r \<longleftrightarrow> l \<le> r \<and> r \<le> h \<and> (\<forall>t. l \<le> t \<and> t \<le> h \<longrightarrow> \<bar>int (g r) - int T\<bar> \<le> \<bar>int (g t) - int T\<bar>)"

text \<open>Where the search goes on in one half, the other half has nothing closer.\<close>

lemma closest_left:
  assumes "mono g" "closest g T l m r" "T < g m" "m \<le> h"
  shows "closest g T l h r"
proof -
  have "\<bar>int (g r) - int T\<bar> \<le> \<bar>int (g t) - int T\<bar>" if "l \<le> t" "t \<le> h" for t
  proof (cases "t \<le> m")
    case False
    then have "g m \<le> g t" using assms(1) by (simp add: monoD)
    moreover have "l \<le> m" using assms(2) by (simp add: closest_def)
    then have "\<bar>int (g r) - int T\<bar> \<le> \<bar>int (g m) - int T\<bar>" using assms(2) by (simp add: closest_def)
    ultimately show ?thesis using assms(3) by linarith
  qed (use that assms(2) in \<open>simp add: closest_def\<close>)
  then show ?thesis using assms(2,4) by (auto simp: closest_def)
qed

lemma closest_right:
  assumes "mono g" "closest g T m h r" "g m < T" "l \<le> m"
  shows "closest g T l h r"
proof -
  have "\<bar>int (g r) - int T\<bar> \<le> \<bar>int (g t) - int T\<bar>" if "l \<le> t" "t \<le> h" for t
  proof (cases "m \<le> t")
    case False
    then have "g t \<le> g m" using assms(1) by (simp add: monoD)
    moreover have "m \<le> h" using assms(2) by (simp add: closest_def)
    then have "\<bar>int (g r) - int T\<bar> \<le> \<bar>int (g m) - int T\<bar>" using assms(2) by (simp add: closest_def)
    ultimately show ?thesis using assms(3) by linarith
  qed (use that assms(2) in \<open>simp add: closest_def\<close>)
  then show ?thesis using assms(2,4) by (auto simp: closest_def)
qed

lemma u64_of_nat: "m < 2 ^ 63 \<Longrightarrow> unat (of_nat m :: u64) = m"
  by (simp only: unat_of_nat) simp

lemma calibrate_helper_closest:
  assumes ev: "\<And>k t. t \<le> H \<Longrightarrow> ev k (of_nat t) = of_nat (g t)" and g: "mono g" "g H < 2 ^ 62" and T: "T < 2 ^ 62" and H: "H < 2 ^ 63"
  shows "l < h \<Longrightarrow> h \<le> H \<Longrightarrow> \<exists>r k'. calibrate_blackhole_helper ev (of_nat T) (of_nat l) (of_nat h) k =
     Some (\<lparr>bm_tokens = of_nat r, bm_ticks = of_nat (g r)\<rparr>, k') \<and> closest g T l h r"
proof (induction "h - l" arbitrary: l h k rule: less_induct)
  case less
  note lh = less.prems
  have small: "g t < 2 ^ 62" if "t \<le> H" for t using g monoD [OF g(1) that] by linarith
  have diff: "(of_nat h - of_nat l :: u64) = of_nat (h - l)" using lh(1) by (simp add: of_nat_diff)
  have one: "(of_nat (h - l) :: u64) = 1 \<longleftrightarrow> h - l = 1"
  proof -
    have "unat (of_nat (h - l) :: u64) = h - l" using lh H by (intro u64_of_nat) linarith
    then show ?thesis by (metis of_nat_1 unat_1)
  qed
  show ?case
  proof (cases "h - l = 1")
    case True
    then have h: "h = Suc l" by simp
    have a: "ticks_diff_abs (of_nat (g t)) (of_nat T) = nat \<bar>int (g t) - int T\<bar>" if "t \<le> H" for t by (rule ticks_diff_abs_nat [OF small [OF that] T])
    have lH: "l \<le> H" using lh by simp
    have e: "calibrate_blackhole_helper ev (of_nat T) (of_nat l) (of_nat h) k =
       Some (if nat \<bar>int (g l) - int T\<bar> < nat \<bar>int (g h) - int T\<bar> then \<lparr>bm_tokens = of_nat l, bm_ticks = of_nat (g l)\<rparr>
             else \<lparr>bm_tokens = of_nat h, bm_ticks = of_nat (g h)\<rparr>, Suc (Suc k))"
      using True by (subst calibrate_blackhole_helper.simps) (simp only: diff Let_def of_nat_1 simp_thms if_True ev [OF lH] ev [OF lh(2)] a [OF lH] a [OF lh(2)])
    define r where "r = (if nat \<bar>int (g l) - int T\<bar> < nat \<bar>int (g h) - int T\<bar> then l else h)"
    have "closest g T l h r"
      unfolding closest_def
    proof (intro conjI allI impI)
      show "l \<le> r" "r \<le> h" using lh(1) by (simp_all add: r_def)
      fix t
      assume "l \<le> t \<and> t \<le> h"
      then have "t = l \<or> t = h" using h by linarith
      then show "\<bar>int (g r) - int T\<bar> \<le> \<bar>int (g t) - int T\<bar>" by (auto simp: r_def)
    qed
    then show ?thesis using e by (intro exI [of _ r] exI [of _ "Suc (Suc k)"]) (simp add: r_def)
  next
    case False
    define m where "m = (h - l) div 2 + l"
    have m: "l < m" "m < h" using False lh(1) by (auto simp: m_def)
    have mH: "m \<le> H" using m lh by simp
    have "(of_nat (h - l) :: u64) div of_nat 2 = of_nat ((h - l) div 2)" by (rule of_nat_div_u64) (use lh H in simp_all)
    then have mid: "(of_nat (h - l) :: u64) div 2 + of_nat l = of_nat m" by (simp add: m_def)
    have cmp: "of_nat (g m) > (of_nat T :: u64) \<longleftrightarrow> g m > T" "of_nat (g m) < (of_nat T :: u64) \<longleftrightarrow> g m < T"
      using u64_of_nat [of "g m"] u64_of_nat [of T] small [OF mH] T by (simp_all add: word_less_nat_alt)
    have e: "calibrate_blackhole_helper ev (of_nat T) (of_nat l) (of_nat h) k =
        (if g m > T then calibrate_blackhole_helper ev (of_nat T) (of_nat l) (of_nat m) (Suc k)
         else if g m < T then calibrate_blackhole_helper ev (of_nat T) (of_nat m) (of_nat h) (Suc k)
         else Some (\<lparr>bm_tokens = of_nat m, bm_ticks = of_nat (g m)\<rparr>, Suc k))"
      using False one by (subst calibrate_blackhole_helper.simps) (simp only: diff Let_def if_False mid ev [OF mH] cmp)
    consider "g m > T" | "g m < T" | "g m = T" by linarith
    then show ?thesis
    proof cases
      case 1
      then show ?thesis using less.hyps [of m l "Suc k"] m lh e closest_left [OF g(1) _ 1, of l _ h] by fastforce
    next
      case 2
      then show ?thesis using less.hyps [of h m "Suc k"] m lh e closest_right [OF g(1) _ 2, of h _ l] by fastforce
    next
      case 3
      then have "closest g T l h m" using m by (simp add: closest_def)
      then show ?thesis using e 3 by (intro exI [of _ m] exI [of _ "Suc k"]) simp
    qed
  qed
qed

lemma calibrate_tries_all:
  assumes "\<And>k. \<exists>m k'. calibrate_blackhole_helper ev T low high k = Some (m, k') \<and> P m"
  shows "\<exists>ms. calibrate_tries ev T low high n k = Some ms \<and> length ms = n \<and> (\<forall>m\<in>set ms. P m)"
proof (induction n arbitrary: k)
  case (Suc n)
  obtain m k' where m: "calibrate_blackhole_helper ev T low high k = Some (m, k')" "P m" using assms by blast
  moreover obtain ms where "calibrate_tries ev T low high n k' = Some ms" "length ms = n" "\<forall>m\<in>set ms. P m" using Suc.IH [of k'] by blast
  ultimately show ?case by simp
qed simp

section \<open>Any timer\<close>

text \<open>
  What the search finds whatever the evaluations are, also if they are not repeatable and if more tokens do not take longer: a number of tokens between the bounds for which the target
  was measured exactly, or one of two neighbours of which the lower was measured below the target, or is the lower bound, and the upper was measured above it, or is the
  upper bound; then it is the one whose last measurement is nearer to the target.
\<close>

definition search_result :: "(nat \<Rightarrow> u64 \<Rightarrow> u64) \<Rightarrow> u64 \<Rightarrow> nat \<Rightarrow> nat \<Rightarrow> blackhole_measurement \<Rightarrow> bool" where
  "search_result ev T low high m \<longleftrightarrow> low \<le> unat (bm_tokens m) \<and> unat (bm_tokens m) \<le> high \<and> (\<exists>k. bm_ticks m = ev k (bm_tokens m)) \<and>
     (bm_ticks m = T \<or> (\<exists>l. low \<le> l \<and> l < high \<and> (l = low \<or> (\<exists>k. ev k (of_nat l) < T)) \<and> (Suc l = high \<or> (\<exists>k. T < ev k (of_nat (Suc l)))) \<and>
        (\<exists>k. let lower = ev k (of_nat l); upper = ev (Suc k) (of_nat (Suc l)) in
          m = (if ticks_diff_abs lower T < ticks_diff_abs upper T then \<lparr>bm_tokens = of_nat l, bm_ticks = lower\<rparr>
               else \<lparr>bm_tokens = of_nat (Suc l), bm_ticks = upper\<rparr>))))"

lemma calibrate_helper_returns:
  assumes H: "high < 2 ^ 63"
  shows "l < h \<Longrightarrow> low \<le> l \<Longrightarrow> h \<le> high \<Longrightarrow> l = low \<or> (\<exists>k. ev k (of_nat l) < T) \<Longrightarrow> h = high \<or> (\<exists>k. T < ev k (of_nat h)) \<Longrightarrow>
    \<exists>m k'. calibrate_blackhole_helper ev T (of_nat l) (of_nat h) k = Some (m, k') \<and> search_result ev T low high m"
proof (induction "h - l" arbitrary: l h k rule: less_induct)
  case less
  note lh = less.prems
  have diff: "(of_nat h - of_nat l :: u64) = of_nat (h - l)" using lh(1) by (simp add: of_nat_diff)
  have u: "unat (of_nat t :: u64) = t" if "t \<le> h" for t using that lh(3) H by (intro u64_of_nat) linarith
  have one: "(of_nat (h - l) :: u64) = 1 \<longleftrightarrow> h - l = 1" using u [of "h - l"] by (metis diff_le_self of_nat_1 unat_1)
  show ?case
  proof (cases "h - l = 1")
    case True
    then have h: "h = Suc l" by simp
    let ?lower = "ev k (of_nat l)" and ?upper = "ev (Suc k) (of_nat h)"
    define m where "m = (if ticks_diff_abs ?lower T < ticks_diff_abs ?upper T then \<lparr>bm_tokens = of_nat l, bm_ticks = ?lower\<rparr>
        else \<lparr>bm_tokens = of_nat h, bm_ticks = ?upper\<rparr>)"
    have e: "calibrate_blackhole_helper ev T (of_nat l) (of_nat h) k = Some (m, Suc (Suc k))"
      using True by (subst calibrate_blackhole_helper.simps) (simp only: diff Let_def of_nat_1 simp_thms if_True m_def)
    have "low \<le> unat (bm_tokens m)" "unat (bm_tokens m) \<le> high" "\<exists>k. bm_ticks m = ev k (bm_tokens m)" using u [of l] u [of h] lh by (auto simp: m_def)
    moreover have "\<exists>l. low \<le> l \<and> l < high \<and> (l = low \<or> (\<exists>k. ev k (of_nat l) < T)) \<and> (Suc l = high \<or> (\<exists>k. T < ev k (of_nat (Suc l)))) \<and>
        (\<exists>k. let lower = ev k (of_nat l); upper = ev (Suc k) (of_nat (Suc l)) in
          m = (if ticks_diff_abs lower T < ticks_diff_abs upper T then \<lparr>bm_tokens = of_nat l, bm_ticks = lower\<rparr>
               else \<lparr>bm_tokens = of_nat (Suc l), bm_ticks = upper\<rparr>))"
      using lh unfolding h by (intro exI [of _ l] conjI exI [of _ k]) (simp_all add: m_def h Let_def)
    ultimately show ?thesis using e unfolding search_result_def by blast
  next
    case False
    define c where "c = (h - l) div 2 + l"
    have c: "l < c" "c < h" using False lh(1) by (auto simp: c_def)
    have "(of_nat (h - l) :: u64) div of_nat 2 = of_nat ((h - l) div 2)" by (rule of_nat_div_u64) (use lh H in simp_all)
    then have mid: "(of_nat (h - l) :: u64) div 2 + of_nat l = of_nat c" by (simp add: c_def)
    let ?t = "ev k (of_nat c)"
    have e: "calibrate_blackhole_helper ev T (of_nat l) (of_nat h) k =
        (if ?t > T then calibrate_blackhole_helper ev T (of_nat l) (of_nat c) (Suc k)
         else if ?t < T then calibrate_blackhole_helper ev T (of_nat c) (of_nat h) (Suc k)
         else Some (\<lparr>bm_tokens = of_nat c, bm_ticks = ?t\<rparr>, Suc k))"
      using False one by (subst calibrate_blackhole_helper.simps) (simp only: diff Let_def if_False mid)
    consider "?t > T" | "?t < T" | "?t = T" by (rule linorder_cases [of ?t T])
    then show ?thesis
    proof cases
      case 1
      have "\<exists>m k'. calibrate_blackhole_helper ev T (of_nat l) (of_nat c) (Suc k) = Some (m, k') \<and> search_result ev T low high m"
        by (rule less.hyps) (use c lh 1 in auto)
      then show ?thesis using e 1 by simp
    next
      case 2
      have "\<exists>m k'. calibrate_blackhole_helper ev T (of_nat c) (of_nat h) (Suc k) = Some (m, k') \<and> search_result ev T low high m"
        by (rule less.hyps) (use c lh 2 in auto)
      moreover have "\<not> T < ?t" using 2 by (simp add: not_less)
      ultimately show ?thesis using e 2 by simp
    next
      case 3
      then have "search_result ev T low high \<lparr>bm_tokens = of_nat c, bm_ticks = ?t\<rparr>" using u [of c] c lh by (auto simp: search_result_def)
      then show ?thesis using e 3 by simp
    qed
  qed
qed

text \<open>What \<open>qsort\<close> promises: it permutes, and it sorts if the comparison is a total preorder on the elements.\<close>

definition cmp_ok :: "('a \<Rightarrow> 'a \<Rightarrow> int) \<Rightarrow> 'a list \<Rightarrow> bool" where
  "cmp_ok cmp xs \<longleftrightarrow> (\<forall>x\<in>set xs. \<forall>y\<in>set xs. cmp x y \<le> 0 \<or> cmp y x \<le> 0) \<and>
     (\<forall>x\<in>set xs. \<forall>y\<in>set xs. \<forall>z\<in>set xs. cmp x y \<le> 0 \<longrightarrow> cmp y z \<le> 0 \<longrightarrow> cmp x z \<le> 0)"

definition qsort_ok :: "(('a \<Rightarrow> 'a \<Rightarrow> int) \<Rightarrow> 'a list \<Rightarrow> 'a list) \<Rightarrow> bool" where
  "qsort_ok qsort \<longleftrightarrow> (\<forall>cmp xs. mset (qsort cmp xs) = mset xs \<and> (cmp_ok cmp xs \<longrightarrow> sorted_wrt (\<lambda>x y. cmp x y \<le> 0) (qsort cmp xs)))"

text \<open>The median of five measurements: at least three are not longer, and at least three are not shorter.\<close>

definition median_of :: "blackhole_measurement list \<Rightarrow> blackhole_measurement \<Rightarrow> bool" where
  "median_of ms m \<longleftrightarrow> m \<in> set ms \<and> 3 \<le> size (filter_mset (\<lambda>x. bm_ticks x \<le> bm_ticks m) (mset ms)) \<and>
     3 \<le> size (filter_mset (\<lambda>x. bm_ticks m \<le> bm_ticks x) (mset ms))"

text \<open>Below \<open>2 ^ 31\<close> ticks the comparison is that of the ticks.\<close>

lemma cmp_small:
  assumes "unat (bm_ticks x) < 2 ^ 31" "unat (bm_ticks y) < 2 ^ 31"
  shows "cmp_blackhole_measurement x y \<le> 0 \<longleftrightarrow> bm_ticks x \<le> bm_ticks y"
proof -
  let ?a = "unat (bm_ticks x)" and ?b = "unat (bm_ticks y)"
  have "(ucast (bm_ticks x - bm_ticks y) :: u32) = word_of_int (int ?a - int ?b)"
    by (simp add: ucast_diff_down)
  moreover have "sint (word_of_int (int a - int b) :: u32) = int a - int b" if "a < 2 ^ 31" "b < 2 ^ 31" for a b
    using that by (simp only: signed_of_int) (simp add: signed_take_bit_int_eq_self)
  note this [OF assms]
  ultimately show ?thesis by (simp add: cmp_blackhole_measurement_def word_le_def)
qed

lemma qsort_median:
  assumes q: "qsort_ok qsort" and ms: "length ms = 5" "\<forall>m\<in>set ms. unat (bm_ticks m) < 2 ^ 31"
  shows "median_of ms (qsort cmp_blackhole_measurement ms ! 2)"
proof -
  let ?xs = "qsort cmp_blackhole_measurement ms"
  have "cmp_ok cmp_blackhole_measurement ms" using ms(2) by (auto simp: cmp_ok_def cmp_small intro: linear)
  with q have m: "mset ?xs = mset ms" and s: "sorted_wrt (\<lambda>x y. cmp_blackhole_measurement x y \<le> 0) ?xs" by (auto simp: qsort_ok_def)
  have l: "length ?xs = 5" using m ms(1) by (metis size_mset)
  have small: "\<forall>m\<in>set ?xs. unat (bm_ticks m) < 2 ^ 31" using m ms(2) by (metis set_mset_mset)
  obtain a b c d e where x: "?xs = [a, b, c, d, e]" using l by (auto simp: length_Suc_conv eval_nat_numeral)
  have le: "bm_ticks a \<le> bm_ticks c" "bm_ticks b \<le> bm_ticks c" "bm_ticks c \<le> bm_ticks d" "bm_ticks c \<le> bm_ticks e"
    using s small by (simp_all add: x cmp_small)
  have "mset ms = mset [a, b, c, d, e]" using m x by simp
  then show ?thesis using le m x by (auto simp: median_of_def simp flip: set_mset_mset)
qed

text \<open>The calibration returns for any timer.\<close>

lemma calibrate_returns:
  assumes "high < 2 ^ 63" "low < high" "qsort_ok qsort"
  shows "\<exists>ms m. calibrate_blackhole qsort clk hw target (of_nat low) (of_nat high) n = Some (bm_tokens m) \<and> length ms = 5 \<and> m \<in> set ms \<and>
    (\<forall>x\<in>set ms. search_result (\<lambda>k tokens. evaluate_blackhole (clk k) (hw k tokens) n) (of_nat n * target) low high x) \<and>
    ((\<forall>x\<in>set ms. unat (bm_ticks x) < 2 ^ 31) \<longrightarrow> median_of ms m)"
proof -
  define ev where "ev k tokens = evaluate_blackhole (clk k) (hw k tokens) n" for k tokens
  have "\<exists>m k'. calibrate_blackhole_helper ev (of_nat n * target) (of_nat low) (of_nat high) k = Some (m, k') \<and>
      search_result ev (of_nat n * target) low high m" for k
    using calibrate_helper_returns [OF assms(1), of low high low ev "of_nat n * target" k] assms(2) by simp
  from calibrate_tries_all [OF this, of 5 0] obtain ms where ms: "calibrate_tries ev (of_nat n * target) (of_nat low) (of_nat high) 5 0 = Some ms"
    "length ms = 5" "\<forall>x\<in>set ms. search_result ev (of_nat n * target) low high x" by blast
  have m: "mset (qsort cmp_blackhole_measurement ms) = mset ms" using assms(3) by (simp add: qsort_ok_def)
  then have "set (qsort cmp_blackhole_measurement ms) = set ms" "length (qsort cmp_blackhole_measurement ms) = 5" using ms(2) by (metis set_mset_mset, metis size_mset)
  then have "qsort cmp_blackhole_measurement ms ! 2 \<in> set ms" using nth_mem [of 2 "qsort cmp_blackhole_measurement ms"] by simp
  then show ?thesis using ms qsort_median [OF assms(3) ms(2)]
    by (intro exI [of _ ms] exI [of _ "qsort cmp_blackhole_measurement ms ! 2"]) (simp add: calibrate_blackhole_def ev_def [symmetric] Let_def)
qed

text \<open>The evaluations of a steady timer, as a function of the tokens.\<close>

lemma steady_evaluations:
  assumes f: "mono f" "v \<le> f 0" and n: "0 < n" "n < 2 ^ 32"
    and hw: "\<And>k t j i. t \<le> high \<Longrightarrow> hw k (of_nat t) j i = of_nat (f t)" and clk: "\<And>k. snd (clk k) - fst (clk k) = of_nat v"
    and bound: "n * (n * f high) < 2 ^ 62"
  shows "t \<le> high \<Longrightarrow> evaluate_blackhole (clk k) (hw k (of_nat t)) n = of_nat (n * (f t - v))"
    and "mono (\<lambda>t. n * (f t - v))" and "n * (f high - v) < 2 ^ 62"
proof -
  have vf: "v \<le> f t" for t using f monoD [OF f(1), of 0 t] by simp
  have n1: "m \<le> n * m" for m using n(1) by simp
  show "evaluate_blackhole (clk k) (hw k (of_nat t)) n = of_nat (n * (f t - v))" if t: "t \<le> high"
  proof (rule evaluate_blackhole_steady)
    have "n * (n * (f t - v)) \<le> n * (n * f high)" using monoD [OF f(1) t] by (intro mult_le_mono2) simp
    also note bound
    finally show "n * (n * (f t - v)) < 2 ^ 63" by simp
    have "v \<le> n * (n * f high)" using vf [of high] n1 [of "f high"] n1 [of "n * f high"] by linarith
    also note bound
    finally show "v < 2 ^ 63" by simp
  qed (use hw clk vf n t in simp_all)
  show "mono (\<lambda>t. n * (f t - v))" using f(1) by (intro monoI mult_le_mono2 diff_le_mono) (rule monoD)
  have "n * (f high - v) \<le> n * f high" by (intro mult_le_mono2) simp
  also have "\<dots> \<le> n * (n * f high)" by (rule n1)
  also note bound
  finally show "n * (f high - v) < 2 ^ 62" .
qed

section \<open>Properties\<close>

text \<open>The calibration returns, and finds the best delay: if the timer is steady, a call with more tokens never takes less time, and \<open>qsort\<close>
  returns what it was given in some order, then \<open>calibrate_blackhole\<close> gives a number of tokens between the bounds whose time, less the
  overhead \<open>v\<close> of the timer, is as close to the target as any number of tokens between the bounds can get.\<close>

theorem calibrate_finds_closest:
  assumes f: "mono f" "v \<le> f 0" and n: "0 < n" "n < 2 ^ 32"
    and hw: "\<And>k t j i. t \<le> high \<Longrightarrow> hw k (of_nat t) j i = of_nat (f t)" and clk: "\<And>k. snd (clk k) - fst (clk k) = of_nat v"
    and bounds: "low < high" "high < 2 ^ 63" "n * (n * f high) < 2 ^ 62" "n * target < 2 ^ 62"
    and qsort: "\<And>cmp xs. mset (qsort cmp xs) = mset xs"
  shows "\<exists>r. calibrate_blackhole qsort clk hw (of_nat target) (of_nat low) (of_nat high) n = Some (of_nat r) \<and> low \<le> r \<and> r \<le> high \<and>
    (\<forall>t. low \<le> t \<and> t \<le> high \<longrightarrow> \<bar>int (f r) - int v - int target\<bar> \<le> \<bar>int (f t) - int v - int target\<bar>)"
proof -
  define g where "g = (\<lambda>t. n * (f t - v))"
  define ev where "ev k tokens = evaluate_blackhole (clk k) (hw k tokens) n" for k tokens
  define P where "P m \<longleftrightarrow> (\<exists>r. m = \<lparr>bm_tokens = of_nat r, bm_ticks = of_nat (g r)\<rparr> \<and> closest g (n * target) low high r)" for m
  have vf: "v \<le> f t" for t using f monoD [OF f(1), of 0 t] by simp
  have steady: "\<And>k t. t \<le> high \<Longrightarrow> ev k (of_nat t) = of_nat (g t)" "mono g" "g high < 2 ^ 62"
    unfolding ev_def g_def by (rule steady_evaluations [where f = f and high = high and hw = hw and clk = clk]; use f n hw clk bounds(3) in simp)+
  then have "\<exists>m k'. calibrate_blackhole_helper ev (of_nat (n * target)) (of_nat low) (of_nat high) k = Some (m, k') \<and> P m" for k
    using calibrate_helper_closest [of high ev g "n * target" low high k] bounds unfolding P_def by blast
  from calibrate_tries_all [OF this, of 5 0] obtain ms where ms: "calibrate_tries ev (of_nat (n * target)) (of_nat low) (of_nat high) 5 0 = Some ms"
    "length ms = 5" "\<forall>m\<in>set ms. P m" by blast
  have q: "set (qsort cmp_blackhole_measurement ms) = set ms" "length (qsort cmp_blackhole_measurement ms) = 5"
    using qsort ms(2) by (metis set_mset_mset, metis size_mset)
  then have "qsort cmp_blackhole_measurement ms ! 2 \<in> set ms" using nth_mem [of 2 "qsort cmp_blackhole_measurement ms"] by simp
  then obtain r where r: "qsort cmp_blackhole_measurement ms ! 2 = \<lparr>bm_tokens = of_nat r, bm_ticks = of_nat (g r)\<rparr>" "closest g (n * target) low high r"
    using ms(3) P_def by blast
  have "calibrate_blackhole qsort clk hw (of_nat target) (of_nat low) (of_nat high) n = Some (of_nat r)"
    using ms(1) r(1) by (simp add: calibrate_blackhole_def ev_def [symmetric] Let_def)
  moreover have "\<bar>int (f r) - int v - int target\<bar> \<le> \<bar>int (f t) - int v - int target\<bar>" if "low \<le> t" "t \<le> high" for t
  proof -
    have e: "int (g u) - int (n * target) = int n * (int (f u) - int v - int target)" for u
      using vf [of u] by (simp add: g_def of_nat_diff algebra_simps)
    have "\<bar>int (g r) - int (n * target)\<bar> \<le> \<bar>int (g t) - int (n * target)\<bar>" using r(2) that by (simp add: closest_def)
    then show ?thesis unfolding e abs_mult using n(1) by simp
  qed
  ultimately show ?thesis using r(2) by (auto simp: closest_def)
qed

text \<open>A call of \<open>t\<close> tokens takes \<open>3 t + 10\<close> ticks, of which 4 are overhead; for 100 ticks it needs 31 tokens.\<close>

theorem calibrate_finds_closest_witness:
  "calibrate_blackhole (\<lambda>_ xs. xs) (\<lambda>_. (7, 11)) (\<lambda>_ t _ _. 3 * t + 10) 100 0 1000000 20 = Some 31"
proof -
  have "\<exists>r. calibrate_blackhole (\<lambda>_ xs. xs) (\<lambda>_. (7, 11)) (\<lambda>_ t _ _. 3 * t + 10) (of_nat 100) (of_nat 0) (of_nat 1000000) 20 = Some (of_nat r) \<and>
      0 \<le> r \<and> r \<le> 1000000 \<and>
      (\<forall>t. 0 \<le> t \<and> t \<le> 1000000 \<longrightarrow> \<bar>int (3 * r + 10) - int 4 - int 100\<bar> \<le> \<bar>int (3 * t + 10) - int 4 - int 100\<bar>)"
    by (rule calibrate_finds_closest [where f = "\<lambda>t. 3 * t + 10"]) (auto simp: mono_def)
  then obtain r where r: "calibrate_blackhole (\<lambda>_ xs. xs) (\<lambda>_. (7, 11)) (\<lambda>_ t _ _. 3 * t + 10) 100 0 1000000 20 = Some (of_nat r)"
    "\<forall>t. t \<le> 1000000 \<longrightarrow> \<bar>int (3 * r + 10) - int 4 - int 100\<bar> \<le> \<bar>int (3 * t + 10) - int 4 - int 100\<bar>" by auto
  from r(2) [rule_format, of 31] have "r = 31" by simp
  then show ?thesis using r(1) by simp
qed

end
