(* ===== verification/Adjacent.thy ===== *)
theory Adjacent
  imports Lock_Prelude
begin

text \<open>Neighbours in a list, for queues whose inner elements leave.\<close>

fun adj :: "'a list \<Rightarrow> 'a \<Rightarrow> 'a \<Rightarrow> bool" where
  "adj [] p n \<longleftrightarrow> False"
| "adj [x] p n \<longleftrightarrow> False"
| "adj (x # y # q) p n \<longleftrightarrow> (x = p \<and> y = n) \<or> adj (y # q) p n"

lemma adj_in: "adj q p n \<Longrightarrow> p \<in> set q" "adj q p n \<Longrightarrow> n \<in> set (tl q)"
  by (induction q p n rule: adj.induct) auto

lemma adj_in_set: "adj q p n \<Longrightarrow> n \<in> set q"
  by (rule in_set_tl) (rule adj_in(2))

lemma adj_app: "adj (xs @ y # ys) a b \<longleftrightarrow> adj (xs @ [y]) a b \<or> adj (y # ys) a b"
proof (induction xs)
  case (Cons x xs)
  then show ?case by (cases xs) auto
qed simp

lemma adj_append: "adj (q @ [i]) p n \<longleftrightarrow> adj q p n \<or> (q \<noteq> [] \<and> p = last q \<and> n = i)"
  by (induction q p n rule: adj.induct) auto

lemma adj_not_last: "adj q p n \<Longrightarrow> distinct q \<Longrightarrow> p \<noteq> last q"
  by (induction q p n rule: adj.induct) auto

lemma adj_neq: "adj q p n \<Longrightarrow> distinct q \<Longrightarrow> p \<noteq> n"
  by (induction q p n rule: adj.induct) auto

lemma adj_not_hd: "adj q p n \<Longrightarrow> distinct q \<Longrightarrow> n \<noteq> hd q"
  by (cases q) (auto dest: adj_in(2))

lemma adj_ex_succ: "p \<in> set q \<Longrightarrow> p \<noteq> last q \<Longrightarrow> \<exists>n. adj q p n"
proof (induction q)
  case (Cons x q)
  then show ?case by (cases q) auto
qed simp

lemma adj_ex_pred: "n \<in> set (tl q) \<Longrightarrow> \<exists>p. adj q p n"
proof (induction q)
  case (Cons x q)
  then show ?case by (cases q) auto
qed simp

lemma adj_succ_unique: "distinct q \<Longrightarrow> adj q p n \<Longrightarrow> adj q p m \<Longrightarrow> n = m"
proof (induction q)
  case (Cons x q)
  then show ?case by (cases q) (auto dest: adj_in(1))
qed simp

lemma adj_pred_unique: "distinct q \<Longrightarrow> adj q p n \<Longrightarrow> adj q r n \<Longrightarrow> p = r"
proof (induction q)
  case (Cons x q)
  then show ?case by (cases q) (auto dest: adj_in(2))
qed simp

lemma adj_butlast: "adj (butlast q) p n \<Longrightarrow> adj q p n"
  by (cases q rule: rev_cases) (simp_all add: adj_append)

lemma adj_tl: "adj (tl q) p n \<Longrightarrow> adj q p n"
  by (cases q; cases "tl q") auto

lemma adj_split: "adj q p n \<Longrightarrow> \<exists>xs ys. q = xs @ p # n # ys"
proof (induction q)
  case (Cons x q)
  then obtain y r where q: "q = y # r" by (cases q) auto
  show ?case
  proof (cases "x = p \<and> y = n")
    case True
    then show ?thesis using q by (intro exI [of _ "[]"] exI [of _ r]) simp
  next
    case False
    with Cons q obtain xs ys where "q = xs @ p # n # ys" by auto
    then show ?thesis by (intro exI [of _ "x # xs"] exI [of _ ys]) simp
  qed
qed simp

text \<open>What passes from every element to its neighbour reaches the last one.\<close>

lemma adj_last_closed:
  "a \<in> set q \<Longrightarrow> P a \<Longrightarrow> (\<And>x y. adj q x y \<Longrightarrow> P x \<Longrightarrow> P y) \<Longrightarrow> P (last q)"
proof (induction q arbitrary: a)
  case (Cons x q)
  show ?case
  proof (cases "q = []")
    case False
    then obtain y r where q: "q = y # r" by (cases q) auto
    have "\<exists>b\<in>set q. P b" using Cons.prems(1,2) Cons.prems(3) [of x y] q by auto
    then obtain b where b: "b \<in> set q" "P b" ..
    have "P (last q)"
    proof (rule Cons.IH [OF b])
      show "P w" if "adj q u w" "P u" for u w using Cons.prems(3) [of u w] that q by simp
    qed
    with False show ?thesis by simp
  qed (use Cons.prems in simp)
qed simp

text \<open>Removing an inner element makes its neighbours adjacent.\<close>

lemma adj_remove:
  assumes d: "distinct q" and p: "adj q p i" and n: "adj q i n"
  shows "adj (remove1 i q) a b \<Longrightarrow> (a = p \<and> b = n) \<or> (adj q a b \<and> a \<noteq> i \<and> b \<noteq> i)"
    and "last (remove1 i q) = last q" "hd (remove1 i q) = hd q" "remove1 i q \<noteq> []"
proof -
  obtain xs r where q: "q = xs @ p # i # r" using adj_split [OF p] by blast
  have "i \<noteq> last q" by (rule adj_not_last [OF n d])
  with q obtain m ys where r: "r = m # ys" by (cases r) auto
  have "adj (i # m # ys) i m" by simp
  then have "adj q i m" unfolding q r using adj_app [of "xs @ [p]" i "m # ys" i m] by simp
  then have m: "m = n" by (rule adj_succ_unique [OF d _ n])
  have e: "remove1 i q = xs @ p # n # ys" using d unfolding q r m by (simp add: remove1_append)
  show "last (remove1 i q) = last q" "remove1 i q \<noteq> []" unfolding e unfolding q r m by simp_all
  show "hd (remove1 i q) = hd q" unfolding e unfolding q r m by (cases xs) simp_all
  show "(a = p \<and> b = n) \<or> (adj q a b \<and> a \<noteq> i \<and> b \<noteq> i)" if "adj (remove1 i q) a b"
  proof -
    have ni: "i \<notin> set (remove1 i q)" using d by simp
    then have "a \<noteq> i" "b \<noteq> i" using adj_in(1) [OF that] adj_in_set [OF that] by auto
    moreover have "adj (xs @ [p]) a b \<or> (a = p \<and> b = n) \<or> adj (n # ys) a b"
      using that adj_app [of xs p "n # ys" a b] unfolding e by auto
    moreover have "adj q a b" if "adj (xs @ [p]) a b \<or> adj (n # ys) a b"
      using that adj_app [of xs p "i # n # ys" a b] unfolding q r m by auto
    ultimately show ?thesis by blast
  qed
qed

end
