(* ===== verification/OSQ_Lock.thy ===== *)
theory OSQ_Lock
  imports Adjacent
begin

text \<open>
  The optimistic spin queue of \<open>ext/linux/osq_lock.h\<close>: an MCS-like queue whose waiters give up after
  \<open>unqueue_retry\<close> spins, take themselves out of the middle of the doubly linked queue, and start
  again. \<open>osq_lock\<close>, \<open>osq_unlock\<close> and \<open>osq_wait_next\<close> are modelled access by access. The node of thread
  \<open>i\<close> is element \<open>i\<close> of \<open>global_osq_nodepool_ptr\<close>; a label is the thread that moves.
\<close>

section \<open>The code\<close>

text \<open>
  The positions, with the locals \<open>prev\<close>, \<open>next\<close>, \<open>old\<close> and \<open>back_off\<close> that are live there. In
  \<open>osq_wait_next\<close> the argument \<open>prev\<close> is a node when it is called from the unqueue path and \<open>NULL\<close>
  when it is called from \<open>osq_unlock\<close>.
\<close>

datatype osq_pc = OIdle | ORetry | OInitNext | OInitCpu | OXchg
  | OSetPrev tid | OLink tid | OSpin tid int
  | OStepA tid | OStepACas tid | OStepALocked tid | OStepAPrev
  | OWaitCpu tid | OWaitTail "tid option" u32 | OWaitCas "tid option" u32 | OWaitNext "tid option" u32 | OWaitXchg "tid option" u32
  | OStepC tid tid | OStepC2 tid tid
  | OCS | OUnlockXchg | OGrant tid | ONull

record osq_state =
  o_tail :: u32
  o_next :: "tid \<Rightarrow> tid option"
  o_prev :: "tid \<Rightarrow> tid option"
  o_locked :: "tid \<Rightarrow> u64"
  o_cpu :: "tid \<Rightarrow> u64"
  o_pc :: "tid \<Rightarrow> osq_pc"

abbreviation o_goto :: "tid \<Rightarrow> osq_pc \<Rightarrow> osq_state \<Rightarrow> osq_state" where
  "o_goto i p s \<equiv> s\<lparr>o_pc := (o_pc s)(i := p)\<rparr>"

definition encode_cpu :: "tid \<Rightarrow> u32" where
  "encode_cpu i = of_nat i + 1"

definition cpu_to_node :: "u32 \<Rightarrow> tid" where
  "cpu_to_node encoded_cpu_val = unat (encoded_cpu_val - 1)"

text \<open>\<open>osq_lock_init\<close> zeroes the node pool and sets the tail to \<open>OSQ_UNLOCKED_VAL\<close>.\<close>

definition osq_queue_init :: osq_state where
  "osq_queue_init = \<lparr>o_tail = 0, o_next = (\<lambda>_. None), o_prev = (\<lambda>_. None), o_locked = (\<lambda>_. 0), o_cpu = (\<lambda>_. 0),
     o_pc = (\<lambda>_. OIdle)\<rparr>"

text \<open>\<open>osq_lock\<close>: initialization of the node, the exchange of the tail, linking.\<close>

definition osq_init_locked :: "tid \<Rightarrow> osq_state \<Rightarrow> osq_state" where
  "osq_init_locked i s = o_goto i OInitNext (s\<lparr>o_locked := (o_locked s)(i := 0)\<rparr>)"

definition osq_init_next :: "tid \<Rightarrow> osq_state \<Rightarrow> osq_state" where
  "osq_init_next i s = o_goto i OInitCpu (s\<lparr>o_next := (o_next s)(i := None)\<rparr>)"

definition osq_init_cpu :: "tid \<Rightarrow> osq_state \<Rightarrow> osq_state" where
  "osq_init_cpu i s = o_goto i OXchg (s\<lparr>o_cpu := (o_cpu s)(i := ucast (encode_cpu i))\<rparr>)"

definition osq_xchg :: "tid \<Rightarrow> osq_state \<Rightarrow> osq_state" where
  "osq_xchg i s = (let old = o_tail s in
     o_goto i (if old = 0 then OCS else OSetPrev (cpu_to_node old)) (s\<lparr>o_tail := encode_cpu i\<rparr>))"

definition osq_set_prev :: "tid \<Rightarrow> tid \<Rightarrow> osq_state \<Rightarrow> osq_state" where
  "osq_set_prev i p s = o_goto i (OLink p) (s\<lparr>o_prev := (o_prev s)(i := Some p)\<rparr>)"

definition osq_link :: "tid \<Rightarrow> tid \<Rightarrow> osq_state \<Rightarrow> osq_state" where
  "osq_link i p s = o_goto i (OSpin p 0) (s\<lparr>o_next := (o_next s)(p := Some i)\<rparr>)"

text \<open>The spin loop; \<open>++back_off > unqueue_retry\<close> leads to the unqueue path.\<close>

definition osq_spin :: "int \<Rightarrow> tid \<Rightarrow> tid \<Rightarrow> int \<Rightarrow> osq_state \<Rightarrow> osq_state" where
  "osq_spin retry i p back_off s =
     o_goto i (if o_locked s i \<noteq> 0 then OCS else if back_off + 1 > retry then OStepA p else OSpin p (back_off + 1)) s"

text \<open>Step A: undo the link from \<open>prev\<close>.\<close>

definition osq_step_a :: "tid \<Rightarrow> tid \<Rightarrow> osq_state \<Rightarrow> osq_state" where
  "osq_step_a i p s = o_goto i (if o_next s p = Some i then OStepACas p else OStepALocked p) s"

definition osq_step_a_cas :: "tid \<Rightarrow> tid \<Rightarrow> osq_state \<Rightarrow> osq_state" where
  "osq_step_a_cas i p s =
     (if o_next s p = Some i then o_goto i (OWaitCpu p) (s\<lparr>o_next := (o_next s)(p := None)\<rparr>)
      else o_goto i (OStepALocked p) s)"

definition osq_step_a_locked :: "tid \<Rightarrow> tid \<Rightarrow> osq_state \<Rightarrow> osq_state" where
  "osq_step_a_locked i p s = o_goto i (if o_locked s i \<noteq> 0 then OCS else OStepAPrev) s"

text \<open>The loop goes on with \<open>prev = node->prev\<close>; \<open>ONull\<close> would be the use of a null pointer.\<close>

definition osq_step_a_prev :: "tid \<Rightarrow> osq_state \<Rightarrow> osq_state" where
  "osq_step_a_prev i s = o_goto i (case o_prev s i of Some p \<Rightarrow> OStepA p | None \<Rightarrow> ONull) s"

text \<open>\<open>osq_wait_next\<close>, called for step B and by \<open>osq_unlock\<close>.\<close>

definition osq_wait_cpu :: "tid \<Rightarrow> tid \<Rightarrow> osq_state \<Rightarrow> osq_state" where
  "osq_wait_cpu i p s = o_goto i (OWaitTail (Some p) (ucast (o_cpu s p))) s"

definition osq_wait_tail :: "tid \<Rightarrow> tid option \<Rightarrow> u32 \<Rightarrow> osq_state \<Rightarrow> osq_state" where
  "osq_wait_tail i c old s = o_goto i (if o_tail s = encode_cpu i then OWaitCas c old else OWaitNext c old) s"

definition osq_wait_cas :: "tid \<Rightarrow> tid option \<Rightarrow> u32 \<Rightarrow> osq_state \<Rightarrow> osq_state" where
  "osq_wait_cas i c old s =
     (if o_tail s = encode_cpu i then o_goto i (case c of Some _ \<Rightarrow> ORetry | None \<Rightarrow> OIdle) (s\<lparr>o_tail := old\<rparr>)
      else o_goto i (OWaitNext c old) s)"

definition osq_wait_next :: "tid \<Rightarrow> tid option \<Rightarrow> u32 \<Rightarrow> osq_state \<Rightarrow> osq_state" where
  "osq_wait_next i c old s = o_goto i (if o_next s i \<noteq> None then OWaitXchg c old else OWaitTail c old) s"

definition osq_wait_xchg :: "tid \<Rightarrow> tid option \<Rightarrow> u32 \<Rightarrow> osq_state \<Rightarrow> osq_state" where
  "osq_wait_xchg i c old s =
     o_goto i (case o_next s i of None \<Rightarrow> OWaitTail c old
               | Some n \<Rightarrow> (case c of Some p \<Rightarrow> OStepC p n | None \<Rightarrow> OGrant n)) (s\<lparr>o_next := (o_next s)(i := None)\<rparr>)"

text \<open>Step C: unlink. \<open>osq_lock\<close> returns false and \<open>osq_lock_acquire\<close> calls it again.\<close>

definition osq_step_c :: "tid \<Rightarrow> tid \<Rightarrow> tid \<Rightarrow> osq_state \<Rightarrow> osq_state" where
  "osq_step_c i p n s = o_goto i (OStepC2 p n) (s\<lparr>o_prev := (o_prev s)(n := Some p)\<rparr>)"

definition osq_step_c2 :: "tid \<Rightarrow> tid \<Rightarrow> tid \<Rightarrow> osq_state \<Rightarrow> osq_state" where
  "osq_step_c2 i p n s = o_goto i ORetry (s\<lparr>o_next := (o_next s)(p := Some n)\<rparr>)"

text \<open>\<open>osq_unlock\<close>.\<close>

definition osq_unlock :: "tid \<Rightarrow> osq_state \<Rightarrow> osq_state" where
  "osq_unlock i s = (if o_tail s = encode_cpu i then o_goto i OIdle (s\<lparr>o_tail := 0\<rparr>) else o_goto i OUnlockXchg s)"

definition osq_unlock_xchg :: "tid \<Rightarrow> osq_state \<Rightarrow> osq_state" where
  "osq_unlock_xchg i s =
     o_goto i (case o_next s i of None \<Rightarrow> OWaitTail None 0 | Some n \<Rightarrow> OGrant n) (s\<lparr>o_next := (o_next s)(i := None)\<rparr>)"

definition osq_grant :: "tid \<Rightarrow> tid \<Rightarrow> osq_state \<Rightarrow> osq_state" where
  "osq_grant i n s = o_goto i OIdle (s\<lparr>o_locked := (o_locked s)(n := 1)\<rparr>)"

definition osq_step :: "int \<Rightarrow> nat \<Rightarrow> tid \<Rightarrow> osq_state \<Rightarrow> osq_state" where
  "osq_step retry N i s = (if i < N then (case o_pc s i of
       OIdle \<Rightarrow> osq_init_locked i s
     | ORetry \<Rightarrow> osq_init_locked i s
     | OInitNext \<Rightarrow> osq_init_next i s
     | OInitCpu \<Rightarrow> osq_init_cpu i s
     | OXchg \<Rightarrow> osq_xchg i s
     | OSetPrev p \<Rightarrow> osq_set_prev i p s
     | OLink p \<Rightarrow> osq_link i p s
     | OSpin p k \<Rightarrow> osq_spin retry i p k s
     | OStepA p \<Rightarrow> osq_step_a i p s
     | OStepACas p \<Rightarrow> osq_step_a_cas i p s
     | OStepALocked p \<Rightarrow> osq_step_a_locked i p s
     | OStepAPrev \<Rightarrow> osq_step_a_prev i s
     | OWaitCpu p \<Rightarrow> osq_wait_cpu i p s
     | OWaitTail c old \<Rightarrow> osq_wait_tail i c old s
     | OWaitCas c old \<Rightarrow> osq_wait_cas i c old s
     | OWaitNext c old \<Rightarrow> osq_wait_next i c old s
     | OWaitXchg c old \<Rightarrow> osq_wait_xchg i c old s
     | OStepC p n \<Rightarrow> osq_step_c i p n s
     | OStepC2 p n \<Rightarrow> osq_step_c2 i p n s
     | OCS \<Rightarrow> osq_unlock i s
     | OUnlockXchg \<Rightarrow> osq_unlock_xchg i s
     | OGrant n \<Rightarrow> osq_grant i n s
     | ONull \<Rightarrow> s) else s)"

lemmas osq_step_defs = osq_init_locked_def osq_init_next_def osq_init_cpu_def osq_xchg_def osq_set_prev_def osq_link_def osq_spin_def
  osq_step_a_def osq_step_a_cas_def osq_step_a_locked_def osq_step_a_prev_def osq_wait_cpu_def osq_wait_tail_def osq_wait_cas_def
  osq_wait_next_def osq_wait_xchg_def osq_step_c_def osq_step_c2_def osq_unlock_def osq_unlock_xchg_def osq_grant_def Let_def

section \<open>Codes\<close>

lemma encode_nz: "i < 2 ^ 31 \<Longrightarrow> encode_cpu i \<noteq> 0"
  by (auto simp: encode_cpu_def word_unat_eq_iff unat_word_ariths unat_of_nat)

lemma decode_cpu: "i < 2 ^ 31 \<Longrightarrow> cpu_to_node (encode_cpu i) = i"
  by (simp add: encode_cpu_def cpu_to_node_def unat_of_nat)

lemma encode_inj: "i < 2 ^ 31 \<Longrightarrow> j < 2 ^ 31 \<Longrightarrow> encode_cpu i = encode_cpu j \<Longrightarrow> i = j"
  by (metis decode_cpu)

lemma ucast_encode: "(ucast (ucast (encode_cpu i) :: u64) :: u32) = encode_cpu i"
  by (rule ucast_ucast_up) simp

end
