(* ===== verification/OSQ_Correct.thy ===== *)
theory OSQ_Correct
  imports OSQ_Lock
begin

text \<open>
  Correctness of the optimistic spin queue. The queue is the list of the threads between the
  exchange of the tail and the moment they leave; a neighbouring pair \<open>p\<close>, \<open>n\<close> is in one of four
  states, according to who may touch the link between them.
\<close>

section \<open>Where a thread stands\<close>

definition o_wait :: "osq_pc \<Rightarrow> bool" where
  "o_wait p = (case p of OSpin _ _ \<Rightarrow> True | OStepA _ \<Rightarrow> True | OStepACas _ \<Rightarrow> True | OStepALocked _ \<Rightarrow> True
     | OStepAPrev \<Rightarrow> True | _ \<Rightarrow> False)"

text \<open>Not linked yet, or the link from the predecessor taken down in step A.\<close>

definition o_linking :: "osq_pc \<Rightarrow> tid option" where
  "o_linking p = (case p of OSetPrev r \<Rightarrow> Some r | OLink r \<Rightarrow> Some r | _ \<Rightarrow> None)"

definition o_down :: "osq_pc \<Rightarrow> tid option" where
  "o_down p = (case p of OWaitCpu r \<Rightarrow> Some r | OWaitTail c _ \<Rightarrow> c | OWaitCas c _ \<Rightarrow> c | OWaitNext c _ \<Rightarrow> c
     | OWaitXchg c _ \<Rightarrow> c | OStepC r _ \<Rightarrow> Some r | OStepC2 r _ \<Rightarrow> Some r | _ \<Rightarrow> None)"

text \<open>The successor whose link the thread has taken with \<open>xchg\<close>.\<close>

definition o_took :: "osq_pc \<Rightarrow> tid option" where
  "o_took p = (case p of OStepC _ n \<Rightarrow> Some n | OStepC2 _ n \<Rightarrow> Some n | OGrant n \<Rightarrow> Some n | _ \<Rightarrow> None)"

definition o_owner :: "osq_pc \<Rightarrow> bool" where
  "o_owner p = (case p of OCS \<Rightarrow> True | OUnlockXchg \<Rightarrow> True | OGrant _ \<Rightarrow> True | OWaitTail c _ \<Rightarrow> c = None
     | OWaitCas c _ \<Rightarrow> c = None | OWaitNext c _ \<Rightarrow> c = None | OWaitXchg c _ \<Rightarrow> c = None | _ \<Rightarrow> False)"

definition o_in :: "osq_pc \<Rightarrow> bool" where
  "o_in p \<longleftrightarrow> o_wait p \<or> o_linking p \<noteq> None \<or> o_down p \<noteq> None \<or> o_owner p"

lemmas o_pc_defs = o_wait_def o_linking_def o_down_def o_took_def o_owner_def o_in_def

lemma o_took_wait: "o_wait p \<Longrightarrow> o_took p = None" "o_linking p \<noteq> None \<Longrightarrow> o_took p = None"
  by (auto simp: o_pc_defs split: osq_pc.splits)

lemma o_excl:
  "o_wait p \<Longrightarrow> o_down p = None \<and> o_linking p = None \<and> \<not> o_owner p"
  "o_linking p \<noteq> None \<Longrightarrow> o_down p = None \<and> \<not> o_wait p \<and> \<not> o_owner p"
  "o_down p \<noteq> None \<Longrightarrow> \<not> o_wait p \<and> o_linking p = None \<and> \<not> o_owner p"
  by (auto simp: o_pc_defs split: osq_pc.splits)

section \<open>The invariant\<close>

definition o_edge :: "osq_state \<Rightarrow> tid \<Rightarrow> tid \<Rightarrow> bool" where
  "o_edge s p n = (case o_took (o_pc s p) of
     Some m \<Rightarrow> m = n \<and> o_wait (o_pc s n) \<and> o_next s p = None
   | None \<Rightarrow> o_linking (o_pc s n) = Some p \<and> o_next s p = None
      \<or> o_wait (o_pc s n) \<and> o_next s p = Some n
      \<or> o_down (o_pc s n) = Some p \<and> o_next s p = None)"

definition o_head :: "osq_state \<Rightarrow> tid \<Rightarrow> bool" where
  "o_head s h \<longleftrightarrow> o_owner (o_pc s h) \<or> o_wait (o_pc s h) \<and> o_locked s h \<noteq> 0"

definition o_end :: "osq_state \<Rightarrow> tid \<Rightarrow> bool" where
  "o_end s e \<longleftrightarrow> o_next s e = None \<and> o_took (o_pc s e) = None"

definition o_members :: "osq_state \<Rightarrow> tid list \<Rightarrow> bool" where
  "o_members s q \<longleftrightarrow> distinct q \<and> (\<forall>i. i \<in> set q \<longleftrightarrow> o_in (o_pc s i))"

definition o_queue :: "osq_state \<Rightarrow> tid list \<Rightarrow> bool" where
  "o_queue s q \<longleftrightarrow> o_members s q \<and> o_tail s = (if q = [] then 0 else encode_cpu (last q)) \<and>
     (\<forall>p n. adj q p n \<longrightarrow> o_edge s p n) \<and> (q \<noteq> [] \<longrightarrow> o_end s (last q) \<and> o_head s (hd q)) \<and>
     (\<forall>i\<in>set (tl q). o_locked s i = 0)"

text \<open>
  The locals and fields of a thread: its node outside the queue has no \<open>next\<close>, a waiter has a \<open>prev\<close>
  to read again, and \<open>osq_wait_next\<close> moves the tail back to the code of \<open>prev\<close> or to 0.
\<close>

definition o_local :: "osq_state \<Rightarrow> tid \<Rightarrow> bool" where
  "o_local s i \<longleftrightarrow> (\<not> o_in (o_pc s i) \<longrightarrow> o_next s i = None) \<and>
     (o_wait (o_pc s i) \<or> (\<exists>p. o_pc s i = OLink p) \<longrightarrow> o_prev s i \<noteq> None) \<and>
     (o_in (o_pc s i) \<or> o_pc s i = OXchg \<longrightarrow> o_cpu s i = ucast (encode_cpu i)) \<and>
     (case o_pc s i of OInitNext \<Rightarrow> o_locked s i = 0 | OInitCpu \<Rightarrow> o_locked s i = 0 | OXchg \<Rightarrow> o_locked s i = 0
      | OWaitTail c old \<Rightarrow> old = (case c of None \<Rightarrow> 0 | Some p \<Rightarrow> encode_cpu p)
      | OWaitCas c old \<Rightarrow> old = (case c of None \<Rightarrow> 0 | Some p \<Rightarrow> encode_cpu p)
      | OWaitNext c old \<Rightarrow> old = (case c of None \<Rightarrow> 0 | Some p \<Rightarrow> encode_cpu p)
      | OWaitXchg c old \<Rightarrow> old = (case c of None \<Rightarrow> 0 | Some p \<Rightarrow> encode_cpu p)
      | ONull \<Rightarrow> False | _ \<Rightarrow> True)"

definition o_inv :: "nat \<Rightarrow> osq_state \<Rightarrow> bool" where
  "o_inv N s \<longleftrightarrow> N < 2 ^ 31 \<and> (\<exists>q. o_queue s q) \<and> (\<forall>i. o_local s i) \<and> (\<forall>i\<ge>N. o_pc s i = OIdle)"

lemma o_inv_intro:
  assumes "o_inv N s" "i < N" "\<And>j. j \<noteq> i \<Longrightarrow> o_pc s' j = o_pc s j" "o_queue s' q" "\<And>j. o_local s' j"
  shows "o_inv N s'"
  using assms unfolding o_inv_def by (metis linorder_not_less)

lemma o_inv_local: "o_inv N s \<Longrightarrow> o_local s i"
  by (simp add: o_inv_def)

lemma o_inv_less: "o_inv N s \<Longrightarrow> o_pc s i \<noteq> OIdle \<Longrightarrow> i < N"
  unfolding o_inv_def by (meson linorder_not_less)

lemma o_inv_bound: "o_inv N s \<Longrightarrow> o_in (o_pc s i) \<Longrightarrow> i < 2 ^ 31"
proof -
  assume inv: "o_inv N s" and i: "o_in (o_pc s i)"
  then have "i < N" by (intro o_inv_less [OF inv]) (auto simp: o_pc_defs)
  with inv show ?thesis by (simp add: o_inv_def)
qed

section \<open>Facts about the queue\<close>

lemma o_queue_mem: "o_queue s q \<Longrightarrow> i \<in> set q \<longleftrightarrow> o_in (o_pc s i)"
  and o_queue_distinct: "o_queue s q \<Longrightarrow> distinct q"
  and o_queue_edge: "o_queue s q \<Longrightarrow> adj q p n \<Longrightarrow> o_edge s p n"
  and o_queue_end: "o_queue s q \<Longrightarrow> i \<in> set q \<Longrightarrow> o_end s (last q)"
  and o_queue_head: "o_queue s q \<Longrightarrow> i \<in> set q \<Longrightarrow> o_head s (hd q)"
  and o_queue_locked: "o_queue s q \<Longrightarrow> i \<in> set (tl q) \<Longrightarrow> o_locked s i = 0"
  and o_queue_tail: "o_queue s q \<Longrightarrow> o_tail s = (if q = [] then 0 else encode_cpu (last q))"
  by (auto simp: o_queue_def o_members_def)

text \<open>Who has a predecessor is not the owner; so the owner, and a waiter that was granted the lock, is the first.\<close>

lemma o_edge_succ: "o_edge s p n \<Longrightarrow> o_wait (o_pc s n) \<or> o_linking (o_pc s n) = Some p \<or> o_down (o_pc s n) = Some p"
  by (auto simp: o_edge_def split: option.splits)

lemma o_first:
  assumes q: "o_queue s q" and i: "o_head s i"
  shows "q \<noteq> []" "hd q = i"
proof -
  have m: "i \<in> set q" using i o_queue_mem [OF q, of i] by (auto simp: o_head_def o_in_def)
  then show "q \<noteq> []" by auto
  show "hd q = i"
  proof (rule ccontr)
    assume "hd q \<noteq> i"
    with m have t: "i \<in> set (tl q)" by (cases q) auto
    from adj_ex_pred [OF t] obtain p where "adj q p i" ..
    from o_edge_succ [OF o_queue_edge [OF q this]] have "\<not> o_owner (o_pc s i)"
      using o_excl(1) [of "o_pc s i"] o_excl(2) [of "o_pc s i"] o_excl(3) [of "o_pc s i"] by (elim disjE) simp_all
    with i o_queue_locked [OF q t] show False by (simp add: o_head_def)
  qed
qed

text \<open>A \<open>next\<close> field that is set names the successor, which is waiting.\<close>

lemma o_next_adj:
  assumes inv: "o_inv N s" and q: "o_queue s q" and n: "o_next s p = Some n"
  shows "adj q p n" "o_wait (o_pc s n)" "o_took (o_pc s p) = None"
proof -
  have "o_in (o_pc s p)" using o_inv_local [OF inv, of p] n by (auto simp: o_local_def)
  then have p: "p \<in> set q" using o_queue_mem [OF q] by simp
  have "p \<noteq> last q" using o_queue_end [OF q p] n by (auto simp: o_end_def)
  from adj_ex_succ [OF p this] obtain m where m: "adj q p m" ..
  from o_queue_edge [OF q m] n have "m = n" "o_wait (o_pc s n)" "o_took (o_pc s p) = None"
    by (auto simp: o_edge_def split: option.splits)
  with m show "adj q p n" "o_wait (o_pc s n)" "o_took (o_pc s p) = None" by simp_all
qed

lemma o_took_adj:
  assumes q: "o_queue s q" and p: "o_in (o_pc s p)" "o_took (o_pc s p) = Some n"
  shows "adj q p n" "o_wait (o_pc s n)" "o_next s p = None"
proof -
  have m: "p \<in> set q" using o_queue_mem [OF q] p by simp
  then have "p \<noteq> last q" using o_queue_end [OF q m] p by (auto simp: o_end_def)
  from adj_ex_succ [OF m this] obtain m where m: "adj q p m" ..
  from o_queue_edge [OF q m] p show "adj q p n" "o_wait (o_pc s n)" "o_next s p = None"
    using m by (auto simp: o_edge_def)
qed

lemma o_pred_adj:
  assumes q: "o_queue s q" and i: "o_linking (o_pc s i) = Some p \<or> o_down (o_pc s i) = Some p"
  shows "adj q p i" "o_took (o_pc s p) = None" "o_next s p = None"
proof -
  have m: "i \<in> set q" using o_queue_mem [OF q, of i] i by (auto simp: o_in_def)
  have "hd q \<noteq> i"
  proof
    assume "hd q = i"
    with o_queue_head [OF q m] have "o_head s i" by simp
    with i o_excl(2,3) [of "o_pc s i"] show False by (elim disjE) (simp_all add: o_head_def)
  qed
  with m have t: "i \<in> set (tl q)" by (cases q) auto
  from adj_ex_pred [OF t] obtain r where r: "adj q r i" ..
  have nw: "\<not> o_wait (o_pc s i)" using i o_excl(2,3) [of "o_pc s i"] by (elim disjE) simp_all
  then have e: "o_took (o_pc s r) = None" "o_next s r = None" "o_linking (o_pc s i) = Some r \<or> o_down (o_pc s i) = Some r"
    using o_queue_edge [OF q r] by (auto simp: o_edge_def split: option.splits)
  then have "r = p" using i o_excl(2,3) [of "o_pc s i"] by (elim disjE) simp_all
  with e have "r = p" "o_took (o_pc s p) = None" "o_next s p = None" by simp_all
  with r show "adj q p i" "o_took (o_pc s p) = None" "o_next s p = None" by simp_all
qed

lemma o_tail_last:
  assumes inv: "o_inv N s" and q: "o_queue s q" and t: "o_tail s = encode_cpu i" "i < 2 ^ 31"
  shows "q \<noteq> []" "last q = i"
proof -
  show ne: "q \<noteq> []" using o_queue_tail [OF q] t encode_nz by auto
  then have "last q \<in> set q" by simp
  then have "last q < 2 ^ 31" using o_queue_mem [OF q] o_inv_bound [OF inv] by blast
  moreover have "encode_cpu (last q) = encode_cpu i" using o_queue_tail [OF q] ne t by simp
  ultimately show "last q = i" using encode_inj t by blast
qed

section \<open>Steps that keep the queue\<close>

lemma o_queue_intro:
  assumes "o_members s q" "o_tail s = (if q = [] then 0 else encode_cpu (last q))" "\<And>p n. adj q p n \<Longrightarrow> o_edge s p n"
    and "q \<noteq> [] \<Longrightarrow> o_end s (last q)" "q \<noteq> [] \<Longrightarrow> o_head s (hd q)" "\<And>i. i \<in> set (tl q) \<Longrightarrow> o_locked s i = 0"
  shows "o_queue s q"
  using assms by (simp add: o_queue_def)

definition o_cls :: "osq_pc \<Rightarrow> bool \<times> tid option \<times> tid option \<times> tid option \<times> bool" where
  "o_cls p = (o_wait p, o_linking p, o_down p, o_took p, o_owner p)"

lemma o_cls_in: "o_cls p = o_cls p' \<Longrightarrow> o_in p = o_in p'"
  by (simp add: o_cls_def o_in_def)

lemma o_edge_same:
  "o_cls (o_pc s' p) = o_cls (o_pc s p) \<Longrightarrow> o_cls (o_pc s' n) = o_cls (o_pc s n) \<Longrightarrow> o_next s' p = o_next s p \<Longrightarrow>
   o_edge s' p n = o_edge s p n"
  by (simp add: o_edge_def o_cls_def split: option.split)

lemma o_edge_pred:
  "o_took (o_pc s' p) = o_took (o_pc s p) \<Longrightarrow> o_pc s' n = o_pc s n \<Longrightarrow> o_next s' p = o_next s p \<Longrightarrow> o_edge s' p n = o_edge s p n"
  by (simp add: o_edge_def split: option.split)

lemma o_members_same:
  assumes "o_members s q" "\<And>j. o_in (o_pc s' j) = o_in (o_pc s j)"
  shows "o_members s' q"
  using assms by (simp add: o_members_def)

lemma o_queue_same:
  assumes q: "o_queue s q" and c: "\<And>j. o_cls (o_pc s' j) = o_cls (o_pc s j)"
    and f: "o_next s' = o_next s" "o_tail s' = o_tail s" "\<And>j. o_in (o_pc s j) \<Longrightarrow> o_locked s' j = o_locked s j"
  shows "o_queue s' q"
proof (rule o_queue_intro)
  have m: "o_members s q" using q by (simp add: o_queue_def)
  show "o_members s' q" by (rule o_members_same [OF m]) (rule o_cls_in [OF c])
  show "o_tail s' = (if q = [] then 0 else encode_cpu (last q))" using o_queue_tail [OF q] f by simp
  show "o_edge s' p n" if "adj q p n" for p n using o_queue_edge [OF q that] o_edge_same [OF c c] f by simp
  show "o_end s' (last q)" if "q \<noteq> []"
    using o_queue_end [OF q last_in_set [OF that]] c [of "last q"] f by (simp add: o_end_def o_cls_def)
  show "o_head s' (hd q)" if "q \<noteq> []"
  proof -
    have i: "hd q \<in> set q" using that by simp
    then have "o_locked s' (hd q) = o_locked s (hd q)" using f(3) o_queue_mem [OF q] by blast
    with o_queue_head [OF q i] c [of "hd q"] show ?thesis by (simp add: o_head_def o_cls_def)
  qed
  show "o_locked s' i = 0" if "i \<in> set (tl q)" for i
    using o_queue_locked [OF q that] f(3) [of i] o_queue_mem [OF q, of i] in_set_tl [OF that] by simp
qed

lemma o_local_other:
  assumes "o_local s j" "o_pc s' j = o_pc s j" "o_cpu s' j = o_cpu s j"
    and "o_next s' j = o_next s j \<or> o_in (o_pc s j)" "o_prev s' j = o_prev s j \<or> o_prev s' j \<noteq> None"
    and "o_locked s' j = o_locked s j \<or> o_in (o_pc s j)"
  shows "o_local s' j"
  using assms by (cases "o_pc s j") (auto simp: o_local_def o_pc_defs)

text \<open>A step after which everyone is in the same class.\<close>

lemma o_move:
  assumes inv: "o_inv N s" "i < N" and pc: "o_pc s' = (o_pc s)(i := p)" and c: "o_cls p = o_cls (o_pc s i)"
    and f: "o_next s' = o_next s" "o_tail s' = o_tail s" "\<And>j. j \<noteq> i \<or> o_in (o_pc s j) \<Longrightarrow> o_locked s' j = o_locked s j"
      "\<And>j. j \<noteq> i \<Longrightarrow> o_cpu s' j = o_cpu s j" "\<And>j. j \<noteq> i \<Longrightarrow> o_prev s' j = o_prev s j \<or> o_prev s' j \<noteq> None"
    and i: "o_local s' i"
  shows "o_inv N s'" "\<And>q. o_queue s q \<Longrightarrow> o_queue s' q"
proof -
  show k: "o_queue s' q" if "o_queue s q" for q
  proof (rule o_queue_same [OF that])
    show "o_cls (o_pc s' j) = o_cls (o_pc s j)" for j using pc c by simp
    show "o_locked s' j = o_locked s j" if "o_in (o_pc s j)" for j using f(3) [of j] that by blast
  qed (use f(1,2) in simp_all)
  from inv(1) obtain q where "o_queue s q" by (auto simp: o_inv_def)
  moreover have "o_local s' j" for j
  proof (cases "j = i")
    case False
    with pc f(1) f(3-5) [of j] show ?thesis by (intro o_local_other [OF o_inv_local [OF inv(1)]]) auto
  qed (use i in simp)
  ultimately show "o_inv N s'" using k pc by (intro o_inv_intro [OF inv, of s']) simp_all
qed

lemmas o_move_defs = o_cls_def o_pc_defs o_local_def

lemma osq_moves:
  assumes inv: "o_inv N s" "i < N"
  shows "o_pc s i = OIdle \<or> o_pc s i = ORetry \<Longrightarrow> o_inv N (osq_init_locked i s)"
    and "o_pc s i = OInitCpu \<Longrightarrow> o_inv N (osq_init_cpu i s)"
    and "o_pc s i = OSetPrev p \<Longrightarrow> o_inv N (osq_set_prev i p s)"
    and "o_pc s i = OStepA p \<Longrightarrow> o_inv N (osq_step_a i p s)"
    and "o_pc s i = OStepAPrev \<Longrightarrow> o_inv N (osq_step_a_prev i s)"
    and "o_pc s i = OWaitNext c old \<Longrightarrow> o_inv N (osq_wait_next i c old s)"
    and "o_pc s i = OWaitTail c old \<Longrightarrow> o_inv N (osq_wait_tail i c old s)"
    and "o_pc s i = OStepC p n \<Longrightarrow> o_inv N (osq_step_c i p n s)"
proof -
  note l = o_inv_local [OF inv(1), of i]
  show "o_inv N (osq_init_locked i s)" if "o_pc s i = OIdle \<or> o_pc s i = ORetry"
  proof (rule o_move(1) [OF inv, of _ OInitNext])
    have ni: "\<not> o_in (o_pc s i)" using that by (elim disjE) (simp_all add: o_pc_defs)
    have n: "o_next s i = None" using l ni by (simp add: o_local_def)
    show "o_cls OInitNext = o_cls (o_pc s i)" using that by (elim disjE) (simp_all add: o_cls_def o_pc_defs)
    show "o_local (osq_init_locked i s) i" using n by (simp add: osq_init_locked_def o_local_def o_pc_defs)
    show "o_locked (osq_init_locked i s) j = o_locked s j" if "j \<noteq> i \<or> o_in (o_pc s j)" for j
      using that ni by (auto simp: osq_init_locked_def)
  qed (simp_all add: osq_init_locked_def)
  show "o_inv N (osq_init_cpu i s)" if "o_pc s i = OInitCpu"
    by (rule o_move(1) [OF inv, of _ OXchg]) (use that l in \<open>auto simp: osq_init_cpu_def o_move_defs\<close>)
  show "o_inv N (osq_set_prev i p s)" if "o_pc s i = OSetPrev p"
    by (rule o_move(1) [OF inv, of _ "OLink p"]) (use that l in \<open>auto simp: osq_set_prev_def o_move_defs\<close>)
  show "o_inv N (osq_step_a i p s)" if "o_pc s i = OStepA p"
    by (rule o_move(1) [OF inv, of _ "if o_next s p = Some i then OStepACas p else OStepALocked p"])
      (use that l in \<open>auto simp: osq_step_a_def o_move_defs\<close>)
  show "o_inv N (osq_step_a_prev i s)" if "o_pc s i = OStepAPrev"
    by (rule o_move(1) [OF inv, of _ "case o_prev s i of Some p \<Rightarrow> OStepA p | None \<Rightarrow> ONull"])
      (use that l in \<open>auto simp: osq_step_a_prev_def o_move_defs\<close>)
  show "o_inv N (osq_wait_next i c old s)" if "o_pc s i = OWaitNext c old"
    by (rule o_move(1) [OF inv, of _ "if o_next s i \<noteq> None then OWaitXchg c old else OWaitTail c old"])
      (use that l in \<open>auto simp: osq_wait_next_def o_move_defs\<close>)
  show "o_inv N (osq_wait_tail i c old s)" if "o_pc s i = OWaitTail c old"
    by (rule o_move(1) [OF inv, of _ "if o_tail s = encode_cpu i then OWaitCas c old else OWaitNext c old"])
      (use that l in \<open>auto simp: osq_wait_tail_def o_move_defs\<close>)
  show "o_inv N (osq_step_c i p n s)" if "o_pc s i = OStepC p n"
    by (rule o_move(1) [OF inv, of _ "OStepC2 p n"]) (use that l in \<open>auto simp: osq_step_c_def o_move_defs\<close>)
qed

lemma osq_init_next_inv:
  assumes inv: "o_inv N s" "i < N" and p: "o_pc s i = OInitNext"
  shows "o_inv N (osq_init_next i s)"
proof -
  note l = o_inv_local [OF inv(1), of i]
  have "o_next s i = None" using l p by (simp add: o_move_defs)
  then have e: "(o_next s)(i := None) = o_next s" by auto
  show ?thesis
    by (rule o_move(1) [OF inv, of _ OInitCpu]) (use p l in \<open>auto simp: osq_init_next_def e o_move_defs\<close>)
qed

lemma osq_wait_cpu_inv:
  assumes inv: "o_inv N s" "i < N" and p: "o_pc s i = OWaitCpu p"
  shows "o_inv N (osq_wait_cpu i p s)"
proof -
  note l = o_inv_local [OF inv(1), of i]
  from inv(1) obtain q where q: "o_queue s q" by (auto simp: o_inv_def)
  have "adj q p i" by (rule o_pred_adj [OF q]) (simp add: p o_down_def)
  then have "o_in (o_pc s p)" using adj_in(1) [of q p i] o_queue_mem [OF q, of p] by simp
  then have "o_cpu s p = ucast (encode_cpu p)" using o_inv_local [OF inv(1), of p] by (simp add: o_local_def)
  then have "(ucast (o_cpu s p) :: u32) = encode_cpu p" by (simp only: ucast_encode)
  then show ?thesis
    by (intro o_move(1) [OF inv, of _ "OWaitTail (Some p) (ucast (o_cpu s p))"])
      (use p l in \<open>auto simp: osq_wait_cpu_def o_move_defs\<close>)
qed

section \<open>Links\<close>

text \<open>A thread that is not the first sets or clears the \<open>next\<close> field of its predecessor.\<close>

lemma o_relink:
  assumes q: "o_queue s q" and a: "adj q p i" and k: "o_took (o_pc s p) = None" "o_took (o_pc s i) = None" "o_took p' = None"
    and pc: "o_pc s' = (o_pc s)(i := p')" and nx: "o_next s' = (o_next s)(p := x)"
    and f: "o_tail s' = o_tail s" "o_locked s' = o_locked s" and i: "o_in p'" and e: "o_edge s' p i"
  shows "o_queue s' q"
proof (rule o_queue_intro)
  note d = o_queue_distinct [OF q]
  have ip: "i \<in> set q" "i \<noteq> hd q" "p \<noteq> last q"
    using adj_in_set [OF a] adj_not_hd [OF a d] adj_not_last [OF a d] by simp_all
  have pi: "p \<noteq> i"
  proof
    assume "p = i"
    with a d show False by (auto dest!: adj_split)
  qed
  have m: "o_members s q" using q by (simp add: o_queue_def)
  show "o_members s' q" by (rule o_members_same [OF m]) (use pc i ip o_queue_mem [OF q, of i] in auto)
  show "o_tail s' = (if q = [] then 0 else encode_cpu (last q))" using o_queue_tail [OF q] f by simp
  show "o_edge s' u w" if uw: "adj q u w" for u w
  proof (cases "w = i")
    case True
    then have "u = p" using adj_pred_unique [OF d uw] a by blast
    with True e show ?thesis by simp
  next
    case False
    then have "u \<noteq> p" using adj_succ_unique [OF d uw] a by blast
    then have "o_edge s' u w = o_edge s u w" using False k pc nx by (intro o_edge_pred) auto
    with o_queue_edge [OF q uw] show ?thesis by simp
  qed
  show "o_end s' (last q)" if "q \<noteq> []"
    using o_queue_end [OF q ip(1)] k pc nx ip(3) by (auto simp: o_end_def)
  show "o_head s' (hd q)" if "q \<noteq> []"
    using o_queue_head [OF q ip(1)] ip(2) pc f by (auto simp: o_head_def)
  show "o_locked s' j = 0" if "j \<in> set (tl q)" for j using o_queue_locked [OF q that] f by simp
qed

lemma o_step_inv:
  assumes inv: "o_inv N s" "i < N" and pc: "o_pc s' = (o_pc s)(i := p)" and q: "o_queue s' q" and i: "o_local s' i"
    and f: "\<And>j. j \<noteq> i \<Longrightarrow> o_next s' j = o_next s j \<or> o_in (o_pc s j)" "\<And>j. j \<noteq> i \<Longrightarrow> o_locked s' j = o_locked s j \<or> o_in (o_pc s j)"
    "o_cpu s' = o_cpu s" "o_prev s' = o_prev s"
  shows "o_inv N s'"
proof -
  have "o_local s' j" for j
  proof (cases "j = i")
    case False
    with pc f(1,2) [of j] f(3,4) show ?thesis by (intro o_local_other [OF o_inv_local [OF inv(1)]]) auto
  qed (use i in simp)
  with q pc show ?thesis by (intro o_inv_intro [OF inv, of s']) simp_all
qed

lemma osq_link_inv:
  assumes inv: "o_inv N s" "i < N" and p: "o_pc s i = OLink p"
  shows "o_inv N (osq_link i p s)"
proof -
  from inv(1) obtain q where q: "o_queue s q" by (auto simp: o_inv_def)
  note a = o_pred_adj [OF q, of i p]
  have l: "o_linking (o_pc s i) = Some p \<or> o_down (o_pc s i) = Some p" by (simp add: p o_linking_def)
  have pin: "o_in (o_pc s p)" using adj_in(1) [OF a(1) [OF l]] o_queue_mem [OF q, of p] by simp
  have pi: "p \<noteq> i" using a(1) [OF l] o_queue_distinct [OF q] by (auto dest!: adj_split)
  let ?s = "osq_link i p s"
  have pc: "o_pc ?s = (o_pc s)(i := OSpin p 0)" by (simp add: osq_link_def)
  have "o_queue ?s q"
  proof (rule o_relink [OF q a(1) [OF l] a(2) [OF l] _ _ pc])
    show "o_edge ?s p i" using a(2) [OF l] pi by (simp add: o_edge_def osq_link_def o_wait_def)
  qed (simp_all add: p osq_link_def o_pc_defs)
  moreover have "o_local ?s i" using o_inv_local [OF inv(1), of i] p pi by (simp add: osq_link_def o_local_def o_pc_defs)
  ultimately show ?thesis using pin by (intro o_step_inv [OF inv pc]) (auto simp: osq_link_def)
qed

lemma osq_step_a_cas_inv:
  assumes inv: "o_inv N s" "i < N" and p: "o_pc s i = OStepACas p"
  shows "o_inv N (osq_step_a_cas i p s)"
proof (cases "o_next s p = Some i")
  case True
  from inv(1) obtain q where q: "o_queue s q" by (auto simp: o_inv_def)
  note a = o_next_adj [OF inv(1) q True]
  have pin: "o_in (o_pc s p)" using adj_in(1) [OF a(1)] o_queue_mem [OF q, of p] by simp
  have pi: "p \<noteq> i" using a(1) o_queue_distinct [OF q] by (auto dest!: adj_split)
  let ?s = "osq_step_a_cas i p s"
  have e: "?s = o_goto i (OWaitCpu p) (s\<lparr>o_next := (o_next s)(p := None)\<rparr>)" using True by (simp add: osq_step_a_cas_def)
  have pc: "o_pc ?s = (o_pc s)(i := OWaitCpu p)" by (simp add: e)
  have "o_queue ?s q"
  proof (rule o_relink [OF q a(1,3) _ _ pc])
    show "o_edge ?s p i" using a(3) pi by (simp add: o_edge_def e o_down_def)
  qed (simp_all add: p e o_pc_defs)
  moreover have "o_local ?s i" using o_inv_local [OF inv(1), of i] p pi by (simp add: e o_local_def o_pc_defs)
  ultimately show ?thesis using pin by (intro o_step_inv [OF inv pc]) (auto simp: e)
next
  case False
  then show ?thesis
    by (intro o_move(1) [OF inv, of _ "OStepALocked p"])
      (use p o_inv_local [OF inv(1), of i] in \<open>auto simp: osq_step_a_cas_def o_move_defs\<close>)
qed

text \<open>A thread takes the link to its successor.\<close>

lemma o_take_next:
  assumes q: "o_queue s q" and a: "adj q i n" "o_wait (o_pc s n)" and c: "o_took p' = Some n"
    "o_wait p' = o_wait (o_pc s i)" "o_linking p' = o_linking (o_pc s i)" "o_down p' = o_down (o_pc s i)" "o_owner p' = o_owner (o_pc s i)"
    and pc: "o_pc s' = (o_pc s)(i := p')" and nx: "o_next s' = (o_next s)(i := None)"
    and f: "o_tail s' = o_tail s" "o_locked s' = o_locked s"
  shows "o_queue s' q"
proof (rule o_queue_intro)
  note d = o_queue_distinct [OF q]
  have ip: "i \<in> set q" "i \<noteq> last q" using adj_in(1) [OF a(1)] adj_not_last [OF a(1) d] by simp_all
  have ni: "n \<noteq> i" using a(1) d by (auto dest!: adj_split)
  have m: "o_members s q" using q by (simp add: o_queue_def)
  show "o_members s' q" by (rule o_members_same [OF m]) (use pc c in \<open>simp add: o_in_def\<close>)
  show "o_tail s' = (if q = [] then 0 else encode_cpu (last q))" using o_queue_tail [OF q] f by simp
  show "o_edge s' u w" if uw: "adj q u w" for u w
  proof (cases "u = i")
    case True
    then have "w = n" using adj_succ_unique [OF d uw] a(1) by blast
    with True a(2) c(1) pc nx ni show ?thesis by (simp add: o_edge_def)
  next
    case False
    have "o_edge s' u w = o_edge s u w" using False c pc nx by (simp add: o_edge_def split: option.split)
    with o_queue_edge [OF q uw] show ?thesis by simp
  qed
  show "o_end s' (last q)" if "q \<noteq> []" using o_queue_end [OF q ip(1)] ip(2) pc nx by (simp add: o_end_def)
  show "o_head s' (hd q)" if "q \<noteq> []" using o_queue_head [OF q ip(1)] pc c f by (auto simp: o_head_def)
  show "o_locked s' j = 0" if "j \<in> set (tl q)" for j using o_queue_locked [OF q that] f by simp
qed

lemma osq_take_inv:
  assumes inv: "o_inv N s" "i < N" and n: "o_next s i = Some n" and pc: "o_pc s' = (o_pc s)(i := p')"
    and c: "o_took p' = Some n" "o_wait p' = o_wait (o_pc s i)" "o_linking p' = o_linking (o_pc s i)"
      "o_down p' = o_down (o_pc s i)" "o_owner p' = o_owner (o_pc s i)"
    and f: "s' = s\<lparr>o_next := (o_next s)(i := None), o_pc := (o_pc s)(i := p')\<rparr>" and l: "o_local s' i"
  shows "o_inv N s'"
proof -
  from inv(1) obtain q where q: "o_queue s q" by (auto simp: o_inv_def)
  have "o_queue s' q" by (rule o_take_next [OF q o_next_adj(1,2) [OF inv(1) q n] c pc]) (simp_all add: f)
  with l show ?thesis by (intro o_step_inv [OF inv pc]) (simp_all add: f)
qed

lemma osq_wait_xchg_inv:
  assumes inv: "o_inv N s" "i < N" and p: "o_pc s i = OWaitXchg c old"
  shows "o_inv N (osq_wait_xchg i c old s)"
proof (cases "o_next s i")
  case None
  then have e: "(o_next s)(i := None) = o_next s" by auto
  show ?thesis
    by (rule o_move(1) [OF inv, of _ "OWaitTail c old"])
      (use None p o_inv_local [OF inv(1), of i] in \<open>auto simp: osq_wait_xchg_def e o_move_defs\<close>)
next
  case (Some n)
  let ?p = "case c of Some p \<Rightarrow> OStepC p n | None \<Rightarrow> OGrant n"
  show ?thesis
    by (rule osq_take_inv [OF inv Some, of _ ?p])
      (use Some p o_inv_local [OF inv(1), of i] in \<open>auto simp: osq_wait_xchg_def o_pc_defs o_local_def split: option.split\<close>)
qed

lemma osq_unlock_xchg_inv:
  assumes inv: "o_inv N s" "i < N" and p: "o_pc s i = OUnlockXchg"
  shows "o_inv N (osq_unlock_xchg i s)"
proof (cases "o_next s i")
  case None
  then have e: "(o_next s)(i := None) = o_next s" by auto
  show ?thesis
    by (rule o_move(1) [OF inv, of _ "OWaitTail None 0"])
      (use None p o_inv_local [OF inv(1), of i] in \<open>auto simp: osq_unlock_xchg_def e o_move_defs\<close>)
next
  case (Some n)
  show ?thesis
    by (rule osq_take_inv [OF inv Some, of _ "OGrant n"])
      (use Some p o_inv_local [OF inv(1), of i] in \<open>auto simp: osq_unlock_xchg_def o_pc_defs o_local_def\<close>)
qed

section \<open>Entering and leaving\<close>

lemma o_tail_decode:
  assumes inv: "o_inv N s" and q: "o_queue s q"
  shows "o_tail s = 0 \<longleftrightarrow> q = []" "q \<noteq> [] \<Longrightarrow> cpu_to_node (o_tail s) = last q"
proof -
  have b: "last q < 2 ^ 31" if "q \<noteq> []"
    using o_queue_mem [OF q, of "last q"] o_inv_bound [OF inv, of "last q"] last_in_set [OF that] by blast
  show "o_tail s = 0 \<longleftrightarrow> q = []" using o_queue_tail [OF q] b encode_nz by auto
  show "cpu_to_node (o_tail s) = last q" if "q \<noteq> []" using o_queue_tail [OF q] b [OF that] decode_cpu that by simp
qed

lemma osq_xchg_queue:
  assumes inv: "o_inv N s" "i < N" and p: "o_pc s i = OXchg" and q: "o_queue s q"
  shows "o_queue (osq_xchg i s) (q @ [i])"
proof (rule o_queue_intro)
  let ?s = "osq_xchg i s"
  let ?p = "if q = [] then OCS else OSetPrev (last q)"
  have e: "?s = o_goto i ?p (s\<lparr>o_tail := encode_cpu i\<rparr>)"
    using o_tail_decode [OF inv(1) q] by (simp add: osq_xchg_def Let_def)
  have l: "o_next s i = None" "o_locked s i = 0" using o_inv_local [OF inv(1), of i] p by (simp_all add: o_local_def o_pc_defs)
  have m: "o_members s q" using q by (simp add: o_queue_def)
  have ni: "i \<notin> set q" using o_queue_mem [OF q, of i] p by (simp add: o_pc_defs)
  have k: "o_took ?p = None" "o_in ?p" by (simp_all add: o_pc_defs)
  show "o_members ?s (q @ [i])" using m k(2) ni by (auto simp: o_members_def e)
  show "o_tail ?s = (if q @ [i] = [] then 0 else encode_cpu (last (q @ [i])))" by (simp add: e)
  show "o_edge ?s u w" if uw: "adj (q @ [i]) u w" for u w
  proof (cases "adj q u w")
    case True
    then have "u \<noteq> i" "w \<noteq> i" using adj_in(1) [OF True] adj_in_set [OF True] ni by auto
    then have "o_edge ?s u w = o_edge s u w" by (intro o_edge_pred) (simp_all add: e)
    with o_queue_edge [OF q True] show ?thesis by simp
  next
    case False
    with uw have uw: "q \<noteq> []" "u = last q" "w = i" by (simp_all add: adj_append)
    with o_queue_end [OF q last_in_set [OF uw(1)]] ni show ?thesis
      by (auto simp: o_edge_def e o_end_def o_linking_def)
  qed
  show "o_end ?s (last (q @ [i]))" using l k by (simp add: o_end_def e)
  show "o_head ?s (hd (q @ [i]))"
  proof (cases q)
    case Nil
    then show ?thesis by (simp add: e o_head_def o_owner_def)
  next
    case (Cons h r)
    with o_queue_head [OF q, of h] ni show ?thesis by (auto simp: o_head_def e)
  qed
  show "o_locked ?s j = 0" if "j \<in> set (tl (q @ [i]))" for j
    using that l(2) o_queue_locked [OF q, of j] by (cases q) (auto simp: e)
qed

lemma osq_xchg_inv:
  assumes inv: "o_inv N s" "i < N" and p: "o_pc s i = OXchg"
  shows "o_inv N (osq_xchg i s)"
proof -
  from inv(1) obtain q where q: "o_queue s q" by (auto simp: o_inv_def)
  show ?thesis
    by (rule o_step_inv [OF inv _ osq_xchg_queue [OF inv p q], of "if o_tail s = 0 then OCS else OSetPrev (cpu_to_node (o_tail s))"])
      (use p o_inv_local [OF inv(1), of i] in \<open>auto simp: osq_xchg_def Let_def o_local_def o_pc_defs\<close>)
qed

text \<open>A waiter that finds its \<open>locked\<close> set is the first.\<close>

lemma o_enter_queue:
  assumes q: "o_queue s q" and i: "o_wait (o_pc s i)" "o_locked s i \<noteq> 0"
  shows "o_queue (o_goto i OCS s) q"
proof (rule o_queue_intro)
  have hd: "hd q = i" "q \<noteq> []" using o_first [OF q, of i] i by (simp_all add: o_head_def)
  note d = o_queue_distinct [OF q]
  let ?s = "o_goto i OCS s"
  have k: "o_took (o_pc s i) = None" "o_in (o_pc s i)" using i o_took_wait(1) by (simp_all add: o_in_def)
  have m: "o_members s q" using q by (simp add: o_queue_def)
  have oc: "o_in OCS" "o_took OCS = None" "o_owner OCS" by (simp_all add: o_pc_defs)
  show "o_members ?s q" by (rule o_members_same [OF m]) (use k oc in simp)
  show "o_tail ?s = (if q = [] then 0 else encode_cpu (last q))" using o_queue_tail [OF q] by simp
  show "o_edge ?s u w" if uw: "adj q u w" for u w
  proof -
    have "w \<noteq> i" using adj_not_hd [OF uw d] hd by simp
    then have "o_edge ?s u w = o_edge s u w" using k oc by (intro o_edge_pred) auto
    with o_queue_edge [OF q uw] show ?thesis by simp
  qed
  show "o_end ?s (last q)" using o_queue_end [OF q last_in_set [OF hd(2)]] k oc by (auto simp: o_end_def)
  show "o_head ?s (hd q)" using hd oc by (simp add: o_head_def)
  show "o_locked ?s j = 0" if "j \<in> set (tl q)" for j using o_queue_locked [OF q that] by simp
qed

lemma o_enter_inv:
  assumes inv: "o_inv N s" "i < N" and i: "o_wait (o_pc s i)" "o_locked s i \<noteq> 0"
  shows "o_inv N (o_goto i OCS s)"
proof -
  from inv(1) obtain q where q: "o_queue s q" by (auto simp: o_inv_def)
  have "o_cpu s i = ucast (encode_cpu i)" using o_inv_local [OF inv(1), of i] i by (simp add: o_local_def o_in_def)
  then have "o_local (o_goto i OCS s) i" by (simp add: o_local_def o_pc_defs)
  then show ?thesis by (intro o_step_inv [OF inv _ o_enter_queue [OF q i]]) simp_all
qed

lemma osq_spin_inv:
  assumes inv: "o_inv N s" "i < N" and p: "o_pc s i = OSpin p k"
  shows "o_inv N (osq_spin retry i p k s)"
proof (cases "o_locked s i = 0")
  case False
  with o_enter_inv [OF inv] p show ?thesis by (simp add: osq_spin_def o_wait_def)
next
  case True
  then show ?thesis
    by (intro o_move(1) [OF inv, of _ "if k + 1 > retry then OStepA p else OSpin p (k + 1)"])
      (use p o_inv_local [OF inv(1), of i] in \<open>auto simp: osq_spin_def o_move_defs\<close>)
qed

lemma osq_step_a_locked_inv:
  assumes inv: "o_inv N s" "i < N" and p: "o_pc s i = OStepALocked p"
  shows "o_inv N (osq_step_a_locked i p s)"
proof (cases "o_locked s i = 0")
  case False
  with o_enter_inv [OF inv] p show ?thesis by (simp add: osq_step_a_locked_def o_wait_def)
next
  case True
  then show ?thesis
    by (intro o_move(1) [OF inv, of _ OStepAPrev])
      (use p o_inv_local [OF inv(1), of i] in \<open>auto simp: osq_step_a_locked_def o_move_defs\<close>)
qed

text \<open>The last of the queue moves the tail back to its predecessor, or to 0 when it is alone.\<close>

lemma adj_init_last: "butlast q \<noteq> [] \<Longrightarrow> adj q (last (butlast q)) (last q)"
  by (cases q rule: rev_cases) (simp_all add: adj_append)

lemma o_leave_last:
  assumes q: "o_queue s q" and i: "q \<noteq> []" "last q = i" and p: "\<not> o_in p'"
    and pre: "butlast q \<noteq> [] \<Longrightarrow> o_down (o_pc s i) = Some (last (butlast q))"
    and s': "s' = s\<lparr>o_tail := if butlast q = [] then 0 else encode_cpu (last (butlast q)), o_pc := (o_pc s)(i := p')\<rparr>"
  shows "o_queue s' (butlast q)"
proof (rule o_queue_intro)
  note d = o_queue_distinct [OF q]
  have sp: "q = butlast q @ [i]" using i append_butlast_last_id by metis
  then have st: "j \<in> set q \<longleftrightarrow> j \<in> set (butlast q) \<or> j = i" for j by (metis Un_iff empty_iff insert_iff list.set set_append)
  have ni: "i \<notin> set (butlast q)" using d sp by (metis distinct.simps(2) distinct_append disjoint_iff list.set_intros(1))
  have "o_in (o_pc s j) \<longleftrightarrow> j \<in> set (butlast q) \<or> j = i" for j using o_queue_mem [OF q, of j] st by simp
  then show "o_members s' (butlast q)" using d p ni by (auto simp: o_members_def s' distinct_butlast)
  show "o_tail s' = (if butlast q = [] then 0 else encode_cpu (last (butlast q)))" by (simp add: s')
  show "o_edge s' u w" if uw: "adj (butlast q) u w" for u w
  proof -
    have "u \<noteq> i" "w \<noteq> i" using adj_in(1) [OF uw] adj_in_set [OF uw] ni by auto
    then have "o_edge s' u w = o_edge s u w" by (intro o_edge_pred) (simp_all add: s')
    with o_queue_edge [OF q adj_butlast [OF uw]] show ?thesis by simp
  qed
  show "o_end s' (last (butlast q))" if ne: "butlast q \<noteq> []"
  proof -
    have "last (butlast q) \<noteq> i" using ni last_in_set [OF ne] by auto
    then show ?thesis using o_pred_adj(2,3) [OF q disjI2 [OF pre [OF ne]]] by (simp add: o_end_def s')
  qed
  show "o_head s' (hd (butlast q))" if ne: "butlast q \<noteq> []"
  proof -
    have "hd (butlast q) \<noteq> i" using ni hd_in_set [OF ne] by auto
    moreover have "hd (butlast q) = hd q" using sp ne by (metis hd_append2)
    ultimately show ?thesis using o_queue_head [OF q last_in_set [OF i(1)]] by (simp add: o_head_def s')
  qed
  show "o_locked s' j = 0" if "j \<in> set (tl (butlast q))" for j
    using that o_queue_locked [OF q, of j] by (simp add: s' butlast_tl [symmetric] in_set_butlastD)
qed

text \<open>The owner that finds its own code in the tail is alone.\<close>

lemma o_owner_alone:
  assumes inv: "o_inv N s" and q: "o_queue s q" and i: "o_owner (o_pc s i)" "o_tail s = encode_cpu i"
  shows "q = [i]"
proof -
  have "hd q = i" "q \<noteq> []" using o_first [OF q, of i] i by (simp_all add: o_head_def)
  moreover have "last q = i" using o_tail_last(2) [OF inv q i(2)] o_inv_bound [OF inv, of i] i by (simp add: o_in_def)
  ultimately show ?thesis using o_queue_distinct [OF q] by (cases q) (auto split: if_splits)
qed

lemma o_down_last:
  assumes inv: "o_inv N s" and q: "o_queue s q" and i: "o_down (o_pc s i) = Some p" "o_tail s = encode_cpu i"
  shows "q \<noteq> []" "last q = i" "butlast q \<noteq> []" "last (butlast q) = p"
proof -
  have "i < 2 ^ 31" using o_inv_bound [OF inv, of i] i by (simp add: o_in_def)
  then show l: "q \<noteq> []" "last q = i" using o_tail_last [OF inv q i(2)] by simp_all
  have a: "adj q p i" using o_pred_adj(1) [OF q] i by simp
  then show b: "butlast q \<noteq> []" using l by (cases q rule: rev_cases) auto
  show "last (butlast q) = p"
    using adj_pred_unique [OF o_queue_distinct [OF q] _ a] adj_init_last [OF b] l by simp
qed

lemma o_last_next: "o_queue s q \<Longrightarrow> q \<noteq> [] \<Longrightarrow> o_next s (last q) = None"
  using o_queue_end [of s q "last q"] by (simp add: o_end_def)

lemma o_leave_inv:
  assumes inv: "o_inv N s" "i < N" and q: "o_queue s q" "q \<noteq> []" "last q = i" and p: "p' = OIdle \<or> p' = ORetry"
    and pre: "butlast q \<noteq> [] \<Longrightarrow> o_down (o_pc s i) = Some (last (butlast q))"
    and s': "s' = s\<lparr>o_tail := if butlast q = [] then 0 else encode_cpu (last (butlast q)), o_pc := (o_pc s)(i := p')\<rparr>"
  shows "o_inv N s'"
proof -
  have ni: "\<not> o_in p'" using p by (auto simp: o_pc_defs)
  have "o_next s i = None" using o_last_next [OF q(1,2)] q(3) by simp
  then have "o_local s' i" using p by (auto simp: o_local_def s' o_pc_defs)
  then show ?thesis by (intro o_step_inv [OF inv _ o_leave_last [OF q ni pre s']]) (simp_all add: s')
qed

lemma osq_unlock_inv:
  assumes inv: "o_inv N s" "i < N" and p: "o_pc s i = OCS"
  shows "o_inv N (osq_unlock i s)"
proof (cases "o_tail s = encode_cpu i")
  case True
  from inv(1) obtain q where q: "o_queue s q" by (auto simp: o_inv_def)
  have "q = [i]" by (rule o_owner_alone [OF inv(1) q _ True]) (simp add: p o_owner_def)
  then show ?thesis by (intro o_leave_inv [OF inv q, of OIdle]) (simp_all add: osq_unlock_def True)
next
  case False
  then show ?thesis
    by (intro o_move(1) [OF inv, of _ OUnlockXchg])
      (use p o_inv_local [OF inv(1), of i] in \<open>auto simp: osq_unlock_def o_move_defs\<close>)
qed

lemma osq_wait_cas_inv:
  assumes inv: "o_inv N s" "i < N" and p: "o_pc s i = OWaitCas c old"
  shows "o_inv N (osq_wait_cas i c old s)"
proof (cases "o_tail s = encode_cpu i")
  case True
  from inv(1) obtain q where q: "o_queue s q" by (auto simp: o_inv_def)
  have old: "old = (case c of None \<Rightarrow> 0 | Some p \<Rightarrow> encode_cpu p)" using o_inv_local [OF inv(1), of i] p by (simp add: o_local_def)
  show ?thesis
  proof (cases c)
    case None
    have "q = [i]" by (rule o_owner_alone [OF inv(1) q _ True]) (simp add: p o_owner_def None)
    then show ?thesis by (intro o_leave_inv [OF inv q, of OIdle]) (simp_all add: osq_wait_cas_def True None old)
  next
    case (Some r)
    have "o_down (o_pc s i) = Some r" by (simp add: p o_down_def Some)
    note l = o_down_last [OF inv(1) q this True]
    show ?thesis by (rule o_leave_inv [OF inv q l(1,2), of ORetry]) (simp_all add: osq_wait_cas_def True Some old l p o_down_def)
  qed
next
  case False
  then show ?thesis
    by (intro o_move(1) [OF inv, of _ "OWaitNext c old"])
      (use p o_inv_local [OF inv(1), of i] in \<open>auto simp: osq_wait_cas_def o_move_defs\<close>)
qed

text \<open>A waiter between two others leaves: step C joins its neighbours.\<close>

lemma osq_step_c2_queue:
  assumes q: "o_queue s q" and i: "o_pc s i = OStepC2 p n"
  shows "o_queue (osq_step_c2 i p n s) (remove1 i q)"
proof (rule o_queue_intro)
  note d = o_queue_distinct [OF q]
  let ?s = "osq_step_c2 i p n s"
  have "o_linking (o_pc s i) = Some p \<or> o_down (o_pc s i) = Some p" by (simp add: i o_down_def)
  note a = o_pred_adj [OF q this]
  have b: "adj q i n" "o_wait (o_pc s n)" "o_next s i = None" using o_took_adj [OF q, of i n] i by (simp_all add: o_pc_defs)
  note r = adj_remove [OF d a(1) b(1)]
  have ne: "i \<noteq> hd q" "i \<noteq> last q" "p \<noteq> last q"
    using adj_not_hd [OF a(1) d] adj_not_last [OF b(1) d] adj_not_last [OF a(1) d] by simp_all
  have iq: "i \<in> set q" "q \<noteq> []" using adj_in_set [OF a(1)] by auto
  have pn: "p \<noteq> i" "n \<noteq> i" using adj_neq [OF a(1) d] adj_neq [OF b(1) d] by simp_all
  have m: "o_members s q" using q by (simp add: o_queue_def)
  then show "o_members ?s (remove1 i q)" using d by (auto simp: o_members_def osq_step_c2_def o_pc_defs)
  show "o_tail ?s = (if remove1 i q = [] then 0 else encode_cpu (last (remove1 i q)))"
    using o_queue_tail [OF q] r(2,4) iq by (simp add: osq_step_c2_def)
  show "o_edge ?s u w" if "adj (remove1 i q) u w" for u w
  proof (cases "u = p \<and> w = n")
    case True
    then show ?thesis using a(2) b(2) pn by (simp add: o_edge_def osq_step_c2_def)
  next
    case False
    with r(1) [OF that] have uw: "adj q u w" "u \<noteq> i" "w \<noteq> i" by blast+
    then have "u \<noteq> p" using adj_succ_unique [OF d uw(1)] a(1) by blast
    then have "o_edge ?s u w = o_edge s u w" using uw by (intro o_edge_pred) (simp_all add: osq_step_c2_def)
    with o_queue_edge [OF q uw(1)] show ?thesis by simp
  qed
  show "o_end ?s (last (remove1 i q))" using o_queue_end [OF q iq(1)] ne r(2) by (simp add: o_end_def osq_step_c2_def)
  show "o_head ?s (hd (remove1 i q))" using o_queue_head [OF q iq(1)] ne r(3) by (simp add: o_head_def osq_step_c2_def)
  have "tl (remove1 i q) = remove1 i (tl q)" using ne iq by (cases q) auto
  then show "o_locked ?s j = 0" if "j \<in> set (tl (remove1 i q))" for j
    using that o_queue_locked [OF q, of j] by (auto simp: osq_step_c2_def dest: notin_set_remove1)
qed

lemma osq_step_c2_inv:
  assumes inv: "o_inv N s" "i < N" and i: "o_pc s i = OStepC2 p n"
  shows "o_inv N (osq_step_c2 i p n s)"
proof -
  from inv(1) obtain q where q: "o_queue s q" by (auto simp: o_inv_def)
  have "o_linking (o_pc s i) = Some p \<or> o_down (o_pc s i) = Some p" by (simp add: i o_down_def)
  note a = o_pred_adj [OF q this]
  have p: "o_in (o_pc s p)" "p \<noteq> i"
    using adj_in(1) [OF a(1)] o_queue_mem [OF q, of p] a(1) o_queue_distinct [OF q] by (auto dest!: adj_split)
  have "o_next s i = None" using o_took_adj [OF q, of i n] i by (simp add: o_pc_defs)
  then have "o_local (osq_step_c2 i p n s) i" using p by (simp add: osq_step_c2_def o_local_def o_pc_defs)
  then show ?thesis
    by (intro o_step_inv [OF inv _ osq_step_c2_queue [OF q i], of ORetry]) (use p in \<open>auto simp: osq_step_c2_def\<close>)
qed

text \<open>The owner hands the lock to its successor.\<close>

lemma o_grant_shape:
  assumes q: "o_queue s q" and i: "o_pc s i = OGrant n"
  shows "\<exists>r. q = i # n # r" "o_wait (o_pc s n)" "o_next s i = None"
proof -
  have h: "hd q = i" "q \<noteq> []" using o_first [OF q, of i] i by (simp_all add: o_head_def o_owner_def)
  have b: "adj q i n" "o_wait (o_pc s n)" "o_next s i = None" using o_took_adj [OF q, of i n] i by (simp_all add: o_pc_defs)
  from adj_split [OF b(1)] obtain xs ys where e: "q = xs @ i # n # ys" by blast
  with h o_queue_distinct [OF q] have "xs = []" by (cases xs) auto
  with e b show "\<exists>r. q = i # n # r" "o_wait (o_pc s n)" "o_next s i = None" by simp_all
qed

lemma osq_grant_queue:
  assumes q: "o_queue s (i # n # r)" and i: "o_pc s i = OGrant n"
  shows "o_queue (osq_grant i n s) (n # r)"
proof (rule o_queue_intro)
  let ?s = "osq_grant i n s"
  note d = o_queue_distinct [OF q]
  note g = o_grant_shape(2,3) [OF q i]
  show "o_members ?s (n # r)" using q d
    by (auto simp: o_queue_def o_members_def osq_grant_def o_pc_defs)
  show "o_tail ?s = (if n # r = [] then 0 else encode_cpu (last (n # r)))" using o_queue_tail [OF q] by (simp add: osq_grant_def)
  show "o_edge ?s u w" if uw: "adj (n # r) u w" for u w
  proof -
    have "u \<noteq> i" "w \<noteq> i" using adj_in(1) [OF uw] adj_in_set [OF uw] d by auto
    then have "o_edge ?s u w = o_edge s u w" by (intro o_edge_pred) (simp_all add: osq_grant_def)
    moreover have "adj (i # n # r) u w" using uw by simp
    ultimately show ?thesis using o_queue_edge [OF q] by blast
  qed
  have "last (n # r) \<noteq> i" using d last_in_set [of "n # r"] by auto
  then show "o_end ?s (last (n # r))" using o_queue_end [OF q, of i] by (simp add: o_end_def osq_grant_def)
  show "o_head ?s (hd (n # r))" using g d by (auto simp: o_head_def osq_grant_def)
  show "o_locked ?s j = 0" if "j \<in> set (tl (n # r))" for j
    using that o_queue_locked [OF q, of j] d by (auto simp: osq_grant_def)
qed

lemma osq_grant_inv:
  assumes inv: "o_inv N s" "i < N" and i: "o_pc s i = OGrant n"
  shows "o_inv N (osq_grant i n s)"
proof -
  from inv(1) obtain q where q: "o_queue s q" by (auto simp: o_inv_def)
  note g = o_grant_shape [OF q i]
  from g(1) q obtain r where r: "o_queue s (i # n # r)" by blast
  have n: "o_in (o_pc s n)" using g(2) by (simp add: o_in_def)
  have "o_local (osq_grant i n s) i" using g(3) by (simp add: osq_grant_def o_local_def o_pc_defs)
  then show ?thesis
    by (intro o_step_inv [OF inv _ osq_grant_queue [OF r i], of OIdle]) (use n in \<open>auto simp: osq_grant_def\<close>)
qed

section \<open>Every step keeps the invariant\<close>

lemmas osq_step_invs = osq_init_next_inv osq_xchg_inv osq_link_inv osq_spin_inv osq_step_a_cas_inv osq_step_a_locked_inv
  osq_wait_cpu_inv osq_wait_cas_inv osq_wait_xchg_inv osq_step_c2_inv osq_unlock_inv osq_unlock_xchg_inv osq_grant_inv

lemma osq_step_inv: "o_inv N s \<Longrightarrow> o_inv N (osq_step retry N i s)"
proof (cases "i < N")
  case True
  assume inv: "o_inv N s"
  have "o_pc s i \<noteq> ONull" using o_inv_local [OF inv, of i] by (auto simp: o_local_def)
  then show ?thesis using osq_moves [OF inv True] osq_step_invs [OF inv True] True
    by (cases "o_pc s i") (simp_all add: osq_step_def)
qed (simp add: osq_step_def)

lemma osq_init_inv: "N < 2 ^ 31 \<Longrightarrow> o_inv N osq_queue_init"
proof -
  have "o_queue osq_queue_init []" by (auto simp: o_queue_def o_members_def osq_queue_init_def o_pc_defs)
  moreover have "o_local osq_queue_init i" for i by (simp add: osq_queue_init_def o_local_def o_pc_defs)
  moreover assume "N < 2 ^ 31"
  ultimately show ?thesis by (auto simp: o_inv_def osq_queue_init_def)
qed

end
