(* ===== verification/OSQ_Progress.thy ===== *)
theory OSQ_Progress
  imports OSQ_Correct
begin

text \<open>
  The optimistic spin queue never deadlocks: as long as some thread is not idle there is a step that
  brings the threads closer to being idle. The distance counts, for every thread, the steps it has left
  when nobody interferes; a thread that waits in \<open>osq_wait_next\<close> has its count lowered by the step of the
  neighbour it waits for.
\<close>

section \<open>The distance\<close>

text \<open>Positions inside the loop of \<open>osq_wait_next\<close>; \<open>t\<close>: the tail is the own code, \<open>n\<close>: \<open>node->next\<close> is set.\<close>

definition o_loop :: "osq_pc \<Rightarrow> bool" where
  "o_loop p = (case p of OWaitTail _ _ \<Rightarrow> True | OWaitCas _ _ \<Rightarrow> True | OWaitNext _ _ \<Rightarrow> True | OWaitXchg _ _ \<Rightarrow> True | _ \<Rightarrow> False)"

definition o_loop_rank :: "bool \<Rightarrow> bool \<Rightarrow> osq_pc \<Rightarrow> nat" where
  "o_loop_rank t n p =
     (if t then (case p of OWaitCas _ _ \<Rightarrow> 1 | OWaitTail _ _ \<Rightarrow> 2 | _ \<Rightarrow> 3)
      else if n then (case p of OWaitXchg _ _ \<Rightarrow> 4 | OWaitNext _ _ \<Rightarrow> 5 | _ \<Rightarrow> 6)
      else 7)"

definition o_pc_rank :: "bool \<Rightarrow> bool \<Rightarrow> osq_pc \<Rightarrow> nat" where
  "o_pc_rank t n p = (if o_loop p then (if o_down p = None then 0 else 20) + o_loop_rank t n p else (case p of
       OIdle \<Rightarrow> 0 | OGrant _ \<Rightarrow> 1 | OUnlockXchg \<Rightarrow> 8 | OCS \<Rightarrow> 9
     | OSpin _ _ \<Rightarrow> 10 | OStepALocked _ \<Rightarrow> 10 | OStepA _ \<Rightarrow> 11 | OStepACas _ \<Rightarrow> 11 | OStepAPrev \<Rightarrow> 12
     | OXchg \<Rightarrow> 10 | OInitCpu \<Rightarrow> 11 | OInitNext \<Rightarrow> 12 | ORetry \<Rightarrow> 13
     | OLink _ \<Rightarrow> 11 | OSetPrev _ \<Rightarrow> 12 | OStepC2 _ _ \<Rightarrow> 22 | OStepC _ _ \<Rightarrow> 23 | OWaitCpu _ \<Rightarrow> 28 | _ \<Rightarrow> 0))"

definition o_rank :: "osq_state \<Rightarrow> tid \<Rightarrow> nat" where
  "o_rank s i = o_pc_rank (o_tail s = encode_cpu i) (o_next s i \<noteq> None) (o_pc s i)"

definition o_dist :: "nat \<Rightarrow> osq_state \<Rightarrow> nat" where
  "o_dist N s = (\<Sum>i<N. o_rank s i)"

lemmas o_rank_defs = o_rank_def o_pc_rank_def o_loop_def o_loop_rank_def o_down_def

lemma o_pc_rank_mono: "(t \<longrightarrow> t') \<Longrightarrow> (n \<longrightarrow> n') \<Longrightarrow> o_pc_rank t' n' p \<le> o_pc_rank t n p"
  by (cases p) (auto simp: o_pc_rank_def o_loop_def o_loop_rank_def)

text \<open>A step that lowers the rank of the thread that moves and takes nothing away from the others.\<close>

lemma o_closer:
  assumes i: "i < N" "o_rank s' i < o_rank s i"
    and o: "\<And>j. j < N \<Longrightarrow> j \<noteq> i \<Longrightarrow> o_pc s' j = o_pc s j"
      "\<And>j. j < N \<Longrightarrow> j \<noteq> i \<Longrightarrow> o_tail s = encode_cpu j \<Longrightarrow> o_tail s' = encode_cpu j"
      "\<And>j. j < N \<Longrightarrow> j \<noteq> i \<Longrightarrow> o_next s j \<noteq> None \<Longrightarrow> o_next s' j \<noteq> None"
  shows "o_dist N s' < o_dist N s"
  unfolding o_dist_def
proof (rule sum_strict_mono_ex1)
  have "o_rank s' j \<le> o_rank s j" if j: "j < N" "j \<noteq> i" for j
    using o(1-3) [OF j] unfolding o_rank_def by (auto intro!: o_pc_rank_mono)
  with i(2) show "\<forall>j\<in>{..<N}. o_rank s' j \<le> o_rank s j" by (metis lessThan_iff less_imp_le)
  show "\<exists>j\<in>{..<N}. o_rank s' j < o_rank s j" using i by auto
qed simp

section \<open>Threads that can move\<close>

abbreviation o_movable :: "int \<Rightarrow> nat \<Rightarrow> osq_state \<Rightarrow> tid \<Rightarrow> bool" where
  "o_movable retry N s i \<equiv> o_dist N (osq_step retry N i s) < o_dist N s"

text \<open>In \<open>osq_wait_next\<close>, with neither exit open.\<close>

definition o_stalled :: "osq_state \<Rightarrow> tid \<Rightarrow> bool" where
  "o_stalled s i \<longleftrightarrow> o_loop (o_pc s i) \<and> o_tail s \<noteq> encode_cpu i \<and> o_next s i = None"

lemma o_other_code:
  assumes "o_inv N s" "i < N" "j < N" "j \<noteq> i" "o_tail s = encode_cpu i"
  shows "o_tail s \<noteq> encode_cpu j"
  using assms encode_inj [of i j] by (auto simp: o_inv_def)

lemma o_tail_next:
  assumes inv: "o_inv N s" "i < N" and t: "o_tail s = encode_cpu i"
  shows "o_next s i = None"
proof -
  from inv(1) obtain q where q: "o_queue s q" by (auto simp: o_inv_def)
  have "i < 2 ^ 31" using inv by (simp add: o_inv_def)
  from o_tail_last [OF inv(1) q t this] o_last_next [OF q] show ?thesis by simp
qed

lemma o_loop_moves:
  assumes inv: "o_inv N s" "i < N" and l: "o_loop (o_pc s i)" "\<not> o_stalled s i"
  shows "o_movable retry N s i"
proof (rule o_closer [OF inv(2)])
  have m: "o_tail s = encode_cpu i \<or> o_next s i \<noteq> None" using l by (simp add: o_stalled_def)
  show "o_rank (osq_step retry N i s) i < o_rank s i"
    using l(1) m inv(2) o_tail_next [OF inv]
    by (cases "o_pc s i") (auto simp: osq_step_def o_rank_defs osq_wait_tail_def osq_wait_cas_def
        osq_wait_next_def osq_wait_xchg_def split: option.splits)
  fix j assume j: "j < N" "j \<noteq> i"
  show "o_pc (osq_step retry N i s) j = o_pc s j"
    using l(1) j by (cases "o_pc s i") (auto simp: osq_step_def o_loop_def osq_wait_tail_def osq_wait_cas_def
        osq_wait_next_def osq_wait_xchg_def)
  show "o_tail (osq_step retry N i s) = encode_cpu j" if "o_tail s = encode_cpu j"
    using l(1) j that o_other_code [OF inv j] by (cases "o_pc s i") (auto simp: osq_step_def o_loop_def osq_wait_tail_def
        osq_wait_cas_def osq_wait_next_def osq_wait_xchg_def)
  show "o_next (osq_step retry N i s) j \<noteq> None" if "o_next s j \<noteq> None"
    using l(1) j that by (cases "o_pc s i") (auto simp: osq_step_def o_loop_def osq_wait_tail_def osq_wait_cas_def
        osq_wait_next_def osq_wait_xchg_def)
qed

text \<open>A thread that has to be linked, or leaves and does not wait for its successor.\<close>

lemma o_straight_moves:
  assumes inv: "o_inv N s" "i < N"
    and p: "o_linking (o_pc s i) \<noteq> None \<or> o_down (o_pc s i) \<noteq> None \<or> o_owner (o_pc s i)" "\<not> o_loop (o_pc s i)"
  shows "o_movable retry N s i"
proof (rule o_closer [OF inv(2)])
  note defs = osq_step_def o_pc_defs o_loop_def osq_set_prev_def osq_link_def osq_wait_cpu_def osq_step_c_def osq_step_c2_def
    osq_unlock_def osq_unlock_xchg_def osq_grant_def
  show "o_rank (osq_step retry N i s) i < o_rank s i"
    using p inv(2) by (cases "o_pc s i") (simp_all add: defs o_rank_def o_pc_rank_def o_loop_rank_def split: option.split)
  fix j assume j: "j < N" "j \<noteq> i"
  show "o_pc (osq_step retry N i s) j = o_pc s j"
    using p j by (cases "o_pc s i") (simp_all add: defs)
  show "o_tail (osq_step retry N i s) = encode_cpu j" if "o_tail s = encode_cpu j"
    using p j that o_other_code [OF inv j] by (cases "o_pc s i") (auto simp: defs)
  show "o_next (osq_step retry N i s) j \<noteq> None" if "o_next s j \<noteq> None"
    using p j that by (cases "o_pc s i") (simp_all add: defs)
qed

text \<open>A waiter that was granted the lock finds out, wherever it is.\<close>

lemma o_granted_moves:
  assumes inv: "o_inv N s" "i < N" and p: "o_wait (o_pc s i)" "o_locked s i \<noteq> 0"
  shows "o_movable retry N s i"
proof (rule o_closer [OF inv(2)])
  from inv(1) obtain q where q: "o_queue s q" by (auto simp: o_inv_def)
  have hd: "hd q = i" "q \<noteq> []" using o_first [OF q, of i] p by (simp_all add: o_head_def)
  have n: "o_next s r \<noteq> Some i" for r
  proof
    assume "o_next s r = Some i"
    from adj_not_hd [OF o_next_adj(1) [OF inv(1) q this] o_queue_distinct [OF q]] hd show False by simp
  qed
  have pr: "o_prev s i \<noteq> None" using o_inv_local [OF inv(1), of i] p by (simp add: o_local_def)
  note defs = osq_step_def o_wait_def osq_spin_def osq_step_a_def osq_step_a_cas_def osq_step_a_locked_def osq_step_a_prev_def
  show "o_rank (osq_step retry N i s) i < o_rank s i"
    using p n pr inv(2) by (cases "o_pc s i") (auto simp: defs o_rank_defs)
  fix j assume j: "j < N" "j \<noteq> i"
  show "o_pc (osq_step retry N i s) j = o_pc s j"
    using p(1) n j by (cases "o_pc s i") (simp_all add: defs)
  show "o_tail (osq_step retry N i s) = encode_cpu j" if "o_tail s = encode_cpu j"
    using p(1) n that by (cases "o_pc s i") (simp_all add: defs)
  show "o_next (osq_step retry N i s) j \<noteq> None" if "o_next s j \<noteq> None"
    using p(1) n that by (cases "o_pc s i") (simp_all add: defs)
qed

text \<open>With an empty queue everyone outside can come in.\<close>

lemma o_outside_moves:
  assumes inv: "o_inv N s" "i < N" and q: "o_queue s []" and p: "o_pc s i \<noteq> OIdle"
  shows "o_movable retry N s i"
proof (rule o_closer [OF inv(2)])
  have t: "o_tail s = 0" using o_queue_tail [OF q] by simp
  have nz: "encode_cpu j \<noteq> 0" if "j < N" for j using encode_nz [of j] inv(1) that by (simp add: o_inv_def)
  have out: "\<not> o_in (o_pc s i)" using o_queue_mem [OF q, of i] by simp
  have nn: "o_pc s i \<noteq> ONull" using o_inv_local [OF inv(1), of i] by (auto simp: o_local_def)
  have n: "o_next s j = None" for j
    using o_inv_local [OF inv(1), of j] o_queue_mem [OF q, of j] by (simp add: o_local_def)
  note defs = osq_step_def o_pc_defs osq_init_locked_def osq_init_next_def osq_init_cpu_def osq_xchg_def Let_def
  show "o_rank (osq_step retry N i s) i < o_rank s i"
    using p out nn inv(2) t by (cases "o_pc s i") (auto simp: defs o_rank_def o_pc_rank_def o_loop_def split: option.splits)
  fix j assume j: "j < N" "j \<noteq> i"
  show "o_pc (osq_step retry N i s) j = o_pc s j"
    using out nn j by (cases "o_pc s i") (auto simp: defs split: option.splits)
  show "o_tail (osq_step retry N i s) = encode_cpu j" if "o_tail s = encode_cpu j" using that t nz [OF j(1)] by simp
  show "o_next (osq_step retry N i s) j \<noteq> None" if "o_next s j \<noteq> None" using that n by simp
qed

section \<open>Somebody can always move\<close>

lemma o_stalled_succ:
  assumes inv: "o_inv N s" and q: "o_queue s q" and a: "adj q p n" and st: "o_stalled s p"
    and no: "\<And>i. i < N \<Longrightarrow> \<not> o_movable retry N s i"
  shows "o_stalled s n"
proof -
  have "o_took (o_pc s p) = None" using st by (auto simp: o_stalled_def o_loop_def o_took_def split: osq_pc.splits)
  with o_queue_edge [OF q a] st have l: "o_linking (o_pc s n) \<noteq> None \<or> o_down (o_pc s n) \<noteq> None"
    by (auto simp: o_edge_def o_stalled_def)
  have "n < N" using o_queue_mem [OF q, of n] adj_in_set [OF a] by (intro o_inv_less [OF inv]) (auto simp: o_pc_defs)
  with l no [of n] o_straight_moves [OF inv, of n retry] o_loop_moves [OF inv, of n retry] show ?thesis by blast
qed

lemma o_some_moves:
  assumes inv: "o_inv N s" and b: "\<not> (\<forall>i. o_pc s i = OIdle)"
  shows "\<exists>i. o_movable retry N s i"
proof (rule ccontr)
  assume "\<not> ?thesis"
  then have no: "\<not> o_movable retry N s i" for i by blast
  from inv obtain q where q: "o_queue s q" by (auto simp: o_inv_def)
  show False
  proof (cases "q = []")
    case True
    from b obtain i where "o_pc s i \<noteq> OIdle" by blast
    with o_outside_moves [OF inv o_inv_less [OF inv this], of retry] q True no show False by simp
  next
    case False
    let ?h = "hd q"
    have h: "?h \<in> set q" using False by simp
    then have hN: "?h < N" using o_queue_mem [OF q, of ?h] by (intro o_inv_less [OF inv]) (auto simp: o_pc_defs)
    have "o_owner (o_pc s ?h)"
      using o_queue_head [OF q h] o_granted_moves [OF inv hN, of retry] no by (auto simp: o_head_def)
    then have "o_stalled s ?h"
      using o_straight_moves [OF inv hN, of retry] o_loop_moves [OF inv hN, of retry] no by blast
    then have "o_stalled s (last q)"
      by (rule adj_last_closed [OF h]) (rule o_stalled_succ [OF inv q _ _ no])
    then show False using o_queue_tail [OF q] False by (simp add: o_stalled_def)
  qed
qed

section \<open>The interfaces\<close>

lemma o_owner_unique:
  assumes inv: "o_inv N s" and "o_owner (o_pc s i)" "o_owner (o_pc s j)"
  shows "i = j"
proof -
  from inv obtain q where q: "o_queue s q" by (auto simp: o_inv_def)
  from o_first(2) [OF q, of i] o_first(2) [OF q, of j] assms(2,3) show ?thesis by (simp add: o_head_def)
qed

interpretation osq: mutex_system
  "\<lambda>s. N < 2 ^ 31 \<and> s = osq_queue_init" "osq_step retry N" "o_inv N" "\<lambda>s i. o_owner (o_pc s i)" for retry N
proof
  show "o_inv N (osq_step retry N i s)" if "o_inv N s" for s i using that by (rule osq_step_inv)
  show "i = j" if "o_inv N s" "o_owner (o_pc s i)" "o_owner (o_pc s j)" for s i j using that by (rule o_owner_unique)
qed (auto intro: osq_init_inv)

interpretation osq: progress_system
  "\<lambda>s. N < 2 ^ 31 \<and> s = osq_queue_init" "osq_step retry N" "o_inv N" "\<lambda>s. \<forall>i. o_pc s i = OIdle" "o_dist N" for retry N
  by unfold_locales (rule o_some_moves)

section \<open>Properties\<close>

text \<open>C2: at most one thread is between the return of \<open>osq_lock\<close> with true and the end of \<open>osq_unlock\<close>, whatever the
  spin limit \<open>unqueue_retry\<close>, however often waiters leave the middle or the end of the queue and come back.\<close>

theorem osq_mutual_exclusion:
  assumes "N < 2 ^ 31"
    and "o_owner (o_pc (run (osq_step retry N) ls osq_queue_init) i)" and "o_owner (o_pc (run (osq_step retry N) ls osq_queue_init) j)"
  shows "i = j"
  by (rule osq.mutual_exclusion [of N osq_queue_init]) (use assms in simp_all)

text \<open>Thread 1 queues behind thread 0 and gives up; the lock goes from thread 0 to thread 2, which queued later.\<close>

theorem osq_mutual_exclusion_witness:
  "o_owner (o_pc (run (osq_step 0 3) ([0, 0, 0, 0] @ replicate 6 1 @ replicate 6 2 @ replicate 9 1 @ [0, 0, 0, 2]) osq_queue_init) 2) \<and>
   \<not> o_owner (o_pc (run (osq_step 0 3) ([0, 0, 0, 0] @ replicate 6 1 @ replicate 6 2 @ replicate 9 1 @ [0, 0, 0, 2]) osq_queue_init) 1)"
proof -
  let ?ls = "[0, 0, 0, 0] @ replicate 6 1 @ replicate 6 2 @ replicate 9 1 @ [0, 0, 0, 2]"
  have "o_owner (o_pc (run (osq_step 0 3) ?ls osq_queue_init) 2)" by code_simp
  then show ?thesis using osq_mutual_exclusion [of 3 0 ?ls 2 1] by auto
qed

text \<open>C14: the doubly linked queue is never broken, although waiters unlink themselves while others do: no thread
  follows a null \<open>prev\<close>, a nonzero tail is the code of a thread that is in the queue, a \<open>next\<close> field that
  is set names a waiter, and no two nodes have the same successor.\<close>

theorem osq_queue_well_formed:
  assumes "N < 2 ^ 31" and "s = run (osq_step retry N) ls osq_queue_init"
  shows "o_pc s i \<noteq> ONull \<and>
    (o_tail s \<noteq> 0 \<longrightarrow> cpu_to_node (o_tail s) < N \<and> o_in (o_pc s (cpu_to_node (o_tail s)))) \<and>
    (\<forall>n. o_next s i = Some n \<longrightarrow> n < N \<and> o_wait (o_pc s n) \<and> (\<forall>j. o_next s j = Some n \<longrightarrow> j = i))"
proof (intro conjI allI impI)
  have inv: "o_inv N s" unfolding assms(2) by (rule osq.reachable_inv) (use assms in simp)
  from inv obtain q where q: "o_queue s q" by (auto simp: o_inv_def)
  show "o_pc s i \<noteq> ONull" using o_inv_local [OF inv, of i] by (auto simp: o_local_def)
  show t: "o_in (o_pc s (cpu_to_node (o_tail s)))" if "o_tail s \<noteq> 0"
    using that o_tail_decode [OF inv q] o_queue_mem [OF q, of "last q"] by simp
  show "cpu_to_node (o_tail s) < N" if "o_tail s \<noteq> 0" using t [OF that] by (intro o_inv_less [OF inv]) (auto simp: o_pc_defs)
  show w: "o_wait (o_pc s n)" if "o_next s i = Some n" for n using o_next_adj(2) [OF inv q that] .
  show "n < N" if "o_next s i = Some n" for n using w [OF that] by (intro o_inv_less [OF inv]) (auto simp: o_wait_def)
  show "j = i" if "o_next s i = Some n" "o_next s j = Some n" for n j
    using adj_pred_unique [OF o_queue_distinct [OF q] o_next_adj(1) [OF inv q that(2)] o_next_adj(1) [OF inv q that(1)]] .
qed

theorem osq_queue_well_formed_witness:
  "o_next (run (osq_step 0 3) ([0, 0, 0, 0] @ replicate 6 1 @ replicate 6 2 @ replicate 9 1) osq_queue_init) 0 = Some 2 \<and>
   o_wait (o_pc (run (osq_step 0 3) ([0, 0, 0, 0] @ replicate 6 1 @ replicate 6 2 @ replicate 9 1) osq_queue_init) 2)"
proof -
  let ?ls = "[0, 0, 0, 0] @ replicate 6 1 @ replicate 6 2 @ replicate 9 1"
  have "o_next (run (osq_step 0 3) ?ls osq_queue_init) 0 = Some 2" by code_simp
  then show ?thesis using osq_queue_well_formed [of 3 _ 0 ?ls 0, OF _ refl] by simp
qed

text \<open>C17: the optimistic spin queue never deadlocks: from every reachable state every thread can still obtain the
  lock, also when several neighbouring waiters are leaving at once and wait for each other's links.\<close>

theorem osq_never_stuck:
  assumes "N < 2 ^ 31" and "j < N"
  shows "\<exists>ms. o_pc (run (osq_step retry N) (ls @ ms) osq_queue_init) j = OCS"
proof -
  from osq.never_stuck [of N osq_queue_init retry ls] assms
  obtain ms where idle: "\<forall>i. o_pc (run (osq_step retry N) (ls @ ms) osq_queue_init) i = OIdle" by blast
  let ?s = "run (osq_step retry N) (ls @ ms) osq_queue_init"
  have inv: "o_inv N ?s" by (rule osq.reachable_inv) (use assms in simp)
  then obtain q where q: "o_queue ?s q" by (auto simp: o_inv_def)
  have "q = []" using o_queue_mem [OF q, of "hd q"] idle by (cases q) (simp_all add: o_pc_defs)
  then have "o_tail ?s = 0" using o_queue_tail [OF q] by simp
  then have "o_pc (run (osq_step retry N) [j, j, j, j] ?s) j = OCS"
    using idle assms by (simp add: osq_step_def osq_init_locked_def osq_init_next_def osq_init_cpu_def osq_xchg_def)
  then have "o_pc (run (osq_step retry N) (ls @ ms @ [j, j, j, j]) osq_queue_init) j = OCS" by (simp add: run_append)
  then show ?thesis ..
qed

theorem osq_never_stuck_witness:
  "\<exists>ms. o_pc (run (osq_step 0 3) (([0, 0, 0, 0] @ replicate 6 1 @ replicate 6 2 @ replicate 4 1 @ replicate 4 2) @ ms) osq_queue_init) 1 = OCS"
  using osq_never_stuck [of 3 1 0 "[0, 0, 0, 0] @ replicate 6 1 @ replicate 6 2 @ replicate 4 1 @ replicate 4 2"] by simp

end
