(* ===== verification/OSQ_Options.thy ===== *)
theory OSQ_Options
  imports OSQ_Progress C_Strings
begin

text \<open>
  The options of \<open>ext/linux/osq_lock.h\<close> and \<open>osq_lock_init\<close>: the spin limit \<open>-u\<close>, the maximal back-off \<open>-s\<close>, the
  back-off per CPU \<open>-S cpu:usecs\<close>, and the per-thread tables that the initialization derives from them. A call
  of \<open>exit\<close> is \<open>Inl\<close> with the exit code. Output and failing allocations are left out.
\<close>

section \<open>Per-CPU parameters\<close>

record osq_cpu_param =
  cp_cpu :: u64
  cp_sleep_time_us :: u64
  cp_iters :: "u64 list"

definition OSQ_DEFAULT_SLEEP_TIME :: u64 where "OSQ_DEFAULT_SLEEP_TIME = - 1"
definition OSQ_DEFAULT_RELAX_ITER :: u64 where "OSQ_DEFAULT_RELAX_ITER = 1"

definition osq_new_param :: "u64 \<Rightarrow> osq_cpu_param" where
  "osq_new_param cpu = \<lparr>cp_cpu = cpu, cp_sleep_time_us = - 1, cp_iters = [1, 1, 1, 1]\<rparr>"

definition osq_find :: "u64 \<Rightarrow> osq_cpu_param list \<Rightarrow> nat" where
  "osq_find cpu ps = length (takeWhile (\<lambda>p. cp_cpu p \<noteq> cpu) ps)"

text \<open>The loop over the values: at most \<open>n\<close> more, the next one is value \<open>j\<close>.\<close>

fun osq_parse_values :: "char \<Rightarrow> nat \<Rightarrow> nat \<Rightarrow> string \<Rightarrow> osq_cpu_param \<Rightarrow> osq_cpu_param" where
  "osq_parse_values opt j 0 saveptr p = p"
| "osq_parse_values opt j (Suc n) saveptr p = (case strtok_r saveptr '','' of None \<Rightarrow> p
     | Some (pc, saveptr') \<Rightarrow> let val = fst (strtoul pc 0) in
         osq_parse_values opt (Suc j) n saveptr'
           (if opt = CHR ''D'' then p\<lparr>cp_iters := (cp_iters p)[j := val]\<rparr> else p\<lparr>cp_sleep_time_us := val\<rparr>))"

definition osq_parse_multicpu_parameter :: "char \<Rightarrow> string \<Rightarrow> osq_cpu_param list \<Rightarrow> int + osq_cpu_param list" where
  "osq_parse_multicpu_parameter opt optarg ps =
     (if opt \<noteq> CHR ''D'' \<and> opt \<noteq> CHR ''S'' then Inl (- 1) else
      let max_params = if opt = CHR ''D'' then 4 else 1 in
      case strtok_r optarg '':'' of None \<Rightarrow> Inl (- 1)
      | Some (pc, saveptr) \<Rightarrow>
          let cpu = of_int (fst (strtoll pc 0)); i = osq_find cpu ps; ps' = if i < length ps then ps else ps @ [osq_new_param cpu]
          in Inr (ps'[i := osq_parse_values opt 0 max_params saveptr (ps' ! i)]))"

section \<open>The options\<close>

record osq_options =
  unqueue_retry :: int
  max_sleep_us :: int
  srand_seed :: u32
  osq_verbose :: nat
  per_cpu_params :: "osq_cpu_param list"

definition DEFAULT_UNQUEUE_RETRY :: int where "DEFAULT_UNQUEUE_RETRY = 2000000000"
definition MAX_BACKOFF_SLEEP_US :: int where "MAX_BACKOFF_SLEEP_US = 0"

text \<open>The test after \<open>strtoll(optarg, &endptr, 10)\<close>: overflow, or no digits.\<close>

definition osq_unsuitable :: "string \<Rightarrow> bool" where
  "osq_unsuitable optarg = (case strtoll optarg 10 of (v, endptr, erange) \<Rightarrow>
     (erange \<and> v = LLONG_MAX) \<or> (erange \<and> v = 0) \<or> endptr = optarg)"

text \<open>
  One turn of the loop of \<open>osq_parse_args\<close>, for the option letter and the argument that \<open>getopt\<close> returns. The
  build has \<open>CPU_RELAX_PARAMETERIZED_DELAY\<close> switched off, so \<open>-D\<close> is refused.
\<close>

definition osq_parse_opt :: "char \<times> string \<Rightarrow> osq_options \<Rightarrow> int + osq_options" where
  "osq_parse_opt opt s = (let c = fst opt; optarg = snd opt; v = fst (strtoll optarg 10) in
     if c = CHR ''u'' then if osq_unsuitable optarg then Inl 1 else Inr (s\<lparr>unqueue_retry := v\<rparr>)
     else if c = CHR ''s'' then
       if osq_unsuitable optarg then Inl 1 else if v < 0 then Inl 1 else Inr (s\<lparr>max_sleep_us := v\<rparr>)
     else if c = CHR ''D'' then Inl (- 1)
     else if c = CHR ''S'' then (case osq_parse_multicpu_parameter CHR ''S'' optarg (per_cpu_params s) of
         Inl e \<Rightarrow> Inl e | Inr ps \<Rightarrow> Inr (s\<lparr>per_cpu_params := ps\<rparr>))
     else if c = CHR ''R'' then Inr (s\<lparr>srand_seed := ucast (fst (strtoul optarg 0))\<rparr>)
     else if c = CHR ''?'' \<or> c = CHR '':'' \<or> c = CHR ''h'' then Inl 2
     else if c = CHR ''v'' then Inr (s\<lparr>osq_verbose := if osq_verbose s \<ge> 2 then 3 else 2\<rparr>)
     else Inl (- 1))"

fun osq_parse_opts :: "(char \<times> string) list \<Rightarrow> osq_options \<Rightarrow> int + osq_options" where
  "osq_parse_opts [] s = Inr s"
| "osq_parse_opts (opt # opts) s = (case osq_parse_opt opt s of Inl e \<Rightarrow> Inl e | Inr s' \<Rightarrow> osq_parse_opts opts s')"

text \<open>\<open>extra\<close>: arguments that are no options are left (\<open>argc > optind\<close>).\<close>

definition osq_parse_args :: "nat \<Rightarrow> (char \<times> string) list \<Rightarrow> bool \<Rightarrow> int + osq_options" where
  "osq_parse_args verbose opts extra =
     (case osq_parse_opts opts \<lparr>unqueue_retry = DEFAULT_UNQUEUE_RETRY, max_sleep_us = MAX_BACKOFF_SLEEP_US, srand_seed = 0,
         osq_verbose = verbose, per_cpu_params = []\<rparr> of
       Inl e \<Rightarrow> Inl e | Inr s \<Rightarrow> if extra then Inl (- 1) else Inr s)"

section \<open>Initialization\<close>

definition osq_thread_param :: "osq_cpu_param list \<Rightarrow> u64 \<Rightarrow> osq_cpu_param" where
  "osq_thread_param ps cpu = fold (\<lambda>p t. if cp_cpu p = cpu then p else t) ps
     \<lparr>cp_cpu = cpu, cp_sleep_time_us = OSQ_DEFAULT_SLEEP_TIME, cp_iters = replicate 4 OSQ_DEFAULT_RELAX_ITER\<rparr>"

text \<open>The back-off of each thread; \<open>rand k\<close> is what the \<open>k\<close>-th call of \<open>rand()\<close> returns.\<close>

fun osq_choose_sleep :: "(nat \<Rightarrow> int) \<Rightarrow> int \<Rightarrow> nat \<Rightarrow> u64 list \<Rightarrow> u64 list" where
  "osq_choose_sleep rand max_us k [] = []"
| "osq_choose_sleep rand max_us k (t # ts) =
     (if t \<noteq> OSQ_DEFAULT_SLEEP_TIME then t # osq_choose_sleep rand max_us k ts
      else if max_us > 0 then of_int (rand k mod max_us + 1) # osq_choose_sleep rand max_us (Suc k) ts
      else 0 # osq_choose_sleep rand max_us k ts)"

record osq_tables =
  thread_to_sleep_time_us :: "u64 list"
  thread_to_relax :: "u64 list list"
  node_sleep_us :: "u64 list"

definition SPIN_NODE_ALIGNMENT :: nat where "SPIN_NODE_ALIGNMENT = 64"

definition osq_lock_init :: "osq_options \<Rightarrow> (nat \<Rightarrow> int) \<Rightarrow> int list option \<Rightarrow> nat \<Rightarrow> int + osq_tables" where
  "osq_lock_init s rand pinorder num_threads = (case pinorder of None \<Rightarrow> Inl (- 1)
     | Some cpus \<Rightarrow>
         let params = map (\<lambda>t. osq_thread_param (per_cpu_params s) (of_int (cpus ! t))) [0..<num_threads];
             sleep = map cp_sleep_time_us params
         in if (num_threads + 1) * SPIN_NODE_ALIGNMENT mod SPIN_NODE_ALIGNMENT \<noteq> 0 then Inl (- 1)
            else Inr \<lparr>thread_to_sleep_time_us = sleep, thread_to_relax = map cp_iters params,
              node_sleep_us = osq_choose_sleep rand (max_sleep_us s) 0 sleep\<rparr>)"

section \<open>The table of parameters as a map\<close>

text \<open>Finding or appending the entry of a CPU and updating it, as one recursion.\<close>

fun osq_put :: "(osq_cpu_param \<Rightarrow> osq_cpu_param) \<Rightarrow> u64 \<Rightarrow> osq_cpu_param list \<Rightarrow> osq_cpu_param list" where
  "osq_put g cpu [] = [g (osq_new_param cpu)]"
| "osq_put g cpu (p # ps) = (if cp_cpu p = cpu then g p # ps else p # osq_put g cpu ps)"

lemma osq_find_put:
  "(let i = osq_find cpu ps; ps' = if i < length ps then ps else ps @ [osq_new_param cpu] in ps'[i := g (ps' ! i)]) = osq_put g cpu ps"
  by (induction ps) (auto simp: osq_find_def Let_def)

definition entry_map :: "osq_cpu_param list \<Rightarrow> u64 \<rightharpoonup> osq_cpu_param" where
  "entry_map ps = map_of (map (\<lambda>p. (cp_cpu p, p)) ps)"

lemma entry_map_put:
  assumes g: "\<And>p. cp_cpu (g p) = cp_cpu p"
  shows "entry_map (osq_put g cpu ps) = (entry_map ps)(cpu \<mapsto> g (case entry_map ps cpu of None \<Rightarrow> osq_new_param cpu | Some p \<Rightarrow> p))"
  by (induction ps) (auto simp: entry_map_def g osq_new_param_def fun_eq_iff)

lemma osq_put_cpus:
  assumes g: "\<And>p. cp_cpu (g p) = cp_cpu p"
  shows "set (map cp_cpu (osq_put g cpu ps)) = insert cpu (set (map cp_cpu ps))"
    and "distinct (map cp_cpu ps) \<Longrightarrow> distinct (map cp_cpu (osq_put g cpu ps))"
proof -
  show s: "set (map cp_cpu (osq_put g cpu ps)) = insert cpu (set (map cp_cpu ps))" for ps
    by (induction ps) (auto simp: g osq_new_param_def)
  show "distinct (map cp_cpu ps) \<Longrightarrow> distinct (map cp_cpu (osq_put g cpu ps))"
  proof (induction ps)
    case (Cons p ps)
    then show ?case using s [of ps] by (auto simp: g)
  qed simp
qed

text \<open>With one entry per CPU, the loop of \<open>osq_lock_init\<close> is a lookup.\<close>

lemma osq_thread_param_map:
  assumes "distinct (map cp_cpu ps)"
  shows "osq_thread_param ps cpu = (case entry_map ps cpu of Some p \<Rightarrow> p
    | None \<Rightarrow> \<lparr>cp_cpu = cpu, cp_sleep_time_us = OSQ_DEFAULT_SLEEP_TIME, cp_iters = replicate 4 OSQ_DEFAULT_RELAX_ITER\<rparr>)"
proof -
  have skip: "cpu \<notin> cp_cpu ` set ps \<Longrightarrow> fold (\<lambda>p t. if cp_cpu p = cpu then p else t) ps d = d" for ps d
    by (induction ps arbitrary: d) auto
  have none: "cpu \<notin> cp_cpu ` set ps \<Longrightarrow> map_of (map (\<lambda>p. (cp_cpu p, p)) ps) cpu = None" for cpu ps
    by (induction ps) auto
  have "fold (\<lambda>p t. if cp_cpu p = cpu then p else t) ps d = (case entry_map ps cpu of Some p \<Rightarrow> p | None \<Rightarrow> d)" for d
    using assms by (induction ps arbitrary: d) (auto simp: entry_map_def skip none)
  then show ?thesis by (simp add: osq_thread_param_def)
qed

section \<open>Well-formed options\<close>

definition osq_params_ok :: "osq_cpu_param list \<Rightarrow> bool" where
  "osq_params_ok ps \<longleftrightarrow> distinct (map cp_cpu ps) \<and> (\<forall>p\<in>set ps. length (cp_iters p) = 4)"

lemma osq_parse_values_keeps:
  "cp_cpu (osq_parse_values opt j n save p) = cp_cpu p" "length (cp_iters (osq_parse_values opt j n save p)) = length (cp_iters p)"
  by (induction opt j n save p rule: osq_parse_values.induct) (auto simp: Let_def split: option.split)

lemma osq_put_set:
  "q \<in> set (osq_put g cpu ps) \<Longrightarrow> q \<in> set ps \<or> (\<exists>p\<in>insert (osq_new_param cpu) (set ps). q = g p)"
  by (induction ps) (auto split: if_splits)

lemma osq_parse_multicpu_eq:
  "osq_parse_multicpu_parameter opt optarg ps = (if opt \<noteq> CHR ''D'' \<and> opt \<noteq> CHR ''S'' then Inl (- 1) else
     case strtok_r optarg '':'' of None \<Rightarrow> Inl (- 1)
     | Some (pc, saveptr) \<Rightarrow> Inr (osq_put (osq_parse_values opt 0 (if opt = CHR ''D'' then 4 else 1) saveptr) (of_int (fst (strtoll pc 0))) ps))"
  by (simp only: osq_parse_multicpu_parameter_def Let_def osq_find_put [unfolded Let_def, symmetric])

lemma osq_parse_multicpu_put:
  "osq_parse_multicpu_parameter opt optarg ps = Inr ps' \<Longrightarrow>
   \<exists>g cpu. ps' = osq_put g cpu ps \<and> (\<forall>p. cp_cpu (g p) = cp_cpu p \<and> length (cp_iters (g p)) = length (cp_iters p))"
  using osq_parse_values_keeps by (auto simp: osq_parse_multicpu_eq simp del: osq_parse_values.simps split: if_splits option.splits; blast)

lemma osq_put_ok:
  assumes "osq_params_ok ps" and g: "\<And>p. cp_cpu (g p) = cp_cpu p \<and> length (cp_iters (g p)) = length (cp_iters p)"
  shows "osq_params_ok (osq_put g cpu ps)"
  using assms osq_put_cpus(2) [of g ps cpu] osq_put_set [of _ g cpu ps]
  by (fastforce simp: osq_params_ok_def osq_new_param_def)

lemma strtoll_range: "LLONG_MIN \<le> fst (strtoll s b) \<and> fst (strtoll s b) \<le> LLONG_MAX"
  by (auto simp: strtoll_def LLONG_MIN_def LLONG_MAX_def Let_def split: option.split)

definition osq_options_ok :: "osq_options \<Rightarrow> bool" where
  "osq_options_ok s \<longleftrightarrow> LLONG_MIN \<le> unqueue_retry s \<and> unqueue_retry s \<le> LLONG_MAX \<and> 0 \<le> max_sleep_us s \<and> max_sleep_us s \<le> LLONG_MAX \<and>
     osq_params_ok (per_cpu_params s)"

lemma osq_parse_opt_ok: "osq_options_ok s \<Longrightarrow> osq_parse_opt opt s = Inr s' \<Longrightarrow> osq_options_ok s'"
  using strtoll_range [of "snd opt" 10] osq_put_ok osq_parse_multicpu_put [of "CHR ''S''" "snd opt" "per_cpu_params s"]
  by (auto simp: osq_parse_opt_def osq_options_ok_def Let_def split: if_splits sum.splits)

lemma osq_parse_opts_ok: "osq_options_ok s \<Longrightarrow> osq_parse_opts opts s = Inr s' \<Longrightarrow> osq_options_ok s'"
  by (induction opts s rule: osq_parse_opts.induct) (auto split: sum.splits dest: osq_parse_opt_ok)

text \<open>Whatever the command line, options that are accepted are well formed: the numbers are in the range of
  \<open>long long\<close>, the back-off is not negative, and the table of per-CPU parameters has one entry per CPU with four
  delays.\<close>

theorem osq_options_well_formed:
  assumes "osq_parse_args verbose opts extra = Inr s"
  shows "LLONG_MIN \<le> unqueue_retry s \<and> unqueue_retry s \<le> LLONG_MAX \<and> 0 \<le> max_sleep_us s \<and> max_sleep_us s \<le> LLONG_MAX \<and>
    distinct (map cp_cpu (per_cpu_params s)) \<and> (\<forall>p\<in>set (per_cpu_params s). length (cp_iters p) = 4)"
proof -
  have "osq_options_ok \<lparr>unqueue_retry = DEFAULT_UNQUEUE_RETRY, max_sleep_us = MAX_BACKOFF_SLEEP_US, srand_seed = 0,
      osq_verbose = verbose, per_cpu_params = []\<rparr>"
    by (simp add: osq_options_ok_def osq_params_ok_def DEFAULT_UNQUEUE_RETRY_def MAX_BACKOFF_SLEEP_US_def LLONG_MIN_def LLONG_MAX_def)
  then have "osq_options_ok s"
    using assms osq_parse_opts_ok by (auto simp: osq_parse_args_def split: sum.splits if_splits)
  then show ?thesis by (simp add: osq_options_ok_def osq_params_ok_def)
qed

text \<open>Two back-offs for CPU 3 leave one entry; an underflowing spin limit is accepted.\<close>

theorem osq_options_well_formed_witness:
  "\<exists>s. osq_parse_args 0 [(CHR ''S'', ''3:7''), (CHR ''S'', ''0x3:9''), (CHR ''u'', ''-9999999999999999999'')] False = Inr s \<and>
     distinct (map cp_cpu (per_cpu_params s)) \<and> unqueue_retry s = LLONG_MIN"
proof -
  have "osq_parse_args 0 [(CHR ''S'', ''3:7''), (CHR ''S'', ''0x3:9''), (CHR ''u'', ''-9999999999999999999'')] False =
    Inr \<lparr>unqueue_retry = LLONG_MIN, max_sleep_us = 0, srand_seed = 0, osq_verbose = 0,
      per_cpu_params = [\<lparr>cp_cpu = 3, cp_sleep_time_us = 9, cp_iters = [1, 1, 1, 1]\<rparr>]\<rparr>"
    by (simp add: osq_parse_args_def osq_parse_opt_def osq_parse_multicpu_eq osq_unsuitable_def strtoll_def strtoul_def scan_number_def
        scan_sign_def scan_radix_def c_isspace_def digit_val_def strtok_r_def osq_new_param_def LLONG_MAX_def LLONG_MIN_def Let_def
        DEFAULT_UNQUEUE_RETRY_def MAX_BACKOFF_SLEEP_US_def)
  from osq_options_well_formed [OF this] this show ?thesis by simp
qed

section \<open>From the command line to the threads\<close>

text \<open>How \<open>-S cpu:usecs\<close> is written.\<close>

definition osq_sleep_arg :: "nat \<times> nat \<Rightarrow> char \<times> string" where
  "osq_sleep_arg cu = (CHR ''S'', decimal (fst cu) @ '':'' @ decimal (snd cu))"

lemma takeWhile_all_app: "(\<And>x. x \<in> set xs \<Longrightarrow> P x) \<Longrightarrow> takeWhile P (xs @ ys) = xs @ takeWhile P ys"
  and dropWhile_all_app: "(\<And>x. x \<in> set xs \<Longrightarrow> P x) \<Longrightarrow> dropWhile P (xs @ ys) = dropWhile P ys"
  by (induction xs) auto

lemma strtok_decimal:
  assumes d: "\<And>m c. c \<in> set (decimal m) \<Longrightarrow> c \<noteq> e" and r: "rest = [] \<or> hd rest = e"
  shows "strtok_r (decimal n @ rest) [e] = Some (decimal n, tl rest)"
proof -
  obtain c cs where x: "decimal n = c # cs" using decimal_nonempty by (cases "decimal n") auto
  then have "c \<noteq> e" using d [of c n] by simp
  then have "dropWhile (\<lambda>c. c \<in> set [e]) (decimal n @ rest) = decimal n @ rest" by (simp add: x)
  moreover have "takeWhile (\<lambda>c. c \<notin> set [e]) (decimal n @ rest) = decimal n" "dropWhile (\<lambda>c. c \<notin> set [e]) (decimal n @ rest) = rest"
    using d [of _ n] r by (auto simp: takeWhile_all_app dropWhile_all_app takeWhile_eq_Nil_iff dropWhile_eq_self_iff)
  ultimately show ?thesis using x by (simp add: strtok_r_def drop_Suc)
qed

lemma osq_sleep_arg_put:
  assumes "c < 2 ^ 31" "u < 2 ^ 64"
  shows "osq_parse_opt (osq_sleep_arg (c, u)) s =
    Inr (s\<lparr>per_cpu_params := osq_put (\<lambda>p. p\<lparr>cp_sleep_time_us := of_nat u\<rparr>) (of_nat c) (per_cpu_params s)\<rparr>)"
proof -
  have c: "strtok_r (decimal c @ CHR '':'' # decimal u) '':'' = Some (decimal c, decimal u)"
    using strtok_decimal [of "CHR '':''" "CHR '':'' # decimal u" c] decimal_char(4) by simp
  have u: "strtok_r (decimal u) '','' = Some (decimal u, [])"
    using strtok_decimal [of "CHR '',''" "[]" u] decimal_char(5) by simp
  have nc: "fst (strtoll (decimal c) 0) = int c"
    using scan_number_decimal [of "[]" 0 c] assms(1) by (simp add: strtoll_def LLONG_MAX_def LLONG_MIN_def Let_def)
  have nu: "strtoul (decimal u) 0 = (of_nat u, [], False)" using strtoul_decimal [of "[]" 0 u] assms(2) by simp
  have v: "osq_parse_values CHR ''S'' 0 (Suc 0) (decimal u) = (\<lambda>p. p\<lparr>cp_sleep_time_us := of_nat u\<rparr>)"
    by (rule ext) (simp add: u nu Let_def)
  show ?thesis using v by (simp add: osq_sleep_arg_def osq_parse_opt_def osq_parse_multicpu_eq c nc Let_def)
qed

lemma osq_sleep_args_fold:
  assumes "\<And>c u. (c, u) \<in> set cus \<Longrightarrow> c < 2 ^ 31 \<and> u < 2 ^ 63"
  shows "osq_parse_opts (map osq_sleep_arg cus) s =
    Inr (s\<lparr>per_cpu_params := fold (\<lambda>(c, u). osq_put (\<lambda>p. p\<lparr>cp_sleep_time_us := of_nat u\<rparr>) (of_nat c)) cus (per_cpu_params s)\<rparr>)"
  using assms
proof (induction cus arbitrary: s)
  case (Cons cu cus)
  obtain c u where cu: "cu = (c, u)" by (cases cu)
  have "c < 2 ^ 31" "u < 2 ^ 64" using Cons.prems [of c u] cu by auto
  moreover have "\<And>c u. (c, u) \<in> set cus \<Longrightarrow> c < 2 ^ 31 \<and> u < 2 ^ 63" using Cons.prems by auto
  ultimately show ?case using Cons.IH osq_sleep_arg_put by (simp add: cu)
qed simp

lemma of_nat_cpu: "c < 2 ^ 31 \<Longrightarrow> d < 2 ^ 31 \<Longrightarrow> (of_nat c :: u64) = of_nat d \<longleftrightarrow> c = d"
  by (simp add: word_unat_eq_iff unat_of_nat)

text \<open>The table after a sequence of options: the last one for a CPU counts.\<close>

lemma osq_sleep_map:
  assumes "\<And>c u. (c, u) \<in> set cus \<Longrightarrow> c < 2 ^ 31 \<and> u < 2 ^ 63" and d: "d < 2 ^ 31"
  defines "ps \<equiv> fold (\<lambda>(c, u). osq_put (\<lambda>p. p\<lparr>cp_sleep_time_us := of_nat u\<rparr>) (of_nat c)) cus []"
  shows "distinct (map cp_cpu ps)" "map_option cp_sleep_time_us (entry_map ps (of_nat d)) = map_option of_nat (map_of (rev cus) d)"
proof -
  have "distinct (map cp_cpu ps) \<and> map_option cp_sleep_time_us (entry_map ps (of_nat d)) = map_option of_nat (map_of (rev cus) d)"
    using assms(1) unfolding ps_def
  proof (induction cus rule: rev_induct)
    case Nil
    then show ?case by (simp add: entry_map_def)
  next
    case (snoc cu cus)
    obtain c u where cu: "cu = (c, u)" by (cases cu)
    have "c < 2 ^ 31" using snoc.prems cu by auto
    then have cd: "(of_nat d :: u64) = of_nat c \<longleftrightarrow> d = c" using of_nat_cpu d by blast
    let ?qs = "fold (\<lambda>(c, u). osq_put (\<lambda>p. p\<lparr>cp_sleep_time_us := of_nat u\<rparr>) (of_nat c)) cus []"
    have IH: "distinct (map cp_cpu ?qs)" "map_option cp_sleep_time_us (entry_map ?qs (of_nat d)) = map_option of_nat (map_of (rev cus) d)"
      using snoc by auto
    have "distinct (map cp_cpu (osq_put (\<lambda>p. p\<lparr>cp_sleep_time_us := of_nat u\<rparr>) (of_nat c) ?qs))"
      by (rule osq_put_cpus(2) [OF _ IH(1)]) simp
    then show ?case using IH(2) cd by (simp add: cu entry_map_put)
  qed
  then show "distinct (map cp_cpu ps)" "map_option cp_sleep_time_us (entry_map ps (of_nat d)) = map_option of_nat (map_of (rev cus) d)" by simp_all
qed

lemma osq_choose_sleep_length: "length (osq_choose_sleep rand m k ts) = length ts"
  by (induction ts arbitrary: k) simp_all

lemma osq_choose_sleep_nth:
  "t < length ts \<Longrightarrow> (ts ! t \<noteq> OSQ_DEFAULT_SLEEP_TIME \<longrightarrow> osq_choose_sleep rand m k ts ! t = ts ! t) \<and>
   (ts ! t = OSQ_DEFAULT_SLEEP_TIME \<longrightarrow> (m \<le> 0 \<longrightarrow> osq_choose_sleep rand m k ts ! t = 0) \<and>
     (m > 0 \<longrightarrow> (\<exists>j. osq_choose_sleep rand m k ts ! t = of_int (rand j mod m + 1))))"
proof (induction ts arbitrary: k t)
  case (Cons x ts)
  show ?case
  proof (cases t)
    case (Suc t')
    then show ?thesis using Cons.IH [of t' k] Cons.IH [of t' "Suc k"] Cons.prems by auto
  qed auto
qed simp

lemma unat_random: "0 < m \<Longrightarrow> m < 2 ^ 63 \<Longrightarrow> unat (of_int (r mod int m + 1) :: u64) \<in> {1..m}"
proof -
  assume m: "0 < m" "m < 2 ^ 63"
  define k where "k = nat (r mod int m + 1)"
  have "0 \<le> r mod int m" "r mod int m < int m" using m by simp_all
  then have k: "1 \<le> k" "k \<le> m" "r mod int m + 1 = int k" unfolding k_def by linarith+
  then have "unat (of_nat k :: u64) = k" using m by (simp add: unat_of_nat)
  with k show ?thesis by simp
qed

lemma default_sleep_large: "u < 2 ^ 63 \<Longrightarrow> (of_nat u :: u64) \<noteq> OSQ_DEFAULT_SLEEP_TIME"
proof
  assume u: "u < 2 ^ 63" "(of_nat u :: u64) = OSQ_DEFAULT_SLEEP_TIME"
  then have "unat (of_nat u :: u64) = unat (- 1 :: u64)" by (simp only: OSQ_DEFAULT_SLEEP_TIME_def)
  moreover have "(- 1 :: u64) = 18446744073709551615" by simp
  ultimately have "unat (of_nat u :: u64) = 18446744073709551615" by (simp only: unsigned_numeral) simp
  with u(1) show False by (simp add: unat_of_nat)
qed

text \<open>The time a thread gets, from the entry of its CPU.\<close>

lemma osq_sleep_chosen:
  assumes "t < length ts" "m < 2 ^ 63" "case e of Some u \<Rightarrow> u < 2 ^ 63 | None \<Rightarrow> True"
    and "ts ! t = (case e of Some u \<Rightarrow> of_nat u | None \<Rightarrow> OSQ_DEFAULT_SLEEP_TIME)"
  shows "case e of Some u \<Rightarrow> unat (osq_choose_sleep rand (int m) k ts ! t) = u
    | None \<Rightarrow> if m = 0 then osq_choose_sleep rand (int m) k ts ! t = 0 else unat (osq_choose_sleep rand (int m) k ts ! t) \<in> {1..m}"
proof (cases e)
  case None
  then show ?thesis using assms osq_choose_sleep_nth [of t ts rand "int m" k] unat_random [of m] by auto
next
  case (Some u)
  then have "unat (of_nat u :: u64) = u" using assms(3) by (simp add: unat_of_nat)
  then show ?thesis using Some assms default_sleep_large [of u] osq_choose_sleep_nth [of t ts rand "int m" k] by simp
qed

text \<open>The options of the optimistic spin queue take effect: with \<open>-s max\<close> and any sequence of \<open>-S cpu:usecs\<close>, written in
  decimal, the command line is accepted and every thread backs off for the time of the last \<open>-S\<close> for the CPU it is
  pinned to; without one, for a time of 1 to \<open>max\<close>, or not at all when \<open>max\<close> is 0.\<close>

theorem osq_sleep_options_take_effect:
  assumes "\<forall>(c, u)\<in>set cus. c < 2 ^ 31 \<and> u < 2 ^ 63" and "m < 2 ^ 63" and "n \<le> length cpus" and "\<forall>c\<in>set cpus. c < 2 ^ 31"
  shows "\<exists>s r. osq_parse_args verbose ((CHR ''s'', decimal m) # map osq_sleep_arg cus) False = Inr s \<and>
    osq_lock_init s rand (Some (map int cpus)) n = Inr r \<and> length (node_sleep_us r) = n \<and>
    (\<forall>t<n. case map_of (rev cus) (cpus ! t) of Some u \<Rightarrow> unat (node_sleep_us r ! t) = u
       | None \<Rightarrow> if m = 0 then node_sleep_us r ! t = 0 else unat (node_sleep_us r ! t) \<in> {1..m})"
proof -
  let ?ps = "fold (\<lambda>(c, u). osq_put (\<lambda>p. p\<lparr>cp_sleep_time_us := of_nat u\<rparr>) (of_nat c)) cus []"
  let ?s = "\<lparr>unqueue_retry = DEFAULT_UNQUEUE_RETRY, max_sleep_us = int m, srand_seed = 0, osq_verbose = verbose, per_cpu_params = ?ps\<rparr>"
  let ?sl = "map (\<lambda>t. cp_sleep_time_us (osq_thread_param ?ps (of_nat (cpus ! t)))) [0..<n]"
  have cus: "\<And>c u. (c, u) \<in> set cus \<Longrightarrow> c < 2 ^ 31 \<and> u < 2 ^ 63" using assms(1) by blast
  have nd: "decimal m \<noteq> []" by (rule decimal_nonempty)
  have mm: "strtoll (decimal m) 10 = (int m, [], False)"
    using scan_number_decimal [of "[]" 10 m] assms(2) by (simp add: strtoll_def LLONG_MAX_def LLONG_MIN_def Let_def)
  have p: "osq_parse_args verbose ((CHR ''s'', decimal m) # map osq_sleep_arg cus) False = Inr ?s"
    using osq_sleep_args_fold [OF cus] nd by (simp add: osq_parse_args_def osq_parse_opt_def osq_unsuitable_def mm Let_def)
  obtain r where r: "osq_lock_init ?s rand (Some (map int cpus)) n = Inr r" "node_sleep_us r = osq_choose_sleep rand (int m) 0 ?sl"
  proof -
    have m: "map (\<lambda>t. osq_thread_param ?ps (of_int (map int cpus ! t))) [0..<n] = map (\<lambda>t. osq_thread_param ?ps (of_nat (cpus ! t))) [0..<n]"
      by (rule map_cong) (use assms(3) in auto)
    have "\<exists>r. osq_lock_init ?s rand (Some (map int cpus)) n = Inr r \<and> node_sleep_us r = osq_choose_sleep rand (int m) 0 ?sl"
      by (simp add: osq_lock_init_def SPIN_NODE_ALIGNMENT_def Let_def m comp_def)
    with that show thesis by blast
  qed
  have "case map_of (rev cus) (cpus ! t) of Some u \<Rightarrow> unat (node_sleep_us r ! t) = u
       | None \<Rightarrow> if m = 0 then node_sleep_us r ! t = 0 else unat (node_sleep_us r ! t) \<in> {1..m}" if t: "t < n" for t
  proof -
    have d: "cpus ! t < 2 ^ 31" using assms(3,4) t by simp
    note sm = osq_sleep_map [of cus, OF cus d]
    have e: "?sl ! t = (case map_of (rev cus) (cpus ! t) of Some u \<Rightarrow> of_nat u | None \<Rightarrow> OSQ_DEFAULT_SLEEP_TIME)"
      using t sm(2) osq_thread_param_map [OF sm(1), where cpu = "of_nat (cpus ! t)"] by (auto split: option.splits)
    have "case map_of (rev cus) (cpus ! t) of Some u \<Rightarrow> u < 2 ^ 63 | None \<Rightarrow> True"
      using cus by (auto split: option.split dest!: map_of_SomeD)
    then show ?thesis using osq_sleep_chosen [of t ?sl m "map_of (rev cus) (cpus ! t)" rand 0] t e assms(2) by (simp only: r(2)) simp
  qed
  moreover have "length (node_sleep_us r) = n" by (simp add: r(2) osq_choose_sleep_length)
  ultimately show ?thesis using p r(1) by blast
qed

text \<open>Three threads on CPUs 4, 2 and 4, the back-off of CPU 4 given twice.\<close>

theorem osq_sleep_options_take_effect_witness:
  "\<exists>s r. osq_parse_args 0 ((CHR ''s'', decimal 10) # map osq_sleep_arg [(4, 50), (4, 70)]) False = Inr s \<and>
     osq_lock_init s (\<lambda>_. 123) (Some [4, 2, 4]) 3 = Inr r \<and> unat (node_sleep_us r ! 0) = 70 \<and> unat (node_sleep_us r ! 1) \<in> {1..10}"
proof -
  obtain s r where sr: "osq_parse_args 0 ((CHR ''s'', decimal 10) # map osq_sleep_arg [(4, 50), (4, 70)]) False = Inr s"
    "osq_lock_init s (\<lambda>_. 123) (Some (map int [4, 2, 4])) 3 = Inr r"
    "\<And>t. t < 3 \<Longrightarrow> case map_of (rev [(4, 50), (4, 70)]) ([4, 2, 4 :: nat] ! t) of Some u \<Rightarrow> unat (node_sleep_us r ! t) = u
       | None \<Rightarrow> if (10::nat) = 0 then node_sleep_us r ! t = 0 else unat (node_sleep_us r ! t) \<in> {1..10}"
    using osq_sleep_options_take_effect [of "[(4, 50), (4, 70)]" 10 3 "[4, 2, 4]" 0 "\<lambda>_. 123"] by auto
  from sr(3) [of 0] sr(3) [of 1] sr(1,2) show ?thesis by auto
qed

end
