(* ===== verification/Delays.thy ===== *)
theory Delays
  imports Calibrate OSQ_Options
begin

text \<open>
  The delays around the lock: the delay loops themselves, \<open>calibrate_timer\<close> (\<open>measure.c\<close>), which turns the \<open>-c\<close> and \<open>-p\<close>
  options of an experiment into numbers of tokens, and \<open>osq_lock_compute_blackhole_interval\<close> (\<open>osq_lock.h\<close>), which does so for the back-off of a
  thread. The products with the clock rate are computed in double by the code and are parameters here.
\<close>

section \<open>The loops\<close>

text \<open>The passes of the assembly loop of \<open>blackhole\<close>: \<open>add -1\<close>, and back while the result is not zero.\<close>

function blackhole_loop :: "u64 \<Rightarrow> nat" where
  "blackhole_loop temp = (let temp' = temp + (-1) in Suc (if temp' \<noteq> 0 then blackhole_loop temp' else 0))"
  by auto

lemma unat_pred: "x \<noteq> 0 \<Longrightarrow> unat (x - 1 :: u64) = unat x - 1"
  by (metis unat_minus_one)

termination blackhole_loop
proof (relation "measure (\<lambda>t. unat (t - 1))", simp_all)
  fix temp :: u64
  assume "temp \<noteq> 1"
  then have "temp - 1 \<noteq> 0" by simp
  then have "unat (temp - 1 - 1) < unat (temp - 1)" using unat_pred [of "temp - 1"] unat_gt_0 [of "temp - 1"] by simp
  then show "unat (temp - 2) < unat (temp - 1)" by simp
qed

declare blackhole_loop.simps [simp del]

definition blackhole :: "u64 \<Rightarrow> nat" where
  "blackhole iters = (if iters = 0 then 0 else blackhole_loop iters)"

text \<open>The passes of \<open>osq_lock_cpu_relax\<close>: the counter is a \<open>long\<close>, tested before it is decremented.\<close>

function osq_lock_cpu_relax :: "u64 \<Rightarrow> nat" where
  "osq_lock_cpu_relax relax = (if relax \<noteq> 0 then Suc (osq_lock_cpu_relax (relax - 1)) else 0)"
  by auto

termination osq_lock_cpu_relax
  by (relation "measure unat") (simp_all add: unat_pred unat_gt_0)

declare osq_lock_cpu_relax.simps [simp del]

section \<open>Calibrating a measurement\<close>

datatype units = NS | INSTS | NOT_SET

text \<open>A timer: the readings that \<open>calibrate_blackhole\<close> makes, as in \<open>Calibrate\<close>.\<close>

type_synonym timer = "(nat \<Rightarrow> u64 \<times> u64) \<times> (nat \<Rightarrow> u64 \<Rightarrow> nat \<Rightarrow> nat \<Rightarrow> u64)"
type_synonym sorter = "(blackhole_measurement \<Rightarrow> blackhole_measurement \<Rightarrow> int) \<Rightarrow> blackhole_measurement list \<Rightarrow> blackhole_measurement list"

definition TOKENS_MAX_HIGH :: u64 where "TOKENS_MAX_HIGH = 1000000"

text \<open>One of the two delays; \<open>ticks d\<close> is \<open>(unsigned long)((double)d * tickspns)\<close>.\<close>

definition calibrate_delay :: "sorter \<Rightarrow> timer \<Rightarrow> (u64 \<Rightarrow> u64) \<Rightarrow> nat \<Rightarrow> units \<Rightarrow> u64 \<Rightarrow> u64 option" where
  "calibrate_delay qsort tm ticks NUMTRIES unit d =
     (if unit = NS then calibrate_blackhole qsort (fst tm) (snd tm) (ticks d) 0 TOKENS_MAX_HIGH NUMTRIES else Some (d div 2))"

record delay_args =
  hold :: u64
  post :: u64
  hold_unit :: units
  post_unit :: units
  hold_count :: u64
  post_count :: u64

definition calibrate_timer :: "sorter \<Rightarrow> timer \<Rightarrow> timer \<Rightarrow> (u64 \<Rightarrow> u64) \<Rightarrow> nat \<Rightarrow> delay_args \<Rightarrow> delay_args option" where
  "calibrate_timer qsort tm1 tm2 ticks NUMTRIES x =
     (case calibrate_delay qsort tm1 ticks NUMTRIES (hold_unit x) (hold x) of None \<Rightarrow> None
      | Some h \<Rightarrow> (case calibrate_delay qsort tm2 ticks NUMTRIES (post_unit x) (post x) of None \<Rightarrow> None
          | Some p \<Rightarrow> Some (x\<lparr>hold_count := h, post_count := p\<rparr>)))"

text \<open>The back-off; \<open>ticks u\<close> is \<open>tickspns * u * 1000\<close>. The result goes to \<open>sleep_blackhole\<close> of the thread's node.\<close>

definition osq_lock_compute_blackhole_interval :: "sorter \<Rightarrow> timer \<Rightarrow> (u64 \<Rightarrow> u64) \<Rightarrow> nat \<Rightarrow> osq_tables \<Rightarrow> nat \<Rightarrow> u64 option" where
  "osq_lock_compute_blackhole_interval qsort tm ticks numtries r thread_number = (let sleep_us = node_sleep_us r ! thread_number in
     if sleep_us \<noteq> 0 then calibrate_blackhole qsort (fst tm) (snd tm) (ticks sleep_us) 0 TOKENS_MAX_HIGH numtries else Some 0)"

section \<open>The loops make the asked number of passes\<close>

lemma blackhole_loop_passes: "temp \<noteq> 0 \<Longrightarrow> blackhole_loop temp = unat temp"
proof (induction temp rule: blackhole_loop.induct)
  case (1 temp)
  show ?case
  proof (cases "temp = 1")
    case True
    then show ?thesis by (simp add: blackhole_loop.simps [of 1])
  next
    case False
    then have n: "temp + (-1) \<noteq> 0" by simp
    have "blackhole_loop temp = Suc (unat (temp - 1))" using "1.IH" [OF refl n n] n by (subst blackhole_loop.simps) simp
    also have "\<dots> = unat temp" using unat_pred [OF "1.prems"] unat_gt_0 [of temp] "1.prems" by simp
    finally show ?thesis .
  qed
qed

lemma blackhole_passes: "blackhole iters = unat iters"
  by (simp add: blackhole_def blackhole_loop_passes)

lemma cpu_relax_passes: "osq_lock_cpu_relax relax = unat relax"
proof (induction relax rule: osq_lock_cpu_relax.induct)
  case (1 relax)
  then show ?case
    by (subst osq_lock_cpu_relax.simps) (auto simp: unat_pred unat_gt_0)
qed

section \<open>Steady timers\<close>

text \<open>A call with \<open>t\<close> tokens takes \<open>f t\<close> ticks, \<open>v\<close> of them for reading the timer.\<close>

definition steady_timer :: "(nat \<Rightarrow> nat) \<Rightarrow> nat \<Rightarrow> timer \<Rightarrow> bool" where
  "steady_timer f v tm \<longleftrightarrow> mono f \<and> v \<le> f 0 \<and> (\<forall>k t j i. t \<le> 1000000 \<longrightarrow> snd tm k (of_nat t) j i = of_nat (f t)) \<and>
     (\<forall>k. snd (fst tm k) - fst (fst tm k) = of_nat v)"

text \<open>The bounds under which the sums of the evaluation fit into 64 bits with sign.\<close>

definition tries_fit :: "(nat \<Rightarrow> nat) \<Rightarrow> nat \<Rightarrow> u64 \<Rightarrow> bool" where
  "tries_fit f n target \<longleftrightarrow> 0 < n \<and> n < 2 ^ 32 \<and> n * (n * f 1000000) < 2 ^ 62 \<and> n * unat target < 2 ^ 62"

text \<open>Calling \<open>blackhole\<close> with \<open>c\<close> tokens takes a time as close to the target as any number of tokens can get.\<close>

definition delay_closest :: "(nat \<Rightarrow> nat) \<Rightarrow> nat \<Rightarrow> u64 \<Rightarrow> u64 \<Rightarrow> bool" where
  "delay_closest f v target c \<longleftrightarrow> blackhole c \<le> 1000000 \<and>
     (\<forall>t\<le>1000000. \<bar>int (f (blackhole c)) - int v - int (unat target)\<bar> \<le> \<bar>int (f t) - int v - int (unat target)\<bar>)"

lemma calibrated_closest:
  assumes s: "steady_timer f v tm" and n: "tries_fit f n target" and q: "\<And>cmp xs. mset (qsort cmp xs) = mset xs"
  shows "\<exists>c. calibrate_blackhole qsort (fst tm) (snd tm) target 0 TOKENS_MAX_HIGH n = Some c \<and> delay_closest f v target c"
proof -
  have "\<exists>r. calibrate_blackhole qsort (fst tm) (snd tm) (of_nat (unat target)) (of_nat 0) (of_nat 1000000) n = Some (of_nat r) \<and> 0 \<le> r \<and> r \<le> 1000000 \<and>
    (\<forall>t. 0 \<le> t \<and> t \<le> 1000000 \<longrightarrow> \<bar>int (f r) - int v - int (unat target)\<bar> \<le> \<bar>int (f t) - int v - int (unat target)\<bar>)"
    by (rule calibrate_finds_closest) (use s n q in \<open>auto simp: steady_timer_def tries_fit_def\<close>)
  then obtain r where r: "calibrate_blackhole qsort (fst tm) (snd tm) target 0 TOKENS_MAX_HIGH n = Some (of_nat r)" "r \<le> 1000000"
    "\<forall>t\<le>1000000. \<bar>int (f r) - int v - int (unat target)\<bar> \<le> \<bar>int (f t) - int v - int (unat target)\<bar>"
    by (auto simp: TOKENS_MAX_HIGH_def)
  moreover have "blackhole (of_nat r) = r" using r(2) by (simp add: blackhole_passes unat_of_nat)
  ultimately show ?thesis by (auto simp: delay_closest_def)
qed

text \<open>What was asked for: a time, or a number of instructions, of which the loop has two per pass.\<close>

definition delay_right :: "(nat \<Rightarrow> nat) \<Rightarrow> nat \<Rightarrow> (u64 \<Rightarrow> u64) \<Rightarrow> units \<Rightarrow> u64 \<Rightarrow> u64 \<Rightarrow> bool" where
  "delay_right f v ticks unit d c \<longleftrightarrow> (if unit = NS then delay_closest f v (ticks d) c else 2 * blackhole c = unat d - unat d mod 2)"

lemma calibrated_delay:
  assumes "steady_timer f v tm" "unit = NS \<Longrightarrow> tries_fit f n (ticks d)" "\<And>cmp xs. mset (qsort cmp xs) = mset xs"
  shows "\<exists>c. calibrate_delay qsort tm ticks n unit d = Some c \<and> delay_right f v ticks unit d c"
proof (cases "unit = NS")
  case True
  then show ?thesis using calibrated_closest [of f v tm n "ticks d" qsort] assms by (simp add: calibrate_delay_def delay_right_def)
next
  case False
  then show ?thesis by (simp add: calibrate_delay_def delay_right_def blackhole_passes unat_div minus_mod_eq_mult_div)
qed

section \<open>Properties\<close>

text \<open>A delay after its calibration: for a time, the tokens of one of five results of the search, of their median if the measurements are below \<open>2 ^ 31\<close> ticks; for
  a number of instructions, the tokens that execute them, less one if the number is odd.\<close>

definition delay_found :: "timer \<Rightarrow> (u64 \<Rightarrow> u64) \<Rightarrow> nat \<Rightarrow> units \<Rightarrow> u64 \<Rightarrow> u64 \<Rightarrow> bool" where
  "delay_found tm ticks n unit d c \<longleftrightarrow> (if unit = NS
     then (\<exists>ms m. length ms = 5 \<and> m \<in> set ms \<and> bm_tokens m = c \<and>
       (\<forall>x\<in>set ms. search_result (\<lambda>k tokens. evaluate_blackhole (fst tm k) (snd tm k tokens) n) (of_nat n * ticks d) 0 1000000 x) \<and>
       ((\<forall>x\<in>set ms. unat (bm_ticks x) < 2 ^ 31) \<longrightarrow> median_of ms m))
     else 2 * blackhole c = unat d - unat d mod 2)"

lemma delay_returns:
  assumes "qsort_ok qsort"
  shows "\<exists>c. calibrate_delay qsort tm ticks n unit d = Some c \<and> delay_found tm ticks n unit d c"
proof (cases "unit = NS")
  case True
  have "(of_nat 1000000 :: u64) = TOKENS_MAX_HIGH" by (simp add: TOKENS_MAX_HIGH_def)
  then show ?thesis using calibrate_returns [of 1000000 0 qsort "fst tm" "snd tm" "ticks d" n, OF _ _ assms] True
    by (fastforce simp: calibrate_delay_def delay_found_def)
next
  case False
  then show ?thesis by (simp add: calibrate_delay_def delay_found_def blackhole_passes unat_div minus_mod_eq_mult_div)
qed

text \<open>C29: the calibration always returns, whatever the timer reads, also when the readings are not repeatable and when more tokens take less time: each of the five searches halves its
  interval until it ends with a number of tokens up to \<open>TOKENS_MAX_HIGH\<close> for which it measured the target exactly, or with the nearer of two neighbours of which the lower was measured
  below the target and the upper above it (or which are at the end of the range), and the median of the five is taken as long as they are below \<open>2 ^ 31\<close> ticks. A delay given in
  instructions executes exactly that number, rounded down to an even one. The target in ticks, which the code computes in double, is a parameter; \<open>qsort\<close> sorts.\<close>

theorem calibration_returns:
  assumes "qsort_ok qsort"
  shows "\<exists>y. calibrate_timer qsort tm1 tm2 ticks n x = Some y \<and> delay_found tm1 ticks n (hold_unit x) (hold x) (hold_count y) \<and>
    delay_found tm2 ticks n (post_unit x) (post x) (post_count y)"
proof -
  obtain h where h: "calibrate_delay qsort tm1 ticks n (hold_unit x) (hold x) = Some h" "delay_found tm1 ticks n (hold_unit x) (hold x) h"
    using delay_returns [OF assms] by blast
  obtain p where p: "calibrate_delay qsort tm2 ticks n (post_unit x) (post x) = Some p" "delay_found tm2 ticks n (post_unit x) (post x) p"
    using delay_returns [OF assms] by blast
  show ?thesis by (simp add: calibrate_timer_def h p)
qed

text \<open>Insertion sort with a comparison, for \<open>qsort\<close>.\<close>

fun insert_cmp :: "('a \<Rightarrow> 'a \<Rightarrow> int) \<Rightarrow> 'a \<Rightarrow> 'a list \<Rightarrow> 'a list" where
  "insert_cmp cmp x [] = [x]"
| "insert_cmp cmp x (y # ys) = (if cmp x y \<le> 0 then x # y # ys else y # insert_cmp cmp x ys)"

definition sort_cmp :: "('a \<Rightarrow> 'a \<Rightarrow> int) \<Rightarrow> 'a list \<Rightarrow> 'a list" where
  "sort_cmp cmp xs = foldr (insert_cmp cmp) xs []"

lemma cmp_ok_subset: "set ys \<subseteq> set xs \<Longrightarrow> cmp_ok cmp xs \<Longrightarrow> cmp_ok cmp ys"
  unfolding cmp_ok_def by (meson subsetD)

lemma insert_cmp_mset: "mset (insert_cmp cmp x ys) = add_mset x (mset ys)"
  by (induction ys) auto

lemma insert_cmp_sorted:
  "cmp_ok cmp (x # ys) \<Longrightarrow> sorted_wrt (\<lambda>a b. cmp a b \<le> 0) ys \<Longrightarrow> sorted_wrt (\<lambda>a b. cmp a b \<le> 0) (insert_cmp cmp x ys)"
proof (induction ys)
  case (Cons y ys)
  have ok: "cmp_ok cmp (x # ys)" by (rule cmp_ok_subset [OF _ Cons.prems(1)]) auto
  have set: "set (insert_cmp cmp x ys) = insert x (set ys)" by (metis insert_cmp_mset set_mset_add_mset_insert set_mset_mset)
  have tr: "cmp x z \<le> 0" if "z \<in> set ys" "cmp x y \<le> 0" "cmp y z \<le> 0" for z
    using Cons.prems(1) that unfolding cmp_ok_def by (metis list.set_intros(1,2))
  have tot: "cmp x y \<le> 0 \<or> cmp y x \<le> 0" using Cons.prems(1) unfolding cmp_ok_def by (metis list.set_intros(1,2))
  show ?case
  proof (cases "cmp x y \<le> 0")
    case True
    then show ?thesis using Cons.prems(2) tr by simp
  next
    case False
    then have "cmp y x \<le> 0" using tot by blast
    then show ?thesis using False Cons.IH [OF ok] Cons.prems(2) by (simp add: set)
  qed
qed simp

lemma sort_cmp_ok: "qsort_ok sort_cmp"
proof -
  have m: "mset (sort_cmp cmp xs) = mset xs" for cmp :: "'a \<Rightarrow> 'a \<Rightarrow> int" and xs
    by (induction xs) (simp_all add: sort_cmp_def insert_cmp_mset)
  moreover have "sorted_wrt (\<lambda>x y. cmp x y \<le> 0) (sort_cmp cmp xs)" if "cmp_ok cmp xs" for cmp :: "'a \<Rightarrow> 'a \<Rightarrow> int" and xs
    using that
  proof (induction xs)
    case (Cons x xs)
    have "set (sort_cmp cmp xs) = set xs" by (metis m set_mset_mset)
    then have "cmp_ok cmp (x # sort_cmp cmp xs)" "cmp_ok cmp xs" using cmp_ok_subset [OF _ Cons.prems] by auto
    then show ?case using Cons.IH insert_cmp_sorted by (simp add: sort_cmp_def)
  qed (simp add: sort_cmp_def)
  ultimately show ?thesis unfolding qsort_ok_def by blast
qed

text \<open>A timer on which every other evaluation is slow, so that more tokens seem to take less time.\<close>

definition noisy_timer :: timer where
  "noisy_timer = (\<lambda>_. (7, 11), \<lambda>k t _ _. if even k then 3 * t + 40 else 2 * t + 10)"

theorem calibration_returns_witness:
  "\<exists>y. calibrate_timer sort_cmp noisy_timer noisy_timer (\<lambda>d. 2 * d) 20 \<lparr>hold = 50, post = 301, hold_unit = NS, post_unit = INSTS, hold_count = 0, post_count = 0\<rparr> = Some y \<and>
     unat (hold_count y) \<le> 1000000 \<and> blackhole (post_count y) = 150"
proof -
  let ?x = "\<lparr>hold = 50, post = 301, hold_unit = NS, post_unit = INSTS, hold_count = 0, post_count = 0\<rparr>"
  obtain y where y: "calibrate_timer sort_cmp noisy_timer noisy_timer (\<lambda>d. 2 * d) 20 ?x = Some y"
    "delay_found noisy_timer (\<lambda>d. 2 * d) 20 NS 50 (hold_count y)" "delay_found noisy_timer (\<lambda>d. 2 * d) 20 INSTS 301 (post_count y)"
    using calibration_returns [OF sort_cmp_ok, of noisy_timer noisy_timer "\<lambda>d. 2 * d" 20 ?x] by auto
  from y(2) have "unat (hold_count y) \<le> 1000000" unfolding delay_found_def search_result_def by auto
  moreover from y(3) have "blackhole (post_count y) = 150" by (simp add: delay_found_def)
  ultimately show ?thesis using y(1) by blast
qed

text \<open>With a steady timer the delays of a measurement are what the options ask for: \<open>calibrate_timer\<close> returns, and afterwards the call of \<open>blackhole\<close> that is made while
  the lock is held, and the one after its release, take a time as close as possible to the given number of nanoseconds, or execute the given number
  of instructions rounded down to an even number; the latter also for numbers of tokens beyond the search range. The search compares with all numbers of tokens up to \<open>TOKENS_MAX_HIGH\<close>.\<close>

theorem delays_as_asked:
  assumes "steady_timer f v tm1" "steady_timer f v tm2" "\<And>cmp xs. mset (qsort cmp xs) = mset xs"
    and "hold_unit x = NS \<Longrightarrow> tries_fit f n (ticks (hold x))" "post_unit x = NS \<Longrightarrow> tries_fit f n (ticks (post x))"
  shows "\<exists>y. calibrate_timer qsort tm1 tm2 ticks n x = Some y \<and> delay_right f v ticks (hold_unit x) (hold x) (hold_count y) \<and>
    delay_right f v ticks (post_unit x) (post x) (post_count y)"
proof -
  obtain h where h: "calibrate_delay qsort tm1 ticks n (hold_unit x) (hold x) = Some h" "delay_right f v ticks (hold_unit x) (hold x) h"
    using calibrated_delay [of f v tm1 "hold_unit x" n ticks "hold x" qsort] assms by blast
  obtain p where p: "calibrate_delay qsort tm2 ticks n (post_unit x) (post x) = Some p" "delay_right f v ticks (post_unit x) (post x) p"
    using calibrated_delay [of f v tm2 "post_unit x" n ticks "post x" qsort] assms by blast
  show ?thesis by (simp add: calibrate_timer_def h p)
qed

text \<open>50 nanoseconds at two ticks each, and 301 instructions.\<close>

definition example_timer :: timer where
  "example_timer = (\<lambda>_. (7, 11), \<lambda>_ t _ _. 3 * t + 10)"

definition example_delays :: delay_args where
  "example_delays = \<lparr>hold = 50, post = 301, hold_unit = NS, post_unit = INSTS, hold_count = 0, post_count = 0\<rparr>"

lemma example_timer_steady: "steady_timer (\<lambda>t. 3 * t + 10) 4 example_timer"
  by (auto simp: steady_timer_def example_timer_def mono_def)

theorem delays_as_asked_witness:
  "\<exists>y. calibrate_timer (\<lambda>_ xs. xs) example_timer example_timer (\<lambda>d. 2 * d) 20 example_delays = Some y \<and> blackhole (hold_count y) = 31 \<and> blackhole (post_count y) = 150"
proof -
  obtain y where y: "calibrate_timer (\<lambda>_ xs. xs) example_timer example_timer (\<lambda>d. 2 * d) 20 example_delays = Some y"
    "delay_right (\<lambda>t. 3 * t + 10) 4 (\<lambda>d. 2 * d) NS 50 (hold_count y)" "delay_right (\<lambda>t. 3 * t + 10) 4 (\<lambda>d. 2 * d) INSTS 301 (post_count y)"
    using delays_as_asked [OF example_timer_steady example_timer_steady, of "\<lambda>_ xs. xs" example_delays 20 "\<lambda>d. 2 * d"]
    by (auto simp: example_delays_def tries_fit_def)
  have "\<bar>int (3 * blackhole (hold_count y) + 10) - 4 - 100\<bar> \<le> \<bar>int (3 * 31 + 10) - 4 - 100\<bar>"
    using y(2) [unfolded delay_right_def delay_closest_def, simplified, THEN conjunct2, rule_format, of 31] by simp
  then have "blackhole (hold_count y) = 31" by linarith
  moreover have "blackhole (post_count y) = 150" using y(3) by (simp add: delay_right_def)
  ultimately show ?thesis using y(1) by blast
qed

text \<open>The back-off of a thread of the optimistic spin queue: no delay for a back-off of 0, and otherwise the closest to its microseconds.\<close>

theorem osq_backoff_as_chosen:
  assumes "steady_timer f v tm" "tries_fit f n (ticks (node_sleep_us r ! i))" "\<And>cmp xs. mset (qsort cmp xs) = mset xs"
  shows "\<exists>c. osq_lock_compute_blackhole_interval qsort tm ticks n r i = Some c \<and>
    (if node_sleep_us r ! i = 0 then blackhole c = 0 else delay_closest f v (ticks (node_sleep_us r ! i)) c)"
  using calibrated_closest [OF assms] by (auto simp: osq_lock_compute_blackhole_interval_def blackhole_passes Let_def)

end
