(* ===== verification/Lock_Spec.thy ===== *)
theory Lock_Spec
  imports Lock_Prelude
begin

text \<open>
  The abstract lock: a cell that is free or has one owner. It can be acquired only while it is free and
  released only by its owner. A lock algorithm refines it when the acquisitions and releases of every run,
  in the order in which they happen, are a history of the abstract lock that leads to the same owner. Likewise for a
  reader-writer lock.
\<close>

datatype lock_event = Acquired tid | Released tid

fun lock_spec :: "lock_event list \<Rightarrow> tid option \<Rightarrow> tid option option" where
  "lock_spec [] h = Some h"
| "lock_spec (Acquired i # es) h = (if h = None then lock_spec es (Some i) else None)"
| "lock_spec (Released i # es) h = (if h = Some i then lock_spec es None else None)"

text \<open>What a step of an algorithm does to the lock; \<open>mover\<close> is the thread a label stands for.\<close>

definition lock_events :: "('s \<Rightarrow> tid \<Rightarrow> bool) \<Rightarrow> ('l \<Rightarrow> 's \<Rightarrow> 's) \<Rightarrow> ('l \<Rightarrow> tid) \<Rightarrow> 'l \<Rightarrow> 's \<Rightarrow> lock_event list" where
  "lock_events holds step mover l s = (let i = mover l in
     if holds (step l s) i = holds s i then [] else if holds s i then [Released i] else [Acquired i])"

definition lock_history :: "('s \<Rightarrow> tid \<Rightarrow> bool) \<Rightarrow> ('l \<Rightarrow> 's \<Rightarrow> 's) \<Rightarrow> ('l \<Rightarrow> tid) \<Rightarrow> 'l list \<Rightarrow> 's \<Rightarrow> lock_event list" where
  "lock_history holds step mover = observe (lock_events holds step mover) step"

definition refines_lock :: "('s \<Rightarrow> tid \<Rightarrow> bool) \<Rightarrow> ('l \<Rightarrow> 's \<Rightarrow> 's) \<Rightarrow> ('l \<Rightarrow> tid) \<Rightarrow> 's \<Rightarrow> bool" where
  "refines_lock holds step mover s \<longleftrightarrow>
     (\<forall>ls. \<exists>h. lock_spec (lock_history holds step mover ls s) None = Some h \<and> (\<forall>i. holds (run step ls s) i \<longleftrightarrow> h = Some i))"

text \<open>A mutual exclusion algorithm in which only the thread that moves takes or gives up the lock.\<close>

locale lock_system = mutex_system init step inv holds
  for init :: "'s \<Rightarrow> bool" and step :: "'l \<Rightarrow> 's \<Rightarrow> 's" and inv :: "'s \<Rightarrow> bool" and holds :: "'s \<Rightarrow> tid \<Rightarrow> bool" +
  fixes mover :: "'l \<Rightarrow> tid"
  assumes holds_other: "inv s \<Longrightarrow> j \<noteq> mover l \<Longrightarrow> holds (step l s) j = holds s j"
    and init_free: "init s \<Longrightarrow> \<not> holds s i"
begin

lemma spec_step:
  assumes inv: "inv s" and h: "\<forall>i. holds s i \<longleftrightarrow> h = Some i"
  shows "\<exists>h'. (\<forall>i. holds (step l s) i \<longleftrightarrow> h' = Some i) \<and>
    (\<forall>es. lock_spec (lock_events holds step mover l s @ es) h = lock_spec es h')"
proof -
  let ?i = "mover l"
  have o: "holds (step l s) j \<longleftrightarrow> h = Some j" if "j \<noteq> ?i" for j using holds_other [OF inv that] h by simp
  show ?thesis
  proof (cases "holds (step l s) ?i = holds s ?i")
    case True
    then show ?thesis using h o by (intro exI [of _ h]) (simp add: lock_events_def Let_def, metis)
  next
    case False
    show ?thesis
    proof (cases "holds s ?i")
      case True
      then have hi: "h = Some ?i" using h by simp
      have "\<not> holds (step l s) j" for j using True False o [of j] hi by (cases "j = ?i") auto
      then show ?thesis using True False hi by (intro exI [of _ None]) (simp add: lock_events_def Let_def)
    next
      case free: False
      with False have t: "holds (step l s) ?i" by simp
      have u: "holds (step l s) j \<longleftrightarrow> ?i = j" for j using holds_excl [OF inv_step [OF inv] t] t by blast
      have "h = None"
      proof (rule ccontr)
        assume "h \<noteq> None"
        then obtain j where j: "h = Some j" by blast
        with free h have "j \<noteq> ?i" by auto
        with o [OF this] u [of j] j show False by simp
      qed
      then show ?thesis using free t u by (intro exI [of _ "Some ?i"]) (simp add: lock_events_def Let_def)
    qed
  qed
qed

lemma spec_run:
  "inv s \<Longrightarrow> \<forall>i. holds s i \<longleftrightarrow> h = Some i \<Longrightarrow>
   \<exists>h'. lock_spec (lock_history holds step mover ls s) h = Some h' \<and> (\<forall>i. holds (run step ls s) i \<longleftrightarrow> h' = Some i)"
proof (induction ls arbitrary: s h)
  case Nil
  then show ?case by (simp add: lock_history_def)
next
  case (Cons l ls)
  from spec_step [OF Cons.prems, of l] obtain k where
    k: "\<forall>i. holds (step l s) i \<longleftrightarrow> k = Some i"
    "\<And>es. lock_spec (lock_events holds step mover l s @ es) h = lock_spec es k" by blast
  from Cons.IH [OF inv_step [OF Cons.prems(1)] k(1)] show ?case by (simp add: lock_history_def k(2))
qed

lemma refines: "init s \<Longrightarrow> refines_lock holds step mover s"
  unfolding refines_lock_def using spec_run [OF inv_init, of s None] init_free by simp

end

section \<open>Reader-writer locks\<close>

text \<open>
  The abstract reader-writer lock: one writer or a set of readers. A thread begins to read only while nobody writes, and to write only while nobody reads or writes.
\<close>

datatype rw_event = Reads tid | Reads_end tid | Writes tid | Writes_end tid

fun rw_spec :: "rw_event list \<Rightarrow> tid option \<times> tid set \<Rightarrow> (tid option \<times> tid set) option" where
  "rw_spec [] h = Some h"
| "rw_spec (Reads i # es) (w, R) = (if w = None \<and> i \<notin> R then rw_spec es (None, insert i R) else None)"
| "rw_spec (Reads_end i # es) (w, R) = (if i \<in> R then rw_spec es (w, R - {i}) else None)"
| "rw_spec (Writes i # es) (w, R) = (if w = None \<and> R = {} then rw_spec es (Some i, {}) else None)"
| "rw_spec (Writes_end i # es) (w, R) = (if w = Some i then rw_spec es (None, R) else None)"

text \<open>What a step does: it may end the reading or writing of the thread that moves, and then begin another.\<close>

definition rw_events :: "('s \<Rightarrow> tid \<Rightarrow> bool) \<Rightarrow> ('s \<Rightarrow> tid \<Rightarrow> bool) \<Rightarrow> ('l \<Rightarrow> 's \<Rightarrow> 's) \<Rightarrow> ('l \<Rightarrow> tid) \<Rightarrow> 'l \<Rightarrow> 's \<Rightarrow> rw_event list" where
  "rw_events reads writes step mover l s = (let i = mover l; s' = step l s in
     (if reads s i \<and> \<not> reads s' i then [Reads_end i] else []) @ (if writes s i \<and> \<not> writes s' i then [Writes_end i] else []) @
     (if \<not> reads s i \<and> reads s' i then [Reads i] else []) @ (if \<not> writes s i \<and> writes s' i then [Writes i] else []))"

definition rw_history :: "('s \<Rightarrow> tid \<Rightarrow> bool) \<Rightarrow> ('s \<Rightarrow> tid \<Rightarrow> bool) \<Rightarrow> ('l \<Rightarrow> 's \<Rightarrow> 's) \<Rightarrow> ('l \<Rightarrow> tid) \<Rightarrow> 'l list \<Rightarrow> 's \<Rightarrow> rw_event list" where
  "rw_history reads writes step mover = observe (rw_events reads writes step mover) step"

definition rw_abs :: "('s \<Rightarrow> tid \<Rightarrow> bool) \<Rightarrow> ('s \<Rightarrow> tid \<Rightarrow> bool) \<Rightarrow> 's \<Rightarrow> tid option \<times> tid set \<Rightarrow> bool" where
  "rw_abs reads writes s h \<longleftrightarrow> (\<forall>i. writes s i \<longleftrightarrow> fst h = Some i) \<and> (\<forall>i. reads s i \<longleftrightarrow> i \<in> snd h)"

definition refines_rw :: "('s \<Rightarrow> tid \<Rightarrow> bool) \<Rightarrow> ('s \<Rightarrow> tid \<Rightarrow> bool) \<Rightarrow> ('l \<Rightarrow> 's \<Rightarrow> 's) \<Rightarrow> ('l \<Rightarrow> tid) \<Rightarrow> 's \<Rightarrow> bool" where
  "refines_rw reads writes step mover s \<longleftrightarrow>
     (\<forall>ls. \<exists>h. rw_spec (rw_history reads writes step mover ls s) (None, {}) = Some h \<and> rw_abs reads writes (run step ls s) h)"

locale rw_system = invariant_system init step inv
  for init :: "'s \<Rightarrow> bool" and step :: "'l \<Rightarrow> 's \<Rightarrow> 's" and inv :: "'s \<Rightarrow> bool" +
  fixes reads writes :: "'s \<Rightarrow> tid \<Rightarrow> bool" and mover :: "'l \<Rightarrow> tid"
  assumes one_writer: "inv s \<Longrightarrow> writes s i \<Longrightarrow> writes s j \<Longrightarrow> i = j"
    and writer_alone: "inv s \<Longrightarrow> writes s i \<Longrightarrow> \<not> reads s j"
    and rw_other: "inv s \<Longrightarrow> j \<noteq> mover l \<Longrightarrow> reads (step l s) j = reads s j \<and> writes (step l s) j = writes s j"
    and rw_init: "init s \<Longrightarrow> \<not> reads s i \<and> \<not> writes s i"
begin

text \<open>The state the specification is in when it is left with what the thread that moves has given up.\<close>

lemma rw_given_up:
  assumes inv: "inv s" and h: "rw_abs reads writes s (w, R)" and i: "i = mover l"
  defines "w' \<equiv> if writes s i \<and> \<not> writes (step l s) i then None else w"
    and "R' \<equiv> if reads s i \<and> \<not> reads (step l s) i then R - {i} else R"
  shows "writes (step l s) j \<longleftrightarrow> w' = Some j \<or> j = i \<and> writes (step l s) i" "reads (step l s) j \<longleftrightarrow> j \<in> R' \<or> j = i \<and> reads (step l s) i"
    "\<not> writes s i \<Longrightarrow> w' \<noteq> Some i" "\<not> reads s i \<Longrightarrow> i \<notin> R'"
  using rw_other [OF inv, of j l] h i one_writer [OF inv, of i j] by (cases "j = i"; auto simp: rw_abs_def w'_def R'_def)+

lemma rw_spec_step:
  assumes inv: "inv s" and h: "rw_abs reads writes s h"
  shows "\<exists>h'. rw_abs reads writes (step l s) h' \<and> (\<forall>es. rw_spec (rw_events reads writes step mover l s @ es) h = rw_spec es h')"
proof -
  obtain w R where wR: "h = (w, R)" by (cases h)
  define i s' where "i = mover l" and "s' = step l s"
  define w' where "w' = (if writes s i \<and> \<not> writes s' i then None else w)"
  define R' where "R' = (if reads s i \<and> \<not> reads s' i then R - {i} else R)"
  note g = rw_given_up [OF inv h [unfolded wR] i_def, folded s'_def, folded w'_def R'_def]
  have inv': "inv s'" unfolding s'_def by (rule inv_step [OF inv])
  have own: "writes s i \<longleftrightarrow> w = Some i" "reads s i \<longleftrightarrow> i \<in> R" using h wR by (auto simp: rw_abs_def)
  define h' where "h' = (if \<not> writes s i \<and> writes s' i then (Some i, {}) else if \<not> reads s i \<and> reads s' i then (None, insert i R') else (w', R'))"
  have w: "w' = None" if "\<not> writes s i \<or> \<not> writes s' i" "writes s' i \<or> reads s' i"
  proof (rule ccontr)
    assume "w' \<noteq> None"
    then obtain j where j: "w' = Some j" by blast
    then have "writes s' j" using g(1) [of j] by simp
    then show False using that j g(1) [of i] g(3) one_writer [OF inv', of i j] writer_alone [OF inv', of j i] by (auto simp: w'_def own split: if_splits)
  qed
  have R: "R' = {}" if "writes s' i" using that writer_alone [OF inv', of i] g(2) by blast
  have "rw_spec (rw_events reads writes step mover l s @ es) h = rw_spec es h'" for es
  proof -
    have "rw_spec (rw_events reads writes step mover l s @ es) h =
        rw_spec ((if \<not> reads s i \<and> reads s' i then [Reads i] else []) @ (if \<not> writes s i \<and> writes s' i then [Writes i] else []) @ es) (w', R')"
      unfolding wR rw_events_def Let_def i_def [symmetric] s'_def [symmetric] using own by (simp add: w'_def R'_def)
    also have "\<dots> = rw_spec es h'"
    proof (cases "writes s' i")
      case True
      then have "\<not> reads s' i" using writer_alone [OF inv'] by blast
      then show ?thesis using True w R by (simp add: h'_def)
    next
      case False
      then show ?thesis using w g(4) by (simp add: h'_def)
    qed
    finally show ?thesis .
  qed
  moreover have "rw_abs reads writes s' h'"
  proof (cases "writes s' i")
    case True
    then have "writes s' j \<longleftrightarrow> j = i" "\<not> reads s' j" for j using one_writer [OF inv'] writer_alone [OF inv'] by blast+
    then show ?thesis using True R g(1) [of i] w own by (auto simp: rw_abs_def h'_def w'_def)
  next
    case False
    then have W: "writes s' j \<longleftrightarrow> w' = Some j" for j using g(1) [of j] by blast
    show ?thesis
    proof (cases "\<not> reads s i \<and> reads s' i")
      case True
      then have "w' = None" using w False by blast
      moreover have "reads s' j \<longleftrightarrow> j \<in> insert i R'" for j using g(2) [of j] True by blast
      ultimately show ?thesis using True False W by (simp add: rw_abs_def h'_def)
    next
      case new: False
      have "reads s' j \<longleftrightarrow> j \<in> R'" for j using g(2) [of j] new own by (auto simp: R'_def)
      moreover have "h' = (w', R')" unfolding h'_def using new False by auto
      ultimately show ?thesis using W by (simp add: rw_abs_def)
    qed
  qed
  ultimately show ?thesis unfolding s'_def by blast
qed

lemma rw_spec_run:
  "inv s \<Longrightarrow> rw_abs reads writes s h \<Longrightarrow>
   \<exists>h'. rw_spec (rw_history reads writes step mover ls s) h = Some h' \<and> rw_abs reads writes (run step ls s) h'"
proof (induction ls arbitrary: s h)
  case Nil
  then show ?case by (simp add: rw_history_def)
next
  case (Cons l ls)
  from rw_spec_step [OF Cons.prems, of l] obtain k where
    k: "rw_abs reads writes (step l s) k" "\<And>es. rw_spec (rw_events reads writes step mover l s @ es) h = rw_spec es k" by blast
  from Cons.IH [OF inv_step [OF Cons.prems(1)] k(1)] show ?case by (simp add: rw_history_def k(2))
qed

lemma refines_reader_writer: "init s \<Longrightarrow> refines_rw reads writes step mover s"
  unfolding refines_rw_def using rw_spec_run [OF inv_init, of s "(None, {})"] rw_init by (simp add: rw_abs_def)

end

end
