(* ===== verification/Ticket_Lock.thy ===== *)
theory Ticket_Lock
  imports Lock_Prelude
begin

text \<open>
  The ticket spinlock of \<open>ext/linux/ticket_spinlock.h\<close>. The low 32 bits of the lock word hold
  the ticket being served (low half) and the next ticket to hand out (high half). All three
  builds are modelled: x86-64, AArch64 with LSE atomics and AArch64 with load/store exclusive.
  A label is the thread that moves; a step is one access to the lock word.
\<close>

section \<open>The code\<close>

text \<open>
  Where a thread stands: outside, spinning with the lock word \<open>tmp\<close> it fetched, in the critical
  section with the depth \<open>lock_acquire\<close> returned, or between the load and the store of a
  release that is not one atomic instruction.
\<close>

datatype ticket_pc = TkIdle | TkSpin u32 | TkCS u64 | TkRel u16

record ticket_state =
  tk_lock :: u32
  tk_pc :: "tid \<Rightarrow> ticket_pc"

text \<open>The addend of \<open>lock xadd\<close>, \<open>ldadda\<close> or the exclusive pair, and that of the release.\<close>

definition ticket_acquire_inc :: "arch \<Rightarrow> u32" where
  "ticket_acquire_inc a = (case a of X86_64 \<Rightarrow> 0x20000 | AArch64_LSE \<Rightarrow> 0x10000 | AArch64_LLSC \<Rightarrow> 0x10000)"

definition ticket_release_inc :: "arch \<Rightarrow> u16" where
  "ticket_release_inc a = (case a of X86_64 \<Rightarrow> 2 | AArch64_LSE \<Rightarrow> 1 | AArch64_LLSC \<Rightarrow> 1)"

text \<open>
  The fast path: \<open>cmp %ax,%dx\<close> after \<open>shr $16,%edx\<close>, or \<open>eor tmp2,tmp,tmp ror #16; cbz\<close>.
\<close>

definition ticket_fast_path :: "arch \<Rightarrow> u32 \<Rightarrow> bool" where
  "ticket_fast_path a tmp = (case a of
     X86_64 \<Rightarrow> (ucast tmp :: u16) = ucast (drop_bit 16 tmp)
   | _ \<Rightarrow> tmp XOR word_rotr 16 tmp = 0)"

text \<open>The spin test: the served half read again against the ticket in the high half of \<open>tmp\<close>.\<close>

definition ticket_my_turn :: "arch \<Rightarrow> u32 \<Rightarrow> u16 \<Rightarrow> bool" where
  "ticket_my_turn a tmp served = (case a of
     X86_64 \<Rightarrow> served = ucast (drop_bit 16 tmp)
   | _ \<Rightarrow> (ucast served :: u32) XOR drop_bit 16 tmp = 0)"

text \<open>The returned depth; on AArch64 the fast path jumps over its computation with 0.\<close>

definition ticket_depth_ret :: "arch \<Rightarrow> u32 \<Rightarrow> u64" where
  "ticket_depth_ret a tmp = (case a of
     X86_64 \<Rightarrow> (let depth = ucast tmp :: u64
       in drop_bit 2 ((drop_bit 16 depth - (depth AND 0xFFFF)) AND 0xFFFF))
   | _ \<Rightarrow> (if ticket_fast_path a tmp then 0
           else ucast ((drop_bit 16 tmp - (tmp AND 0xFFFF)) AND 0xFFFF)))"

definition ticket_lock_acquire :: "arch \<Rightarrow> tid \<Rightarrow> ticket_state \<Rightarrow> ticket_state" where
  "ticket_lock_acquire a i s =
     (let tmp = tk_lock s in
      s\<lparr>tk_lock := tmp + ticket_acquire_inc a,
        tk_pc := (tk_pc s)(i := if ticket_fast_path a tmp then TkCS (ticket_depth_ret a tmp)
                                else TkSpin tmp)\<rparr>)"

definition ticket_spin :: "arch \<Rightarrow> tid \<Rightarrow> u32 \<Rightarrow> ticket_state \<Rightarrow> ticket_state" where
  "ticket_spin a i tmp s =
     (if ticket_my_turn a tmp (lo16 (tk_lock s))
      then s\<lparr>tk_pc := (tk_pc s)(i := TkCS (ticket_depth_ret a tmp))\<rparr> else s)"

text \<open>
  \<open>lock_release\<close>: \<open>staddlh\<close> adds to the half word in one access; \<open>addw\<close> (no \<open>lock\<close> prefix)
  and \<open>ldrh\<close>, \<open>add\<close>, \<open>stlrh\<close> load it first and store it in a second access.
\<close>

definition ticket_lock_release :: "arch \<Rightarrow> tid \<Rightarrow> ticket_state \<Rightarrow> ticket_state" where
  "ticket_lock_release a i s = (case a of
     AArch64_LSE \<Rightarrow>
       s\<lparr>tk_lock := mk32 (hi16 (tk_lock s)) (lo16 (tk_lock s) + ticket_release_inc a),
         tk_pc := (tk_pc s)(i := TkIdle)\<rparr>
   | _ \<Rightarrow> s\<lparr>tk_pc := (tk_pc s)(i := TkRel (lo16 (tk_lock s)))\<rparr>)"

definition ticket_release_store :: "arch \<Rightarrow> tid \<Rightarrow> u16 \<Rightarrow> ticket_state \<Rightarrow> ticket_state" where
  "ticket_release_store a i tmp s =
     s\<lparr>tk_lock := mk32 (hi16 (tk_lock s)) (tmp + ticket_release_inc a),
       tk_pc := (tk_pc s)(i := TkIdle)\<rparr>"

definition ticket_step :: "arch \<Rightarrow> nat \<Rightarrow> tid \<Rightarrow> ticket_state \<Rightarrow> ticket_state" where
  "ticket_step a N i s = (if i < N then (case tk_pc s i of
       TkIdle \<Rightarrow> ticket_lock_acquire a i s
     | TkSpin tmp \<Rightarrow> ticket_spin a i tmp s
     | TkCS d \<Rightarrow> ticket_lock_release a i s
     | TkRel tmp \<Rightarrow> ticket_release_store a i tmp s) else s)"

definition ticket_start :: ticket_state where
  "ticket_start = \<lparr>tk_lock = 0, tk_pc = (\<lambda>_. TkIdle)\<rparr>"

section \<open>The two halves\<close>

text \<open>Tickets are handed out in steps of \<open>stride\<close>.\<close>

definition stride :: "arch \<Rightarrow> nat" where
  "stride a = (case a of X86_64 \<Rightarrow> 2 | _ \<Rightarrow> 1)"

lemma acquire_inc_stride: "ticket_acquire_inc a = mk32 (of_nat (stride a)) 0"
  by (cases a) (simp_all add: ticket_acquire_inc_def stride_def numeral_mk32_hi)

lemma release_inc_stride: "ticket_release_inc a = of_nat (stride a)"
  by (cases a) (simp_all add: ticket_release_inc_def stride_def)

lemma stride_pos [simp]: "0 < stride a" "stride a \<noteq> 0"
  by (cases a; simp add: stride_def)+

lemma xor_eq_0_iff: "v XOR w = 0 \<longleftrightarrow> v = (w :: 'a::len word)"
  by (auto simp: bit_eq_iff bit_simps)

lemma rotr_halves: "word_rotr 16 w = mk32 (lo16 w) (hi16 w)"
proof (rule bit_word_eqI)
  fix n assume "n < LENGTH(32)"
  then show "bit (word_rotr 16 w) n = bit (mk32 (lo16 w) (hi16 w)) n"
    unfolding mk32_def lo16_def hi16_def
    by (cases "n < 16") (auto simp: bit_simps le_mod_geq add.commute)
qed

text \<open>The bit tricks of both instruction sets decide the same thing.\<close>

lemma fast_path_iff: "ticket_fast_path a tmp \<longleftrightarrow> hi16 tmp = lo16 tmp"
  by (cases a)
    (auto simp: ticket_fast_path_def xor_eq_0_iff rotr_halves word32_eq_iff [of tmp],
     auto simp: hi16_def lo16_def)

lemma my_turn_iff: "ticket_my_turn a tmp h \<longleftrightarrow> hi16 tmp = h"
  by (cases a)
    (auto simp: ticket_my_turn_def xor_eq_0_iff drop_bit_16_hi16 lo16_def [symmetric])

text \<open>The 16-bit distance between the halves, at both widths it is computed in.\<close>

lemma depth_a64: "(drop_bit 16 tmp - (tmp AND 0xFFFF)) AND 0xFFFF = (ucast (hi16 tmp - lo16 tmp) :: u32)"
  by (simp add: drop_bit_16_hi16 and_mask_16_lo16) (simp add: lo16_def ucast_diff_down ucast_ucast_up)

lemma depth_x86:
  "((drop_bit 16 (ucast tmp :: u64) - (ucast tmp AND 0xFFFF)) AND 0xFFFF) = (ucast (hi16 tmp - lo16 tmp) :: u64)"
proof -
  have "(ucast (drop_bit 16 (ucast tmp :: u64)) :: u16) = hi16 tmp"
    unfolding hi16_def by (rule bit_word_eqI) (auto simp: bit_simps)
  moreover have "(ucast (ucast tmp :: u64) :: u16) = lo16 tmp"
    unfolding lo16_def by (rule bit_word_eqI) (auto simp: bit_simps)
  ultimately show ?thesis by (simp add: and_mask_16_ucast ucast_diff_down ucast_ucast_up)
qed

lemma depth_ret_unat:
  "unat (ticket_depth_ret a tmp) =
     (if a = X86_64 then unat (hi16 tmp - lo16 tmp) div 4
      else if ticket_fast_path a tmp then 0 else unat (hi16 tmp - lo16 tmp))"
proof (cases a)
  case X86_64
  have "ticket_depth_ret X86_64 tmp = drop_bit 2 (ucast (hi16 tmp - lo16 tmp))"
    unfolding ticket_depth_ret_def Let_def arch.case depth_x86 ..
  with X86_64 show ?thesis by (simp add: unat_ucast_up drop_bit_eq_div unat_div)
qed (simp_all add: ticket_depth_ret_def depth_a64 unat_ucast_up)

section \<open>The queue behind the tickets\<close>

text \<open>
  \<open>ticket_queue a N s q\<close>: the threads that took a ticket and have not released the lock,
  oldest first, are exactly \<open>q\<close>; the \<open>k\<close>-th of them holds the ticket \<open>k\<close> strides past the one
  being served, and only the first may have left the spin loop. Tickets are 16-bit numbers,
  so the number of threads is bounded by \<open>2 ^ 16\<close> divided by the stride.
\<close>

fun ticket_place :: "arch \<Rightarrow> u16 \<Rightarrow> nat \<Rightarrow> ticket_pc \<Rightarrow> bool" where
  "ticket_place a serving k TkIdle = False"
| "ticket_place a serving k (TkSpin tmp) = (hi16 tmp = serving + of_nat (stride a * k))"
| "ticket_place a serving k (TkCS d) = (k = 0)"
| "ticket_place a serving k (TkRel tmp) = (k = 0 \<and> tmp = serving)"

definition ticket_queue :: "arch \<Rightarrow> nat \<Rightarrow> ticket_state \<Rightarrow> tid list \<Rightarrow> bool" where
  "ticket_queue a N s q \<longleftrightarrow>
     N * stride a \<le> 65536 \<and> distinct q \<and> set q = {i. tk_pc s i \<noteq> TkIdle} \<and> set q \<subseteq> {..<N} \<and>
     hi16 (tk_lock s) = lo16 (tk_lock s) + of_nat (stride a * length q) \<and>
     (\<forall>k<length q. ticket_place a (lo16 (tk_lock s)) k (tk_pc s (q ! k)))"

definition ticket_inv :: "arch \<Rightarrow> nat \<Rightarrow> ticket_state \<Rightarrow> bool" where
  "ticket_inv a N s \<longleftrightarrow> (\<exists>q. ticket_queue a N s q)"

definition ticket_init :: "arch \<Rightarrow> nat \<Rightarrow> ticket_state \<Rightarrow> bool" where
  "ticket_init a N s \<longleftrightarrow> N * stride a \<le> 65536 \<and> s = ticket_start"

definition ticket_holds :: "ticket_state \<Rightarrow> tid \<Rightarrow> bool" where
  "ticket_holds s i = (case tk_pc s i of TkCS _ \<Rightarrow> True | TkRel _ \<Rightarrow> True | _ \<Rightarrow> False)"

lemma stride_bound: "N * stride a \<le> 65536 \<Longrightarrow> k < N \<Longrightarrow> stride a * k < 65536"
proof -
  assume b: "N * stride a \<le> 65536" and "k < N"
  then have "stride a * k < stride a * N" by simp
  also have "\<dots> \<le> 65536" using b by (simp add: mult.commute)
  finally show ?thesis .
qed

lemma of_nat_stride_inj:
  "N * stride a \<le> 65536 \<Longrightarrow> k < N \<Longrightarrow> (of_nat (stride a * k) :: u16) = 0 \<longleftrightarrow> k = 0"
  using stride_bound [of N a k] by (simp add: word_unat_eq_iff unat_of_nat del: of_nat_mult)

lemma queue_length_le: "ticket_queue a N s q \<Longrightarrow> length q \<le> N"
  unfolding ticket_queue_def
  by (metis card_lessThan card_mono distinct_card finite_lessThan)

lemma queue_length_less: "ticket_queue a N s q \<Longrightarrow> i < N \<Longrightarrow> i \<notin> set q \<Longrightarrow> length q < N"
proof -
  assume q: "ticket_queue a N s q" and i: "i < N" "i \<notin> set q"
  then have "set q \<subset> {..<N}" by (auto simp: ticket_queue_def)
  then have "card (set q) < card {..<N}" by (intro psubset_card_mono) auto
  moreover have "card (set q) = length q" using q by (intro distinct_card) (simp add: ticket_queue_def)
  ultimately show ?thesis by simp
qed

lemma queue_index:
  assumes "ticket_queue a N s q" "tk_pc s i \<noteq> TkIdle"
  obtains k where "k < length q" "q ! k = i"
proof -
  from assms have "i \<in> set q" by (simp add: ticket_queue_def)
  with that show thesis by (auto simp: in_set_conv_nth)
qed

text \<open>The fast path is taken exactly when no one is queued.\<close>

lemma queue_fast_path:
  assumes "ticket_queue a N s q" "i < N" "tk_pc s i = TkIdle"
  shows "ticket_fast_path a (tk_lock s) \<longleftrightarrow> q = []"
proof -
  from assms have "length q < N" by (intro queue_length_less) (auto simp: ticket_queue_def)
  with assms(1) show ?thesis
    using of_nat_stride_inj [of N a "length q"]
    by (simp add: ticket_queue_def fast_path_iff)
qed

lemma queue_acquire:
  assumes q: "ticket_queue a N s q" and i: "i < N" "tk_pc s i = TkIdle"
  shows "ticket_queue a N (ticket_lock_acquire a i s) (q @ [i])"
proof -
  have fresh: "i \<notin> set q" using q i by (auto simp: ticket_queue_def)
  have "\<forall>k<length q. q ! k \<noteq> i" using fresh by (metis nth_mem)
  then show ?thesis
    using q i fresh queue_fast_path [OF q i]
    by (auto simp: ticket_queue_def ticket_lock_acquire_def Let_def acquire_inc_stride
        nth_append less_Suc_eq algebra_simps)
qed

text \<open>A thread past the spin loop is the first of the queue.\<close>

lemma queue_holder:
  assumes "ticket_queue a N s q" "ticket_holds s i"
  obtains q' where "q = i # q'"
proof -
  from assms(2) have "tk_pc s i \<noteq> TkIdle" by (auto simp: ticket_holds_def)
  with assms(1) obtain k where k: "k < length q" "q ! k = i" by (rule queue_index)
  with assms have "k = 0"
    by (auto simp: ticket_queue_def ticket_holds_def split: ticket_pc.splits)
  with k that show thesis by (cases q) auto
qed

lemma queue_my_turn:
  assumes q: "ticket_queue a N s q" and i: "tk_pc s i = TkSpin tmp"
  shows "ticket_my_turn a tmp (lo16 (tk_lock s)) \<longleftrightarrow> q \<noteq> [] \<and> hd q = i"
proof -
  from q obtain k where k: "k < length q" "q ! k = i" using i by (elim queue_index) auto
  have t: "hi16 tmp = lo16 (tk_lock s) + of_nat (stride a * k)"
    using q k i by (auto simp: ticket_queue_def)
  have "k < N" using k(1) queue_length_le [OF q] by simp
  then have "hi16 tmp = lo16 (tk_lock s) \<longleftrightarrow> k = 0"
    using q of_nat_stride_inj [of N a k] unfolding t by (simp add: ticket_queue_def)
  moreover have "k = 0 \<longleftrightarrow> q \<noteq> [] \<and> hd q = i"
    using k q by (auto simp: hd_conv_nth ticket_queue_def nth_eq_iff_index_eq)
  ultimately show ?thesis by (simp add: my_turn_iff)
qed

lemma queue_spin:
  assumes q: "ticket_queue a N s q" and i: "tk_pc s i = TkSpin tmp"
  shows "ticket_queue a N (ticket_spin a i tmp s) q"
proof (cases "ticket_my_turn a tmp (lo16 (tk_lock s))")
  case True
  with queue_my_turn [OF q i] obtain q' where q': "q = i # q'" by (cases q) auto
  with q have "\<forall>k<length q. q ! k = i \<longrightarrow> k = 0"
    by (auto simp: ticket_queue_def nth_eq_iff_index_eq nth_Cons split: nat.splits)
  with True q i show ?thesis
    by (auto simp: ticket_queue_def ticket_spin_def)
next
  case False
  with q show ?thesis by (simp add: ticket_spin_def)
qed

lemma queue_dequeue:
  assumes q: "ticket_queue a N s (i # q)" and l: "tk_lock s' = mk32 (hi16 (tk_lock s)) (lo16 (tk_lock s) + of_nat (stride a))"
    and p: "tk_pc s' = (tk_pc s)(i := TkIdle)"
  shows "ticket_queue a N s' q"
proof -
  have place: "ticket_place a (lo16 (tk_lock s)) (Suc k) (tk_pc s (q ! k))" "q ! k \<noteq> i" if "k < length q" for k
    using q that by (auto simp: ticket_queue_def dest: nth_mem)
  have shift: "ticket_place a (l + of_nat (stride a)) k pc" if "ticket_place a l (Suc k) pc" for l k pc
    using that by (cases pc) (auto simp: algebra_simps)
  show ?thesis
    using q place shift by (auto simp: ticket_queue_def l p algebra_simps)
qed

lemma queue_release:
  assumes q: "ticket_queue a N s q" and i: "tk_pc s i = TkCS d"
  shows "ticket_queue a N (ticket_lock_release a i s) (if a = AArch64_LSE then tl q else q)"
    and "q = i # tl q"
proof -
  from i have "ticket_holds s i" by (simp add: ticket_holds_def)
  with q obtain q' where q': "q = i # q'" by (rule queue_holder)
  then show "q = i # tl q" by simp
  show "ticket_queue a N (ticket_lock_release a i s) (if a = AArch64_LSE then tl q else q)"
  proof (cases "a = AArch64_LSE")
    case True
    have "ticket_queue a N (ticket_lock_release a i s) q'"
      by (rule queue_dequeue [OF q [unfolded q']])
        (simp_all add: True ticket_lock_release_def release_inc_stride)
    with True q' show ?thesis by simp
  next
    case False
    have "\<forall>k<length q'. q' ! k \<noteq> i" using q q' by (auto simp: ticket_queue_def)
    then show ?thesis
      using False q i q'
      by (auto simp: ticket_queue_def ticket_lock_release_def nth_Cons split: arch.splits nat.splits)
  qed
qed

lemma queue_release_store:
  assumes q: "ticket_queue a N s q" and i: "tk_pc s i = TkRel tmp"
  shows "\<exists>q'. q = i # q' \<and> ticket_queue a N (ticket_release_store a i tmp s) q'"
proof -
  from i have "ticket_holds s i" by (simp add: ticket_holds_def)
  with q obtain q' where q': "q = i # q'" by (rule queue_holder)
  with q i have "tmp = lo16 (tk_lock s)" by (auto simp: ticket_queue_def)
  with q q' show ?thesis
    by (intro exI [of _ q'] conjI queue_dequeue [of a N s i q'])
      (auto simp: ticket_release_store_def release_inc_stride)
qed

text \<open>Everyone behind the first thread is spinning.\<close>

lemma queue_tail_spins:
  assumes "ticket_queue a N s (i # q)" "j \<in> set q"
  shows "\<exists>tmp. tk_pc s j = TkSpin tmp"
proof -
  from assms(2) obtain k where k: "k < length q" "q ! k = j" by (auto simp: in_set_conv_nth)
  with assms(1) have "ticket_place a (lo16 (tk_lock s)) (Suc k) (tk_pc s j)"
    by (auto simp: ticket_queue_def)
  then show ?thesis by (cases "tk_pc s j") auto
qed

section \<open>Mutual exclusion\<close>

lemma ticket_inv_start: "ticket_init a N s \<Longrightarrow> ticket_inv a N s"
  by (auto simp: ticket_init_def ticket_inv_def ticket_queue_def ticket_start_def lo16_def hi16_def
      intro!: exI [of _ "[]"])

lemma ticket_inv_step: "ticket_inv a N s \<Longrightarrow> ticket_inv a N (ticket_step a N i s)"
  unfolding ticket_inv_def ticket_step_def
  by (auto split: ticket_pc.splits intro: queue_acquire queue_spin queue_release(1)
      dest: queue_release_store)

lemma ticket_holds_excl:
  "ticket_inv a N s \<Longrightarrow> ticket_holds s i \<Longrightarrow> ticket_holds s j \<Longrightarrow> i = j"
  unfolding ticket_inv_def by (metis list.inject queue_holder)

interpretation ticket: mutex_system "ticket_init a N" "ticket_step a N" "ticket_inv a N" ticket_holds
  for a N
  by unfold_locales (rule ticket_inv_start ticket_inv_step ticket_holds_excl; assumption)+

section \<open>First come, first served\<close>

definition ticket_requests :: "nat \<Rightarrow> tid \<Rightarrow> ticket_state \<Rightarrow> tid list" where
  "ticket_requests N i s = (if i < N \<and> tk_pc s i = TkIdle then [i] else [])"

definition ticket_entries :: "arch \<Rightarrow> nat \<Rightarrow> tid \<Rightarrow> ticket_state \<Rightarrow> tid list" where
  "ticket_entries a N i s =
     (if \<not> ticket_holds s i \<and> ticket_holds (ticket_step a N i s) i then [i] else [])"

definition ticket_waiting :: "arch \<Rightarrow> nat \<Rightarrow> ticket_state \<Rightarrow> tid list \<Rightarrow> bool" where
  "ticket_waiting a N s w \<longleftrightarrow> (\<exists>q. ticket_queue a N s q \<and>
     w = (if q \<noteq> [] \<and> ticket_holds s (hd q) then tl q else q))"

lemma waiting_acquire:
  assumes q: "ticket_queue a N s q" and i: "i < N" "tk_pc s i = TkIdle"
  shows "ticket_waiting a N (ticket_lock_acquire a i s)
    ((if q \<noteq> [] \<and> ticket_holds s (hd q) then tl q else q) @ (if q = [] then [] else [i]))"
    and "ticket_holds (ticket_lock_acquire a i s) i \<longleftrightarrow> q = []"
proof -
  have fresh: "i \<notin> set q" using q i by (auto simp: ticket_queue_def)
  show e: "ticket_holds (ticket_lock_acquire a i s) i \<longleftrightarrow> q = []"
    using queue_fast_path [OF q i] by (simp add: ticket_lock_acquire_def ticket_holds_def Let_def)
  have "ticket_holds (ticket_lock_acquire a i s) j = ticket_holds s j" if "j \<noteq> i" for j
    using that by (simp add: ticket_lock_acquire_def ticket_holds_def Let_def)
  with e fresh queue_acquire [OF q i] show "ticket_waiting a N (ticket_lock_acquire a i s)
    ((if q \<noteq> [] \<and> ticket_holds s (hd q) then tl q else q) @ (if q = [] then [] else [i]))"
    unfolding ticket_waiting_def by (cases q) (auto intro!: exI [of _ "q @ [i]"])
qed

lemma waiting_spin:
  assumes q: "ticket_queue a N s q" and i: "tk_pc s i = TkSpin tmp"
    and turn: "ticket_my_turn a tmp (lo16 (tk_lock s))"
  shows "ticket_waiting a N (ticket_spin a i tmp s) (tl q)" "q = i # tl q" "\<not> ticket_holds s i"
    "ticket_holds (ticket_spin a i tmp s) i"
proof -
  show q': "q = i # tl q" using turn queue_my_turn [OF q i] by (cases q) auto
  show h: "ticket_holds (ticket_spin a i tmp s) i"
    using turn by (simp add: ticket_spin_def ticket_holds_def)
  show "\<not> ticket_holds s i" using i by (simp add: ticket_holds_def)
  from queue_spin [OF q i] h show "ticket_waiting a N (ticket_spin a i tmp s) (tl q)"
    unfolding ticket_waiting_def by (subst (asm) q', subst q') (intro exI [of _ "i # tl q"], simp)
qed

lemma waiting_leave:
  assumes q: "ticket_queue a N s (i # q)" and q': "ticket_queue a N s' q"
    and p: "tk_pc s' = (tk_pc s)(i := TkIdle)"
  shows "ticket_waiting a N s' q"
proof -
  have "\<not> ticket_holds s' (hd q)" if "q \<noteq> []"
    using queue_tail_spins [OF q, of "hd q"] that p by (auto simp: ticket_holds_def)
  with q' show ?thesis unfolding ticket_waiting_def by (intro exI [of _ q]) auto
qed

lemma waiting_release:
  assumes q: "ticket_queue a N s q" and i: "tk_pc s i = TkCS d"
  shows "ticket_waiting a N (ticket_lock_release a i s) (tl q)"
proof (cases "a = AArch64_LSE")
  case True
  with queue_release [OF q i] q show ?thesis
    by (intro waiting_leave [of a N s i]) (auto simp: ticket_lock_release_def)
next
  case False
  then have "ticket_holds (ticket_lock_release a i s) i"
    by (cases a) (auto simp: ticket_lock_release_def ticket_holds_def)
  with False queue_release [OF q i] show ?thesis
    unfolding ticket_waiting_def by (metis list.sel(1) list.sel(3) list.distinct(1))
qed

lemma ticket_waiting_step:
  assumes "ticket_waiting a N s w"
  shows "\<exists>w'. ticket_waiting a N (ticket_step a N i s) w' \<and>
     w @ ticket_requests N i s = ticket_entries a N i s @ w'"
proof (cases "i < N")
  case False
  with assms show ?thesis by (auto simp: ticket_step_def ticket_requests_def ticket_entries_def)
next
  case i: True
  from assms obtain q where q: "ticket_queue a N s q"
    and w: "w = (if q \<noteq> [] \<and> ticket_holds s (hd q) then tl q else q)"
    by (auto simp: ticket_waiting_def)
  show ?thesis
  proof (cases "tk_pc s i")
    case TkIdle
    with i waiting_acquire [OF q i TkIdle] show ?thesis
      by (auto simp: ticket_step_def ticket_requests_def ticket_entries_def w ticket_holds_def)
  next
    case (TkSpin tmp)
    show ?thesis
    proof (cases "ticket_my_turn a tmp (lo16 (tk_lock s))")
      case True
      note sp = waiting_spin [OF q TkSpin True]
      from sp(2,3) have "w = i # tl q" by (metis list.sel(1) w)
      with sp i TkSpin show ?thesis
        by (auto simp: ticket_step_def ticket_requests_def ticket_entries_def)
    next
      case False
      with assms i TkSpin show ?thesis
        by (auto simp: ticket_step_def ticket_requests_def ticket_entries_def ticket_spin_def)
    qed
  next
    case (TkCS d)
    then have "ticket_holds s i" by (simp add: ticket_holds_def)
    with queue_release(2) [OF q TkCS] have "w = tl q" by (metis list.distinct(1) list.sel(1) w)
    with waiting_release [OF q TkCS] \<open>ticket_holds s i\<close> i TkCS show ?thesis
      by (auto simp: ticket_step_def ticket_requests_def ticket_entries_def)
  next
    case (TkRel tmp)
    from queue_release_store [OF q TkRel] obtain q' where q': "q = i # q'"
      "ticket_queue a N (ticket_release_store a i tmp s) q'" by blast
    have "ticket_waiting a N (ticket_release_store a i tmp s) q'"
      using q q' by (intro waiting_leave [of a N s i]) (auto simp: ticket_release_store_def)
    with q' i TkRel show ?thesis
      by (auto simp: ticket_step_def ticket_requests_def ticket_entries_def w ticket_holds_def)
  qed
qed

interpretation ticket: fifo_system "ticket_init a N" "ticket_step a N" "ticket_inv a N"
  "ticket_waiting a N" "ticket_requests N" "ticket_entries a N"
  for a N
proof unfold_locales
  fix s assume "ticket_init a N s"
  then show "ticket_waiting a N s []"
    by (auto simp: ticket_init_def ticket_waiting_def ticket_queue_def ticket_start_def
        lo16_def hi16_def intro!: exI [of _ "[]"])
qed (rule ticket_waiting_step)

section \<open>Progress\<close>

text \<open>
  For a thread \<open>j\<close> that does not hold the lock: let it take a ticket, then let the first
  thread of the queue move. Each such step lowers the remaining work.
\<close>

fun ticket_work :: "ticket_pc \<Rightarrow> nat" where
  "ticket_work TkIdle = 0"
| "ticket_work (TkSpin tmp) = 3"
| "ticket_work (TkCS d) = 2"
| "ticket_work (TkRel tmp) = 1"

definition ticket_distance :: "nat \<Rightarrow> tid \<Rightarrow> ticket_state \<Rightarrow> nat" where
  "ticket_distance N j s = (if tk_pc s j = TkIdle then 4 else 0) + (\<Sum>i<N. ticket_work (tk_pc s i))"

lemma ticket_first_moves:
  assumes q: "ticket_queue a N s (i # q)"
  shows "\<exists>p. tk_pc (ticket_step a N i s) = (tk_pc s)(i := p) \<and> ticket_work p < ticket_work (tk_pc s i)"
proof -
  from q have i: "i < N" "tk_pc s i \<noteq> TkIdle" by (auto simp: ticket_queue_def)
  show ?thesis
  proof (cases "tk_pc s i")
    case (TkSpin tmp)
    with queue_my_turn [OF q TkSpin] i show ?thesis
      by (auto simp: ticket_step_def ticket_spin_def)
  next
    case (TkCS d)
    with i show ?thesis
      by (cases a) (auto simp: ticket_step_def ticket_lock_release_def)
  next
    case (TkRel tmp)
    with i show ?thesis
      by (auto simp: ticket_step_def ticket_release_store_def)
  qed (use i in simp)
qed

lemma ticket_acquire_closer:
  assumes "j < N" "tk_pc s j = TkIdle"
  shows "ticket_distance N j (ticket_step a N j s) < ticket_distance N j s"
proof -
  obtain p where p: "tk_pc (ticket_step a N j s) = (tk_pc s)(j := p)" "p \<noteq> TkIdle" "ticket_work p \<le> 3"
    using assms by (auto simp: ticket_step_def ticket_lock_acquire_def Let_def)
  have "(\<Sum>i<N. ticket_work (((tk_pc s)(j := p)) i)) + ticket_work (tk_pc s j)
      = (\<Sum>i<N. ticket_work (tk_pc s i)) + ticket_work p"
    by (rule sum_fun_upd [OF assms(1)])
  with p assms(2) show ?thesis by (simp add: ticket_distance_def)
qed

lemma ticket_closer:
  assumes inv: "ticket_inv a N s" and goal: "\<not> (j < N \<longrightarrow> ticket_holds s j)"
  shows "\<exists>i. ticket_distance N j (ticket_step a N i s) < ticket_distance N j s"
proof (cases "tk_pc s j = TkIdle")
  case True
  with goal ticket_acquire_closer show ?thesis by blast
next
  case False
  from inv obtain q where q: "ticket_queue a N s q" by (auto simp: ticket_inv_def)
  with False have "j \<in> set q" by (simp add: ticket_queue_def)
  then obtain i q' where q': "q = i # q'" by (cases q) auto
  from ticket_first_moves [OF q [unfolded q']] obtain p where
    p: "tk_pc (ticket_step a N i s) = (tk_pc s)(i := p)" "ticket_work p < ticket_work (tk_pc s i)" by blast
  have "i < N" using q q' by (auto simp: ticket_queue_def)
  then have "(\<Sum>k<N. ticket_work (((tk_pc s)(i := p)) k)) < (\<Sum>k<N. ticket_work (tk_pc s k))"
    using p(2) by (rule sum_fun_upd_less)
  moreover have "tk_pc (ticket_step a N i s) j \<noteq> TkIdle"
  proof (cases "i = j")
    case True
    with goal False obtain tmp where "tk_pc s j = TkSpin tmp" by (cases "tk_pc s j") (auto simp: ticket_holds_def)
    with True queue_my_turn [OF q, of j tmp] q' \<open>i < N\<close> show ?thesis
      by (auto simp: ticket_step_def ticket_spin_def)
  qed (use p False in auto)
  ultimately show ?thesis using False p(1) by (intro exI [of _ i]) (simp add: ticket_distance_def)
qed

interpretation ticket: progress_system "ticket_init a N" "ticket_step a N" "ticket_inv a N"
  "\<lambda>s. j < N \<longrightarrow> ticket_holds s j" "ticket_distance N j"
  for a N j
  by unfold_locales (rule ticket_closer)

section \<open>The returned depth\<close>

lemma queue_card: "ticket_queue a N s q \<Longrightarrow> card {i. tk_pc s i \<noteq> TkIdle} = length q"
  unfolding ticket_queue_def by (metis distinct_card)

lemma queue_depth:
  assumes q: "ticket_queue a N s q" and i: "i < N" "tk_pc s i = TkIdle"
  shows "unat (ticket_depth_ret a (tk_lock s)) = (if a = X86_64 then length q div 2 else length q)"
proof -
  from q i have "length q < N" by (intro queue_length_less) (auto simp: ticket_queue_def)
  with q have b: "stride a * length q < 65536"
    by (intro stride_bound [of N]) (simp_all add: ticket_queue_def)
  from q have "hi16 (tk_lock s) - lo16 (tk_lock s) = of_nat (stride a * length q)"
    by (simp add: ticket_queue_def)
  then have "unat (hi16 (tk_lock s) - lo16 (tk_lock s)) = stride a * length q"
    using b by (simp add: unat_of_nat del: of_nat_mult)
  then show ?thesis
    using queue_fast_path [OF q i]
    by (cases a) (simp_all add: depth_ret_unat stride_def)
qed

section \<open>Properties\<close>

text \<open>C5: in every interleaving of up to \<open>2 ^ 16\<close> threads (\<open>2 ^ 15\<close> on x86-64, whose tickets advance
  by two) at most one thread is between \<open>lock_acquire\<close> and the end of \<open>lock_release\<close>.\<close>

theorem ticket_mutual_exclusion:
  assumes "N * stride a \<le> 65536"
    and "ticket_holds (run (ticket_step a N) ls ticket_start) i"
    and "ticket_holds (run (ticket_step a N) ls ticket_start) j"
  shows "i = j"
  by (rule ticket.mutual_exclusion [of a N ticket_start]) (use assms in \<open>simp_all add: ticket_init_def\<close>)

theorem ticket_mutual_exclusion_witness:
  "ticket_holds (run (ticket_step AArch64_LLSC 2) [0, 1, 0] ticket_start) 0 \<and>
   \<not> ticket_holds (run (ticket_step AArch64_LLSC 2) [0, 1, 0] ticket_start) 1"
proof -
  have h: "ticket_holds (run (ticket_step AArch64_LLSC 2) [0, 1, 0] ticket_start) 0" by code_simp
  show ?thesis
    using h ticket_mutual_exclusion [of 2 AArch64_LLSC "[0, 1, 0]" 0 1] by (auto simp: stride_def)
qed

text \<open>C22: the lock is handed over in the order of the tickets. At any point of any run the sequence of
  threads that obtained the lock is a prefix of the sequence of threads that called \<open>lock_acquire\<close>.\<close>

theorem ticket_first_come_first_served:
  assumes "N * stride a \<le> 65536"
  shows "\<exists>w. observe (ticket_requests N) (ticket_step a N) ls ticket_start
           = observe (ticket_entries a N) (ticket_step a N) ls ticket_start @ w"
  using ticket.fifo [of a N ticket_start ls] assms by (auto simp: ticket_init_def)

theorem ticket_first_come_first_served_witness:
  "\<exists>w. [0, 2, 1] = observe (ticket_entries X86_64 3) (ticket_step X86_64 3) [0, 2, 1, 0, 0, 1, 2] ticket_start @ w"
proof -
  have "observe (ticket_requests 3) (ticket_step X86_64 3) [0, 2, 1, 0, 0, 1, 2] ticket_start = [0, 2, 1]"
    by code_simp
  then show ?thesis
    using ticket_first_come_first_served [of 3 X86_64 "[0, 2, 1, 0, 0, 1, 2]"] by (simp add: stride_def)
qed

text \<open>No run reaches a state from which a given thread can no longer obtain the lock, although
  tickets wrap around at 16 bits.\<close>

theorem ticket_never_stuck:
  assumes "N * stride a \<le> 65536" and "j < N"
  shows "\<exists>ms. ticket_holds (run (ticket_step a N) (ls @ ms) ticket_start) j"
  using ticket.never_stuck [of a N ticket_start j ls] assms by (auto simp: ticket_init_def)

theorem ticket_never_stuck_witness:
  "\<exists>ms. ticket_holds (run (ticket_step AArch64_LSE 65536) ([7, 65535, 3] @ ms) ticket_start) 65535"
  using ticket_never_stuck [of 65536 AArch64_LSE 65535 "[7, 65535, 3]"] by (simp add: stride_def)

text \<open>The depth a thread gets back is the number of threads that were queued or holding the lock
  when it took its ticket; the x86-64 build shifts one place too far and reports half of that.\<close>

theorem ticket_depth_counts_waiters:
  assumes "N * stride a \<le> 65536" and "s = run (ticket_step a N) ls ticket_start"
    and "i < N" and "tk_pc s i = TkIdle"
  shows "unat (ticket_depth_ret a (tk_lock s)) =
     (if a = X86_64 then card {j. tk_pc s j \<noteq> TkIdle} div 2 else card {j. tk_pc s j \<noteq> TkIdle})"
proof -
  have "ticket_inv a N s"
    unfolding assms(2) by (rule ticket.reachable_inv) (simp add: ticket_init_def assms(1))
  then obtain q where q: "ticket_queue a N s q" by (auto simp: ticket_inv_def)
  show ?thesis using queue_depth [OF q assms(3,4)] queue_card [OF q] by simp
qed

theorem ticket_depth_counts_waiters_witness:
  "unat (ticket_depth_ret AArch64_LSE (tk_lock (run (ticket_step AArch64_LSE 3) [0, 1] ticket_start))) =
   card {j. tk_pc (run (ticket_step AArch64_LSE 3) [0, 1] ticket_start) j \<noteq> TkIdle}"
proof -
  have "tk_pc (run (ticket_step AArch64_LSE 3) [0, 1] ticket_start) 2 = TkIdle" by code_simp
  then show ?thesis
    using ticket_depth_counts_waiters [of 3 AArch64_LSE "run (ticket_step AArch64_LSE 3) [0, 1] ticket_start" "[0, 1]" 2]
    by (simp add: stride_def del: run.simps)
qed

end
