(* ===== verification/CLH_Lock.thy ===== *)
theory CLH_Lock
  imports Lock_Prelude
begin

text \<open>
  The CLH queue lock of \<open>ext/sms/clh_spinlock.h\<close>: the node pool, the per-thread node pointers,
  initialization, \<open>clh_lock\<close> with and without wait-for-event, and \<open>lock_release\<close>, which takes
  over the predecessor's node. A step is one access to memory shared between threads, or one
  event instruction.
\<close>

section \<open>The code\<close>

text \<open>Nodes: the one embedded in the lock and those of \<open>clh_nodepool\<close>.\<close>

datatype clh_addr = Lock_node | Pool nat

text \<open>
  Program points of a thread: outside; after \<open>node->wait = 1\<close>; after the exchange of the tail, before
  \<open>node->prev\<close> is stored; before a load of \<open>prev->wait\<close> outside the event loop; before \<open>WFE()\<close>;
  before the \<open>LDXR\<close> after it; in the critical section; in \<open>lock_release\<close> after the load of
  \<open>node->prev\<close>; and before the node pointer is set to it.
\<close>

datatype clh_pc = ClhIdle | ClhArmed | ClhSwapped clh_addr | ClhTest clh_addr | ClhWFE clh_addr
  | ClhLDXR clh_addr | ClhCS | ClhUnlock clh_addr | ClhReuse clh_addr

record clh_state =
  clh_prev :: "clh_addr \<Rightarrow> clh_addr option"
  clh_wait :: "clh_addr \<Rightarrow> u64"
  clh_tail :: clh_addr
  clh_nodeptr :: "tid \<Rightarrow> clh_addr option"
  clh_event :: "tid \<Rightarrow> bool"
  clh_monitor :: "tid \<Rightarrow> clh_addr option"
  clh_pc :: "tid \<Rightarrow> clh_pc"

text \<open>
  \<open>clh_parse_args\<close> over the option letters \<open>getopt\<close> returns: \<open>without_wfe\<close>, or \<open>None\<close> for \<open>exit(2)\<close>.
\<close>

fun clh_parse_opts :: "bool \<Rightarrow> char list \<Rightarrow> bool option" where
  "clh_parse_opts without_wfe [] = Some without_wfe"
| "clh_parse_opts without_wfe (i # is) =
     (if i = CHR ''w'' then clh_parse_opts True is else None)"

definition clh_parse_args :: "bool \<Rightarrow> char list \<Rightarrow> bool option" where
  "clh_parse_args aarch64 opts = clh_parse_opts (\<not> aarch64) opts"

text \<open>
  \<open>clh_lock_init\<close>: the flags say whether the two \<open>calloc\<close> calls succeed; \<open>None\<close> is \<open>exit(errno)\<close>.
\<close>

definition clh_lock_init :: "bool \<Rightarrow> bool \<Rightarrow> clh_state option" where
  "clh_lock_init nodeptr_ok nodepool_ok =
     (if \<not> nodeptr_ok then None else if \<not> nodepool_ok then None
      else Some \<lparr>clh_prev = (\<lambda>_. None), clh_wait = (\<lambda>_. 0), clh_tail = Lock_node,
                 clh_nodeptr = (\<lambda>_. None), clh_event = (\<lambda>_. False), clh_monitor = (\<lambda>_. None),
                 clh_pc = (\<lambda>_. ClhIdle)\<rparr>)"

definition clh_thread_local_init :: "tid \<Rightarrow> clh_state \<Rightarrow> clh_state" where
  "clh_thread_local_init smtid s =
     s\<lparr>clh_wait := (clh_wait s)(Pool smtid := 1), clh_nodeptr := (clh_nodeptr s)(smtid := Some (Pool smtid))\<rparr>"

text \<open>The state the worker threads start from: every thread has run \<open>thread_local_init\<close>.\<close>

definition clh_start :: "nat \<Rightarrow> clh_state option" where
  "clh_start N = map_option (fold clh_thread_local_init [0..<N]) (clh_lock_init True True)"

abbreviation clh_node :: "clh_state \<Rightarrow> tid \<Rightarrow> clh_addr" where
  "clh_node s i \<equiv> the (clh_nodeptr s i)"

abbreviation clh_goto :: "tid \<Rightarrow> clh_pc \<Rightarrow> clh_state \<Rightarrow> clh_state" where
  "clh_goto i p s \<equiv> s\<lparr>clh_pc := (clh_pc s)(i := p)\<rparr>"

text \<open>A store to \<open>wait\<close> clears the monitors on that node, which wakes the threads that armed them.\<close>

definition clh_store_wait :: "clh_addr \<Rightarrow> u64 \<Rightarrow> clh_state \<Rightarrow> clh_state" where
  "clh_store_wait x v s =
     s\<lparr>clh_wait := (clh_wait s)(x := v),
       clh_event := (\<lambda>j. clh_event s j \<or> clh_monitor s j = Some x),
       clh_monitor := (\<lambda>j. if clh_monitor s j = Some x then None else clh_monitor s j)\<rparr>"

text \<open>\<open>clh_lock\<close>, access by access.\<close>

definition clh_set_wait :: "tid \<Rightarrow> clh_state \<Rightarrow> clh_state" where
  "clh_set_wait i s = clh_goto i ClhArmed (clh_store_wait (clh_node s i) 1 s)"

definition clh_exchange_tail :: "tid \<Rightarrow> clh_state \<Rightarrow> clh_state" where
  "clh_exchange_tail i s = clh_goto i (ClhSwapped (clh_tail s)) (s\<lparr>clh_tail := clh_node s i\<rparr>)"

definition clh_store_prev :: "tid \<Rightarrow> clh_addr \<Rightarrow> clh_state \<Rightarrow> clh_state" where
  "clh_store_prev i prev s =
     clh_goto i (ClhTest prev) (s\<lparr>clh_prev := (clh_prev s)(clh_node s i := Some prev)\<rparr>)"

text \<open>
  The first load of \<open>prev->wait\<close>: with wait-for-event a failure goes through \<open>SEVL()\<close> into the event
  loop, without it the load is repeated.
\<close>

definition clh_test :: "bool \<Rightarrow> tid \<Rightarrow> clh_addr \<Rightarrow> clh_state \<Rightarrow> clh_state" where
  "clh_test use_wfe i prev s =
     (if clh_wait s prev = 0 then clh_goto i ClhCS s
      else if use_wfe then clh_goto i (ClhWFE prev) (s\<lparr>clh_event := (clh_event s)(i := True)\<rparr>)
      else s)"

text \<open>\<open>WFE()\<close> passes, and clears the event register, only when it is set.\<close>

definition clh_wfe :: "tid \<Rightarrow> clh_addr \<Rightarrow> clh_state \<Rightarrow> clh_state" where
  "clh_wfe i prev s =
     (if clh_event s i then clh_goto i (ClhLDXR prev) (s\<lparr>clh_event := (clh_event s)(i := False)\<rparr>)
      else s)"

definition clh_ldxr :: "tid \<Rightarrow> clh_addr \<Rightarrow> clh_state \<Rightarrow> clh_state" where
  "clh_ldxr i prev s =
     (let s = s\<lparr>clh_monitor := (clh_monitor s)(i := Some prev)\<rparr>
      in if clh_wait s prev = 0 then clh_goto i ClhCS s else clh_goto i (ClhWFE prev) s)"

text \<open>\<open>lock_release\<close>: save \<open>prev\<close>, \<open>clh_unlock\<close>, then reuse the predecessor's node.\<close>

definition clh_save_prev :: "tid \<Rightarrow> clh_state \<Rightarrow> clh_state" where
  "clh_save_prev i s = clh_goto i (ClhUnlock (the (clh_prev s (clh_node s i)))) s"

definition clh_unlock :: "tid \<Rightarrow> clh_addr \<Rightarrow> clh_state \<Rightarrow> clh_state" where
  "clh_unlock i prev s = clh_goto i (ClhReuse prev) (clh_store_wait (clh_node s i) 0 s)"

definition clh_reuse :: "tid \<Rightarrow> clh_addr \<Rightarrow> clh_state \<Rightarrow> clh_state" where
  "clh_reuse i prev s = clh_goto i ClhIdle (s\<lparr>clh_nodeptr := (clh_nodeptr s)(i := Some prev)\<rparr>)"

definition clh_step :: "bool \<Rightarrow> nat \<Rightarrow> tid \<Rightarrow> clh_state \<Rightarrow> clh_state" where
  "clh_step use_wfe N i s = (if i < N then (case clh_pc s i of
       ClhIdle \<Rightarrow> clh_set_wait i s
     | ClhArmed \<Rightarrow> clh_exchange_tail i s
     | ClhSwapped prev \<Rightarrow> clh_store_prev i prev s
     | ClhTest prev \<Rightarrow> clh_test use_wfe i prev s
     | ClhWFE prev \<Rightarrow> clh_wfe i prev s
     | ClhLDXR prev \<Rightarrow> clh_ldxr i prev s
     | ClhCS \<Rightarrow> clh_save_prev i s
     | ClhUnlock prev \<Rightarrow> clh_unlock i prev s
     | ClhReuse prev \<Rightarrow> clh_reuse i prev s) else s)"

definition clh_holds :: "clh_state \<Rightarrow> tid \<Rightarrow> bool" where
  "clh_holds s i = (case clh_pc s i of ClhCS \<Rightarrow> True | ClhUnlock _ \<Rightarrow> True | _ \<Rightarrow> False)"

section \<open>The implicit queue\<close>

text \<open>
  A thread is queued from its exchange of the tail to its store of 0 to \<open>wait\<close>. \<open>clh_pred\<close> is the
  node it waits for, \<open>clh_own\<close> the node no one else may use.
\<close>

definition clh_queued :: "clh_pc \<Rightarrow> bool" where
  "clh_queued p = (case p of ClhIdle \<Rightarrow> False | ClhArmed \<Rightarrow> False | ClhReuse _ \<Rightarrow> False | _ \<Rightarrow> True)"

definition clh_pred :: "clh_state \<Rightarrow> tid \<Rightarrow> clh_addr option" where
  "clh_pred s i = (case clh_pc s i of ClhSwapped prev \<Rightarrow> Some prev | _ \<Rightarrow> clh_prev s (clh_node s i))"

definition clh_own :: "clh_state \<Rightarrow> tid \<Rightarrow> clh_addr" where
  "clh_own s i = (case clh_pc s i of ClhReuse prev \<Rightarrow> prev | _ \<Rightarrow> clh_node s i)"

text \<open>
  What the local variable \<open>prev\<close> holds, that \<open>wait\<close> is set before the exchange, and that a waiting
  thread cannot miss its event.
\<close>

definition clh_local :: "clh_state \<Rightarrow> tid \<Rightarrow> bool" where
  "clh_local s i = (case clh_pc s i of
     ClhArmed \<Rightarrow> clh_wait s (clh_node s i) \<noteq> 0
   | ClhTest p \<Rightarrow> clh_prev s (clh_node s i) = Some p
   | ClhWFE p \<Rightarrow> clh_prev s (clh_node s i) = Some p \<and>
       (clh_event s i \<or> clh_monitor s i = Some p \<and> clh_wait s p \<noteq> 0)
   | ClhLDXR p \<Rightarrow> clh_prev s (clh_node s i) = Some p
   | ClhUnlock p \<Rightarrow> clh_prev s (clh_node s i) = Some p
   | _ \<Rightarrow> True)"

fun clh_chain :: "clh_state \<Rightarrow> clh_addr \<Rightarrow> tid list \<Rightarrow> bool" where
  "clh_chain s b [] = (clh_tail s = b)"
| "clh_chain s b (i # q) = (clh_pred s i = Some b \<and> clh_wait s (clh_node s i) \<noteq> 0 \<and> clh_chain s (clh_node s i) q)"

definition clh_queue :: "nat \<Rightarrow> clh_state \<Rightarrow> clh_addr \<Rightarrow> tid list \<Rightarrow> bool" where
  "clh_queue N s b q \<longleftrightarrow>
     distinct q \<and> set q = {i. i < N \<and> clh_queued (clh_pc s i)} \<and>
     inj_on (clh_own s) {..<N} \<and> b \<notin> clh_own s ` {..<N} \<and>
     clh_wait s b = 0 \<and> clh_chain s b q \<and>
     (\<forall>i\<in>set (tl q). \<not> clh_holds s i) \<and> (\<forall>i<N. clh_local s i) \<and> (\<forall>i\<ge>N. clh_pc s i = ClhIdle)"

definition clh_inv :: "nat \<Rightarrow> clh_state \<Rightarrow> bool" where
  "clh_inv N s \<longleftrightarrow> (\<exists>b q. clh_queue N s b q)"

lemma clh_chain_cong:
  assumes "\<And>i. i \<in> set q \<Longrightarrow> clh_pred s' i = clh_pred s i \<and> clh_node s' i = clh_node s i \<and>
      clh_wait s' (clh_node s i) = clh_wait s (clh_node s i)"
    and "clh_tail s' = clh_tail s"
  shows "clh_chain s' b q = clh_chain s b q"
  using assms(1) by (induction q arbitrary: b) (auto simp: assms(2))

text \<open>Another thread's exchange makes it the last of the queue.\<close>

lemma clh_chain_append:
  assumes "clh_chain s b q" and "\<And>j. j \<in> set q \<Longrightarrow> clh_pred s' j = clh_pred s j \<and> clh_node s' j = clh_node s j \<and>
      clh_wait s' (clh_node s j) = clh_wait s (clh_node s j)"
    and "clh_pred s' i = Some (clh_tail s)" "clh_wait s' (clh_node s' i) \<noteq> 0" "clh_tail s' = clh_node s' i"
  shows "clh_chain s' b (q @ [i])"
  using assms(1,2) by (induction q arbitrary: b) (auto simp: assms(3-))

text \<open>Whoever is not first waits for a node whose owner has not released it.\<close>

lemma clh_chain_waits:
  assumes "clh_chain s b q" "j \<in> set (tl q)" "distinct q"
  shows "\<exists>p. clh_pred s j = Some p \<and> clh_wait s p \<noteq> 0"
  using assms
proof (induction q arbitrary: b)
  case (Cons i q)
  then show ?case by (cases q) auto
qed simp

lemma clh_chain_first: "clh_chain s b (i # q) \<Longrightarrow> clh_pred s i = Some b"
  by simp

lemmas clh_queue_defs = clh_pred_def clh_own_def clh_local_def clh_queued_def clh_holds_def
lemmas clh_step_defs = clh_set_wait_def clh_exchange_tail_def clh_store_prev_def clh_test_def clh_wfe_def
  clh_ldxr_def clh_save_prev_def clh_unlock_def clh_reuse_def clh_store_wait_def Let_def

lemma clh_own_queued: "clh_queued (clh_pc s i) \<Longrightarrow> clh_own s i = clh_node s i"
  by (auto simp: clh_own_def clh_queued_def split: clh_pc.splits)

lemma clh_queue_nodes:
  assumes q: "clh_queue N s b q" and "i < N" "j < N" "i \<noteq> j"
  shows "clh_own s i \<noteq> clh_own s j" and "clh_own s i \<noteq> b"
  using assms by (auto simp: clh_queue_def dest: inj_onD)

text \<open>
  What a step of thread \<open>i\<close> leaves alone: the other threads, and every node but its own; another
  thread's armed monitor either stays valid or has raised the event.
\<close>

definition clh_frame :: "tid \<Rightarrow> clh_state \<Rightarrow> clh_state \<Rightarrow> bool" where
  "clh_frame i s s' \<longleftrightarrow>
     (\<forall>j. j \<noteq> i \<longrightarrow> clh_pc s' j = clh_pc s j \<and> clh_nodeptr s' j = clh_nodeptr s j \<and>
        (clh_event s j \<longrightarrow> clh_event s' j) \<and>
        (\<forall>p. clh_monitor s j = Some p \<longrightarrow> clh_event s' j \<or> clh_monitor s' j = Some p \<and> clh_wait s' p = clh_wait s p)) \<and>
     (\<forall>x. x \<noteq> clh_own s i \<longrightarrow> clh_wait s' x = clh_wait s x \<and> clh_prev s' x = clh_prev s x)"

lemma clh_frame_other:
  assumes q: "clh_queue N s b q" and f: "clh_frame i s s'" and j: "j < N" "i < N" "j \<noteq> i"
  shows "clh_local s' j" and "clh_own s' j = clh_own s j"
    and "clh_queued (clh_pc s j) \<Longrightarrow> clh_pred s' j = clh_pred s j \<and> clh_node s' j = clh_node s j \<and>
          clh_wait s' (clh_node s j) = clh_wait s (clh_node s j)"
proof -
  have ne: "clh_own s j \<noteq> clh_own s i" using clh_queue_nodes [OF q j] by simp
  have pc: "clh_pc s' j = clh_pc s j" "clh_nodeptr s' j = clh_nodeptr s j" using f j by (auto simp: clh_frame_def)
  have node: "clh_prev s' (clh_node s j) = clh_prev s (clh_node s j) \<and> clh_wait s' (clh_node s j) = clh_wait s (clh_node s j)"
    if "clh_own s j = clh_node s j"
    using f ne that by (auto simp: clh_frame_def)
  then show "clh_queued (clh_pc s j) \<Longrightarrow> clh_pred s' j = clh_pred s j \<and> clh_node s' j = clh_node s j \<and>
          clh_wait s' (clh_node s j) = clh_wait s (clh_node s j)"
    using clh_own_queued [of s j] by (auto simp: clh_pred_def pc split: clh_pc.splits)
  show "clh_own s' j = clh_own s j" by (simp add: clh_own_def pc split: clh_pc.split)
  have "clh_local s j" using q j by (simp add: clh_queue_def)
  with node f j show "clh_local s' j"
    by (cases "clh_pc s j") (auto simp: clh_local_def pc clh_own_def clh_frame_def)
qed

text \<open>A step that leaves the queue as it is.\<close>

lemma clh_queue_stay:
  assumes q: "clh_queue N s b q" and i: "i < N" and f: "clh_frame i s s'"
    and own: "clh_own s' i = clh_own s i" and tail: "clh_tail s' = clh_tail s"
    and queued: "clh_queued (clh_pc s' i) = clh_queued (clh_pc s i)"
    and me: "clh_queued (clh_pc s i) \<Longrightarrow> clh_pred s' i = clh_pred s i \<and> clh_wait s' (clh_node s i) = clh_wait s (clh_node s i)"
    and loc: "clh_local s' i" and holds: "clh_holds s' i \<Longrightarrow> clh_holds s i \<or> i \<notin> set (tl q)"
  shows "clh_queue N s' b q"
proof -
  note other = clh_frame_other [OF q f _ i]
  have own': "clh_own s' j = clh_own s j" if "j < N" for j using other(2) own that by (cases "j = i") auto
  have "clh_chain s' b q = clh_chain s b q"
  proof (rule clh_chain_cong)
    fix j assume "j \<in> set q"
    with q have j: "j < N" "clh_queued (clh_pc s j)" by (auto simp: clh_queue_def)
    show "clh_pred s' j = clh_pred s j \<and> clh_node s' j = clh_node s j \<and>
        clh_wait s' (clh_node s j) = clh_wait s (clh_node s j)"
      using other(3) [OF j(1) _ j(2)] me j own queued clh_own_queued [of s i] clh_own_queued [of s' i]
      by (cases "j = i") auto
  qed (rule tail)
  moreover have "clh_local s' j" if "j < N" for j using that other(1) loc by (cases "j = i") auto
  moreover have "clh_wait s' b = clh_wait s b"
    using q i f by (auto simp: clh_queue_def clh_frame_def)
  moreover have "clh_pc s' j = clh_pc s j" if "j \<noteq> i" for j using f that by (simp add: clh_frame_def)
  then have "{j. j < N \<and> clh_queued (clh_pc s' j)} = {j. j < N \<and> clh_queued (clh_pc s j)}"
    "\<forall>j\<in>set (tl q). \<not> clh_holds s' j" "\<forall>j\<ge>N. clh_pc s' j = ClhIdle"
    using q queued holds i by (auto simp: clh_queue_def clh_holds_def split: if_splits, metis+)
  moreover have "inj_on (clh_own s') {..<N} = inj_on (clh_own s) {..<N}"
    "clh_own s' ` {..<N} = clh_own s ` {..<N}"
    using own' by (auto simp: inj_on_def)
  ultimately show ?thesis using q by (simp add: clh_queue_def)
qed

lemma clh_first_passes:
  assumes q: "clh_queue N s b q" and p: "clh_pred s i = Some p" "clh_wait s p = 0"
  shows "i \<notin> set (tl q)"
  using clh_chain_waits [of s b q i] q p by (auto simp: clh_queue_def)

lemma clh_holder_first:
  assumes q: "clh_queue N s b q" and i: "i < N" "clh_holds s i"
  obtains q' where "q = i # q'"
proof -
  from i have "clh_queued (clh_pc s i)" by (auto simp: clh_holds_def clh_queued_def split: clh_pc.splits)
  with q i have "i \<in> set q" "i \<notin> set (tl q)" by (auto simp: clh_queue_def)
  with that show thesis by (cases q) auto
qed

lemma clh_pcs_stay:
  assumes q: "clh_queue N s b q" and i: "i < N"
  shows "clh_pc s i = ClhIdle \<Longrightarrow> clh_queue N (clh_set_wait i s) b q"
    and "clh_pc s i = ClhSwapped p \<Longrightarrow> clh_queue N (clh_store_prev i p s) b q"
    and "clh_pc s i = ClhTest p \<Longrightarrow> clh_queue N (clh_test w i p s) b q"
    and "clh_pc s i = ClhWFE p \<Longrightarrow> clh_queue N (clh_wfe i p s) b q"
    and "clh_pc s i = ClhLDXR p \<Longrightarrow> clh_queue N (clh_ldxr i p s) b q"
    and "clh_pc s i = ClhCS \<Longrightarrow> clh_queue N (clh_save_prev i s) b q"
    and "clh_pc s i = ClhReuse p \<Longrightarrow> clh_queue N (clh_reuse i p s) b q"
proof -
  have l: "clh_local s i" using q i by (simp add: clh_queue_def)
  note stay = clh_queue_stay [OF q i]
  note pass = clh_first_passes [OF q]
  show "clh_queue N (clh_set_wait i s) b q" if pc: "clh_pc s i = ClhIdle"
    by (rule stay) (auto simp: pc clh_queue_defs clh_step_defs clh_frame_def)
  show "clh_queue N (clh_store_prev i p s) b q" if pc: "clh_pc s i = ClhSwapped p"
    by (rule stay) (auto simp: pc clh_queue_defs clh_step_defs clh_frame_def)
  show "clh_queue N (clh_test w i p s) b q" if pc: "clh_pc s i = ClhTest p"
    by (rule stay) (use l pass [of i p] in \<open>auto simp: pc clh_queue_defs clh_step_defs clh_frame_def split: if_splits\<close>)
  show "clh_queue N (clh_wfe i p s) b q" if pc: "clh_pc s i = ClhWFE p"
    by (rule stay) (use l in \<open>auto simp: pc clh_queue_defs clh_step_defs clh_frame_def split: if_splits\<close>)
  show "clh_queue N (clh_ldxr i p s) b q" if pc: "clh_pc s i = ClhLDXR p"
    by (rule stay) (use l pass [of i p] in \<open>auto simp: pc clh_queue_defs clh_step_defs clh_frame_def split: if_splits\<close>)
  show "clh_queue N (clh_reuse i p s) b q" if pc: "clh_pc s i = ClhReuse p"
    by (rule stay) (auto simp: pc clh_queue_defs clh_step_defs clh_frame_def)
  show "clh_queue N (clh_save_prev i s) b q" if pc: "clh_pc s i = ClhCS"
  proof (rule stay)
    obtain q' where "q = i # q'" using clh_holder_first [OF q i] pc by (auto simp: clh_holds_def)
    with q pc have "clh_prev s (clh_node s i) = Some b" by (auto simp: clh_queue_def clh_pred_def)
    then show "clh_local (clh_save_prev i s) i" by (simp add: clh_local_def clh_save_prev_def)
  qed (use pc in \<open>auto simp: clh_queue_defs clh_step_defs clh_frame_def\<close>)
qed

lemma clh_queue_exchange:
  assumes q: "clh_queue N s b q" and i: "i < N" "clh_pc s i = ClhArmed"
  shows "clh_queue N (clh_exchange_tail i s) b (q @ [i])"
proof -
  let ?s = "clh_exchange_tail i s"
  have f: "clh_frame i s ?s" using i by (auto simp: clh_frame_def clh_step_defs)
  note other = clh_frame_other [OF q f _ i(1)]
  have fresh: "i \<notin> set q" using q i by (auto simp: clh_queue_def clh_queued_def)
  have own: "clh_own ?s = clh_own s" using i by (auto simp: fun_eq_iff clh_own_def clh_step_defs split: clh_pc.split)
  have "clh_chain ?s b (q @ [i])"
  proof (rule clh_chain_append)
    fix j assume "j \<in> set q"
    with q fresh have j: "j < N" "j \<noteq> i" "clh_queued (clh_pc s j)" by (auto simp: clh_queue_def)
    show "clh_pred ?s j = clh_pred s j \<and> clh_node ?s j = clh_node s j \<and>
        clh_wait ?s (clh_node s j) = clh_wait s (clh_node s j)" by (rule other(3) [OF j])
  qed (use q i in \<open>auto simp: clh_queue_def clh_pred_def clh_local_def clh_step_defs\<close>)
  moreover have "clh_local ?s j" if "j < N" for j
    using that other(1) i by (cases "j = i") (auto simp: clh_local_def clh_step_defs)
  moreover have "clh_wait ?s b = clh_wait s b" by (simp add: clh_step_defs)
  moreover have "insert i (set q) = {j. j < N \<and> clh_queued (clh_pc ?s j)}"
    "\<forall>j\<in>set (tl (q @ [i])). \<not> clh_holds ?s j" "\<forall>j\<ge>N. clh_pc ?s j = ClhIdle"
    using q i fresh
    by (auto simp: clh_queue_def clh_step_defs clh_queued_def clh_holds_def tl_append split: list.splits)
  ultimately show ?thesis using q fresh by (simp add: clh_queue_def own)
qed

text \<open>The release takes the first thread off; the node it leaves becomes the one the next waits for.\<close>

lemma clh_queue_unlock:
  assumes q: "clh_queue N s b q" and i: "i < N" "clh_pc s i = ClhUnlock p"
  shows "\<exists>q'. q = i # q' \<and> p = b \<and> clh_queue N (clh_unlock i p s) (clh_node s i) q'"
proof -
  let ?s = "clh_unlock i p s"
  obtain q' where q': "q = i # q'" using clh_holder_first [OF q i(1)] i by (auto simp: clh_holds_def)
  have pb: "p = b" using q i q' by (auto simp: clh_queue_def clh_pred_def clh_local_def)
  have oi: "clh_own s i = clh_node s i" using i by (simp add: clh_own_def)
  have f: "clh_frame i s ?s" using i oi by (auto simp: clh_frame_def clh_step_defs)
  note other = clh_frame_other [OF q f _ i(1)]
  have own: "clh_own ?s = (clh_own s)(i := b)"
    using i by (auto simp: fun_eq_iff clh_own_def clh_step_defs pb split: clh_pc.split)
  have "clh_chain ?s (clh_node s i) q' = clh_chain s (clh_node s i) q'"
  proof (rule clh_chain_cong)
    fix j assume "j \<in> set q'"
    with q q' have j: "j < N" "j \<noteq> i" "clh_queued (clh_pc s j)" by (auto simp: clh_queue_def)
    show "clh_pred ?s j = clh_pred s j \<and> clh_node ?s j = clh_node s j \<and>
        clh_wait ?s (clh_node s j) = clh_wait s (clh_node s j)" by (rule other(3) [OF j])
  qed (simp add: clh_step_defs)
  moreover have "clh_local ?s j" if "j < N" for j
    using that other(1) i by (cases "j = i") (auto simp: clh_local_def clh_step_defs)
  moreover have "clh_wait ?s (clh_node s i) = 0" by (simp add: clh_step_defs)
  moreover have "set q' = {j. j < N \<and> clh_queued (clh_pc ?s j)}"
    "\<forall>j\<in>set (tl q'). \<not> clh_holds ?s j" "\<forall>j\<ge>N. clh_pc ?s j = ClhIdle"
    using q i q'
    by (auto simp: clh_queue_def clh_step_defs clh_queued_def clh_holds_def set_eq_iff)
  moreover have "inj_on (clh_own ?s) {..<N}"
    using q unfolding own clh_queue_def by (intro inj_on_fun_updI) auto
  moreover have "b \<noteq> clh_node s i" using q i oi unfolding clh_queue_def by (metis imageI lessThan_iff)
  then have "clh_node s i \<noteq> clh_own ?s j" if "j < N" for j
    using clh_queue_nodes [OF q that i(1)] oi unfolding own by (cases "j = i") auto
  then have "clh_node s i \<notin> clh_own ?s ` {..<N}" by auto
  ultimately show ?thesis using q q' pb by (simp add: clh_queue_def)
qed

lemma clh_queue_step:
  assumes q: "clh_queue N s b q"
  shows "\<exists>b' q'. clh_queue N (clh_step w N i s) b' q' \<and>
     q' = (if i < N \<and> clh_pc s i = ClhArmed then q @ [i]
           else if i < N \<and> (\<exists>p. clh_pc s i = ClhUnlock p) then tl q else q)"
proof (cases "i < N")
  case True
  show ?thesis
  proof (cases "clh_pc s i")
    case ClhArmed
    with True clh_queue_exchange [OF q] show ?thesis by (auto simp: clh_step_def)
  next
    case (ClhUnlock p)
    with True clh_queue_unlock [OF q True ClhUnlock] show ?thesis by (auto simp: clh_step_def)
  qed (use True clh_pcs_stay [OF q True] in \<open>auto simp: clh_step_def\<close>)
qed (use q in \<open>auto simp: clh_step_def\<close>)

section \<open>Mutual exclusion\<close>

definition clh_init :: "nat \<Rightarrow> clh_state \<Rightarrow> bool" where
  "clh_init N s \<longleftrightarrow> clh_start N = Some s"

lemma clh_thread_local_init_fold:
  "\<exists>w n. fold clh_thread_local_init [0..<N] s = s\<lparr>clh_wait := w, clh_nodeptr := n\<rparr> \<and>
     w Lock_node = clh_wait s Lock_node \<and> (\<forall>i<N. n i = Some (Pool i))"
proof (induction N)
  case 0
  show ?case by (intro exI [of _ "clh_wait s"] exI [of _ "clh_nodeptr s"]) simp
next
  case (Suc N)
  then obtain w n where "fold clh_thread_local_init [0..<N] s = s\<lparr>clh_wait := w, clh_nodeptr := n\<rparr>"
    "w Lock_node = clh_wait s Lock_node" "\<forall>i<N. n i = Some (Pool i)" by blast
  then show ?case
    by (intro exI [of _ "w(Pool N := 1)"] exI [of _ "n(N := Some (Pool N))"])
      (auto simp: clh_thread_local_init_def [of N] less_Suc_eq fun_upd_def)
qed

lemma clh_queue_start: "clh_init N s \<Longrightarrow> clh_queue N s Lock_node []"
proof -
  assume "clh_init N s"
  then obtain s0 where s0: "clh_lock_init True True = Some s0" and s: "s = fold clh_thread_local_init [0..<N] s0"
    by (auto simp: clh_init_def clh_start_def)
  from clh_thread_local_init_fold [of N s0] obtain w n where e: "s = s0\<lparr>clh_wait := w, clh_nodeptr := n\<rparr>"
    "w Lock_node = clh_wait s0 Lock_node" "\<forall>i<N. n i = Some (Pool i)" unfolding s by blast
  then show ?thesis using s0
    by (auto simp: clh_queue_def clh_lock_init_def clh_own_def clh_local_def clh_queued_def inj_on_def image_iff)
qed

lemma clh_holds_below: "clh_queue N s b q \<Longrightarrow> clh_holds s i \<Longrightarrow> i < N"
  by (rule ccontr) (auto simp: clh_queue_def clh_holds_def)

interpretation clh: mutex_system "clh_init N" "clh_step w N" "clh_inv N" clh_holds for w N
proof unfold_locales
  show "clh_inv N s" if "clh_init N s" for s using clh_queue_start [OF that] by (auto simp: clh_inv_def)
  show "clh_inv N (clh_step w N i s)" if "clh_inv N s" for s i
    using that clh_queue_step unfolding clh_inv_def by blast
  show "i = j" if inv: "clh_inv N s" and h: "clh_holds s i" "clh_holds s j" for s i j
  proof -
    from inv obtain b q where q: "clh_queue N s b q" by (auto simp: clh_inv_def)
    from clh_holder_first [OF q clh_holds_below [OF q h(1)] h(1)]
      clh_holder_first [OF q clh_holds_below [OF q h(2)] h(2)] show ?thesis by (metis list.inject)
  qed
qed

section \<open>First come, first served\<close>

text \<open>The doorway is the exchange of the tail.\<close>

definition clh_requests :: "nat \<Rightarrow> tid \<Rightarrow> clh_state \<Rightarrow> tid list" where
  "clh_requests N i s = (if i < N \<and> clh_pc s i = ClhArmed then [i] else [])"

definition clh_entries :: "bool \<Rightarrow> nat \<Rightarrow> tid \<Rightarrow> clh_state \<Rightarrow> tid list" where
  "clh_entries w N i s = (if \<not> clh_holds s i \<and> clh_holds (clh_step w N i s) i then [i] else [])"

definition clh_waiting :: "nat \<Rightarrow> clh_state \<Rightarrow> tid list \<Rightarrow> bool" where
  "clh_waiting N s u \<longleftrightarrow> (\<exists>b q. clh_queue N s b q \<and>
     u = (if q \<noteq> [] \<and> clh_holds s (hd q) then tl q else q))"

lemma clh_waitingI:
  "clh_queue N s b q \<Longrightarrow> clh_waiting N s (if q \<noteq> [] \<and> clh_holds s (hd q) then tl q else q)"
  unfolding clh_waiting_def by blast

lemma clh_step_other: "j \<noteq> i \<Longrightarrow> clh_pc (clh_step w N i s) j = clh_pc s j"
  by (auto simp: clh_step_def clh_step_defs split: clh_pc.split)

lemma clh_step_holds_other: "j \<noteq> i \<Longrightarrow> clh_holds (clh_step w N i s) j = clh_holds s j"
  by (simp add: clh_holds_def clh_step_other)

lemma clh_enter_first:
  assumes q: "clh_queue N s b q" and h: "\<not> clh_holds s i" "clh_holds (clh_step w N i s) i"
  shows "clh_queue N (clh_step w N i s) b q" "\<exists>q'. q = i # q'"
proof -
  from h have i: "i < N" by (auto simp: clh_step_def split: if_splits)
  from h i have "clh_pc s i \<noteq> ClhArmed" "\<nexists>p. clh_pc s i = ClhUnlock p"
    by (auto simp: clh_step_def clh_step_defs clh_holds_def)
  with i clh_pcs_stay [OF q i]
  show s': "clh_queue N (clh_step w N i s) b q" by (cases "clh_pc s i") (auto simp: clh_step_def)
  from clh_holder_first [OF s' i h(2)] show "\<exists>q'. q = i # q'" by blast
qed

lemma clh_waiting_rest:
  assumes q: "clh_queue N s b q" and q1: "clh_queue N (clh_step w N i s) b' q1"
    and e: "q1 = (if i < N \<and> clh_pc s i = ClhArmed then q @ [i]
           else if i < N \<and> (\<exists>p. clh_pc s i = ClhUnlock p) then tl q else q)"
    and h: "\<not> (\<not> clh_holds s i \<and> clh_holds (clh_step w N i s) i)"
  shows "(if q1 \<noteq> [] \<and> clh_holds (clh_step w N i s) (hd q1) then tl q1 else q1) =
    (if q \<noteq> [] \<and> clh_holds s (hd q) then tl q else q) @ clh_requests N i s"
proof -
  note other = clh_step_holds_other [of _ i w N s]
  consider (enter) "i < N" "clh_pc s i = ClhArmed" | (out) p where "i < N" "clh_pc s i = ClhUnlock p"
    | (stay) "\<not> (i < N \<and> clh_pc s i = ClhArmed)" "\<not> (i < N \<and> (\<exists>p. clh_pc s i = ClhUnlock p))" by blast
  then show ?thesis
  proof cases
    case enter
    with q h have "i \<notin> set q" "\<not> clh_holds (clh_step w N i s) i"
      by (auto simp: clh_queue_def clh_queued_def clh_holds_def)
    with enter show ?thesis by (cases q) (auto simp: e clh_requests_def other)
  next
    case out
    then obtain q' where q': "q = i # q'" using clh_holder_first [OF q, of i] by (auto simp: clh_holds_def)
    with q have "\<forall>j\<in>set q'. \<not> clh_holds s j \<and> j \<noteq> i" by (auto simp: clh_queue_def)
    with out q' show ?thesis by (cases q') (auto simp: e clh_requests_def clh_holds_def [of s i] other)
  next
    case stay
    then have "clh_holds s i \<Longrightarrow> clh_holds (clh_step w N i s) i"
      by (auto simp: clh_step_def clh_step_defs clh_holds_def split: clh_pc.splits)
    with h have "clh_holds (clh_step w N i s) j = clh_holds s j" for j using other by (cases "j = i") auto
    with stay show ?thesis by (auto simp: e clh_requests_def)
  qed
qed

lemma clh_waiting_step:
  assumes "clh_waiting N s u"
  shows "\<exists>u'. clh_waiting N (clh_step w N i s) u' \<and> u @ clh_requests N i s = clh_entries w N i s @ u'"
proof -
  from assms obtain b q where q: "clh_queue N s b q"
    and u: "u = (if q \<noteq> [] \<and> clh_holds s (hd q) then tl q else q)" by (auto simp: clh_waiting_def)
  let ?s = "clh_step w N i s"
  show ?thesis
  proof (cases "\<not> clh_holds s i \<and> clh_holds ?s i")
    case True
    with clh_enter_first [OF q] obtain q' where "q = i # q'" "clh_queue N ?s b (i # q')" by blast
    moreover from True have "clh_requests N i s = []"
      by (auto simp: clh_requests_def clh_step_def clh_step_defs clh_holds_def)
    ultimately show ?thesis using True
      by (intro exI [of _ q']) (auto simp: u clh_entries_def clh_waiting_def intro!: exI [of _ b] exI [of _ "i # q'"])
  next
    case False
    obtain b' q1 where q1: "clh_queue N ?s b' q1" and e: "q1 = (if i < N \<and> clh_pc s i = ClhArmed then q @ [i]
           else if i < N \<and> (\<exists>p. clh_pc s i = ClhUnlock p) then tl q else q)"
      using clh_queue_step [OF q] by blast
    have "clh_waiting N ?s (u @ clh_requests N i s)"
      unfolding u clh_waiting_rest [OF q q1 e False, symmetric] by (rule clh_waitingI [OF q1])
    with False show ?thesis by (auto simp: clh_entries_def)
  qed
qed

interpretation clh: fifo_system "clh_init N" "clh_step w N" "clh_inv N" "clh_waiting N" "clh_requests N" "clh_entries w N"
  for w N
proof unfold_locales
  show "clh_waiting N s []" if "clh_init N s" for s
    using clh_queue_start [OF that] by (force simp: clh_waiting_def)
qed (rule clh_waiting_step)

section \<open>Progress\<close>

fun clh_work :: "clh_pc \<Rightarrow> nat" where
  "clh_work (ClhSwapped p) = 6"
| "clh_work (ClhTest p) = 5"
| "clh_work (ClhWFE p) = 5"
| "clh_work (ClhLDXR p) = 4"
| "clh_work ClhCS = 2"
| "clh_work (ClhUnlock p) = 1"
| "clh_work _ = 0"

fun clh_before_queue :: "clh_pc \<Rightarrow> nat" where
  "clh_before_queue (ClhReuse p) = 9"
| "clh_before_queue ClhIdle = 8"
| "clh_before_queue ClhArmed = 7"
| "clh_before_queue _ = 0"

definition clh_distance :: "nat \<Rightarrow> tid \<Rightarrow> clh_state \<Rightarrow> nat" where
  "clh_distance N j s = clh_before_queue (clh_pc s j) + (\<Sum>i<N. clh_work (clh_pc s i))"

text \<open>The first of the queue is never blocked: its predecessor's node is released, so its event is set.\<close>

lemma clh_first_moves:
  assumes q: "clh_queue N s b (i # q)"
  shows "clh_work (clh_pc (clh_step w N i s) i) < clh_work (clh_pc s i)"
proof -
  from q have i: "i < N" "clh_queued (clh_pc s i)" and p: "clh_pred s i = Some b" "clh_wait s b = 0" and l: "clh_local s i"
    by (auto simp: clh_queue_def)
  then show ?thesis
    by (cases "clh_pc s i") (auto simp: clh_step_def clh_step_defs clh_queue_defs)
qed

lemma clh_closer:
  assumes inv: "clh_inv N s" and goal: "\<not> (j < N \<longrightarrow> clh_holds s j)"
  shows "\<exists>i. clh_distance N j (clh_step w N i s) < clh_distance N j s"
proof -
  from inv obtain b q where q: "clh_queue N s b q" by (auto simp: clh_inv_def)
  have upd: "clh_pc (clh_step w N i s) = (clh_pc s)(i := clh_pc (clh_step w N i s) i)" for i
    by (auto simp: fun_eq_iff clh_step_other)
  have sums: "(\<Sum>k<N. clh_work (clh_pc (clh_step w N i s) k)) + clh_work (clh_pc s i)
      = (\<Sum>k<N. clh_work (clh_pc s k)) + clh_work (clh_pc (clh_step w N i s) i)" if "i < N" for i
    using sum_fun_upd [OF that, of clh_work "clh_pc s" "clh_pc (clh_step w N i s) i"] upd [of i] by simp
  show ?thesis
  proof (cases "clh_queued (clh_pc s j)")
    case True
    with goal q have "j \<in> set q" by (auto simp: clh_queue_def)
    then obtain i q' where q': "q = i # q'" by (cases q) auto
    have i: "i < N" using q q' by (auto simp: clh_queue_def)
    note less = clh_first_moves [OF q [unfolded q'], where w = w]
    have "clh_before_queue (clh_pc (clh_step w N i s) j) = 0"
      using True goal less i clh_step_other [of j i w N s]
      by (cases "j = i"; cases "clh_pc s j") (auto simp: clh_step_def clh_step_defs clh_queue_defs)
    with sums [OF i] less show ?thesis by (intro exI [of _ i]) (simp add: clh_distance_def)
  next
    case False
    from goal have j: "j < N" by simp
    have "clh_before_queue (clh_pc (clh_step w N j s) j) + clh_work (clh_pc (clh_step w N j s) j)
        < clh_before_queue (clh_pc s j) + clh_work (clh_pc s j)"
      using False j by (cases "clh_pc s j") (auto simp: clh_step_def clh_step_defs clh_queued_def)
    with sums [OF j] show ?thesis by (intro exI [of _ j]) (simp add: clh_distance_def)
  qed
qed

interpretation clh: progress_system "clh_init N" "clh_step w N" "clh_inv N"
  "\<lambda>s. j < N \<longrightarrow> clh_holds s j" "clh_distance N j" for w N j
  by unfold_locales (rule clh_closer)

section \<open>Properties\<close>

text \<open>C6: at most one thread is between the end of \<open>lock_acquire\<close> and the release of its node, in every
  interleaving of any number of threads, with and without wait-for-event, although the nodes
  change hands at every release.\<close>

theorem clh_mutual_exclusion:
  assumes "clh_start N = Some s"
    and "clh_holds (run (clh_step use_wfe N) ls s) i" and "clh_holds (run (clh_step use_wfe N) ls s) j"
  shows "i = j"
  by (rule clh.mutual_exclusion [of N s]) (use assms in \<open>simp_all add: clh_init_def\<close>)

theorem clh_mutual_exclusion_witness:
  "clh_holds (run (clh_step True 2) [0, 0, 1, 1, 0, 1, 0, 1] (the (clh_start 2))) 0 \<and>
   \<not> clh_holds (run (clh_step True 2) [0, 0, 1, 1, 0, 1, 0, 1] (the (clh_start 2))) 1"
proof -
  have s: "clh_start 2 = Some (the (clh_start 2))" by (simp add: clh_start_def clh_lock_init_def)
  have h: "clh_holds (run (clh_step True 2) [0, 0, 1, 1, 0, 1, 0, 1] (the (clh_start 2))) 0" by code_simp
  show ?thesis using h clh_mutual_exclusion [OF s, of True "[0, 0, 1, 1, 0, 1, 0, 1]" 0 1] by auto
qed

text \<open>C21: the lock is first come, first served: the sequence of threads that obtain it is at any time a
  prefix of the sequence of threads that exchanged the tail.\<close>

theorem clh_first_come_first_served:
  assumes "clh_start N = Some s"
  shows "\<exists>u. observe (clh_requests N) (clh_step use_wfe N) ls s
           = observe (clh_entries use_wfe N) (clh_step use_wfe N) ls s @ u"
  using clh.fifo [of N s use_wfe ls] assms by (auto simp: clh_init_def)

theorem clh_first_come_first_served_witness:
  "\<exists>u. [1, 0] = observe (clh_entries False 2) (clh_step False 2) [1, 1, 0, 0, 1, 0, 1, 0, 1, 1, 0] (the (clh_start 2)) @ u"
proof -
  have s: "clh_start 2 = Some (the (clh_start 2))" by (simp add: clh_start_def clh_lock_init_def)
  have "observe (clh_requests 2) (clh_step False 2) [1, 1, 0, 0, 1, 0, 1, 0, 1, 1, 0] (the (clh_start 2)) = [1, 0]"
    by code_simp
  then show ?thesis
    using clh_first_come_first_served [OF s, of False "[1, 1, 0, 0, 1, 0, 1, 0, 1, 1, 0]"] by simp
qed

text \<open>No wake-up is lost. From every reachable state every thread can still obtain the lock, although a
  thread in the event loop sleeps until the store to its predecessor's node raises an event.\<close>

theorem clh_never_stuck:
  assumes "clh_start N = Some s" and "j < N"
  shows "\<exists>ms. clh_holds (run (clh_step use_wfe N) (ls @ ms) s) j"
  using clh.never_stuck [of N s j use_wfe ls] assms by (auto simp: clh_init_def)

theorem clh_never_stuck_witness:
  "\<exists>ms. clh_holds (run (clh_step True 3) ([0, 0, 2, 2, 2, 2, 2, 2] @ ms) (the (clh_start 3))) 2"
proof -
  have s: "clh_start 3 = Some (the (clh_start 3))" by (simp add: clh_start_def clh_lock_init_def)
  show ?thesis using clh_never_stuck [OF s, of 2 True "[0, 0, 2, 2, 2, 2, 2, 2]"] by simp
qed

text \<open>Queue nodes are never shared: the node a thread may write is at no time that of another thread.
  This is what saving \<open>prev\<close> before \<open>clh_unlock\<close> is for.\<close>

theorem clh_nodes_private:
  assumes "clh_start N = Some s" and "i < N" and "j < N" and "i \<noteq> j"
  shows "clh_own (run (clh_step use_wfe N) ls s) i \<noteq> clh_own (run (clh_step use_wfe N) ls s) j"
proof -
  have "clh_inv N (run (clh_step use_wfe N) ls s)"
    by (rule clh.reachable_inv) (simp add: clh_init_def assms(1))
  then show ?thesis unfolding clh_inv_def using clh_queue_nodes(1) assms(2-) by blast
qed

theorem clh_nodes_private_witness:
  "clh_own (run (clh_step False 2) [0, 0, 0, 0, 0, 0, 1, 1, 0] (the (clh_start 2))) 0 \<noteq>
   clh_own (run (clh_step False 2) [0, 0, 0, 0, 0, 0, 1, 1, 0] (the (clh_start 2))) 1"
proof -
  have s: "clh_start 2 = Some (the (clh_start 2))" by (simp add: clh_start_def clh_lock_init_def)
  show ?thesis using clh_nodes_private [OF s, of 0 1 False "[0, 0, 0, 0, 0, 0, 1, 1, 0]"] by simp
qed

end
