(* ===== verification/Event_Mutex.thy ===== *)
theory Event_Mutex
  imports Lock_Prelude
begin

text \<open>
  The InnoDB event mutex of \<open>ext/mysql/event_mutex.h\<close> and its variant \<open>cas_event_mutex.h\<close>, whose
  \<open>tas_lock\<close> on AArch64 is a single load-exclusive/store-exclusive pair: the lock word, the event
  generation counter, the bounded spin loop, the wait for a new generation, and the pseudo random
  numbers that pace the spinning. A step is one access to shared memory.
\<close>

section \<open>Random delays\<close>

definition ut_rnd_gen_next_ulint :: "u64 \<Rightarrow> u64" where
  "ut_rnd_gen_next_ulint rnd0 =
     (let rnd1 = 119785373 * rnd0 + 126792457;
          rnd2 = 187678878 XOR rnd1;
          rnd3 = push_bit 20 rnd2 + drop_bit (64 - 20) rnd2;
          rnd4 = 85689495 * rnd3 + 63498502;
          rnd5 = 143537923 XOR rnd4;
          rnd6 = push_bit 20 rnd5 + drop_bit (64 - 20) rnd5
      in 151117737 * rnd6 + 98781234)"

text \<open>The new value of \<open>ut_rnd_ulint_counter\<close> and the number returned.\<close>

definition ut_rnd_counter_next :: "u64 \<Rightarrow> u64" where
  "ut_rnd_counter_next counter = 151117737 * counter + 119785373"

definition ut_rnd_gen_ulint :: "u64 \<Rightarrow> u64 \<times> u64" where
  "ut_rnd_gen_ulint counter =
     (let counter = ut_rnd_counter_next counter in (counter, ut_rnd_gen_next_ulint counter))"

definition ut_rnd_interval :: "u64 \<Rightarrow> u64 \<Rightarrow> u64 \<Rightarrow> u64 \<times> u64" where
  "ut_rnd_interval counter low high =
     (if low = high then (counter, low)
      else let (counter, rnd) = ut_rnd_gen_ulint counter in (counter, low + rnd mod (high - low)))"

text \<open>\<open>ut_delay\<close>: \<open>for (i = 0; i < delay * 50; i++) j += i\<close>.\<close>

fun ut_delay_loop :: "nat \<Rightarrow> u64 \<Rightarrow> u64 \<Rightarrow> u64" where
  "ut_delay_loop 0 i j = j"
| "ut_delay_loop (Suc n) i j = ut_delay_loop n (i + 1) (j + i)"

definition ut_delay :: "u64 \<Rightarrow> u64" where
  "ut_delay delay = ut_delay_loop (unat (delay * 50)) 0 0"

section \<open>The mutex\<close>

text \<open>\<open>MUTEX_STATE_UNLOCKED\<close> and \<open>MUTEX_STATE_LOCKED\<close>; \<open>MUTEX_STATE_WAITERS\<close> is never stored.\<close>

abbreviation MUTEX_STATE_UNLOCKED :: u64 where "MUTEX_STATE_UNLOCKED \<equiv> 0"
abbreviation MUTEX_STATE_LOCKED :: u64 where "MUTEX_STATE_LOCKED \<equiv> 1"

text \<open>\<open>Swap_TAS\<close>: \<open>swap64\<close>; \<open>Exclusive_TAS\<close>: the AArch64 body of \<open>cas_event_mutex.h\<close>.\<close>

datatype em_variant = Swap_TAS | Exclusive_TAS

text \<open>
  Where \<open>try_lock\<close> was called from: \<open>lock_enter\<close>, after \<open>is_free\<close>, or the last attempt before
  waiting; with the locals \<open>n_spins\<close>, \<open>max_spins\<close> and \<open>wait_state\<close>.
\<close>

datatype em_site = In_enter | After_free u32 u32 | Last_try u32 u32 u64

datatype em_pc = EmIdle | EmTry em_site | EmStore em_site | EmFree u32 u32 | EmGeneration u32 u32
  | EmWait u32 u32 u64 | EmCS u64 | EmSignal | EmSignalStore u64

record em_state =
  em_lock :: u64
  em_generation :: u64
  em_armed :: "tid \<Rightarrow> bool"
  em_pc :: "tid \<Rightarrow> em_pc"

abbreviation em_goto :: "tid \<Rightarrow> em_pc \<Rightarrow> em_state \<Rightarrow> em_state" where
  "em_goto i p s \<equiv> s\<lparr>em_pc := (em_pc s)(i := p)\<rparr>"

text \<open>A store to the lock word clears every exclusive monitor on it.\<close>

definition em_store_lock :: "u64 \<Rightarrow> em_state \<Rightarrow> em_state" where
  "em_store_lock v s = s\<lparr>em_lock := v, em_armed := (\<lambda>_. False)\<rparr>"

text \<open>What \<open>lock_enter\<close> and \<open>spin_and_try_lock\<close> do with the result of \<open>try_lock\<close>; \<open>step\<close> is 30.\<close>

definition em_try_result :: "em_site \<Rightarrow> bool \<Rightarrow> em_pc" where
  "em_try_result site ok = (case site of
     In_enter \<Rightarrow> if ok then EmCS 0 else EmFree 0 30
   | After_free n_spins max_spins \<Rightarrow> if ok then EmCS (ucast n_spins) else EmFree n_spins max_spins
   | Last_try n_spins max_spins wait_state \<Rightarrow>
       if ok then EmCS (ucast n_spins) else EmWait n_spins max_spins wait_state)"

definition tas_lock :: "em_variant \<Rightarrow> tid \<Rightarrow> em_site \<Rightarrow> em_state \<Rightarrow> em_state" where
  "tas_lock v i site s = (case v of
     Swap_TAS \<Rightarrow> em_goto i (em_try_result site (em_lock s = MUTEX_STATE_UNLOCKED)) (em_store_lock MUTEX_STATE_LOCKED s)
   | Exclusive_TAS \<Rightarrow> (if em_lock s \<noteq> MUTEX_STATE_UNLOCKED
       then em_goto i (em_try_result site False) (s\<lparr>em_armed := (em_armed s)(i := True)\<rparr>)
       else em_goto i (EmStore site) (s\<lparr>em_armed := (em_armed s)(i := True)\<rparr>)))"

text \<open>The store-exclusive of the AArch64 body; \<open>lost\<close>: the monitor was lost for another reason.\<close>

definition tas_lock_store :: "bool \<Rightarrow> tid \<Rightarrow> em_site \<Rightarrow> em_state \<Rightarrow> em_state" where
  "tas_lock_store lost i site s =
     (if em_armed s i \<and> \<not> lost
      then em_goto i (em_try_result site True) (em_store_lock MUTEX_STATE_LOCKED s)
      else em_goto i (em_try_result site False) (s\<lparr>em_armed := (em_armed s)(i := False)\<rparr>))"

text \<open>One pass of the loop of \<open>is_free\<close>, and \<open>max_spins = n_spins + step\<close> when it gives up.\<close>

definition is_free :: "tid \<Rightarrow> u32 \<Rightarrow> u32 \<Rightarrow> em_state \<Rightarrow> em_state" where
  "is_free i n_spins max_spins s =
     (if em_lock s = MUTEX_STATE_UNLOCKED then em_goto i (EmTry (After_free n_spins max_spins)) s
      else let n_spins = n_spins + 1 in
        if n_spins < max_spins then em_goto i (EmFree n_spins max_spins) s
        else em_goto i (EmGeneration n_spins (n_spins + 30)) s)"

text \<open>\<open>spin_and_try_lock\<close>: read the generation, and wait until it has another value.\<close>

definition read_generation :: "tid \<Rightarrow> u32 \<Rightarrow> u32 \<Rightarrow> em_state \<Rightarrow> em_state" where
  "read_generation i n_spins max_spins s =
     em_goto i (EmTry (Last_try n_spins max_spins (em_generation s))) s"

definition wait_generation :: "tid \<Rightarrow> u32 \<Rightarrow> u32 \<Rightarrow> u64 \<Rightarrow> em_state \<Rightarrow> em_state" where
  "wait_generation i n_spins max_spins wait_state s =
     (if em_generation s = wait_state then s else em_goto i (EmFree n_spins max_spins) s)"

text \<open>\<open>lock_exit\<close>: \<open>tas_unlock\<close>, then \<open>lock_signal\<close>, a load and a store of the generation.\<close>

definition tas_unlock :: "tid \<Rightarrow> em_state \<Rightarrow> em_state" where
  "tas_unlock i s = em_goto i EmSignal (em_store_lock MUTEX_STATE_UNLOCKED s)"

definition lock_signal_load :: "tid \<Rightarrow> em_state \<Rightarrow> em_state" where
  "lock_signal_load i s = em_goto i (EmSignalStore (em_generation s)) s"

definition lock_signal_store :: "tid \<Rightarrow> u64 \<Rightarrow> em_state \<Rightarrow> em_state" where
  "lock_signal_store i version s = em_goto i EmIdle (s\<lparr>em_generation := version + 1\<rparr>)"

text \<open>A label is the thread that moves and whether its store-exclusive fails spuriously.\<close>

definition em_step :: "em_variant \<Rightarrow> nat \<Rightarrow> tid \<times> bool \<Rightarrow> em_state \<Rightarrow> em_state" where
  "em_step v N l s = (let i = fst l in if i < N then (case em_pc s i of
       EmIdle \<Rightarrow> tas_lock v i In_enter s
     | EmTry site \<Rightarrow> tas_lock v i site s
     | EmStore site \<Rightarrow> tas_lock_store (snd l) i site s
     | EmFree n_spins max_spins \<Rightarrow> is_free i n_spins max_spins s
     | EmGeneration n_spins max_spins \<Rightarrow> read_generation i n_spins max_spins s
     | EmWait n_spins max_spins wait_state \<Rightarrow> wait_generation i n_spins max_spins wait_state s
     | EmCS n_spins \<Rightarrow> tas_unlock i s
     | EmSignal \<Rightarrow> lock_signal_load i s
     | EmSignalStore version \<Rightarrow> lock_signal_store i version s) else s)"

text \<open>\<open>event_mutex_init\<close>; \<open>ev_generation\<close> is a zero-initialized global.\<close>

definition event_mutex_init :: em_state where
  "event_mutex_init = \<lparr>em_lock = MUTEX_STATE_UNLOCKED, em_generation = 0, em_armed = (\<lambda>_. False), em_pc = (\<lambda>_. EmIdle)\<rparr>"

definition em_holds :: "em_state \<Rightarrow> tid \<Rightarrow> bool" where
  "em_holds s i = (case em_pc s i of EmCS _ \<Rightarrow> True | _ \<Rightarrow> False)"

section \<open>Mutual exclusion\<close>

text \<open>
  A held lock word is 1, and a monitor armed between the two accesses of the exclusive pair
  means that the word is still the 0 that was loaded.
\<close>

definition em_inv :: "em_state \<Rightarrow> bool" where
  "em_inv s \<longleftrightarrow> (\<forall>i j. em_holds s i \<and> em_holds s j \<longrightarrow> i = j) \<and>
     (\<forall>i. em_holds s i \<longrightarrow> em_lock s = MUTEX_STATE_LOCKED) \<and>
     (\<forall>i site. em_pc s i = EmStore site \<and> em_armed s i \<longrightarrow> em_lock s = MUTEX_STATE_UNLOCKED)"

lemmas em_step_defs = tas_lock_def tas_lock_store_def is_free_def read_generation_def wait_generation_def
  tas_unlock_def lock_signal_load_def lock_signal_store_def em_store_lock_def em_try_result_def Let_def

lemma em_holds_iff: "em_holds s i \<longleftrightarrow> (\<exists>n. em_pc s i = EmCS n)"
  by (auto simp: em_holds_def split: em_pc.splits)

lemma em_try_result_cases:
  "em_try_result site ok = EmCS n \<Longrightarrow> ok" "em_try_result site ok \<noteq> EmStore site'"
  by (auto simp: em_try_result_def split: em_site.splits if_splits)

lemma em_inv_take:
  assumes "em_inv s" "em_lock s = MUTEX_STATE_UNLOCKED"
  shows "em_inv (em_goto i (em_try_result site True) (em_store_lock MUTEX_STATE_LOCKED s))"
  using assms by (auto simp: em_inv_def em_holds_iff em_store_lock_def em_try_result_cases)

text \<open>A thread that does not take the lock, and leaves the word as it is or stores 1 to a locked word.\<close>

lemma em_inv_other:
  assumes "em_inv s" "em_lock s' = em_lock s \<or> em_lock s' = MUTEX_STATE_LOCKED \<and> em_lock s \<noteq> MUTEX_STATE_UNLOCKED"
    and "em_pc s' = (em_pc s)(i := p)" "\<forall>n. p \<noteq> EmCS n"
    and "\<forall>j. j \<noteq> i \<longrightarrow> em_armed s' j \<longrightarrow> em_armed s j"
    and "\<forall>site. p = EmStore site \<longrightarrow> em_lock s' = MUTEX_STATE_UNLOCKED"
  shows "em_inv s'"
  using assms unfolding em_inv_def em_holds_iff by (metis fun_upd_apply)

lemma em_inv_step:
  assumes "em_inv s"
  shows "em_inv (em_step v N l s)"
proof (cases "fst l < N")
  case True
  define i where "i = fst l"
  note other = em_inv_other [OF assms, where i = i]
  have fail: "em_try_result site False \<noteq> EmCS n" for site n using em_try_result_cases(1) by blast
  have tas: "em_inv (tas_lock v i site s)" for site
  proof (cases "em_lock s = MUTEX_STATE_UNLOCKED")
    case True
    show ?thesis
    proof (cases v)
      case Swap_TAS
      with True em_inv_take [OF assms True] show ?thesis by (simp add: tas_lock_def)
    next
      case Exclusive_TAS
      with True show ?thesis by (intro other [of _ "EmStore site"]) (auto simp: tas_lock_def)
    qed
  next
    case False
    then show ?thesis
      by (intro other [of _ "em_try_result site False"])
        (auto simp: tas_lock_def em_store_lock_def fail em_try_result_cases split: em_variant.split)
  qed
  have "em_inv (tas_lock_store b i site s)" if "em_pc s i = EmStore site" for b site
  proof (cases "em_armed s i \<and> \<not> b")
    case True
    with that assms have "em_lock s = MUTEX_STATE_UNLOCKED" by (auto simp: em_inv_def)
    with True em_inv_take [OF assms] show ?thesis by (simp add: tas_lock_store_def)
  next
    case False
    then show ?thesis
      by (intro other [of _ "em_try_result site False"])
        (auto simp: tas_lock_store_def fail em_try_result_cases)
  qed
  moreover have "em_inv (is_free i n m s)" for n m
    by (rule other [of _ "em_pc (is_free i n m s) i"]) (auto simp: is_free_def Let_def split: if_splits)
  moreover have "em_inv (tas_unlock i s)" if "em_pc s i = EmCS n" for n
    using that assms by (auto simp: em_inv_def em_holds_iff tas_unlock_def em_store_lock_def split: if_splits)
  ultimately show ?thesis using True assms tas other
    by (cases "em_pc s i")
      (auto simp: em_step_def i_def [symmetric] em_step_defs Let_def)
qed (use assms in \<open>simp add: em_step_def Let_def\<close>)

interpretation em: mutex_system "\<lambda>s. s = event_mutex_init" "em_step v N" em_inv em_holds for v N
proof unfold_locales
  show "em_inv s" if "s = event_mutex_init" for s
    using that by (simp add: em_inv_def em_holds_iff event_mutex_init_def)
qed (erule em_inv_step, simp add: em_inv_def)

section \<open>The random numbers\<close>

text \<open>Multiplication by an odd constant, xor and rotation are permutations of the 64-bit words.\<close>

lemma inj_odd_affine:
  fixes a c d :: u64
  assumes "d * a = 1" "a * x + c = a * y + c"
  shows "x = y"
proof -
  from assms(2) have "d * a * x = d * a * y" by (simp add: mult.assoc)
  with assms(1) show ?thesis by simp
qed

lemma rotate_add_or: "push_bit 20 x + drop_bit 44 x = (push_bit 20 x OR drop_bit 44 x :: u64)"
  by (rule disjunctive_add) (auto simp: bit_simps dest: bit_imp_le_length)

lemma inj_rotate:
  assumes "push_bit 20 x + drop_bit 44 x = push_bit 20 y + drop_bit 44 (y :: u64)"
  shows "x = y"
proof (rule bit_word_eqI)
  fix n assume n: "n < LENGTH(64)"
  let ?rot = "\<lambda>x :: u64. push_bit 20 x OR drop_bit 44 x"
  have rot: "bit (?rot x) m = bit (?rot y) m" for m using assms by (simp add: rotate_add_or)
  have hi: "bit (?rot z) (n + 20) = bit z n" if "n < 44" for z :: u64
    using that by (auto simp: bit_simps dest: bit_imp_le_length)
  have lo: "bit (?rot z) (n - 44) = bit z n" if "\<not> n < 44" for z :: u64
    using that n by (auto simp: bit_simps)
  show "bit x n = bit y n"
  proof (cases "n < 44")
    case True
    from hi [OF True, of x] hi [OF True, of y] rot [of "n + 20"] show ?thesis by blast
  next
    case False
    from lo [OF False, of x] lo [OF False, of y] rot [of "n - 44"] show ?thesis by blast
  qed
qed

lemma inj_xor: "(c XOR x :: u64) = c XOR y \<Longrightarrow> x = y"
  by (auto simp: bit_eq_iff bit_simps)

lemma ut_rnd_gen_next_inj:
  assumes "ut_rnd_gen_next_ulint x = ut_rnd_gen_next_ulint y"
  shows "x = y"
proof -
  let ?rot = "\<lambda>x :: u64. push_bit 20 x + drop_bit 44 x"
  let ?mid = "\<lambda>x. 85689495 * ?rot (187678878 XOR (119785373 * x + 126792457)) + 63498502"
  have n: "(64 :: nat) - 20 = 44" by simp
  from assms have "151117737 * ?rot (143537923 XOR ?mid x) + 98781234 = 151117737 * ?rot (143537923 XOR ?mid y) + 98781234"
    unfolding ut_rnd_gen_next_ulint_def Let_def n .
  then have "?rot (143537923 XOR ?mid x) = ?rot (143537923 XOR ?mid y)"
    by (rule inj_odd_affine [rotated, of _ _ _ _ 17373344895703135385]) simp
  then have "?mid x = ?mid y" by (rule inj_xor [OF inj_rotate])
  then have "?rot (187678878 XOR (119785373 * x + 126792457)) = ?rot (187678878 XOR (119785373 * y + 126792457))"
    by (rule inj_odd_affine [rotated, of _ _ _ _ 17795728612188502823]) simp
  then have "119785373 * x + 126792457 = 119785373 * y + 126792457" by (rule inj_xor [OF inj_rotate])
  then show ?thesis by (rule inj_odd_affine [rotated, of _ _ _ _ 1656435614431573685]) simp
qed

text \<open>
  The counter is a linear congruential generator \<open>a * x + c\<close> with \<open>a mod 4 = 1\<close> and \<open>c\<close> odd: doing
  \<open>2 ^ k\<close> calls adds an odd multiple of \<open>2 ^ k\<close>.
\<close>

locale lcg =
  fixes a c :: int
  assumes a: "a mod 4 = 1" and c: "odd c"
begin

definition next_int :: "int \<Rightarrow> int" where "next_int x = a * x + c"

lemma next_int_iterate: "(next_int ^^ n) x = a ^ n * x + c * (\<Sum>i<n. a ^ i)"
  by (induction n) (simp_all add: next_int_def algebra_simps sum_distrib_left [symmetric] sum.lessThan_Suc_shift
      del: sum.lessThan_Suc)

lemma power_form: "\<exists>t. a ^ (2 ^ k) = 1 + 2 ^ (k + 2) * t"
proof (induction k)
  case 0
  have "a = 1 + 4 * (a div 4)" using a by presburger
  then show ?case by auto
next
  case (Suc k)
  then obtain t where t: "a ^ (2 ^ k) = 1 + 2 ^ (k + 2) * t" by blast
  have "a ^ (2 ^ Suc k) = a ^ (2 ^ k) * a ^ (2 ^ k)" by (simp add: power_add [symmetric] mult_2)
  also have "\<dots> = 1 + 2 ^ (Suc k + 2) * (t + 2 ^ (k + 1) * (t * t))"
    by (simp add: t algebra_simps power_add)
  finally show ?case by blast
qed

lemma sum_double: "(\<Sum>i<n + n. a ^ i) = (\<Sum>i<n. a ^ i) * (1 + a ^ n)"
proof -
  have "(\<Sum>i<n + m. a ^ i) = (\<Sum>i<n. a ^ i) + a ^ n * (\<Sum>i<m. a ^ i)" for m
    by (induction m) (simp_all add: algebra_simps power_add)
  then show ?thesis by (simp add: algebra_simps)
qed

lemma sum_form: "\<exists>t. (\<Sum>i<2 ^ k. a ^ i) = 2 ^ k * (1 + 2 * t)"
proof (induction k)
  case 0
  show ?case by (intro exI [of _ 0]) simp
next
  case (Suc k)
  then obtain t where t: "(\<Sum>i<2 ^ k. a ^ i) = 2 ^ k * (1 + 2 * t)" by blast
  obtain u where u: "a ^ (2 ^ k) = 1 + 2 ^ (k + 2) * u" using power_form by blast
  have "(2 :: nat) ^ Suc k = 2 ^ k + 2 ^ k" by simp
  then have "(\<Sum>i<2 ^ Suc k. a ^ i) = 2 ^ k * (1 + 2 * t) * (1 + (1 + 2 ^ (k + 2) * u))"
    by (simp only: sum_double t u)
  also have "\<dots> = 2 ^ Suc k * (1 + 2 * (t + 2 ^ k * u * (1 + 2 * t)))"
    by (simp add: algebra_simps power_add)
  finally show ?case by blast
qed

lemma block: "\<exists>t. (next_int ^^ (2 ^ k)) x = x + 2 ^ k * (1 + 2 * t)"
proof -
  obtain t where t: "(\<Sum>i<2 ^ k. a ^ i) = 2 ^ k * (1 + 2 * t)" using sum_form by blast
  obtain u where u: "a ^ (2 ^ k) = 1 + 2 ^ (k + 2) * u" using power_form by blast
  obtain d where d: "c = 1 + 2 * d" using c by (auto elim: oddE)
  have "(next_int ^^ (2 ^ k)) x = x + 2 ^ k * (1 + 2 * (2 * u * x + t + d + 2 * d * t))"
    unfolding next_int_iterate t u by (simp add: d algebra_simps power_add)
  then show ?thesis by blast
qed

lemma blocks: "\<exists>t. (next_int ^^ (2 ^ k * m)) x = x + 2 ^ k * (int m + 2 * t)"
proof (induction m)
  case 0
  show ?case by (intro exI [of _ 0]) simp
next
  case (Suc m)
  then obtain t where t: "(next_int ^^ (2 ^ k * m)) x = x + 2 ^ k * (int m + 2 * t)" by blast
  obtain u where u: "(next_int ^^ (2 ^ k)) (x + 2 ^ k * (int m + 2 * t)) =
      x + 2 ^ k * (int m + 2 * t) + 2 ^ k * (1 + 2 * u)" using block by blast
  have "(next_int ^^ (2 ^ k * Suc m)) x = (next_int ^^ (2 ^ k)) ((next_int ^^ (2 ^ k * m)) x)"
    by (simp add: funpow_add)
  also have "\<dots> = x + 2 ^ k * (int (Suc m) + 2 * (t + u))"
    unfolding t u by (simp add: algebra_simps)
  finally show ?case by blast
qed

lemma odd_part: "0 < n \<Longrightarrow> \<exists>k m. n = 2 ^ k * m \<and> odd (m :: nat)"
proof (induction n rule: less_induct)
  case (less n)
  show ?case
  proof (cases "odd n")
    case True
    then show ?thesis by (intro exI [of _ 0] exI [of _ n]) simp
  next
    case False
    then obtain l where l: "n = 2 * l" by auto
    with less obtain k m where "l = 2 ^ k * m" "odd m" by (metis gr0I mult_0_right mult_2 not_add_less1 linorder_neqE_nat less_add_same_cancel1)
    with l show ?thesis by (intro exI [of _ "Suc k"] exI [of _ m]) simp
  qed
qed

lemma period: "(next_int ^^ n) x mod 2 ^ w = x mod 2 ^ w \<longleftrightarrow> 2 ^ w dvd n"
proof
  assume "2 ^ w dvd n"
  then obtain m where n: "n = 2 ^ w * m" by blast
  with blocks [of w m x] show "(next_int ^^ n) x mod 2 ^ w = x mod 2 ^ w" by auto
next
  assume e: "(next_int ^^ n) x mod 2 ^ w = x mod 2 ^ w"
  show "2 ^ w dvd n"
  proof (cases "n = 0")
    case False
    then obtain k m where n: "n = 2 ^ k * m" "odd m" using odd_part by blast
    obtain t where t: "(next_int ^^ n) x = x + 2 ^ k * (int m + 2 * t)" using blocks n by blast
    have "w \<le> k"
    proof (rule ccontr)
      assume "\<not> w \<le> k"
      have "(2 :: int) ^ w dvd 2 ^ k * (int m + 2 * t)" using e by (simp add: t mod_eq_dvd_iff)
      moreover have "(2 :: int) ^ Suc k dvd 2 ^ w" using \<open>\<not> w \<le> k\<close> by (intro le_imp_power_dvd) simp
      ultimately have "(2 :: int) ^ Suc k dvd 2 ^ k * (int m + 2 * t)" by (rule dvd_trans [rotated])
      then have "even (int m + 2 * t)" by (simp add: mult.commute)
      with n show False by simp
    qed
    then show ?thesis using n by (simp add: le_imp_power_dvd)
  qed simp
qed

end

interpretation ut_counter: lcg 151117737 119785373
  by unfold_locales simp_all

lemma counter_next_iterate:
  "(ut_rnd_counter_next ^^ n) (word_of_int x) = word_of_int ((ut_counter.next_int ^^ n) x)"
  by (induction n) (simp_all add: ut_rnd_counter_next_def ut_counter.next_int_def)

lemma counter_period: "(ut_rnd_counter_next ^^ n) x = x \<longleftrightarrow> 2 ^ 64 dvd n"
proof -
  have "(ut_rnd_counter_next ^^ n) (word_of_int (uint x)) = word_of_int (uint x) \<longleftrightarrow>
      (ut_counter.next_int ^^ n) (uint x) mod 2 ^ 64 = uint x mod 2 ^ 64"
    unfolding counter_next_iterate word_of_int_eq_iff by (simp add: take_bit_eq_mod)
  then show ?thesis by (simp only: ut_counter.period word_of_int_uint)
qed

text \<open>The number that call \<open>n\<close> (from 0) of \<open>ut_rnd_gen_ulint\<close> returns.\<close>

definition ut_rnd_call :: "u64 \<Rightarrow> nat \<Rightarrow> u64" where
  "ut_rnd_call counter n = snd (ut_rnd_gen_ulint (((\<lambda>k. fst (ut_rnd_gen_ulint k)) ^^ n) counter))"

lemma ut_rnd_call_eq: "ut_rnd_call counter n = ut_rnd_gen_next_ulint ((ut_rnd_counter_next ^^ Suc n) counter)"
proof -
  have "(\<lambda>k. fst (ut_rnd_gen_ulint k)) = ut_rnd_counter_next"
    by (simp add: fun_eq_iff ut_rnd_gen_ulint_def Let_def)
  then show ?thesis by (simp add: ut_rnd_call_def ut_rnd_gen_ulint_def Let_def)
qed

lemma ut_delay_loop_sum: "ut_delay_loop n i j = j + of_nat n * i + of_nat (n * (n - 1) div 2)"
proof (induction n arbitrary: i j)
  case (Suc n)
  have "Suc n * n div 2 = n * (n - 1) div 2 + n" by (cases n) auto
  then show ?case using Suc by (simp add: algebra_simps del: mult_Suc)
qed simp

text \<open>A run in which a delayed store of \<open>lock_signal\<close> undoes another thread's signal.\<close>

definition lost_wakeup_schedule :: "(tid \<times> bool) list" where
  "lost_wakeup_schedule = map (\<lambda>i. (i, False))
     ([0, 0, 0] @ [1, 1, 1, 1, 1] @ replicate 33 2 @ [1, 1, 1] @ [0])"

section \<open>Properties\<close>

text \<open>C8: at most one thread is in the critical section of the event mutex, whether \<open>tas_lock\<close> is an exchange
  or a load-exclusive/store-exclusive pair that other stores and spurious failures may break.\<close>

theorem event_mutex_mutual_exclusion:
  assumes "em_holds (run (em_step v N) ls event_mutex_init) i"
    and "em_holds (run (em_step v N) ls event_mutex_init) j"
  shows "i = j"
  by (rule em.mutual_exclusion [OF refl assms])

theorem event_mutex_mutual_exclusion_witness:
  "em_holds (run (em_step Exclusive_TAS 2) [(0, False), (1, False), (1, False), (0, False)] event_mutex_init) 1 \<and>
   \<not> em_holds (run (em_step Exclusive_TAS 2) [(0, False), (1, False), (1, False), (0, False)] event_mutex_init) 0"
proof -
  let ?ls = "[(0, False), (1, False), (1, False), (0, False)] :: (tid \<times> bool) list"
  have h: "em_holds (run (em_step Exclusive_TAS 2) ?ls event_mutex_init) 1" by code_simp
  then show ?thesis using event_mutex_mutual_exclusion [OF h, of 0] by auto
qed

text \<open>C34: a wake-up can be lost. \<open>lock_signal\<close> increments the generation with a separate load and store, so a
  delayed store can set it back to the value a waiting thread remembers. In the run below thread 2
  ends up waiting while the lock is free and the other threads have left; no matter how long it
  spins it does not move.\<close>

theorem event_mutex_lost_wakeup:
  "em_lock (run (em_step Swap_TAS 3) lost_wakeup_schedule event_mutex_init) = MUTEX_STATE_UNLOCKED \<and>
   em_pc (run (em_step Swap_TAS 3) lost_wakeup_schedule event_mutex_init) 0 = EmIdle \<and>
   em_pc (run (em_step Swap_TAS 3) lost_wakeup_schedule event_mutex_init) 1 = EmIdle \<and>
   em_pc (run (em_step Swap_TAS 3) (lost_wakeup_schedule @ replicate n (2, False)) event_mutex_init) 2 = EmWait 30 60 1"
proof -
  let ?s = "run (em_step Swap_TAS 3) lost_wakeup_schedule event_mutex_init"
  have pc: "em_pc ?s 2 = EmWait 30 60 1" and g: "em_generation ?s = 1" by code_simp+
  have "em_step Swap_TAS 3 (2, False) ?s = ?s"
    by (simp add: em_step_def Let_def pc g wait_generation_def del: run.simps)
  then have "run (em_step Swap_TAS 3) (lost_wakeup_schedule @ replicate n (2, False)) event_mutex_init = ?s"
    unfolding run_append by (rule run_replicate_fix)
  moreover have "em_lock ?s = MUTEX_STATE_UNLOCKED" "em_pc ?s 0 = EmIdle" "em_pc ?s 1 = EmIdle" by code_simp+
  ultimately show ?thesis using pc by simp
qed

text \<open>The pseudo random numbers enumerate the 64-bit integers, as the comment says for the word size:
  two calls return the same number exactly when a multiple of \<open>2 ^ 64\<close> calls lies between them.\<close>

theorem ut_rnd_full_period:
  "ut_rnd_call counter n = ut_rnd_call counter (n + d) \<longleftrightarrow> 2 ^ 64 dvd d"
proof -
  let ?y = "(ut_rnd_counter_next ^^ Suc n) counter"
  have "(ut_rnd_counter_next ^^ Suc (n + d)) counter = (ut_rnd_counter_next ^^ d) ?y"
    by (simp only: funpow_add [symmetric, THEN fun_cong, unfolded o_apply] add_Suc_right add.commute [of n])
  then have "ut_rnd_call counter n = ut_rnd_call counter (n + d) \<longleftrightarrow> ?y = (ut_rnd_counter_next ^^ d) ?y"
    unfolding ut_rnd_call_eq using ut_rnd_gen_next_inj by metis
  then show ?thesis using counter_period [of d ?y] by metis
qed

text \<open>C23: \<open>ut_rnd_interval(low, high)\<close> returns a number of the half-open interval: \<open>low\<close> can occur, \<open>high\<close> cannot,
  unlike its documentation says; so the delay per spin is below \<open>max_delay\<close>. The result of \<open>ut_delay\<close>
  is the sum of the loop indices.\<close>

theorem ut_rnd_interval_range:
  assumes "low < high"
  shows "low \<le> snd (ut_rnd_interval counter low high) \<and> snd (ut_rnd_interval counter low high) < high \<and>
    ut_delay delay = of_nat (unat (delay * 50) * (unat (delay * 50) - 1) div 2)"
proof -
  obtain counter' rnd where g: "ut_rnd_gen_ulint counter = (counter', rnd)" by force
  have "0 < high - low" using assms by (simp add: word_gt_0)
  then have "rnd mod (high - low) < high - low" by (simp add: word_mod_less_divisor)
  then have m: "unat (rnd mod (high - low)) < unat high - unat low"
    using assms by (simp only: word_less_nat_alt unat_sub_if') (simp split: if_splits)
  have "unat high < 2 ^ 64" using unsigned_less [of high, where 'a = nat] by simp
  with m have "unat low + unat (rnd mod (high - low)) < 2 ^ 64" by linarith
  then have "unat (low + rnd mod (high - low)) = unat low + unat (rnd mod (high - low))"
    by (simp only: unat_plus_if') simp
  with m have "low \<le> low + rnd mod (high - low) \<and> low + rnd mod (high - low) < high"
    unfolding word_le_nat_alt word_less_nat_alt by linarith
  then show ?thesis
    using assms by (simp add: ut_rnd_interval_def g ut_delay_def ut_delay_loop_sum)
qed

theorem ut_rnd_interval_range_witness:
  "snd (ut_rnd_interval 65654363 0 600) < 600"
  using ut_rnd_interval_range [of 0 600 65654363 0] by simp

end
