(* ===== verification/Atomics.thy ===== *)
theory Atomics
  imports Lock_Prelude
begin

text \<open>
  The atomic primitives of \<open>include/atomics.h\<close>. Each C function has four bodies, selected at
  build time: x86-64 assembly, AArch64 assembly with LSE instructions, AArch64 assembly with a
  load-exclusive/store-exclusive loop, and the compiler's built-ins. The model gives every body:
  the value returned, the value left in memory and the ordering the instructions provide.
\<close>

section \<open>Instructions\<close>

datatype build = X86_asm | A64_LSE | A64_LLSC | Builtin

datatype order = Relaxed | Acquire | Release | AcqRel

definition acquires :: "order \<Rightarrow> bool" where
  "acquires o' \<longleftrightarrow> o' = Acquire \<or> o' = AcqRel"

definition releases :: "order \<Rightarrow> bool" where
  "releases o' \<longleftrightarrow> o' = Release \<or> o' = AcqRel"

text \<open>What an atomic access did: the old value, the new value and its ordering.\<close>

record 'w rmw =
  rmw_old :: 'w
  rmw_new :: 'w
  rmw_order :: order

text \<open>
  A read-modify-write is given by \<open>f\<close>: \<open>f old\<close> is the value stored, or \<open>None\<close> when nothing is.
\<close>

definition atomic_rmw :: "order \<Rightarrow> ('w \<Rightarrow> 'w option) \<Rightarrow> 'w \<Rightarrow> 'w rmw" where
  "atomic_rmw o' f m = \<lparr>rmw_old = m, rmw_new = (case f m of None \<Rightarrow> m | Some v \<Rightarrow> v), rmw_order = o'\<rparr>"

text \<open>
  One pass through an exclusive loop, as the other threads see it: a value they may store before
  the load-exclusive, one they may store between it and the store-exclusive (which then fails),
  and whether the store-exclusive fails on its own (an interrupt, an evicted line).
\<close>

record 'w attempt =
  before_load :: "'w option"
  before_store :: "'w option"
  spurious :: bool

abbreviation quiet :: "'w attempt" where
  "quiet \<equiv> \<lparr>before_load = None, before_store = None, spurious = False\<rparr>"

definition overwrite :: "'w option \<Rightarrow> 'w \<Rightarrow> 'w" where
  "overwrite w m = (case w of None \<Rightarrow> m | Some v \<Rightarrow> v)"

definition store_exclusive_ok :: "'w attempt \<Rightarrow> bool" where
  "store_exclusive_ok a \<longleftrightarrow> before_store a = None \<and> \<not> spurious a"

text \<open>
  \<open>1: ldxr old; compute; (leave without storing); stxr tmp; cbnz tmp, 1b\<close>: the list holds the
  passes the scheduler grants; \<open>None\<close> is a loop that has not finished after them.
\<close>

fun exclusive_loop :: "order \<Rightarrow> ('w \<Rightarrow> 'w option) \<Rightarrow> 'w attempt list \<Rightarrow> 'w \<Rightarrow> 'w rmw option" where
  "exclusive_loop o' f [] m = None"
| "exclusive_loop o' f (a # as) m =
     (let old = overwrite (before_load a) m in
      case f old of
        None \<Rightarrow> Some \<lparr>rmw_old = old, rmw_new = old, rmw_order = o'\<rparr>
      | Some v \<Rightarrow> (if store_exclusive_ok a
                  then Some \<lparr>rmw_old = old, rmw_new = v, rmw_order = o'\<rparr>
                  else exclusive_loop o' f as (overwrite (before_store a) old)))"

text \<open>
  \<open>__atomic_compare_exchange_n(ptr, &old, desired, true, \<dots>)\<close>: the weak form may fail although the
  values agree; \<open>old\<close> then holds the value read, which is the expected one.
\<close>

definition compare_exchange_weak :: "order \<Rightarrow> bool \<Rightarrow> 'w \<Rightarrow> 'w \<Rightarrow> 'w \<Rightarrow> 'w rmw" where
  "compare_exchange_weak o' fails expected desired m =
     \<lparr>rmw_old = m, rmw_new = (if m = expected \<and> \<not> fails then desired else m), rmw_order = o'\<rparr>"

definition first_spurious :: "'w attempt list \<Rightarrow> bool" where
  "first_spurious as = (case as of [] \<Rightarrow> False | a # _ \<Rightarrow> spurious a)"

section \<open>The functions of atomics.h\<close>

definition fetchadd64_acquire_release :: "build \<Rightarrow> u64 attempt list \<Rightarrow> u64 \<Rightarrow> u64 \<Rightarrow> u64 rmw option" where
  "fetchadd64_acquire_release b as ptr addend = (case b of
     X86_asm \<Rightarrow> Some (atomic_rmw AcqRel (\<lambda>old. Some (old + addend)) ptr)
   | A64_LSE \<Rightarrow> Some (atomic_rmw AcqRel (\<lambda>old. Some (old + addend)) ptr)
   | A64_LLSC \<Rightarrow> exclusive_loop AcqRel (\<lambda>old. Some (old + addend)) as ptr
   | Builtin \<Rightarrow> Some (atomic_rmw AcqRel (\<lambda>old. Some (old + addend)) ptr))"

definition fetchadd64_acquire :: "build \<Rightarrow> u64 attempt list \<Rightarrow> u64 \<Rightarrow> u64 \<Rightarrow> u64 rmw option" where
  "fetchadd64_acquire b as ptr addend = (case b of
     X86_asm \<Rightarrow> Some (atomic_rmw AcqRel (\<lambda>old. Some (old + addend)) ptr)
   | A64_LSE \<Rightarrow> Some (atomic_rmw Acquire (\<lambda>old. Some (old + addend)) ptr)
   | A64_LLSC \<Rightarrow> exclusive_loop Acquire (\<lambda>old. Some (old + addend)) as ptr
   | Builtin \<Rightarrow> Some (atomic_rmw Acquire (\<lambda>old. Some (old + addend)) ptr))"

definition fetchadd64_release :: "build \<Rightarrow> u64 attempt list \<Rightarrow> u64 \<Rightarrow> u64 \<Rightarrow> u64 rmw option" where
  "fetchadd64_release b as ptr addend = (case b of
     X86_asm \<Rightarrow> Some (atomic_rmw AcqRel (\<lambda>old. Some (old + addend)) ptr)
   | A64_LSE \<Rightarrow> Some (atomic_rmw Release (\<lambda>old. Some (old + addend)) ptr)
   | A64_LLSC \<Rightarrow> exclusive_loop Release (\<lambda>old. Some (old + addend)) as ptr
   | Builtin \<Rightarrow> Some (atomic_rmw Release (\<lambda>old. Some (old + addend)) ptr))"

text \<open>\<open>ldadd\<close>, \<open>ldxr\<close>/\<open>stxr\<close> and \<open>__ATOMIC_RELAXED\<close> order nothing.\<close>

definition fetchadd64 :: "build \<Rightarrow> u64 attempt list \<Rightarrow> u64 \<Rightarrow> u64 \<Rightarrow> u64 rmw option" where
  "fetchadd64 b as ptr addend = (case b of
     X86_asm \<Rightarrow> Some (atomic_rmw AcqRel (\<lambda>old. Some (old + addend)) ptr)
   | A64_LSE \<Rightarrow> Some (atomic_rmw Relaxed (\<lambda>old. Some (old + addend)) ptr)
   | A64_LLSC \<Rightarrow> exclusive_loop Relaxed (\<lambda>old. Some (old + addend)) as ptr
   | Builtin \<Rightarrow> Some (atomic_rmw Relaxed (\<lambda>old. Some (old + addend)) ptr))"

text \<open>x86-64 and LSE have no fetch-and-subtract: they negate the operand and add.\<close>

definition fetchsub64 :: "build \<Rightarrow> u64 attempt list \<Rightarrow> u64 \<Rightarrow> u64 \<Rightarrow> u64 rmw option" where
  "fetchsub64 b as ptr addend = (case b of
     X86_asm \<Rightarrow> (let addend = - addend in Some (atomic_rmw AcqRel (\<lambda>old. Some (old + addend)) ptr))
   | A64_LSE \<Rightarrow> (let addend = - addend in Some (atomic_rmw Relaxed (\<lambda>old. Some (old + addend)) ptr))
   | A64_LLSC \<Rightarrow> exclusive_loop Relaxed (\<lambda>old. Some (old - addend)) as ptr
   | Builtin \<Rightarrow> Some (atomic_rmw Relaxed (\<lambda>old. Some (old - addend)) ptr))"

definition swap64 :: "build \<Rightarrow> u64 attempt list \<Rightarrow> u64 \<Rightarrow> u64 \<Rightarrow> u64 rmw option" where
  "swap64 b as ptr val = (case b of
     X86_asm \<Rightarrow> Some (atomic_rmw AcqRel (\<lambda>old. Some val) ptr)
   | A64_LSE \<Rightarrow> Some (atomic_rmw AcqRel (\<lambda>old. Some val) ptr)
   | A64_LLSC \<Rightarrow> exclusive_loop AcqRel (\<lambda>old. Some val) as ptr
   | Builtin \<Rightarrow> Some (atomic_rmw AcqRel (\<lambda>old. Some val) ptr))"

text \<open>
  \<open>cmpxchgq\<close> and \<open>cas\<close> compare and store; the exclusive loop computes \<open>eor tmp, old, exp\<close> and
  leaves when it is not 0.
\<close>

definition cas_instr :: "'a::len word \<Rightarrow> 'a word \<Rightarrow> 'a word \<Rightarrow> 'a word option" where
  "cas_instr newval expected old = (if old = expected then Some newval else None)"

definition cas_eor :: "'a::len word \<Rightarrow> 'a word \<Rightarrow> 'a word \<Rightarrow> 'a word option" where
  "cas_eor newval expected old = (if old XOR expected = 0 then Some newval else None)"

text \<open>The built-in body of \<open>cas64\<close> passes \<open>expected\<close>, not \<open>newval\<close>, as the desired value.\<close>

definition cas64 :: "build \<Rightarrow> u64 attempt list \<Rightarrow> u64 \<Rightarrow> u64 \<Rightarrow> u64 \<Rightarrow> u64 rmw option" where
  "cas64 b as ptr newval expected = (case b of
     X86_asm \<Rightarrow> Some (atomic_rmw AcqRel (cas_instr newval expected) ptr)
   | A64_LSE \<Rightarrow> Some (atomic_rmw Relaxed (cas_instr newval expected) ptr)
   | A64_LLSC \<Rightarrow> exclusive_loop Relaxed (cas_eor newval expected) as ptr
   | Builtin \<Rightarrow> Some (compare_exchange_weak Relaxed (first_spurious as) expected expected ptr))"

definition cas64_acquire :: "build \<Rightarrow> u64 attempt list \<Rightarrow> u64 \<Rightarrow> u64 \<Rightarrow> u64 \<Rightarrow> u64 rmw option" where
  "cas64_acquire b as ptr val exp = (case b of
     X86_asm \<Rightarrow> Some (atomic_rmw AcqRel (cas_instr val exp) ptr)
   | A64_LSE \<Rightarrow> Some (atomic_rmw Acquire (cas_instr val exp) ptr)
   | A64_LLSC \<Rightarrow> exclusive_loop Acquire (cas_eor val exp) as ptr
   | Builtin \<Rightarrow> Some (compare_exchange_weak Acquire (first_spurious as) exp val ptr))"

definition cas64_release :: "build \<Rightarrow> u64 attempt list \<Rightarrow> u64 \<Rightarrow> u64 \<Rightarrow> u64 \<Rightarrow> u64 rmw option" where
  "cas64_release b as ptr val exp = (case b of
     X86_asm \<Rightarrow> Some (atomic_rmw AcqRel (cas_instr val exp) ptr)
   | A64_LSE \<Rightarrow> Some (atomic_rmw Release (cas_instr val exp) ptr)
   | A64_LLSC \<Rightarrow> exclusive_loop Release (cas_eor val exp) as ptr
   | Builtin \<Rightarrow> Some (compare_exchange_weak Release (first_spurious as) exp val ptr))"

definition cas64_acquire_release :: "build \<Rightarrow> u64 attempt list \<Rightarrow> u64 \<Rightarrow> u64 \<Rightarrow> u64 \<Rightarrow> u64 rmw option" where
  "cas64_acquire_release b as ptr val exp = (case b of
     X86_asm \<Rightarrow> Some (atomic_rmw AcqRel (cas_instr val exp) ptr)
   | A64_LSE \<Rightarrow> Some (atomic_rmw AcqRel (cas_instr val exp) ptr)
   | A64_LLSC \<Rightarrow> exclusive_loop AcqRel (cas_eor val exp) as ptr
   | Builtin \<Rightarrow> Some (compare_exchange_weak AcqRel (first_spurious as) exp val ptr))"

text \<open>
  \<open>wait64\<close> and \<open>wait32\<close> read the lock until it has the value: given the successive values read,
  the number of reads the wait takes. AArch64 tests \<open>eor\<close> for 0, the other build compares.
\<close>

fun wait64 :: "build \<Rightarrow> u64 \<Rightarrow> u64 list \<Rightarrow> nat option" where
  "wait64 b val [] = None"
| "wait64 b val (v # vs) =
     (if (case b of A64_LSE \<Rightarrow> v XOR val = 0 | A64_LLSC \<Rightarrow> v XOR val = 0 | _ \<Rightarrow> v = val) then Some 1
      else map_option Suc (wait64 b val vs))"

fun wait32 :: "build \<Rightarrow> u32 \<Rightarrow> u32 list \<Rightarrow> nat option" where
  "wait32 b val [] = None"
| "wait32 b val (v # vs) =
     (if (case b of A64_LSE \<Rightarrow> v XOR val = 0 | A64_LLSC \<Rightarrow> v XOR val = 0 | _ \<Rightarrow> v = val) then Some 1
      else map_option Suc (wait32 b val vs))"

section \<open>The exclusive loop is one atomic access\<close>

text \<open>The values the cell takes while the other threads store to it during the passes.\<close>

fun history :: "'w attempt list \<Rightarrow> 'w \<Rightarrow> 'w list" where
  "history [] m = [m]"
| "history (a # as) m =
     (let old = overwrite (before_load a) m in m # old # history as (overwrite (before_store a) old))"

lemma start_in_history [simp]: "m \<in> set (history as m)"
  by (cases as) (simp_all add: Let_def)

definition undisturbed :: "'w attempt list \<Rightarrow> bool" where
  "undisturbed as \<longleftrightarrow> (\<forall>a\<in>set as. before_load a = None \<and> before_store a = None)"

lemma history_undisturbed: "undisturbed as \<Longrightarrow> set (history as m) = {m}"
  by (induction as) (auto simp: undisturbed_def overwrite_def)

lemma exclusive_loop_linear:
  "exclusive_loop o' f as m = Some r \<Longrightarrow> \<exists>old\<in>set (history as m). r = atomic_rmw o' f old"
proof (induction as arbitrary: m)
  case Nil
  then show ?case by simp
next
  case (Cons a as)
  let ?old = "overwrite (before_load a) m"
  show ?case
  proof (cases "f ?old = None \<or> store_exclusive_ok a")
    case True
    with Cons.prems have "r = atomic_rmw o' f ?old"
      by (auto simp: Let_def atomic_rmw_def split: option.splits)
    then show ?thesis by (auto simp: Let_def)
  next
    case False
    with Cons.prems have "exclusive_loop o' f as (overwrite (before_store a) ?old) = Some r"
      by (auto simp: Let_def split: option.splits)
    from Cons.IH [OF this] show ?thesis by (auto simp: Let_def)
  qed
qed

lemma exclusive_loop_returns:
  "a \<in> set as \<Longrightarrow> store_exclusive_ok a \<Longrightarrow> \<exists>r. exclusive_loop o' f as m = Some r"
  by (induction as arbitrary: m) (auto simp: Let_def split: option.splits)

text \<open>The content of the cell after the passes when only the other threads store to it, and when pass \<open>n\<close> loads it.\<close>

fun after_passes :: "'w attempt list \<Rightarrow> 'w \<Rightarrow> 'w" where
  "after_passes [] m = m"
| "after_passes (a # as) m = after_passes as (overwrite (before_store a) (overwrite (before_load a) m))"

definition loaded_in :: "'w attempt list \<Rightarrow> 'w \<Rightarrow> nat \<Rightarrow> 'w" where
  "loaded_in as m n = overwrite (before_load (as ! n)) (after_passes (take n as) m)"

text \<open>The access happens in pass \<open>n\<close>: the passes before it have stored nothing, the value returned is the one loaded, and if a value is stored, the cell
  still has the value loaded, whatever the others have stored up to then.\<close>

definition one_instant :: "('w \<Rightarrow> 'w option) \<Rightarrow> 'w attempt list \<Rightarrow> 'w \<Rightarrow> nat \<Rightarrow> 'w rmw \<Rightarrow> bool" where
  "one_instant f as m n r \<longleftrightarrow>
     (\<forall>k<n. f (loaded_in as m k) \<noteq> None \<and> \<not> store_exclusive_ok (as ! k)) \<and> rmw_old r = loaded_in as m n \<and>
     (case f (rmw_old r) of None \<Rightarrow> rmw_new r = rmw_old r
      | Some v \<Rightarrow> rmw_new r = v \<and> after_passes (take (Suc n) as) m = rmw_old r)"

lemma exclusive_loop_instant:
  "exclusive_loop o' f as m = Some r \<Longrightarrow> \<exists>n<length as. one_instant f as m n r"
proof (induction as arbitrary: m)
  case (Cons a as)
  let ?old = "overwrite (before_load a) m"
  show ?case
  proof (cases "f ?old = None \<or> store_exclusive_ok a")
    case True
    then have "one_instant f (a # as) m 0 r"
      using Cons.prems by (auto simp: one_instant_def loaded_in_def store_exclusive_ok_def overwrite_def Let_def split: option.splits if_splits)
    then show ?thesis by auto
  next
    case False
    let ?m = "overwrite (before_store a) ?old"
    from False Cons.prems have "exclusive_loop o' f as ?m = Some r" by (auto simp: Let_def split: option.splits)
    from Cons.IH [OF this] obtain n where n: "n < length as" "one_instant f as ?m n r" by blast
    have l: "loaded_in (a # as) m (Suc k) = loaded_in as ?m k" "loaded_in (a # as) m 0 = ?old" for k by (simp_all add: loaded_in_def)
    have "f (loaded_in (a # as) m k) \<noteq> None \<and> \<not> store_exclusive_ok ((a # as) ! k)" if "k < Suc n" for k
      using that n(2) False by (cases k) (auto simp: one_instant_def l)
    then have "one_instant f (a # as) m (Suc n) r" using n(2) by (auto simp: one_instant_def l split: option.splits)
    then show ?thesis using n(1) by auto
  qed
qed simp

lemma cas_eor_eq [simp]: "cas_eor = cas_instr"
  by (intro ext) (auto simp: cas_eor_def cas_instr_def bit_eq_iff bit_simps)

text \<open>
  The interface the lock algorithms build on: an operation that acts as a single
  read-modify-write \<open>f\<close> of some value the cell had while it ran, and that returns once a pass
  is undisturbed.
\<close>

locale atomic_operation =
  fixes oper :: "'w attempt list \<Rightarrow> 'w \<Rightarrow> 'w rmw option"
    and f :: "'w \<Rightarrow> 'w option"
  assumes linear: "oper as m = Some r \<Longrightarrow> \<exists>o'. \<exists>old\<in>set (history as m). r = atomic_rmw o' f old"
    and returns: "a \<in> set as \<Longrightarrow> store_exclusive_ok a \<Longrightarrow> \<exists>r. oper as m = Some r"
begin

lemma linear_fields:
  "oper as m = Some r \<Longrightarrow> rmw_old r \<in> set (history as m) \<and>
   rmw_new r = (case f (rmw_old r) of None \<Rightarrow> rmw_old r | Some v \<Rightarrow> v)"
  by (drule linear) (auto simp: atomic_rmw_def split: option.splits)

lemmas old_in_history = linear_fields [THEN conjunct1]
  and new_value = linear_fields [THEN conjunct2]

text \<open>With no other thread storing to the cell the operation is the plain sequential one.\<close>

lemma sequential: "undisturbed as \<Longrightarrow> oper as m = Some r \<Longrightarrow> rmw_old r = m"
  by (drule old_in_history) (simp add: history_undisturbed)

lemma quiet_result:
  "\<exists>r. oper [quiet] m = Some r \<and> rmw_old r = m \<and> rmw_new r = (case f m of None \<Rightarrow> m | Some v \<Rightarrow> v)"
proof -
  obtain r where r: "oper [quiet] m = Some r"
    using returns [of quiet "[quiet]" m] by (auto simp: store_exclusive_ok_def)
  moreover from r have "rmw_old r = m" by (rule sequential [rotated]) (simp add: undisturbed_def)
  ultimately show ?thesis using new_value [OF r] by auto
qed

end

lemmas op_defs = fetchadd64_def fetchadd64_acquire_def fetchadd64_release_def
  fetchadd64_acquire_release_def fetchsub64_def swap64_def cas64_def cas64_acquire_def
  cas64_release_def cas64_acquire_release_def

lemma atomic_rmw_linear: "Some (atomic_rmw o' f m) = Some r \<Longrightarrow> \<exists>old\<in>set (history as m). r = atomic_rmw o' f old"
  by (metis option.inject start_in_history)

text \<open>A body that is one atomic instruction, or one exclusive loop, meets the interface.\<close>

lemma atomic_operation_body:
  fixes oper :: "'w attempt list \<Rightarrow> 'w \<Rightarrow> 'w rmw option"
  assumes "\<And>as m. oper as m = Some (atomic_rmw o' f m) \<or> oper as m = exclusive_loop o' f as m"
  shows "atomic_operation oper f"
proof
  fix as :: "'w attempt list" and m r assume "oper as m = Some r"
  with assms [of as m] show "\<exists>o'. \<exists>old\<in>set (history as m). r = atomic_rmw o' f old"
    by (metis atomic_rmw_linear exclusive_loop_linear)
next
  fix a and as :: "'w attempt list" and m assume "a \<in> set as" "store_exclusive_ok a"
  with assms [of as m] show "\<exists>r. oper as m = Some r" by (metis exclusive_loop_returns)
qed

interpretation fetchadd64: atomic_operation "\<lambda>as m. fetchadd64 b as m k" "\<lambda>old. Some (old + k)" for b k
  by (cases b; rule atomic_operation_body; force simp: op_defs)

interpretation fetchadd64_acquire: atomic_operation "\<lambda>as m. fetchadd64_acquire b as m k" "\<lambda>old. Some (old + k)" for b k
  by (cases b; rule atomic_operation_body; force simp: op_defs)

interpretation fetchadd64_release: atomic_operation "\<lambda>as m. fetchadd64_release b as m k" "\<lambda>old. Some (old + k)" for b k
  by (cases b; rule atomic_operation_body; force simp: op_defs)

interpretation fetchadd64_acquire_release: atomic_operation "\<lambda>as m. fetchadd64_acquire_release b as m k" "\<lambda>old. Some (old + k)" for b k
  by (cases b; rule atomic_operation_body; force simp: op_defs)

interpretation fetchsub64: atomic_operation "\<lambda>as m. fetchsub64 b as m k" "\<lambda>old. Some (old - k)" for b k
  by (cases b; rule atomic_operation_body; force simp: op_defs)

interpretation swap64: atomic_operation "\<lambda>as m. swap64 b as m v" "\<lambda>old. Some v" for b v
  by (cases b; rule atomic_operation_body; force simp: op_defs)

text \<open>Compare-and-swap meets the interface in the three assembly builds.\<close>

definition asm_build :: "build \<Rightarrow> bool" where
  "asm_build b \<longleftrightarrow> b \<noteq> Builtin"

lemma cas_operation:
  assumes "asm_build b" and "cas \<in> {cas64, cas64_acquire, cas64_release, cas64_acquire_release}"
  shows "atomic_operation (\<lambda>as m. cas b as m v e) (cas_instr v e)"
  using assms by (cases b; elim insertE emptyE; simp only:; intro atomic_operation_body; force simp: op_defs asm_build_def)

interpretation cas64: atomic_operation "\<lambda>as m. cas64 A64_LLSC as m v e" "cas_instr v e" for v e
  by (rule cas_operation) (simp_all add: asm_build_def)

section \<open>Properties\<close>

text \<open>In every build the fetch-and-add, fetch-and-subtract and exchange functions are one atomic
  access: they return a value the cell had while the call ran and leave the updated value there,
  whatever the other threads store between the passes of an exclusive loop.\<close>

theorem fetch_ops_atomic:
  assumes "(oper, g) \<in> {(fetchadd64, (+)), (fetchadd64_acquire, (+)), (fetchadd64_release, (+)),
      (fetchadd64_acquire_release, (+)), (fetchsub64, (-)), (swap64, \<lambda>old k. k)}"
    and "oper b as ptr k = Some r"
  shows "rmw_old r \<in> set (history as ptr) \<and> rmw_new r = g (rmw_old r) k"
  using assms fetchadd64.linear_fields [of b as ptr k r] fetchadd64_acquire.linear_fields [of b as ptr k r]
    fetchadd64_release.linear_fields [of b as ptr k r] fetchadd64_acquire_release.linear_fields [of b as ptr k r]
    fetchsub64.linear_fields [of b as ptr k r] swap64.linear_fields [of b as ptr k r]
  by auto

theorem fetch_ops_atomic_witness:
  "rmw_old (the (fetchsub64 A64_LLSC [\<lparr>before_load = None, before_store = Some 9, spurious = False\<rparr>, quiet] 5 2)) = 9 \<and>
   rmw_new (the (fetchsub64 A64_LLSC [\<lparr>before_load = None, before_store = Some 9, spurious = False\<rparr>, quiet] 5 2)) = 9 - 2"
proof -
  let ?as = "[\<lparr>before_load = None, before_store = Some 9, spurious = False\<rparr>, quiet]"
  have r: "fetchsub64 A64_LLSC ?as 5 2 = Some \<lparr>rmw_old = 9, rmw_new = 7, rmw_order = Relaxed\<rparr>"
    by code_simp
  from fetch_ops_atomic [of fetchsub64 "(-)", OF _ r] r show ?thesis by simp
qed

text \<open>The compare-and-swap functions in the three assembly builds: they return a value the
  cell had, and store the new value exactly when that value is the expected one.\<close>

theorem cas_ops_atomic:
  assumes "cas \<in> {cas64, cas64_acquire, cas64_release, cas64_acquire_release}" and "asm_build b"
    and "cas b as ptr newval expected = Some r"
  shows "rmw_old r \<in> set (history as ptr) \<and>
         rmw_new r = (if rmw_old r = expected then newval else rmw_old r)"
  using atomic_operation.linear_fields [OF cas_operation [OF assms(2,1)] assms(3)]
  by (auto simp: cas_instr_def)

text \<open>The functions that update memory, as load/store-exclusive loops, each with what it stores.\<close>

definition exclusive_functions :: "u64 \<Rightarrow> u64 \<Rightarrow> ((u64 attempt list \<Rightarrow> u64 \<Rightarrow> u64 rmw option) \<times> (u64 \<Rightarrow> u64 option)) set" where
  "exclusive_functions k e =
     {(\<lambda>as m. fetchadd64 A64_LLSC as m k, \<lambda>old. Some (old + k)), (\<lambda>as m. fetchadd64_acquire A64_LLSC as m k, \<lambda>old. Some (old + k)),
      (\<lambda>as m. fetchadd64_release A64_LLSC as m k, \<lambda>old. Some (old + k)), (\<lambda>as m. fetchadd64_acquire_release A64_LLSC as m k, \<lambda>old. Some (old + k)),
      (\<lambda>as m. fetchsub64 A64_LLSC as m k, \<lambda>old. Some (old - k)), (\<lambda>as m. swap64 A64_LLSC as m k, \<lambda>old. Some k),
      (\<lambda>as m. cas64 A64_LLSC as m k e, \<lambda>old. if old = e then Some k else None),
      (\<lambda>as m. cas64_acquire A64_LLSC as m k e, \<lambda>old. if old = e then Some k else None),
      (\<lambda>as m. cas64_release A64_LLSC as m k e, \<lambda>old. if old = e then Some k else None),
      (\<lambda>as m. cas64_acquire_release A64_LLSC as m k e, \<lambda>old. if old = e then Some k else None)}"

text \<open>C31: the load/store-exclusive loop of each of the ten functions that update memory takes effect at one instant and loses no update of another thread:
  it returns as soon as one pass is undisturbed; in all passes but the last it changes nothing, because its store fails;
  in the last pass it returns the value it has loaded, and the value its store replaces, after everything the other threads have stored in
  the meantime, is the value it has loaded.\<close>

theorem exclusive_loops_one_instant:
  assumes "a \<in> set as" "store_exclusive_ok a" and "(call, f) \<in> exclusive_functions k e"
  shows "\<exists>r n. call as ptr = Some r \<and> n < length as \<and> one_instant f as ptr n r"
proof -
  have "\<exists>o'. call = exclusive_loop o' f"
  proof -
    have "cas_instr k e = (\<lambda>old. if old = e then Some k else None)" by (auto simp: cas_instr_def)
    then show ?thesis using assms(3) by (auto simp: exclusive_functions_def op_defs)
  qed
  then obtain o' where c: "call = exclusive_loop o' f" by blast
  obtain r where r: "exclusive_loop o' f as ptr = Some r" using exclusive_loop_returns [OF assms(1,2)] by blast
  then show ?thesis using exclusive_loop_instant [OF r] c by blast
qed

text \<open>Another thread stores 9 between load and store, then the addition of 2 goes through on that 9.\<close>

theorem exclusive_loops_one_instant_witness:
  "let as = [\<lparr>before_load = None, before_store = Some 9, spurious = False\<rparr>, quiet] in
   \<exists>r n. fetchadd64 A64_LLSC as 5 2 = Some r \<and> n < 2 \<and> rmw_new r = 11 \<and> one_instant (\<lambda>old. Some (old + 2)) as 5 n r"
proof -
  let ?as = "[\<lparr>before_load = None, before_store = Some 9, spurious = False\<rparr>, quiet]"
  have "fetchadd64 A64_LLSC ?as 5 2 = Some \<lparr>rmw_old = 9, rmw_new = 11, rmw_order = Relaxed\<rparr>" by code_simp
  moreover have "(\<lambda>as m. fetchadd64 A64_LLSC as m 2, \<lambda>old. Some (old + 2)) \<in> exclusive_functions 2 0"
    unfolding exclusive_functions_def by blast
  note exclusive_loops_one_instant [of quiet ?as, OF _ _ this, of 5]
  ultimately show ?thesis by (simp add: store_exclusive_ok_def numeral_2_eq_2)
qed

text \<open>The orderings are those the names promise: in every build a function named acquire acquires and
  one named release releases, and \<open>swap64\<close> does both.\<close>

theorem atomic_ops_ordering:
  "(fetchadd64_acquire b as ptr k = Some r \<or> cas64_acquire b as ptr k e = Some r \<longrightarrow> acquires (rmw_order r)) \<and>
   (fetchadd64_release b as ptr k = Some r \<or> cas64_release b as ptr k e = Some r \<longrightarrow> releases (rmw_order r)) \<and>
   (fetchadd64_acquire_release b as ptr k = Some r \<or> cas64_acquire_release b as ptr k e = Some r \<or>
    swap64 b as ptr k = Some r \<longrightarrow> acquires (rmw_order r) \<and> releases (rmw_order r))"
proof -
  have loop: "rmw_order r = o'" if "exclusive_loop o' f as ptr = Some r" for o' f
    using exclusive_loop_linear [OF that] by (auto simp: atomic_rmw_def)
  show ?thesis
    by (cases b) (auto simp: op_defs acquires_def releases_def atomic_rmw_def compare_exchange_weak_def dest: loop)
qed

theorem atomic_ops_ordering_witness:
  "acquires (rmw_order (the (fetchadd64_acquire A64_LSE [] 0 2)))"
proof -
  have r: "fetchadd64_acquire A64_LSE [] 0 2 = Some \<lparr>rmw_old = 0, rmw_new = 2, rmw_order = Acquire\<rparr>"
    by code_simp
  from atomic_ops_ordering [of A64_LSE "[]" 0 2 "\<lparr>rmw_old = 0, rmw_new = 2, rmw_order = Acquire\<rparr>" 0] r
  show ?thesis by simp
qed

text \<open>The built-in body of \<open>cas64\<close> never stores: it hands \<open>expected\<close> to the compiler's primitive as
  the value to write, and yet returns the value the caller takes for success.\<close>

theorem cas64_builtin_never_stores:
  "cas64 Builtin as ptr newval expected = Some \<lparr>rmw_old = ptr, rmw_new = ptr, rmw_order = Relaxed\<rparr>"
  by (simp add: cas64_def compare_exchange_weak_def)

text \<open>With the built-ins the other compare-and-swap functions report success without having stored when
  the weak primitive fails spuriously, because the value it read back is the expected one.\<close>

theorem cas_builtin_false_success:
  assumes "cas \<in> {cas64_acquire, cas64_release, cas64_acquire_release}" and "spurious a"
  shows "\<exists>r. cas Builtin (a # as) expected newval expected = Some r \<and>
           rmw_old r = expected \<and> rmw_new r = expected"
  using assms by (auto simp: op_defs compare_exchange_weak_def first_spurious_def)

theorem cas_builtin_false_success_witness:
  "\<exists>r. cas64_acquire Builtin [\<lparr>before_load = None, before_store = None, spurious = True\<rparr>] 7 6 7 = Some r \<and>
     rmw_old r = 7 \<and> rmw_new r = 7"
  using cas_builtin_false_success [of cas64_acquire "\<lparr>before_load = None, before_store = None, spurious = True\<rparr>" "[]" 7 6]
  by simp

end
