(* ===== verification/TBB_RW.thy ===== *)
theory TBB_RW
  imports Atomics
begin

text \<open>
  The reader-writer spin mutex of \<open>ext/tbb/tbb_spin_rw_mutex.h\<close> with the primitives of
  \<open>ext/tbb/include/tbb.h\<close>: bit 0 of the state word is the writer, bit 1 a writer's request, the
  bits above count the readers. A step is one access to the state word.
\<close>

section \<open>Primitives of tbb.h\<close>

text \<open>
  \<open>__TBB_machine_or\<close> and \<open>__TBB_machine_and\<close>. The built-in bodies load the operand and retry a
  compare-and-swap; in a pass another thread may store before the compare-and-swap.
\<close>

fun tbb_cas_loop :: "(u64 \<Rightarrow> u64) \<Rightarrow> u64 attempt list \<Rightarrow> u64 \<Rightarrow> u64 rmw option" where
  "tbb_cas_loop g [] m = None"
| "tbb_cas_loop g (a # as) m =
     (let tmp = overwrite (before_load a) m; cell = overwrite (before_store a) tmp;
          r = compare_exchange_weak AcqRel (spurious a) tmp (g tmp) cell
      in if rmw_old r = tmp then Some r else tbb_cas_loop g as (rmw_new r))"

definition TBB_machine_or :: "build \<Rightarrow> u64 attempt list \<Rightarrow> u64 \<Rightarrow> u64 \<Rightarrow> u64 rmw option" where
  "TBB_machine_or b as operand addend = (case b of
     X86_asm \<Rightarrow> Some (atomic_rmw AcqRel (\<lambda>old. Some (old OR addend)) operand)
   | A64_LLSC \<Rightarrow> exclusive_loop AcqRel (\<lambda>old. Some (old OR addend)) as operand
   | A64_LSE \<Rightarrow> Some (atomic_rmw AcqRel (\<lambda>old. Some (old OR addend)) operand)
   | Builtin \<Rightarrow> tbb_cas_loop (\<lambda>tmp. tmp OR addend) as operand)"

text \<open>LSE has no atomic AND: \<open>mvn\<close> complements the operand and \<open>ldclral\<close> clears those bits.\<close>

definition TBB_machine_and :: "build \<Rightarrow> u64 attempt list \<Rightarrow> u64 \<Rightarrow> u64 \<Rightarrow> u64 rmw option" where
  "TBB_machine_and b as operand addend = (case b of
     X86_asm \<Rightarrow> Some (atomic_rmw AcqRel (\<lambda>old. Some (old AND addend)) operand)
   | A64_LLSC \<Rightarrow> exclusive_loop AcqRel (\<lambda>old. Some (old AND addend)) as operand
   | A64_LSE \<Rightarrow> (let val = NOT addend in Some (atomic_rmw AcqRel (\<lambda>old. Some (old AND NOT val)) operand))
   | Builtin \<Rightarrow> tbb_cas_loop (\<lambda>tmp. tmp AND addend) as operand)"

text \<open>
  \<open>atomic_backoff__pause\<close>: the next count, and the number of \<open>cpu_relax\<close> calls, or \<open>None\<close> for
  \<open>sched_yield()\<close>. \<open>machine_pause\<close> takes an \<open>int32_t\<close>.
\<close>

definition machine_pause :: "u32 \<Rightarrow> nat" where
  "machine_pause delay = nat (sint delay)"

definition atomic_backoff_pause :: "u64 \<Rightarrow> u64 \<Rightarrow> u64 \<times> nat option" where
  "atomic_backoff_pause loops_before_yield count =
     (if count \<le> loops_before_yield then (count * 2, Some (machine_pause (ucast count))) else (count, None))"

section \<open>Options and initialization\<close>

text \<open>What \<open>getopt\<close> and the number parsers hand to \<open>tbb_parse_args\<close>.\<close>

datatype tbb_opt =
    Opt_r u64 bool bool bool \<comment> \<open>result of \<open>strtoul\<close>, \<open>errno == ERANGE\<close>, \<open>errno != 0\<close>, no digits\<close>
  | Opt_o "nat list" | Opt_y u64 | Opt_v | Opt_h | Opt_unknown

record tbb_params =
  log2_ratio :: u64
  pure_reader_cpus :: "nat set"
  LOOPS_BEFORE_YIELD :: u64
  tbb_verbose :: nat

text \<open>\<open>tbb_check_strtoul(int rval, \<dots>)\<close>: the value arrives truncated to \<open>int\<close>.\<close>

definition tbb_check_strtoul :: "u32 \<Rightarrow> bool \<Rightarrow> bool \<Rightarrow> bool \<Rightarrow> bool" where
  "tbb_check_strtoul rval erange errno_set no_digits \<longleftrightarrow>
     (erange \<and> (scast rval :: u64) = - 1) \<or> (errno_set \<and> rval = 0) \<or> no_digits"

fun tbb_parse_opts :: "tbb_params \<Rightarrow> tbb_opt list \<Rightarrow> int + tbb_params" where
  "tbb_parse_opts p [] = Inr p"
| "tbb_parse_opts p (Opt_r v erange errno_set no_digits # os) =
     (if tbb_check_strtoul (ucast v) erange errno_set no_digits then Inl 1
      else if 64 \<le> v then Inl 1 else tbb_parse_opts (p\<lparr>log2_ratio := v\<rparr>) os)"
| "tbb_parse_opts p (Opt_o cpus # os) = tbb_parse_opts (p\<lparr>pure_reader_cpus := set cpus\<rparr>) os"
| "tbb_parse_opts p (Opt_y v # os) =
     (if v AND (v - 1) \<noteq> 0 then Inl 1 else tbb_parse_opts (p\<lparr>LOOPS_BEFORE_YIELD := v\<rparr>) os)"
| "tbb_parse_opts p (Opt_v # os) =
     tbb_parse_opts (p\<lparr>tbb_verbose := if 1 \<le> tbb_verbose p then 2 else 1\<rparr>) os"
| "tbb_parse_opts p (Opt_h # os) = Inl 0"
| "tbb_parse_opts p (Opt_unknown # os) = Inl 3"

definition tbb_parse_args :: "nat \<Rightarrow> tbb_opt list \<Rightarrow> int + tbb_params" where
  "tbb_parse_args verbose os =
     tbb_parse_opts \<lparr>log2_ratio = 6, pure_reader_cpus = {}, LOOPS_BEFORE_YIELD = 16, tbb_verbose = verbose\<rparr> os"

text \<open>Where a thread stands: the two acquire loops access by access, and holding the lock.\<close>

datatype tbb_pc = TbIdle | TbWLoad | TbWCAS u64 | TbWOr | TbWHold | TbRLoad | TbRAdd | TbRUndo | TbRHold

record tbb_state =
  tb_word :: u64
  tb_mask :: u64
  tb_c :: "tid \<Rightarrow> u64"
  tb_pure :: "tid \<Rightarrow> bool"
  tb_pc :: "tid \<Rightarrow> tbb_pc"

text \<open>\<open>tbb_init_locks\<close>; the lock word is allocated zeroed.\<close>

definition tbb_init_locks :: "tbb_params \<Rightarrow> (tid \<Rightarrow> nat) \<Rightarrow> tbb_state" where
  "tbb_init_locks p cpulist =
     \<lparr>tb_word = 0, tb_mask = push_bit (unat (log2_ratio p)) 1 - 1, tb_c = of_nat,
      tb_pure = (\<lambda>i. cpulist i \<in> pure_reader_cpus p), tb_pc = (\<lambda>_. TbIdle)\<rparr>"

section \<open>The lock\<close>

abbreviation WRITER :: u64 where "WRITER \<equiv> 1"
abbreviation WRITER_PENDING :: u64 where "WRITER_PENDING \<equiv> 2"
abbreviation READERS :: u64 where "READERS \<equiv> NOT (WRITER OR WRITER_PENDING)"
abbreviation ONE_READER :: u64 where "ONE_READER \<equiv> 4"
abbreviation BUSY :: u64 where "BUSY \<equiv> WRITER OR READERS"

abbreviation tb_goto :: "tid \<Rightarrow> tbb_pc \<Rightarrow> tbb_state \<Rightarrow> tbb_state" where
  "tb_goto i p s \<equiv> s\<lparr>tb_pc := (tb_pc s)(i := p)\<rparr>"

text \<open>\<open>is_writer(i, val)\<close>: the answer and the new counters.\<close>

definition is_writer :: "tid \<Rightarrow> u64 \<Rightarrow> tbb_state \<Rightarrow> bool \<times> tbb_state" where
  "is_writer i val s =
     (if tb_pure s i then (False, s)
      else let s = s\<lparr>tb_c := (tb_c s)(i := tb_c s i + val)\<rparr> in (tb_c s i AND tb_mask s = 0, s))"

definition tbb_lock_acquire :: "tid \<Rightarrow> tbb_state \<Rightarrow> tbb_state" where
  "tbb_lock_acquire i s =
     (case is_writer i 1 s of (w, s) \<Rightarrow> tb_goto i (if w then TbWLoad else TbRLoad) s)"

text \<open>\<open>internal_acquire_writer\<close>: load and decide, compare-and-swap, or set the request bit.\<close>

definition acquire_writer_load :: "tid \<Rightarrow> tbb_state \<Rightarrow> tbb_state" where
  "acquire_writer_load i s =
     (if tb_word s AND BUSY = 0 then tb_goto i (TbWCAS (tb_word s)) s
      else if tb_word s AND WRITER_PENDING = 0 then tb_goto i TbWOr s
      else tb_goto i TbWLoad s)"

text \<open>The compare-and-swap stores when it reports success. So does \<open>cas64_acquire_release\<close> in the assembly builds, also when its first store-exclusive fails on its own (\<open>acquire_writer_cas_call\<close>),
  and so do the strong built-ins of \<open>tbb.h\<close>; the weak built-in in \<open>atomics.h\<close> does not (\<open>cas_builtin_false_success\<close>) and is left out.\<close>

definition acquire_writer_cas :: "tid \<Rightarrow> u64 \<Rightarrow> tbb_state \<Rightarrow> tbb_state" where
  "acquire_writer_cas i seen s =
     (if tb_word s = seen then tb_goto i TbWHold (s\<lparr>tb_word := WRITER\<rparr>) else tb_goto i TbWLoad s)"

definition acquire_writer_or :: "tid \<Rightarrow> tbb_state \<Rightarrow> tbb_state" where
  "acquire_writer_or i s = tb_goto i TbWLoad (s\<lparr>tb_word := tb_word s OR WRITER_PENDING\<rparr>)"

text \<open>\<open>internal_acquire_reader\<close>: load, count oneself in, and undo that when a writer was first.\<close>

definition acquire_reader_load :: "tid \<Rightarrow> tbb_state \<Rightarrow> tbb_state" where
  "acquire_reader_load i s =
     (if tb_word s AND (WRITER OR WRITER_PENDING) = 0 then tb_goto i TbRAdd s else tb_goto i TbRLoad s)"

definition acquire_reader_add :: "tid \<Rightarrow> tbb_state \<Rightarrow> tbb_state" where
  "acquire_reader_add i s =
     tb_goto i (if tb_word s AND WRITER = 0 then TbRHold else TbRUndo) (s\<lparr>tb_word := tb_word s + ONE_READER\<rparr>)"

definition acquire_reader_undo :: "tid \<Rightarrow> tbb_state \<Rightarrow> tbb_state" where
  "acquire_reader_undo i s = tb_goto i TbRLoad (s\<lparr>tb_word := tb_word s + - ONE_READER\<rparr>)"

text \<open>\<open>lock_release\<close> decides again whether the thread is a writer.\<close>

definition tbb_lock_release :: "tid \<Rightarrow> tbb_state \<Rightarrow> tbb_state" where
  "tbb_lock_release i s =
     (case is_writer i 0 s of (w, s) \<Rightarrow>
        if w then tb_goto i TbIdle (s\<lparr>tb_word := tb_word s AND READERS\<rparr>)
        else tb_goto i TbIdle (s\<lparr>tb_word := tb_word s + - ONE_READER\<rparr>))"

definition tbb_step :: "nat \<Rightarrow> tid \<Rightarrow> tbb_state \<Rightarrow> tbb_state" where
  "tbb_step N i s = (if i < N then (case tb_pc s i of
       TbIdle \<Rightarrow> tbb_lock_acquire i s
     | TbWLoad \<Rightarrow> acquire_writer_load i s
     | TbWCAS seen \<Rightarrow> acquire_writer_cas i seen s
     | TbWOr \<Rightarrow> acquire_writer_or i s
     | TbRLoad \<Rightarrow> acquire_reader_load i s
     | TbRAdd \<Rightarrow> acquire_reader_add i s
     | TbRUndo \<Rightarrow> acquire_reader_undo i s
     | TbWHold \<Rightarrow> tbb_lock_release i s
     | TbRHold \<Rightarrow> tbb_lock_release i s) else s)"

section \<open>The primitives are atomic\<close>

lemma acquire_writer_cas_call:
  assumes "asm_build b"
  obtains r where "cas64_acquire_release b [\<lparr>before_load = None, before_store = None, spurious = fails\<rparr>, quiet] (tb_word s) WRITER seen = Some r"
    "acquire_writer_cas i seen s = tb_goto i (if rmw_old r = seen then TbWHold else TbWLoad) (s\<lparr>tb_word := rmw_new r\<rparr>)"
proof -
  let ?as = "[\<lparr>before_load = None, before_store = None, spurious = fails\<rparr>, quiet]"
  note op = cas_operation [OF assms, of cas64_acquire_release WRITER seen, simplified]
  obtain r where r: "cas64_acquire_release b ?as (tb_word s) WRITER seen = Some r"
    using atomic_operation.returns [OF op, of quiet ?as "tb_word s"] by (auto simp: store_exclusive_ok_def)
  have "rmw_old r = tb_word s" using atomic_operation.sequential [OF op _ r] by (simp add: undisturbed_def)
  moreover have "rmw_new r = (case cas_instr WRITER seen (rmw_old r) of None \<Rightarrow> rmw_old r | Some v \<Rightarrow> v)" by (rule atomic_operation.new_value [OF op r])
  ultimately show ?thesis using that [OF r] by (simp add: acquire_writer_cas_def cas_instr_def)
qed

text \<open>The compare-and-swap loop of the built-in bodies assumes a strong compare-and-swap.\<close>

lemma tbb_cas_loop_linear:
  "tbb_cas_loop g as m = Some r \<Longrightarrow> \<forall>a\<in>set as. \<not> spurious a \<Longrightarrow>
   \<exists>old\<in>set (history as m). r = atomic_rmw AcqRel (\<lambda>old. Some (g old)) old"
proof (induction as arbitrary: m)
  case (Cons a as)
  let ?tmp = "overwrite (before_load a) m" and ?cell = "overwrite (before_store a) (overwrite (before_load a) m)"
  show ?case
  proof (cases "?cell = ?tmp")
    case True
    with Cons.prems have "r = atomic_rmw AcqRel (\<lambda>old. Some (g old)) ?tmp"
      by (auto simp: Let_def compare_exchange_weak_def atomic_rmw_def)
    then show ?thesis by (auto simp: Let_def)
  next
    case False
    with Cons.prems have "tbb_cas_loop g as ?cell = Some r"
      by (auto simp: Let_def compare_exchange_weak_def)
    with Cons.IH [OF this] Cons.prems(2) show ?thesis by (auto simp: Let_def)
  qed
qed simp

interpretation tbb_or: atomic_operation "\<lambda>as m. TBB_machine_or A64_LLSC as m v" "\<lambda>old. Some (old OR v)" for v
  by (rule atomic_operation_body [where o' = AcqRel]) (simp add: TBB_machine_or_def)

interpretation tbb_and: atomic_operation "\<lambda>as m. TBB_machine_and A64_LSE as m v" "\<lambda>old. Some (old AND v)" for v
  by (rule atomic_operation_body [where o' = AcqRel]) (simp add: TBB_machine_and_def)

section \<open>The state word\<close>

text \<open>A word with a writer bit, a request bit and \<open>n\<close> readers.\<close>

definition tbb_enc :: "bool \<Rightarrow> bool \<Rightarrow> nat \<Rightarrow> u64" where
  "tbb_enc w p n = push_bit 2 (of_nat n) OR (if p then 2 else 0) OR (if w then 1 else 0)"

lemma bit_flags:
  "bit (1 :: u64) k \<longleftrightarrow> k = 0" "bit (2 :: u64) k \<longleftrightarrow> k = 1" "bit (3 :: u64) k \<longleftrightarrow> k = 0 \<or> k = 1"
proof -
  show one: "bit (1 :: u64) k \<longleftrightarrow> k = 0" by (auto simp: bit_simps)
  show two: "bit (2 :: u64) k \<longleftrightarrow> k = 1"
    using bit_exp_iff [of 1 k, where 'a = u64] by auto
  have "(3 :: u64) = 1 OR 2" by simp
  then show "bit (3 :: u64) k \<longleftrightarrow> k = 0 \<or> k = 1" by (simp only: bit_or_iff one two)
qed

lemma bit_3_int: "bit (3 :: int) k \<longleftrightarrow> k = 0 \<or> k = 1"
  by (cases k; cases "k - 1") (auto simp: bit_Suc)

lemma bit_tbb_enc:
  "bit (tbb_enc w p n) k \<longleftrightarrow> k < 64 \<and> (if k = 0 then w else if k = 1 then p else bit n (k - 2))"
  unfolding tbb_enc_def by (auto simp: bit_simps bit_flags)

lemma tbb_enc_flags:
  "tbb_enc w p n AND WRITER = 0 \<longleftrightarrow> \<not> w" "tbb_enc w p n AND WRITER_PENDING = 0 \<longleftrightarrow> \<not> p"
  using and_exp_eq_0_iff_not_bit [of "tbb_enc w p n" 0] and_exp_eq_0_iff_not_bit [of "tbb_enc w p n" 1]
  by (simp_all add: bit_tbb_enc)

lemma tbb_enc_both: "tbb_enc w p n AND (WRITER OR WRITER_PENDING) = 0 \<longleftrightarrow> \<not> w \<and> \<not> p"
  unfolding bit.conj_disj_distrib or_eq_0_iff tbb_enc_flags ..

lemma tbb_enc_update:
  "tbb_enc w p n OR WRITER_PENDING = tbb_enc w True n" "tbb_enc w p n AND READERS = tbb_enc False False n"
  by (rule bit_word_eqI; auto simp: bit_tbb_enc bit_simps bit_flags bit_3_int)+

lemma tbb_enc_busy:
  assumes "n < 2 ^ 62"
  shows "tbb_enc w p n AND BUSY = 0 \<longleftrightarrow> \<not> w \<and> n = 0"
proof
  assume z: "tbb_enc w p n AND BUSY = 0"
  have b: "\<not> bit (tbb_enc w p n) k \<or> k = 1 \<or> 64 \<le> k" for k
    using arg_cong [OF z, of "\<lambda>x. bit x k"] by (auto simp: bit_simps bit_flags)
  have "\<not> bit n k" for k
  proof (cases "k < 62")
    case True
    with b [of "k + 2"] show ?thesis by (simp add: bit_tbb_enc)
  next
    case False
    then have "(2 :: nat) ^ 62 \<le> 2 ^ k" by (intro power_increasing) auto
    with assms have "n < 2 ^ k" by linarith
    then show ?thesis by (simp add: bit_iff_odd)
  qed
  then have "n = 0" by (simp add: bit_eq_iff)
  with b [of 0] show "\<not> w \<and> n = 0" by (simp add: bit_tbb_enc)
next
  assume "\<not> w \<and> n = 0"
  then show "tbb_enc w p n AND BUSY = 0" by (intro bit_word_eqI) (auto simp: bit_tbb_enc bit_simps bit_flags)
qed

lemma tbb_enc_value: "tbb_enc w p n = 4 * of_nat n + (if p then 2 else 0) + (if w then 1 else 0)"
proof -
  have "tbb_enc w p n = push_bit 2 (of_nat n) OR ((if p then 2 else 0) OR (if w then 1 else 0))"
    by (simp add: tbb_enc_def or.assoc)
  also have "\<dots> = push_bit 2 (of_nat n) + ((if p then 2 else 0) OR (if w then 1 else 0))"
    by (rule disjunctive_add [symmetric]) (auto simp: bit_simps bit_flags)
  finally show ?thesis by (simp add: push_bit_eq_mult)
qed

lemma tbb_enc_add: "tbb_enc w p n + ONE_READER = tbb_enc w p (Suc n)"
  "0 < n \<Longrightarrow> tbb_enc w p n + - ONE_READER = tbb_enc w p (n - 1)"
  by (auto simp: tbb_enc_value algebra_simps gr0_conv_Suc)

section \<open>The invariant\<close>

definition tbb_counted :: "tbb_pc \<Rightarrow> nat" where
  "tbb_counted p = (if p = TbRHold \<or> p = TbRUndo then 1 else 0)"

definition tbb_count :: "nat \<Rightarrow> tbb_state \<Rightarrow> nat" where
  "tbb_count N s = (\<Sum>i<N. tbb_counted (tb_pc s i))"

text \<open>Whether the thread would release as a writer, and whether its program point is a writer's.\<close>

definition tbb_decides_writer :: "tbb_state \<Rightarrow> tid \<Rightarrow> bool" where
  "tbb_decides_writer s i \<longleftrightarrow> \<not> tb_pure s i \<and> tb_c s i AND tb_mask s = 0"

definition tbb_mode_ok :: "tbb_state \<Rightarrow> tid \<Rightarrow> bool" where
  "tbb_mode_ok s i = (case tb_pc s i of TbIdle \<Rightarrow> True
     | TbWLoad \<Rightarrow> tbb_decides_writer s i | TbWOr \<Rightarrow> tbb_decides_writer s i | TbWHold \<Rightarrow> tbb_decides_writer s i
     | TbWCAS seen \<Rightarrow> tbb_decides_writer s i \<and> seen AND BUSY = 0
     | _ \<Rightarrow> \<not> tbb_decides_writer s i)"

definition tbb_inv :: "nat \<Rightarrow> tbb_state \<Rightarrow> bool" where
  "tbb_inv N s \<longleftrightarrow> N < 2 ^ 62 \<and>
     (\<exists>p. tb_word s = tbb_enc (\<exists>i. tb_pc s i = TbWHold) p (tbb_count N s)) \<and>
     (\<forall>i j. tb_pc s i = TbWHold \<longrightarrow> tb_pc s j = TbWHold \<longrightarrow> i = j) \<and>
     (\<forall>i j. tb_pc s i = TbWHold \<longrightarrow> tb_pc s j \<noteq> TbRHold) \<and>
     (\<forall>i. tbb_mode_ok s i) \<and> (\<forall>i\<ge>N. tb_pc s i = TbIdle)"

lemma tbb_count_le: "tbb_count N s \<le> N"
proof -
  have "tbb_count N s \<le> (\<Sum>i<N. 1)" unfolding tbb_count_def by (intro sum_mono) (simp add: tbb_counted_def)
  then show ?thesis by simp
qed

lemma tbb_count_goto:
  "i < N \<Longrightarrow> tb_pc s' = (tb_pc s)(i := p) \<Longrightarrow>
   tbb_count N s' + tbb_counted (tb_pc s i) = tbb_count N s + tbb_counted p"
  unfolding tbb_count_def using sum_fun_upd [of i N tbb_counted "tb_pc s" p] by simp

lemma tbb_count_mem: "i < N \<Longrightarrow> tbb_counted (tb_pc s i) \<le> tbb_count N s"
  unfolding tbb_count_def by (rule member_le_sum) auto

text \<open>The invariant after a step of thread \<open>i\<close>, from what the step did to the word and to \<open>i\<close>.\<close>

lemma tbb_inv_goto:
  assumes inv: "tbb_inv N s" and i: "i < N" and pc: "tb_pc s' = (tb_pc s)(i := p)"
    and env: "tb_mask s' = tb_mask s" "tb_pure s' = tb_pure s" "\<forall>j. j \<noteq> i \<longrightarrow> tb_c s' j = tb_c s j"
    and mode: "tbb_mode_ok s' i"
    and word: "\<exists>q. tb_word s' = tbb_enc (\<exists>i. tb_pc s' i = TbWHold) q (tbb_count N s')"
    and excl: "p = TbWHold \<Longrightarrow> tb_pc s i = TbWHold \<or> (\<forall>j. tb_pc s j \<noteq> TbWHold \<and> tb_pc s j \<noteq> TbRHold)"
      "p = TbRHold \<Longrightarrow> \<forall>j. tb_pc s j \<noteq> TbWHold"
  shows "tbb_inv N s'"
proof -
  have mode': "tbb_mode_ok s' j" for j
  proof (cases "j = i")
    case False
    have "tbb_mode_ok s j" using inv by (simp add: tbb_inv_def)
    moreover have "tbb_decides_writer s' j = tbb_decides_writer s j" "tb_pc s' j = tb_pc s j"
      using False by (simp_all add: tbb_decides_writer_def pc env)
    ultimately show ?thesis by (simp only: tbb_mode_ok_def)
  qed (use mode in simp)
  have one: "\<And>j k. tb_pc s j = TbWHold \<Longrightarrow> tb_pc s k = TbWHold \<Longrightarrow> j = k"
    and none: "\<And>j k. tb_pc s j = TbWHold \<Longrightarrow> tb_pc s k \<noteq> TbRHold"
    using inv unfolding tbb_inv_def by blast+
  have "j = k" if "tb_pc s' j = TbWHold" "tb_pc s' k = TbWHold" for j k
    using one [of j k] one [of i j] one [of i k] excl(1) that unfolding pc
    by (cases "j = i"; cases "k = i") auto
  moreover have "tb_pc s' k \<noteq> TbRHold" if "tb_pc s' j = TbWHold" for j k
  proof
    assume k: "tb_pc s' k = TbRHold"
    with that have "j \<noteq> k" by auto
    with none [of j k] excl that k show False unfolding pc by (cases "j = i"; cases "k = i") auto
  qed
  moreover have "\<forall>j\<ge>N. tb_pc s' j = TbIdle" using inv i by (auto simp: tbb_inv_def pc)
  ultimately show ?thesis using inv word mode' unfolding tbb_inv_def by blast
qed

lemma tbb_inv_word:
  assumes "tbb_inv N s"
  obtains p where "tb_word s = tbb_enc (\<exists>i. tb_pc s i = TbWHold) p (tbb_count N s)" "tbb_count N s < 2 ^ 62"
  using assms tbb_count_le [of N s] unfolding tbb_inv_def by (metis order_le_less_trans)

lemmas tbb_step_defs = tbb_lock_acquire_def acquire_writer_load_def acquire_writer_cas_def acquire_writer_or_def
  acquire_reader_load_def acquire_reader_add_def acquire_reader_undo_def tbb_lock_release_def is_writer_def Let_def

lemmas tbb_mode_defs = tbb_mode_ok_def tbb_decides_writer_def

text \<open>Steps that leave the word alone.\<close>

lemma tbb_inv_quiet:
  assumes inv: "tbb_inv N s" and i: "i < N" and pc: "tb_pc s' = (tb_pc s)(i := p)"
    and env: "tb_mask s' = tb_mask s" "tb_pure s' = tb_pure s" "\<forall>j. j \<noteq> i \<longrightarrow> tb_c s' j = tb_c s j"
    and mode: "tbb_mode_ok s' i" and w: "tb_word s' = tb_word s"
    and pcs: "tbb_counted (tb_pc s i) = 0" "tbb_counted p = 0" "tb_pc s i \<noteq> TbWHold" "p \<noteq> TbWHold"
  shows "tbb_inv N s'"
proof (rule tbb_inv_goto [OF inv i pc env mode])
  have "tbb_count N s' = tbb_count N s" using tbb_count_goto [OF i pc] pcs by simp
  moreover have "(\<exists>j. tb_pc s' j = TbWHold) = (\<exists>j. tb_pc s j = TbWHold)" using pcs by (auto simp: pc)
  ultimately show "\<exists>q. tb_word s' = tbb_enc (\<exists>i. tb_pc s' i = TbWHold) q (tbb_count N s')"
    using inv w by (simp add: tbb_inv_def)
qed (use pcs in \<open>auto simp: tbb_counted_def\<close>)

lemma tbb_inv_step_quiet:
  assumes inv: "tbb_inv N s" and i: "i < N"
  shows "tb_pc s i = TbIdle \<Longrightarrow> tbb_inv N (tbb_lock_acquire i s)"
    and "tb_pc s i = TbWLoad \<Longrightarrow> tbb_inv N (acquire_writer_load i s)"
    and "tb_pc s i = TbRLoad \<Longrightarrow> tbb_inv N (acquire_reader_load i s)"
proof -
  have m: "tbb_mode_ok s i" using inv by (simp add: tbb_inv_def)
  note quiet = tbb_inv_quiet [OF inv i]
  show "tbb_inv N (tbb_lock_acquire i s)" if "tb_pc s i = TbIdle"
    by (rule quiet [where p = "tb_pc (tbb_lock_acquire i s) i"])
      (use m that in \<open>auto simp: tbb_step_defs tbb_mode_defs tbb_counted_def\<close>)
  show "tbb_inv N (acquire_writer_load i s)" if "tb_pc s i = TbWLoad"
    by (rule quiet [where p = "tb_pc (acquire_writer_load i s) i"])
      (use m that in \<open>auto simp: tbb_step_defs tbb_mode_defs tbb_counted_def\<close>)
  show "tbb_inv N (acquire_reader_load i s)" if "tb_pc s i = TbRLoad"
    by (rule quiet [where p = "tb_pc (acquire_reader_load i s) i"])
      (use m that in \<open>auto simp: tbb_step_defs tbb_mode_defs tbb_counted_def\<close>)
qed

lemma tbb_inv_cas:
  assumes inv: "tbb_inv N s" and i: "i < N" and pc: "tb_pc s i = TbWCAS seen"
  shows "tbb_inv N (acquire_writer_cas i seen s)"
proof (cases "tb_word s = seen")
  case True
  let ?s = "acquire_writer_cas i seen s"
  have m: "tbb_mode_ok s i" using inv by (simp add: tbb_inv_def)
  obtain p where p: "tb_word s = tbb_enc (\<exists>i. tb_pc s i = TbWHold) p (tbb_count N s)" "tbb_count N s < 2 ^ 62"
    using tbb_inv_word [OF inv] .
  with m pc True have free: "tbb_count N s = 0" "\<forall>j. tb_pc s j \<noteq> TbWHold"
    using tbb_enc_busy [OF p(2), of "\<exists>i. tb_pc s i = TbWHold" p] by (auto simp: tbb_mode_ok_def)
  have none: "tb_pc s j \<noteq> TbRHold" for j
    using free(1) inv tbb_count_mem [of j N s] by (cases "j < N") (auto simp: tbb_counted_def tbb_inv_def)
  have pc': "tb_pc ?s = (tb_pc s)(i := TbWHold)" using True by (simp add: acquire_writer_cas_def)
  show ?thesis
  proof (rule tbb_inv_goto [OF inv i pc'])
    have "tbb_count N ?s = 0" using tbb_count_goto [OF i pc'] free pc by (simp add: tbb_counted_def)
    moreover have "\<exists>j. tb_pc ?s j = TbWHold" unfolding pc' by auto
    ultimately have "tb_word ?s = tbb_enc (\<exists>j. tb_pc ?s j = TbWHold) False (tbb_count N ?s)"
      using True by (simp add: acquire_writer_cas_def tbb_enc_value)
    then show "\<exists>q. tb_word ?s = tbb_enc (\<exists>j. tb_pc ?s j = TbWHold) q (tbb_count N ?s)" ..
  qed (use True m pc free none in \<open>auto simp: acquire_writer_cas_def tbb_mode_defs\<close>)
next
  case False
  with inv i pc show ?thesis
    by (intro tbb_inv_quiet [OF inv i, where p = TbWLoad])
      (auto simp: acquire_writer_cas_def tbb_counted_def tbb_inv_def tbb_mode_defs dest: spec [of _ i])
qed

lemma tbb_inv_or:
  assumes inv: "tbb_inv N s" and i: "i < N" and pc: "tb_pc s i = TbWOr"
  shows "tbb_inv N (acquire_writer_or i s)"
proof (rule tbb_inv_goto [OF inv i])
  let ?s = "acquire_writer_or i s"
  have m: "tbb_mode_ok s i" using inv by (simp add: tbb_inv_def)
  then show "tbb_mode_ok ?s i" using pc by (simp add: tbb_mode_defs acquire_writer_or_def)
  show pc': "tb_pc ?s = (tb_pc s)(i := TbWLoad)" by (simp add: acquire_writer_or_def)
  obtain p where p: "tb_word s = tbb_enc (\<exists>i. tb_pc s i = TbWHold) p (tbb_count N s)"
    using tbb_inv_word [OF inv] by metis
  have "tbb_count N ?s = tbb_count N s" using tbb_count_goto [OF i pc'] pc by (simp add: tbb_counted_def)
  moreover have "(\<exists>j. tb_pc ?s j = TbWHold) = (\<exists>j. tb_pc s j = TbWHold)" unfolding pc' using pc by (intro ex_fun_upd_other) auto
  ultimately have "tb_word ?s = tbb_enc (\<exists>j. tb_pc ?s j = TbWHold) True (tbb_count N ?s)"
    by (simp add: acquire_writer_or_def p tbb_enc_update)
  then show "\<exists>q. tb_word ?s = tbb_enc (\<exists>j. tb_pc ?s j = TbWHold) q (tbb_count N ?s)" ..
qed (simp_all add: acquire_writer_or_def)

lemma tbb_inv_add:
  assumes inv: "tbb_inv N s" and i: "i < N" and pc: "tb_pc s i = TbRAdd"
  shows "tbb_inv N (acquire_reader_add i s)"
proof (rule tbb_inv_goto [OF inv i])
  let ?s = "acquire_reader_add i s"
  obtain p where p: "tb_word s = tbb_enc (\<exists>i. tb_pc s i = TbWHold) p (tbb_count N s)"
    using tbb_inv_word [OF inv] by metis
  then have w: "tb_word s AND WRITER = 0 \<longleftrightarrow> \<not> (\<exists>i. tb_pc s i = TbWHold)" by (simp only: tbb_enc_flags)
  have m: "tbb_mode_ok s i" using inv by (simp add: tbb_inv_def)
  then show "tbb_mode_ok ?s i" using pc by (simp add: tbb_mode_defs acquire_reader_add_def)
  show pc': "tb_pc ?s = (tb_pc s)(i := if tb_word s AND WRITER = 0 then TbRHold else TbRUndo)"
    by (simp add: acquire_reader_add_def)
  have "tbb_count N ?s = Suc (tbb_count N s)" using tbb_count_goto [OF i pc'] pc by (simp add: tbb_counted_def)
  moreover have "(\<exists>j. tb_pc ?s j = TbWHold) = (\<exists>j. tb_pc s j = TbWHold)" unfolding pc' using pc by (intro ex_fun_upd_other) auto
  ultimately have "tb_word ?s = tbb_enc (\<exists>j. tb_pc ?s j = TbWHold) p (tbb_count N ?s)"
    by (simp only: acquire_reader_add_def p tbb_enc_add [symmetric]) simp
  then show "\<exists>q. tb_word ?s = tbb_enc (\<exists>j. tb_pc ?s j = TbWHold) q (tbb_count N ?s)" ..
  show "\<forall>j. tb_pc s j \<noteq> TbWHold" if "(if tb_word s AND WRITER = 0 then TbRHold else TbRUndo) = TbRHold"
    using that w by (auto split: if_splits)
qed (auto simp: acquire_reader_add_def split: if_splits)

text \<open>Taking a counted reader out again, by undoing the increment or by releasing.\<close>

lemma tbb_inv_leave:
  assumes inv: "tbb_inv N s" and i: "i < N" and c: "tbb_counted (tb_pc s i) = 1"
    and s': "s' = tb_goto i p (s\<lparr>tb_word := tb_word s + - ONE_READER\<rparr>)"
    and p: "p = TbIdle \<or> p = TbRLoad"
  shows "tbb_inv N s'"
proof (rule tbb_inv_goto [OF inv i])
  obtain q where q: "tb_word s = tbb_enc (\<exists>i. tb_pc s i = TbWHold) q (tbb_count N s)"
    using tbb_inv_word [OF inv] by metis
  have m: "tbb_mode_ok s i" using inv by (simp add: tbb_inv_def)
  then show "tbb_mode_ok s' i" using c p by (auto simp: s' tbb_mode_defs tbb_counted_def split: tbb_pc.splits if_splits)
  show pc': "tb_pc s' = (tb_pc s)(i := p)" by (simp add: s')
  have n: "tbb_count N s' = tbb_count N s - 1" "0 < tbb_count N s"
    using tbb_count_goto [OF i pc'] c p tbb_count_mem [OF i, of s] by (auto simp: tbb_counted_def)
  moreover have "(\<exists>j. tb_pc s' j = TbWHold) = (\<exists>j. tb_pc s j = TbWHold)"
    unfolding pc' using c p by (intro ex_fun_upd_other) (auto simp: tbb_counted_def)
  ultimately have "tb_word s' = tbb_enc (\<exists>j. tb_pc s' j = TbWHold) q (tbb_count N s')"
    using tbb_enc_add(2) [OF n(2)] by (simp add: s' q)
  then show "\<exists>q. tb_word s' = tbb_enc (\<exists>j. tb_pc s' j = TbWHold) q (tbb_count N s')" ..
qed (use p in \<open>auto simp: s'\<close>)

lemma tbb_inv_writer_leaves:
  assumes inv: "tbb_inv N s" and i: "i < N" and pc: "tb_pc s i = TbWHold"
    and s': "s' = tb_goto i TbIdle (s\<lparr>tb_word := tb_word s AND READERS\<rparr>)"
  shows "tbb_inv N s'"
proof (rule tbb_inv_goto [OF inv i])
  obtain q where q: "tb_word s = tbb_enc (\<exists>i. tb_pc s i = TbWHold) q (tbb_count N s)"
    using tbb_inv_word [OF inv] by metis
  show "tbb_mode_ok s' i" by (simp add: s' tbb_mode_ok_def)
  show pc': "tb_pc s' = (tb_pc s)(i := TbIdle)" by (simp add: s')
  have "tbb_count N s' = tbb_count N s" using tbb_count_goto [OF i pc'] pc by (simp add: tbb_counted_def)
  moreover have "\<not> (\<exists>j. tb_pc s' j = TbWHold)" unfolding pc' using inv pc by (auto simp: tbb_inv_def)
  ultimately have "tb_word s' = tbb_enc (\<exists>j. tb_pc s' j = TbWHold) False (tbb_count N s')"
    by (simp only: s' q tbb_enc_update simp_thms) (simp add: tbb_enc_update(2) [simplified] q)
  then show "\<exists>q. tb_word s' = tbb_enc (\<exists>j. tb_pc s' j = TbWHold) q (tbb_count N s')" ..
qed (auto simp: s')

lemma tbb_inv_step: "tbb_inv N s \<Longrightarrow> tbb_inv N (tbb_step N i s)"
proof (cases "i < N")
  case i: True
  assume inv: "tbb_inv N s"
  then have m: "tbb_mode_ok s i" by (simp add: tbb_inv_def)
  show ?thesis
  proof (cases "tb_pc s i")
    case TbWHold
    with m have "tbb_lock_release i s = tb_goto i TbIdle (s\<lparr>tb_word := tb_word s AND READERS\<rparr>)"
      by (simp add: tbb_step_defs tbb_mode_defs)
    with i TbWHold tbb_inv_writer_leaves [OF inv i TbWHold] show ?thesis by (simp add: tbb_step_def)
  next
    case TbRHold
    with m have "tbb_lock_release i s = tb_goto i TbIdle (s\<lparr>tb_word := tb_word s + - ONE_READER\<rparr>)"
      by (auto simp: tbb_step_defs tbb_mode_defs)
    with i TbRHold tbb_inv_leave [OF inv i, of _ TbIdle] show ?thesis
      by (simp add: tbb_step_def tbb_counted_def)
  next
    case TbRUndo
    with i tbb_inv_leave [OF inv i, of "acquire_reader_undo i s" TbRLoad] show ?thesis
      by (simp add: tbb_step_def tbb_counted_def acquire_reader_undo_def)
  qed (use i tbb_inv_step_quiet [OF inv i] tbb_inv_cas [OF inv i] tbb_inv_or [OF inv i] tbb_inv_add [OF inv i]
       in \<open>simp_all add: tbb_step_def\<close>)
qed (simp add: tbb_step_def)

definition tbb_init :: "nat \<Rightarrow> tbb_state \<Rightarrow> bool" where
  "tbb_init N s \<longleftrightarrow> N < 2 ^ 62 \<and> (\<exists>p cpulist. s = tbb_init_locks p cpulist)"

interpretation tbb: invariant_system "tbb_init N" "tbb_step N" "tbb_inv N" for N
proof unfold_locales
  fix s assume "tbb_init N s"
  then obtain p cpulist where s: "N < 2 ^ 62" "s = tbb_init_locks p cpulist" by (auto simp: tbb_init_def)
  then have "tbb_count N s = 0" by (simp add: tbb_count_def tbb_counted_def tbb_init_locks_def)
  with s show "tbb_inv N s"
    by (auto simp: tbb_inv_def tbb_init_locks_def tbb_enc_value tbb_mode_ok_def intro!: exI [of _ False])
qed (rule tbb_inv_step)

text \<open>Writers alone exclude each other, so the writers of the lock form a mutex.\<close>

definition tbb_writes :: "tbb_state \<Rightarrow> tid \<Rightarrow> bool" where
  "tbb_writes s i \<longleftrightarrow> tb_pc s i = TbWHold"

definition tbb_reads :: "tbb_state \<Rightarrow> tid \<Rightarrow> bool" where
  "tbb_reads s i \<longleftrightarrow> tb_pc s i = TbRHold"

interpretation tbb: mutex_system "tbb_init N" "tbb_step N" "tbb_inv N" tbb_writes for N
  by unfold_locales (auto simp: tbb_inv_def tbb_writes_def)

section \<open>The share of writers\<close>

text \<open>How a thread's acquisitions go: the answers of \<open>is_writer(i, 1)\<close> in a row.\<close>

fun tbb_kinds :: "nat \<Rightarrow> tid \<Rightarrow> tbb_state \<Rightarrow> bool list" where
  "tbb_kinds 0 i s = []"
| "tbb_kinds (Suc n) i s = (case is_writer i 1 s of (w, s') \<Rightarrow> w # tbb_kinds n i s')"

lemma tbb_kinds_eq:
  "\<not> tb_pure s i \<Longrightarrow> tbb_kinds n i s = map (\<lambda>k. (tb_c s i + of_nat (Suc k)) AND tb_mask s = 0) [0..<n]"
proof (induction n arbitrary: s)
  case (Suc n)
  have "[0..<Suc n] = 0 # map Suc [0..<n]" by (simp only: upt_conv_Cons zero_less_Suc map_Suc_upt)
  with Suc show ?case by (simp add: is_writer_def Let_def algebra_simps)
qed simp

lemma and_mask_eq_0: "(x AND (push_bit k 1 - 1) = 0) \<longleftrightarrow> 2 ^ k dvd unat (x :: u64)" if "k < 64"
proof -
  have "(push_bit k 1 - 1 :: u64) = mask k" by (simp add: mask_eq_exp_minus_1 push_bit_eq_mult)
  then have "(x AND (push_bit k 1 - 1) = 0) \<longleftrightarrow> take_bit k x = 0" by (simp add: take_bit_eq_mask)
  also have "\<dots> \<longleftrightarrow> take_bit k (unat x) = 0" by (simp add: unat_eq_0 flip: unsigned_take_bit_eq)
  also have "\<dots> \<longleftrightarrow> 2 ^ k dvd unat x" by (simp add: take_bit_eq_mod dvd_eq_mod_eq_0)
  finally show ?thesis .
qed

lemma dvd_unat_add:
  assumes "k < 64"
  shows "2 ^ k dvd unat (x + of_nat n :: u64) \<longleftrightarrow> 2 ^ k dvd unat x + n"
proof -
  have d: "(2 :: nat) ^ k dvd 2 ^ 64" using assms by (intro le_imp_power_dvd) simp
  have "unat (x + of_nat n) = (unat x + n) mod 2 ^ 64"
    by (simp add: unat_word_ariths unat_of_nat mod_simps)
  then show ?thesis using d by (simp only: dvd_mod_iff)
qed

lemma multiple_unique:
  assumes "k < m" "l < m" "m dvd a + k" "m dvd a + (l :: nat)"
  shows "k = l"
proof (rule ccontr)
  assume "k \<noteq> l"
  have "m dvd k - l" "m dvd l - k"
    using dvd_diff_nat [OF assms(3,4)] dvd_diff_nat [OF assms(4,3)] by simp_all
  with \<open>k \<noteq> l\<close> assms(1,2) show False by (metis diff_is_0_eq dvd_imp_le le_antisym less_imp_diff_less not_le neq0_conv)
qed

lemma one_multiple: "0 < m \<Longrightarrow> \<exists>!k. k < m \<and> m dvd a + (k :: nat)"
proof -
  assume m: "0 < m"
  have "\<exists>k<m. m dvd a + k"
  proof (cases "a mod m = 0")
    case True
    with m show ?thesis by (intro exI [of _ 0]) auto
  next
    case False
    have "a mod m < m" using m by simp
    then have "a + (m - a mod m) = a div m * m + m" using div_mult_mod_eq [of a m] by linarith
    then have "m dvd a + (m - a mod m)" by simp
    with False m show ?thesis by (intro exI [of _ "m - a mod m"]) auto
  qed
  then show ?thesis using multiple_unique by blast
qed

text \<open>Two threads, of which the first is a pure reader and the second writes every other time.\<close>

definition tbb_example :: tbb_state where
  "tbb_example = tbb_init_locks \<lparr>log2_ratio = 1, pure_reader_cpus = {7}, LOOPS_BEFORE_YIELD = 16, tbb_verbose = 0\<rparr>
     (\<lambda>i. if i = 0 then 7 else i)"

section \<open>Properties\<close>

text \<open>C7: the lock is held by one writer or by readers, never both: in every interleaving of fewer than
  \<open>2 ^ 62\<close> threads a thread that holds it as a writer is alone, in spite of readers that count
  themselves in and out again while the writer holds it. The compare-and-swap is the one of the assembly builds.\<close>

theorem tbb_reader_writer_exclusion:
  assumes "N < 2 ^ 62" and "s = run (tbb_step N) ls (tbb_init_locks p cpulist)" and "tbb_writes s i"
  shows "(tbb_writes s j \<longrightarrow> j = i) \<and> \<not> tbb_reads s j"
proof -
  have init: "tbb_init N (tbb_init_locks p cpulist)" using assms(1) by (auto simp: tbb_init_def)
  have "tbb_inv N s" unfolding assms(2) by (rule tbb.reachable_inv [OF init])
  then have "\<not> tbb_reads s j" using assms(3) by (auto simp: tbb_inv_def tbb_writes_def tbb_reads_def)
  moreover have "tbb_writes s j \<Longrightarrow> j = i"
    using tbb.mutual_exclusion [OF init] assms(2,3) by blast
  ultimately show ?thesis by blast
qed

theorem tbb_reader_writer_exclusion_witness:
  "tbb_writes (run (tbb_step 2) [0, 0, 1, 1, 1, 0] tbb_example) 1 \<and>
   \<not> tbb_reads (run (tbb_step 2) [0, 0, 1, 1, 1, 0] tbb_example) 0"
proof -
  have w: "tbb_writes (run (tbb_step 2) [0, 0, 1, 1, 1, 0] tbb_example) 1"
    unfolding tbb_example_def by code_simp
  show ?thesis
    using w tbb_reader_writer_exclusion [OF _ refl, of 2 "[0, 0, 1, 1, 1, 0]" _ _ 1 0]
    unfolding tbb_example_def by simp
qed

text \<open>C25: the state word always tells the truth: bit 0 is set exactly while a writer holds the lock, and the
  upper bits are the number of readers that are counted in, those about to undo their increment
  included; the count never overflows into or out of the flag bits.\<close>

theorem tbb_word_counts:
  assumes "N < 2 ^ 62" and "s = run (tbb_step N) ls (tbb_init_locks p cpulist)"
  shows "\<exists>pending. tb_word s = 4 * of_nat (tbb_count N s) + (if pending then 2 else 0)
           + (if \<exists>i. tbb_writes s i then 1 else 0) \<and> tbb_count N s \<le> N"
proof -
  have "tbb_inv N s"
    unfolding assms(2) by (rule tbb.reachable_inv) (use assms(1) in \<open>auto simp: tbb_init_def\<close>)
  then obtain q where "tb_word s = tbb_enc (\<exists>i. tb_pc s i = TbWHold) q (tbb_count N s)"
    by (rule tbb_inv_word)
  then show ?thesis
    using tbb_count_le by (intro exI [of _ q]) (simp add: tbb_enc_value tbb_writes_def)
qed

theorem tbb_word_counts_witness:
  "\<exists>pending. tb_word (run (tbb_step 2) [0, 0, 0] tbb_example) =
     4 * of_nat (tbb_count 2 (run (tbb_step 2) [0, 0, 0] tbb_example)) + (if pending then 2 else 0)
     + (if \<exists>i. tbb_writes (run (tbb_step 2) [0, 0, 0] tbb_example) i then 1 else 0)"
  using tbb_word_counts [of 2 _ "[0, 0, 0]" _ _, OF _ refl] unfolding tbb_example_def by fastforce

text \<open>With \<open>-r r\<close>, of any \<open>2 ^ r\<close> successive acquisitions of a thread that is not a pure reader exactly one
  is a write acquisition, whatever the thread's counter is, wrap-around included. A pure reader
  never writes.\<close>

theorem tbb_write_ratio:
  assumes "log2_ratio p < 64" and "tb_mask s = tb_mask (tbb_init_locks p cpulist)"
  shows "if tb_pure s i then True \<notin> set (tbb_kinds n i s)
         else \<exists>!k. k < 2 ^ unat (log2_ratio p) \<and> tbb_kinds (2 ^ unat (log2_ratio p)) i s ! k"
proof (cases "tb_pure s i")
  case True
  then have "set (tbb_kinds n i s) \<subseteq> {False}" by (induction n) (auto simp: is_writer_def)
  with True show ?thesis by auto
next
  case False
  let ?r = "unat (log2_ratio p)"
  have r: "?r < 64" using assms(1) by (simp add: word_less_nat_alt)
  have m: "tb_mask s = push_bit ?r 1 - 1" using assms(2) by (simp add: tbb_init_locks_def)
  have "tbb_kinds (2 ^ ?r) i s ! k \<longleftrightarrow> 2 ^ ?r dvd (unat (tb_c s i) + 1) + k" if "k < 2 ^ ?r" for k
  proof -
    have "tbb_kinds (2 ^ ?r) i s ! k \<longleftrightarrow> (tb_c s i + of_nat (Suc k)) AND tb_mask s = 0"
      using that by (simp add: tbb_kinds_eq [OF False])
    then show ?thesis unfolding m and_mask_eq_0 [OF r] dvd_unat_add [OF r] by simp
  qed
  then have "\<And>k. (k < 2 ^ ?r \<and> tbb_kinds (2 ^ ?r) i s ! k) \<longleftrightarrow> (k < 2 ^ ?r \<and> 2 ^ ?r dvd (unat (tb_c s i) + 1) + k)"
    by blast
  then show ?thesis using False one_multiple [of "2 ^ ?r" "unat (tb_c s i) + 1"] by simp
qed

theorem tbb_write_ratio_witness:
  "\<exists>!k. k < 2 ^ 1 \<and> tbb_kinds (2 ^ 1) 1 tbb_example ! k"
proof -
  have "\<not> tb_pure tbb_example 1" unfolding tbb_example_def by code_simp
  then show ?thesis
    using tbb_write_ratio [of "\<lparr>log2_ratio = 1, pure_reader_cpus = {7}, LOOPS_BEFORE_YIELD = 16, tbb_verbose = 0\<rparr>"
        tbb_example "\<lambda>i. if i = 0 then 7 else i" 1] by (simp add: tbb_example_def)
qed

end
