(* ===== verification/MCS_Queue.thy ===== *)
theory MCS_Queue
  imports Lock_Prelude
begin

text \<open>
  The linked queue of Mellor-Crummey and Scott that \<open>queued_spinlock.h\<close> and the hybrid spinlocks
  share: a waiter exchanges the tail for its own node, stores the node into its predecessor's
  \<open>next\<close>, spins on its own \<open>locked\<close>, and as the head either empties the queue or stores to its
  successor's \<open>locked\<close>. The lemmas say what each of these accesses does to the queue; \<open>nx\<close> and \<open>lk\<close>
  are the fields of the nodes and \<open>role\<close> is where the owner of each node stands.
\<close>

datatype 'n mcs_role = Out | Linking 'n | Waiting | Head

fun mcs_behind :: "('n \<Rightarrow> 'n option) \<Rightarrow> ('n \<Rightarrow> u32) \<Rightarrow> ('n \<Rightarrow> 'n mcs_role) \<Rightarrow> 'n \<Rightarrow> 'n list \<Rightarrow> bool" where
  "mcs_behind nx lk role p [] \<longleftrightarrow> nx p = None"
| "mcs_behind nx lk role p (i # q) \<longleftrightarrow>
     lk i = 0 \<and> (role i = Linking p \<and> nx p = None \<or> role i = Waiting \<and> nx p = Some i) \<and>
     mcs_behind nx lk role i q"

definition mcs_members :: "('n \<Rightarrow> 'n mcs_role) \<Rightarrow> 'n list \<Rightarrow> bool" where
  "mcs_members role q \<longleftrightarrow> distinct q \<and> (\<forall>i. i \<in> set q \<longleftrightarrow> role i \<noteq> Out)"

definition mcs_queue :: "('n \<Rightarrow> 'n option) \<Rightarrow> ('n \<Rightarrow> u32) \<Rightarrow> ('n \<Rightarrow> 'n mcs_role) \<Rightarrow> 'n list \<Rightarrow> bool" where
  "mcs_queue nx lk role q \<longleftrightarrow> mcs_members role q \<and>
     (case q of [] \<Rightarrow> True
      | h # q' \<Rightarrow> (role h = Head \<or> role h = Waiting \<and> lk h \<noteq> 0) \<and> mcs_behind nx lk role h q')"

lemma mcs_membersD:
  "mcs_members role q \<Longrightarrow> i \<in> set q \<longleftrightarrow> role i \<noteq> Out" "mcs_members role q \<Longrightarrow> distinct q"
  by (simp_all add: mcs_members_def)

lemma mcs_members_upd:
  "mcs_members role q \<Longrightarrow> role i \<noteq> Out \<Longrightarrow> r \<noteq> Out \<Longrightarrow> mcs_members (role(i := r)) q"
  "mcs_members role (i # q) \<Longrightarrow> mcs_members (role(i := Out)) q"
  "mcs_members role q \<Longrightarrow> role i = Out \<Longrightarrow> r \<noteq> Out \<Longrightarrow> mcs_members (role(i := r)) (q @ [i])"
  by (auto simp: mcs_members_def)

lemma mcs_queue_empty [simp]: "mcs_queue nx lk (\<lambda>_. Out) []"
  by (simp add: mcs_queue_def mcs_members_def)

lemma mcs_queue_Cons:
  "mcs_queue nx lk role (h # q) \<longleftrightarrow> mcs_members role (h # q) \<and>
     (role h = Head \<or> role h = Waiting \<and> lk h \<noteq> 0) \<and> mcs_behind nx lk role h q"
  by (simp add: mcs_queue_def)

lemma mcs_queue_mem: "mcs_queue nx lk role q \<Longrightarrow> i \<in> set q \<longleftrightarrow> role i \<noteq> Out"
  by (simp add: mcs_queue_def mcs_members_def)

lemma mcs_queue_distinct: "mcs_queue nx lk role q \<Longrightarrow> distinct q"
  by (simp add: mcs_queue_def mcs_members_def)

lemma mcs_behind_cong:
  assumes "\<And>i. i \<in> insert p (set q) \<Longrightarrow> nx' i = nx i"
    and "\<And>i. i \<in> set q \<Longrightarrow> lk' i = lk i \<and> role' i = role i"
  shows "mcs_behind nx' lk' role' p q = mcs_behind nx lk role p q"
  using assms by (induction q arbitrary: p) auto

text \<open>Whoever is not the first is linking or waiting with \<open>locked\<close> 0.\<close>

lemma mcs_behind_not_head:
  "mcs_behind nx lk role p q \<Longrightarrow> i \<in> set q \<Longrightarrow> lk i = 0 \<and> role i \<noteq> Head \<and> (role i = Waiting \<or> (\<exists>r. role i = Linking r))"
  by (induction q arbitrary: p) auto

lemma mcs_head_first:
  assumes q: "mcs_queue nx lk role q" and i: "role i = Head \<or> role i = Waiting \<and> lk i \<noteq> 0"
  obtains q' where "q = i # q'"
proof -
  have m: "i \<in> set q" using i mcs_queue_mem [OF q, of i] by auto
  then obtain h q' where e: "q = h # q'" by (cases q) auto
  with q have "mcs_behind nx lk role h q'" by (simp add: mcs_queue_Cons)
  with i have "i \<notin> set q'" using mcs_behind_not_head by fastforce
  with m e that show thesis by auto
qed

lemma mcs_first:
  assumes "mcs_queue nx lk role (h # q)"
  shows "role h = Head \<or> role h = Waiting \<and> lk h \<noteq> 0"
  using assms by (simp add: mcs_queue_Cons)

text \<open>Fields of nodes that are not in the queue may change.\<close>

lemma mcs_outside:
  assumes q: "mcs_queue nx lk role q" and f: "\<And>i. role i \<noteq> Out \<Longrightarrow> nx' i = nx i \<and> lk' i = lk i"
  shows "mcs_queue nx' lk' role q"
proof (cases q)
  case (Cons h q')
  with mcs_queue_mem [OF q] f have m: "\<And>i. i \<in> insert h (set q') \<Longrightarrow> nx' i = nx i \<and> lk' i = lk i" by auto
  have "mcs_behind nx' lk' role h q' = mcs_behind nx lk role h q'"
    by (rule mcs_behind_cong) (use m in auto)
  with q m Cons show ?thesis by (simp add: mcs_queue_Cons)
qed (use q in \<open>simp add: mcs_queue_def\<close>)

text \<open>The exchange of the tail appends the node.\<close>

lemma mcs_behind_append:
  assumes "mcs_behind nx lk role p q" "i \<notin> insert p (set q)" "nx i = None" "lk i = 0"
    "role' i = Linking (last (p # q))" "\<And>j. j \<noteq> i \<Longrightarrow> role' j = role j"
  shows "mcs_behind nx lk role' p (q @ [i])"
  using assms
proof (induction q arbitrary: p)
  case (Cons j q)
  then have "mcs_behind nx lk role' j (q @ [i])" by (intro Cons.IH) auto
  with Cons.prems show ?case by auto
qed auto

lemma mcs_enqueue:
  assumes q: "mcs_queue nx lk role q" and i: "role i = Out" "nx i = None" "lk i = 0"
  shows "mcs_queue nx lk (role(i := if q = [] then Head else Linking (last q))) (q @ [i])"
proof -
  let ?r = "role(i := if q = [] then Head else Linking (last q))"
  have m: "mcs_members ?r (q @ [i])"
    by (rule mcs_members_upd(3)) (use q i in \<open>simp_all add: mcs_queue_def\<close>)
  have fresh: "i \<notin> set q" using mcs_queue_mem [OF q, of i] i by simp
  show ?thesis
  proof (cases q)
    case Nil
    with m i show ?thesis by (simp add: mcs_queue_Cons)
  next
    case (Cons h q')
    have "mcs_behind nx lk ?r h (q' @ [i])"
      by (rule mcs_behind_append [where role = role]) (use q i Cons fresh in \<open>auto simp: mcs_queue_Cons\<close>)
    with m q Cons fresh show ?thesis by (auto simp: mcs_queue_Cons)
  qed
qed

text \<open>The store to the predecessor's \<open>next\<close>.\<close>

lemma mcs_behind_link:
  assumes "mcs_behind nx lk role p q" "role i = Linking r" "i \<in> set q" "distinct (p # q)"
    and "\<And>x. nx' x = (if x = r then Some i else nx x)" "\<And>x. role' x = (if x = i then Waiting else role x)"
  shows "mcs_behind nx' lk role' p q \<and> r \<in> insert p (set q) \<and> nx r = None"
  using assms(1-4)
proof (induction q arbitrary: p)
  case (Cons j q)
  show ?case
  proof (cases "j = i")
    case True
    with Cons.prems have r: "r = p" by auto
    have "mcs_behind nx' lk role' j q = mcs_behind nx lk role j q"
      by (rule mcs_behind_cong) (use Cons.prems True r in \<open>auto simp: assms(5,6)\<close>)
    with Cons.prems True r assms(5) [of p] assms(6) [of i] show ?thesis by simp
  next
    case False
    with Cons.prems have "i \<in> set q" "distinct (j # q)" "mcs_behind nx lk role j q" by auto
    from Cons.IH [OF this(3) Cons.prems(2) this(1,2)]
    have ih: "mcs_behind nx' lk role' j q" "r \<in> insert j (set q)" "nx r = None" by auto
    with Cons.prems have "r \<noteq> p" by auto
    with ih False Cons.prems assms(5) [of p] assms(6) [of j] show ?thesis by simp
  qed
qed simp

lemma mcs_link:
  assumes q: "mcs_queue nx lk role q" and i: "role i = Linking r"
  shows "mcs_queue (nx(r := Some i)) lk (role(i := Waiting)) q" and "r \<in> set q" "lk i = 0" "nx r = None"
proof -
  have m: "i \<in> set q" using mcs_queue_mem [OF q, of i] i by simp
  then obtain h q' where e: "q = h # q'" by (cases q) auto
  with q i m have i': "i \<in> set q'" "i \<noteq> h" by (auto simp: mcs_queue_Cons)
  have b: "mcs_behind (nx(r := Some i)) lk (role(i := Waiting)) h q' \<and> r \<in> insert h (set q') \<and> nx r = None"
    by (rule mcs_behind_link [where role = role and nx = nx, OF _ i i'(1)])
      (use q e in \<open>auto simp: mcs_queue_Cons dest: mcs_membersD\<close>)
  moreover have "mcs_members (role(i := Waiting)) (h # q')"
    by (rule mcs_members_upd(1)) (use q e i in \<open>auto simp: mcs_queue_Cons\<close>)
  ultimately show "mcs_queue (nx(r := Some i)) lk (role(i := Waiting)) q" "r \<in> set q" "nx r = None"
    using q e i' by (simp_all add: mcs_queue_Cons)
  from q e i' show "lk i = 0" using mcs_behind_not_head [of nx lk role h q' i] by (simp add: mcs_queue_Cons)
qed

text \<open>A waiter that sees its \<open>locked\<close> set is the head.\<close>

lemma mcs_granted:
  assumes q: "mcs_queue nx lk role q" and i: "role i = Waiting" "lk i \<noteq> 0"
  shows "mcs_queue nx lk (role(i := Head)) q" and "\<exists>q'. q = i # q'"
proof -
  from mcs_head_first [OF q, of i] i obtain q' where e: "q = i # q'" by auto
  with q have "i \<notin> set q'" by (auto dest: mcs_queue_distinct)
  then have "mcs_behind nx lk (role(i := Head)) i q' = mcs_behind nx lk role i q'"
    by (intro mcs_behind_cong) auto
  moreover have "mcs_members (role(i := Head)) (i # q')"
    by (rule mcs_members_upd(1)) (use q e i in \<open>auto simp: mcs_queue_Cons\<close>)
  ultimately show "mcs_queue nx lk (role(i := Head)) q" using q e by (simp add: mcs_queue_Cons)
  from e show "\<exists>q'. q = i # q'" by blast
qed

text \<open>The head leaves: as the only one, or by storing to its successor's \<open>locked\<close>.\<close>

lemma mcs_leave_last:
  assumes q: "mcs_queue nx lk role q" and i: "role i = Head" "last q = i"
  shows "q = [i]" and "mcs_queue nx lk (role(i := Out)) []"
proof -
  from mcs_head_first [OF q, of i] i obtain q' where e: "q = i # q'" by auto
  with q i show "q = [i]" by (cases q') (auto dest!: mcs_queue_distinct split: if_splits)
  with q show "mcs_queue nx lk (role(i := Out)) []"
    using mcs_members_upd(2) [of role i "[]"] by (simp add: mcs_queue_def)
qed

lemma mcs_handoff:
  assumes q: "mcs_queue nx lk role q" and i: "role i = Head" "nx i = Some j" and v: "v \<noteq> 0"
  shows "\<exists>q'. q = i # j # q' \<and> role j = Waiting \<and> lk j = 0 \<and> mcs_queue nx (lk(j := v)) (role(i := Out)) (j # q')"
proof -
  from mcs_head_first [OF q, of i] i obtain r where r: "q = i # r" by auto
  with q i obtain q' where e: "r = j # q'" and j: "role j = Waiting" "lk j = 0" by (cases r) (auto simp: mcs_queue_Cons)
  have d: "distinct (i # j # q')" using mcs_queue_distinct [OF q] r e by simp
  then have "mcs_behind nx (lk(j := v)) (role(i := Out)) j q' = mcs_behind nx lk role j q'"
    by (intro mcs_behind_cong) auto
  moreover have "mcs_members (role(i := Out)) (j # q')"
    by (rule mcs_members_upd(2)) (use q r e in \<open>simp add: mcs_queue_Cons\<close>)
  ultimately show ?thesis using q r e j v d by (auto simp: mcs_queue_Cons)
qed

text \<open>The \<open>next\<close> field of the head is its successor once that has linked itself; the last node has none.\<close>

lemma mcs_next_head:
  assumes q: "mcs_queue nx lk role (h # q)"
  shows "nx h = (case q of [] \<Rightarrow> None | j # _ \<Rightarrow> if role j = Waiting then Some j else None)"
  using q by (cases q) (auto simp: mcs_queue_Cons)

end
