(* ===== verification/Queued_Spinlock.thy ===== *)
theory Queued_Spinlock
  imports MCS_Queue
begin

text \<open>
  The queued spinlock of \<open>ext/linux/queued_spinlock.h\<close> (the kernel's qspinlock): a locked byte, a
  pending byte and a 16-bit tail code in one word, an MCS queue of per-thread nodes. The fast
  path, the pending path and the queue of \<open>queued_spin_lock_slowpath\<close> are modelled access by
  access, each at the width it has in the code. A label is the thread that moves.
\<close>

section \<open>The lock word\<close>

text \<open>\<open>_Q_SET_MASK\<close> and the constants, with \<open>_Q_PENDING_BITS\<close> 8 as \<open>CONFIG_NR_CPUS\<close> is below \<open>2 ^ 14\<close>.\<close>

definition Q_SET_MASK :: "nat \<Rightarrow> nat \<Rightarrow> u32" where
  "Q_SET_MASK bits offset = push_bit offset (push_bit bits 1 - 1)"

abbreviation Q_LOCKED_MASK :: u32 where "Q_LOCKED_MASK \<equiv> Q_SET_MASK 8 0"
abbreviation Q_PENDING_MASK :: u32 where "Q_PENDING_MASK \<equiv> Q_SET_MASK 8 8"
abbreviation Q_TAIL_IDX_MASK :: u32 where "Q_TAIL_IDX_MASK \<equiv> Q_SET_MASK 2 16"
abbreviation Q_TAIL_CPU_MASK :: u32 where "Q_TAIL_CPU_MASK \<equiv> Q_SET_MASK 14 18"
abbreviation Q_TAIL_MASK :: u32 where "Q_TAIL_MASK \<equiv> Q_TAIL_IDX_MASK OR Q_TAIL_CPU_MASK"
abbreviation Q_LOCKED_PENDING_MASK :: u32 where "Q_LOCKED_PENDING_MASK \<equiv> Q_LOCKED_MASK OR Q_PENDING_MASK"
abbreviation Q_LOCKED_VAL :: u32 where "Q_LOCKED_VAL \<equiv> 1"
abbreviation Q_PENDING_VAL :: u32 where "Q_PENDING_VAL \<equiv> 0x100"

text \<open>Nodes are named by the pool entry (the thread) and the index in it.\<close>

type_synonym mcs_node = "nat \<times> nat"

definition encode_tail :: "nat \<Rightarrow> nat \<Rightarrow> u32" where
  "encode_tail cpu idx = push_bit 18 (of_nat (cpu + 1)) OR push_bit 16 (of_nat idx)"

definition decode_tail :: "u32 \<Rightarrow> mcs_node" where
  "decode_tail tail = (unat (drop_bit 18 tail) - 1, unat (drop_bit 16 (tail AND Q_TAIL_IDX_MASK)))"

datatype q_pc = QIdle | QPendSpin nat | QFetchOr | QClearPend | QWaitOwner | QTake
  | QFallRead | QFallCAS | QInitLocked | QInitNext | QTryRead | QTryCAS | QXchg
  | QLink mcs_node | QWait | QReadNext | QHead "mcs_node option" | QClaim u32 "mcs_node option"
  | QSetLocked "mcs_node option" | QWaitNext | QHandoff mcs_node | QCS u64

text \<open>The union \<open>struct qspinlock\<close> by its byte and half-word members, the nodes, and the threads.\<close>

record q_state =
  q_locked :: u8
  q_pending :: u8
  q_tail :: u16
  q_next :: "mcs_node \<Rightarrow> mcs_node option"
  q_mlocked :: "mcs_node \<Rightarrow> u32"
  q_count :: "tid \<Rightarrow> nat"
  q_idx :: "tid \<Rightarrow> nat"
  q_pc :: "tid \<Rightarrow> q_pc"

definition q_val :: "q_state \<Rightarrow> u32" where
  "q_val s = mk32 (q_tail s) (mk16 (q_pending s) (q_locked s))"

definition q_set_val :: "u32 \<Rightarrow> q_state \<Rightarrow> q_state" where
  "q_set_val v s = s\<lparr>q_locked := lo8 (lo16 v), q_pending := hi8 (lo16 v), q_tail := hi16 v\<rparr>"

text \<open>\<open>mcs_init_locks\<close>: the pool is zeroed; the lock word is allocated zeroed.\<close>

definition mcs_init_locks :: q_state where
  "mcs_init_locks = \<lparr>q_locked = 0, q_pending = 0, q_tail = 0, q_next = (\<lambda>_. None), q_mlocked = (\<lambda>_. 0),
     q_count = (\<lambda>_. 0), q_idx = (\<lambda>_. 0), q_pc = (\<lambda>_. QIdle)\<rparr>"

abbreviation q_goto :: "tid \<Rightarrow> q_pc \<Rightarrow> q_state \<Rightarrow> q_state" where
  "q_goto i p s \<equiv> s\<lparr>q_pc := (q_pc s)(i := p)\<rparr>"

abbreviation q_node :: "q_state \<Rightarrow> tid \<Rightarrow> mcs_node" where
  "q_node s i \<equiv> (i, q_idx s i)"

section \<open>The slow path\<close>

text \<open>The helpers of the 8-bit pending build.\<close>

definition clear_pending :: "q_state \<Rightarrow> q_state" where
  "clear_pending s = s\<lparr>q_pending := 0\<rparr>"

definition clear_pending_set_locked :: "q_state \<Rightarrow> q_state" where
  "clear_pending_set_locked s = s\<lparr>q_pending := hi8 (ucast Q_LOCKED_VAL), q_locked := lo8 (ucast Q_LOCKED_VAL)\<rparr>"

definition xchg_tail :: "u32 \<Rightarrow> q_state \<Rightarrow> u32 \<times> q_state" where
  "xchg_tail tail s = (push_bit 16 (ucast (q_tail s)), s\<lparr>q_tail := ucast (drop_bit 16 tail)\<rparr>)"

definition queued_fetch_set_pending_acquire :: "q_state \<Rightarrow> u32 \<times> q_state" where
  "queued_fetch_set_pending_acquire s = (q_val s, q_set_val (q_val s OR Q_PENDING_VAL) s)"

definition set_locked :: "q_state \<Rightarrow> q_state" where
  "set_locked s = s\<lparr>q_locked := ucast Q_LOCKED_VAL\<rparr>"

definition try_cmpxchg :: "u32 \<Rightarrow> u32 \<Rightarrow> q_state \<Rightarrow> bool \<times> q_state" where
  "try_cmpxchg exp new s = (if q_val s = exp then (True, q_set_val new s) else (False, s))"

text \<open>The label \<open>queue\<close>: the node index is the nesting count, which is private to the thread.\<close>

definition q_enter_queue :: "tid \<Rightarrow> q_state \<Rightarrow> q_state" where
  "q_enter_queue i s =
     (let idx = q_count s i; s = s\<lparr>q_count := (q_count s)(i := idx + 1), q_idx := (q_idx s)(i := idx)\<rparr>
      in q_goto i (if 4 \<le> idx then QFallRead else QInitLocked) s)"

text \<open>The label \<open>release\<close>.\<close>

definition q_release_node :: "tid \<Rightarrow> q_state \<Rightarrow> q_state" where
  "q_release_node i s = q_goto i (QCS 1) (s\<lparr>q_count := (q_count s)(i := q_count s i - 1)\<rparr>)"

text \<open>\<open>if (val & ~_Q_LOCKED_MASK) goto queue\<close>.\<close>

definition q_contended :: "tid \<Rightarrow> u32 \<Rightarrow> q_state \<Rightarrow> q_state" where
  "q_contended i val s =
     (if val AND NOT Q_LOCKED_MASK \<noteq> 0 then q_enter_queue i s else q_goto i QFetchOr s)"

text \<open>\<open>lock_acquire\<close>: the fast path, and the entry of the slow path with the value that was seen.\<close>

definition q_lock_acquire :: "tid \<Rightarrow> q_state \<Rightarrow> q_state" where
  "q_lock_acquire i s = (case try_cmpxchg 0 Q_LOCKED_VAL s of
     (True, s) \<Rightarrow> q_goto i (QCS 0) s
   | (False, s) \<Rightarrow> if q_val s = Q_PENDING_VAL then q_goto i (QPendSpin 1) s else q_contended i (q_val s) s)"

text \<open>\<open>(VAL != _Q_PENDING_VAL) || !cnt--\<close>.\<close>

definition q_pend_spin :: "tid \<Rightarrow> nat \<Rightarrow> q_state \<Rightarrow> q_state" where
  "q_pend_spin i cnt s =
     (if q_val s \<noteq> Q_PENDING_VAL \<or> cnt = 0 then q_contended i (q_val s) s
      else q_goto i (QPendSpin (cnt - 1)) s)"

definition q_fetch_or :: "tid \<Rightarrow> q_state \<Rightarrow> q_state" where
  "q_fetch_or i s = (case queued_fetch_set_pending_acquire s of (val, s) \<Rightarrow>
     if val AND NOT Q_LOCKED_MASK \<noteq> 0
     then (if val AND Q_PENDING_MASK = 0 then q_goto i QClearPend s else q_enter_queue i s)
     else if val AND Q_LOCKED_MASK \<noteq> 0 then q_goto i QWaitOwner s
     else q_goto i QTake s)"

definition q_wait_owner :: "tid \<Rightarrow> q_state \<Rightarrow> q_state" where
  "q_wait_owner i s = (if q_locked s = 0 then q_goto i QTake s else s)"

text \<open>\<open>queued_spin_trylock\<close>, used by the fallback loop and once before queueing.\<close>

definition q_try_read :: "tid \<Rightarrow> q_pc \<Rightarrow> q_pc \<Rightarrow> q_state \<Rightarrow> q_state" where
  "q_try_read i cas fail s = q_goto i (if q_val s \<noteq> 0 then fail else cas) s"

definition q_try_cas :: "tid \<Rightarrow> q_pc \<Rightarrow> q_state \<Rightarrow> q_state" where
  "q_try_cas i fail s = (case try_cmpxchg 0 Q_LOCKED_VAL s of
     (True, s) \<Rightarrow> q_release_node i s | (False, s) \<Rightarrow> q_goto i fail s)"

definition q_init_locked :: "tid \<Rightarrow> q_state \<Rightarrow> q_state" where
  "q_init_locked i s = q_goto i QInitNext (s\<lparr>q_mlocked := (q_mlocked s)(q_node s i := 0)\<rparr>)"

definition q_init_next :: "tid \<Rightarrow> q_state \<Rightarrow> q_state" where
  "q_init_next i s = q_goto i QTryRead (s\<lparr>q_next := (q_next s)(q_node s i := None)\<rparr>)"

definition q_xchg :: "tid \<Rightarrow> q_state \<Rightarrow> q_state" where
  "q_xchg i s = (case xchg_tail (encode_tail i (q_idx s i)) s of (old, s) \<Rightarrow>
     q_goto i (if old AND Q_TAIL_MASK \<noteq> 0 then QLink (decode_tail old) else QHead None) s)"

definition q_link :: "tid \<Rightarrow> mcs_node \<Rightarrow> q_state \<Rightarrow> q_state" where
  "q_link i prev s = q_goto i QWait (s\<lparr>q_next := (q_next s)(prev := Some (q_node s i))\<rparr>)"

definition q_wait :: "tid \<Rightarrow> q_state \<Rightarrow> q_state" where
  "q_wait i s = (if q_mlocked s (q_node s i) \<noteq> 0 then q_goto i QReadNext s else s)"

definition q_read_next :: "tid \<Rightarrow> q_state \<Rightarrow> q_state" where
  "q_read_next i s = q_goto i (QHead (q_next s (q_node s i))) s"

definition q_head :: "tid \<Rightarrow> mcs_node option \<Rightarrow> q_state \<Rightarrow> q_state" where
  "q_head i next s = (let val = q_val s in
     if val AND Q_LOCKED_PENDING_MASK \<noteq> 0 then s
     else if val AND Q_TAIL_MASK = encode_tail i (q_idx s i) then q_goto i (QClaim val next) s
     else q_goto i (QSetLocked next) s)"

definition q_claim :: "tid \<Rightarrow> u32 \<Rightarrow> mcs_node option \<Rightarrow> q_state \<Rightarrow> q_state" where
  "q_claim i val next s = (case try_cmpxchg val Q_LOCKED_VAL s of
     (True, s) \<Rightarrow> q_release_node i s | (False, s) \<Rightarrow> q_goto i (QSetLocked next) s)"

definition q_set_locked :: "tid \<Rightarrow> mcs_node option \<Rightarrow> q_state \<Rightarrow> q_state" where
  "q_set_locked i next s =
     q_goto i (case next of None \<Rightarrow> QWaitNext | Some n \<Rightarrow> QHandoff n) (set_locked s)"

definition q_wait_next :: "tid \<Rightarrow> q_state \<Rightarrow> q_state" where
  "q_wait_next i s = (case q_next s (q_node s i) of None \<Rightarrow> s | Some n \<Rightarrow> q_goto i (QHandoff n) s)"

definition q_handoff :: "tid \<Rightarrow> mcs_node \<Rightarrow> q_state \<Rightarrow> q_state" where
  "q_handoff i n s = q_release_node i (s\<lparr>q_mlocked := (q_mlocked s)(n := 1)\<rparr>)"

definition q_lock_release :: "tid \<Rightarrow> q_state \<Rightarrow> q_state" where
  "q_lock_release i s = q_goto i QIdle (s\<lparr>q_locked := 0\<rparr>)"

definition q_step :: "nat \<Rightarrow> tid \<Rightarrow> q_state \<Rightarrow> q_state" where
  "q_step N i s = (if i < N then (case q_pc s i of
       QIdle \<Rightarrow> q_lock_acquire i s
     | QPendSpin cnt \<Rightarrow> q_pend_spin i cnt s
     | QFetchOr \<Rightarrow> q_fetch_or i s
     | QClearPend \<Rightarrow> q_enter_queue i (clear_pending s)
     | QWaitOwner \<Rightarrow> q_wait_owner i s
     | QTake \<Rightarrow> q_goto i (QCS 1) (clear_pending_set_locked s)
     | QFallRead \<Rightarrow> q_try_read i QFallCAS QFallRead s
     | QFallCAS \<Rightarrow> q_try_cas i QFallRead s
     | QInitLocked \<Rightarrow> q_init_locked i s
     | QInitNext \<Rightarrow> q_init_next i s
     | QTryRead \<Rightarrow> q_try_read i QTryCAS QXchg s
     | QTryCAS \<Rightarrow> q_try_cas i QXchg s
     | QXchg \<Rightarrow> q_xchg i s
     | QLink prev \<Rightarrow> q_link i prev s
     | QWait \<Rightarrow> q_wait i s
     | QReadNext \<Rightarrow> q_read_next i s
     | QHead next \<Rightarrow> q_head i next s
     | QClaim val next \<Rightarrow> q_claim i val next s
     | QSetLocked next \<Rightarrow> q_set_locked i next s
     | QWaitNext \<Rightarrow> q_wait_next i s
     | QHandoff n \<Rightarrow> q_handoff i n s
     | QCS d \<Rightarrow> q_lock_release i s) else s)"

section \<open>Fields of the word\<close>

lemma bit_Q_SET_MASK: "bit (Q_SET_MASK b k) n \<longleftrightarrow> k \<le> n \<and> n < k + b \<and> n < 32"
proof -
  have "(push_bit b 1 - 1 :: u32) = mask b" by (simp add: mask_eq_exp_minus_1 push_bit_eq_mult)
  then show ?thesis unfolding Q_SET_MASK_def by (auto simp: bit_simps)
qed

lemma zero_parts: "(0 :: u16) = mk16 0 0" "(0 :: u32) = mk32 0 0"
  by (simp_all add: mk16_def mk32_def)

lemma one_parts: "Q_LOCKED_VAL = mk32 0 (mk16 0 1)" "Q_PENDING_VAL = mk32 0 (mk16 1 0)"
  by (simp_all add: mk16_def mk32_def)

text \<open>What the masks select from a word \<open>(tail, pending, locked)\<close>.\<close>

lemma q_masks:
  "mk32 t (mk16 p l) AND NOT Q_LOCKED_MASK = mk32 t (mk16 p 0)"
  "mk32 t (mk16 p l) AND Q_PENDING_MASK = mk32 0 (mk16 p 0)"
  "mk32 t (mk16 p l) AND Q_LOCKED_MASK = mk32 0 (mk16 0 l)"
  "mk32 t (mk16 p l) AND Q_LOCKED_PENDING_MASK = mk32 0 (mk16 p l)"
  "mk32 t (mk16 p l) AND Q_TAIL_MASK = mk32 t 0"
  by (rule bit_word_eqI; auto simp: bit_mk32 bit_mk16 bit_simps bit_Q_SET_MASK dest: bit_imp_le_length)+

lemma q_or_pending: "mk32 t (mk16 p l) OR Q_PENDING_VAL = mk32 t (mk16 (p OR 1) l)"
  unfolding one_parts by (rule bit_word_eqI) (auto simp: bit_mk32 bit_mk16 bit_simps)

lemma mk_eq_0 [simp]: "mk32 h l = 0 \<longleftrightarrow> h = 0 \<and> l = 0" "mk16 p l' = 0 \<longleftrightarrow> p = 0 \<and> l' = 0"
  using mk32_eq_iff [of h l 0 0] mk16_eq_iff [of p l' 0 0] by (simp_all only: zero_parts [symmetric])

lemma push_tail: "push_bit 16 (ucast t) = mk32 t 0"
  by (simp add: mk32_def)

text \<open>The tail code: never 0, and \<open>decode_tail\<close> inverts \<open>encode_tail\<close>.\<close>

definition tail_code :: "nat \<Rightarrow> u16" where
  "tail_code i = hi16 (encode_tail i 0)"

lemma unat_push: "n * 2 ^ k < 2 ^ 32 \<Longrightarrow> unat (push_bit k (of_nat n) :: u32) = n * 2 ^ k"
proof -
  assume b: "n * 2 ^ k < 2 ^ 32"
  have "(push_bit k (of_nat n) :: u32) = of_nat (n * 2 ^ k)" by (simp add: push_bit_eq_mult)
  with b show ?thesis by (simp only: unat_of_nat) simp
qed

lemma encode_tail_value:
  assumes "cpu < 16383" "idx < 4"
  shows "unat (encode_tail cpu idx) = (cpu + 1) * 2 ^ 18 + idx * 2 ^ 16"
proof -
  have "encode_tail cpu idx = push_bit 18 (of_nat (cpu + 1)) + push_bit 16 (of_nat idx)"
    unfolding encode_tail_def
  proof (rule disjunctive_add [symmetric])
    fix n
    show "\<not> bit (push_bit 18 (of_nat (cpu + 1)) :: u32) n \<or> \<not> bit (push_bit 16 (of_nat idx) :: u32) n"
    proof (cases "18 \<le> n")
      case True
      then have "(2 :: nat) ^ 2 \<le> 2 ^ (n - 16)" by (intro power_increasing) auto
      with assms(2) have "idx < 2 ^ (n - 16)" by simp
      then have "\<not> bit idx (n - 16)" by (simp add: bit_iff_odd)
      then show ?thesis by (auto simp: bit_simps)
    qed (auto simp: bit_simps)
  qed
  moreover have "unat (push_bit 18 (of_nat (cpu + 1)) :: u32) = (cpu + 1) * 2 ^ 18"
    "unat (push_bit 16 (of_nat idx) :: u32) = idx * 2 ^ 16"
    using assms by (intro unat_push, simp)+
  ultimately show ?thesis using assms by (simp add: unat_word_ariths)
qed

lemma decode_encode:
  assumes "cpu < 16383" "idx < 4"
  shows "decode_tail (encode_tail cpu idx) = (cpu, idx)"
proof -
  let ?e = "encode_tail cpu idx"
  have v: "unat ?e = (cpu + 1) * 2 ^ 18 + idx * 2 ^ 16" by (rule encode_tail_value [OF assms])
  have "unat (drop_bit 18 ?e) = unat ?e div 2 ^ 18" by (simp add: drop_bit_eq_div unat_div)
  also have "\<dots> = cpu + 1" unfolding v using assms(2) by (simp add: div_add1_eq)
  finally have c: "unat (drop_bit 18 ?e) - 1 = cpu" by simp
  have "drop_bit 16 (?e AND Q_TAIL_IDX_MASK) = take_bit 2 (drop_bit 16 ?e)"
    by (rule bit_word_eqI) (auto simp: bit_simps bit_Q_SET_MASK)
  then have "unat (drop_bit 16 (?e AND Q_TAIL_IDX_MASK)) = unat ?e div 2 ^ 16 mod 4"
    by (simp add: unsigned_take_bit_eq take_bit_eq_mod drop_bit_eq_div unat_div unat_mod)
  also have "\<dots> = (4 * (cpu + 1) + idx) mod 4" unfolding v by simp
  also have "\<dots> = idx" using assms(2) by (simp only: mod_mult_self4 mod_less)
  finally show ?thesis using c by (simp add: decode_tail_def)
qed

lemma encode_low: "encode_tail cpu idx = mk32 (hi16 (encode_tail cpu idx)) 0"
proof -
  have "lo16 (encode_tail cpu idx) = 0"
    unfolding lo16_def encode_tail_def by (rule bit_word_eqI) (auto simp: bit_simps)
  then show ?thesis using mk32_hi16_lo16 [of "encode_tail cpu idx"] by simp
qed

lemma tail_code_nz: "i < 16383 \<Longrightarrow> tail_code i \<noteq> 0"
proof
  assume i: "i < 16383" "tail_code i = 0"
  then have "encode_tail i 0 = 0" by (subst encode_low) (simp add: tail_code_def)
  with encode_tail_value [OF i(1), of 0] show False by simp
qed

lemma tail_code_inj: "i < 16383 \<Longrightarrow> j < 16383 \<Longrightarrow> tail_code i = tail_code j \<Longrightarrow> i = j"
proof -
  assume i: "i < 16383" "j < 16383" and "tail_code i = tail_code j"
  then have "mk32 (hi16 (encode_tail i 0)) 0 = mk32 (hi16 (encode_tail j 0)) 0" by (simp only: tail_code_def)
  then have e: "encode_tail i 0 = encode_tail j 0" unfolding encode_low [symmetric] .
  have "(i, 0 :: nat) = decode_tail (encode_tail i 0)" by (rule decode_encode [symmetric]) (use i in simp_all)
  also have "\<dots> = (j, 0)" unfolding e by (rule decode_encode) (use i in simp_all)
  finally show "i = j" by (rule Pair_inject)
qed

lemma decode_tail_code: "i < 16383 \<Longrightarrow> decode_tail (mk32 (tail_code i) 0) = (i, 0)"
  using decode_encode [of i 0] unfolding tail_code_def encode_low [symmetric] by simp

lemma tail_code_drop: "ucast (drop_bit 16 (encode_tail i 0)) = tail_code i"
  by (simp add: tail_code_def hi16_def)

end
