(* ===== verification/Queued_Correct.thy ===== *)
theory Queued_Correct
  imports Queued_Spinlock
begin

text \<open>
  Correctness of the queued spinlock: the invariant that ties the lock word to the queue and to
  where the threads stand, its preservation by every access, and what follows from it.
\<close>

section \<open>The invariant\<close>

text \<open>Where a thread stands with respect to the queue, the lock and the pending byte.\<close>

definition q_role :: "q_pc \<Rightarrow> mcs_node mcs_role" where
  "q_role p = (case p of QLink prev \<Rightarrow> Linking prev | QWait \<Rightarrow> Waiting | QReadNext \<Rightarrow> Head
     | QHead _ \<Rightarrow> Head | QClaim _ _ \<Rightarrow> Head | QSetLocked _ \<Rightarrow> Head | QWaitNext \<Rightarrow> Head | QHandoff _ \<Rightarrow> Head
     | _ \<Rightarrow> Out)"

definition q_owner :: "q_pc \<Rightarrow> bool" where
  "q_owner p = (case p of QWaitNext \<Rightarrow> True | QHandoff _ \<Rightarrow> True | QCS _ \<Rightarrow> True | _ \<Rightarrow> False)"

definition q_pender :: "q_pc \<Rightarrow> bool" where
  "q_pender p = (case p of QWaitOwner \<Rightarrow> True | QTake \<Rightarrow> True | QClearPend \<Rightarrow> True | _ \<Rightarrow> False)"

definition q_claiming :: "q_pc \<Rightarrow> bool" where
  "q_claiming p = (case p of QClaim _ _ \<Rightarrow> True | QSetLocked _ \<Rightarrow> True | _ \<Rightarrow> False)"

lemma q_role_idle [simp]: "q_role QIdle = Out"
  by (simp add: q_role_def)

lemma q_pender_simps [simp]: "q_pender QWaitOwner" "q_pender QTake" "q_pender QClearPend"
  by (simp_all add: q_pender_def)

lemma q_claiming_Head: "q_claiming p \<Longrightarrow> q_role p = Head"
  by (auto simp: q_claiming_def q_role_def split: q_pc.splits)

text \<open>In the queueing part of the slow path, where the thread's node count is 1.\<close>

definition q_queueing :: "q_pc \<Rightarrow> bool" where
  "q_queueing p = (case p of QIdle \<Rightarrow> False | QPendSpin _ \<Rightarrow> False | QFetchOr \<Rightarrow> False | QClearPend \<Rightarrow> False
     | QWaitOwner \<Rightarrow> False | QTake \<Rightarrow> False | QCS _ \<Rightarrow> False | _ \<Rightarrow> True)"

definition q_nrole :: "q_state \<Rightarrow> mcs_node \<Rightarrow> mcs_node mcs_role" where
  "q_nrole s n = (if snd n = 0 then q_role (q_pc s (fst n)) else Out)"

text \<open>The queue, and the tail code that names its last node.\<close>

definition q_queue :: "q_state \<Rightarrow> mcs_node list \<Rightarrow> bool" where
  "q_queue s q \<longleftrightarrow> mcs_queue (q_next s) (q_mlocked s) (q_nrole s) q \<and>
     q_tail s = (if q = [] then 0 else tail_code (fst (last q)))"

text \<open>A thread's node count and index, its fresh node, and what its local \<open>next\<close> and \<open>val\<close> hold.\<close>

definition q_local :: "q_state \<Rightarrow> tid \<Rightarrow> bool" where
  "q_local s i = (case q_pc s i of
     QFallRead \<Rightarrow> False | QFallCAS \<Rightarrow> False
   | QInitNext \<Rightarrow> q_mlocked s (i, 0) = 0
   | QTryRead \<Rightarrow> q_mlocked s (i, 0) = 0 \<and> q_next s (i, 0) = None
   | QTryCAS \<Rightarrow> q_mlocked s (i, 0) = 0 \<and> q_next s (i, 0) = None
   | QXchg \<Rightarrow> q_mlocked s (i, 0) = 0 \<and> q_next s (i, 0) = None
   | QHead nx \<Rightarrow> nx = None \<or> nx = q_next s (i, 0)
   | QClaim v nx \<Rightarrow> (nx = None \<or> nx = q_next s (i, 0)) \<and> v AND Q_LOCKED_PENDING_MASK = 0 \<and>
       v AND Q_TAIL_MASK = mk32 (tail_code i) 0
   | QSetLocked nx \<Rightarrow> nx = None \<or> nx = q_next s (i, 0)
   | QHandoff n \<Rightarrow> q_next s (i, 0) = Some n
   | _ \<Rightarrow> True)"

definition q_thread_ok :: "q_state \<Rightarrow> tid \<Rightarrow> bool" where
  "q_thread_ok s i \<longleftrightarrow> q_count s i = (if q_queueing (q_pc s i) then 1 else 0) \<and>
     (q_queueing (q_pc s i) \<longrightarrow> q_idx s i = 0) \<and> q_local s i"

text \<open>
  The locked and the pending byte. While the head claims the lock it is free and no pending
  waiter can take it; a pending waiter that is about to take it still finds it free.
\<close>

definition q_lock_ok :: "u8 \<Rightarrow> u8 \<Rightarrow> (tid \<Rightarrow> q_pc) \<Rightarrow> bool" where
  "q_lock_ok lk pd pc \<longleftrightarrow>
     flag_ok lk (\<lambda>i. q_owner (pc i)) \<and> flag_ok pd (\<lambda>i. q_pender (pc i)) \<and>
     (\<forall>i. q_claiming (pc i) \<longrightarrow> lk = 0 \<and> (\<forall>j. pc j \<noteq> QWaitOwner \<and> pc j \<noteq> QTake)) \<and>
     (\<forall>i. pc i = QTake \<longrightarrow> lk = 0)"

definition q_inv :: "nat \<Rightarrow> q_state \<Rightarrow> bool" where
  "q_inv N s \<longleftrightarrow> N \<le> 16383 \<and> (\<exists>q. q_queue s q) \<and> (\<forall>i. q_thread_ok s i) \<and>
     q_lock_ok (q_locked s) (q_pending s) (q_pc s) \<and> (\<forall>i\<ge>N. q_pc s i = QIdle)"

lemma q_inv_intro:
  assumes "q_inv N s" "i < N" "q_pc s' = (q_pc s)(i := p)"
    and "q_queue s' q" "\<And>j. q_thread_ok s' j" "q_lock_ok (q_locked s') (q_pending s') (q_pc s')"
  shows "q_inv N s'"
  using assms unfolding q_inv_def by auto

lemma q_nrole_upd: "q_pc s' = (q_pc s)(i := p) \<Longrightarrow> q_nrole s' = (q_nrole s)((i, 0) := q_role p)"
  by (auto simp: q_nrole_def fun_eq_iff)

text \<open>Steps after which the queue is as before.\<close>

lemma q_queue_same:
  assumes q: "q_queue s q" and pc: "q_pc s' = (q_pc s)(i := p)" and r: "q_role p = q_role (q_pc s i)"
    and t: "q_tail s' = q_tail s"
    and f: "\<And>n. q_nrole s n \<noteq> Out \<Longrightarrow> q_next s' n = q_next s n \<and> q_mlocked s' n = q_mlocked s n"
  shows "q_queue s' q"
proof -
  have "q_nrole s' = q_nrole s" using q_nrole_upd [OF pc] r by (auto simp: fun_eq_iff q_nrole_def)
  with mcs_outside [of "q_next s" "q_mlocked s" "q_nrole s" q "q_next s'" "q_mlocked s'"] q t f
  show ?thesis by (simp add: q_queue_def)
qed

lemma q_thread_same:
  assumes "q_thread_ok s j" "q_pc s' j = q_pc s j" "q_count s' j = q_count s j" "q_idx s' j = q_idx s j"
    "q_next s' (j, 0) = q_next s (j, 0)" "q_mlocked s' (j, 0) = q_mlocked s (j, 0)"
  shows "q_thread_ok s' j"
  using assms by (cases "q_pc s j") (simp_all add: q_thread_ok_def q_local_def)

lemma q_lock_same:
  assumes l: "q_lock_ok lk pd pc" and p: "q_owner p = q_owner (pc i)" "q_pender p = q_pender (pc i)"
    and c: "q_claiming p \<Longrightarrow> q_claiming (pc i) \<or> lk = 0 \<and> pd = 0"
    and t: "p = QTake \<Longrightarrow> lk = 0" "p = QWaitOwner \<or> p = QTake \<Longrightarrow> pc i = QWaitOwner \<or> pc i = QTake"
  shows "q_lock_ok lk pd (pc(i := p))"
proof -
  have "flag_ok lk (\<lambda>j. q_owner ((pc(i := p)) j))" "flag_ok pd (\<lambda>j. q_pender ((pc(i := p)) j))"
    using l p unfolding fun_upd_pred by (simp_all add: q_lock_ok_def fun_upd_idem)
  moreover have "lk = 0 \<and> (\<forall>k. (pc(i := p)) k \<noteq> QWaitOwner \<and> (pc(i := p)) k \<noteq> QTake)"
    if j: "q_claiming ((pc(i := p)) j)" for j
  proof -
    have old: "lk = 0 \<and> (\<forall>k. pc k \<noteq> QWaitOwner \<and> pc k \<noteq> QTake)"
    proof (cases "j = i \<and> \<not> q_claiming (pc i)")
      case True
      with j c have "lk = 0" "pd = 0" by auto
      moreover from \<open>pd = 0\<close> l have "\<not> q_pender (pc k)" for k by (auto simp: q_lock_ok_def dest: flag_ok_zero)
      ultimately show ?thesis by (metis q_pender_simps(1,2))
    next
      case False
      with j have "q_claiming (pc j)" by (auto split: if_splits)
      with l show ?thesis unfolding q_lock_ok_def by blast
    qed
    with t(2) show ?thesis by auto
  qed
  moreover have "lk = 0" if "(pc(i := p)) j = QTake" for j
    using that t(1) l by (auto simp: q_lock_ok_def split: if_splits)
  ultimately show ?thesis unfolding q_lock_ok_def by blast
qed

lemma q_lock_take:
  assumes l: "q_lock_ok 0 pd pc" and p: "q_owner p" "\<not> q_claiming p" "p \<noteq> QTake"
    and c: "\<And>j. j \<noteq> i \<Longrightarrow> \<not> q_claiming (pc j)" "\<And>j. j \<noteq> i \<Longrightarrow> pc j \<noteq> QTake"
    and pd: "flag_ok pd' (\<lambda>j. q_pender ((pc(i := p)) j))"
  shows "q_lock_ok 1 pd' (pc(i := p))"
proof -
  have "flag_ok (1 :: u8) (\<lambda>j. q_owner ((pc(i := p)) j))"
    using l p flag_ok_set [of "\<lambda>j. q_owner (pc j)" i, where 'a = 8] unfolding fun_upd_pred by (simp add: q_lock_ok_def)
  with p c pd show ?thesis by (auto simp: q_lock_ok_def)
qed

lemma q_inv_parts:
  assumes "q_inv N s"
  obtains q where "q_queue s q" "\<And>j. q_thread_ok s j" "q_lock_ok (q_locked s) (q_pending s) (q_pc s)" "N \<le> 16383"
    "\<And>j. N \<le> j \<Longrightarrow> q_pc s j = QIdle"
  using assms unfolding q_inv_def by blast

text \<open>With an empty tail code no one is in the queue.\<close>

lemma q_queue_thread:
  assumes "q_queue s q" "q_role (q_pc s i) \<noteq> Out"
  shows "(i, 0) \<in> set q"
  using assms mcs_queue_mem [of "q_next s" "q_mlocked s" "q_nrole s" q "(i, 0)"]
  by (simp add: q_queue_def q_nrole_def)

lemma q_queue_member:
  assumes "q_queue s q" "n \<in> set q"
  shows "snd n = 0" "q_role (q_pc s (fst n)) \<noteq> Out"
  using assms mcs_queue_mem [of "q_next s" "q_mlocked s" "q_nrole s" q n]
  by (auto simp: q_queue_def q_nrole_def split: if_splits)

lemma q_queue_tail:
  assumes inv: "q_inv N s" and q: "q_queue s q"
  shows "q_tail s = 0 \<longleftrightarrow> q = []"
proof (cases "q = []")
  case False
  then have l: "last q \<in> set q" by simp
  then have "q_role (q_pc s (fst (last q))) \<noteq> Out" by (rule q_queue_member [OF q])
  with inv have "fst (last q) < N" unfolding q_inv_def by (metis linorder_not_less q_role_idle)
  with inv have "fst (last q) < 16383" by (simp add: q_inv_def)
  with False q tail_code_nz show ?thesis by (simp add: q_queue_def)
qed (use q in \<open>simp add: q_queue_def\<close>)

lemma q_empty_tail:
  assumes inv: "q_inv N s" and t: "q_tail s = 0"
  shows "q_role (q_pc s j) = Out" "\<not> q_claiming (q_pc s j)"
proof -
  from inv obtain q where q: "q_queue s q" by (auto simp: q_inv_def)
  with q_queue_tail [OF inv q] t have "q_queue s []" by simp
  then show r: "q_role (q_pc s j) = Out" using q_queue_thread [of s "[]" j] by auto
  then show "\<not> q_claiming (q_pc s j)" using q_claiming_Head by fastforce
qed

text \<open>Two threads are never both at the head.\<close>

lemma q_one_head:
  assumes q: "q_queue s q" and r: "q_role (q_pc s i) = Head" "q_role (q_pc s j) = Head"
  shows "i = j"
proof -
  have "mcs_queue (q_next s) (q_mlocked s) (q_nrole s) q" using q by (simp add: q_queue_def)
  from mcs_head_first [OF this, of "(i, 0)"] mcs_head_first [OF this, of "(j, 0)"] r
  show ?thesis by (auto simp: q_nrole_def)
qed

section \<open>The locked and the pending byte\<close>

lemma q_lock_flags:
  assumes l: "q_lock_ok lk pd pc" and lk: "lk' = 0 \<or> lk' = lk"
    and p: "\<not> q_claiming p" "p \<noteq> QWaitOwner" "p \<noteq> QTake"
    and f: "flag_ok lk' ((\<lambda>j. q_owner (pc j))(i := q_owner p))" "flag_ok pd' ((\<lambda>j. q_pender (pc j))(i := q_pender p))"
  shows "q_lock_ok lk' pd' (pc(i := p))"
  using assms unfolding q_lock_ok_def fun_upd_pred by auto

lemma q_lock_pend:
  assumes l: "q_lock_ok lk 0 pc" and o: "\<not> q_owner (pc i)" "\<not> q_owner p" and p: "q_pender p" "\<not> q_claiming p"
    and t: "p = QTake \<Longrightarrow> lk = 0" "p \<noteq> QClearPend \<Longrightarrow> (\<And>j. \<not> q_claiming (pc j))"
  shows "q_lock_ok lk 1 (pc(i := p))"
proof -
  from l have np: "\<not> q_pender (pc j)" for j by (auto simp: q_lock_ok_def dest: flag_ok_zero)
  then have nt: "pc j \<noteq> QTake" "pc j \<noteq> QWaitOwner" for j by (metis q_pender_simps)+
  have "flag_ok (1 :: u8) ((\<lambda>j. q_pender (pc j))(i := q_pender p))"
    using l p flag_ok_set [of "\<lambda>j. q_pender (pc j)" i, where 'a = 8] by (simp add: q_lock_ok_def)
  moreover have "flag_ok lk ((\<lambda>j. q_owner (pc j))(i := q_owner p))"
    using l o by (simp add: q_lock_ok_def fun_upd_idem)
  moreover have "p = QTake \<or> p = QWaitOwner \<or> p = QClearPend" using p(1) by (auto simp: q_pender_def split: q_pc.splits)
  ultimately show ?thesis using l p(2) t nt unfolding q_lock_ok_def fun_upd_pred by auto
qed

lemma q_lock_bits: "q_lock_ok lk pd pc \<Longrightarrow> pd = 0 \<or> pd = 1"
  by (auto simp: q_lock_ok_def dest: flag_ok_bit)

lemma q_lock_no_pender: "q_lock_ok lk 0 pc \<Longrightarrow> \<not> q_pender (pc j)"
  by (auto simp: q_lock_ok_def dest: flag_ok_zero)

section \<open>Steps that leave the queue alone\<close>

lemmas q_pc_defs = q_role_def q_owner_def q_pender_def q_claiming_def q_queueing_def

lemma q_keep:
  assumes inv: "q_inv N s" "i < N" and pc: "q_pc s' = (q_pc s)(i := p)" "q_role p = q_role (q_pc s i)"
    and t: "q_tail s' = q_tail s"
    and n: "\<And>n. n \<noteq> (i, 0) \<or> q_role p \<noteq> Out \<Longrightarrow> q_next s' n = q_next s n \<and> q_mlocked s' n = q_mlocked s n"
    and o: "\<And>j. j \<noteq> i \<Longrightarrow> q_count s' j = q_count s j \<and> q_idx s' j = q_idx s j"
    and i: "q_thread_ok s' i" and l: "q_lock_ok (q_locked s') (q_pending s') ((q_pc s)(i := p))"
  shows "q_inv N s'"
proof -
  from inv(1) obtain q where q: "q_queue s q" and th: "\<And>j. q_thread_ok s j" by (auto simp: q_inv_def)
  have "q_next s' n = q_next s n \<and> q_mlocked s' n = q_mlocked s n" if "q_nrole s n \<noteq> Out" for n
    using n [of n] that pc(2) by (cases "n = (i, 0)") (auto simp: q_nrole_def)
  with q_queue_same [OF q pc t] have "q_queue s' q" by blast
  moreover have "q_thread_ok s' j" for j
  proof (cases "j = i")
    case False
    with n [of "(j, 0)"] o [of j] pc(1) show ?thesis by (intro q_thread_same [OF th]) auto
  qed (simp add: i)
  ultimately show ?thesis using q_inv_intro [OF inv pc(1)] l pc(1) by simp
qed

lemma q_move:
  assumes "q_inv N s" "i < N" "q_role p = q_role (q_pc s i)"
    and "q_thread_ok (q_goto i p s) i" "q_lock_ok (q_locked s) (q_pending s) ((q_pc s)(i := p))"
  shows "q_inv N (q_goto i p s)"
  by (rule q_keep [OF assms(1,2)]) (use assms in auto)

lemma q_enter:
  assumes "q_inv N s" "i < N" "\<not> q_queueing (q_pc s i)"
    and l: "q_lock_ok (q_locked s) (q_pending s') ((q_pc s)(i := QInitLocked))" and e: "s' = s\<lparr>q_pending := q_pending s'\<rparr>"
  shows "q_inv N (q_enter_queue i s')"
proof -
  have c: "q_count s i = 0" using assms(1,3) by (auto simp: q_inv_def q_thread_ok_def)
  have r: "q_role QInitLocked = q_role (q_pc s i)" using assms(3) by (simp add: q_pc_defs split: q_pc.splits)
  have "q_inv N (q_enter_queue i (s\<lparr>q_pending := pd\<rparr>))" if "q_lock_ok (q_locked s) pd ((q_pc s)(i := QInitLocked))" for pd
    by (rule q_keep [OF assms(1,2) _ r])
      (use c that in \<open>simp_all add: q_enter_queue_def Let_def q_thread_ok_def q_queueing_def q_local_def\<close>)
  from this [OF l] show ?thesis using e by metis
qed

section \<open>The fast path and the pending path\<close>

lemma q_inv_lock: "q_inv N s \<Longrightarrow> q_lock_ok (q_locked s) (q_pending s) (q_pc s)"
  and q_inv_thread: "q_inv N s \<Longrightarrow> q_thread_ok s i"
  by (simp_all add: q_inv_def)

lemma q_set_val_locked: "q_set_val Q_LOCKED_VAL s = s\<lparr>q_locked := 1, q_pending := 0, q_tail := 0\<rparr>"
  unfolding q_set_val_def one_parts by simp

lemma q_val_zero: "q_val s = 0 \<longleftrightarrow> q_tail s = 0 \<and> q_pending s = 0 \<and> q_locked s = 0"
  by (simp add: q_val_def)

lemma q_val_masks:
  "q_val s AND NOT Q_LOCKED_MASK = 0 \<longleftrightarrow> q_tail s = 0 \<and> q_pending s = 0"
  "q_val s AND Q_PENDING_MASK = 0 \<longleftrightarrow> q_pending s = 0"
  "q_val s AND Q_LOCKED_MASK = 0 \<longleftrightarrow> q_locked s = 0"
  "q_val s AND Q_LOCKED_PENDING_MASK = 0 \<longleftrightarrow> q_pending s = 0 \<and> q_locked s = 0"
  "q_val s AND Q_TAIL_MASK = mk32 (q_tail s) 0"
  unfolding q_val_def q_masks by simp_all

text \<open>Taking a lock whose word is 0.\<close>

lemma q_take_free:
  assumes inv: "q_inv N s" "i < N" and v: "q_val s = 0" and p: "q_role (q_pc s i) = Out"
    and c: "\<And>j. j \<noteq> i \<Longrightarrow> c j = q_count s j" "c i = 0"
  shows "q_inv N ((q_set_val Q_LOCKED_VAL s)\<lparr>q_count := c, q_pc := (q_pc s)(i := QCS d)\<rparr>)"
proof (rule q_keep [OF inv])
  from v have z: "q_tail s = 0" "q_pending s = 0" "q_locked s = 0" by (simp_all add: q_val_zero)
  note l = q_inv_lock [OF inv(1), unfolded z]
  have np: "\<not> q_pender (q_pc s j)" for j by (rule q_lock_no_pender [OF l])
  have "q_lock_ok 1 0 ((q_pc s)(i := QCS d))"
  proof (rule q_lock_take [OF l])
    show "\<not> q_claiming (q_pc s j)" "q_pc s j \<noteq> QTake" for j
      using q_empty_tail [OF inv(1) z(1)] np [of j] by auto
    show "flag_ok 0 (\<lambda>j. q_pender (((q_pc s)(i := QCS d)) j))" using np by (auto simp: flag_ok_def q_pc_defs)
  qed (simp_all add: q_pc_defs)
  then show "q_lock_ok (q_locked (q_set_val Q_LOCKED_VAL s\<lparr>q_count := c, q_pc := (q_pc s)(i := QCS d)\<rparr>))
      (q_pending (q_set_val Q_LOCKED_VAL s\<lparr>q_count := c, q_pc := (q_pc s)(i := QCS d)\<rparr>)) ((q_pc s)(i := QCS d))"
    by (simp add: q_set_val_locked)
qed (use p c v in \<open>simp_all add: q_set_val_locked q_val_zero q_thread_ok_def q_pc_defs q_local_def\<close>)

lemma q_contended_inv:
  assumes inv: "q_inv N s" "i < N" and p: "q_pc s i = QIdle \<or> q_pc s i = QPendSpin n"
  shows "q_inv N (q_contended i v s)"
proof -
  have "q_lock_ok (q_locked s) (q_pending s) ((q_pc s)(i := p'))" if "p' = QInitLocked \<or> p' = QFetchOr" for p'
    by (rule q_lock_same [OF q_inv_lock [OF inv(1)]]) (use p that in \<open>auto simp: q_pc_defs\<close>)
  then show ?thesis using q_enter [OF inv, of s] q_move [OF inv, of QFetchOr] q_inv_thread [OF inv(1), of i] p
    by (auto simp: q_contended_def q_thread_ok_def q_local_def q_pc_defs)
qed

lemma q_lock_acquire_inv:
  assumes inv: "q_inv N s" "i < N" and p: "q_pc s i = QIdle"
  shows "q_inv N (q_lock_acquire i s)"
proof (cases "q_val s = 0")
  case True
  have "q_inv N ((q_set_val Q_LOCKED_VAL s)\<lparr>q_count := q_count s, q_pc := (q_pc s)(i := QCS 0)\<rparr>)"
    by (rule q_take_free [OF inv True])
      (use p q_inv_thread [OF inv(1), of i] in \<open>simp_all add: q_thread_ok_def q_queueing_def\<close>)
  with True show ?thesis by (simp add: q_lock_acquire_def try_cmpxchg_def q_set_val_def)
next
  case False
  have "q_lock_ok (q_locked s) (q_pending s) ((q_pc s)(i := QPendSpin 1))"
    by (rule q_lock_same [OF q_inv_lock [OF inv(1)]]) (use p in \<open>auto simp: q_pc_defs\<close>)
  then have "q_inv N (q_goto i (QPendSpin 1) s)"
    using q_inv_thread [OF inv(1), of i] p
    by (intro q_move [OF inv]) (simp_all add: q_thread_ok_def q_local_def q_pc_defs)
  with False p show ?thesis using q_contended_inv [OF inv] by (simp add: q_lock_acquire_def try_cmpxchg_def)
qed

lemma q_pend_spin_inv:
  assumes inv: "q_inv N s" "i < N" and p: "q_pc s i = QPendSpin n"
  shows "q_inv N (q_pend_spin i n s)"
proof -
  have "q_lock_ok (q_locked s) (q_pending s) ((q_pc s)(i := QPendSpin (n - 1)))"
    by (rule q_lock_same [OF q_inv_lock [OF inv(1)]]) (use p in \<open>auto simp: q_pc_defs\<close>)
  then have "q_inv N (q_goto i (QPendSpin (n - 1)) s)"
    using q_inv_thread [OF inv(1), of i] p
    by (intro q_move [OF inv]) (simp_all add: q_thread_ok_def q_local_def q_pc_defs)
  with p show ?thesis using q_contended_inv [OF inv] by (simp add: q_pend_spin_def)
qed

lemma q_fetch_set:
  "queued_fetch_set_pending_acquire s = (q_val s, s\<lparr>q_pending := q_pending s OR 1\<rparr>)"
  unfolding queued_fetch_set_pending_acquire_def q_val_def q_or_pending q_set_val_def by simp

lemma q_pend_inv:
  assumes inv: "q_inv N s" "i < N" and p: "q_pc s i = QFetchOr" and pd: "q_pending s = 0"
    and p': "q_pender p'" "p' = QTake \<Longrightarrow> q_locked s = 0" "p' \<noteq> QClearPend \<Longrightarrow> q_tail s = 0"
  shows "q_inv N (q_goto i p' (s\<lparr>q_pending := 1\<rparr>))"
proof (rule q_keep [OF inv])
  have c: "p' = QTake \<or> p' = QWaitOwner \<or> p' = QClearPend" using p'(1) by (auto simp: q_pender_def split: q_pc.splits)
  show "q_lock_ok (q_locked (q_goto i p' (s\<lparr>q_pending := 1\<rparr>))) (q_pending (q_goto i p' (s\<lparr>q_pending := 1\<rparr>))) ((q_pc s)(i := p'))"
    using q_inv_lock [OF inv(1), unfolded pd] q_empty_tail(2) [OF inv(1)] p p' c
    by simp (intro q_lock_pend; auto simp: q_pc_defs)
  show "q_thread_ok (q_goto i p' (s\<lparr>q_pending := 1\<rparr>)) i"
    using q_inv_thread [OF inv(1), of i] p c by (auto simp: q_thread_ok_def q_local_def q_pc_defs)
  show "q_role p' = q_role (q_pc s i)" using p c by (auto simp: q_pc_defs)
qed simp_all

lemma q_fetch_or_inv:
  assumes inv: "q_inv N s" "i < N" and p: "q_pc s i = QFetchOr"
  shows "q_inv N (q_fetch_or i s)"
proof (cases "q_pending s = 0")
  case True
  with q_pend_inv [OF inv p, of QClearPend] q_pend_inv [OF inv p, of QTake] q_pend_inv [OF inv p, of QWaitOwner]
  show ?thesis by (simp add: q_fetch_or_def q_fetch_set q_val_masks)
next
  case False
  with q_lock_bits [OF q_inv_lock [OF inv(1)]] have pd: "q_pending s = 1" by simp
  have "q_lock_ok (q_locked s) (q_pending s) ((q_pc s)(i := QInitLocked))"
    by (rule q_lock_same [OF q_inv_lock [OF inv(1)]]) (use p in \<open>auto simp: q_pc_defs\<close>)
  then have "q_inv N (q_enter_queue i s)" by (intro q_enter [OF inv]) (simp_all add: p q_queueing_def)
  moreover have "s\<lparr>q_pending := q_pending s OR 1\<rparr> = s" using pd by (cases s) simp
  ultimately show ?thesis using pd by (simp only: q_fetch_or_def q_fetch_set prod.case) (simp add: q_val_masks)
qed

lemma q_clear_pend_inv:
  assumes inv: "q_inv N s" "i < N" and p: "q_pc s i = QClearPend"
  shows "q_inv N (q_enter_queue i (clear_pending s))"
proof (rule q_enter [OF inv])
  note l = q_inv_lock [OF inv(1)]
  have "flag_ok (0 :: u8) ((\<lambda>j. q_pender (q_pc s j))(i := False))"
    by (rule flag_ok_clear [where b = "q_pending s"]) (use l p in \<open>simp_all add: q_lock_ok_def\<close>)
  moreover have "flag_ok (q_locked s) ((\<lambda>j. q_owner (q_pc s j))(i := False))"
    using l p by (simp add: q_lock_ok_def fun_upd_idem q_pc_defs)
  ultimately show "q_lock_ok (q_locked s) (q_pending (clear_pending s)) ((q_pc s)(i := QInitLocked))"
    by (intro q_lock_flags [OF l]) (simp_all add: clear_pending_def q_pc_defs)
qed (use p in \<open>simp_all add: q_queueing_def clear_pending_def\<close>)

lemma q_wait_owner_inv:
  assumes inv: "q_inv N s" "i < N" and p: "q_pc s i = QWaitOwner"
  shows "q_inv N (q_wait_owner i s)"
proof -
  have "q_lock_ok (q_locked s) (q_pending s) ((q_pc s)(i := QTake))" if "q_locked s = 0"
    by (rule q_lock_same [OF q_inv_lock [OF inv(1)]]) (use p that in \<open>auto simp: q_pc_defs\<close>)
  with inv(1) p q_inv_thread [OF inv(1), of i] show ?thesis unfolding q_wait_owner_def
    by (auto intro!: q_move [OF inv] simp: q_thread_ok_def q_local_def q_pc_defs)
qed

lemma q_take_inv:
  assumes inv: "q_inv N s" "i < N" and p: "q_pc s i = QTake"
  shows "q_inv N (q_goto i (QCS 1) (clear_pending_set_locked s))"
proof -
  have e: "clear_pending_set_locked s = s\<lparr>q_pending := 0, q_locked := 1\<rparr>"
    by (simp add: clear_pending_set_locked_def hi8_def lo8_def)
  have l: "q_lock_ok 0 (q_pending s) (q_pc s)" "q_locked s = 0"
    using q_inv_lock [OF inv(1)] p by (auto simp: q_lock_ok_def)
  have one: "j = i" if "q_pender (q_pc s j)" for j
    using l p that by (auto simp: q_lock_ok_def dest: flag_ok_excl [of _ _ i j])
  have "q_lock_ok 1 0 ((q_pc s)(i := QCS 1))"
  proof (rule q_lock_take [OF l(1)])
    show "\<not> q_claiming (q_pc s j)" for j using l(1) p unfolding q_lock_ok_def by blast
    show "q_pc s j \<noteq> QTake" if "j \<noteq> i" for j using one [of j] that by auto
    show "flag_ok 0 (\<lambda>j. q_pender (((q_pc s)(i := QCS 1)) j))" using one by (auto simp: flag_ok_def q_pc_defs)
  qed (simp_all add: q_pc_defs)
  then show ?thesis
    by (intro q_keep [OF inv])
      (use p q_inv_thread [OF inv(1), of i] in \<open>simp_all add: e q_thread_ok_def q_local_def q_pc_defs\<close>)
qed

section \<open>Before the queue\<close>

lemma q_try_cas_inv:
  assumes inv: "q_inv N s" "i < N" and p: "q_pc s i = QTryCAS"
  shows "q_inv N (q_try_cas i QXchg s)"
proof (cases "q_val s = 0")
  case True
  have "q_inv N ((q_set_val Q_LOCKED_VAL s)\<lparr>q_count := (q_count s)(i := 0), q_pc := (q_pc s)(i := QCS 1)\<rparr>)"
    by (rule q_take_free [OF inv True]) (use p in \<open>simp_all add: q_role_def\<close>)
  with True q_inv_thread [OF inv(1), of i] p show ?thesis
    by (simp add: q_try_cas_def try_cmpxchg_def q_release_node_def q_set_val_def q_thread_ok_def q_queueing_def)
next
  case False
  have "q_lock_ok (q_locked s) (q_pending s) ((q_pc s)(i := QXchg))"
    by (rule q_lock_same [OF q_inv_lock [OF inv(1)]]) (use p in \<open>auto simp: q_pc_defs\<close>)
  with False p q_inv_thread [OF inv(1), of i] show ?thesis
    by (auto intro!: q_move [OF inv] simp: q_try_cas_def try_cmpxchg_def q_thread_ok_def q_local_def q_pc_defs)
qed

text \<open>The three accesses that only prepare the node.\<close>

lemma q_prepare_inv:
  assumes inv: "q_inv N s" "i < N"
  shows "q_pc s i = QInitLocked \<Longrightarrow> q_inv N (q_init_locked i s)"
    and "q_pc s i = QInitNext \<Longrightarrow> q_inv N (q_init_next i s)"
    and "q_pc s i = QTryRead \<Longrightarrow> q_inv N (q_try_read i QTryCAS QXchg s)"
proof -
  have l: "q_lock_ok (q_locked s) (q_pending s) ((q_pc s)(i := p))"
    if "q_pc s i = QInitLocked \<or> q_pc s i = QInitNext \<or> q_pc s i = QTryRead"
      "p = QInitNext \<or> p = QTryRead \<or> p = QTryCAS \<or> p = QXchg" for p
    by (rule q_lock_same [OF q_inv_lock [OF inv(1)]]) (use that in \<open>auto simp: q_pc_defs\<close>)
  note th = q_inv_thread [OF inv(1), of i]
  show "q_inv N (q_init_locked i s)" if p: "q_pc s i = QInitLocked"
    by (rule q_keep [OF inv, where p = QInitNext])
      (use p th l [of QInitNext] in \<open>auto simp: q_init_locked_def q_thread_ok_def q_local_def q_pc_defs\<close>)
  show "q_inv N (q_init_next i s)" if p: "q_pc s i = QInitNext"
    by (rule q_keep [OF inv, where p = QTryRead])
      (use p th l [of QTryRead] in \<open>auto simp: q_init_next_def q_thread_ok_def q_local_def q_pc_defs\<close>)
  show "q_inv N (q_try_read i QTryCAS QXchg s)" if p: "q_pc s i = QTryRead"
    unfolding q_try_read_def
    by (rule q_move [OF inv])
      (use p th l [of QTryCAS] l [of QXchg] in \<open>auto simp: q_thread_ok_def q_local_def q_pc_defs\<close>)
qed

section \<open>The queue\<close>

lemma q_inv_idx: "q_inv N s \<Longrightarrow> q_queueing (q_pc s i) \<Longrightarrow> q_idx s i = 0 \<and> q_count s i = 1"
  by (simp add: q_inv_def q_thread_ok_def)

lemma q_encode: "encode_tail i 0 = mk32 (tail_code i) 0"
  unfolding tail_code_def by (rule encode_low)

lemma q_tail_mask: "mk32 t 0 AND Q_TAIL_MASK = mk32 t 0"
  using q_masks(5) [of t 0 0] by (simp only: zero_parts(1) [symmetric])

lemma q_xchg_eq:
  "q_idx s i = 0 \<Longrightarrow> q_xchg i s = (s\<lparr>q_tail := tail_code i,
     q_pc := (q_pc s)(i := if q_tail s \<noteq> 0 then QLink (decode_tail (mk32 (q_tail s) 0)) else QHead None)\<rparr>)"
  unfolding q_xchg_def xchg_tail_def by (simp add: push_tail tail_code_drop q_tail_mask)

text \<open>The tail code decodes to the last node of the queue.\<close>

lemma q_decode_last:
  assumes inv: "q_inv N s" and q: "q_queue s q" "q \<noteq> []"
  shows "decode_tail (mk32 (q_tail s) 0) = last q" "fst (last q) < 16383" "snd (last q) = 0"
proof -
  have m: "snd (last q) = 0" "q_role (q_pc s (fst (last q))) \<noteq> Out"
    using q_queue_member [OF q(1), of "last q"] q(2) by simp_all
  show "snd (last q) = 0" by (rule m(1))
  show b: "fst (last q) < 16383"
    using inv m(2) unfolding q_inv_def by (metis le_trans linorder_not_less q_role_idle)
  have "q_tail s = tail_code (fst (last q))" using q by (simp add: q_queue_def)
  then show "decode_tail (mk32 (q_tail s) 0) = last q"
    using decode_tail_code [OF b] m(1) by (metis prod.collapse)
qed

lemma q_xchg_queue:
  assumes inv: "q_inv N s" and p: "q_pc s i = QXchg" and q: "q_queue s q"
  shows "q_queue (q_xchg i s) (q @ [(i, 0)])"
proof -
  have th: "q_idx s i = 0" "q_mlocked s (i, 0) = 0" "q_next s (i, 0) = None"
    using q_inv_thread [OF inv, of i] p by (simp_all add: q_thread_ok_def q_local_def q_queueing_def)
  have m: "mcs_queue (q_next s) (q_mlocked s) ((q_nrole s)((i, 0) := if q = [] then Head else Linking (last q))) (q @ [(i, 0)])"
    by (rule mcs_enqueue) (use q p th in \<open>simp_all add: q_queue_def q_nrole_def q_role_def\<close>)
  have "q_nrole (q_xchg i s) = (q_nrole s)((i, 0) := if q = [] then Head else Linking (last q))"
    using q_decode_last [OF inv q] q_queue_tail [OF inv q]
    by (auto simp: q_xchg_eq [OF th(1)] fun_eq_iff q_nrole_def q_role_def)
  with m show ?thesis by (simp add: q_queue_def q_xchg_eq [OF th(1)])
qed

lemma q_others:
  assumes "q_inv N s" "q_pc s' = (q_pc s)(i := p)" "j \<noteq> i" "q_count s' j = q_count s j" "q_idx s' j = q_idx s j"
    "q_next s' (j, 0) = q_next s (j, 0)" "q_mlocked s' (j, 0) = q_mlocked s (j, 0)"
  shows "q_thread_ok s' j"
  by (rule q_thread_same [OF q_inv_thread [OF assms(1)]]) (use assms in simp_all)

lemma q_xchg_inv:
  assumes inv: "q_inv N s" "i < N" and p: "q_pc s i = QXchg"
  shows "q_inv N (q_xchg i s)"
proof -
  from inv(1) obtain q where q: "q_queue s q" by (auto simp: q_inv_def)
  have th: "q_idx s i = 0" "q_count s i = 1" using q_inv_idx [OF inv(1), of i] p by (simp_all add: q_queueing_def)
  let ?p = "if q_tail s \<noteq> 0 then QLink (decode_tail (mk32 (q_tail s) 0)) else QHead None"
  have l: "q_lock_ok (q_locked s) (q_pending s) ((q_pc s)(i := ?p))"
    by (rule q_lock_same [OF q_inv_lock [OF inv(1)]]) (use p in \<open>auto simp: q_pc_defs split: if_splits\<close>)
  show ?thesis
  proof (rule q_inv_intro [OF inv, where p = ?p, OF _ q_xchg_queue [OF inv(1) p q]])
    show "q_thread_ok (q_xchg i s) j" for j
      using th q_others [OF inv(1), of "q_xchg i s" i ?p j]
      by (cases "j = i") (auto simp: q_xchg_eq q_thread_ok_def q_local_def q_queueing_def)
  qed (use l th in \<open>simp_all add: q_xchg_eq\<close>)
qed

lemma q_local_link:
  assumes "q_local s a" "q_next s (a, 0) = None" "q_role (q_pc s a) \<noteq> Out"
    and "q_pc s' a = q_pc s a" "q_mlocked s' (a, 0) = q_mlocked s (a, 0)"
  shows "q_local s' a"
  using assms by (cases "q_pc s a") (auto simp: q_local_def q_role_def)

lemma q_link_inv:
  assumes inv: "q_inv N s" "i < N" and p: "q_pc s i = QLink prev"
  shows "q_inv N (q_link i prev s)"
proof -
  from inv(1) obtain q where q: "q_queue s q" by (auto simp: q_inv_def)
  have th: "q_idx s i = 0" "q_count s i = 1" using q_inv_idx [OF inv(1), of i] p by (simp_all add: q_queueing_def)
  have r: "q_nrole s (i, 0) = Linking prev" using p by (simp add: q_nrole_def q_role_def)
  note m = mcs_link [of "q_next s" "q_mlocked s" "q_nrole s" q, OF _ r]
  have mq: "mcs_queue (q_next s) (q_mlocked s) (q_nrole s) q" using q by (simp add: q_queue_def)
  have pr: "snd prev = 0" "q_role (q_pc s (fst prev)) \<noteq> Out"
    using q_queue_member [OF q m(2) [OF mq]] by simp_all
  let ?s = "q_link i prev s"
  have e: "q_pc ?s = (q_pc s)(i := QWait)" by (simp add: q_link_def)
  have "q_queue ?s q"
    using m(1) [OF mq] q q_nrole_upd [OF e] th by (simp add: q_queue_def q_link_def q_role_def)
  moreover have "q_thread_ok ?s j" for j
  proof -
    consider "j = i" | "j \<noteq> i" "(j, 0) = prev" | "j \<noteq> i" "(j, 0) \<noteq> prev" by blast
    then show ?thesis
    proof cases
      case 1
      with th show ?thesis by (simp add: q_thread_ok_def q_link_def q_local_def q_queueing_def)
    next
      case 2
      have "q_local ?s j"
        by (rule q_local_link [where s = s])
          (use 2 pr m(4) [OF mq] q_inv_thread [OF inv(1), of j] in \<open>auto simp: q_thread_ok_def q_link_def\<close>)
      with 2 q_inv_thread [OF inv(1), of j] show ?thesis by (simp add: q_thread_ok_def q_link_def)
    next
      case 3
      then show ?thesis by (intro q_others [OF inv(1) e]) (auto simp: q_link_def)
    qed
  qed
  moreover have "q_lock_ok (q_locked s) (q_pending s) ((q_pc s)(i := QWait))"
    by (rule q_lock_same [OF q_inv_lock [OF inv(1)]]) (use p in \<open>auto simp: q_pc_defs\<close>)
  ultimately show ?thesis by (intro q_inv_intro [OF inv e]) (simp_all add: q_link_def)
qed

lemma q_wait_queue:
  assumes q: "q_queue s q" and p: "q_pc s i = QWait" and m: "q_mlocked s (i, 0) \<noteq> 0"
  shows "q_queue (q_goto i QReadNext s) q"
proof -
  have "mcs_queue (q_next s) (q_mlocked s) ((q_nrole s)((i, 0) := Head)) q"
    by (rule mcs_granted) (use q p m in \<open>simp_all add: q_queue_def q_nrole_def q_role_def\<close>)
  moreover have "q_nrole (q_goto i QReadNext s) = (q_nrole s)((i, 0) := Head)"
    using q_nrole_upd [of "q_goto i QReadNext s" s i QReadNext] by (simp add: q_role_def)
  ultimately show ?thesis using q by (simp add: q_queue_def)
qed

lemma q_wait_inv:
  assumes inv: "q_inv N s" "i < N" and p: "q_pc s i = QWait"
  shows "q_inv N (q_wait i s)"
proof (cases "q_mlocked s (q_node s i) = 0")
  case False
  from inv(1) obtain q where q: "q_queue s q" by (auto simp: q_inv_def)
  have th: "q_idx s i = 0" "q_count s i = 1" using q_inv_idx [OF inv(1), of i] p by (simp_all add: q_queueing_def)
  let ?s = "q_goto i QReadNext s"
  have "q_queue ?s q" using q_wait_queue [OF q p] False th by simp
  moreover have "q_thread_ok ?s j" for j
    using th q_others [OF inv(1), of ?s i QReadNext j] by (cases "j = i") (auto simp: q_thread_ok_def q_local_def q_queueing_def)
  moreover have "q_lock_ok (q_locked s) (q_pending s) ((q_pc s)(i := QReadNext))"
    by (rule q_lock_same [OF q_inv_lock [OF inv(1)]]) (use p in \<open>auto simp: q_pc_defs\<close>)
  ultimately have "q_inv N ?s" by (intro q_inv_intro [OF inv]) simp_all
  with False show ?thesis by (simp add: q_wait_def)
qed (use inv in \<open>simp add: q_wait_def\<close>)

section \<open>The head of the queue\<close>

lemma q_read_next_inv:
  assumes inv: "q_inv N s" "i < N" and p: "q_pc s i = QReadNext"
  shows "q_inv N (q_read_next i s)"
proof -
  have "q_lock_ok (q_locked s) (q_pending s) ((q_pc s)(i := QHead n))" for n
    by (rule q_lock_same [OF q_inv_lock [OF inv(1)]]) (use p in \<open>auto simp: q_pc_defs\<close>)
  with p q_inv_thread [OF inv(1), of i] show ?thesis unfolding q_read_next_def
    by (intro q_move [OF inv]) (simp_all add: q_thread_ok_def q_local_def q_pc_defs)
qed

lemma q_head_inv:
  assumes inv: "q_inv N s" "i < N" and p: "q_pc s i = QHead n"
  shows "q_inv N (q_head i n s)"
proof (cases "q_pending s = 0 \<and> q_locked s = 0")
  case True
  have l: "q_lock_ok (q_locked s) (q_pending s) ((q_pc s)(i := p'))" if "p' = QSetLocked n \<or> p' = QClaim v n" for p' v
    by (rule q_lock_same [OF q_inv_lock [OF inv(1)]]) (use p that True in \<open>auto simp: q_pc_defs\<close>)
  have th: "q_idx s i = 0" using q_inv_idx [OF inv(1), of i] p by (simp add: q_queueing_def)
  have "q_inv N (q_goto i (QSetLocked n) s)"
    using p l [of "QSetLocked n"] q_inv_thread [OF inv(1), of i]
    by (intro q_move [OF inv]) (simp_all add: q_thread_ok_def q_local_def q_pc_defs)
  moreover have "q_inv N (q_goto i (QClaim (q_val s) n) s)" if "q_tail s = tail_code i"
    using p l [of "QClaim (q_val s) n"] q_inv_thread [OF inv(1), of i] True that
    by (intro q_move [OF inv]) (simp_all add: q_thread_ok_def q_local_def q_pc_defs q_val_masks)
  ultimately show ?thesis using True th by (simp add: q_head_def q_val_masks q_encode Let_def)
qed (use inv in \<open>auto simp: q_head_def q_val_masks\<close>)

lemma q_claiming_take:
  assumes inv: "q_inv N s" and i: "q_claiming (q_pc s i)" and p: "q_owner p" "\<not> q_claiming p" "p \<noteq> QTake"
  shows "q_lock_ok 1 (q_pending s) ((q_pc s)(i := p))" "q_locked s = 0"
proof -
  from inv obtain q where q: "q_queue s q" by (auto simp: q_inv_def)
  have l: "q_locked s = 0" "\<And>j. q_pc s j \<noteq> QTake" "q_lock_ok 0 (q_pending s) (q_pc s)"
    using q_inv_lock [OF inv] i by (auto simp: q_lock_ok_def)
  have "\<not> q_claiming (q_pc s j)" if "j \<noteq> i" for j
    using q_one_head [OF q] q_claiming_Head i that by blast
  moreover have "flag_ok (q_pending s) (\<lambda>j. q_pender (((q_pc s)(i := p)) j))"
  proof -
    have "\<not> q_pender p" "\<not> q_pender (q_pc s i)"
      using p(1) i by (simp_all add: q_pc_defs split: q_pc.splits)
    with l(3) show ?thesis unfolding fun_upd_pred by (simp add: q_lock_ok_def fun_upd_idem)
  qed
  ultimately show "q_lock_ok 1 (q_pending s) ((q_pc s)(i := p))" using l p by (intro q_lock_take) auto
  show "q_locked s = 0" by (rule l(1))
qed

lemma q_claim_last:
  assumes inv: "q_inv N s" "i < N" and p: "q_pc s i = QClaim v n" and v: "q_val s = v" and q: "q_queue s q"
  shows "q = [(i, 0)]" "q_pending s = 0"
    and "mcs_queue (q_next s) (q_mlocked s) ((q_nrole s)((i, 0) := Out)) []"
proof -
  have t: "q_tail s = tail_code i" "q_pending s = 0"
    using q_inv_thread [OF inv(1), of i] p v by (auto simp: q_thread_ok_def q_local_def q_val_masks)
  then show "q_pending s = 0" by simp
  have r: "q_role (q_pc s i) = Head" using p by (simp add: q_role_def)
  then have ne: "q \<noteq> []" using q_queue_thread [OF q, of i] by auto
  note d = q_decode_last [OF inv(1) q ne]
  have "i < 16383" using inv by (simp add: q_inv_def)
  with d(2) t(1) q ne have "fst (last q) = i" by (intro tail_code_inj) (simp_all add: q_queue_def)
  with d(3) have "last q = (i, 0)" by (metis prod.collapse)
  with q r mcs_leave_last [of "q_next s" "q_mlocked s" "q_nrole s" q "(i, 0)"]
  show "q = [(i, 0)]" "mcs_queue (q_next s) (q_mlocked s) ((q_nrole s)((i, 0) := Out)) []"
    by (simp_all add: q_queue_def q_nrole_def)
qed

lemma q_claim_eq:
  "q_claim i v n s = (if q_val s = v
     then s\<lparr>q_locked := 1, q_pending := 0, q_tail := 0, q_count := (q_count s)(i := q_count s i - 1), q_pc := (q_pc s)(i := QCS 1)\<rparr>
     else q_goto i (QSetLocked n) s)"
  unfolding q_claim_def try_cmpxchg_def q_set_val_locked by (simp add: q_release_node_def)

lemma q_claim_inv:
  assumes inv: "q_inv N s" "i < N" and p: "q_pc s i = QClaim v n"
  shows "q_inv N (q_claim i v n s)"
proof (cases "q_val s = v")
  case True
  from inv(1) obtain q where q: "q_queue s q" by (auto simp: q_inv_def)
  note c = q_claim_last [OF inv p True q]
  let ?s = "q_claim i v n s"
  have e: "q_pc ?s = (q_pc s)(i := QCS 1)" using True by (simp add: q_claim_eq)
  have "q_queue ?s []"
    using c(3) q_nrole_upd [OF e] True by (simp add: q_queue_def q_claim_eq q_role_def)
  moreover have "q_thread_ok ?s j" for j
    using True q_others [OF inv(1) e, of j] q_inv_idx [OF inv(1), of i] p
    by (cases "j = i") (auto simp: q_claim_eq q_thread_ok_def q_local_def q_queueing_def)
  moreover have "q_lock_ok 1 0 ((q_pc s)(i := QCS 1))"
    using q_claiming_take(1) [OF inv(1), of i "QCS 1"] c(2) p by (simp add: q_pc_defs)
  ultimately show ?thesis using True by (intro q_inv_intro [OF inv e]) (simp_all add: q_claim_eq)
next
  case False
  have "q_lock_ok (q_locked s) (q_pending s) ((q_pc s)(i := QSetLocked n))"
    by (rule q_lock_same [OF q_inv_lock [OF inv(1)]]) (use p in \<open>auto simp: q_pc_defs\<close>)
  with p q_inv_thread [OF inv(1), of i] have "q_inv N (q_goto i (QSetLocked n) s)"
    by (intro q_move [OF inv]) (simp_all add: q_thread_ok_def q_local_def q_pc_defs)
  with False show ?thesis by (simp add: q_claim_eq)
qed

lemma q_set_locked_inv:
  assumes inv: "q_inv N s" "i < N" and p: "q_pc s i = QSetLocked n"
  shows "q_inv N (q_set_locked i n s)"
proof -
  let ?p = "case n of None \<Rightarrow> QWaitNext | Some n \<Rightarrow> QHandoff n"
  have "q_lock_ok 1 (q_pending s) ((q_pc s)(i := ?p))"
    by (rule q_claiming_take(1) [OF inv(1)]) (use p in \<open>auto simp: q_pc_defs split: option.split\<close>)
  then show ?thesis
    by (intro q_keep [OF inv, where p = ?p])
      (use p q_inv_thread [OF inv(1), of i] in
        \<open>auto simp: q_set_locked_def set_locked_def q_thread_ok_def q_local_def q_pc_defs split: option.split\<close>)
qed

lemma q_wait_next_inv:
  assumes inv: "q_inv N s" "i < N" and p: "q_pc s i = QWaitNext"
  shows "q_inv N (q_wait_next i s)"
proof -
  have "q_lock_ok (q_locked s) (q_pending s) ((q_pc s)(i := QHandoff n))" for n
    by (rule q_lock_same [OF q_inv_lock [OF inv(1)]]) (use p in \<open>auto simp: q_pc_defs\<close>)
  with p inv(1) q_inv_thread [OF inv(1), of i] show ?thesis unfolding q_wait_next_def
    by (auto intro!: q_move [OF inv] simp: q_thread_ok_def q_local_def q_pc_defs split: option.split)
qed

lemma q_handoff_queue:
  assumes inv: "q_inv N s" and p: "q_pc s i = QHandoff n" and q: "q_queue s q"
  shows "\<exists>q'. q = (i, 0) # n # q' \<and> q_pc s (fst n) = QWait \<and> snd n = 0 \<and> q_queue (q_handoff i n s) (n # q')"
proof -
  have nx: "q_next s (i, 0) = Some n" using q_inv_thread [OF inv, of i] p by (simp add: q_thread_ok_def q_local_def)
  from mcs_handoff [of "q_next s" "q_mlocked s" "q_nrole s" q "(i, 0)" n 1] q p nx
  obtain q' where q': "q = (i, 0) # n # q'" "q_nrole s n = Waiting"
    "mcs_queue (q_next s) ((q_mlocked s)(n := 1)) ((q_nrole s)((i, 0) := Out)) (n # q')"
    by (auto simp: q_queue_def q_nrole_def q_role_def)
  have e: "q_pc (q_handoff i n s) = (q_pc s)(i := QCS 1)" by (simp add: q_handoff_def q_release_node_def)
  have "q_queue (q_handoff i n s) (n # q')"
    using q' q q_nrole_upd [OF e] by (simp add: q_queue_def q_handoff_def q_release_node_def q_role_def)
  moreover have "q_pc s (fst n) = QWait" "snd n = 0"
    using q'(2) by (simp_all add: q_nrole_def q_role_def split: if_splits q_pc.splits)
  ultimately show ?thesis using q'(1) by blast
qed

lemma q_handoff_inv:
  assumes inv: "q_inv N s" "i < N" and p: "q_pc s i = QHandoff n"
  shows "q_inv N (q_handoff i n s)"
proof -
  from inv(1) obtain q where q: "q_queue s q" by (auto simp: q_inv_def)
  let ?s = "q_handoff i n s"
  from q_handoff_queue [OF inv(1) p q] obtain q' where n: "q_pc s (fst n) = QWait" "q_queue ?s (n # q')" by blast
  have e: "q_pc ?s = (q_pc s)(i := QCS 1)" by (simp add: q_handoff_def q_release_node_def)
  have "q_thread_ok ?s j" for j
  proof -
    consider "j = i" | "j \<noteq> i" "q_pc s j = QWait" | "j \<noteq> i" "(j, 0) \<noteq> n" using n(1) by force
    then show ?thesis
    proof cases
      case 1
      with q_inv_idx [OF inv(1), of i] p show ?thesis
        by (simp add: q_thread_ok_def q_handoff_def q_release_node_def q_local_def q_queueing_def)
    next
      case 2
      with q_inv_thread [OF inv(1), of j] show ?thesis
        by (simp add: q_thread_ok_def q_handoff_def q_release_node_def q_local_def q_queueing_def)
    next
      case 3
      then show ?thesis by (intro q_others [OF inv(1) e]) (auto simp: q_handoff_def q_release_node_def)
    qed
  qed
  moreover have "q_lock_ok (q_locked s) (q_pending s) ((q_pc s)(i := QCS 1))"
    by (rule q_lock_same [OF q_inv_lock [OF inv(1)]]) (use p in \<open>auto simp: q_pc_defs\<close>)
  ultimately show ?thesis using n(2) by (intro q_inv_intro [OF inv e]) (simp_all add: q_handoff_def q_release_node_def)
qed

lemma q_lock_release_inv:
  assumes inv: "q_inv N s" "i < N" and p: "q_pc s i = QCS d"
  shows "q_inv N (q_lock_release i s)"
proof -
  note l = q_inv_lock [OF inv(1)]
  have "flag_ok (0 :: u8) ((\<lambda>j. q_owner (q_pc s j))(i := False))"
    by (rule flag_ok_clear [where b = "q_locked s"]) (use l p in \<open>simp_all add: q_lock_ok_def q_owner_def\<close>)
  moreover have "flag_ok (q_pending s) ((\<lambda>j. q_pender (q_pc s j))(i := False))"
    using l p by (simp add: q_lock_ok_def fun_upd_idem q_pc_defs)
  ultimately have "q_lock_ok 0 (q_pending s) ((q_pc s)(i := QIdle))"
    by (intro q_lock_flags [OF l]) (simp_all add: q_pc_defs)
  with p q_inv_thread [OF inv(1), of i] show ?thesis
    by (intro q_keep [OF inv, where p = QIdle])
      (simp_all add: q_lock_release_def q_thread_ok_def q_local_def q_pc_defs)
qed

section \<open>Every step\<close>

lemma q_step_inv:
  assumes inv: "q_inv N s"
  shows "q_inv N (q_step N i s)"
proof (cases "i < N")
  case True
  note step = q_lock_acquire_inv q_pend_spin_inv q_fetch_or_inv q_clear_pend_inv q_wait_owner_inv q_take_inv
    q_prepare_inv q_try_cas_inv q_xchg_inv q_link_inv q_wait_inv q_read_next_inv q_head_inv q_claim_inv
    q_set_locked_inv q_wait_next_inv q_handoff_inv q_lock_release_inv
  have nofall: "q_pc s i \<noteq> QFallRead" "q_pc s i \<noteq> QFallCAS"
    using q_inv_thread [OF inv, of i] by (auto simp: q_thread_ok_def q_local_def)
  then show ?thesis using True step [OF inv True] by (cases "q_pc s i") (simp_all add: q_step_def)
qed (use inv in \<open>simp add: q_step_def\<close>)

lemma q_init_inv: "N \<le> 16383 \<Longrightarrow> q_inv N mcs_init_locks"
proof -
  assume "N \<le> 16383"
  moreover have "q_queue mcs_init_locks []"
  proof -
    have "q_nrole mcs_init_locks = (\<lambda>_. Out)" by (simp add: q_nrole_def mcs_init_locks_def fun_eq_iff)
    then show ?thesis by (simp add: q_queue_def mcs_init_locks_def)
  qed
  ultimately show ?thesis
    by (auto simp: q_inv_def mcs_init_locks_def q_thread_ok_def q_local_def q_lock_ok_def flag_ok_def q_pc_defs)
qed

interpretation queued: mutex_system
  "\<lambda>s. N \<le> 16383 \<and> s = mcs_init_locks" "q_step N" "q_inv N" "\<lambda>s i. q_owner (q_pc s i)" for N
proof
  show "q_inv N (q_step N i s)" if "q_inv N s" for s i using that by (rule q_step_inv)
  show "i = j" if "q_inv N s" "q_owner (q_pc s i)" "q_owner (q_pc s j)" for s i j
    using that q_inv_lock [of N s] by (auto simp: q_lock_ok_def dest: flag_ok_excl)
qed (auto intro: q_init_inv)

section \<open>First come, first served\<close>

text \<open>
  Threads pass the doorway of the queue with the exchange of the tail and obtain the lock from it
  with \<open>set_locked\<close> or with the compare-and-exchange that empties the queue.
\<close>

definition q_requests :: "nat \<Rightarrow> tid \<Rightarrow> q_state \<Rightarrow> tid list" where
  "q_requests N i s = (if i < N \<and> q_pc s i = QXchg then [i] else [])"

definition q_entries :: "nat \<Rightarrow> tid \<Rightarrow> q_state \<Rightarrow> tid list" where
  "q_entries N i s = (if i < N then (case q_pc s i of
     QClaim v _ \<Rightarrow> if q_val s = v then [i] else [] | QSetLocked _ \<Rightarrow> [i] | _ \<Rightarrow> []) else [])"

definition q_waiting :: "q_state \<Rightarrow> tid list \<Rightarrow> bool" where
  "q_waiting s w \<longleftrightarrow> (\<exists>q. q_queue s q \<and> w = filter (\<lambda>i. \<not> q_owner (q_pc s i)) (map fst q))"

text \<open>The steps that do not touch the queue.\<close>

definition q_quiet :: "q_state \<Rightarrow> tid \<Rightarrow> bool" where
  "q_quiet s i = (case q_pc s i of QXchg \<Rightarrow> False | QLink _ \<Rightarrow> False | QWait \<Rightarrow> False | QHandoff _ \<Rightarrow> False
     | QClaim v _ \<Rightarrow> q_val s \<noteq> v | _ \<Rightarrow> True)"

definition q_frame :: "tid \<Rightarrow> q_state \<Rightarrow> q_state \<Rightarrow> bool" where
  "q_frame i s s' \<longleftrightarrow> (\<forall>j. j \<noteq> i \<longrightarrow> q_pc s' j = q_pc s j) \<and> q_role (q_pc s' i) = q_role (q_pc s i) \<and> q_tail s' = q_tail s \<and>
     (\<forall>n. n \<noteq> (i, 0) \<or> q_role (q_pc s i) \<noteq> Out \<longrightarrow> q_next s' n = q_next s n \<and> q_mlocked s' n = q_mlocked s n)"

lemma q_frame_queue:
  assumes f: "q_frame i s s'" and q: "q_queue s q"
  shows "q_queue s' q"
proof (rule q_queue_same [OF q, where i = i and p = "q_pc s' i"])
  show "q_pc s' = (q_pc s)(i := q_pc s' i)" using f by (auto simp: q_frame_def)
  show "q_next s' n = q_next s n \<and> q_mlocked s' n = q_mlocked s n" if "q_nrole s n \<noteq> Out" for n
  proof -
    have "n \<noteq> (i, 0) \<or> q_role (q_pc s i) \<noteq> Out" using that by (auto simp: q_nrole_def)
    with f show ?thesis unfolding q_frame_def by blast
  qed
qed (use f in \<open>auto simp: q_frame_def\<close>)

lemma q_frame_enter: "q_role (q_pc s i) = Out \<Longrightarrow> q_frame i s (q_enter_queue i s)"
  "q_role (q_pc s i) = Out \<Longrightarrow> q_frame i s (q_enter_queue i (s\<lparr>q_pending := pd\<rparr>))"
  by (simp_all add: q_enter_queue_def Let_def q_frame_def q_role_def)

lemma q_frame_goto:
  "q_role p = q_role (q_pc s i) \<Longrightarrow> q_frame i s (q_goto i p s)"
  "q_role p = q_role (q_pc s i) \<Longrightarrow> q_frame i s (s\<lparr>q_pending := pd, q_pc := (q_pc s)(i := p)\<rparr>)"
  "q_frame i s s"
  by (simp_all add: q_frame_def)

lemma q_quiet_frame:
  assumes inv: "q_inv N s" and i: "i < N" and c: "q_quiet s i"
  shows "q_frame i s (q_step N i s)"
proof (cases "q_pc s i")
  case QIdle
  then show ?thesis using i
    by (auto simp: q_step_def q_lock_acquire_def try_cmpxchg_def q_contended_def q_set_val_locked q_val_zero
        intro: q_frame_goto q_frame_enter) (auto simp: q_frame_def q_role_def q_enter_queue_def)
next
  case (QPendSpin n)
  then have "q_role (q_pc s i) = Out" by (simp add: q_role_def)
  then show ?thesis using i QPendSpin
    by (auto simp: q_step_def q_pend_spin_def q_contended_def q_role_def intro!: q_frame_goto q_frame_enter)
next
  case QFetchOr
  then have "q_role (q_pc s i) = Out" by (simp add: q_role_def)
  then show ?thesis using i QFetchOr
    by (auto simp: q_step_def q_fetch_or_def q_fetch_set q_role_def intro!: q_frame_goto q_frame_enter)
next
  case QTryCAS
  with i show ?thesis
    by (auto simp: q_step_def q_try_cas_def try_cmpxchg_def q_set_val_locked q_val_zero q_release_node_def q_frame_def q_role_def)
next
  case (QClaim v n)
  with i c show ?thesis by (simp add: q_step_def q_claim_eq q_quiet_def q_frame_def q_role_def)
next
  case QInitLocked
  with i q_inv_idx [OF inv, of i] show ?thesis by (simp add: q_step_def q_init_locked_def q_frame_def q_role_def q_queueing_def)
next
  case QInitNext
  with i q_inv_idx [OF inv, of i] show ?thesis by (simp add: q_step_def q_init_next_def q_frame_def q_role_def q_queueing_def)
next
  case (QSetLocked n)
  with i show ?thesis by (simp add: q_step_def q_set_locked_def set_locked_def q_frame_def q_role_def split: option.split)
qed (use i c in \<open>auto simp: q_step_def q_quiet_def q_frame_def q_role_def clear_pending_def q_enter_queue_def Let_def
    q_wait_owner_def clear_pending_set_locked_def q_try_read_def q_try_cas_def try_cmpxchg_def q_set_val_locked q_val_zero
    q_release_node_def q_read_next_def q_head_def q_wait_next_def q_lock_release_def split: option.split\<close>)

lemma q_frame_step:
  assumes inv: "q_inv N s" and i: "i < N" and c: "q_quiet s i \<or> (\<exists>r. q_pc s i = QLink r) \<or> q_pc s i = QWait" and q: "q_queue s q"
  shows "q_queue (q_step N i s) q"
proof -
  consider "q_quiet s i" | r where "q_pc s i = QLink r" | "q_pc s i = QWait" using c by blast
  then show ?thesis
  proof cases
    case 1
    then show ?thesis using q_frame_queue [OF q_quiet_frame [OF inv i] q] by simp
  next
    case 2
    have "q_pc (q_link i r s) = (q_pc s)(i := QWait)" by (simp add: q_link_def)
    from q_nrole_upd [OF this] q i 2 q_inv_idx [OF inv, of i] mcs_link(1) [of "q_next s" "q_mlocked s" "q_nrole s" q "(i, 0)" r]
    show ?thesis by (simp add: q_step_def q_queue_def q_link_def q_role_def q_queueing_def q_nrole_def)
  next
    case 3
    then show ?thesis using q_wait_queue [OF q 3] i q q_inv_idx [OF inv, of i] by (simp add: q_step_def q_wait_def q_queueing_def)
  qed
qed

lemma q_step_other: "j \<noteq> i \<Longrightarrow> q_pc (q_step N i s) j = q_pc s j"
  by (cases "q_pc s i") (simp_all add: q_step_def q_lock_acquire_def try_cmpxchg_def q_set_val_def q_contended_def q_enter_queue_def Let_def
      q_pend_spin_def q_fetch_or_def queued_fetch_set_pending_acquire_def clear_pending_def q_wait_owner_def
      clear_pending_set_locked_def q_try_read_def q_try_cas_def q_release_node_def q_init_locked_def q_init_next_def
      q_xchg_def xchg_tail_def q_link_def q_wait_def q_read_next_def q_head_def q_claim_def q_set_locked_def set_locked_def
      q_wait_next_def q_handoff_def q_lock_release_def split: option.split)

lemma q_distinct_fst: "q_queue s q \<Longrightarrow> distinct (map fst q)"
  using mcs_queue_distinct [of "q_next s" "q_mlocked s" "q_nrole s" q] q_queue_member [of s q]
  by (auto simp: q_queue_def distinct_map inj_on_def prod_eq_iff)

lemma q_waiting_filter:
  assumes "\<And>j. j \<in> set (map fst q) \<Longrightarrow> q_owner (q_pc s' j) = q_owner (q_pc s j)"
  shows "filter (\<lambda>j. \<not> q_owner (q_pc s' j)) (map fst q) = filter (\<lambda>j. \<not> q_owner (q_pc s j)) (map fst q)"
  by (rule filter_cong) (use assms in auto)

lemma q_waiting_quiet:
  assumes inv: "q_inv N s" and i: "i < N" and q: "q_queue s q"
    and c: "q_quiet s i \<or> (\<exists>r. q_pc s i = QLink r) \<or> q_pc s i = QWait"
    and o: "q_role (q_pc s i) \<noteq> Out \<Longrightarrow> q_owner (q_pc (q_step N i s) i) = q_owner (q_pc s i)"
  shows "q_waiting (q_step N i s) (filter (\<lambda>j. \<not> q_owner (q_pc s j)) (map fst q))"
proof -
  have "q_owner (q_pc (q_step N i s) j) = q_owner (q_pc s j)" if "j \<in> set (map fst q)" for j
    using that q_step_other [of j i N s] o q_queue_member [OF q] by (cases "j = i") fastforce+
  from q_waiting_filter [of q "q_step N i s" s, OF this] q_frame_step [OF inv i c q]
  show ?thesis unfolding q_waiting_def by (metis (lifting))
qed

lemma q_waiting_step:
  assumes inv: "q_inv N s" and w: "q_waiting s w"
  shows "\<exists>w'. q_waiting (q_step N i s) w' \<and> w @ q_requests N i s = q_entries N i s @ w'"
proof (cases "i < N")
  case False
  with w show ?thesis by (simp add: q_step_def q_requests_def q_entries_def)
next
  case i: True
  from w obtain q where q: "q_queue s q" and w: "w = filter (\<lambda>i. \<not> q_owner (q_pc s i)) (map fst q)" by (auto simp: q_waiting_def)
  have own: "filter (\<lambda>j. \<not> q_owner (q_pc (q_step N i s) j)) (map fst r) = filter (\<lambda>j. \<not> q_owner (q_pc s j)) (map fst r)"
    if "i \<notin> set (map fst r)" for r :: "mcs_node list"
    by (rule q_waiting_filter) (metis q_step_other that)
  note d = q_distinct_fst [OF q]
  consider "q_pc s i = QXchg" | n where "q_pc s i = QHandoff n" | v n where "q_pc s i = QClaim v n" "q_val s = v"
    | n where "q_pc s i = QSetLocked n"
    | "(q_quiet s i \<or> (\<exists>r. q_pc s i = QLink r) \<or> q_pc s i = QWait) \<and> (\<forall>n. q_pc s i \<noteq> QSetLocked n)"
    by (cases "q_pc s i") (auto simp: q_quiet_def)
  then show ?thesis
  proof cases
    case 1
    then have "q_role (q_pc s i) = Out" by (simp add: q_role_def)
    then have fresh: "i \<notin> set (map fst q)" using q_queue_member(2) [OF q] by auto
    have "q_queue (q_step N i s) (q @ [(i, 0)])" using q_xchg_queue [OF inv 1 q] 1 i by (simp add: q_step_def)
    moreover have "\<not> q_owner (q_pc (q_step N i s) i)"
      using 1 i by (simp add: q_step_def q_xchg_def xchg_tail_def q_owner_def)
    ultimately show ?thesis using own [OF fresh] 1 i w
      by (auto simp: q_requests_def q_entries_def q_waiting_def intro!: exI [of _ "q @ [(i, 0)]"])
  next
    case 2
    from q_handoff_queue [OF inv 2 q] obtain q' where q': "q = (i, 0) # n # q'" "q_queue (q_handoff i n s) (n # q')" by blast
    have "w = filter (\<lambda>j. \<not> q_owner (q_pc s j)) (map fst (n # q'))" using w q'(1) 2 by (simp add: q_owner_def)
    also have "\<dots> = filter (\<lambda>j. \<not> q_owner (q_pc (q_step N i s) j)) (map fst (n # q'))"
      by (rule own [symmetric]) (use d q'(1) in simp)
    finally show ?thesis using q'(2) 2 i
      by (auto simp: q_step_def q_requests_def q_entries_def q_waiting_def intro!: exI [of _ "n # q'"])
  next
    case 3
    note c = q_claim_last [OF inv i 3 q]
    have e: "q_pc (q_claim i v n s) = (q_pc s)(i := QCS 1)" using 3 by (simp add: q_claim_eq)
    have "q_queue (q_step N i s) []"
      using c(3) q_nrole_upd [OF e] 3 i by (simp add: q_step_def q_queue_def q_claim_eq q_role_def)
    with c(1) 3 i w show ?thesis by (auto simp: q_requests_def q_entries_def q_waiting_def q_owner_def)
  next
    case 4
    have "mcs_queue (q_next s) (q_mlocked s) (q_nrole s) q" using q by (simp add: q_queue_def)
    from mcs_head_first [OF this, of "(i, 0)"] 4 obtain q' where q': "q = (i, 0) # q'" by (auto simp: q_nrole_def q_role_def)
    have "q_queue (q_step N i s) q" using q_frame_step [OF inv i _ q] 4 by (simp add: q_quiet_def)
    moreover have "q_owner (q_pc (q_step N i s) i)"
      using 4 i by (simp add: q_step_def q_set_locked_def set_locked_def q_owner_def split: option.split)
    moreover have "filter (\<lambda>j. \<not> q_owner (q_pc (q_step N i s) j)) (map fst q') = filter (\<lambda>j. \<not> q_owner (q_pc s j)) (map fst q')"
      by (rule own) (use d q' in simp)
    ultimately show ?thesis using 4 i w q'
      by (auto simp: q_requests_def q_entries_def q_waiting_def q_owner_def [of "QSetLocked n"] intro!: exI [of _ q])
  next
    case 5
    have "q_owner (q_pc (q_step N i s) i) = q_owner (q_pc s i)" if "q_role (q_pc s i) \<noteq> Out"
      using 5 that i by (cases "q_pc s i") (auto simp: q_step_def q_role_def q_owner_def q_quiet_def q_link_def q_wait_def
          q_read_next_def q_head_def Let_def q_claim_eq q_wait_next_def split: option.split)
    then have "q_waiting (q_step N i s) w" unfolding w using 5 by (intro q_waiting_quiet [OF inv i q]) auto
    moreover have "q_requests N i s = []" "q_entries N i s = []"
      using 5 by (auto simp: q_requests_def q_entries_def q_quiet_def split: q_pc.splits)
    ultimately show ?thesis by auto
  qed
qed

interpretation queued: fifo_system
  "\<lambda>s. N \<le> 16383 \<and> s = mcs_init_locks" "q_step N" "q_inv N" q_waiting "q_requests N" "q_entries N" for N
proof
  show "q_waiting s []" if "N \<le> 16383 \<and> s = mcs_init_locks" for s
  proof -
    have "q_nrole mcs_init_locks = (\<lambda>_. Out)" by (simp add: q_nrole_def mcs_init_locks_def fun_eq_iff)
    then have "q_queue mcs_init_locks []" by (simp add: q_queue_def mcs_init_locks_def)
    with that show ?thesis by (auto simp: q_waiting_def)
  qed
qed (rule q_waiting_step)

end
