(* ===== verification/Queued_Progress.thy ===== *)
theory Queued_Progress
  imports Queued_Correct
begin

text \<open>
  The queued spinlock never deadlocks. The point that needs care is the head that fails to empty
  the queue although no one is linked behind it: it then waits for its \<open>next\<close>, and someone who has
  set the pending bit in between is on the way to the queue, as the comment above \<open>set_locked\<close> says.
\<close>

lemma decode_tail_high: "decode_tail (mk32 t l) = decode_tail (mk32 t 0)"
proof -
  have "drop_bit 18 (mk32 t l) = drop_bit 18 (mk32 t 0)"
    by (rule bit_word_eqI) (auto simp: bit_simps bit_mk32)
  moreover have "mk32 t l AND Q_TAIL_IDX_MASK = mk32 t 0 AND Q_TAIL_IDX_MASK"
    by (rule bit_word_eqI) (auto simp: bit_simps bit_mk32 bit_Q_SET_MASK)
  ultimately show ?thesis by (simp add: decode_tail_def)
qed

section \<open>Someone is always on the way\<close>

definition q_joining :: "q_pc \<Rightarrow> bool" where
  "q_joining p \<longleftrightarrow> p \<in> {QClearPend, QInitLocked, QInitNext, QTryRead, QTryCAS, QXchg}"

definition q_settled :: "q_pc \<Rightarrow> bool" where
  "q_settled p = (case p of QSetLocked _ \<Rightarrow> True | QWaitNext \<Rightarrow> True | _ \<Rightarrow> False)"

definition q_live :: "q_state \<Rightarrow> bool" where
  "q_live s \<longleftrightarrow> (\<forall>i. q_settled (q_pc s i) \<and> q_tail s = tail_code i \<longrightarrow> (\<exists>j. q_joining (q_pc s j)))"

lemmas q_step_defs = q_step_def q_lock_acquire_def try_cmpxchg_def q_set_val_locked q_contended_def q_enter_queue_def Let_def
  q_pend_spin_def q_fetch_or_def q_fetch_set clear_pending_def q_wait_owner_def
  clear_pending_set_locked_def q_try_read_def q_try_cas_def q_release_node_def q_init_locked_def q_init_next_def
  q_link_def q_wait_def q_read_next_def q_head_def q_claim_eq q_set_locked_def set_locked_def
  q_wait_next_def q_handoff_def q_lock_release_def

lemma q_step_tail:
  assumes "q_inv N s" "i < N"
  shows "q_tail (q_step N i s) = (if q_pc s i = QXchg then tail_code i
    else if (\<exists>v n. q_pc s i = QClaim v n \<and> q_val s = v) then 0 else q_tail s)"
  using assms q_inv_idx [OF assms(1), of i]
  by (cases "q_pc s i") (simp_all add: q_step_defs q_xchg_eq q_val_zero q_queueing_def split: option.split)

text \<open>A thread becomes settled only with someone behind it, or with someone on the way.\<close>

lemma q_settles:
  assumes inv: "q_inv N s" and i: "i < N" and p: "\<not> q_settled (q_pc s i)" "q_settled (q_pc (q_step N i s) i)"
    and t: "q_tail s = tail_code i"
  shows "\<exists>j. j \<noteq> i \<and> q_pc s j = QClearPend"
proof -
  consider n where "q_pc s i = QHead n" | v n where "q_pc s i = QClaim v n"
    using p i q_inv_idx [OF inv, of i] by (cases "q_pc s i") (auto simp: q_step_defs q_xchg_eq q_settled_def q_queueing_def split: if_splits)
  then show ?thesis
  proof cases
    case 1
    with p i t q_inv_idx [OF inv, of i] show ?thesis
      by (auto simp: q_step_defs q_settled_def q_val_masks q_encode q_queueing_def split: if_splits)
  next
    case 2
    note l = q_inv_lock [OF inv]
    have c: "q_claiming (q_pc s i)" using 2 by (simp add: q_claiming_def)
    have z: "q_locked s = 0" "\<And>j. q_pc s j \<noteq> QWaitOwner \<and> q_pc s j \<noteq> QTake"
      using l c by (auto simp: q_lock_ok_def)
    have v: "v AND Q_LOCKED_PENDING_MASK = 0" "v AND Q_TAIL_MASK = mk32 (tail_code i) 0" "q_val s \<noteq> v"
      using q_inv_thread [OF inv, of i] 2 p i by (auto simp: q_thread_ok_def q_local_def q_step_defs q_settled_def)
    obtain h a b where m: "v = mk32 h (mk16 a b)" by (metis mk32_hi16_lo16 mk16_hi8_lo8)
    then have "v = mk32 (tail_code i) 0" using v(1,2) unfolding q_masks m by simp
    then have "q_pending s \<noteq> 0" using v(3) t z(1) by (auto simp: q_val_def)
    then obtain j where "q_pender (q_pc s j)" using l flag_ok_zero unfolding q_lock_ok_def by blast
    with z(2) [of j] have "q_pc s j = QClearPend" by (simp add: q_pender_def split: q_pc.splits)
    with 2 show ?thesis by (intro exI [of _ j]) auto
  qed
qed

lemma q_joining_step:
  assumes inv: "q_inv N s" and i: "i < N" and j: "q_joining (q_pc s i)" and t: "q_tail s \<noteq> 0" "q_pc s i \<noteq> QXchg"
  shows "q_joining (q_pc (q_step N i s) i)"
  using j t i q_inv_thread [OF inv, of i]
  by (auto simp: q_joining_def q_step_defs q_val_zero q_thread_ok_def q_queueing_def)

lemma q_live_step:
  assumes inv: "q_inv N s" and v: "q_live s"
  shows "q_live (q_step N k s)"
proof (cases "k < N")
  case k: True
  let ?s = "q_step N k s"
  have "\<exists>j. q_joining (q_pc ?s j)" if i: "q_settled (q_pc ?s i)" and t: "q_tail ?s = tail_code i" for i
  proof -
    have "q_inv N ?s" using inv by (rule q_step_inv)
    moreover have "q_pc ?s i \<noteq> QIdle" using i by (auto simp: q_settled_def)
    ultimately have "i < N" unfolding q_inv_def by (meson linorder_not_less)
    with inv have nz: "tail_code i \<noteq> 0" and small: "i < 16383" by (auto simp: q_inv_def intro!: tail_code_nz)
    have x: "q_pc s k \<noteq> QXchg"
    proof
      assume x: "q_pc s k = QXchg"
      then have "tail_code k = tail_code i" using q_step_tail [OF inv k] t by simp
      then have "k = i" using small inv k by (intro tail_code_inj) (auto simp: q_inv_def)
      with x i k q_inv_idx [OF inv, of k] show False by (auto simp: q_step_def q_xchg_eq q_settled_def q_queueing_def split: if_splits)
    qed
    then have ts: "q_tail s = tail_code i" using q_step_tail [OF inv k] t nz by (simp split: if_splits)
    show ?thesis
    proof (cases "q_settled (q_pc s i)")
      case True
      with v ts obtain j where j: "q_joining (q_pc s j)" by (auto simp: q_live_def)
      with q_joining_step [OF inv k] x ts nz q_step_other [of j k N s] have "q_joining (q_pc ?s j)" by (cases "j = k") auto
      then show ?thesis ..
    next
      case False
      with i q_step_other [of i k N s] have e: "i = k" by metis
      from q_settles [OF inv k] False i ts e obtain j where "j \<noteq> k" "q_pc s j = QClearPend" by auto
      with q_step_other [of j k N s] show ?thesis by (auto simp: q_joining_def intro!: exI [of _ j])
    qed
  qed
  then show ?thesis unfolding q_live_def by blast
qed (use v in \<open>simp add: q_step_def\<close>)

section \<open>Someone can always move\<close>

text \<open>The accesses a thread still makes before it is idle again, counted from the end.\<close>

fun q_rank :: "q_pc \<Rightarrow> nat" where
  "q_rank QIdle = 0" | "q_rank (QCS _) = 1" | "q_rank (QHandoff _) = 2" | "q_rank QWaitNext = 3"
| "q_rank (QSetLocked _) = 4" | "q_rank (QClaim _ _) = 5" | "q_rank (QHead _) = 6" | "q_rank QReadNext = 7"
| "q_rank QWait = 8" | "q_rank (QLink _) = 9" | "q_rank QXchg = 10" | "q_rank QTryCAS = 11" | "q_rank QTryRead = 12"
| "q_rank QInitNext = 13" | "q_rank QInitLocked = 14" | "q_rank QClearPend = 15" | "q_rank QTake = 2"
| "q_rank QWaitOwner = 3" | "q_rank QFetchOr = 16" | "q_rank (QPendSpin n) = 17 + n"
| "q_rank QFallRead = 0" | "q_rank QFallCAS = 0"

definition q_blocked :: "q_state \<Rightarrow> tid \<Rightarrow> bool" where
  "q_blocked s i = (case q_pc s i of QWaitOwner \<Rightarrow> q_locked s \<noteq> 0 | QWait \<Rightarrow> q_mlocked s (i, 0) = 0
     | QHead _ \<Rightarrow> q_pending s \<noteq> 0 \<or> q_locked s \<noteq> 0 | QWaitNext \<Rightarrow> q_next s (i, 0) = None | _ \<Rightarrow> False)"

lemma q_rank_step:
  assumes inv: "q_inv N s" and i: "i < N" and p: "q_pc s i \<noteq> QIdle" "\<not> q_blocked s i"
  shows "q_rank (q_pc (q_step N i s) i) < q_rank (q_pc s i)"
proof -
  have th: "q_thread_ok s i" by (rule q_inv_thread [OF inv])
  show ?thesis
    using i p th q_inv_idx [OF inv, of i]
    by (cases "q_pc s i") (auto simp: q_step_defs q_xchg_eq q_blocked_def q_thread_ok_def q_local_def q_queueing_def
        q_val_masks split: option.splits)
qed

text \<open>If everyone who is not idle were blocked, the lock would be free and the head of the queue could move.\<close>

lemma q_owner_moves:
  assumes inv: "q_inv N s" and v: "q_live s" and b: "\<And>j. q_pc s j \<noteq> QIdle \<Longrightarrow> q_blocked s j"
  shows "\<not> q_owner (q_pc s i)"
proof
  assume "q_owner (q_pc s i)"
  with b [of i] have i: "q_pc s i = QWaitNext" "q_next s (i, 0) = None"
    by (auto simp: q_owner_def q_blocked_def split: q_pc.splits)
  from inv obtain q where q: "q_queue s q" by (auto simp: q_inv_def)
  then have m: "mcs_queue (q_next s) (q_mlocked s) (q_nrole s) q" by (simp add: q_queue_def)
  from mcs_head_first [OF m, of "(i, 0)"] i obtain q' where q': "q = (i, 0) # q'" by (auto simp: q_nrole_def q_role_def)
  show False
  proof (cases q')
    case Nil
    with q q' have "q_tail s = tail_code i" by (simp add: q_queue_def)
    moreover have "q_settled (q_pc s i)" using i by (simp add: q_settled_def)
    ultimately obtain j where "q_joining (q_pc s j)" using v unfolding q_live_def by blast
    with b [of j] show False by (auto simp: q_joining_def q_blocked_def)
  next
    case (Cons n r)
    with m q' i have "mcs_behind (q_next s) (q_mlocked s) (q_nrole s) (i, 0) (n # r)" by (simp add: mcs_queue_Cons)
    with i have "q_nrole s n = Linking (i, 0)" by simp
    then have "q_pc s (fst n) = QLink (i, 0)" by (auto simp: q_nrole_def q_role_def split: if_splits q_pc.splits)
    with b [of "fst n"] show False by (simp add: q_blocked_def)
  qed
qed

lemma q_someone_moves:
  assumes inv: "q_inv N s" and v: "q_live s" and i: "q_pc s i \<noteq> QIdle"
  shows "\<exists>j. q_pc s j \<noteq> QIdle \<and> \<not> q_blocked s j"
proof (rule ccontr)
  assume "\<not> ?thesis"
  then have b: "q_blocked s j" if "q_pc s j \<noteq> QIdle" for j using that by blast
  note l = q_inv_lock [OF inv]
  have lk: "q_locked s = 0" using l q_owner_moves [OF inv v b] flag_ok_zero unfolding q_lock_ok_def by blast
  have "\<not> q_pender (q_pc s j)" for j
    using b [of j] lk by (auto simp: q_pender_def q_blocked_def split: q_pc.splits)
  then have pd: "q_pending s = 0" using l flag_ok_zero unfolding q_lock_ok_def by blast
  have w: "q_pc s j = QIdle \<or> q_pc s j = QWait \<and> q_mlocked s (j, 0) = 0 \<or> q_pc s j = QWaitNext" for j
    using b [of j] lk pd by (auto simp: q_blocked_def split: q_pc.splits)
  from inv obtain q where q: "q_queue s q" by (auto simp: q_inv_def)
  have "q_role (q_pc s i) \<noteq> Out" using w [of i] i by (auto simp: q_role_def)
  then obtain h q' where e: "q = h # q'" using q_queue_thread [OF q, of i] by (cases q) auto
  then have h: "snd h = 0" using q_queue_member [OF q, of h] by simp
  from q e have "mcs_queue (q_next s) (q_mlocked s) (q_nrole s) (h # q')" by (simp add: q_queue_def)
  from mcs_first [OF this] h w [of "fst h"] have "q_pc s (fst h) = QWaitNext"
    by (cases h) (auto simp: q_nrole_def q_role_def)
  then show False using q_owner_moves [OF inv v b, of "fst h"] by (simp add: q_owner_def)
qed

interpretation queued_progress: progress_system
  "\<lambda>s. N \<le> 16383 \<and> s = mcs_init_locks" "q_step N" "\<lambda>s. q_inv N s \<and> q_live s"
  "\<lambda>s. \<forall>i. q_pc s i = QIdle" "\<lambda>s. \<Sum>j<N. q_rank (q_pc s j)" for N
proof
  fix s assume inv: "q_inv N s \<and> q_live s" and "\<not> (\<forall>i. q_pc s i = QIdle)"
  then obtain j where j: "q_pc s j \<noteq> QIdle" "\<not> q_blocked s j" using q_someone_moves by blast
  with inv have n: "j < N" unfolding q_inv_def by (meson linorder_not_less)
  have "q_pc (q_step N j s) = (q_pc s)(j := q_pc (q_step N j s) j)" using q_step_other [of _ j N s] by auto
  moreover have "q_rank (q_pc (q_step N j s) j) < q_rank (q_pc s j)" using q_rank_step n j inv by blast
  ultimately show "\<exists>l. (\<Sum>k<N. q_rank (q_pc (q_step N l s) k)) < (\<Sum>k<N. q_rank (q_pc s k))"
    using sum_fun_upd_less [OF n, of q_rank "q_pc (q_step N j s) j" "q_pc s"] by metis
next
  show "q_inv N s \<and> q_live s" if "N \<le> 16383 \<and> s = mcs_init_locks" for s
    using that q_init_inv by (auto simp: q_live_def mcs_init_locks_def q_settled_def)
qed (blast intro: q_step_inv q_live_step)

lemma q_idle_free:
  assumes inv: "q_inv N s" and p: "\<And>i. q_pc s i = QIdle"
  shows "q_val s = 0"
proof -
  note l = q_inv_lock [OF inv]
  have "q_locked s = 0" "q_pending s = 0"
    using l flag_ok_zero p unfolding q_lock_ok_def by (fastforce simp: q_owner_def q_pender_def)+
  moreover from inv obtain q where q: "q_queue s q" by (auto simp: q_inv_def)
  have "q = []" using q_queue_member(2) [OF q, of "hd q"] p by (cases q) auto
  with q have "q_tail s = 0" by (simp add: q_queue_def)
  ultimately show ?thesis by (simp add: q_val_zero)
qed

section \<open>Properties\<close>

text \<open>C1: at most one thread owns the queued spinlock (from the access that takes it in the fast, the pending
  or the queue path to the store of \<open>lock_release\<close>), in every interleaving of up to 16383 threads.\<close>

theorem queued_mutual_exclusion:
  assumes "N \<le> 16383"
    and "q_owner (q_pc (run (q_step N) ls mcs_init_locks) i)" and "q_owner (q_pc (run (q_step N) ls mcs_init_locks) j)"
  shows "i = j"
  by (rule queued.mutual_exclusion [of N mcs_init_locks]) (use assms in simp_all)

text \<open>Thread 1 is pending, thread 2 is queued and thread 0 has the lock; then thread 1 gets it.\<close>

theorem queued_mutual_exclusion_witness:
  "q_owner (q_pc (run (q_step 3) [0, 1, 1, 2, 2, 2, 2, 2, 0, 1, 1] mcs_init_locks) 1) \<and>
   \<not> q_owner (q_pc (run (q_step 3) [0, 1, 1, 2, 2, 2, 2, 2, 0, 1, 1] mcs_init_locks) 2)"
proof -
  have "q_owner (q_pc (run (q_step 3) [0, 1, 1, 2, 2, 2, 2, 2, 0, 1, 1] mcs_init_locks) 1)" by code_simp
  then show ?thesis using queued_mutual_exclusion [of 3 "[0, 1, 1, 2, 2, 2, 2, 2, 0, 1, 1]" 1 2] by auto
qed

text \<open>C20: the queue is first come, first served: the threads that take the lock from the queue do so in the
  order in which they exchanged the tail.\<close>

theorem queued_first_come_first_served:
  assumes "N \<le> 16383"
  shows "\<exists>u. observe (q_requests N) (q_step N) ls mcs_init_locks = observe (q_entries N) (q_step N) ls mcs_init_locks @ u"
  using queued.fifo [of N mcs_init_locks ls] assms by auto

theorem queued_first_come_first_served_witness:
  "\<exists>u. [2, 3] = observe (q_entries 4) (q_step 4)
     [0, 1, 1, 2, 2, 2, 2, 2, 3, 3, 3, 3, 3, 3, 0, 1, 1, 1, 2, 2, 2] mcs_init_locks @ u"
proof -
  have "observe (q_requests 4) (q_step 4) [0, 1, 1, 2, 2, 2, 2, 2, 3, 3, 3, 3, 3, 3, 0, 1, 1, 1, 2, 2, 2] mcs_init_locks = [2, 3]"
    by code_simp
  then show ?thesis
    using queued_first_come_first_served [of 4 "[0, 1, 1, 2, 2, 2, 2, 2, 3, 3, 3, 3, 3, 3, 0, 1, 1, 1, 2, 2, 2]"] by simp
qed

text \<open>C16: the queued spinlock never deadlocks: from every reachable state every thread can still obtain the
  lock. In particular the head of the queue that waits for a \<open>next\<close> it has not seen yet gets one.\<close>

theorem queued_never_stuck:
  assumes "N \<le> 16383" and "j < N"
  shows "\<exists>ms. q_owner (q_pc (run (q_step N) (ls @ ms) mcs_init_locks) j)"
proof -
  from queued_progress.never_stuck [of N mcs_init_locks ls] assms
  obtain ms where idle: "\<forall>i. q_pc (run (q_step N) (ls @ ms) mcs_init_locks) i = QIdle" by blast
  let ?s = "run (q_step N) (ls @ ms) mcs_init_locks"
  have "q_inv N ?s" by (rule queued.reachable_inv) (use assms in simp)
  then have "q_val ?s = 0" by (rule q_idle_free) (use idle in simp)
  then have "q_owner (q_pc (q_step N j ?s) j)"
    using idle assms by (simp add: q_step_def q_lock_acquire_def try_cmpxchg_def q_owner_def)
  then have "q_owner (q_pc (run (q_step N) (ls @ ms @ [j]) mcs_init_locks) j)" by (simp add: run_append)
  then show ?thesis ..
qed

theorem queued_never_stuck_witness:
  "\<exists>ms. q_owner (q_pc (run (q_step 4) ([0, 1, 1, 2, 2, 2, 2, 2, 3, 3, 3, 3, 3, 3] @ ms) mcs_init_locks) 3)"
  using queued_never_stuck [of 4 3 "[0, 1, 1, 2, 2, 2, 2, 2, 3, 3, 3, 3, 3, 3]"] by simp

text \<open>\<open>decode_tail\<close> is a left inverse of \<open>encode_tail\<close> for every thread and node index the word has room
  for, and the code lies within \<open>_Q_TAIL_MASK\<close> and is never the empty tail 0.\<close>

theorem tail_code_roundtrip:
  assumes "cpu < 16383" and "idx < 4"
  shows "decode_tail (encode_tail cpu idx) = (cpu, idx) \<and>
    encode_tail cpu idx AND Q_TAIL_MASK = encode_tail cpu idx \<and> encode_tail cpu idx \<noteq> 0"
proof (intro conjI)
  show "decode_tail (encode_tail cpu idx) = (cpu, idx)" by (rule decode_encode [OF assms])
  show "encode_tail cpu idx AND Q_TAIL_MASK = encode_tail cpu idx"
    using q_tail_mask [of "hi16 (encode_tail cpu idx)"] unfolding encode_low [symmetric] .
  show "encode_tail cpu idx \<noteq> 0" using encode_tail_value [OF assms] by auto
qed

theorem tail_code_roundtrip_witness:
  "decode_tail (encode_tail 16382 3) = (16382, 3) \<and> encode_tail 16382 3 AND Q_TAIL_MASK = 0xFFFF0000"
proof -
  have "encode_tail 16382 3 = 0xFFFF0000" by (simp add: encode_tail_def push_bit_eq_mult)
  then show ?thesis using tail_code_roundtrip [of 16382 3] by simp
qed

text \<open>C26: the lock word stays well formed: the locked and the pending byte are 0 or 1, a nonempty tail code
  names node 0 of a running thread, and no thread ever nests, so the fallback loop of the slow path
  is never reached.\<close>

theorem queued_word_well_formed:
  assumes "N \<le> 16383" and "s = run (q_step N) ls mcs_init_locks"
  shows "q_locked s \<in> {0, 1} \<and> q_pending s \<in> {0, 1} \<and>
    (q_tail s \<noteq> 0 \<longrightarrow> (\<exists>i<N. decode_tail (q_val s) = (i, 0))) \<and>
    q_count s i \<le> 1 \<and> q_pc s i \<noteq> QFallRead \<and> q_pc s i \<noteq> QFallCAS"
proof (intro conjI)
  have inv: "q_inv N s" unfolding assms(2) by (rule queued.reachable_inv) (use assms in simp)
  note l = q_inv_lock [OF inv]
  show "q_locked s \<in> {0, 1}" "q_pending s \<in> {0, 1}" using l flag_ok_bit by (fastforce simp: q_lock_ok_def)+
  show "q_count s i \<le> 1" "q_pc s i \<noteq> QFallRead" "q_pc s i \<noteq> QFallCAS"
    using q_inv_thread [OF inv, of i] by (auto simp: q_thread_ok_def q_local_def)
  show "q_tail s \<noteq> 0 \<longrightarrow> (\<exists>i<N. decode_tail (q_val s) = (i, 0))"
  proof
    assume t: "q_tail s \<noteq> 0"
    from inv obtain q where q: "q_queue s q" by (auto simp: q_inv_def)
    with t have ne: "q \<noteq> []" by (auto simp: q_queue_def)
    note d = q_decode_last [OF inv q ne]
    have "q_role (q_pc s (fst (last q))) \<noteq> Out" using q_queue_member [OF q, of "last q"] ne by simp
    with inv have "fst (last q) < N" unfolding q_inv_def by (metis linorder_not_less q_role_idle)
    moreover have "decode_tail (q_val s) = decode_tail (mk32 (q_tail s) 0)" unfolding q_val_def by (rule decode_tail_high)
    ultimately show "\<exists>i<N. decode_tail (q_val s) = (i, 0)" using d by (metis prod.collapse)
  qed
qed

theorem queued_word_well_formed_witness:
  "q_tail (run (q_step 3) [0, 1, 1, 2, 2, 2, 2, 2] mcs_init_locks) = 12 \<and>
   (\<exists>i<3. decode_tail (q_val (run (q_step 3) [0, 1, 1, 2, 2, 2, 2, 2] mcs_init_locks)) = (i, 0))"
proof -
  have "q_tail (run (q_step 3) [0, 1, 1, 2, 2, 2, 2, 2] mcs_init_locks) = 12" by code_simp
  then show ?thesis using queued_word_well_formed [of 3 _ "[0, 1, 1, 2, 2, 2, 2, 2]", OF _ refl] by simp
qed

end
