(* ===== verification/Ticket_Line.thy ===== *)
theory Ticket_Line
  imports Lock_Prelude
begin

text \<open>
  The line of threads that hold a ticket, for ticket counters of any width: the first may own the
  lock already, the others hold consecutive tickets behind the one being served. \<open>own\<close> and \<open>tk\<close>
  say which threads own the lock and which wait with a ticket. The lemmas give the effect on the
  line of taking a ticket, of being served and of releasing, with the counters wrapping around.
\<close>

fun tickets :: "(tid \<Rightarrow> 'a::len word option) \<Rightarrow> 'a word \<Rightarrow> tid list \<Rightarrow> bool" where
  "tickets tk v [] \<longleftrightarrow> True"
| "tickets tk v (i # ts) \<longleftrightarrow> tk i = Some v \<and> tickets tk (v + 1) ts"

definition line_members :: "(tid \<Rightarrow> bool) \<Rightarrow> (tid \<Rightarrow> 'a::len word option) \<Rightarrow> tid list \<Rightarrow> bool" where
  "line_members own tk ts \<longleftrightarrow> distinct ts \<and> (\<forall>i. i \<in> set ts \<longleftrightarrow> own i \<or> tk i \<noteq> None) \<and> (\<forall>i. own i \<longrightarrow> tk i = None)"

definition line :: "'a::len word \<Rightarrow> 'a word \<Rightarrow> (tid \<Rightarrow> bool) \<Rightarrow> (tid \<Rightarrow> 'a word option) \<Rightarrow> tid list \<Rightarrow> bool" where
  "line sv nx own tk ts \<longleftrightarrow> line_members own tk ts \<and> nx = sv + of_nat (length ts) \<and> length ts \<le> 2 ^ LENGTH('a) \<and>
     (case ts of [] \<Rightarrow> True | i # ts' \<Rightarrow> (own i \<or> tk i = Some sv) \<and> tickets tk (sv + 1) ts')"

lemma line_mem: "line sv nx own tk ts \<Longrightarrow> i \<in> set ts \<longleftrightarrow> own i \<or> tk i \<noteq> None"
  and line_distinct: "line sv nx own tk ts \<Longrightarrow> distinct ts"
  and line_next: "line sv nx own tk ts \<Longrightarrow> nx = sv + of_nat (length ts)"
  by (simp_all add: line_def line_members_def)

lemma of_nat_word_eq_0: "n < 2 ^ LENGTH('a) \<Longrightarrow> (of_nat n :: 'a::len word) = 0 \<longleftrightarrow> n = 0"
  by (simp add: word_unat_eq_iff unat_of_nat)

lemma tickets_lookup:
  "tickets tk v ts \<Longrightarrow> i \<in> set ts \<Longrightarrow> \<exists>k<length ts. tk i = Some (v + of_nat k)"
proof (induction ts arbitrary: v)
  case (Cons j ts)
  show ?case
  proof (cases "i = j")
    case True
    with Cons.prems show ?thesis by (intro exI [of _ 0]) simp
  next
    case False
    with Cons obtain k where "k < length ts" "tk i = Some (v + 1 + of_nat k)" by auto
    then show ?thesis by (intro exI [of _ "Suc k"]) (simp add: add.assoc)
  qed
qed simp

lemma tickets_cong: "(\<And>i. i \<in> set ts \<Longrightarrow> tk' i = tk i) \<Longrightarrow> tickets tk' v ts = tickets tk v ts"
  by (induction ts arbitrary: v) auto

lemma tickets_append: "tickets tk v (ts @ [i]) \<longleftrightarrow> tickets tk v ts \<and> tk i = Some (v + of_nat (length ts))"
  by (induction ts arbitrary: v) (auto simp: add.assoc)

lemma line_empty:
  fixes sv :: "'a::len word"
  assumes "line sv nx own tk ts" "nx = sv" "length ts < 2 ^ LENGTH('a)"
  shows "ts = []"
  using assms of_nat_word_eq_0 [of "length ts", where 'a = 'a] by (simp add: line_def)

lemma line_depth: "line sv nx own tk ts \<Longrightarrow> nx - sv = of_nat (length ts)"
  by (simp add: line_def)

text \<open>Whoever owns the lock or holds the ticket being served is the first.\<close>

lemma line_first:
  fixes sv :: "'a::len word"
  assumes l: "line sv nx own tk ts" and i: "own i \<or> tk i = Some sv"
  obtains ts' where "ts = i # ts'"
proof -
  have m: "i \<in> set ts" using line_mem [OF l, of i] i by auto
  then obtain h ts' where e: "ts = h # ts'" by (cases ts) auto
  have "i \<notin> set ts'"
  proof
    assume "i \<in> set ts'"
    moreover have "tickets tk (sv + 1) ts'" using l e by (simp add: line_def)
    ultimately obtain k where k: "k < length ts'" "tk i = Some (sv + 1 + of_nat k)" using tickets_lookup by blast
    then have "tk i = Some (sv + of_nat (Suc k))" by (simp add: add.assoc)
    moreover have "\<not> own i" using k l by (auto simp: line_def line_members_def)
    ultimately have "(of_nat (Suc k) :: 'a word) = 0" using i by simp
    moreover have "Suc k < 2 ^ LENGTH('a)" using k l e by (simp add: line_def)
    ultimately show False using of_nat_word_eq_0 [of "Suc k", where 'a = 'a] by simp
  qed
  with m e that show thesis by auto
qed

lemma line_one_owner: "line sv nx own tk ts \<Longrightarrow> own i \<Longrightarrow> own j \<Longrightarrow> i = j"
  by (metis line_first list.inject)

lemma line_same:
  assumes "line sv nx own tk ts" "own' = own" "tk' = tk"
  shows "line sv nx own' tk' ts"
  using assms by simp

lemma line_take:
  fixes sv :: "'a::len word"
  assumes l: "line sv nx own tk ts" and i: "\<not> own i" "tk i = None" and b: "length ts < 2 ^ LENGTH('a)"
  shows "line sv (nx + 1) own (tk(i := Some nx)) (ts @ [i])"
proof -
  have fresh: "i \<notin> set ts" using line_mem [OF l, of i] i by simp
  have m: "line_members own (tk(i := Some nx)) (ts @ [i])"
    using l i fresh by (auto simp: line_def line_members_def)
  have c: "tickets (tk(i := Some nx)) v ts' = tickets tk v ts'" if "i \<notin> set ts'" for v ts'
    by (rule tickets_cong) (use that in auto)
  show ?thesis
  proof (cases ts)
    case Nil
    with l m b show ?thesis by (simp add: line_def)
  next
    case (Cons h ts')
    with l m b fresh c [of ts'] show ?thesis by (auto simp: line_def tickets_append add.assoc)
  qed
qed

lemma line_take_now:
  fixes sv :: "'a::len word"
  assumes l: "line sv nx own tk ts" and i: "\<not> own i" "tk i = None" and e: "ts = []"
  shows "line sv (nx + 1) (own(i := True)) tk [i]"
  using assms by (auto simp: line_def line_members_def)

lemma line_served:
  assumes l: "line sv nx own tk ts" and i: "tk i = Some sv"
  shows "line sv nx (own(i := True)) (tk(i := None)) ts"
proof -
  from line_first [OF l, of i] i obtain ts' where e: "ts = i # ts'" by auto
  have "i \<notin> set ts'" using line_distinct [OF l] e by simp
  then have "tickets (tk(i := None)) (sv + 1) ts' = tickets tk (sv + 1) ts'" by (intro tickets_cong) auto
  moreover have "line_members (own(i := True)) (tk(i := None)) ts" using l i by (auto simp: line_def line_members_def)
  ultimately show ?thesis using l e by (simp add: line_def)
qed

lemma line_release:
  assumes l: "line sv nx own tk ts" and i: "own i"
  shows "\<exists>ts'. ts = i # ts' \<and> line (sv + 1) nx (own(i := False)) tk ts'"
proof -
  from line_first [OF l, of i] i obtain ts' where e: "ts = i # ts'" by auto
  have o: "own j \<Longrightarrow> j = i" for j using line_one_owner [OF l] i by blast
  have n: "tk i = None" "distinct ts" "\<And>j. own j \<Longrightarrow> tk j = None" using l i by (auto simp: line_def line_members_def)
  have mm: "j \<in> set ts' \<longleftrightarrow> (own(i := False)) j \<or> tk j \<noteq> None" for j
  proof (cases "j = i")
    case True
    with n(1,2) e show ?thesis by simp
  next
    case False
    with o [of j] line_mem [OF l, of j] e show ?thesis by simp
  qed
  have "line_members (own(i := False)) tk ts'"
    unfolding line_members_def
  proof (intro conjI allI impI)
    show "distinct ts'" using n(2) e by simp
    show "tk j = None" if "(own(i := False)) j" for j using n(3) [of j] that by (simp split: if_splits)
  qed (rule mm)
  moreover have "nx = sv + 1 + of_nat (length ts')" using l e by (simp add: line_def add.assoc)
  moreover have "case ts' of [] \<Rightarrow> True | j # r \<Rightarrow> ((own(i := False)) j \<or> tk j = Some (sv + 1)) \<and> tickets tk (sv + 1 + 1) r"
    using l e by (auto simp: line_def split: list.split)
  ultimately show ?thesis using l e by (simp add: line_def)
qed

end
