(* ===== verification/Hybrid_Spinlock.thy ===== *)
theory Hybrid_Spinlock
  imports MCS_Queue Ticket_Line
begin

text \<open>
  The hybrid spinlocks of \<open>ext/linux\<close>: a ticket lock with 8-bit tickets while few threads compete,
  and an MCS queue in front of it beyond a threshold. The three headers differ in the threshold
  and in when the head of the queue takes its ticket and leaves the queue, so one model covers
  them: \<open>hybrid_spinlock.h\<close>, \<open>hybrid_spinlock_fastdequeue.h\<close> and \<open>hybrid_spinlock_old_fastdequeue.h\<close>.
  The AArch64 code is modelled, an exclusive load and its store being one access; the code for
  other machines is a placeholder in the sources. A label is the thread that moves.
\<close>

datatype hybrid = Hybrid | Fast_Dequeue | Old_Fast_Dequeue

text \<open>\<open>_Q_THRESHOLD\<close> and \<open>_Q_DEQUEUE_THRESHOLD\<close>.\<close>

definition hy_threshold :: "hybrid \<Rightarrow> u32" where
  "hy_threshold v = (case v of Hybrid \<Rightarrow> 4 | Fast_Dequeue \<Rightarrow> 6 | Old_Fast_Dequeue \<Rightarrow> 4)"

abbreviation HY_DEQUEUE_THRESHOLD :: u32 where "HY_DEQUEUE_THRESHOLD \<equiv> 2"
abbreviation HY_TAIL_MASK :: u32 where "HY_TAIL_MASK \<equiv> 0xFFFF"
abbreviation HY_TAIL_CPU_MASK :: u32 where "HY_TAIL_CPU_MASK \<equiv> 0xFFFC"
abbreviation HY_TAIL_IDX_MASK :: u32 where "HY_TAIL_IDX_MASK \<equiv> 0x3"
abbreviation HY_TICKET_INC :: u32 where "HY_TICKET_INC \<equiv> 0x01000000"

section \<open>The lock word and the nodes\<close>

text \<open>Node \<open>idx\<close> of thread \<open>cpu\<close> is \<open>mcs_pool[4 * cpu + idx]\<close>.\<close>

type_synonym hy_node = "nat \<times> nat"

definition hy_encode_tail :: "nat \<Rightarrow> nat \<Rightarrow> u32" where
  "hy_encode_tail cpu idx = push_bit 2 (of_nat (cpu + 1)) OR of_nat idx"

definition hy_decode_tail :: "u32 \<Rightarrow> hy_node" where
  "hy_decode_tail tail = (unat (drop_bit 2 (tail AND HY_TAIL_CPU_MASK)) - 1, unat (tail AND HY_TAIL_IDX_MASK))"

definition ticket_depth :: "u32 \<Rightarrow> u32" where
  "ticket_depth ticketval =
     (drop_bit 24 (ticketval AND 0xFF000000) - drop_bit 16 (ticketval AND 0x00FF0000)) AND 0xFF"

text \<open>
  The positions in \<open>lock_acquire\<close>, \<open>hybrid_spinlock_slowpath\<close> and \<open>lock_release\<close>, with the locals
  \<open>ticketval\<close>, \<open>val\<close>, \<open>prev\<close> and \<open>next\<close> that are live there. \<open>HServe\<close> is the wait for the ticket
  inside the queue, \<open>HSpin\<close> the one outside.
\<close>

datatype hy_pc = HIdle | HTicket | HSpin u32
  | HInitLocked | HInitNext | HXchg | HLink hy_node | HWait | HReadNext | HHead "hy_node option"
  | HServe u32 "hy_node option" | HReadVal u32 "hy_node option" | HDestroy u32 u32 "hy_node option"
  | HWaitNext u32 | HHandoff u32 hy_node | HCS | HRel u8

text \<open>The word: the tail in the low half, the ticket being served in byte 2, the next ticket in byte 3.\<close>

record hy_state =
  h_tail :: u16
  h_serving :: u8
  h_ticket :: u8
  h_next :: "hy_node \<Rightarrow> hy_node option"
  h_mlocked :: "hy_node \<Rightarrow> u32"
  h_count :: "tid \<Rightarrow> nat"
  h_idx :: "tid \<Rightarrow> nat"
  h_depth :: "tid \<Rightarrow> u32"
  h_pc :: "tid \<Rightarrow> hy_pc"

definition h_val :: "hy_state \<Rightarrow> u32" where
  "h_val s = mk32 (mk16 (h_ticket s) (h_serving s)) (h_tail s)"

definition h_set_val :: "u32 \<Rightarrow> hy_state \<Rightarrow> hy_state" where
  "h_set_val v s = s\<lparr>h_tail := lo16 v, h_serving := lo8 (hi16 v), h_ticket := hi8 (hi16 v)\<rparr>"

definition hy_init_locks :: hy_state where
  "hy_init_locks = \<lparr>h_tail = 0, h_serving = 0, h_ticket = 0, h_next = (\<lambda>_. None), h_mlocked = (\<lambda>_. 0),
     h_count = (\<lambda>_. 0), h_idx = (\<lambda>_. 0), h_depth = (\<lambda>_. 0), h_pc = (\<lambda>_. HIdle)\<rparr>"

abbreviation h_goto :: "tid \<Rightarrow> hy_pc \<Rightarrow> hy_state \<Rightarrow> hy_state" where
  "h_goto i p s \<equiv> s\<lparr>h_pc := (h_pc s)(i := p)\<rparr>"

abbreviation h_node :: "hy_state \<Rightarrow> tid \<Rightarrow> hy_node" where
  "h_node s i \<equiv> (i, h_idx s i)"

definition hy_set_depth :: "tid \<Rightarrow> u32 \<Rightarrow> hy_state \<Rightarrow> hy_state" where
  "hy_set_depth i d s = s\<lparr>h_depth := (h_depth s)(i := d)\<rparr>"

section \<open>The assembly tests\<close>

text \<open>\<open>rev16\<close> swaps the bytes of each half word.\<close>

definition rev16 :: "u32 \<Rightarrow> u32" where
  "rev16 w = mk32 (mk16 (lo8 (hi16 w)) (hi8 (hi16 w))) (mk16 (lo8 (lo16 w)) (hi8 (lo16 w)))"

definition hy_equal :: "u32 \<Rightarrow> bool" where
  "hy_equal w \<longleftrightarrow> rev16 w XOR w = 0"

definition hy_enqueue :: "hybrid \<Rightarrow> u32 \<Rightarrow> bool" where
  "hy_enqueue v t \<longleftrightarrow> hy_equal (t - push_bit 24 (hy_threshold v)) \<or> t AND HY_TAIL_MASK \<noteq> 0"

text \<open>When the head of the queue keeps waiting before it takes a ticket; the comparison is signed.\<close>

definition hy_stay :: "hybrid \<Rightarrow> u32 \<Rightarrow> bool" where
  "hy_stay v t = (case v of Hybrid \<Rightarrow> False
   | Fast_Dequeue \<Rightarrow> push_bit 24 HY_DEQUEUE_THRESHOLD <s (t - push_bit 8 t) AND 0xFF000000
   | Old_Fast_Dequeue \<Rightarrow> hy_equal (t - push_bit 24 (hy_threshold v)))"

text \<open>\<open>eor\<close> of the served byte and \<open>ticketval >> 24\<close>.\<close>

definition hy_my_turn :: "u32 \<Rightarrow> u8 \<Rightarrow> bool" where
  "hy_my_turn ticketval serving \<longleftrightarrow> drop_bit 24 ticketval XOR (ucast serving :: u32) = 0"

section \<open>The code\<close>

text \<open>Entering \<open>hybrid_spinlock_slowpath\<close>; the node count is private to the thread.\<close>

definition hy_enter :: "tid \<Rightarrow> hy_state \<Rightarrow> hy_state" where
  "hy_enter i s = h_goto i HInitLocked
     (s\<lparr>h_count := (h_count s)(i := h_count s i + 1), h_idx := (h_idx s)(i := h_count s i)\<rparr>)"

definition hy_lock_acquire :: "hybrid \<Rightarrow> tid \<Rightarrow> hy_state \<Rightarrow> hy_state" where
  "hy_lock_acquire v i s = (let t = h_val s in
     if hy_equal t then h_goto i HCS (hy_set_depth i 0 (h_set_val (t + HY_TICKET_INC) s))
     else let s = hy_set_depth i (case v of Old_Fast_Dequeue \<Rightarrow> (drop_bit 24 t - drop_bit 16 t) AND 0xFF | _ \<Rightarrow> 0) s
       in if hy_enqueue v t then hy_enter i s else h_goto i HTicket s)"

definition hy_take_ticket :: "hybrid \<Rightarrow> tid \<Rightarrow> hy_state \<Rightarrow> hy_state" where
  "hy_take_ticket v i s = (let t = h_val s in
     if hy_enqueue v t then hy_enter i s
     else h_goto i (HSpin t) (hy_set_depth i (case v of Old_Fast_Dequeue \<Rightarrow> 0 | _ \<Rightarrow> ticket_depth t)
            (h_set_val (t + HY_TICKET_INC) s)))"

definition hy_spin :: "tid \<Rightarrow> u32 \<Rightarrow> hy_state \<Rightarrow> hy_state" where
  "hy_spin i t s = (if hy_my_turn t (h_serving s) then h_goto i HCS s else s)"

definition hy_init_locked :: "tid \<Rightarrow> hy_state \<Rightarrow> hy_state" where
  "hy_init_locked i s = h_goto i HInitNext (s\<lparr>h_mlocked := (h_mlocked s)(h_node s i := 0)\<rparr>)"

definition hy_init_next :: "tid \<Rightarrow> hy_state \<Rightarrow> hy_state" where
  "hy_init_next i s = h_goto i HXchg (s\<lparr>h_next := (h_next s)(h_node s i := None)\<rparr>)"

text \<open>\<open>xchg_tail\<close>, and the branch on the tail it returns.\<close>

definition hy_xchg_tail :: "u32 \<Rightarrow> hy_state \<Rightarrow> u32 \<times> hy_state" where
  "hy_xchg_tail tail s = (ucast (h_tail s), s\<lparr>h_tail := ucast (tail AND HY_TAIL_MASK)\<rparr>)"

definition hy_xchg :: "tid \<Rightarrow> hy_state \<Rightarrow> hy_state" where
  "hy_xchg i s = (case hy_xchg_tail (hy_encode_tail i (h_idx s i)) s of (old, s) \<Rightarrow>
     h_goto i (if old AND HY_TAIL_MASK \<noteq> 0 then HLink (hy_decode_tail old) else HHead None) s)"

definition hy_link :: "tid \<Rightarrow> hy_node \<Rightarrow> hy_state \<Rightarrow> hy_state" where
  "hy_link i prev s = h_goto i HWait (s\<lparr>h_next := (h_next s)(prev := Some (h_node s i))\<rparr>)"

definition hy_wait :: "tid \<Rightarrow> hy_state \<Rightarrow> hy_state" where
  "hy_wait i s = (if h_mlocked s (h_node s i) \<noteq> 0 then h_goto i HReadNext s else s)"

definition hy_read_next :: "tid \<Rightarrow> hy_state \<Rightarrow> hy_state" where
  "hy_read_next i s = h_goto i (HHead (h_next s (h_node s i))) s"

text \<open>The head takes its ticket: at once, or when the line in front of the lock is short enough.\<close>

definition hy_head :: "hybrid \<Rightarrow> tid \<Rightarrow> hy_node option \<Rightarrow> hy_state \<Rightarrow> hy_state" where
  "hy_head v i next s = (let t = h_val s in
     if hy_stay v t then s
     else let s = h_set_val (t + HY_TICKET_INC) s in
       case v of Hybrid \<Rightarrow> h_goto i (HServe t next) (hy_set_depth i (ticket_depth t) s)
       | Fast_Dequeue \<Rightarrow> h_goto i (HReadVal t next) (hy_set_depth i (ticket_depth t) s)
       | Old_Fast_Dequeue \<Rightarrow> h_goto i (HReadVal t next) s)"

definition hy_serve :: "tid \<Rightarrow> u32 \<Rightarrow> hy_node option \<Rightarrow> hy_state \<Rightarrow> hy_state" where
  "hy_serve i t next s = (if hy_my_turn t (h_serving s) then h_goto i (HReadVal t next) s else s)"

text \<open>The loop \<open>while ((val & _Q_TAIL_MASK) == tail)\<close> and what follows it.\<close>

definition hy_test_tail :: "tid \<Rightarrow> u32 \<Rightarrow> u32 \<Rightarrow> hy_node option \<Rightarrow> hy_state \<Rightarrow> hy_state" where
  "hy_test_tail i t val next s =
     h_goto i (if val AND HY_TAIL_MASK = hy_encode_tail i (h_idx s i) then HDestroy t val next
               else case next of None \<Rightarrow> HWaitNext t | Some n \<Rightarrow> HHandoff t n) s"

definition hy_read_val :: "tid \<Rightarrow> u32 \<Rightarrow> hy_node option \<Rightarrow> hy_state \<Rightarrow> hy_state" where
  "hy_read_val i t next s = hy_test_tail i t (h_val s) next s"

text \<open>
  The label \<open>release\<close>: the plain hybrid lock is owned by now, the others leave the queue with a
  ticket and wait for it outside.
\<close>

definition hy_release_node :: "hybrid \<Rightarrow> tid \<Rightarrow> u32 \<Rightarrow> hy_state \<Rightarrow> hy_state" where
  "hy_release_node v i t s = h_goto i (if v = Hybrid then HCS else HSpin t)
     (s\<lparr>h_count := (h_count s)(i := h_count s i - 1)\<rparr>)"

definition hy_destroy :: "hybrid \<Rightarrow> tid \<Rightarrow> u32 \<Rightarrow> u32 \<Rightarrow> hy_node option \<Rightarrow> hy_state \<Rightarrow> hy_state" where
  "hy_destroy v i t val next s =
     (if h_val s = val then hy_release_node v i t (h_set_val (val AND NOT HY_TAIL_MASK) s)
      else hy_test_tail i t (h_val s) next s)"

definition hy_wait_next :: "tid \<Rightarrow> u32 \<Rightarrow> hy_state \<Rightarrow> hy_state" where
  "hy_wait_next i t s = (case h_next s (h_node s i) of None \<Rightarrow> s | Some n \<Rightarrow> h_goto i (HHandoff t n) s)"

definition hy_handoff :: "hybrid \<Rightarrow> tid \<Rightarrow> u32 \<Rightarrow> hy_node \<Rightarrow> hy_state \<Rightarrow> hy_state" where
  "hy_handoff v i t n s = hy_release_node v i t (s\<lparr>h_mlocked := (h_mlocked s)(n := 1)\<rparr>)"

text \<open>\<open>lock_release\<close>: \<open>ldrb\<close>, \<open>add\<close>, \<open>stlrb\<close> on byte 2.\<close>

definition hy_lock_release :: "tid \<Rightarrow> hy_state \<Rightarrow> hy_state" where
  "hy_lock_release i s = h_goto i (HRel (h_serving s)) s"

definition hy_release_store :: "tid \<Rightarrow> u8 \<Rightarrow> hy_state \<Rightarrow> hy_state" where
  "hy_release_store i tmp s = h_goto i HIdle (s\<lparr>h_serving := tmp + 1\<rparr>)"

definition hy_step :: "hybrid \<Rightarrow> nat \<Rightarrow> tid \<Rightarrow> hy_state \<Rightarrow> hy_state" where
  "hy_step v N i s = (if i < N then (case h_pc s i of
       HIdle \<Rightarrow> hy_lock_acquire v i s
     | HTicket \<Rightarrow> hy_take_ticket v i s
     | HSpin t \<Rightarrow> hy_spin i t s
     | HInitLocked \<Rightarrow> hy_init_locked i s
     | HInitNext \<Rightarrow> hy_init_next i s
     | HXchg \<Rightarrow> hy_xchg i s
     | HLink prev \<Rightarrow> hy_link i prev s
     | HWait \<Rightarrow> hy_wait i s
     | HReadNext \<Rightarrow> hy_read_next i s
     | HHead next \<Rightarrow> hy_head v i next s
     | HServe t next \<Rightarrow> hy_serve i t next s
     | HReadVal t next \<Rightarrow> hy_read_val i t next s
     | HDestroy t val next \<Rightarrow> hy_destroy v i t val next s
     | HWaitNext t \<Rightarrow> hy_wait_next i t s
     | HHandoff t n \<Rightarrow> hy_handoff v i t n s
     | HCS \<Rightarrow> hy_lock_release i s
     | HRel tmp \<Rightarrow> hy_release_store i tmp s) else s)"

end
