(* ===== verification/Hybrid_Words.thy ===== *)
theory Hybrid_Words
  imports Hybrid_Spinlock
begin

text \<open>
  What the word arithmetic and the assembly tests of the hybrid spinlocks compute, in terms of
  the next ticket, the ticket being served and the tail.
\<close>

section \<open>Tickets\<close>

lemma unat_mk16: "unat (mk16 h l) = 256 * unat h + unat l"
proof -
  have l: "unat (mk16 h l) mod 256 = unat l"
    using arg_cong [OF lo8_mk16 [of h l], of unat] unfolding lo8_def
    by (simp add: unsigned_ucast_eq take_bit_eq_mod unsigned_take_bit_eq)
  have "unat (mk16 h l) < 65536" using unsigned_less [of "mk16 h l", where 'a = nat] by simp
  then have "unat (mk16 h l) div 256 = unat h"
    using arg_cong [OF hi8_mk16 [of h l], of unat] unfolding hi8_def
    by (simp add: unsigned_ucast_eq unsigned_take_bit_eq take_bit_eq_mod drop_bit_eq_div unat_div)
  with l div_mult_mod_eq [of "unat (mk16 h l)" 256] show ?thesis by simp
qed

lemma mk16_add_hi: "mk16 h l + mk16 k 0 = mk16 (h + k) l"
proof -
  have l: "unat l < 256" using unsigned_less [of l, where 'a = nat] by simp
  have e: "256 * unat h + unat l + 256 * unat k = 256 * (unat h + unat k) + unat l" by simp
  have "unat (mk16 h l + mk16 k 0) = (256 * (unat h + unat k) + unat l) mod (256 * 256)"
    by (simp add: unat_word_ariths unat_mk16 e del: distrib_left_numeral)
  also have "\<dots> = 256 * ((unat h + unat k) mod 256) + unat l"
    using l by (rule mod_mult_add)
  also have "\<dots> = unat (mk16 (h + k) l)"
    by (simp add: unat_mk16 unat_word_ariths)
  finally show ?thesis by (rule word_unat_eq_iff [THEN iffD2])
qed

lemma hy_inc: "mk32 (mk16 a b) t + HY_TICKET_INC = mk32 (mk16 (a + 1) b) t"
proof -
  have "HY_TICKET_INC = mk32 (mk16 1 0) 0" by (simp add: mk32_def mk16_def)
  then show ?thesis by (simp only: mk32_add_hi mk16_add_hi)
qed

lemma hy_sub: "mk32 (mk16 a b) t - mk32 (mk16 c 0) 0 = mk32 (mk16 (a - c) b) t"
proof -
  have "mk32 (mk16 (a - c) b) t + mk32 (mk16 c 0) 0 = mk32 (mk16 a b) t" by (simp add: mk32_add_hi mk16_add_hi)
  then show ?thesis by (metis add_diff_cancel_right')
qed

lemma h_take: "h_set_val (h_val s + HY_TICKET_INC) s = s\<lparr>h_ticket := h_ticket s + 1\<rparr>"
  unfolding h_val_def hy_inc h_set_val_def by simp

lemma mk16_split: "\<exists>a b. w = mk16 a b"
  by (metis mk16_hi8_lo8)

lemma xor_zero_iff: "v XOR w = 0 \<longleftrightarrow> v = (w :: 'a::len word)"
  by (metis xor_self_eq xor.right_neutral xor.assoc)

lemma hy_equal_iff: "hy_equal (mk32 (mk16 a b) t) \<longleftrightarrow> a = b \<and> hi8 t = lo8 t"
proof -
  obtain c d where "t = mk16 c d" using mk16_split by blast
  then show ?thesis by (auto simp: hy_equal_def rev16_def xor_zero_iff)
qed

text \<open>The threshold as a byte.\<close>

definition hy_thr :: "hybrid \<Rightarrow> u8" where
  "hy_thr v = ucast (hy_threshold v)"

lemma hy_threshold_parts: "push_bit 24 (hy_threshold v) = mk32 (mk16 (hy_thr v) 0) 0"
  by (cases v) (simp_all add: hy_threshold_def hy_thr_def mk32_def mk16_def push_bit_eq_mult)

lemma hy_enqueue_iff:
  "hy_enqueue v (h_val s) \<longleftrightarrow> h_ticket s - hy_thr v = h_serving s \<or> h_tail s \<noteq> 0"
proof -
  have "hi8 (0 :: u16) = lo8 0" by (simp add: hi8_def lo8_def)
  moreover have "(ucast (h_tail s) :: u32) = 0 \<longleftrightarrow> h_tail s = 0" using ucast16_eq_iff [of "h_tail s" 0] by simp
  ultimately show ?thesis
    unfolding hy_enqueue_def h_val_def hy_threshold_parts hy_sub hy_equal_iff and_mask_16_lo16 lo16_mk32
    by auto
qed

lemma hy_fast_iff: "hy_equal (h_val s) \<longleftrightarrow> h_ticket s = h_serving s \<and> hi8 (h_tail s) = lo8 (h_tail s)"
  unfolding h_val_def by (rule hy_equal_iff)

lemma drop_bit_24: "drop_bit 24 w = (ucast (hi8 (hi16 w)) :: u32)"
  unfolding hi8_def hi16_def by (rule bit_word_eqI) (auto simp: bit_simps dest: bit_imp_le_length)

lemma ucast8_eq: "(ucast a :: u32) = ucast b \<longleftrightarrow> a = (b :: u8)"
  by (metis ucast_ucast_up [where 'a = 8 and 'b = 32, simplified])

lemma hy_my_turn_iff: "hy_my_turn t sv \<longleftrightarrow> hi8 (hi16 t) = sv"
  unfolding hy_my_turn_def xor_zero_iff drop_bit_24 by (rule ucast8_eq)

lemma hi8_hi16_val [simp]: "hi8 (hi16 (h_val s)) = h_ticket s"
  by (simp add: h_val_def)

section \<open>The tail\<close>

lemma hy_tail_bits: "h_val s AND HY_TAIL_MASK = ucast (h_tail s)"
  unfolding and_mask_16_lo16 h_val_def by simp

lemma hy_clear_tail: "h_set_val (h_val s AND NOT HY_TAIL_MASK) s = s\<lparr>h_tail := 0\<rparr>"
proof -
  have "h_val s AND NOT HY_TAIL_MASK = mk32 (mk16 (h_ticket s) (h_serving s)) 0"
  proof -
    have m: "HY_TAIL_MASK = mask 16" by (simp add: mask_eq_exp_minus_1)
    show ?thesis unfolding m h_val_def by (rule bit_word_eqI) (auto simp: bit_simps bit_mk32)
  qed
  then show ?thesis by (simp add: h_set_val_def)
qed

definition hy_code :: "nat \<Rightarrow> u16" where
  "hy_code i = of_nat (4 * (i + 1))"

lemma hy_encode_value:
  assumes "cpu < 16383" "idx < 4"
  shows "hy_encode_tail cpu idx = of_nat (4 * (cpu + 1) + idx)"
proof -
  have "hy_encode_tail cpu idx = push_bit 2 (of_nat (cpu + 1)) + of_nat idx"
    unfolding hy_encode_tail_def
  proof (rule disjunctive_add [symmetric])
    fix n
    show "\<not> bit (push_bit 2 (of_nat (cpu + 1)) :: u32) n \<or> \<not> bit (of_nat idx :: u32) n"
    proof (cases "2 \<le> n")
      case True
      then have "(2 :: nat) ^ 2 \<le> 2 ^ n" by (intro power_increasing) auto
      with assms(2) have "idx < 2 ^ n" by simp
      then have "\<not> bit idx n" by (simp add: bit_iff_odd)
      then show ?thesis by (auto simp: bit_simps)
    qed (auto simp: bit_simps)
  qed
  then show ?thesis by (simp add: push_bit_eq_mult)
qed

lemma hy_encode_unat:
  assumes "cpu < 16383" "idx < 4"
  shows "unat (hy_encode_tail cpu idx) = 4 * (cpu + 1) + idx"
  unfolding hy_encode_value [OF assms] using assms by (simp only: unat_of_nat) simp

lemma hy_code_unat: "i < 16383 \<Longrightarrow> unat (hy_code i) = 4 * (i + 1)"
  unfolding hy_code_def by (simp only: unat_of_nat) simp

lemma hy_code_encode: "i < 16383 \<Longrightarrow> hy_encode_tail i 0 = ucast (hy_code i)"
  by (simp add: word_unat_eq_iff hy_encode_unat unat_ucast_up [where 'a = 16 and 'b = 32, simplified] hy_code_unat)

lemma hy_code_nz: "i < 16383 \<Longrightarrow> hy_code i \<noteq> 0"
  using hy_code_unat [of i] by auto

lemma hy_code_inj: "i < 16383 \<Longrightarrow> j < 16383 \<Longrightarrow> hy_code i = hy_code j \<Longrightarrow> i = j"
proof -
  assume b: "i < 16383" "j < 16383" and "hy_code i = hy_code j"
  then have "unat (hy_code i) = unat (hy_code j)" by (simp only:)
  then have "4 * (i + 1) = 4 * (j + 1)" by (simp only: hy_code_unat [OF b(1)] hy_code_unat [OF b(2)])
  then show "i = j" by simp
qed

lemma hy_decode_encode:
  assumes "cpu < 16383" "idx < 4"
  shows "hy_decode_tail (hy_encode_tail cpu idx) = (cpu, idx)"
proof -
  let ?e = "hy_encode_tail cpu idx"
  have v: "unat ?e = 4 * (cpu + 1) + idx" by (rule hy_encode_unat [OF assms])
  have m: "HY_TAIL_CPU_MASK = push_bit 2 (mask 14)" "HY_TAIL_IDX_MASK = mask 2"
    by (simp_all add: mask_eq_exp_minus_1 push_bit_eq_mult)
  have "drop_bit 2 (?e AND HY_TAIL_CPU_MASK) = take_bit 14 (drop_bit 2 ?e)"
    unfolding m by (rule bit_word_eqI) (auto simp: bit_simps)
  then have "unat (drop_bit 2 (?e AND HY_TAIL_CPU_MASK)) = unat ?e div 4 mod 16384"
    by (simp add: unsigned_take_bit_eq take_bit_eq_mod drop_bit_eq_div unat_div unat_mod)
  also have "\<dots> = cpu + 1" unfolding v using assms by simp
  finally have c: "unat (drop_bit 2 (?e AND HY_TAIL_CPU_MASK)) - 1 = cpu" by simp
  have "?e AND HY_TAIL_IDX_MASK = take_bit 2 ?e" unfolding m by (simp add: take_bit_eq_mask)
  then have "unat (?e AND HY_TAIL_IDX_MASK) = unat ?e mod 4"
    by (simp add: unsigned_take_bit_eq take_bit_eq_mod unat_mod)
  also have "\<dots> = idx" unfolding v using assms(2) by presburger
  finally show ?thesis using c by (simp add: hy_decode_tail_def)
qed

lemma hy_decode_code: "i < 16383 \<Longrightarrow> hy_decode_tail (ucast (hy_code i)) = (i, 0)"
  using hy_decode_encode [of i 0] hy_code_encode [of i] by simp

lemma hy_mask_code: "(ucast (t :: u16) :: u32) AND HY_TAIL_MASK = ucast t"
  unfolding and_mask_16_lo16 by simp

lemma hy_code_low: "i < 16383 \<Longrightarrow> ucast (hy_encode_tail i 0 AND HY_TAIL_MASK) = hy_code i"
  unfolding hy_code_encode hy_mask_code by (rule ucast_ucast_up) simp

section \<open>The dequeue threshold\<close>

text \<open>
  \<open>sub tmp3, ticket, ticket, lsl #8\<close> subtracts the served ticket from the next one in the top byte,
  but the bytes below may borrow from it: the depth that is compared can be one too small.
\<close>

lemma top_byte: "hi8 (hi16 w) = of_nat (unat w div 16777216)"
proof -
  have "unat (hi8 v) = unat v div 256" for v
    using unat_mk16 [of "hi8 v" "lo8 v"] unsigned_less [of "lo8 v", where 'a = nat] by simp
  then have "unat (hi8 (hi16 w)) = unat w div 16777216" by (simp add: unat_hi16 div_mult2_eq [symmetric])
  moreover have "unat (hi8 (hi16 w)) < 256" using unsigned_less [of "hi8 (hi16 w)", where 'a = nat] by simp
  ultimately show ?thesis by (simp only: word_unat_eq_iff unat_of_nat) simp
qed

lemma div_mod_add: "(x + y) mod (m * n) div m = (x div m + y div m + (x mod m + y mod m) div m) mod (n :: nat)"
  for m :: nat
proof (cases "m = 0")
  case False
  have "(x + y) mod (m * n) div m = (x + y) div m mod n" using False by (simp add: mod_mult2_eq)
  then show ?thesis by (simp only: div_add1_eq [of x y m])
qed simp

lemma top_byte_add:
  "\<exists>c. (c = 0 \<or> c = 1) \<and> hi8 (hi16 (x + y)) = hi8 (hi16 x) + hi8 (hi16 y) + (c :: u8)"
proof -
  let ?m = "16777216 :: nat"
  let ?c = "(unat x mod ?m + unat y mod ?m) div ?m"
  have "unat (x + y) = (unat x + unat y) mod (?m * 256)" by (simp add: unat_word_ariths)
  then have "hi8 (hi16 (x + y)) = of_nat ((unat x div ?m + unat y div ?m + ?c) mod 256)"
    by (simp only: top_byte div_mod_add)
  also have "\<dots> = of_nat (unat x div ?m + unat y div ?m + ?c)"
    by (simp only: word_unat_eq_iff unat_of_nat) simp
  also have "\<dots> = hi8 (hi16 x) + hi8 (hi16 y) + of_nat ?c" by (simp only: top_byte of_nat_add)
  finally have e: "hi8 (hi16 (x + y)) = hi8 (hi16 x) + hi8 (hi16 y) + of_nat ?c" .
  have "unat x mod ?m < ?m" "unat y mod ?m < ?m" by simp_all
  then have "?c < 2" by (intro less_mult_imp_div_less) simp
  then consider "?c = 0" | "?c = 1" by linarith
  then have "(of_nat ?c :: u8) = 0 \<or> (of_nat ?c :: u8) = 1" 
  proof cases
    case 1
    from arg_cong [OF this, of "of_nat :: nat \<Rightarrow> u8"] show ?thesis by (intro disjI1) (simp only: semiring_1_class.of_nat_0)
  next
    case 2
    from arg_cong [OF this, of "of_nat :: nat \<Rightarrow> u8"] show ?thesis by (intro disjI2) (simp only: of_nat_1)
  qed
  with e show ?thesis by (intro exI [of _ "of_nat ?c"] conjI)
qed

lemma hy_top_depth:
  "\<exists>c. (c = 0 \<or> c = 1) \<and> hi8 (hi16 (h_val s - push_bit 8 (h_val s))) = h_ticket s - h_serving s - c"
proof -
  have "hi8 (hi16 (push_bit 8 w)) = lo8 (hi16 w)" for w
    unfolding hi8_def hi16_def lo8_def by (rule bit_word_eqI) (auto simp: bit_simps add.commute)
  then have p: "hi8 (hi16 (push_bit 8 (h_val s))) = h_serving s" by (simp add: h_val_def)
  obtain c where "c = 0 \<or> c = 1"
    "hi8 (hi16 (h_val s - push_bit 8 (h_val s) + push_bit 8 (h_val s))) =
       hi8 (hi16 (h_val s - push_bit 8 (h_val s))) + hi8 (hi16 (push_bit 8 (h_val s))) + c"
    using top_byte_add by blast
  then show ?thesis unfolding p by (intro exI [of _ c]) (simp add: algebra_simps)
qed

lemma hy_stay_fast_iff:
  "hy_stay Fast_Dequeue (h_val s) \<longleftrightarrow> 0x02000000 <s mk32 (mk16 (hi8 (hi16 (h_val s - push_bit 8 (h_val s)))) 0) 0"
proof -
  have m: "0xFF000000 = (push_bit 24 (mask 8) :: u32)" by (simp add: mask_eq_exp_minus_1 push_bit_eq_mult)
  have "w AND 0xFF000000 = mk32 (mk16 (hi8 (hi16 w)) 0) 0" for w
    unfolding m by (rule bit_word_eqI) (auto simp: bit_simps bit_mk32 bit_mk16 hi8_def hi16_def)
  then show ?thesis by (simp add: hy_stay_def)
qed

lemma hy_stay_byte:
  "T = 3 \<or> T = 4 \<or> T = 5 \<or> T = 6 \<Longrightarrow> (0x02000000 :: u32) <s mk32 (mk16 T 0) 0"
  "T = 0 \<or> T = 255 \<Longrightarrow> \<not> (0x02000000 :: u32) <s mk32 (mk16 T 0) 0"
  by (auto simp: mk32_def mk16_def push_bit_eq_mult word_sless_alt)

lemma hy_stay_fast:
  "h_ticket s - h_serving s = 4 \<or> h_ticket s - h_serving s = 5 \<or> h_ticket s - h_serving s = 6 \<Longrightarrow> hy_stay Fast_Dequeue (h_val s)"
  "h_ticket s - h_serving s = 0 \<Longrightarrow> \<not> hy_stay Fast_Dequeue (h_val s)"
proof -
  obtain c where c: "c = 0 \<or> c = 1"
    and t: "hi8 (hi16 (h_val s - push_bit 8 (h_val s))) = h_ticket s - h_serving s - c" using hy_top_depth by blast
  show "hy_stay Fast_Dequeue (h_val s)"
    if "h_ticket s - h_serving s = 4 \<or> h_ticket s - h_serving s = 5 \<or> h_ticket s - h_serving s = 6"
    unfolding hy_stay_fast_iff t by (rule hy_stay_byte(1)) (use that c in \<open>elim disjE; simp\<close>)
  show "\<not> hy_stay Fast_Dequeue (h_val s)" if "h_ticket s - h_serving s = 0"
    unfolding hy_stay_fast_iff t by (rule hy_stay_byte(2)) (use that c in \<open>elim disjE; simp\<close>)
qed

end
