(* ===== verification/Hybrid_Correct.thy ===== *)
theory Hybrid_Correct
  imports Hybrid_Words
begin

text \<open>
  Correctness of the hybrid spinlocks. The invariant has two parts: the MCS queue, as for the
  queued spinlock, and the line of ticket holders in front of the lock. The line is what gives
  mutual exclusion, provided that it never has more members than there are 8-bit tickets.
\<close>

section \<open>Where a thread stands\<close>

definition h_role :: "hy_pc \<Rightarrow> hy_node mcs_role" where
  "h_role p = (case p of HLink prev \<Rightarrow> Linking prev | HWait \<Rightarrow> Waiting | HReadNext \<Rightarrow> Head | HHead _ \<Rightarrow> Head
     | HServe _ _ \<Rightarrow> Head | HReadVal _ _ \<Rightarrow> Head | HDestroy _ _ _ \<Rightarrow> Head | HWaitNext _ \<Rightarrow> Head | HHandoff _ _ \<Rightarrow> Head
     | _ \<Rightarrow> Out)"

text \<open>Past its turn, or waiting with a ticket. In the plain hybrid lock the head leaves the queue as the owner.\<close>

definition h_owner :: "hybrid \<Rightarrow> hy_pc \<Rightarrow> bool" where
  "h_owner v p = (case p of HCS \<Rightarrow> True | HRel _ \<Rightarrow> True | HReadVal _ _ \<Rightarrow> v = Hybrid | HDestroy _ _ _ \<Rightarrow> v = Hybrid
     | HWaitNext _ \<Rightarrow> v = Hybrid | HHandoff _ _ \<Rightarrow> v = Hybrid | _ \<Rightarrow> False)"

definition h_tkt :: "hybrid \<Rightarrow> hy_pc \<Rightarrow> u8 option" where
  "h_tkt v p = (case p of HSpin t \<Rightarrow> Some (hi8 (hi16 t)) | HServe t _ \<Rightarrow> Some (hi8 (hi16 t))
     | HReadVal t _ \<Rightarrow> if v = Hybrid then None else Some (hi8 (hi16 t))
     | HDestroy t _ _ \<Rightarrow> if v = Hybrid then None else Some (hi8 (hi16 t))
     | HWaitNext t \<Rightarrow> if v = Hybrid then None else Some (hi8 (hi16 t))
     | HHandoff t _ \<Rightarrow> if v = Hybrid then None else Some (hi8 (hi16 t)) | _ \<Rightarrow> None)"

text \<open>The head of the queue with its ticket.\<close>

definition h_headed :: "hy_pc \<Rightarrow> bool" where
  "h_headed p = (case p of HServe _ _ \<Rightarrow> True | HReadVal _ _ \<Rightarrow> True | HDestroy _ _ _ \<Rightarrow> True | HWaitNext _ \<Rightarrow> True
     | HHandoff _ _ \<Rightarrow> True | _ \<Rightarrow> False)"

definition h_queueing :: "hy_pc \<Rightarrow> bool" where
  "h_queueing p = (case p of HIdle \<Rightarrow> False | HTicket \<Rightarrow> False | HSpin _ \<Rightarrow> False | HCS \<Rightarrow> False | HRel _ \<Rightarrow> False | _ \<Rightarrow> True)"

lemmas h_pc_defs = h_role_def h_owner_def h_tkt_def h_headed_def h_queueing_def

lemma h_role_idle [simp]: "h_role HIdle = Out"
  by (simp add: h_role_def)

lemma h_headed_Head: "h_headed p \<Longrightarrow> h_role p = Head"
  by (auto simp: h_pc_defs split: hy_pc.splits)

lemma h_headed_line: "h_headed p \<Longrightarrow> h_owner v p \<or> h_tkt v p \<noteq> None"
  by (auto simp: h_pc_defs split: hy_pc.splits)

section \<open>The invariant\<close>

definition h_nrole :: "hy_state \<Rightarrow> hy_node \<Rightarrow> hy_node mcs_role" where
  "h_nrole s n = (if snd n = 0 then h_role (h_pc s (fst n)) else Out)"

definition h_queue :: "hy_state \<Rightarrow> hy_node list \<Rightarrow> bool" where
  "h_queue s q \<longleftrightarrow> mcs_queue (h_next s) (h_mlocked s) (h_nrole s) q \<and>
     h_tail s = (if q = [] then 0 else hy_code (fst (last q)))"

definition h_local :: "hy_state \<Rightarrow> tid \<Rightarrow> bool" where
  "h_local s i = (case h_pc s i of
     HInitNext \<Rightarrow> h_mlocked s (i, 0) = 0
   | HXchg \<Rightarrow> h_mlocked s (i, 0) = 0 \<and> h_next s (i, 0) = None
   | HHead nx \<Rightarrow> nx = None \<or> nx = h_next s (i, 0)
   | HServe _ nx \<Rightarrow> nx = None \<or> nx = h_next s (i, 0)
   | HReadVal _ nx \<Rightarrow> nx = None \<or> nx = h_next s (i, 0)
   | HDestroy _ val nx \<Rightarrow> (nx = None \<or> nx = h_next s (i, 0)) \<and> lo16 val = hy_code i
   | HHandoff _ n \<Rightarrow> h_next s (i, 0) = Some n
   | _ \<Rightarrow> True)"

definition h_thread_ok :: "hy_state \<Rightarrow> tid \<Rightarrow> bool" where
  "h_thread_ok s i \<longleftrightarrow> h_count s i = (if h_queueing (h_pc s i) then 1 else 0) \<and>
     (h_queueing (h_pc s i) \<longrightarrow> h_idx s i = 0) \<and> h_local s i"

text \<open>
  How long the line can get. In the plain lock at most 4 threads hold a ticket, and the head of the
  queue one more, which is then the last; the line shrinks to that head before it leaves the queue.
  With fast dequeueing 6 bounds both. The old variant does not bound it.
\<close>

definition h_room :: "hybrid \<Rightarrow> (tid \<Rightarrow> hy_pc) \<Rightarrow> tid list \<Rightarrow> bool" where
  "h_room v pc ts = (case v of
     Hybrid \<Rightarrow> (\<forall>i. h_headed (pc i) \<longrightarrow> last ts = i) \<and> length ts \<le> 5 \<and> ((\<forall>i. \<not> h_headed (pc i)) \<longrightarrow> length ts \<le> 4)
   | Fast_Dequeue \<Rightarrow> length ts \<le> 6 | Old_Fast_Dequeue \<Rightarrow> True)"

definition h_line :: "hybrid \<Rightarrow> hy_state \<Rightarrow> tid list \<Rightarrow> bool" where
  "h_line v s ts \<longleftrightarrow> line (h_serving s) (h_ticket s) (\<lambda>i. h_owner v (h_pc s i)) (\<lambda>i. h_tkt v (h_pc s i)) ts \<and>
     h_room v (h_pc s) ts \<and> (\<forall>i tmp. h_pc s i = HRel tmp \<longrightarrow> tmp = h_serving s)"

text \<open>Someone is behind the head that waits for its \<open>next\<close>.\<close>

definition h_behind :: "hy_state \<Rightarrow> bool" where
  "h_behind s \<longleftrightarrow> (\<forall>i t. h_pc s i = HWaitNext t \<longrightarrow> h_tail s \<noteq> hy_code i)"

definition h_inv :: "hybrid \<Rightarrow> nat \<Rightarrow> hy_state \<Rightarrow> bool" where
  "h_inv v N s \<longleftrightarrow> N \<le> 16383 \<and> (v = Old_Fast_Dequeue \<longrightarrow> N \<le> 256) \<and> (\<exists>q. h_queue s q) \<and> (\<exists>ts. h_line v s ts) \<and>
     (\<forall>i. h_thread_ok s i) \<and> h_behind s \<and> (\<forall>i\<ge>N. h_pc s i = HIdle)"

lemma h_inv_intro:
  assumes "h_inv v N s" "i < N" "h_pc s' = (h_pc s)(i := p)"
    and "h_queue s' q" "h_line v s' ts" "\<And>j. h_thread_ok s' j" "h_behind s'"
  shows "h_inv v N s'"
  using assms unfolding h_inv_def by auto

lemma h_inv_thread: "h_inv v N s \<Longrightarrow> h_thread_ok s i"
  and h_inv_behind: "h_inv v N s \<Longrightarrow> h_behind s"
  and h_inv_idx: "h_inv v N s \<Longrightarrow> h_queueing (h_pc s i) \<Longrightarrow> h_idx s i = 0 \<and> h_count s i = 1"
  by (simp_all add: h_inv_def h_thread_ok_def)

lemma h_inv_less: "h_inv v N s \<Longrightarrow> h_pc s i \<noteq> HIdle \<Longrightarrow> i < N"
  unfolding h_inv_def by (meson linorder_not_less)

lemma h_inv_16383: "h_inv v N s \<Longrightarrow> i < N \<Longrightarrow> i < 16383"
  by (simp add: h_inv_def)

section \<open>The queue\<close>

lemma h_nrole_upd: "h_pc s' = (h_pc s)(i := p) \<Longrightarrow> h_nrole s' = (h_nrole s)((i, 0) := h_role p)"
  by (auto simp: h_nrole_def fun_eq_iff)

lemma h_queue_same:
  assumes q: "h_queue s q" and pc: "h_pc s' = (h_pc s)(i := p)" and r: "h_role p = h_role (h_pc s i)"
    and t: "h_tail s' = h_tail s"
    and f: "\<And>n. h_nrole s n \<noteq> Out \<Longrightarrow> h_next s' n = h_next s n \<and> h_mlocked s' n = h_mlocked s n"
  shows "h_queue s' q"
proof -
  have "h_nrole s' = h_nrole s" using h_nrole_upd [OF pc] r by (auto simp: fun_eq_iff h_nrole_def)
  with mcs_outside [of "h_next s" "h_mlocked s" "h_nrole s" q "h_next s'" "h_mlocked s'"] q t f
  show ?thesis by (simp add: h_queue_def)
qed

lemma h_queue_thread:
  assumes "h_queue s q" "h_role (h_pc s i) \<noteq> Out"
  shows "(i, 0) \<in> set q"
  using assms mcs_queue_mem [of "h_next s" "h_mlocked s" "h_nrole s" q "(i, 0)"]
  by (simp add: h_queue_def h_nrole_def)

lemma h_queue_member:
  assumes "h_queue s q" "n \<in> set q"
  shows "snd n = 0" "h_role (h_pc s (fst n)) \<noteq> Out"
  using assms mcs_queue_mem [of "h_next s" "h_mlocked s" "h_nrole s" q n]
  by (auto simp: h_queue_def h_nrole_def split: if_splits)

lemma h_one_head:
  assumes q: "h_queue s q" and r: "h_role (h_pc s i) = Head" "h_role (h_pc s j) = Head"
  shows "i = j"
proof -
  have "mcs_queue (h_next s) (h_mlocked s) (h_nrole s) q" using q by (simp add: h_queue_def)
  from mcs_head_first [OF this, of "(i, 0)"] mcs_head_first [OF this, of "(j, 0)"] r
  show ?thesis by (auto simp: h_nrole_def)
qed

text \<open>The tail code decodes to the last node of the queue.\<close>

lemma h_decode_last:
  assumes inv: "h_inv v N s" and q: "h_queue s q" "q \<noteq> []"
  shows "hy_decode_tail (ucast (h_tail s)) = last q" "fst (last q) < 16383" "snd (last q) = 0"
proof -
  have m: "snd (last q) = 0" "h_role (h_pc s (fst (last q))) \<noteq> Out"
    using h_queue_member [OF q(1), of "last q"] q(2) by simp_all
  show "snd (last q) = 0" by (rule m(1))
  have "h_pc s (fst (last q)) \<noteq> HIdle" using m(2) by auto
  then show b: "fst (last q) < 16383" using h_inv_less [OF inv] h_inv_16383 [OF inv] by blast
  have "h_tail s = hy_code (fst (last q))" using q by (simp add: h_queue_def)
  then show "hy_decode_tail (ucast (h_tail s)) = last q"
    using hy_decode_code [OF b] m(1) by (metis prod.collapse)
qed

lemma h_queue_tail:
  assumes inv: "h_inv v N s" and q: "h_queue s q"
  shows "h_tail s = 0 \<longleftrightarrow> q = []"
proof (cases "q = []")
  case False
  with h_decode_last [OF inv q] hy_code_nz q show ?thesis by (simp add: h_queue_def)
qed (use q in \<open>simp add: h_queue_def\<close>)

lemma h_empty_tail:
  assumes inv: "h_inv v N s" and t: "h_tail s = 0"
  shows "\<not> h_headed (h_pc s j)"
proof -
  from inv obtain q where q: "h_queue s q" by (auto simp: h_inv_def)
  with h_queue_tail [OF inv q] t have "h_queue s []" by simp
  then have "h_role (h_pc s j) = Out" using h_queue_thread [of s "[]" j] by auto
  then show ?thesis using h_headed_Head by fastforce
qed

section \<open>The line\<close>

lemma h_line_mem: "h_line v s ts \<Longrightarrow> i \<in> set ts \<longleftrightarrow> h_owner v (h_pc s i) \<or> h_tkt v (h_pc s i) \<noteq> None"
  unfolding h_line_def using line_mem by fastforce

lemma h_line_same:
  assumes l: "h_line v s ts" and pc: "h_pc s' = (h_pc s)(i := p)" and w: "h_serving s' = h_serving s" "h_ticket s' = h_ticket s"
    and p: "h_owner v p = h_owner v (h_pc s i)" "h_tkt v p = h_tkt v (h_pc s i)"
    and h: "v = Hybrid \<Longrightarrow> h_headed p = h_headed (h_pc s i)" and r: "\<And>tmp. p = HRel tmp \<Longrightarrow> tmp = h_serving s"
  shows "h_line v s' ts"
proof -
  have "(\<lambda>j. h_owner v (h_pc s' j)) = (\<lambda>j. h_owner v (h_pc s j))" "(\<lambda>j. h_tkt v (h_pc s' j)) = (\<lambda>j. h_tkt v (h_pc s j))"
    unfolding pc fun_upd_pred p by (simp_all add: fun_upd_idem)
  moreover have "h_room v (h_pc s') ts"
  proof (cases "v = Hybrid")
    case True
    with h have "h_headed (h_pc s' j) = h_headed (h_pc s j)" for j by (simp add: pc)
    with l True show ?thesis by (simp add: h_line_def h_room_def)
  qed (use l in \<open>simp add: h_line_def h_room_def split: hybrid.splits\<close>)
  ultimately show ?thesis using l w r by (auto simp: h_line_def pc)
qed

lemma h_line_bound:
  assumes inv: "h_inv v N s" and l: "h_line v s ts" and i: "i < N" "i \<notin> set ts"
  shows "length ts < 256"
proof (cases v)
  case Old_Fast_Dequeue
  have "set ts \<subseteq> {..<N} - {i}"
  proof
    fix j assume j: "j \<in> set ts"
    then have "h_pc s j \<noteq> HIdle" using h_line_mem [OF l, of j] by (auto simp: h_pc_defs)
    with i j show "j \<in> {..<N} - {i}" using h_inv_less [OF inv] by auto
  qed
  then have "card (set ts) \<le> card ({..<N} - {i})" by (intro card_mono) auto
  moreover have "distinct ts" using l by (auto simp: h_line_def dest: line_distinct)
  moreover have "N \<le> 256" using inv Old_Fast_Dequeue by (simp add: h_inv_def)
  ultimately show ?thesis using i by (simp add: distinct_card)
qed (use l in \<open>auto simp: h_line_def h_room_def\<close>)

text \<open>The four things that happen to the line. Taking a ticket appends to it.\<close>

lemma h_line_take:
  assumes inv: "h_inv v N s" and l: "h_line v s ts" and i: "i < N" "i \<notin> set ts" and pc: "h_pc s' = (h_pc s)(i := p)"
    and w: "h_serving s' = h_serving s" "h_ticket s' = h_ticket s + 1"
    and p: "\<not> h_owner v p" "h_tkt v p = Some (h_ticket s)" and r: "h_room v (h_pc s') (ts @ [i])"
  shows "h_line v s' (ts @ [i])"
proof -
  have n: "\<not> h_owner v (h_pc s i)" "h_tkt v (h_pc s i) = None" using h_line_mem [OF l, of i] i(2) by auto
  have "length ts < 2 ^ LENGTH(8)" using h_line_bound [OF inv l i] by simp
  with l n have "line (h_serving s) (h_ticket s + 1) (\<lambda>j. h_owner v (h_pc s j))
      ((\<lambda>j. h_tkt v (h_pc s j))(i := Some (h_ticket s))) (ts @ [i])"
    by (intro line_take) (simp_all add: h_line_def)
  moreover have "p \<noteq> HRel tmp" for tmp using p(1) by (auto simp: h_owner_def)
  ultimately show ?thesis using l n(1) p r w unfolding h_line_def pc fun_upd_pred by (auto simp: fun_upd_idem)
qed

lemma h_line_take_now:
  assumes inv: "h_inv v N s" and l: "h_line v s ts" and i: "i < N" "i \<notin> set ts" and pc: "h_pc s' = (h_pc s)(i := HCS)"
    and e: "h_ticket s = h_serving s" and w: "h_serving s' = h_serving s" "h_ticket s' = h_ticket s + 1"
  shows "ts = []" "h_line v s' [i]"
proof -
  have n: "\<not> h_owner v (h_pc s i)" "h_tkt v (h_pc s i) = None" using h_line_mem [OF l, of i] i(2) by auto
  have li: "line (h_serving s) (h_ticket s) (\<lambda>j. h_owner v (h_pc s j)) (\<lambda>j. h_tkt v (h_pc s j)) ts"
    using l by (simp add: h_line_def)
  show ts: "ts = []" using h_line_bound [OF inv l i] e by (intro line_empty [OF li]) simp_all
  have c: "h_owner v HCS" "h_tkt v HCS = None" "\<not> h_headed HCS" by (simp_all add: h_pc_defs)
  have "line (h_serving s) (h_ticket s + 1) ((\<lambda>j. h_owner v (h_pc s j))(i := True)) (\<lambda>j. h_tkt v (h_pc s j)) [i]"
    by (rule line_take_now [OF li n ts])
  then have "line (h_serving s') (h_ticket s') (\<lambda>j. h_owner v (h_pc s' j)) (\<lambda>j. h_tkt v (h_pc s' j)) [i]"
    using n(2) c w unfolding pc fun_upd_pred by (simp add: fun_upd_idem)
  moreover have "\<not> h_headed (h_pc s' j)" for j
    using h_line_mem [OF l, of j] ts c(3) h_headed_line [of "h_pc s j" v] by (auto simp: pc)
  ultimately show "h_line v s' [i]" using l w by (auto simp: h_line_def h_room_def pc split: hybrid.split)
qed

text \<open>Being served makes the first member the owner.\<close>

lemma h_line_served:
  assumes l: "h_line v s ts" and i: "h_tkt v (h_pc s i) = Some (h_serving s)" and pc: "h_pc s' = (h_pc s)(i := p)"
    and w: "h_serving s' = h_serving s" "h_ticket s' = h_ticket s"
    and p: "h_owner v p" "h_tkt v p = None" "\<And>tmp. p \<noteq> HRel tmp" and h: "v = Hybrid \<Longrightarrow> h_headed p = h_headed (h_pc s i)"
  shows "h_line v s' ts"
proof -
  have "line (h_serving s) (h_ticket s) ((\<lambda>j. h_owner v (h_pc s j))(i := True)) ((\<lambda>j. h_tkt v (h_pc s j))(i := None)) ts"
    by (rule line_served) (use l i in \<open>simp_all add: h_line_def\<close>)
  then have "line (h_serving s') (h_ticket s') (\<lambda>j. h_owner v (h_pc s' j)) (\<lambda>j. h_tkt v (h_pc s' j)) ts"
    using p w unfolding pc fun_upd_pred by simp
  moreover have "h_room v (h_pc s') ts"
  proof (cases "v = Hybrid")
    case True
    with h have "h_headed (h_pc s' j) = h_headed (h_pc s j)" for j by (simp add: pc)
    with l True show ?thesis by (simp add: h_line_def h_room_def)
  qed (use l in \<open>simp add: h_line_def h_room_def split: hybrid.splits\<close>)
  ultimately show ?thesis using l w p(3) by (auto simp: h_line_def pc)
qed

text \<open>The owner that leaves the queue of the plain lock is alone in the line.\<close>

lemma h_line_leave:
  assumes l: "h_line Hybrid s ts" and i: "h_headed (h_pc s i)" "h_owner Hybrid (h_pc s i)"
    and one: "\<And>j. h_headed (h_pc s j) \<Longrightarrow> j = i" and pc: "h_pc s' = (h_pc s)(i := HCS)"
    and w: "h_serving s' = h_serving s" "h_ticket s' = h_ticket s"
  shows "h_line Hybrid s' ts"
proof -
  have li: "line (h_serving s) (h_ticket s) (\<lambda>j. h_owner Hybrid (h_pc s j)) (\<lambda>j. h_tkt Hybrid (h_pc s j)) ts"
    using l by (simp add: h_line_def)
  from line_first [OF li, of i] i obtain ts' where e: "ts = i # ts'" by auto
  have "last ts = i" using l i by (simp add: h_line_def h_room_def)
  with e line_distinct [OF li] have "ts' = []" by (cases ts') (auto split: if_splits)
  with e have "length ts = 1" by simp
  moreover have "\<not> h_headed (h_pc s' j)" for j using one [of j] by (auto simp: pc h_headed_def [of HCS])
  ultimately have "h_room Hybrid (h_pc s') ts" by (simp add: h_room_def)
  moreover have "h_tkt Hybrid (h_pc s i) = None" using i by (auto simp: h_pc_defs split: hy_pc.splits)
  then have "(\<lambda>j. h_owner Hybrid (h_pc s' j)) = (\<lambda>j. h_owner Hybrid (h_pc s j))"
    "(\<lambda>j. h_tkt Hybrid (h_pc s' j)) = (\<lambda>j. h_tkt Hybrid (h_pc s j))"
    using i unfolding pc fun_upd_pred by (simp_all add: fun_upd_idem h_owner_def [of _ HCS] h_tkt_def [of _ HCS])
  ultimately show ?thesis using l w by (auto simp: h_line_def pc)
qed

lemma h_line_release:
  assumes l: "h_line v s ts" and i: "h_pc s i = HRel tmp" and pc: "h_pc s' = (h_pc s)(i := HIdle)"
    and w: "h_serving s' = tmp + 1" "h_ticket s' = h_ticket s"
  shows "\<exists>ts'. ts = i # ts' \<and> h_line v s' ts'"
proof -
  have tmp: "tmp = h_serving s" using l i by (auto simp: h_line_def)
  have o: "h_owner v (h_pc s i)" "h_tkt v (h_pc s i) = None" using i by (simp_all add: h_pc_defs)
  have li: "line (h_serving s) (h_ticket s) (\<lambda>j. h_owner v (h_pc s j)) (\<lambda>j. h_tkt v (h_pc s j)) ts"
    using l by (simp add: h_line_def)
  from line_release [OF li, of i] o obtain ts' where ts': "ts = i # ts'"
    "line (h_serving s + 1) (h_ticket s) ((\<lambda>j. h_owner v (h_pc s j))(i := False)) (\<lambda>j. h_tkt v (h_pc s j)) ts'" by auto
  have c: "\<not> h_owner v HIdle" "h_tkt v HIdle = None" "\<not> h_headed HIdle" by (simp_all add: h_pc_defs)
  have "line (h_serving s') (h_ticket s') (\<lambda>j. h_owner v (h_pc s' j)) (\<lambda>j. h_tkt v (h_pc s' j)) ts'"
    using ts'(2) o(2) c w tmp unfolding pc fun_upd_pred by (simp add: fun_upd_idem)
  moreover have "h_room v (h_pc s') ts'"
  proof (cases v)
    case Hybrid
    have h: "h_headed (h_pc s' j) \<Longrightarrow> j \<noteq> i \<and> h_headed (h_pc s j)" for j using c(3) by (auto simp: pc split: if_splits)
    have "last ts' = j" if "h_headed (h_pc s' j)" for j
    proof -
      have "last ts = j" "j \<noteq> i" using l h [OF that] Hybrid by (simp_all add: h_line_def h_room_def)
      with ts'(1) show ?thesis by (simp split: if_splits)
    qed
    moreover have "length ts' \<le> 4" using l ts'(1) Hybrid by (simp add: h_line_def h_room_def)
    ultimately show ?thesis using Hybrid by (simp add: h_room_def)
  qed (use l ts'(1) in \<open>auto simp: h_line_def h_room_def\<close>)
  moreover have "h_pc s' j \<noteq> HRel x" for j x
  proof
    assume j: "h_pc s' j = HRel x"
    then have "j \<noteq> i" "h_owner v (h_pc s j)" by (auto simp: pc h_owner_def split: if_splits)
    with o line_one_owner [OF li] show False by blast
  qed
  ultimately show ?thesis using ts'(1) by (auto simp: h_line_def)
qed

section \<open>Steps that leave the queue alone\<close>

lemma h_thread_same:
  assumes "h_thread_ok s j" "h_pc s' j = h_pc s j" "h_count s' j = h_count s j" "h_idx s' j = h_idx s j"
    "h_next s' (j, 0) = h_next s (j, 0)" "h_mlocked s' (j, 0) = h_mlocked s (j, 0)"
  shows "h_thread_ok s' j"
  using assms by (cases "h_pc s j") (simp_all add: h_thread_ok_def h_local_def)

lemma h_others:
  assumes "h_inv v N s" "h_pc s' = (h_pc s)(i := p)" "j \<noteq> i" "h_count s' j = h_count s j" "h_idx s' j = h_idx s j"
    "h_next s' (j, 0) = h_next s (j, 0)" "h_mlocked s' (j, 0) = h_mlocked s (j, 0)"
  shows "h_thread_ok s' j"
  by (rule h_thread_same [OF h_inv_thread [OF assms(1)]]) (use assms in simp_all)

definition h_frame :: "tid \<Rightarrow> hy_state \<Rightarrow> hy_state \<Rightarrow> bool" where
  "h_frame i s s' \<longleftrightarrow> h_pc s' = (h_pc s)(i := h_pc s' i) \<and> h_role (h_pc s' i) = h_role (h_pc s i) \<and> h_tail s' = h_tail s \<and>
     (\<forall>n. n \<noteq> (i, 0) \<or> h_role (h_pc s i) \<noteq> Out \<longrightarrow> h_next s' n = h_next s n \<and> h_mlocked s' n = h_mlocked s n) \<and>
     (\<forall>j. j \<noteq> i \<longrightarrow> h_count s' j = h_count s j \<and> h_idx s' j = h_idx s j)"

lemma h_frame_pc: "h_frame i s s' \<Longrightarrow> h_pc s' = (h_pc s)(i := h_pc s' i)"
  by (simp add: h_frame_def)

lemma h_frame_queue:
  assumes f: "h_frame i s s'" and q: "h_queue s q"
  shows "h_queue s' q"
proof (rule h_queue_same [OF q h_frame_pc [OF f]])
  show "h_next s' n = h_next s n \<and> h_mlocked s' n = h_mlocked s n" if "h_nrole s n \<noteq> Out" for n
  proof -
    have "n \<noteq> (i, 0) \<or> h_role (h_pc s i) \<noteq> Out" using that by (auto simp: h_nrole_def)
    with f show ?thesis unfolding h_frame_def by blast
  qed
qed (use f in \<open>simp_all add: h_frame_def\<close>)

lemma h_keep:
  assumes inv: "h_inv v N s" "i < N" and f: "h_frame i s s'" and i: "h_thread_ok s' i" and l: "h_line v s' ts"
    and b: "\<And>t. h_pc s' i = HWaitNext t \<Longrightarrow> h_tail s \<noteq> hy_code i"
  shows "h_inv v N s'"
proof -
  from inv(1) obtain q where q: "h_queue s q" by (auto simp: h_inv_def)
  have "h_thread_ok s' j" for j
  proof (cases "j = i")
    case False
    with f show ?thesis by (intro h_others [OF inv(1) h_frame_pc [OF f]]) (auto simp: h_frame_def)
  qed (simp add: i)
  moreover have "h_tail s' \<noteq> hy_code j" if "h_pc s' j = HWaitNext t" for j t
  proof (cases "j = i")
    case False
    then have "h_pc s j = HWaitNext t" using that h_frame_pc [OF f] by (metis fun_upd_other)
    with h_inv_behind [OF inv(1)] f show ?thesis by (simp add: h_behind_def h_frame_def)
  qed (use b that f in \<open>simp add: h_frame_def\<close>)
  ultimately show ?thesis using h_inv_intro [OF inv h_frame_pc [OF f] h_frame_queue [OF f q] l] by (simp add: h_behind_def)
qed

text \<open>Entering the slow path.\<close>

lemma h_enter_frame: "h_role (h_pc s i) = Out \<Longrightarrow> h_frame i s (hy_enter i s)"
  "h_role (h_pc s i) = Out \<Longrightarrow> h_frame i s (hy_enter i (hy_set_depth i d s))"
  by (simp_all add: hy_enter_def hy_set_depth_def h_frame_def h_role_def)

lemma h_enter_inv:
  assumes inv: "h_inv v N s" "i < N" and p: "h_pc s i = HIdle \<or> h_pc s i = HTicket" and l: "h_line v s ts"
    and e: "s' = hy_enter i s \<or> s' = hy_enter i (hy_set_depth i d s)"
  shows "h_inv v N s'" "h_line v s' ts"
proof -
  have c: "h_count s i = 0" using h_inv_thread [OF inv(1), of i] p by (auto simp: h_thread_ok_def h_queueing_def)
  have pc: "h_pc s' = (h_pc s)(i := HInitLocked)" and f: "h_frame i s s'"
    and w: "h_serving s' = h_serving s" "h_ticket s' = h_ticket s"
    using e p h_enter_frame [of s i] by (auto simp: hy_enter_def hy_set_depth_def h_role_def)
  show l': "h_line v s' ts" by (rule h_line_same [OF l pc w]) (use p in \<open>auto simp: h_pc_defs\<close>)
  have "h_thread_ok s' i"
    using e c by (auto simp: hy_enter_def hy_set_depth_def h_thread_ok_def h_queueing_def h_local_def)
  then show "h_inv v N s'" using pc by (intro h_keep [OF inv f _ l']) simp_all
qed

section \<open>The ticket path\<close>

lemma h_not_in_line: "h_line v s ts \<Longrightarrow> \<not> h_owner v (h_pc s i) \<Longrightarrow> h_tkt v (h_pc s i) = None \<Longrightarrow> i \<notin> set ts"
  using h_line_mem by blast

lemma hy_lock_acquire_step:
  assumes inv: "h_inv v N s" "i < N" and p: "h_pc s i = HIdle" and l: "h_line v s ts"
  shows "h_inv v N (hy_lock_acquire v i s)"
    and "if hy_equal (h_val s) then ts = [] \<and> h_line v (hy_lock_acquire v i s) [i] else h_line v (hy_lock_acquire v i s) ts"
proof -
  have out: "i \<notin> set ts" by (rule h_not_in_line [OF l]) (use p in \<open>simp_all add: h_pc_defs\<close>)
  let ?s = "hy_lock_acquire v i s"
  have "h_inv v N ?s \<and> (if hy_equal (h_val s) then ts = [] \<and> h_line v ?s [i] else h_line v ?s ts)"
  proof (cases "hy_equal (h_val s)")
    case True
    then have e: "?s = s\<lparr>h_ticket := h_ticket s + 1, h_depth := (h_depth s)(i := 0), h_pc := (h_pc s)(i := HCS)\<rparr>"
      by (simp add: hy_lock_acquire_def Let_def h_take hy_set_depth_def)
    have q: "h_ticket s = h_serving s" using True by (simp add: hy_fast_iff)
    have "ts = []" "h_line v ?s [i]" using h_line_take_now [OF inv(1) l inv(2) out _ q, of ?s] by (simp_all add: e)
    moreover have "h_frame i s ?s" using p by (simp add: e h_frame_def h_role_def)
    then have "h_inv v N ?s" using h_inv_thread [OF inv(1), of i] p
      by (intro h_keep [OF inv _ _ \<open>h_line v ?s [i]\<close>]) (simp_all add: e h_thread_ok_def h_queueing_def h_local_def)
    ultimately show ?thesis using True by simp
  next
    case False
    show ?thesis
    proof (cases "hy_enqueue v (h_val s)")
      case True
      with False h_enter_inv [OF inv _ l, of ?s] p show ?thesis by (auto simp: hy_lock_acquire_def Let_def)
    next
      case nq: False
      let ?d = "case v of Old_Fast_Dequeue \<Rightarrow> (drop_bit 24 (h_val s) - drop_bit 16 (h_val s)) AND 0xFF | _ \<Rightarrow> 0"
      have e: "?s = s\<lparr>h_depth := (h_depth s)(i := ?d), h_pc := (h_pc s)(i := HTicket)\<rparr>"
        using False nq by (simp add: hy_lock_acquire_def Let_def hy_set_depth_def)
      have ll: "h_line v ?s ts" by (rule h_line_same [OF l, of _ i HTicket]) (use p in \<open>simp_all add: e h_pc_defs\<close>)
      moreover have "h_frame i s ?s" using p by (simp add: e h_frame_def h_role_def)
      then have "h_inv v N ?s" using h_inv_thread [OF inv(1), of i] p
        by (intro h_keep [OF inv _ _ ll]) (simp_all add: e h_thread_ok_def h_queueing_def h_local_def)
      ultimately show ?thesis using False by simp
    qed
  qed
  then show "h_inv v N ?s"
    "if hy_equal (h_val s) then ts = [] \<and> h_line v ?s [i] else h_line v ?s ts" by simp_all
qed

text \<open>With an empty tail and a line below the threshold there is room for one more.\<close>

lemma h_room_ticket:
  assumes inv: "h_inv v N s" and l: "h_line v s ts" and t: "\<not> hy_enqueue v (h_val s)" and p: "\<not> h_headed p"
  shows "h_room v ((h_pc s)(i := p)) (ts @ [i])"
proof -
  have t: "h_tail s = 0" "h_ticket s - hy_thr v \<noteq> h_serving s" using t by (simp_all add: hy_enqueue_iff)
  have nh: "\<not> h_headed (h_pc s j)" for j by (rule h_empty_tail [OF inv t(1)])
  have d: "h_ticket s - h_serving s = of_nat (length ts)" using l by (auto simp: h_line_def dest: line_depth)
  show ?thesis
  proof (cases v)
    case Hybrid
    have "length ts \<noteq> 4"
    proof
      assume "length ts = 4"
      with d have "h_ticket s - h_serving s = 4" by simp
      then have "h_ticket s = h_serving s + 4" by (simp add: algebra_simps)
      then show False using t(2) Hybrid by (simp add: hy_thr_def hy_threshold_def)
    qed
    with l nh p Hybrid show ?thesis by (auto simp: h_line_def h_room_def)
  next
    case Fast_Dequeue
    have "length ts \<noteq> 6"
    proof
      assume "length ts = 6"
      with d have "h_ticket s - h_serving s = 6" by simp
      then have "h_ticket s = h_serving s + 6" by (simp add: algebra_simps)
      then show False using t(2) Fast_Dequeue by (simp add: hy_thr_def hy_threshold_def)
    qed
    with l Fast_Dequeue show ?thesis by (auto simp: h_line_def h_room_def)
  qed (simp add: h_room_def)
qed

lemma hy_take_ticket_step:
  assumes inv: "h_inv v N s" "i < N" and p: "h_pc s i = HTicket" and l: "h_line v s ts"
  shows "h_inv v N (hy_take_ticket v i s)"
    and "h_line v (hy_take_ticket v i s) (if hy_enqueue v (h_val s) then ts else ts @ [i])"
proof -
  let ?s = "hy_take_ticket v i s"
  have "h_inv v N ?s \<and> h_line v ?s (if hy_enqueue v (h_val s) then ts else ts @ [i])"
  proof (cases "hy_enqueue v (h_val s)")
    case True
    with h_enter_inv [OF inv _ l, of ?s] p show ?thesis by (simp add: hy_take_ticket_def Let_def)
  next
    case False
    let ?d = "case v of Old_Fast_Dequeue \<Rightarrow> 0 | _ \<Rightarrow> ticket_depth (h_val s)"
    have e: "?s = s\<lparr>h_ticket := h_ticket s + 1, h_depth := (h_depth s)(i := ?d), h_pc := (h_pc s)(i := HSpin (h_val s))\<rparr>"
      using False by (simp add: hy_take_ticket_def Let_def hy_set_depth_def h_take)
    have out: "i \<notin> set ts" by (rule h_not_in_line [OF l]) (use p in \<open>simp_all add: h_pc_defs\<close>)
    have "h_room v (h_pc ?s) (ts @ [i])" unfolding e using h_room_ticket [OF inv(1) l False, of "HSpin (h_val s)"]
      by (simp add: h_headed_def)
    then have ll: "h_line v ?s (ts @ [i])"
      by (intro h_line_take [OF inv(1) l inv(2) out, where p = "HSpin (h_val s)"]) (simp_all add: e h_owner_def h_tkt_def)
    have "h_frame i s ?s" using p by (simp add: e h_frame_def h_role_def)
    then have "h_inv v N ?s" using h_inv_thread [OF inv(1), of i] p
      by (intro h_keep [OF inv _ _ ll]) (simp_all add: e h_thread_ok_def h_queueing_def h_local_def)
    with ll False show ?thesis by simp
  qed
  then show "h_inv v N ?s" "h_line v ?s (if hy_enqueue v (h_val s) then ts else ts @ [i])" by simp_all
qed

lemma hy_spin_step:
  assumes inv: "h_inv v N s" "i < N" and p: "h_pc s i = HSpin t" and l: "h_line v s ts"
  shows "h_inv v N (hy_spin i t s)" and "h_line v (hy_spin i t s) ts"
proof -
  have ll: "h_line v (h_goto i HCS s) ts" if "hy_my_turn t (h_serving s)"
    by (rule h_line_served [OF l, of i _ HCS]) (use p that in \<open>simp_all add: h_pc_defs hy_my_turn_iff\<close>)
  then show "h_line v (hy_spin i t s) ts" using l by (simp add: hy_spin_def)
  have "h_frame i s (h_goto i HCS s)" using p by (simp add: h_frame_def h_role_def)
  then have "h_inv v N (h_goto i HCS s)" if "hy_my_turn t (h_serving s)"
    using h_inv_thread [OF inv(1), of i] p
    by (intro h_keep [OF inv _ _ ll [OF that]]) (simp_all add: h_thread_ok_def h_queueing_def h_local_def)
  then show "h_inv v N (hy_spin i t s)" using inv by (simp add: hy_spin_def)
qed

lemma hy_lock_release_step:
  assumes inv: "h_inv v N s" "i < N" and p: "h_pc s i = HCS" and l: "h_line v s ts"
  shows "h_inv v N (hy_lock_release i s)" and "h_line v (hy_lock_release i s) ts"
proof -
  let ?s = "hy_lock_release i s"
  show ll: "h_line v ?s ts"
    by (rule h_line_same [OF l, of _ i "HRel (h_serving s)"]) (use p in \<open>simp_all add: hy_lock_release_def h_pc_defs\<close>)
  have "h_frame i s ?s" using p by (simp add: hy_lock_release_def h_frame_def h_role_def)
  then show "h_inv v N ?s" using h_inv_thread [OF inv(1), of i] p
    by (intro h_keep [OF inv _ _ ll]) (simp_all add: hy_lock_release_def h_thread_ok_def h_queueing_def h_local_def)
qed

lemma hy_release_store_step:
  assumes inv: "h_inv v N s" "i < N" and p: "h_pc s i = HRel tmp" and l: "h_line v s ts"
  shows "h_inv v N (hy_release_store i tmp s)" and "\<exists>ts'. ts = i # ts' \<and> h_line v (hy_release_store i tmp s) ts'"
proof -
  let ?s = "hy_release_store i tmp s"
  show r: "\<exists>ts'. ts = i # ts' \<and> h_line v ?s ts'"
    by (rule h_line_release [OF l p]) (simp_all add: hy_release_store_def)
  then obtain ts' where ll: "h_line v ?s ts'" by blast
  have "h_frame i s ?s" using p by (simp add: hy_release_store_def h_frame_def h_role_def)
  then show "h_inv v N ?s" using h_inv_thread [OF inv(1), of i] p
    by (intro h_keep [OF inv _ _ ll]) (simp_all add: hy_release_store_def h_thread_ok_def h_queueing_def h_local_def)
qed

section \<open>The queue path\<close>

lemma hy_prepare_step:
  assumes inv: "h_inv v N s" "i < N" and l: "h_line v s ts"
  shows "h_pc s i = HInitLocked \<Longrightarrow> h_inv v N (hy_init_locked i s) \<and> h_line v (hy_init_locked i s) ts"
    and "h_pc s i = HInitNext \<Longrightarrow> h_inv v N (hy_init_next i s) \<and> h_line v (hy_init_next i s) ts"
    and "h_pc s i = HReadNext \<Longrightarrow> h_inv v N (hy_read_next i s) \<and> h_line v (hy_read_next i s) ts"
proof -
  note th = h_inv_thread [OF inv(1), of i]
  show "h_inv v N (hy_init_locked i s) \<and> h_line v (hy_init_locked i s) ts" if p: "h_pc s i = HInitLocked"
  proof -
    have ll: "h_line v (hy_init_locked i s) ts"
      by (rule h_line_same [OF l, of _ i HInitNext]) (use p in \<open>simp_all add: hy_init_locked_def h_pc_defs\<close>)
    have "h_frame i s (hy_init_locked i s)"
      using p th by (auto simp: hy_init_locked_def h_frame_def h_role_def h_thread_ok_def h_queueing_def)
    from h_keep [OF inv this _ ll] ll th p show ?thesis
      by (simp add: hy_init_locked_def h_thread_ok_def h_queueing_def h_local_def)
  qed
  show "h_inv v N (hy_init_next i s) \<and> h_line v (hy_init_next i s) ts" if p: "h_pc s i = HInitNext"
  proof -
    have ll: "h_line v (hy_init_next i s) ts"
      by (rule h_line_same [OF l, of _ i HXchg]) (use p in \<open>simp_all add: hy_init_next_def h_pc_defs\<close>)
    have "h_frame i s (hy_init_next i s)"
      using p th by (auto simp: hy_init_next_def h_frame_def h_role_def h_thread_ok_def h_queueing_def)
    from h_keep [OF inv this _ ll] ll th p show ?thesis
      by (simp add: hy_init_next_def h_thread_ok_def h_queueing_def h_local_def)
  qed
  show "h_inv v N (hy_read_next i s) \<and> h_line v (hy_read_next i s) ts" if p: "h_pc s i = HReadNext"
  proof -
    have ll: "h_line v (hy_read_next i s) ts"
      by (rule h_line_same [OF l, of _ i "HHead (h_next s (h_node s i))"]) (use p in \<open>simp_all add: hy_read_next_def h_pc_defs\<close>)
    have "h_frame i s (hy_read_next i s)" using p by (simp add: hy_read_next_def h_frame_def h_role_def)
    from h_keep [OF inv this _ ll] ll th p show ?thesis
      by (simp add: hy_read_next_def h_thread_ok_def h_queueing_def h_local_def)
  qed
qed

lemma hy_xchg_eq:
  "i < 16383 \<Longrightarrow> h_idx s i = 0 \<Longrightarrow> hy_xchg i s = (s\<lparr>h_tail := hy_code i,
     h_pc := (h_pc s)(i := if h_tail s \<noteq> 0 then HLink (hy_decode_tail (ucast (h_tail s))) else HHead None)\<rparr>)"
  unfolding hy_xchg_def hy_xchg_tail_def using ucast16_eq_iff [of "h_tail s" 0] by (simp add: hy_code_low hy_mask_code)

lemma hy_xchg_queue:
  assumes inv: "h_inv v N s" "i < N" and p: "h_pc s i = HXchg" and q: "h_queue s q"
  shows "h_queue (hy_xchg i s) (q @ [(i, 0)])"
proof -
  have th: "h_idx s i = 0" "h_mlocked s (i, 0) = 0" "h_next s (i, 0) = None"
    using h_inv_thread [OF inv(1), of i] p by (simp_all add: h_thread_ok_def h_local_def h_queueing_def)
  note e = hy_xchg_eq [OF h_inv_16383 [OF inv] th(1)]
  have m: "mcs_queue (h_next s) (h_mlocked s) ((h_nrole s)((i, 0) := if q = [] then Head else Linking (last q))) (q @ [(i, 0)])"
    by (rule mcs_enqueue) (use q p th in \<open>simp_all add: h_queue_def h_nrole_def h_role_def\<close>)
  have "h_nrole (hy_xchg i s) = (h_nrole s)((i, 0) := if q = [] then Head else Linking (last q))"
    using h_decode_last [OF inv(1) q] h_queue_tail [OF inv(1) q]
    by (auto simp: e fun_eq_iff h_nrole_def h_role_def)
  with m show ?thesis by (simp add: h_queue_def e)
qed

lemma hy_xchg_step:
  assumes inv: "h_inv v N s" "i < N" and p: "h_pc s i = HXchg" and l: "h_line v s ts"
  shows "h_inv v N (hy_xchg i s)" and "h_line v (hy_xchg i s) ts"
proof -
  from inv(1) obtain q where q: "h_queue s q" by (auto simp: h_inv_def)
  have th: "h_idx s i = 0" "h_count s i = 1" using h_inv_idx [OF inv(1), of i] p by (simp_all add: h_queueing_def)
  have b: "i < 16383" by (rule h_inv_16383 [OF inv])
  note e = hy_xchg_eq [OF b th(1)]
  let ?p = "if h_tail s \<noteq> 0 then HLink (hy_decode_tail (ucast (h_tail s))) else HHead None"
  show ll: "h_line v (hy_xchg i s) ts"
    by (rule h_line_same [OF l, of _ i ?p]) (use p in \<open>auto simp: e h_pc_defs split: if_splits\<close>)
  have "h_behind (hy_xchg i s)"
    unfolding h_behind_def
  proof (intro allI impI)
    fix j t assume j: "h_pc (hy_xchg i s) j = HWaitNext t"
    then have "j \<noteq> i" "h_pc s j = HWaitNext t" by (auto simp: e split: if_splits)
    moreover from this have "j < 16383" using h_inv_less [OF inv(1), of j] h_inv_16383 [OF inv(1), of j] by simp
    ultimately show "h_tail (hy_xchg i s) \<noteq> hy_code j" using hy_code_inj [OF b, of j] by (auto simp: e)
  qed
  moreover have "h_thread_ok (hy_xchg i s) j" for j
    using th h_others [OF inv(1), of "hy_xchg i s" i ?p j]
    by (cases "j = i") (auto simp: e h_thread_ok_def h_local_def h_queueing_def)
  ultimately show "h_inv v N (hy_xchg i s)"
    by (intro h_inv_intro [OF inv, where p = ?p, OF _ hy_xchg_queue [OF inv p q] ll]) (simp_all add: e)
qed

lemma h_local_link:
  assumes "h_local s a" "h_next s (a, 0) = None" "h_role (h_pc s a) \<noteq> Out"
    and "h_pc s' a = h_pc s a" "h_mlocked s' (a, 0) = h_mlocked s (a, 0)"
  shows "h_local s' a"
  using assms by (cases "h_pc s a") (auto simp: h_local_def h_role_def)

lemma h_behind_same:
  assumes "h_inv v N s" "h_pc s' = (h_pc s)(i := p)" "\<And>t. p \<noteq> HWaitNext t" "h_tail s' = h_tail s"
  shows "h_behind s'"
  using assms h_inv_behind [OF assms(1)] by (auto simp: h_behind_def)

lemma hy_link_step:
  assumes inv: "h_inv v N s" "i < N" and p: "h_pc s i = HLink prev" and l: "h_line v s ts"
  shows "h_inv v N (hy_link i prev s)" and "h_line v (hy_link i prev s) ts"
proof -
  from inv(1) obtain q where q: "h_queue s q" by (auto simp: h_inv_def)
  have th: "h_idx s i = 0" "h_count s i = 1" using h_inv_idx [OF inv(1), of i] p by (simp_all add: h_queueing_def)
  have r: "h_nrole s (i, 0) = Linking prev" using p by (simp add: h_nrole_def h_role_def)
  have mq: "mcs_queue (h_next s) (h_mlocked s) (h_nrole s) q" using q by (simp add: h_queue_def)
  note m = mcs_link [OF mq r]
  have pr: "snd prev = 0" "h_role (h_pc s (fst prev)) \<noteq> Out" using h_queue_member [OF q m(2)] by simp_all
  let ?s = "hy_link i prev s"
  have e: "h_pc ?s = (h_pc s)(i := HWait)" by (simp add: hy_link_def)
  show ll: "h_line v ?s ts"
    by (rule h_line_same [OF l e]) (use p in \<open>simp_all add: hy_link_def h_pc_defs\<close>)
  have "h_queue ?s q"
    using m(1) q h_nrole_upd [OF e] th by (simp add: h_queue_def hy_link_def h_role_def)
  moreover have "h_thread_ok ?s j" for j
  proof -
    consider "j = i" | "j \<noteq> i" "(j, 0) = prev" | "j \<noteq> i" "(j, 0) \<noteq> prev" by blast
    then show ?thesis
    proof cases
      case 1
      with th show ?thesis by (simp add: h_thread_ok_def hy_link_def h_local_def h_queueing_def)
    next
      case 2
      have "h_local ?s j"
        by (rule h_local_link [where s = s])
          (use 2 pr m(4) h_inv_thread [OF inv(1), of j] in \<open>auto simp: h_thread_ok_def hy_link_def\<close>)
      with 2 h_inv_thread [OF inv(1), of j] show ?thesis by (simp add: h_thread_ok_def hy_link_def)
    next
      case 3
      then show ?thesis by (intro h_others [OF inv(1) e]) (auto simp: hy_link_def)
    qed
  qed
  moreover have "h_behind ?s" by (rule h_behind_same [OF inv(1) e]) (simp_all add: hy_link_def)
  ultimately show "h_inv v N ?s" by (intro h_inv_intro [OF inv e _ ll])
qed

lemma hy_wait_step:
  assumes inv: "h_inv v N s" "i < N" and p: "h_pc s i = HWait" and l: "h_line v s ts"
  shows "h_inv v N (hy_wait i s)" and "h_line v (hy_wait i s) ts"
proof -
  have "h_inv v N (hy_wait i s) \<and> h_line v (hy_wait i s) ts"
  proof (cases "h_mlocked s (h_node s i) = 0")
    case False
    from inv(1) obtain q where q: "h_queue s q" by (auto simp: h_inv_def)
    have th: "h_idx s i = 0" "h_count s i = 1" using h_inv_idx [OF inv(1), of i] p by (simp_all add: h_queueing_def)
    let ?s = "h_goto i HReadNext s"
    have e: "h_pc ?s = (h_pc s)(i := HReadNext)" by simp
    have "mcs_queue (h_next s) (h_mlocked s) ((h_nrole s)((i, 0) := Head)) q"
      by (rule mcs_granted) (use q p False th in \<open>simp_all add: h_queue_def h_nrole_def h_role_def\<close>)
    then have "h_queue ?s q" using q h_nrole_upd [OF e] by (simp add: h_queue_def h_role_def)
    moreover have ll: "h_line v ?s ts" by (rule h_line_same [OF l e]) (use p in \<open>simp_all add: h_pc_defs\<close>)
    moreover have "h_thread_ok ?s j" for j
      using th h_others [OF inv(1) e, of j] by (cases "j = i") (auto simp: h_thread_ok_def h_local_def h_queueing_def)
    moreover have "h_behind ?s" by (rule h_behind_same [OF inv(1) e]) simp_all
    ultimately have "h_inv v N ?s" by (intro h_inv_intro [OF inv e])
    with ll False show ?thesis by (simp add: hy_wait_def)
  qed (use inv l in \<open>simp add: hy_wait_def\<close>)
  then show "h_inv v N (hy_wait i s)" "h_line v (hy_wait i s) ts" by simp_all
qed

section \<open>The head of the queue\<close>

text \<open>The head finds room in the line: 4 at most are before it, or 3 when it waits for that.\<close>

lemma h_room_head:
  assumes inv: "h_inv v N s" and l: "h_line v s ts" and i: "h_pc s i = HHead nx" and st: "\<not> hy_stay v (h_val s)"
    and p: "v = Hybrid \<Longrightarrow> h_headed p"
  shows "h_room v ((h_pc s)(i := p)) (ts @ [i])"
proof (cases v)
  case Hybrid
  from inv obtain q where q: "h_queue s q" by (auto simp: h_inv_def)
  have nh: "\<not> h_headed (h_pc s j)" for j
  proof
    assume j: "h_headed (h_pc s j)"
    then have "h_role (h_pc s j) = Head" by (rule h_headed_Head)
    moreover have "h_role (h_pc s i) = Head" using i by (simp add: h_role_def)
    ultimately have "j = i" by (rule h_one_head [OF q])
    with i j show False by (simp add: h_headed_def)
  qed
  with l Hybrid p show ?thesis by (auto simp: h_line_def h_room_def)
next
  case Fast_Dequeue
  have d: "h_ticket s - h_serving s = of_nat (length ts)" and n: "length ts \<le> 6"
    using l Fast_Dequeue by (auto simp: h_line_def h_room_def dest: line_depth)
  have "\<not> (length ts = 4 \<or> length ts = 5 \<or> length ts = 6)"
  proof
    assume "length ts = 4 \<or> length ts = 5 \<or> length ts = 6"
    with d have "h_ticket s - h_serving s = 4 \<or> h_ticket s - h_serving s = 5 \<or> h_ticket s - h_serving s = 6" by auto
    with hy_stay_fast(1) st Fast_Dequeue show False by simp
  qed
  with n Fast_Dequeue show ?thesis by (auto simp: h_room_def)
qed (simp add: h_room_def)

lemma hy_head_step:
  assumes inv: "h_inv v N s" "i < N" and p: "h_pc s i = HHead nx" and l: "h_line v s ts"
  shows "h_inv v N (hy_head v i nx s)"
    and "h_line v (hy_head v i nx s) (if hy_stay v (h_val s) then ts else ts @ [i])"
proof -
  let ?s = "hy_head v i nx s"
  have "h_inv v N ?s \<and> h_line v ?s (if hy_stay v (h_val s) then ts else ts @ [i])"
  proof (cases "hy_stay v (h_val s)")
    case True
    with inv l show ?thesis by (simp add: hy_head_def)
  next
    case False
    let ?p = "if v = Hybrid then HServe (h_val s) nx else HReadVal (h_val s) nx"
    have pc: "h_pc ?s = (h_pc s)(i := ?p)" and w: "h_serving ?s = h_serving s" "h_ticket ?s = h_ticket s + 1"
      and f: "h_frame i s ?s"
      using False p by (cases v; simp add: hy_head_def Let_def h_take hy_set_depth_def h_frame_def h_role_def)+
    have out: "i \<notin> set ts" by (rule h_not_in_line [OF l]) (use p in \<open>simp_all add: h_pc_defs\<close>)
    have "h_room v (h_pc ?s) (ts @ [i])" unfolding pc by (rule h_room_head [OF inv(1) l p False]) (simp add: h_headed_def)
    then have ll: "h_line v ?s (ts @ [i])"
      by (intro h_line_take [OF inv(1) l inv(2) out pc w]) (simp_all add: h_owner_def h_tkt_def)
    have "h_thread_ok ?s i"
      using h_inv_thread [OF inv(1), of i] p False
      by (cases v) (simp_all add: hy_head_def Let_def h_take hy_set_depth_def h_thread_ok_def h_queueing_def h_local_def)
    then have "h_inv v N ?s" using pc by (intro h_keep [OF inv f _ ll]) (auto split: if_splits)
    with ll False show ?thesis by simp
  qed
  then show "h_inv v N ?s" "h_line v ?s (if hy_stay v (h_val s) then ts else ts @ [i])" by simp_all
qed

lemma hy_serve_step:
  assumes inv: "h_inv v N s" "i < N" and p: "h_pc s i = HServe t nx" and l: "h_line v s ts"
  shows "h_inv v N (hy_serve i t nx s)" and "h_line v (hy_serve i t nx s) ts"
proof -
  let ?s = "h_goto i (HReadVal t nx) s"
  have ll: "h_line v ?s ts" if "hy_my_turn t (h_serving s)"
  proof (cases "v = Hybrid")
    case True
    with p that show ?thesis by (intro h_line_served [OF l, of i _ "HReadVal t nx"]) (simp_all add: h_pc_defs hy_my_turn_iff)
  next
    case False
    with p show ?thesis by (intro h_line_same [OF l, of _ i "HReadVal t nx"]) (simp_all add: h_pc_defs)
  qed
  then show "h_line v (hy_serve i t nx s) ts" using l by (simp add: hy_serve_def)
  have "h_frame i s ?s" using p by (simp add: h_frame_def h_role_def)
  then have "h_inv v N ?s" if "hy_my_turn t (h_serving s)"
    using h_inv_thread [OF inv(1), of i] p
    by (intro h_keep [OF inv _ _ ll [OF that]]) (simp_all add: h_thread_ok_def h_queueing_def h_local_def)
  then show "h_inv v N (hy_serve i t nx s)" using inv by (simp add: hy_serve_def)
qed

lemma hy_test_tail_step:
  assumes inv: "h_inv v N s" "i < N" and p: "h_pc s i = HReadVal t nx \<or> h_pc s i = HDestroy t x nx" and l: "h_line v s ts"
  shows "h_inv v N (hy_test_tail i t (h_val s) nx s)" and "h_line v (hy_test_tail i t (h_val s) nx s) ts"
proof -
  have th: "h_idx s i = 0" "h_count s i = 1" using h_inv_idx [OF inv(1), of i] p by (auto simp: h_queueing_def)
  have c: "h_val s AND HY_TAIL_MASK = hy_encode_tail i (h_idx s i) \<longleftrightarrow> h_tail s = hy_code i"
    unfolding hy_tail_bits th hy_code_encode [OF h_inv_16383 [OF inv]] by simp
  let ?p = "if h_tail s = hy_code i then HDestroy t (h_val s) nx else case nx of None \<Rightarrow> HWaitNext t | Some n \<Rightarrow> HHandoff t n"
  let ?s = "hy_test_tail i t (h_val s) nx s"
  have e: "?s = h_goto i ?p s" unfolding hy_test_tail_def c ..
  have k: "h_owner v ?p = h_owner v (h_pc s i)" "h_tkt v ?p = h_tkt v (h_pc s i)" "h_headed ?p = h_headed (h_pc s i)"
    and r: "h_role ?p = h_role (h_pc s i)"
    using p by (auto simp: h_pc_defs split: option.split)
  have nr: "?p \<noteq> HRel tmp" for tmp by (simp split: option.split)
  show ll: "h_line v ?s ts"
  proof (rule h_line_same [OF l, of _ i ?p])
    show "tmp = h_serving s" if "?p = HRel tmp" for tmp using nr that by blast
  qed (use k in \<open>simp_all only: e, simp_all\<close>)
  have f: "h_frame i s ?s" using r by (simp add: e h_frame_def)
  have "h_thread_ok ?s i"
  proof -
    have "lo16 (h_val s) = h_tail s" by (simp add: h_val_def)
    with h_inv_thread [OF inv(1), of i] p show ?thesis
      unfolding e by (auto simp: h_thread_ok_def h_queueing_def h_local_def split: option.split)
  qed
  then show "h_inv v N ?s" using inv by (intro h_keep [OF inv f _ ll]) (auto simp: e split: if_splits option.splits)
qed

text \<open>The head that finds itself the last destroys the queue.\<close>

lemma hy_destroy_last:
  assumes inv: "h_inv v N s" "i < N" and p: "h_pc s i = HDestroy t x nx" and x: "h_val s = x" and q: "h_queue s q"
  shows "q = [(i, 0)]" and "mcs_queue (h_next s) (h_mlocked s) ((h_nrole s)((i, 0) := Out)) []"
proof -
  have t: "h_tail s = hy_code i"
    using h_inv_thread [OF inv(1), of i] p x by (auto simp: h_thread_ok_def h_local_def h_val_def)
  have r: "h_role (h_pc s i) = Head" using p by (simp add: h_role_def)
  then have ne: "q \<noteq> []" using h_queue_thread [OF q, of i] by auto
  note d = h_decode_last [OF inv(1) q ne]
  have "hy_code (fst (last q)) = hy_code i" using t q ne by (simp add: h_queue_def)
  with d(2) h_inv_16383 [OF inv] have "fst (last q) = i" by (rule hy_code_inj)
  with d(3) have "last q = (i, 0)" by (metis prod.collapse)
  with q r mcs_leave_last [of "h_next s" "h_mlocked s" "h_nrole s" q "(i, 0)"]
  show "q = [(i, 0)]" "mcs_queue (h_next s) (h_mlocked s) ((h_nrole s)((i, 0) := Out)) []"
    by (simp_all add: h_queue_def h_nrole_def)
qed

text \<open>Leaving the queue does not change the line.\<close>

lemma h_release_line:
  assumes inv: "h_inv v N s" and l: "h_line v s ts" and q: "h_queue s q"
    and p: "h_pc s i = HDestroy t x nx \<or> h_pc s i = HHandoff t n"
    and pc: "h_pc s' = (h_pc s)(i := if v = Hybrid then HCS else HSpin t)"
    and w: "h_serving s' = h_serving s" "h_ticket s' = h_ticket s"
  shows "h_line v s' ts"
proof (cases "v = Hybrid")
  case True
  have r: "h_role (h_pc s i) = Head" using p by (auto simp: h_role_def)
  have "h_line Hybrid s' ts"
  proof (rule h_line_leave [where i = i])
    show "j = i" if "h_headed (h_pc s j)" for j using h_one_head [OF q h_headed_Head [OF that] r] .
  qed (use l p pc w True in \<open>auto simp: h_pc_defs\<close>)
  with True show ?thesis by simp
next
  case False
  with p pc show ?thesis by (intro h_line_same [OF l pc w]) (auto simp: h_pc_defs)
qed

lemma hy_destroy_step:
  assumes inv: "h_inv v N s" "i < N" and p: "h_pc s i = HDestroy t x nx" and l: "h_line v s ts"
  shows "h_inv v N (hy_destroy v i t x nx s)" and "h_line v (hy_destroy v i t x nx s) ts"
proof -
  let ?s = "hy_destroy v i t x nx s"
  have "h_inv v N ?s \<and> h_line v ?s ts"
  proof (cases "h_val s = x")
    case True
    from inv(1) obtain q where q: "h_queue s q" by (auto simp: h_inv_def)
    note d = hy_destroy_last [OF inv p True q]
    let ?p = "if v = Hybrid then HCS else HSpin t"
    have e: "?s = s\<lparr>h_tail := 0, h_count := (h_count s)(i := h_count s i - 1), h_pc := (h_pc s)(i := ?p)\<rparr>"
      using hy_clear_tail [of s] True by (simp add: hy_destroy_def hy_release_node_def)
    have pc: "h_pc ?s = (h_pc s)(i := ?p)" by (simp add: e)
    have ll: "h_line v ?s ts" by (rule h_release_line [OF inv(1) l q _ pc]) (use p in \<open>simp_all add: e\<close>)
    have "h_queue ?s []" using d(2) h_nrole_upd [OF pc] by (simp add: h_queue_def e h_role_def)
    moreover have "h_thread_ok ?s j" for j
      using h_others [OF inv(1) pc, of j] h_inv_idx [OF inv(1), of i] p
      by (cases "j = i") (auto simp: e h_thread_ok_def h_local_def h_queueing_def)
    moreover have "h_behind ?s"
      unfolding h_behind_def
    proof (intro allI impI)
      fix j u assume "h_pc ?s j = HWaitNext u"
      then have "h_pc s j = HWaitNext u" by (auto simp: e split: if_splits)
      then have "j < 16383" using h_inv_less [OF inv(1), of j] h_inv_16383 [OF inv(1), of j] by simp
      then show "h_tail ?s \<noteq> hy_code j" using hy_code_nz [of j] by (simp add: e)
    qed
    ultimately have "h_inv v N ?s" by (intro h_inv_intro [OF inv pc _ ll])
    with ll show ?thesis by simp
  next
    case False
    with hy_test_tail_step [OF inv _ l, of t nx x] p show ?thesis by (simp add: hy_destroy_def)
  qed
  then show "h_inv v N ?s" "h_line v ?s ts" by simp_all
qed

lemma hy_wait_next_step:
  assumes inv: "h_inv v N s" "i < N" and p: "h_pc s i = HWaitNext t" and l: "h_line v s ts"
  shows "h_inv v N (hy_wait_next i t s)" and "h_line v (hy_wait_next i t s) ts"
proof -
  have th: "h_idx s i = 0" using h_inv_idx [OF inv(1), of i] p by (simp add: h_queueing_def)
  have "h_inv v N (hy_wait_next i t s) \<and> h_line v (hy_wait_next i t s) ts"
  proof (cases "h_next s (i, 0)")
    case (Some n)
    let ?s = "h_goto i (HHandoff t n) s"
    have ll: "h_line v ?s ts" by (rule h_line_same [OF l, of _ i "HHandoff t n"]) (use p in \<open>simp_all add: h_pc_defs\<close>)
    have "h_frame i s ?s" using p by (simp add: h_frame_def h_role_def)
    then have "h_inv v N ?s" using h_inv_thread [OF inv(1), of i] p Some
      by (intro h_keep [OF inv _ _ ll]) (simp_all add: h_thread_ok_def h_queueing_def h_local_def)
    with ll Some th show ?thesis by (simp add: hy_wait_next_def)
  qed (use inv l th in \<open>simp add: hy_wait_next_def\<close>)
  then show "h_inv v N (hy_wait_next i t s)" "h_line v (hy_wait_next i t s) ts" by simp_all
qed

lemma hy_handoff_queue:
  assumes inv: "h_inv v N s" and p: "h_pc s i = HHandoff t n" and q: "h_queue s q"
  shows "\<exists>q'. q = (i, 0) # n # q' \<and> h_pc s (fst n) = HWait \<and> h_queue (hy_handoff v i t n s) (n # q')"
proof -
  have nx: "h_next s (i, 0) = Some n" using h_inv_thread [OF inv, of i] p by (simp add: h_thread_ok_def h_local_def)
  from mcs_handoff [of "h_next s" "h_mlocked s" "h_nrole s" q "(i, 0)" n 1] q p nx
  obtain q' where q': "q = (i, 0) # n # q'" "h_nrole s n = Waiting"
    "mcs_queue (h_next s) ((h_mlocked s)(n := 1)) ((h_nrole s)((i, 0) := Out)) (n # q')"
    by (auto simp: h_queue_def h_nrole_def h_role_def)
  have e: "h_pc (hy_handoff v i t n s) = (h_pc s)(i := if v = Hybrid then HCS else HSpin t)"
    by (simp add: hy_handoff_def hy_release_node_def)
  have "h_queue (hy_handoff v i t n s) (n # q')"
    using q' q h_nrole_upd [OF e] by (simp add: h_queue_def hy_handoff_def hy_release_node_def h_role_def)
  moreover have "h_pc s (fst n) = HWait" using q'(2) by (simp add: h_nrole_def h_role_def split: if_splits hy_pc.splits)
  ultimately show ?thesis using q'(1) by blast
qed

lemma hy_handoff_step:
  assumes inv: "h_inv v N s" "i < N" and p: "h_pc s i = HHandoff t n" and l: "h_line v s ts"
  shows "h_inv v N (hy_handoff v i t n s)" and "h_line v (hy_handoff v i t n s) ts"
proof -
  from inv(1) obtain q where q: "h_queue s q" by (auto simp: h_inv_def)
  let ?s = "hy_handoff v i t n s"
  let ?p = "if v = Hybrid then HCS else HSpin t"
  from hy_handoff_queue [OF inv(1) p q] obtain q' where n: "h_pc s (fst n) = HWait" "h_queue ?s (n # q')" by blast
  have e: "h_pc ?s = (h_pc s)(i := ?p)" by (simp add: hy_handoff_def hy_release_node_def)
  show ll: "h_line v ?s ts"
    by (rule h_release_line [OF inv(1) l q _ e]) (use p in \<open>simp_all add: hy_handoff_def hy_release_node_def\<close>)
  have "h_thread_ok ?s j" for j
  proof -
    consider "j = i" | "j \<noteq> i" "h_pc s j = HWait" | "j \<noteq> i" "(j, 0) \<noteq> n" using n(1) by force
    then show ?thesis
    proof cases
      case 1
      with h_inv_idx [OF inv(1), of i] p show ?thesis
        by (simp add: h_thread_ok_def hy_handoff_def hy_release_node_def h_local_def h_queueing_def)
    next
      case 2
      with h_inv_thread [OF inv(1), of j] show ?thesis
        by (simp add: h_thread_ok_def hy_handoff_def hy_release_node_def h_local_def h_queueing_def)
    next
      case 3
      then show ?thesis by (intro h_others [OF inv(1) e]) (auto simp: hy_handoff_def hy_release_node_def)
    qed
  qed
  moreover have "h_behind ?s" by (rule h_behind_same [OF inv(1) e]) (simp_all add: hy_handoff_def hy_release_node_def)
  ultimately show "h_inv v N ?s" using n(2) by (intro h_inv_intro [OF inv e _ ll])
qed

section \<open>Every step\<close>

text \<open>What a step does to the line.\<close>

definition h_line_after :: "hybrid \<Rightarrow> tid \<Rightarrow> hy_state \<Rightarrow> tid list \<Rightarrow> tid list" where
  "h_line_after v i s ts = (case h_pc s i of
     HIdle \<Rightarrow> if hy_equal (h_val s) then [i] else ts
   | HTicket \<Rightarrow> if hy_enqueue v (h_val s) then ts else ts @ [i]
   | HHead _ \<Rightarrow> if hy_stay v (h_val s) then ts else ts @ [i]
   | HRel _ \<Rightarrow> tl ts | _ \<Rightarrow> ts)"

lemma h_step_line:
  assumes inv: "h_inv v N s" and i: "i < N" and l: "h_line v s ts"
  shows "h_inv v N (hy_step v N i s) \<and> h_line v (hy_step v N i s) (h_line_after v i s ts)"
proof -
  note step = hy_lock_acquire_step hy_take_ticket_step hy_spin_step hy_xchg_step hy_link_step hy_wait_step hy_head_step
    hy_serve_step hy_destroy_step hy_wait_next_step hy_handoff_step hy_lock_release_step hy_release_store_step
  show ?thesis
  proof (cases "h_pc s i")
    case HIdle
    with i hy_lock_acquire_step [OF inv i HIdle l] show ?thesis by (simp add: hy_step_def h_line_after_def split: if_splits)
  next
    case (HReadVal t nx)
    with i hy_test_tail_step [OF inv i _ l, of t nx] show ?thesis by (simp add: hy_step_def h_line_after_def hy_read_val_def)
  next
    case (HRel tmp)
    from hy_release_store_step [OF inv i HRel l] show ?thesis using i HRel by (auto simp: hy_step_def h_line_after_def)
  qed (use i step [OF inv i _ l] hy_prepare_step [OF inv i l] in \<open>simp_all add: hy_step_def h_line_after_def\<close>)
qed

lemma h_step_inv: "h_inv v N s \<Longrightarrow> h_inv v N (hy_step v N i s)"
proof (cases "i < N")
  case True
  assume inv: "h_inv v N s"
  then obtain ts where "h_line v s ts" by (auto simp: h_inv_def)
  with h_step_line [OF inv True] show ?thesis by blast
qed (simp add: hy_step_def)

lemma h_init_line: "h_line v hy_init_locks []"
  by (cases v) (simp_all add: h_line_def hy_init_locks_def line_def line_members_def h_room_def h_pc_defs)

lemma h_init_inv: "N \<le> 16383 \<Longrightarrow> (v = Old_Fast_Dequeue \<longrightarrow> N \<le> 256) \<Longrightarrow> h_inv v N hy_init_locks"
proof -
  assume "N \<le> 16383" "v = Old_Fast_Dequeue \<longrightarrow> N \<le> 256"
  moreover have "h_nrole hy_init_locks = (\<lambda>_. Out)" by (simp add: h_nrole_def hy_init_locks_def fun_eq_iff)
  then have "h_queue hy_init_locks []" by (simp add: h_queue_def hy_init_locks_def)
  moreover have "h_thread_ok hy_init_locks i" for i
    by (simp add: hy_init_locks_def h_thread_ok_def h_local_def h_queueing_def)
  moreover have "h_behind hy_init_locks" "\<And>i. h_pc hy_init_locks i = HIdle" by (simp_all add: h_behind_def hy_init_locks_def)
  ultimately show ?thesis using h_init_line unfolding h_inv_def by blast
qed

abbreviation h_init :: "hybrid \<Rightarrow> nat \<Rightarrow> hy_state \<Rightarrow> bool" where
  "h_init v N s \<equiv> N \<le> 16383 \<and> (v = Old_Fast_Dequeue \<longrightarrow> N \<le> 256) \<and> s = hy_init_locks"

interpretation hybrid: mutex_system "h_init v N" "hy_step v N" "h_inv v N" "\<lambda>s i. h_owner v (h_pc s i)" for v N
proof
  show "i = j" if "h_inv v N s" "h_owner v (h_pc s i)" "h_owner v (h_pc s j)" for s i j
  proof -
    from that(1) obtain ts where "h_line v s ts" by (auto simp: h_inv_def)
    with that(2,3) show ?thesis by (auto simp: h_line_def dest: line_one_owner)
  qed
qed (auto intro: h_init_inv h_step_inv)

section \<open>Tickets are served in order\<close>

text \<open>A thread requests the lock when it takes a ticket and enters when it finds its ticket served.\<close>

definition h_requests :: "hybrid \<Rightarrow> nat \<Rightarrow> tid \<Rightarrow> hy_state \<Rightarrow> tid list" where
  "h_requests v N i s = (if h_ticket (hy_step v N i s) \<noteq> h_ticket s then [i] else [])"

definition h_entries :: "hybrid \<Rightarrow> nat \<Rightarrow> tid \<Rightarrow> hy_state \<Rightarrow> tid list" where
  "h_entries v N i s = (if \<not> h_owner v (h_pc s i) \<and> h_owner v (h_pc (hy_step v N i s) i) then [i] else [])"

definition h_waiting :: "hybrid \<Rightarrow> hy_state \<Rightarrow> tid list \<Rightarrow> bool" where
  "h_waiting v s w \<longleftrightarrow> (\<exists>ts. h_line v s ts \<and> w = filter (\<lambda>i. \<not> h_owner v (h_pc s i)) ts)"

lemmas h_step_defs = hy_step_def hy_lock_acquire_def Let_def h_take hy_set_depth_def hy_enter_def hy_take_ticket_def
  hy_spin_def hy_init_locked_def hy_init_next_def hy_xchg_def hy_xchg_tail_def hy_link_def hy_wait_def hy_read_next_def
  hy_head_def hy_serve_def hy_test_tail_def hy_read_val_def hy_release_node_def hy_destroy_def hy_wait_next_def
  hy_handoff_def hy_lock_release_def hy_release_store_def

lemma h_step_other: "j \<noteq> i \<Longrightarrow> h_pc (hy_step v N i s) j = h_pc s j"
  by (cases "h_pc s i"; cases v) (simp_all add: h_step_defs h_set_val_def split: option.split)

end
