(* ===== verification/Hybrid_Progress.thy ===== *)
theory Hybrid_Progress
  imports Hybrid_Correct
begin

text \<open>
  What follows from the invariant of the hybrid spinlocks: tickets are served in order, no thread is
  ever stuck, and the limits of the old variant.
\<close>

section \<open>Order\<close>

text \<open>Every step takes a ticket and enters, takes a ticket, enters, releases, or does none of these.\<close>

lemma h_step_kind:
  fixes v N i s
  defines "s' \<equiv> hy_step v N i s"
  assumes "i < N"
  shows "(h_pc s i = HIdle \<and> hy_equal (h_val s) \<and> h_ticket s' = h_ticket s + 1 \<and> h_pc s' i = HCS) \<or>
    (h_line_after v i s ts = ts @ [i] \<and> h_ticket s' = h_ticket s + 1 \<and> \<not> h_owner v (h_pc s i) \<and> \<not> h_owner v (h_pc s' i)) \<or>
    (h_line_after v i s ts = ts \<and> h_ticket s' = h_ticket s \<and> h_tkt v (h_pc s i) = Some (h_serving s) \<and>
      \<not> h_owner v (h_pc s i) \<and> h_owner v (h_pc s' i)) \<or>
    (\<exists>tmp. h_pc s i = HRel tmp \<and> h_ticket s' = h_ticket s \<and> \<not> h_owner v (h_pc s' i)) \<or>
    (h_line_after v i s ts = ts \<and> h_ticket s' = h_ticket s \<and> h_owner v (h_pc s' i) = h_owner v (h_pc s i))"
  unfolding s'_def using assms(2) hy_clear_tail [of s]
  by (cases "h_pc s i"; cases v)
    (auto simp: h_step_defs h_line_after_def h_owner_def h_tkt_def hy_my_turn_iff split: option.split)

lemma h_waiting_step:
  assumes inv: "h_inv v N s" and w: "h_waiting v s w"
  shows "\<exists>w'. h_waiting v (hy_step v N i s) w' \<and> w @ h_requests v N i s = h_entries v N i s @ w'"
proof (cases "i < N")
  case False
  with w show ?thesis by (simp add: hy_step_def h_requests_def h_entries_def)
next
  case i: True
  let ?s = "hy_step v N i s"
  from w obtain ts where l: "h_line v s ts" and w: "w = filter (\<lambda>i. \<not> h_owner v (h_pc s i)) ts" by (auto simp: h_waiting_def)
  have l': "h_line v ?s (h_line_after v i s ts)" using h_step_line [OF inv i l] by simp
  have li: "line (h_serving s) (h_ticket s) (\<lambda>i. h_owner v (h_pc s i)) (\<lambda>i. h_tkt v (h_pc s i)) ts"
    using l by (simp add: h_line_def)
  have own: "filter (\<lambda>j. \<not> h_owner v (h_pc ?s j)) r = filter (\<lambda>j. \<not> h_owner v (h_pc s j)) r" if "i \<notin> set r" for r
    by (rule filter_cong) (use that h_step_other [of _ i v N s] in \<open>metis\<close>)+
  have wi: "h_waiting v ?s (filter (\<lambda>j. \<not> h_owner v (h_pc ?s j)) (h_line_after v i s ts))"
    using l' by (auto simp: h_waiting_def)
  consider "h_pc s i = HIdle" "hy_equal (h_val s)" "h_ticket ?s = h_ticket s + 1" "h_pc ?s i = HCS"
    | "h_line_after v i s ts = ts @ [i]" "h_ticket ?s = h_ticket s + 1" "\<not> h_owner v (h_pc s i)" "\<not> h_owner v (h_pc ?s i)"
    | "h_line_after v i s ts = ts" "h_ticket ?s = h_ticket s" "h_tkt v (h_pc s i) = Some (h_serving s)"
      "\<not> h_owner v (h_pc s i)" "h_owner v (h_pc ?s i)"
    | tmp where "h_pc s i = HRel tmp" "h_ticket ?s = h_ticket s" "\<not> h_owner v (h_pc ?s i)"
    | "h_line_after v i s ts = ts" "h_ticket ?s = h_ticket s" "h_owner v (h_pc ?s i) = h_owner v (h_pc s i)"
    using h_step_kind [OF i, where v = v and s = s and ts = ts] by blast
  then show ?thesis
  proof cases
    case 1
    have "ts = []" using hy_lock_acquire_step(2) [OF inv i 1(1) l] 1(2) by simp
    with 1 w wi show ?thesis by (auto simp: h_requests_def h_entries_def h_line_after_def h_owner_def)
  next
    case 2
    have "distinct (ts @ [i])" using l' unfolding 2(1) h_line_def by (blast dest: line_distinct)
    with own [of ts] 2 wi w show ?thesis by (auto simp: h_requests_def h_entries_def)
  next
    case 3
    from line_first [OF li, of i] 3(3) obtain ts' where e: "ts = i # ts'" by auto
    have "i \<notin> set ts'" using line_distinct [OF li] e by simp
    with own [of ts'] 3 wi w e show ?thesis by (auto simp: h_requests_def h_entries_def)
  next
    case 4
    have o: "h_owner v (h_pc s i)" using 4 by (simp add: h_owner_def)
    with line_first [OF li, of i] obtain ts' where e: "ts = i # ts'" by auto
    have "i \<notin> set ts'" using line_distinct [OF li] e by simp
    with own [of ts'] 4 wi w e o show ?thesis by (auto simp: h_requests_def h_entries_def h_line_after_def)
  next
    case 5
    have "filter (\<lambda>j. \<not> h_owner v (h_pc ?s j)) ts = w" unfolding w
      by (rule filter_cong) (use 5 h_step_other [of _ i v N s] in \<open>metis\<close>)+
    with 5 wi show ?thesis by (auto simp: h_requests_def h_entries_def)
  qed
qed

interpretation hybrid: fifo_system "h_init v N" "hy_step v N" "h_inv v N" "h_waiting v" "h_requests v N" "h_entries v N" for v N
proof
  show "h_waiting v s []" if "h_init v N s" for s using that h_init_line [of v] unfolding h_waiting_def by (intro exI [of _ "[]"]) simp
qed (rule h_waiting_step)

section \<open>Progress\<close>

text \<open>A head whose copy of the lock word is out of date reads it once more.\<close>

fun h_rank :: "u32 \<Rightarrow> hy_pc \<Rightarrow> nat" where
  "h_rank w HIdle = 0" | "h_rank w (HRel _) = 1" | "h_rank w HCS = 2" | "h_rank w (HSpin _) = 3"
| "h_rank w (HHandoff _ _) = 4" | "h_rank w (HWaitNext _) = 5" | "h_rank w (HDestroy _ val _) = (if w = val then 6 else 7)"
| "h_rank w (HReadVal _ _) = 8" | "h_rank w (HServe _ _) = 9" | "h_rank w (HHead _) = 10" | "h_rank w HReadNext = 11"
| "h_rank w HWait = 12" | "h_rank w (HLink _) = 13" | "h_rank w HXchg = 14" | "h_rank w HInitNext = 15"
| "h_rank w HInitLocked = 16" | "h_rank w HTicket = 17"

definition h_blocked :: "hybrid \<Rightarrow> hy_state \<Rightarrow> tid \<Rightarrow> bool" where
  "h_blocked v s i = (case h_pc s i of HSpin t \<Rightarrow> hi8 (hi16 t) \<noteq> h_serving s | HServe t _ \<Rightarrow> hi8 (hi16 t) \<noteq> h_serving s
     | HWait \<Rightarrow> h_mlocked s (i, 0) = 0 | HHead _ \<Rightarrow> hy_stay v (h_val s) | HWaitNext _ \<Rightarrow> h_next s (i, 0) = None | _ \<Rightarrow> False)"

lemma h_val_goto [simp]: "h_val (s\<lparr>h_pc := f\<rparr>) = h_val s" "h_val (s\<lparr>h_depth := g\<rparr>) = h_val s"
  by (simp_all add: h_val_def)

lemma h_rank_step:
  assumes inv: "h_inv v N s" and i: "i < N" and p: "h_pc s i \<noteq> HIdle" "\<not> h_blocked v s i"
  shows "h_rank (h_val (hy_step v N i s)) (h_pc (hy_step v N i s) i) < h_rank (h_val s) (h_pc s i)"
  using i p h_inv_idx [OF inv, of i]
  by (cases "h_pc s i"; cases v)
    (auto simp: h_step_defs h_blocked_def h_queueing_def hy_my_turn_iff hy_clear_tail split: option.splits)

lemma h_rank_word: "(\<And>t val nx. p \<noteq> HDestroy t val nx) \<Longrightarrow> h_rank w p = h_rank w' p"
  by (cases p) auto

text \<open>If everyone were blocked, the line would be empty and the head of the queue could move.\<close>

lemma h_wait_next_moves:
  assumes inv: "h_inv v N s" and b: "\<And>j. h_pc s j \<noteq> HIdle \<Longrightarrow> h_blocked v s j"
  shows "h_pc s i \<noteq> HWaitNext t"
proof
  assume p: "h_pc s i = HWaitNext t"
  with b [of i] have nx: "h_next s (i, 0) = None" by (simp add: h_blocked_def)
  from inv obtain q where q: "h_queue s q" by (auto simp: h_inv_def)
  then have m: "mcs_queue (h_next s) (h_mlocked s) (h_nrole s) q" by (simp add: h_queue_def)
  from mcs_head_first [OF m, of "(i, 0)"] p obtain q' where q': "q = (i, 0) # q'" by (auto simp: h_nrole_def h_role_def)
  have "h_tail s \<noteq> hy_code i" using h_inv_behind [OF inv] p by (simp add: h_behind_def)
  with q q' obtain n r where e: "q' = n # r" by (cases q') (auto simp: h_queue_def)
  with m q' have "mcs_behind (h_next s) (h_mlocked s) (h_nrole s) (i, 0) (n # r)" by (simp add: mcs_queue_Cons)
  with nx have "h_nrole s n = Linking (i, 0)" by simp
  then have "h_pc s (fst n) = HLink (i, 0)" by (auto simp: h_nrole_def h_role_def split: if_splits hy_pc.splits)
  with b [of "fst n"] show False by (simp add: h_blocked_def)
qed

lemma h_line_moves:
  assumes inv: "h_inv v N s" and l: "h_line v s ts" and b: "\<And>j. h_pc s j \<noteq> HIdle \<Longrightarrow> h_blocked v s j"
  shows "ts = []"
proof (cases ts)
  case (Cons h r)
  have nw: "h_pc s h \<noteq> HWaitNext t" for t by (rule h_wait_next_moves [OF inv b])
  have "h_owner v (h_pc s h) \<or> h_tkt v (h_pc s h) = Some (h_serving s)" using l Cons by (auto simp: h_line_def line_def)
  with b [of h] nw show ?thesis by (auto simp: h_owner_def h_tkt_def h_blocked_def split: hy_pc.splits)
qed

lemma h_stay_empty: "h_ticket s = h_serving s \<Longrightarrow> \<not> hy_stay v (h_val s)"
proof (cases v)
  case Old_Fast_Dequeue
  assume e: "h_ticket s = h_serving s"
  have "hy_thr v \<noteq> 0" using Old_Fast_Dequeue by (simp add: hy_thr_def hy_threshold_def)
  with e show ?thesis using Old_Fast_Dequeue
    unfolding hy_stay_def h_val_def hy_threshold_parts hy_sub hy_equal_iff hybrid.case by simp
qed (use hy_stay_fast(2) [of s] in \<open>simp_all add: hy_stay_def\<close>)

lemma h_someone_moves:
  assumes inv: "h_inv v N s" and i: "h_pc s i \<noteq> HIdle"
  shows "\<exists>j. h_pc s j \<noteq> HIdle \<and> \<not> h_blocked v s j"
proof (rule ccontr)
  assume "\<not> ?thesis"
  then have b: "h_blocked v s j" if "h_pc s j \<noteq> HIdle" for j using that by blast
  from inv obtain ts where l: "h_line v s ts" by (auto simp: h_inv_def)
  have ts: "ts = []" by (rule h_line_moves [OF inv l b])
  then have e: "h_ticket s = h_serving s" using l by (simp add: h_line_def line_def)
  have w: "h_pc s j = HIdle \<or> h_pc s j = HWait \<and> h_mlocked s (j, 0) = 0" for j
    using b [of j] h_line_mem [OF l, of j] ts h_stay_empty [OF e, of v] h_wait_next_moves [OF inv b, of j]
    by (auto simp: h_blocked_def h_tkt_def split: hy_pc.splits)
  from inv obtain q where q: "h_queue s q" by (auto simp: h_inv_def)
  have "h_role (h_pc s i) \<noteq> Out" using w [of i] i by (auto simp: h_role_def)
  then obtain h q' where e: "q = h # q'" using h_queue_thread [OF q, of i] by (cases q) auto
  then have h: "snd h = 0" using h_queue_member [OF q, of h] by simp
  from q e have "mcs_queue (h_next s) (h_mlocked s) (h_nrole s) (h # q')" by (simp add: h_queue_def)
  from mcs_first [OF this] h w [of "fst h"] show False by (cases h) (auto simp: h_nrole_def h_role_def)
qed

text \<open>The one to move: the head that is destroying the queue if there is one.\<close>

lemma h_choose:
  assumes inv: "h_inv v N s" and i: "h_pc s i \<noteq> HIdle"
  shows "\<exists>j. h_pc s j \<noteq> HIdle \<and> \<not> h_blocked v s j \<and> (\<forall>k t val nx. k \<noteq> j \<longrightarrow> h_pc s k \<noteq> HDestroy t val nx)"
proof (cases "\<exists>k t val nx. h_pc s k = HDestroy t val nx")
  case True
  then obtain k t val nx where k: "h_pc s k = HDestroy t val nx" by blast
  from inv obtain q where q: "h_queue s q" by (auto simp: h_inv_def)
  have "k' = k" if "h_pc s k' = HDestroy t' val' nx'" for k' t' val' nx'
    by (rule h_one_head [OF q]) (use k that in \<open>simp_all add: h_role_def\<close>)
  then have "\<forall>k' t val nx. k' \<noteq> k \<longrightarrow> h_pc s k' \<noteq> HDestroy t val nx" by metis
  moreover have "\<not> h_blocked v s k" "h_pc s k \<noteq> HIdle" using k by (simp_all add: h_blocked_def)
  ultimately show ?thesis by blast
next
  case False
  with h_someone_moves [OF inv i] show ?thesis by blast
qed

interpretation hybrid: progress_system "h_init v N" "hy_step v N" "h_inv v N"
  "\<lambda>s. \<forall>i. h_pc s i = HIdle" "\<lambda>s. \<Sum>j<N. h_rank (h_val s) (h_pc s j)" for v N
proof
  fix s assume inv: "h_inv v N s" and "\<not> (\<forall>i. h_pc s i = HIdle)"
  then obtain j where j: "h_pc s j \<noteq> HIdle" "\<not> h_blocked v s j" "\<And>k t val nx. k \<noteq> j \<Longrightarrow> h_pc s k \<noteq> HDestroy t val nx"
    using h_choose [OF inv] by blast
  have n: "j < N" using h_inv_less [OF inv j(1)] .
  let ?s = "hy_step v N j s"
  have "h_rank (h_val ?s) (h_pc ?s k) = h_rank (h_val s) (h_pc s k)" if "k \<noteq> j" for k
    using h_rank_word [OF j(3) [OF that]] h_step_other [OF that, of v N s] by simp
  with h_rank_step [OF inv n j(1,2)] have "h_rank (h_val ?s) (h_pc ?s k) \<le> h_rank (h_val s) (h_pc s k)" for k
    by (cases "k = j") simp_all
  then have "(\<Sum>k<N. h_rank (h_val ?s) (h_pc ?s k)) < (\<Sum>k<N. h_rank (h_val s) (h_pc s k))"
    using h_rank_step [OF inv n j(1,2)] n by (intro sum_strict_mono_ex1) auto
  then show "\<exists>l. (\<Sum>k<N. h_rank (h_val (hy_step v N l s)) (h_pc (hy_step v N l s) k)) < (\<Sum>k<N. h_rank (h_val s) (h_pc s k))"
    by blast
qed

lemma h_idle_free:
  assumes inv: "h_inv v N s" and p: "\<And>i. h_pc s i = HIdle"
  shows "hy_equal (h_val s)"
proof -
  from inv obtain q ts where q: "h_queue s q" and l: "h_line v s ts" by (auto simp: h_inv_def)
  have "ts = []" using h_line_mem [OF l, of "hd ts"] p by (cases ts) (auto simp: h_pc_defs)
  with l have "h_ticket s = h_serving s" by (simp add: h_line_def line_def)
  moreover have "q = []" using h_queue_member(2) [OF q, of "hd q"] p by (cases q) auto
  with q have "h_tail s = 0" by (simp add: h_queue_def)
  ultimately show ?thesis by (simp add: hy_fast_iff hi8_def lo8_def)
qed

section \<open>Properties\<close>

text \<open>C4: at most one thread owns a hybrid spinlock, in every interleaving: of up to 16383 threads for the plain
  and the fast-dequeue lock, although tickets have 8 bits only, and of up to 256 threads for the old one, which is not built and fails from 257 threads on.\<close>

theorem hybrid_mutual_exclusion:
  assumes "N \<le> 16383" and "v = Old_Fast_Dequeue \<longrightarrow> N \<le> 256"
    and "h_owner v (h_pc (run (hy_step v N) ls hy_init_locks) i)" and "h_owner v (h_pc (run (hy_step v N) ls hy_init_locks) j)"
  shows "i = j"
  by (rule hybrid.mutual_exclusion [of N v hy_init_locks]) (use assms in simp_all)

text \<open>Four ticket waiters, and two queued threads of which the first comes to own the lock.\<close>

abbreviation hybrid_crowd :: "tid list" where
  "hybrid_crowd \<equiv> [0, 1, 1, 2, 2, 3, 3, 4, 4, 4, 4, 5, 5, 5, 5, 5, 4]"

abbreviation hybrid_drain :: "tid list" where
  "hybrid_drain \<equiv> [0, 0, 1, 1, 1, 2, 2, 2, 3, 3, 3, 4]"

theorem hybrid_mutual_exclusion_witness:
  "h_owner Hybrid (h_pc (run (hy_step Hybrid 6) (hybrid_crowd @ hybrid_drain) hy_init_locks) 4) \<and>
   \<not> h_owner Hybrid (h_pc (run (hy_step Hybrid 6) (hybrid_crowd @ hybrid_drain) hy_init_locks) 5)"
proof -
  have "h_owner Hybrid (h_pc (run (hy_step Hybrid 6) (hybrid_crowd @ hybrid_drain) hy_init_locks) 4)" by code_simp
  then show ?thesis using hybrid_mutual_exclusion [of 6 Hybrid "hybrid_crowd @ hybrid_drain" 4 5] by auto
qed

text \<open>Threads enter a hybrid spinlock in the order in which they took their tickets, whether from the ticket
  path or as the head of the queue.\<close>

theorem hybrid_tickets_in_order:
  assumes "N \<le> 16383" and "v = Old_Fast_Dequeue \<longrightarrow> N \<le> 256"
  shows "\<exists>u. observe (h_requests v N) (hy_step v N) ls hy_init_locks = observe (h_entries v N) (hy_step v N) ls hy_init_locks @ u"
  using hybrid.fifo [of N v hy_init_locks ls] assms by auto

theorem hybrid_tickets_in_order_witness:
  "\<exists>u. [0, 1, 2, 3, 4] = observe (h_entries Hybrid 6) (hy_step Hybrid 6) hybrid_crowd hy_init_locks @ u"
proof -
  have "observe (h_requests Hybrid 6) (hy_step Hybrid 6) hybrid_crowd hy_init_locks = [0, 1, 2, 3, 4]" by code_simp
  then show ?thesis using hybrid_tickets_in_order [of 6 Hybrid hybrid_crowd] by simp
qed

text \<open>C18: no thread is ever stuck in a hybrid spinlock: from every reachable state every thread can still obtain
  the lock. This is for up to 16383 threads in the plain and the fast-dequeue lock, and for up to 256 in the old one, which is not built.\<close>

theorem hybrid_never_stuck:
  assumes "N \<le> 16383" and "v = Old_Fast_Dequeue \<longrightarrow> N \<le> 256" and "j < N"
  shows "\<exists>ms. h_owner v (h_pc (run (hy_step v N) (ls @ ms) hy_init_locks) j)"
proof -
  from hybrid.never_stuck [of N v hy_init_locks ls] assms
  obtain ms where idle: "\<forall>i. h_pc (run (hy_step v N) (ls @ ms) hy_init_locks) i = HIdle" by blast
  let ?s = "run (hy_step v N) (ls @ ms) hy_init_locks"
  have "h_inv v N ?s" by (rule hybrid.reachable_inv) (use assms in simp)
  then have "hy_equal (h_val ?s)" by (rule h_idle_free) (use idle in simp)
  then have "h_owner v (h_pc (hy_step v N j ?s) j)"
    using idle assms by (simp add: hy_step_def hy_lock_acquire_def Let_def h_take hy_set_depth_def h_owner_def)
  then have "h_owner v (h_pc (run (hy_step v N) (ls @ ms @ [j]) hy_init_locks) j)" by (simp add: run_append)
  then show ?thesis ..
qed

theorem hybrid_never_stuck_witness:
  "\<exists>ms. h_owner Fast_Dequeue (h_pc (run (hy_step Fast_Dequeue 6) (hybrid_crowd @ ms) hy_init_locks) 5)"
  using hybrid_never_stuck [of 6 Fast_Dequeue 5 hybrid_crowd] by simp

text \<open>C24: the number of tickets that are out at a time is bounded, whatever the number of threads up to 16383: by 5 in the
  plain lock (the threshold 4 and the head of the queue) and by 6 with fast dequeueing. This is why
  8-bit tickets are enough.\<close>

theorem hybrid_tickets_bounded:
  assumes "N \<le> 16383" and "v \<noteq> Old_Fast_Dequeue" and "s = run (hy_step v N) ls hy_init_locks"
  shows "unat (h_ticket s - h_serving s) \<le> (if v = Hybrid then 5 else 6)"
proof -
  have "h_inv v N s" unfolding assms(3) by (rule hybrid.reachable_inv) (use assms in simp)
  then obtain ts where l: "h_line v s ts" by (auto simp: h_inv_def)
  then have "length ts \<le> (if v = Hybrid then 5 else 6)" using assms(2) by (cases v) (auto simp: h_line_def h_room_def)
  moreover have "h_ticket s - h_serving s = of_nat (length ts)" using l by (auto simp: h_line_def dest: line_depth)
  ultimately show ?thesis by (simp add: unat_of_nat)
qed

theorem hybrid_tickets_bounded_witness:
  "unat (h_ticket (run (hy_step Hybrid 6) hybrid_crowd hy_init_locks) - h_serving (run (hy_step Hybrid 6) hybrid_crowd hy_init_locks)) \<le> 5 \<and>
   h_ticket (run (hy_step Hybrid 6) hybrid_crowd hy_init_locks) = 5"
proof -
  have "h_ticket (run (hy_step Hybrid 6) hybrid_crowd hy_init_locks) = 5" by code_simp
  then show ?thesis using hybrid_tickets_bounded [of 6 Hybrid _ hybrid_crowd, OF _ _ refl] by simp
qed

text \<open>
  The old variant does not keep this bound: the head of the queue waits only while the line has
  exactly the threshold length and the two bytes of the tail are equal, and beyond the threshold
  length the ticket path is open again.
\<close>

definition old_crowd :: "nat \<Rightarrow> hy_state \<Rightarrow> bool" where
  "old_crowd k s \<longleftrightarrow> h_ticket s = of_nat k \<and> h_serving s = 0 \<and> h_tail s = 0 \<and> h_pc s 0 = HCS \<and> (\<forall>j\<ge>k. h_pc s j = HIdle)"

abbreviation old_start :: "tid list" where
  "old_start \<equiv> [0, 1, 1, 2, 2, 3, 3, 4, 4, 4, 4, 4, 4, 4]"

primrec old_schedule :: "nat \<Rightarrow> tid list" where
  "old_schedule 0 = old_start"
| "old_schedule (Suc n) = old_schedule n @ [n + 5, n + 5]"

lemma run_other: "j \<notin> set ls \<Longrightarrow> h_pc (run (hy_step v N) ls s) j = h_pc s j"
  by (induction ls arbitrary: s) (simp_all add: h_step_other)

lemma old_crowd_start: "old_crowd 5 (run (hy_step Old_Fast_Dequeue 257) old_start hy_init_locks)"
proof -
  have "h_pc (run (hy_step Old_Fast_Dequeue 257) old_start hy_init_locks) j = HIdle" if "5 \<le> j" for j
    using that run_other [of j old_start Old_Fast_Dequeue 257 hy_init_locks] by (simp add: hy_init_locks_def)
  moreover have "h_ticket (run (hy_step Old_Fast_Dequeue 257) old_start hy_init_locks) = 5"
    "h_serving (run (hy_step Old_Fast_Dequeue 257) old_start hy_init_locks) = 0"
    "h_tail (run (hy_step Old_Fast_Dequeue 257) old_start hy_init_locks) = 0"
    "h_pc (run (hy_step Old_Fast_Dequeue 257) old_start hy_init_locks) 0 = HCS" by code_simp+
  ultimately show ?thesis by (simp add: old_crowd_def)
qed

lemma old_crowd_step:
  assumes c: "old_crowd k s" and k: "5 \<le> k" "k < 256"
  shows "old_crowd (Suc k) (run (hy_step Old_Fast_Dequeue 257) [k, k] s)"
proof -
  have tk: "h_ticket s \<noteq> 0" "h_ticket s - hy_thr Old_Fast_Dequeue \<noteq> 0"
  proof -
    have u: "unat (h_ticket s) = k" using c k by (simp add: old_crowd_def unat_of_nat)
    then show "h_ticket s \<noteq> 0" using k by auto
    have "h_ticket s \<noteq> 4" using u k by auto
    then show "h_ticket s - hy_thr Old_Fast_Dequeue \<noteq> 0" by (simp add: hy_thr_def hy_threshold_def)
  qed
  let ?d = "(drop_bit 24 (h_val s) - drop_bit 16 (h_val s)) AND 0xFF"
  let ?s1 = "s\<lparr>h_depth := (h_depth s)(k := ?d), h_pc := (h_pc s)(k := HTicket)\<rparr>"
  have ne: "\<not> hy_equal (h_val s)" "\<not> hy_enqueue Old_Fast_Dequeue (h_val s)"
    using tk c by (auto simp: hy_fast_iff hy_enqueue_iff old_crowd_def)
  have 1: "hy_step Old_Fast_Dequeue 257 k s = ?s1"
    using c k ne by (simp add: hy_step_def old_crowd_def hy_lock_acquire_def Let_def hy_set_depth_def)
  have "hy_step Old_Fast_Dequeue 257 k ?s1 = h_goto k (HSpin (h_val s)) (hy_set_depth k 0 (?s1\<lparr>h_ticket := h_ticket s + 1\<rparr>))"
    using k ne h_take [of ?s1] by (simp add: hy_step_def hy_take_ticket_def Let_def)
  with 1 have "run (hy_step Old_Fast_Dequeue 257) [k, k] s =
      h_goto k (HSpin (h_val s)) (hy_set_depth k 0 (?s1\<lparr>h_ticket := h_ticket s + 1\<rparr>))" by simp
  with c k show ?thesis by (simp add: old_crowd_def hy_set_depth_def add.commute)
qed

lemma old_crowd_all: "n \<le> 251 \<Longrightarrow> old_crowd (n + 5) (run (hy_step Old_Fast_Dequeue 257) (old_schedule n) hy_init_locks)"
proof (induction n)
  case 0
  then show ?case using old_crowd_start by simp
next
  case (Suc n)
  then have "old_crowd (n + 5) (run (hy_step Old_Fast_Dequeue 257) (old_schedule n) hy_init_locks)" by simp
  from old_crowd_step [OF this] Suc.prems show ?case by (simp add: run_append)
qed

text \<open>C35: with 257 threads the old variant, a file the build does not use, admits two owners at once: 256 threads
  hold a ticket, the 8-bit counter has come round to the ticket being served, and the next thread
  takes the fast path.\<close>

theorem hybrid_old_two_owners:
  "\<exists>ls. h_owner Old_Fast_Dequeue (h_pc (run (hy_step Old_Fast_Dequeue 257) ls hy_init_locks) 0) \<and>
        h_owner Old_Fast_Dequeue (h_pc (run (hy_step Old_Fast_Dequeue 257) ls hy_init_locks) 256)"
proof -
  let ?s = "run (hy_step Old_Fast_Dequeue 257) (old_schedule 251) hy_init_locks"
  have c: "old_crowd 256 ?s" using old_crowd_all [of 251] by simp
  then have "hy_equal (h_val ?s)" by (simp add: old_crowd_def hy_fast_iff hi8_def lo8_def)
  with c have "h_pc (hy_step Old_Fast_Dequeue 257 256 ?s) 256 = HCS"
    by (simp add: old_crowd_def hy_step_def hy_lock_acquire_def Let_def h_take hy_set_depth_def)
  moreover have "h_pc (hy_step Old_Fast_Dequeue 257 256 ?s) 0 = HCS" using c by (simp add: old_crowd_def h_step_other)
  ultimately show ?thesis
    by (intro exI [of _ "old_schedule 251 @ [256]"]) (simp add: run_append h_owner_def)
qed

end
