(* ===== verification/Lock_Refinement.thy ===== *)
theory Lock_Refinement
  imports Lock_Spec Ticket_Lock CLH_Lock Event_Mutex TBB_RW Queued_Progress Hybrid_Progress OSQ_Progress
begin

text \<open>
  The exclusive locks refine the abstract lock: the interpretations of the interface \<open>lock_system\<close>; and the reader-writer
  mutex refines the abstract reader-writer lock.
\<close>

interpretation ticket_lock: lock_system "ticket_init a N" "ticket_step a N" "ticket_inv a N" ticket_holds id for a N
proof
  show "ticket_holds (ticket_step a N i s) j = ticket_holds s j" if "j \<noteq> id i" for s i j
    using that by (cases "tk_pc s i") (auto simp: ticket_step_def ticket_lock_acquire_def ticket_spin_def
        ticket_lock_release_def ticket_release_store_def ticket_holds_def Let_def split: arch.split)
qed (simp add: ticket_init_def ticket_start_def ticket_holds_def)

interpretation clh_lock: lock_system "clh_init N" "clh_step w N" "clh_inv N" clh_holds id for w N
proof
  show "clh_holds (clh_step w N i s) j = clh_holds s j" if "j \<noteq> id i" for s i j
    using that by (simp add: clh_holds_def clh_step_other)
  show "\<not> clh_holds s i" if "clh_init N s" for s i
  proof -
    from clh_queue_start [OF that] have "\<not> clh_queued (clh_pc s i)"
      by (cases "i < N") (auto simp: clh_queue_def clh_queued_def)
    then show ?thesis by (auto simp: clh_holds_def clh_queued_def split: clh_pc.splits)
  qed
qed

interpretation event_mutex_lock: lock_system "\<lambda>s. s = event_mutex_init" "em_step v N" em_inv em_holds fst for v N
proof
  show "em_holds (em_step v N l s) j = em_holds s j" if "j \<noteq> fst l" for s l j
    using that by (cases "em_pc s (fst l)") (simp_all add: em_holds_def em_step_def em_step_defs split: em_variant.split)
qed (simp add: event_mutex_init_def em_holds_def)

interpretation queued_lock: lock_system
  "\<lambda>s. N \<le> 16383 \<and> s = mcs_init_locks" "q_step N" "q_inv N" "\<lambda>s i. q_owner (q_pc s i)" id for N
  by unfold_locales (auto simp: q_step_other mcs_init_locks_def q_owner_def)

interpretation hybrid_lock: lock_system "h_init v N" "hy_step v N" "h_inv v N" "\<lambda>s i. h_owner v (h_pc s i)" id for v N
  by unfold_locales (auto simp: h_step_other hy_init_locks_def h_owner_def)

lemma o_step_other: "j \<noteq> i \<Longrightarrow> o_pc (osq_step retry N i s) j = o_pc s j"
  by (cases "o_pc s i") (simp_all add: osq_step_def osq_step_defs)

interpretation osq_lock: lock_system
  "\<lambda>s. N < 2 ^ 31 \<and> s = osq_queue_init" "osq_step retry N" "o_inv N" "\<lambda>s i. o_owner (o_pc s i)" id for retry N
  by unfold_locales (auto simp: o_step_other osq_queue_init_def o_owner_def)

interpretation tbb_rw_lock: rw_system "tbb_init N" "tbb_step N" "tbb_inv N" tbb_reads tbb_writes id for N
proof
  show "i = j" if "tbb_inv N s" "tbb_writes s i" "tbb_writes s j" for s i j using tbb.holds_excl [OF that] .
  show "\<not> tbb_reads s j" if "tbb_inv N s" "tbb_writes s i" for s i j using that by (auto simp: tbb_inv_def tbb_writes_def tbb_reads_def)
  show "tbb_reads (tbb_step N i s) j = tbb_reads s j \<and> tbb_writes (tbb_step N i s) j = tbb_writes s j" if "j \<noteq> id i" for s i j
    using that by (cases "tb_pc s i") (auto simp: tbb_writes_def tbb_reads_def tbb_step_def tbb_lock_acquire_def acquire_writer_load_def
        acquire_writer_cas_def acquire_writer_or_def acquire_reader_load_def acquire_reader_add_def acquire_reader_undo_def
        tbb_lock_release_def is_writer_def Let_def split: prod.splits)
qed (auto simp: tbb_init_def tbb_init_locks_def tbb_writes_def tbb_reads_def)

end
