(* ===== verification/TBB_Progress.thy ===== *)
theory TBB_Progress
  imports TBB_RW
begin

text \<open>
  The TBB mutex never deadlocks. The point that needs care is the request bit: readers do not enter while it is set, so someone must
  be on the way who clears it by taking the lock.
\<close>

section \<open>The request bit\<close>

definition tbb_wants :: "tbb_pc \<Rightarrow> bool" where
  "tbb_wants p = (case p of TbWLoad \<Rightarrow> True | TbWCAS _ \<Rightarrow> True | _ \<Rightarrow> False)"

definition tbb_pending :: "tbb_state \<Rightarrow> bool" where
  "tbb_pending s \<longleftrightarrow> tb_word s AND WRITER_PENDING \<noteq> 0"

definition tbb_asked :: "tbb_state \<Rightarrow> bool" where
  "tbb_asked s \<longleftrightarrow> (tbb_pending s \<longrightarrow> (\<exists>i. tbb_wants (tb_pc s i)))"

lemma tbb_wants_simps [simp]: "tbb_wants TbWLoad" "tbb_wants (TbWCAS v)" "\<not> tbb_wants TbIdle" "\<not> tbb_wants TbWOr" "\<not> tbb_wants TbRLoad"
  "\<not> tbb_wants TbRAdd" "\<not> tbb_wants TbRUndo" "\<not> tbb_wants TbWHold" "\<not> tbb_wants TbRHold"
  by (simp_all add: tbb_wants_def)

text \<open>Counting a reader in or out leaves the request bit; a writer that comes or goes clears it.\<close>

lemma tbb_pending_add: "tbb_inv N s \<Longrightarrow> tb_word s' = tb_word s + ONE_READER \<Longrightarrow> tbb_pending s' = tbb_pending s"
  by (elim tbb_inv_word) (simp only: tbb_pending_def tbb_enc_add tbb_enc_flags)

lemma tbb_pending_sub:
  assumes "tbb_inv N s" "i < N" "tbb_counted (tb_pc s i) = 1" "tb_word s' = tb_word s + - ONE_READER"
  shows "tbb_pending s' = tbb_pending s"
proof -
  have "0 < tbb_count N s" using tbb_count_mem [OF assms(2), of s] assms(3) by simp
  then show ?thesis using assms(1,4) by (elim tbb_inv_word) (simp only: tbb_pending_def tbb_enc_add tbb_enc_flags)
qed

lemma tbb_pending_leave: "tbb_inv N s \<Longrightarrow> tb_word s' = tb_word s AND READERS \<Longrightarrow> \<not> tbb_pending s'"
  by (elim tbb_inv_word) (simp only: tbb_pending_def tbb_enc_update tbb_enc_flags simp_thms)

lemma tbb_asked_keep:
  assumes "tbb_asked s" "tbb_pending s' \<Longrightarrow> tbb_pending s" "tb_pc s' = (tb_pc s)(i := p)" "tbb_wants (tb_pc s i) \<Longrightarrow> tbb_wants p"
  shows "tbb_asked s'"
  using assms unfolding tbb_asked_def by (metis fun_upd_apply)

lemma tbb_asked_step:
  assumes inv: "tbb_inv N s" and a: "tbb_asked s"
  shows "tbb_asked (tbb_step N i s)"
proof (cases "i < N")
  case i: True
  have m: "tbb_mode_ok s i" using inv by (simp add: tbb_inv_def)
  note keep = tbb_asked_keep [OF a, where i = i]
  show ?thesis
  proof (cases "tb_pc s i")
    case TbIdle
    then show ?thesis using i by (cases "tb_pure s i"; intro keep [where p = "tb_pc (tbb_step N i s) i"])
        (auto simp: tbb_step_def tbb_step_defs tbb_pending_def)
  next
    case TbWLoad
    show ?thesis
    proof (cases "tb_word s AND BUSY = 0 \<or> tbb_pending s")
      case True
      then show ?thesis using TbWLoad i
        by (intro keep [where p = "tb_pc (tbb_step N i s) i"]) (auto simp: tbb_step_def tbb_step_defs tbb_pending_def)
    next
      case False
      then have "\<not> tbb_pending (tbb_step N i s)" using TbWLoad i by (simp add: tbb_step_def tbb_step_defs tbb_pending_def)
      then show ?thesis by (simp add: tbb_asked_def)
    qed
  next
    case (TbWCAS seen)
    show ?thesis
    proof (cases "tb_word s = seen")
      case True
      then have "\<not> tbb_pending (tbb_step N i s)" using TbWCAS i by (simp add: tbb_step_def tbb_step_defs tbb_pending_def)
      then show ?thesis by (simp add: tbb_asked_def)
    next
      case False
      then show ?thesis using TbWCAS i by (intro keep [where p = TbWLoad]) (auto simp: tbb_step_def tbb_step_defs tbb_pending_def)
    qed
  next
    case TbWOr
    then have "tbb_wants (tb_pc (tbb_step N i s) i)" using i by (simp add: tbb_step_def tbb_step_defs)
    then show ?thesis by (auto simp: tbb_asked_def)
  next
    case TbRLoad
    then show ?thesis using i by (intro keep [where p = "tb_pc (tbb_step N i s) i"])
        (auto simp: tbb_step_def tbb_step_defs tbb_pending_def split: if_splits)
  next
    case TbRAdd
    then show ?thesis using i tbb_pending_add [OF inv, of "tbb_step N i s"]
      by (intro keep [where p = "tb_pc (tbb_step N i s) i"]) (auto simp: tbb_step_def tbb_step_defs)
  next
    case TbRUndo
    then show ?thesis using i tbb_pending_sub [OF inv i, of "tbb_step N i s"]
      by (intro keep [where p = TbRLoad]) (auto simp: tbb_step_def tbb_step_defs tbb_counted_def)
  next
    case TbWHold
    then have "\<not> tbb_pending (tbb_step N i s)"
      using i m tbb_pending_leave [OF inv, of "tbb_step N i s"] by (simp add: tbb_step_def tbb_step_defs tbb_mode_defs)
    then show ?thesis by (simp add: tbb_asked_def)
  next
    case TbRHold
    then show ?thesis using i m tbb_pending_sub [OF inv i, of "tbb_step N i s"]
      by (intro keep [where p = TbIdle]) (auto simp: tbb_step_def tbb_step_defs tbb_counted_def tbb_mode_defs)
  qed
qed (use a in \<open>simp add: tbb_step_def\<close>)

section \<open>The way to an idle lock\<close>

definition tbb_rank :: "tbb_pc \<Rightarrow> nat" where
  "tbb_rank p = (case p of TbIdle \<Rightarrow> 0 | TbWHold \<Rightarrow> 1 | TbRHold \<Rightarrow> 1 | TbWLoad \<Rightarrow> 2 | TbWCAS _ \<Rightarrow> 2 | TbWOr \<Rightarrow> 3 | TbRAdd \<Rightarrow> 2 | TbRLoad \<Rightarrow> 3 | TbRUndo \<Rightarrow> 4)"

definition tbb_stale :: "u64 \<Rightarrow> tbb_pc \<Rightarrow> nat" where
  "tbb_stale w p = (case p of TbWLoad \<Rightarrow> 1 | TbWCAS seen \<Rightarrow> if seen = w then 0 else 2 | _ \<Rightarrow> 0)"

definition tbb_distance :: "nat \<Rightarrow> tbb_state \<Rightarrow> nat" where
  "tbb_distance N s = (\<Sum>j<N. tbb_rank (tb_pc s j)) * (2 * N + 1) + (\<Sum>j<N. tbb_stale (tb_word s) (tb_pc s j))"

text \<open>A step that lowers the rank of its thread brings the lock closer to idle, whatever it does to the word.\<close>

lemma tbb_rank_closer:
  assumes "i < N" "tb_pc s' = (tb_pc s)(i := p)" "tbb_rank p < tbb_rank (tb_pc s i)"
  shows "tbb_distance N s' < tbb_distance N s"
proof -
  have "(\<Sum>j<N. tbb_stale (tb_word s') (tb_pc s' j)) \<le> (\<Sum>j<N. 2)"
    by (rule sum_mono) (simp add: tbb_stale_def split: tbb_pc.split)
  then have st: "(\<Sum>j<N. tbb_stale (tb_word s') (tb_pc s' j)) \<le> 2 * N" by simp
  have "(\<Sum>j<N. tbb_rank (tb_pc s' j)) < (\<Sum>j<N. tbb_rank (tb_pc s j))"
    using sum_fun_upd_less [of i N tbb_rank p "tb_pc s"] assms by simp
  then have "Suc (\<Sum>j<N. tbb_rank (tb_pc s' j)) * (2 * N + 1) \<le> (\<Sum>j<N. tbb_rank (tb_pc s j)) * (2 * N + 1)"
    by (intro mult_le_mono1) simp
  then show ?thesis using st by (simp add: tbb_distance_def)
qed

lemma tbb_stale_closer:
  assumes "i < N" "tb_pc s' = (tb_pc s)(i := p)" "tb_word s' = tb_word s" "tbb_rank p = tbb_rank (tb_pc s i)" "tbb_stale (tb_word s) p < tbb_stale (tb_word s) (tb_pc s i)"
  shows "tbb_distance N s' < tbb_distance N s"
proof -
  have "(\<Sum>j<N. tbb_rank (tb_pc s' j)) = (\<Sum>j<N. tbb_rank (tb_pc s j))"
    using sum_fun_upd [OF assms(1), of tbb_rank "tb_pc s" p] assms(2,4) by simp
  moreover have "(\<Sum>j<N. tbb_stale (tb_word s') (tb_pc s' j)) < (\<Sum>j<N. tbb_stale (tb_word s) (tb_pc s j))"
    using sum_fun_upd_less [of i N "tbb_stale (tb_word s)" p "tb_pc s"] assms by simp
  ultimately show ?thesis by (simp add: tbb_distance_def)
qed

text \<open>A thread at one of these positions goes on whatever the others do, once nobody holds the lock or is counted in.\<close>

lemma tbb_free_word:
  assumes inv: "tbb_inv N s" and free: "\<And>j. tb_pc s j \<noteq> TbWHold" "\<And>j. tb_pc s j \<noteq> TbRHold" "\<And>j. tb_pc s j \<noteq> TbRUndo"
  shows "tb_word s AND BUSY = 0" "tb_word s AND WRITER = 0" "tb_word s AND (WRITER OR WRITER_PENDING) = 0 \<longleftrightarrow> \<not> tbb_pending s" "\<not> tbb_pending s \<Longrightarrow> tb_word s = 0"
proof -
  have c: "tbb_count N s = 0" using free by (simp add: tbb_count_def tbb_counted_def)
  obtain p where p: "tb_word s = tbb_enc (\<exists>i. tb_pc s i = TbWHold) p (tbb_count N s)" using inv by (rule tbb_inv_word)
  then have w: "tb_word s = tbb_enc False p 0" using free c by simp
  show "tb_word s AND BUSY = 0" using tbb_enc_busy [of 0 False p] by (simp only: w) simp
  show "tb_word s AND WRITER = 0" by (simp only: w tbb_enc_flags simp_thms)
  show "tb_word s AND (WRITER OR WRITER_PENDING) = 0 \<longleftrightarrow> \<not> tbb_pending s" unfolding w tbb_enc_both tbb_pending_def tbb_enc_flags by simp
  show "tb_word s = 0" if "\<not> tbb_pending s"
  proof -
    have "\<not> p" using that unfolding tbb_pending_def w tbb_enc_flags by simp
    then show ?thesis by (simp add: w tbb_enc_value)
  qed
qed

lemma tbb_holder_moves:
  assumes inv: "tbb_inv N s" and h: "tb_pc s j = TbWHold \<or> tb_pc s j = TbRHold \<or> tb_pc s j = TbRUndo"
  shows "\<exists>l. tbb_distance N (tbb_step N l s) < tbb_distance N s"
proof -
  have j: "j < N" using inv h by (cases "j < N") (auto simp: tbb_inv_def)
  have "tbb_mode_ok s j" using inv by (simp add: tbb_inv_def)
  then have "tbb_distance N (tbb_step N j s) < tbb_distance N s"
    using j h by (intro tbb_rank_closer [where i = j and p = "tb_pc (tbb_step N j s) j"])
      (auto simp: tbb_step_def tbb_step_defs tbb_rank_def tbb_mode_defs)
  then show ?thesis ..
qed

lemma tbb_someone_moves:
  assumes inv: "tbb_inv N s" and a: "tbb_asked s" and busy: "\<exists>j. tb_pc s j \<noteq> TbIdle"
  shows "\<exists>l. tbb_distance N (tbb_step N l s) < tbb_distance N s"
proof (cases "\<exists>j. tb_pc s j = TbWHold \<or> tb_pc s j = TbRHold \<or> tb_pc s j = TbRUndo")
  case True
  then show ?thesis using tbb_holder_moves [OF inv] by blast
next
  case False
  then have free: "tb_word s AND BUSY = 0" "tb_word s AND WRITER = 0" "tb_word s AND (WRITER OR WRITER_PENDING) = 0 \<longleftrightarrow> \<not> tbb_pending s"
    using tbb_free_word [OF inv] by blast+
  have lt: "j < N" if "tb_pc s j \<noteq> TbIdle" for j using inv that by (cases "j < N") (auto simp: tbb_inv_def)
  have w: "tbb_distance N (tbb_step N j s) < tbb_distance N s" if "tbb_wants (tb_pc s j)" for j
  proof -
    have j: "j < N" using that by (intro lt) auto
    show ?thesis
    proof (cases "tb_pc s j")
      case TbWLoad
      then show ?thesis using j free by (intro tbb_stale_closer [where i = j and p = "TbWCAS (tb_word s)"])
          (simp_all add: tbb_step_def tbb_step_defs tbb_rank_def tbb_stale_def)
    next
      case (TbWCAS seen)
      show ?thesis
      proof (cases "tb_word s = seen")
        case True
        then show ?thesis using TbWCAS j by (intro tbb_rank_closer [where i = j and p = TbWHold]) (simp_all add: tbb_step_def tbb_step_defs tbb_rank_def)
      next
        case False
        then show ?thesis using TbWCAS j by (intro tbb_stale_closer [where i = j and p = TbWLoad])
            (auto simp: tbb_step_def tbb_step_defs tbb_rank_def tbb_stale_def)
      qed
    qed (use that in simp_all)
  qed
  show ?thesis
  proof (cases "\<exists>j. tbb_wants (tb_pc s j)")
    case True
    then show ?thesis using w by blast
  next
    case none: False
    then have np: "\<not> tbb_pending s" using a by (simp add: tbb_asked_def)
    obtain j where j: "tb_pc s j \<noteq> TbIdle" using busy by blast
    have "tbb_distance N (tbb_step N j s) < tbb_distance N s"
    proof (cases "tb_pc s j")
      case TbWOr
      then show ?thesis using lt [OF j] by (intro tbb_rank_closer [where i = j and p = TbWLoad]) (simp_all add: tbb_step_def tbb_step_defs tbb_rank_def)
    next
      case TbRLoad
      then show ?thesis using lt [OF j] free np by (intro tbb_rank_closer [where i = j and p = TbRAdd]) (simp_all add: tbb_step_def tbb_step_defs tbb_rank_def)
    next
      case TbRAdd
      then show ?thesis using lt [OF j] free by (intro tbb_rank_closer [where i = j and p = TbRHold]) (simp_all add: tbb_step_def tbb_step_defs tbb_rank_def)
    qed (use j False none in \<open>auto, metis tbb_wants_simps(1), metis tbb_wants_simps(2)\<close>)
    then show ?thesis ..
  qed
qed

interpretation tbb_progress: progress_system "tbb_init N" "tbb_step N" "\<lambda>s. tbb_inv N s \<and> tbb_asked s" "\<lambda>s. \<forall>j. tb_pc s j = TbIdle" "tbb_distance N" for N
proof
  show "tbb_inv N s \<and> tbb_asked s" if "tbb_init N s" for s
    using tbb.inv_init [OF that] that by (auto simp: tbb_asked_def tbb_pending_def tbb_init_def tbb_init_locks_def)
  show "tbb_inv N (tbb_step N l s) \<and> tbb_asked (tbb_step N l s)" if "tbb_inv N s \<and> tbb_asked s" for s l
    using that tbb_inv_step tbb_asked_step by blast
  show "\<exists>l. tbb_distance N (tbb_step N l s) < tbb_distance N s" if "tbb_inv N s \<and> tbb_asked s" "\<not> (\<forall>j. tb_pc s j = TbIdle)" for s
    using that tbb_someone_moves by blast
qed

text \<open>From an idle lock a thread gets in with three steps.\<close>

lemma tbb_idle_enters:
  assumes inv: "tbb_inv N s" and a: "tbb_asked s" and idle: "\<forall>i. tb_pc s i = TbIdle" and j: "j < N"
  shows "tbb_writes (run (tbb_step N) [j, j, j] s) j \<or> tbb_reads (run (tbb_step N) [j, j, j] s) j"
proof -
  have "\<not> tbb_pending s" using a idle by (simp add: tbb_asked_def)
  then have w: "tb_word s = 0" using tbb_free_word [OF inv] idle by simp
  let ?s = "tbb_step N j s"
  have pc: "tb_pc ?s j = TbWLoad \<or> tb_pc ?s j = TbRLoad" and w': "tb_word ?s = 0"
    using idle j w by (auto simp: tbb_step_def tbb_step_defs)
  then show ?thesis using j by (auto simp: tbb_step_def tbb_step_defs tbb_writes_def tbb_reads_def)
qed

section \<open>Properties\<close>

text \<open>C19: no run reaches a state from which a given thread can no longer obtain the mutex, as a reader or as a writer, whichever its turn is; a
  request bit without a writer that wants the lock never keeps the readers out.\<close>

theorem tbb_never_stuck:
  assumes "N < 2 ^ 62" "j < N"
  shows "\<exists>ms. tbb_writes (run (tbb_step N) (ls @ ms) (tbb_init_locks p cpulist)) j \<or> tbb_reads (run (tbb_step N) (ls @ ms) (tbb_init_locks p cpulist)) j"
proof -
  have init: "tbb_init N (tbb_init_locks p cpulist)" using assms(1) by (auto simp: tbb_init_def)
  from tbb_progress.never_stuck [OF init, of ls] obtain ms where "\<forall>i. tb_pc (run (tbb_step N) (ls @ ms) (tbb_init_locks p cpulist)) i = TbIdle" by blast
  with tbb_idle_enters [OF _ _ this assms(2)] tbb_progress.reachable_inv [OF init, of "ls @ ms"]
  have "tbb_writes (run (tbb_step N) (ls @ (ms @ [j, j, j])) (tbb_init_locks p cpulist)) j \<or>
      tbb_reads (run (tbb_step N) (ls @ (ms @ [j, j, j])) (tbb_init_locks p cpulist)) j" by (simp add: run_append)
  then show ?thesis ..
qed

text \<open>The reader holds the mutex and the writer has set the request bit.\<close>

theorem tbb_never_stuck_witness:
  "\<exists>ms. tbb_writes (run (tbb_step 2) ([0, 0, 0, 1, 1, 1] @ ms) tbb_example) 1 \<or> tbb_reads (run (tbb_step 2) ([0, 0, 0, 1, 1, 1] @ ms) tbb_example) 1"
  using tbb_never_stuck [of 2 1 "[0, 0, 0, 1, 1, 1]"] unfolding tbb_example_def by simp

end
