(* ===== verification/Word_Locks.thy ===== *)
theory Word_Locks
  imports Lock_Spec Atomics
begin

text \<open>
  The algorithms under \<open>tests/\<close>, which keep all their state in the 64-bit lock word: the test-and-set lock
  \<open>swap_mutex.h\<close>, and three ways to count the threads inside, which exclude nobody: \<open>incdec_refcount.h\<close>,
  \<open>cas_rw_lock.h\<close> (readers of a reader-writer semaphore) and \<open>cas_lockref.h\<close> (a count beside a spinlock that is never
  taken). A step is one access to the word. The functions of \<open>atomics.h\<close> are those of \<open>Atomics\<close>, in every build: fetch-and-add and
  exchange are one atomic access in all of them, compare-and-swap only in the assembly builds.
\<close>

section \<open>\<open>swap_mutex.h\<close>\<close>

datatype swap_pc = SwIdle | SwSwap | SwHold

record swap_state =
  sw_lock :: u64
  sw_pc :: "tid \<Rightarrow> swap_pc"

definition swap_start :: swap_state where
  "swap_start = \<lparr>sw_lock = 0, sw_pc = (\<lambda>_. SwIdle)\<rparr>"

text \<open>One exchange of the loop of \<open>lock_acquire\<close>, and the store of \<open>lock_release\<close>.\<close>

definition swap_lock_acquire :: "tid \<Rightarrow> swap_state \<Rightarrow> swap_state" where
  "swap_lock_acquire i s = (let val = sw_lock s in
     s\<lparr>sw_lock := 1, sw_pc := (sw_pc s)(i := if val = 0 then SwHold else SwSwap)\<rparr>)"

definition swap_lock_release :: "tid \<Rightarrow> swap_state \<Rightarrow> swap_state" where
  "swap_lock_release i s = s\<lparr>sw_lock := 0, sw_pc := (sw_pc s)(i := SwIdle)\<rparr>"

definition swap_step :: "nat \<Rightarrow> tid \<Rightarrow> swap_state \<Rightarrow> swap_state" where
  "swap_step N i s = (if i < N then (case sw_pc s i of SwHold \<Rightarrow> swap_lock_release i s | _ \<Rightarrow> swap_lock_acquire i s) else s)"

definition swap_inv :: "swap_state \<Rightarrow> bool" where
  "swap_inv s \<longleftrightarrow> flag_ok (sw_lock s) (\<lambda>i. sw_pc s i = SwHold)"

definition swap_holds :: "swap_state \<Rightarrow> tid \<Rightarrow> bool" where
  "swap_holds s i \<longleftrightarrow> sw_pc s i = SwHold"

lemma swap_inv_step: "swap_inv s \<Longrightarrow> swap_inv (swap_step N i s)"
proof -
  assume inv: "swap_inv s"
  have a: "swap_inv (swap_lock_acquire i s)" if "sw_pc s i \<noteq> SwHold"
  proof (cases "sw_lock s = 0")
    case True
    have "(\<lambda>j. ((sw_pc s)(i := SwHold)) j = SwHold) = (\<lambda>j. sw_pc s j = SwHold)(i := True)" by auto
    with True flag_ok_set [of "\<lambda>i. sw_pc s i = SwHold" i] inv show ?thesis by (simp add: swap_inv_def swap_lock_acquire_def)
  next
    case False
    have "(\<lambda>j. ((sw_pc s)(i := SwSwap)) j = SwHold) = (\<lambda>j. sw_pc s j = SwHold)" using that by auto
    moreover have "sw_lock s = 1" using False inv flag_ok_bit [of "sw_lock s"] by (auto simp: swap_inv_def)
    ultimately show ?thesis using inv by (simp add: swap_inv_def swap_lock_acquire_def)
  qed
  have r: "swap_inv (swap_lock_release i s)" if "sw_pc s i = SwHold"
  proof -
    have "(\<lambda>j. ((sw_pc s)(i := SwIdle)) j = SwHold) = (\<lambda>j. sw_pc s j = SwHold)(i := False)" by auto
    then show ?thesis using flag_ok_clear [of "sw_lock s" "\<lambda>i. sw_pc s i = SwHold" i] inv that
      by (simp add: swap_inv_def swap_lock_release_def)
  qed
  show ?thesis using a r inv by (auto simp: swap_step_def split: swap_pc.split)
qed

interpretation swap: lock_system "\<lambda>s. s = swap_start" "swap_step N" swap_inv swap_holds id for N
proof
  show "swap_inv s" if "s = swap_start" for s using that by (simp add: swap_inv_def swap_start_def flag_ok_def)
  show "swap_inv (swap_step N l s)" if "swap_inv s" for l s by (rule swap_inv_step [OF that])
  show "i = j" if "swap_inv s" "swap_holds s i" "swap_holds s j" for s i j
    using that flag_ok_excl [of "sw_lock s" "\<lambda>i. sw_pc s i = SwHold"] by (simp add: swap_inv_def swap_holds_def)
  show "swap_holds (swap_step N l s) j = swap_holds s j" if "j \<noteq> id l" for l s j
    using that by (cases "sw_pc s l") (auto simp: swap_step_def swap_lock_acquire_def swap_lock_release_def swap_holds_def)
qed (simp add: swap_start_def swap_holds_def)

text \<open>A thread gets the lock after at most one release and two exchanges.\<close>

definition swap_distance :: "nat \<Rightarrow> tid \<Rightarrow> swap_state \<Rightarrow> nat" where
  "swap_distance N j s = (if swap_holds s j then 0 else if sw_lock s = 0 then 1 else 2)"

definition swap_inv_N :: "nat \<Rightarrow> swap_state \<Rightarrow> bool" where
  "swap_inv_N N s \<longleftrightarrow> swap_inv s \<and> (\<forall>i. swap_holds s i \<longrightarrow> i < N)"

interpretation swap_progress: progress_system "\<lambda>s. s = swap_start \<and> j < N" "swap_step N" "\<lambda>s. swap_inv_N N s \<and> j < N"
  "\<lambda>s. swap_holds s j" "swap_distance N j" for N j
proof
  show "swap_inv_N N s \<and> j < N" if "s = swap_start \<and> j < N" for s
    using that swap.inv_init by (simp add: swap_inv_N_def swap.init_free)
  show "swap_inv_N N (swap_step N l s) \<and> j < N" if "swap_inv_N N s \<and> j < N" for l s
    using that swap_inv_step [of s N l] swap.holds_other [of s _ l N]
    by (auto simp: swap_inv_N_def) (metis id_apply swap_step_def)
  show "\<exists>l. swap_distance N j (swap_step N l s) < swap_distance N j s" if s: "swap_inv_N N s \<and> j < N" "\<not> swap_holds s j" for s
  proof (cases "sw_lock s = 0")
    case True
    have "swap_holds (swap_step N j s) j" using s True
      by (cases "sw_pc s j") (auto simp: swap_step_def swap_lock_acquire_def swap_holds_def)
    then have "swap_distance N j (swap_step N j s) < swap_distance N j s" using s(2) by (simp add: swap_distance_def)
    then show ?thesis ..
  next
    case False
    then obtain k where k: "swap_holds s k" using s(1) flag_ok_zero [of "sw_lock s" "\<lambda>i. sw_pc s i = SwHold"]
      by (auto simp: swap_inv_N_def swap_inv_def swap_holds_def)
    then have "sw_lock (swap_step N k s) = 0" using s(1) by (simp add: swap_inv_N_def swap_holds_def swap_step_def swap_lock_release_def)
    then have "swap_distance N j (swap_step N k s) < swap_distance N j s" using s(2) False by (simp add: swap_distance_def)
    then show ?thesis ..
  qed
qed

section \<open>The counting algorithms\<close>

text \<open>
  Positions of a thread: before an access of \<open>lock_acquire\<close> or \<open>lock_release\<close>, with the value it has loaded, or inside
  with the depth it was given; \<open>CtRefused\<close> is the last line of \<open>lock_acquire\<close> of \<open>cas_rw_lock.h\<close>, where the thread is
  not counted.
\<close>

datatype count_pc = CtIdle | CtLoad | CtCas u64 | CtHold u64 | CtRefused | CtRelLoad | CtRelCas u64

record count_state =
  ct_lock :: u64
  ct_pc :: "tid \<Rightarrow> count_pc"

abbreviation ct_goto :: "tid \<Rightarrow> count_pc \<Rightarrow> count_state \<Rightarrow> count_state" where
  "ct_goto i p s \<equiv> s\<lparr>ct_pc := (ct_pc s)(i := p)\<rparr>"

text \<open>A compare-and-swap function of \<open>atomics.h\<close>, and the branch on the value it returns. \<open>fails\<close>: its first attempt fails on its own; the loop of the exclusive
  build then makes another one, the weak built-in returns.\<close>

definition cas_goto :: "(build \<Rightarrow> u64 attempt list \<Rightarrow> u64 \<Rightarrow> u64 \<Rightarrow> u64 \<Rightarrow> u64 rmw option) \<Rightarrow> build \<Rightarrow> bool \<Rightarrow> tid \<Rightarrow> u64 \<Rightarrow> u64 \<Rightarrow> count_pc \<Rightarrow> count_pc \<Rightarrow>
    count_state \<Rightarrow> count_state" where
  "cas_goto cas b fails i val old p q s =
     (let r = the (cas b [\<lparr>before_load = None, before_store = None, spurious = fails\<rparr>, quiet] (ct_lock s) val old)
      in ct_goto i (if rmw_old r = old then p else q) (s\<lparr>ct_lock := rmw_new r\<rparr>))"

lemma cas_goto_asm:
  assumes "asm_build b" "cas \<in> {cas64, cas64_acquire, cas64_release, cas64_acquire_release}"
  shows "cas_goto cas b fails i val old p q s = (if ct_lock s = old then ct_goto i p (s\<lparr>ct_lock := val\<rparr>) else ct_goto i q s)"
proof -
  let ?as = "[\<lparr>before_load = None, before_store = None, spurious = fails\<rparr>, quiet]"
  obtain r where r: "cas b ?as (ct_lock s) val old = Some r"
    using atomic_operation.returns [OF cas_operation [OF assms, of val old], of quiet ?as "ct_lock s"] by (auto simp: store_exclusive_ok_def)
  have "rmw_old r = ct_lock s" using atomic_operation.sequential [OF cas_operation [OF assms, of val old] _ r] by (simp add: undisturbed_def)
  moreover have "rmw_new r = (case cas_instr val old (rmw_old r) of None \<Rightarrow> rmw_old r | Some v \<Rightarrow> v)"
    by (rule atomic_operation.new_value [OF cas_operation [OF assms] r])
  ultimately show ?thesis by (simp add: cas_goto_def r cas_instr_def)
qed

subsection \<open>\<open>incdec_refcount.h\<close>\<close>

definition incdec_step :: "nat \<Rightarrow> tid \<Rightarrow> count_state \<Rightarrow> count_state" where
  "incdec_step N i s = (if i < N then (case ct_pc s i of
       CtIdle \<Rightarrow> ct_goto i (CtHold (ct_lock s)) (s\<lparr>ct_lock := ct_lock s + 1\<rparr>)
     | CtHold _ \<Rightarrow> ct_goto i CtIdle (s\<lparr>ct_lock := ct_lock s - 1\<rparr>)
     | _ \<Rightarrow> s) else s)"

subsection \<open>\<open>cas_rw_lock.h\<close>\<close>

definition CAS_RW_INIT_VAL :: u64 where "CAS_RW_INIT_VAL = 0x20000000"

definition CAS_RW_THRESHOLD :: int where "CAS_RW_THRESHOLD = 0"

text \<open>The test of the loop, on the value that was loaded.\<close>

definition cas_rw_test :: "u64 \<Rightarrow> count_pc" where
  "cas_rw_test old = (if sint old > CAS_RW_THRESHOLD then CtLoad else CtRefused)"

definition cas_rw_step :: "build \<Rightarrow> nat \<Rightarrow> tid \<times> bool \<Rightarrow> count_state \<Rightarrow> count_state" where
  "cas_rw_step b N l s = (case l of (i, fails) \<Rightarrow> if i < N then (case ct_pc s i of
       CtIdle \<Rightarrow> ct_goto i (cas_rw_test (ct_lock s)) s
     | CtLoad \<Rightarrow> ct_goto i (CtCas (ct_lock s)) s
     | CtCas old \<Rightarrow> cas_goto cas64_acquire b fails i (old - 1) old (CtHold (CAS_RW_INIT_VAL - old)) (cas_rw_test old) s
     | CtHold _ \<Rightarrow> ct_goto i CtIdle (s\<lparr>ct_lock := ct_lock s + 1\<rparr>)
     | CtRefused \<Rightarrow> ct_goto i CtIdle (s\<lparr>ct_lock := ct_lock s + 1\<rparr>)
     | _ \<Rightarrow> s) else s)"

subsection \<open>\<open>cas_lockref.h\<close>\<close>

text \<open>The waiting loops of \<open>lock_acquire\<close> and \<open>lock_release\<close>: load again while the spinlock in the lower half is taken.\<close>

definition lockref_acquire_load :: "tid \<Rightarrow> count_state \<Rightarrow> count_state" where
  "lockref_acquire_load i s = (let old = ct_lock s; val = old + 0x100000000 in
     ct_goto i (if old AND 0xFFFFFFFF \<noteq> 0 \<and> drop_bit 32 val \<le> 32 then CtLoad else CtCas old) s)"

definition lockref_release_load :: "tid \<Rightarrow> count_state \<Rightarrow> count_state" where
  "lockref_release_load i s = (let old = ct_lock s; val = old - 0x100000000 in
     ct_goto i (if old AND 0xFFFFFFFF \<noteq> 0 \<and> drop_bit 32 val > 0 then CtRelLoad else CtRelCas old) s)"

definition lockref_step :: "build \<Rightarrow> nat \<Rightarrow> tid \<times> bool \<Rightarrow> count_state \<Rightarrow> count_state" where
  "lockref_step b N l s = (case l of (i, fails) \<Rightarrow> if i < N then (case ct_pc s i of
       CtIdle \<Rightarrow> lockref_acquire_load i s
     | CtLoad \<Rightarrow> lockref_acquire_load i s
     | CtCas old \<Rightarrow> cas_goto cas64 b fails i (old + 0x100000000) old (CtHold (drop_bit 32 old)) CtLoad s
     | CtHold _ \<Rightarrow> lockref_release_load i s
     | CtRelLoad \<Rightarrow> lockref_release_load i s
     | CtRelCas old \<Rightarrow> cas_goto cas64 b fails i (old - 0x100000000) old CtIdle CtRelLoad s
     | CtRefused \<Rightarrow> s) else s)"

definition count_start :: "u64 \<Rightarrow> count_state" where
  "count_start w = \<lparr>ct_lock = w, ct_pc = (\<lambda>_. CtIdle)\<rparr>"

section \<open>The word counts\<close>

text \<open>Threads inside: from the access that counts them in to the access that counts them out.\<close>

definition ct_inside :: "count_pc \<Rightarrow> bool" where
  "ct_inside p \<longleftrightarrow> (case p of CtHold _ \<Rightarrow> True | CtRelLoad \<Rightarrow> True | CtRelCas _ \<Rightarrow> True | _ \<Rightarrow> False)"

definition ct_count :: "nat \<Rightarrow> count_state \<Rightarrow> nat" where
  "ct_count N s = (\<Sum>j<N. of_bool (ct_inside (ct_pc s j)))"

text \<open>A loaded value is the code of some number of threads; nobody is refused.\<close>

definition ct_pc_ok :: "(nat \<Rightarrow> u64) \<Rightarrow> nat \<Rightarrow> count_pc \<Rightarrow> bool" where
  "ct_pc_ok enc N p \<longleftrightarrow> (case p of CtCas old \<Rightarrow> \<exists>n\<le>N. old = enc n | CtRelCas old \<Rightarrow> \<exists>n\<le>N. old = enc n | CtRefused \<Rightarrow> False | _ \<Rightarrow> True)"

definition ct_inv :: "(nat \<Rightarrow> u64) \<Rightarrow> nat \<Rightarrow> count_state \<Rightarrow> bool" where
  "ct_inv enc N s \<longleftrightarrow> ct_lock s = enc (ct_count N s) \<and> (\<forall>i. ct_pc_ok enc N (ct_pc s i))"

text \<open>What one access may do: nothing to the word, count the thread in with the number of threads inside as its depth, or count it out.\<close>

definition ct_quiet :: "(nat \<Rightarrow> u64) \<Rightarrow> nat \<Rightarrow> tid \<Rightarrow> count_state \<Rightarrow> count_state \<Rightarrow> bool" where
  "ct_quiet enc N i s s' \<longleftrightarrow> (\<exists>p. s' = ct_goto i p s \<and> ct_inside p = ct_inside (ct_pc s i) \<and> ct_pc_ok enc N p)"

definition ct_enters :: "(nat \<Rightarrow> u64) \<Rightarrow> nat \<Rightarrow> tid \<Rightarrow> count_state \<Rightarrow> count_state \<Rightarrow> bool" where
  "ct_enters enc n i s s' \<longleftrightarrow> s' = ct_goto i (CtHold (of_nat n)) (s\<lparr>ct_lock := enc (Suc n)\<rparr>) \<and> \<not> ct_inside (ct_pc s i)"

definition ct_leaves :: "(nat \<Rightarrow> u64) \<Rightarrow> nat \<Rightarrow> tid \<Rightarrow> count_state \<Rightarrow> count_state \<Rightarrow> bool" where
  "ct_leaves enc n i s s' \<longleftrightarrow> s' = ct_goto i CtIdle (s\<lparr>ct_lock := enc (n - 1)\<rparr>) \<and> ct_inside (ct_pc s i)"

lemma ct_inside_simps [simp]: "\<not> ct_inside CtIdle" "\<not> ct_inside CtLoad" "\<not> ct_inside (CtCas v)" "ct_inside (CtHold v)" "\<not> ct_inside CtRefused"
  "ct_inside CtRelLoad" "ct_inside (CtRelCas v)"
  by (simp_all add: ct_inside_def)

lemma ct_pc_ok_simps [simp]: "ct_pc_ok enc N CtIdle" "ct_pc_ok enc N CtLoad" "ct_pc_ok enc N (CtHold v)" "\<not> ct_pc_ok enc N CtRefused"
  "ct_pc_ok enc N CtRelLoad" "ct_pc_ok enc N (CtCas v) \<longleftrightarrow> (\<exists>n\<le>N. v = enc n)" "ct_pc_ok enc N (CtRelCas v) \<longleftrightarrow> (\<exists>n\<le>N. v = enc n)"
  by (simp_all add: ct_pc_ok_def)

lemma ct_quietI: "s' = ct_goto i p s \<Longrightarrow> ct_inside p = ct_inside (ct_pc s i) \<Longrightarrow> ct_pc_ok enc N p \<Longrightarrow> ct_quiet enc N i s s'"
  by (auto simp: ct_quiet_def)

lemma ct_quiet_stay: "ct_pc_ok enc N (ct_pc s i) \<Longrightarrow> ct_quiet enc N i s s"
  by (rule ct_quietI [where p = "ct_pc s i"]) simp_all

lemma ct_count_goto:
  assumes "i < N" "ct_pc s' = (ct_pc s)(i := p)"
  shows "ct_count N s' + of_bool (ct_inside (ct_pc s i)) = ct_count N s + of_bool (ct_inside p)"
  using sum_fun_upd [OF assms(1), of "\<lambda>p. of_bool (ct_inside p)" "ct_pc s" p] assms(2) by (simp add: ct_count_def)

lemma ct_count_le: "ct_count N s \<le> N"
  using sum_bounded_above [of "{..<N}" "\<lambda>j. of_bool (ct_inside (ct_pc s j))" "1 :: nat"] by (simp add: ct_count_def)

lemma ct_count_card: "ct_count N s = card {j. j < N \<and> ct_inside (ct_pc s j)}"
  by (simp add: ct_count_def Int_def)

locale counting_system =
  fixes step :: "'l \<Rightarrow> count_state \<Rightarrow> count_state" and mover :: "'l \<Rightarrow> tid" and enc :: "nat \<Rightarrow> u64" and N bound :: nat
  assumes access: "N < bound \<Longrightarrow> mover l < N \<Longrightarrow> ct_inv enc N s \<Longrightarrow> n = ct_count N s \<Longrightarrow>
      ct_quiet enc N (mover l) s (step l s) \<or> ct_enters enc n (mover l) s (step l s) \<or> ct_leaves enc n (mover l) s (step l s)"
    and idle: "mover l \<ge> N \<Longrightarrow> step l s = s"
begin

lemma inv_access:
  assumes "N < bound" "ct_inv enc N s"
  shows "ct_inv enc N (step l s)"
proof (cases "mover l < N")
  let ?i = "mover l"
  case i: True
  have w: "ct_lock s = enc (ct_count N s)" and ok: "\<And>j. ct_pc_ok enc N (ct_pc s j)" using assms(2) by (auto simp: ct_inv_def)
  from access [OF assms(1) i assms(2) refl] consider
    (quiet) "ct_quiet enc N ?i s (step l s)" | (enters) "ct_enters enc (ct_count N s) ?i s (step l s)"
    | (leaves) "ct_leaves enc (ct_count N s) ?i s (step l s)" by blast
  then show ?thesis
  proof cases
    case quiet
    then obtain p where p: "step l s = ct_goto ?i p s" "ct_inside p = ct_inside (ct_pc s ?i)" "ct_pc_ok enc N p" by (auto simp: ct_quiet_def)
    have "ct_count N (step l s) = ct_count N s" using ct_count_goto [OF i, of "step l s" s p] p(1,2) by simp
    then show ?thesis using w ok p by (simp add: ct_inv_def)
  next
    case enters
    then have e: "step l s = ct_goto ?i (CtHold (of_nat (ct_count N s))) (s\<lparr>ct_lock := enc (Suc (ct_count N s))\<rparr>)" "\<not> ct_inside (ct_pc s ?i)"
      by (auto simp: ct_enters_def)
    have "ct_count N (step l s) = Suc (ct_count N s)"
      using ct_count_goto [OF i, of "step l s" s "CtHold (of_nat (ct_count N s))"] e by (simp add: ct_inside_def)
    then show ?thesis using ok e(1) by (simp add: ct_inv_def ct_pc_ok_def)
  next
    case leaves
    then have e: "step l s = ct_goto ?i CtIdle (s\<lparr>ct_lock := enc (ct_count N s - 1)\<rparr>)" "ct_inside (ct_pc s ?i)"
      by (auto simp: ct_leaves_def)
    have "ct_count N (step l s) = ct_count N s - 1"
      using ct_count_goto [OF i, of "step l s" s CtIdle] e by (simp add: ct_inside_def)
    then show ?thesis using ok e(1) by (simp add: ct_inv_def ct_pc_ok_def)
  qed
qed (use assms idle in simp)

lemma inv_start: "ct_inv enc N (count_start (enc 0))"
  by (simp add: ct_inv_def count_start_def ct_count_def ct_inside_def ct_pc_ok_def)

lemma depth:
  assumes "N < bound" "ct_inv enc N s" "\<not> ct_inside (ct_pc s (mover l))" "ct_pc (step l s) (mover l) = CtHold d"
  shows "d = of_nat (ct_count N s)"
proof (cases "mover l < N")
  case True
  from access [OF assms(1) this assms(2) refl] show ?thesis
    using assms(3,4) by (auto simp: ct_quiet_def ct_enters_def ct_leaves_def ct_inside_def)
qed (use assms idle [of l s] in \<open>simp add: ct_inside_def\<close>)

end

sublocale counting_system \<subseteq> invariant_system "\<lambda>s. N < bound \<and> s = count_start (enc 0)" step "\<lambda>s. N < bound \<and> ct_inv enc N s"
  by unfold_locales (use inv_start inv_access in auto)

text \<open>The algorithms.\<close>

lemma ct_lock_code: "ct_inv enc N s \<Longrightarrow> \<exists>n\<le>N. ct_lock s = enc n"
  using ct_count_le by (auto simp: ct_inv_def)

lemma ct_count_pos: "i < N \<Longrightarrow> ct_inside (ct_pc s i) \<Longrightarrow> 0 < ct_count N s"
  by (auto simp: ct_count_card card_gt_0_iff)

lemma of_nat_pred: "0 < n \<Longrightarrow> of_nat (n - 1) = (of_nat n - 1 :: 'a::ring_1)"
  by (simp add: of_nat_diff)

interpretation incdec: counting_system "incdec_step N" id of_nat N "2 ^ 64" for N
proof
  fix l :: tid and s n
  assume i': "id l < N" and inv: "ct_inv of_nat N s" and n: "n = ct_count N s"
  define i where "i = l"
  have i: "i < N" using i' by (simp add: i_def)
  have w: "ct_lock s = of_nat n" and stay: "ct_quiet of_nat N i s s" using inv n ct_quiet_stay by (auto simp: ct_inv_def)
  have "ct_quiet of_nat N i s (incdec_step N i s) \<or> ct_enters of_nat n i s (incdec_step N i s) \<or> ct_leaves of_nat n i s (incdec_step N i s)"
  proof (cases "ct_pc s i")
    case CtIdle
    then have "ct_enters of_nat n i s (incdec_step N i s)" using i w by (simp add: ct_enters_def incdec_step_def add.commute)
    then show ?thesis by blast
  next
    case (CtHold d)
    then have "0 < n" using ct_count_pos [OF i] n by simp
    then have "ct_leaves of_nat n i s (incdec_step N i s)"
      using CtHold i w of_nat_pred [of n] by (simp add: ct_leaves_def incdec_step_def )
    then show ?thesis by blast
  qed (use i stay in \<open>simp_all add: incdec_step_def\<close>)
  then show "ct_quiet of_nat N (id l) s (incdec_step N l s) \<or> ct_enters of_nat n (id l) s (incdec_step N l s) \<or> ct_leaves of_nat n (id l) s (incdec_step N l s)"
    by (simp add: i_def)
qed (simp add: incdec_step_def)

definition rw_code :: "nat \<Rightarrow> u64" where
  "rw_code n = CAS_RW_INIT_VAL - of_nat n"

lemma rw_code_positive:
  assumes "n \<le> N" "N < 0x20000000"
  shows "cas_rw_test (rw_code n) = CtLoad"
proof -
  have c: "rw_code n = of_nat (0x20000000 - n)" using assms by (simp add: rw_code_def CAS_RW_INIT_VAL_def of_nat_diff)
  have "sint (of_nat m :: u64) = int m" if "m \<le> 0x20000000" for m
    using that by (simp add: signed_of_nat signed_take_bit_int_eq_self)
  then have "sint (rw_code n) = int (0x20000000 - n)" unfolding c by simp
  then show ?thesis using assms by (simp add: cas_rw_test_def CAS_RW_THRESHOLD_def)
qed

interpretation rw: counting_system "cas_rw_step b N" fst rw_code N "if asm_build b then 0x20000000 else 0" for b N
proof
  fix l :: "tid \<times> bool" and s n
  assume N': "N < (if asm_build b then 0x20000000 else 0)" and i': "fst l < N" and inv: "ct_inv rw_code N s" and n: "n = ct_count N s"
  obtain i fails where l: "l = (i, fails)" by (cases l)
  have i: "i < N" and N: "N < 0x20000000" and b: "asm_build b" using i' N' l by (auto split: if_splits)
  have w: "ct_lock s = rw_code n" and nN: "n \<le> N" and ok: "ct_pc_ok rw_code N (ct_pc s i)"
    using inv n ct_count_le by (auto simp: ct_inv_def)
  let ?q = "ct_quiet rw_code N i s (cas_rw_step b N l s)"
  have "?q \<or> ct_enters rw_code n i s (cas_rw_step b N l s) \<or> ct_leaves rw_code n i s (cas_rw_step b N l s)"
  proof (cases "ct_pc s i")
    case CtIdle
    then have ?q using i w rw_code_positive [OF nN N] by (intro ct_quietI [where p = CtLoad]) (simp_all add: cas_rw_step_def l)
    then show ?thesis by blast
  next
    case CtLoad
    then have ?q using i w nN by (intro ct_quietI [where p = "CtCas (rw_code n)"]) (auto simp: cas_rw_step_def l)
    then show ?thesis by blast
  next
    case (CtCas old)
    then obtain k where k: "k \<le> N" "old = rw_code k" using ok by auto
    show ?thesis
    proof (cases "ct_lock s = old")
      case True
      have "CAS_RW_INIT_VAL - old = of_nat n" "old - 1 = rw_code (Suc n)" using True w by (auto simp: rw_code_def)
      then have "ct_enters rw_code n i s (cas_rw_step b N l s)"
        using True CtCas i by (simp add: ct_enters_def cas_rw_step_def l cas_goto_asm [OF b])
      then show ?thesis by blast
    next
      case False
      then have ?q using CtCas i rw_code_positive [OF k(1) N] k(2)
        by (intro ct_quietI [where p = CtLoad]) (simp_all add: cas_rw_step_def l cas_goto_asm [OF b])
      then show ?thesis by blast
    qed
  next
    case (CtHold d)
    then have "0 < n" using ct_count_pos [OF i] n by simp
    then have "ct_leaves rw_code n i s (cas_rw_step b N l s)"
      using CtHold i w of_nat_pred [of n, where 'a = u64] by (simp add: ct_leaves_def cas_rw_step_def l rw_code_def)
    then show ?thesis by blast
  next
    case CtRefused
    then show ?thesis using ok by simp
  qed (use i ok ct_quiet_stay [of rw_code N s i] in \<open>simp_all add: cas_rw_step_def l\<close>)
  then show "ct_quiet rw_code N (fst l) s (cas_rw_step b N l s) \<or> ct_enters rw_code n (fst l) s (cas_rw_step b N l s) \<or> ct_leaves rw_code n (fst l) s (cas_rw_step b N l s)"
    by (simp add: l)
qed (auto simp: cas_rw_step_def split: prod.split)

definition lockref_code :: "nat \<Rightarrow> u64" where
  "lockref_code n = of_nat n * 0x100000000"

lemma lockref_code_push: "lockref_code n = push_bit 32 (of_nat n)"
  by (simp add: lockref_code_def push_bit_eq_mult)

lemma lockref_code_low: "lockref_code n AND 0xFFFFFFFF = 0"
proof -
  have "lockref_code n AND mask 32 = 0" unfolding lockref_code_push by (rule bit_word_eqI) (auto simp: bit_simps)
  then show ?thesis by (simp add: mask_eq_exp_minus_1)
qed

lemma lockref_code_depth:
  assumes "n < 2 ^ 32"
  shows "drop_bit 32 (lockref_code n) = of_nat n"
proof -
  have "unat (lockref_code n) = n * 2 ^ 32"
  proof -
    have "lockref_code n = of_nat (n * 2 ^ 32)" by (simp add: lockref_code_def)
    moreover have "n * 2 ^ 32 < 2 ^ 64" using assms by simp
    ultimately show ?thesis by (simp only: unat_of_nat) simp
  qed
  then have "unat (drop_bit 32 (lockref_code n)) = n" by (simp only: unat_drop_bit_eq drop_bit_eq_div [where 'a = nat]) simp
  moreover have "unat (of_nat n :: u64) = n" using assms by (simp only: unat_of_nat) simp
  ultimately show ?thesis by (simp only: word_unat_eq_iff)
qed

interpretation lockref: counting_system "lockref_step b N" fst lockref_code N "if asm_build b then 2 ^ 32 else 0" for b N
proof
  fix l :: "tid \<times> bool" and s n
  assume N': "N < (if asm_build b then 2 ^ 32 else 0)" and i': "fst l < N" and inv: "ct_inv lockref_code N s" and n: "n = ct_count N s"
  obtain i fails where l: "l = (i, fails)" by (cases l)
  have i: "i < N" and N: "N < 2 ^ 32" and b: "asm_build b" using i' N' l by (auto split: if_splits)
  have w: "ct_lock s = lockref_code n" and nN: "n \<le> N" and ok: "ct_pc_ok lockref_code N (ct_pc s i)"
    using inv n ct_count_le by (auto simp: ct_inv_def)
  let ?q = "ct_quiet lockref_code N i s (lockref_step b N l s)"
  have load: "ct_quiet lockref_code N i s (lockref_acquire_load i s)" if "\<not> ct_inside (ct_pc s i)"
    using that w nN lockref_code_low [of n] by (intro ct_quietI [where p = "CtCas (lockref_code n)"]) (auto simp: lockref_acquire_load_def Let_def)
  have rel: "ct_quiet lockref_code N i s (lockref_release_load i s)" if "ct_inside (ct_pc s i)"
    using that w nN lockref_code_low [of n] by (intro ct_quietI [where p = "CtRelCas (lockref_code n)"]) (auto simp: lockref_release_load_def Let_def)
  have "?q \<or> ct_enters lockref_code n i s (lockref_step b N l s) \<or> ct_leaves lockref_code n i s (lockref_step b N l s)"
  proof (cases "ct_pc s i")
    case (CtCas old)
    show ?thesis
    proof (cases "ct_lock s = old")
      case True
      then have "ct_enters lockref_code n i s (lockref_step b N l s)"
        using CtCas i w lockref_code_depth [of n] nN N
        by (simp add: ct_enters_def lockref_step_def l cas_goto_asm [OF b]  lockref_code_def algebra_simps)
      then show ?thesis by blast
    next
      case False
      then have ?q using CtCas i by (intro ct_quietI [where p = CtLoad]) (simp_all add: lockref_step_def l cas_goto_asm [OF b])
      then show ?thesis by blast
    qed
  next
    case (CtRelCas old)
    show ?thesis
    proof (cases "ct_lock s = old")
      case True
      have "0 < n" using CtRelCas ct_count_pos [OF i] n by simp
      then have "ct_leaves lockref_code n i s (lockref_step b N l s)"
        using True CtRelCas i w of_nat_pred [of n, where 'a = u64]
        by (simp add: ct_leaves_def lockref_step_def l cas_goto_asm [OF b]  lockref_code_def algebra_simps)
      then show ?thesis by blast
    next
      case False
      then have ?q using CtRelCas i by (intro ct_quietI [where p = CtRelLoad]) (simp_all add: lockref_step_def l cas_goto_asm [OF b])
      then show ?thesis by blast
    qed
  next
    case CtRefused
    then show ?thesis using ok by simp
  qed (use i load rel in \<open>simp_all add: lockref_step_def l\<close>)
  then show "ct_quiet lockref_code N (fst l) s (lockref_step b N l s) \<or> ct_enters lockref_code n (fst l) s (lockref_step b N l s) \<or> ct_leaves lockref_code n (fst l) s (lockref_step b N l s)"
    by (simp add: l)
qed (auto simp: lockref_step_def split: prod.split)

section \<open>Properties\<close>

text \<open>A counting algorithm is exact: in every run the word is the code of the number of threads inside, a thread that enters is
  told this number, and no thread is refused.\<close>

definition counts_threads :: "('l \<Rightarrow> count_state \<Rightarrow> count_state) \<Rightarrow> ('l \<Rightarrow> tid) \<Rightarrow> (nat \<Rightarrow> u64) \<Rightarrow> nat \<Rightarrow> bool" where
  "counts_threads step mover enc N \<longleftrightarrow> (\<forall>ls. let s = run step ls (count_start (enc 0)); n = card {j. j < N \<and> ct_inside (ct_pc s j)} in
     ct_lock s = enc n \<and> (\<forall>l d. \<not> ct_inside (ct_pc s (mover l)) \<and> ct_pc (step l s) (mover l) = CtHold d \<longrightarrow> unat d = n) \<and> (\<forall>i. ct_pc s i \<noteq> CtRefused))"

context counting_system
begin

lemma counts:
  assumes "N < bound" "bound \<le> 2 ^ 64"
  shows "counts_threads step mover enc N"
  unfolding counts_threads_def Let_def
proof (intro allI conjI impI)
  fix ls
  let ?s = "run step ls (count_start (enc 0))"
  have inv: "ct_inv enc N ?s" using reachable_inv [of "count_start (enc 0)" ls] assms(1) by simp
  then show "ct_lock ?s = enc (card {j. j < N \<and> ct_inside (ct_pc ?s j)})" by (simp add: ct_inv_def ct_count_card)
  fix i
  show "ct_pc ?s i \<noteq> CtRefused" using inv by (auto simp: ct_inv_def ct_pc_ok_def dest: spec [of _ i])
next
  fix ls l d
  let ?s = "run step ls (count_start (enc 0))"
  have inv: "ct_inv enc N ?s" using reachable_inv [of "count_start (enc 0)" ls] assms(1) by simp
  assume "\<not> ct_inside (ct_pc ?s (mover l)) \<and> ct_pc (step l ?s) (mover l) = CtHold d"
  then have "d = of_nat (ct_count N ?s)" using depth [OF assms(1) inv, of l d] by blast
  moreover have "ct_count N ?s < 2 ^ 64" using ct_count_le [of N ?s] assms by linarith
  ultimately have "unat d = ct_count N ?s" by (simp only: unat_of_nat) simp
  then show "unat d = card {j. j < N \<and> ct_inside (ct_pc ?s j)}" by (simp only: ct_count_card)
qed

end

text \<open>With the built-ins \<open>cas64\<close> never stores, so the word of the lockref stays as it is, and every thread is told that it is the first.\<close>

lemma lockref_builtin_step:
  assumes "ct_lock s = 0" "\<forall>i d. ct_pc s i = CtHold d \<longrightarrow> d = 0"
  shows "ct_lock (lockref_step Builtin N l s) = 0 \<and> (\<forall>i d. ct_pc (lockref_step Builtin N l s) i = CtHold d \<longrightarrow> d = 0)"
proof -
  obtain i fails where l: "l = (i, fails)" by (cases l)
  have c: "cas_goto cas64 Builtin fails i val old p q s = ct_goto i (if ct_lock s = old then p else q) s" for val old p q
    by (simp add: cas_goto_def cas64_builtin_never_stores)
  have "\<exists>p. lockref_step Builtin N l s = ct_goto i p s \<and> (\<forall>d. p = CtHold d \<longrightarrow> d = 0)"
  proof (cases "i < N")
    case True
    define p where "p = ct_pc (lockref_step Builtin N l s) i"
    have "lockref_step Builtin N l s = ct_goto i p s"
      using True by (cases "ct_pc s i") (simp_all add: p_def lockref_step_def l c lockref_acquire_load_def lockref_release_load_def Let_def fun_upd_idem)
    moreover have "d = 0" if "p = CtHold d" for d
      using that True assms(1) by (cases "ct_pc s i") (simp_all add: p_def lockref_step_def l c lockref_acquire_load_def lockref_release_load_def Let_def split: if_splits)
    ultimately show ?thesis by blast
  next
    case False
    then show ?thesis using assms(2) by (intro exI [of _ "ct_pc s i"]) (simp add: lockref_step_def l)
  qed
  then show ?thesis using assms by (auto split: if_splits)
qed

lemma lockref_builtin_run:
  "ct_lock (run (lockref_step Builtin N) ls (count_start 0)) = 0 \<and> (\<forall>i d. ct_pc (run (lockref_step Builtin N) ls (count_start 0)) i = CtHold d \<longrightarrow> d = 0)"
proof -
  have inv: "ct_lock s = 0 \<and> (\<forall>i d. ct_pc s i = CtHold d \<longrightarrow> d = 0) \<Longrightarrow>
      ct_lock (run (lockref_step Builtin N) ls s) = 0 \<and> (\<forall>i d. ct_pc (run (lockref_step Builtin N) ls s) i = CtHold d \<longrightarrow> d = 0)" for s
  proof (induction ls arbitrary: s)
    case (Cons l ls)
    have "ct_lock (lockref_step Builtin N l s) = 0 \<and> (\<forall>i d. ct_pc (lockref_step Builtin N l s) i = CtHold d \<longrightarrow> d = 0)"
      using lockref_builtin_step [of s N l] Cons.prems by blast
    from Cons.IH [OF this] show ?case unfolding run.simps .
  qed simp
  have "ct_lock (count_start 0) = 0 \<and> (\<forall>i d. ct_pc (count_start 0) i = CtHold d \<longrightarrow> d = 0)" by (simp add: count_start_def)
  from inv [OF this] show ?thesis .
qed

text \<open>C38: the counting algorithms are exact: after any interleaving the lock word encodes the number of threads inside
  (directly, below \<open>CAS_RW_INIT_VAL\<close>, or in the upper half), the depth a thread is given is this number at its entry, and with fewer
  than \<open>CAS_RW_INIT_VAL\<close> threads \<open>cas_rw_lock.h\<close> turns nobody away. For \<open>incdec_refcount.h\<close> this holds in every build, for the two that use compare-and-swap in the assembly
  builds; in the build with built-ins \<open>cas_lockref.h\<close> does not count at all: its word is 0 for ever and every depth is 0.\<close>

theorem counting_locks_exact:
  "(N < 2 ^ 64 \<longrightarrow> counts_threads (incdec_step N) id of_nat N) \<and>
   (asm_build b \<and> N < unat CAS_RW_INIT_VAL \<longrightarrow> counts_threads (cas_rw_step b N) fst (\<lambda>n. CAS_RW_INIT_VAL - of_nat n) N) \<and>
   (asm_build b \<and> N < 2 ^ 32 \<longrightarrow> counts_threads (lockref_step b N) fst (\<lambda>n. of_nat n * 0x100000000) N) \<and>
   (let s = run (lockref_step Builtin N) ls (count_start 0) in ct_lock s = 0 \<and> (\<forall>i d. ct_pc s i = CtHold d \<longrightarrow> d = 0))"
proof -
  have "(\<lambda>n. CAS_RW_INIT_VAL - of_nat n) = rw_code" "(\<lambda>n. of_nat n * 0x100000000) = lockref_code"
    by (auto simp: rw_code_def lockref_code_def)
  moreover have "N < 0x20000000 \<Longrightarrow> asm_build b \<Longrightarrow> counts_threads (cas_rw_step b N) fst rw_code N"
    "N < 2 ^ 32 \<Longrightarrow> asm_build b \<Longrightarrow> counts_threads (lockref_step b N) fst lockref_code N"
    using rw.counts [of N b] lockref.counts [of N b] by simp_all
  ultimately show ?thesis using incdec.counts [of N] lockref_builtin_run [of N ls] unfolding Let_def by (simp add: CAS_RW_INIT_VAL_def)
qed

text \<open>Two threads inside the lockref, the second one told that there was one before it; with the built-ins the same run leaves the word at 0.\<close>

theorem counting_locks_exact_witness:
  "ct_lock (run (lockref_step A64_LSE 2) (map (\<lambda>i. (i, False)) [0, 0, 1, 1]) (count_start 0)) = 0x200000000 \<and>
   ct_pc (run (lockref_step A64_LSE 2) (map (\<lambda>i. (i, False)) [0, 0, 1, 1]) (count_start 0)) 1 = CtHold 1 \<and>
   ct_lock (run (lockref_step Builtin 2) (map (\<lambda>i. (i, False)) [0, 0, 1, 1]) (count_start 0)) = 0"
proof -
  let ?ls = "map (\<lambda>i. (i, False)) [0, 0, 1, 1]"
  let ?s = "run (lockref_step A64_LSE 2) ?ls (count_start 0)"
  have p: "ct_pc ?s 0 = CtHold 0" "ct_pc ?s 1 = CtHold 1" by code_simp+
  have "j = 0 \<or> j = 1" if "j < 2" for j :: nat using that by auto
  then have "{j. j < 2 \<and> ct_inside (ct_pc ?s j)} = {0, 1}" using p by auto
  then have "card {j. j < 2 \<and> ct_inside (ct_pc ?s j)} = 2" by simp
  moreover note e = counting_locks_exact [of 2 A64_LSE ?ls]
  then have "counts_threads (lockref_step A64_LSE 2) fst (\<lambda>n. of_nat n * 0x100000000) 2" by (simp add: asm_build_def)
  ultimately have "ct_lock ?s = of_nat 2 * 0x100000000" unfolding counts_threads_def Let_def by (simp del: run.simps list.map)
  then show ?thesis using p e unfolding Let_def by simp
qed

text \<open>With the built-ins a spurious failure of the weak compare-and-swap lets a thread into \<open>cas_rw_lock.h\<close> without being counted, and its release counts one thread too few.\<close>

lemma cas_rw_builtin_miscounts:
  "let s = run (cas_rw_step Builtin 1) [(0, False), (0, False), (0, True)] (count_start CAS_RW_INIT_VAL) in
     ct_pc s 0 = CtHold 0 \<and> ct_lock s = CAS_RW_INIT_VAL \<and> ct_lock (cas_rw_step Builtin 1 (0, False) s) = CAS_RW_INIT_VAL + 1"
  by code_simp

text \<open>A thread can always still obtain the test-and-set lock.\<close>

theorem swap_never_stuck:
  assumes "j < N"
  shows "\<exists>ms. swap_holds (run (swap_step N) (ls @ ms) swap_start) j"
  using swap_progress.never_stuck [of swap_start j N ls] assms by simp

theorem swap_never_stuck_witness: "\<exists>ms. swap_holds (run (swap_step 2) ([0, 1, 1] @ ms) swap_start) 1"
  using swap_never_stuck [of 1 2 "[0, 1, 1]"] by simp

end
