(* ===== verification/Pthread_Mutex.thy ===== *)
theory Pthread_Mutex
  imports Lock_Spec Pinorder
begin

text \<open>
  The tests of the POSIX mutex, \<open>tests/pthread_mutex_lock.h\<close> and \<open>tests/pthread_mutex_trylock.h\<close>: their options, the initialization of the mutex, and the calls of
  \<open>pthread_mutex_lock\<close>, \<open>pthread_mutex_trylock\<close> and \<open>pthread_mutex_unlock\<close> with every value they can return. The mutex itself is the one of the
  C library: it has a kind, an owner and, for a recursive one, a count; a call of a function of the library is one step.
\<close>

section \<open>The mutex of the C library\<close>

definition PTHREAD_MUTEX_NORMAL :: int where "PTHREAD_MUTEX_NORMAL = 0"
definition PTHREAD_MUTEX_RECURSIVE :: int where "PTHREAD_MUTEX_RECURSIVE = 1"
definition PTHREAD_MUTEX_ERRORCHECK :: int where "PTHREAD_MUTEX_ERRORCHECK = 2"
definition PTHREAD_MUTEX_ADAPTIVE_NP :: int where "PTHREAD_MUTEX_ADAPTIVE_NP = 3"

abbreviation PTHREAD_MUTEX_DEFAULT :: int where "PTHREAD_MUTEX_DEFAULT \<equiv> PTHREAD_MUTEX_NORMAL"
abbreviation PTHREAD_MUTEX_FAST_NP :: int where "PTHREAD_MUTEX_FAST_NP \<equiv> PTHREAD_MUTEX_NORMAL"

lemmas mutex_kinds = PTHREAD_MUTEX_NORMAL_def PTHREAD_MUTEX_RECURSIVE_def PTHREAD_MUTEX_ERRORCHECK_def PTHREAD_MUTEX_ADAPTIVE_NP_def

definition EPERM :: int where "EPERM = 1"
definition EBUSY :: int where "EBUSY = 16"
definition EINVAL :: int where "EINVAL = 22"
definition EDEADLK :: int where "EDEADLK = 35"

lemmas error_numbers = EPERM_def EBUSY_def EINVAL_def EDEADLK_def

record pthread_mutex =
  mx_kind :: int
  mx_owner :: "tid option"
  mx_count :: nat

text \<open>A call returns a number and the mutex, or waits (\<open>None\<close>): for the owner, who waits for itself if it is the caller.\<close>

definition pthread_mutex_lock :: "tid \<Rightarrow> pthread_mutex \<Rightarrow> (int \<times> pthread_mutex) option" where
  "pthread_mutex_lock i m = (case mx_owner m of
       None \<Rightarrow> Some (0, m\<lparr>mx_owner := Some i, mx_count := 1\<rparr>)
     | Some j \<Rightarrow> if j = i \<and> mx_kind m = PTHREAD_MUTEX_RECURSIVE then Some (0, m\<lparr>mx_count := mx_count m + 1\<rparr>)
         else if j = i \<and> mx_kind m = PTHREAD_MUTEX_ERRORCHECK then Some (EDEADLK, m)
         else None)"

definition pthread_mutex_trylock :: "tid \<Rightarrow> pthread_mutex \<Rightarrow> int \<times> pthread_mutex" where
  "pthread_mutex_trylock i m = (case mx_owner m of
       None \<Rightarrow> (0, m\<lparr>mx_owner := Some i, mx_count := 1\<rparr>)
     | Some j \<Rightarrow> if j = i \<and> mx_kind m = PTHREAD_MUTEX_RECURSIVE then (0, m\<lparr>mx_count := mx_count m + 1\<rparr>) else (EBUSY, m))"

text \<open>Only the recursive and the error-checking mutex look who calls.\<close>

definition pthread_mutex_unlock :: "tid \<Rightarrow> pthread_mutex \<Rightarrow> int \<times> pthread_mutex" where
  "pthread_mutex_unlock i m =
     (if (mx_kind m = PTHREAD_MUTEX_RECURSIVE \<or> mx_kind m = PTHREAD_MUTEX_ERRORCHECK) \<and> mx_owner m \<noteq> Some i then (EPERM, m)
      else if mx_kind m = PTHREAD_MUTEX_RECURSIVE \<and> mx_count m > 1 then (0, m\<lparr>mx_count := mx_count m - 1\<rparr>)
      else (0, m\<lparr>mx_owner := None, mx_count := 0\<rparr>))"

text \<open>A locked mutex is not destroyed; a destroyed one has the kind \<open>- 1\<close>.\<close>

definition pthread_mutex_destroy :: "pthread_mutex \<Rightarrow> int \<times> pthread_mutex" where
  "pthread_mutex_destroy m = (if mx_owner m \<noteq> None then (EBUSY, m) else (0, m\<lparr>mx_kind := - 1\<rparr>))"

definition pthread_mutex_init :: "int \<Rightarrow> pthread_mutex \<Rightarrow> pthread_mutex" where
  "pthread_mutex_init kind m = m\<lparr>mx_kind := kind, mx_owner := None, mx_count := 0\<rparr>"

definition pthread_mutexattr_settype :: "int \<Rightarrow> int" where
  "pthread_mutexattr_settype kind = (if PTHREAD_MUTEX_NORMAL \<le> kind \<and> kind \<le> PTHREAD_MUTEX_ADAPTIVE_NP then 0 else EINVAL)"

section \<open>Options\<close>

datatype pthread_test = Lock_Test | Trylock_Test

definition pthread_mutex_types :: "(string \<times> int) list" where
  "pthread_mutex_types = [(''fast'', PTHREAD_MUTEX_FAST_NP), (''recursive'', PTHREAD_MUTEX_RECURSIVE), (''errorcheck'', PTHREAD_MUTEX_ERRORCHECK),
     (''normal'', PTHREAD_MUTEX_NORMAL), (''default'', PTHREAD_MUTEX_DEFAULT), (''adaptive'', PTHREAD_MUTEX_ADAPTIVE_NP)]"

text \<open>The global variables of the headers; the last three are those of the try-lock test.\<close>

record pthread_args =
  mutex_kind :: int
  mutex_type_name :: string
  retry_tv_sec :: u64
  retry_tv_nsec :: u64
  blackhole_tokens :: u64

definition pthread_args_default :: pthread_args where
  "pthread_args_default = \<lparr>mutex_kind = PTHREAD_MUTEX_DEFAULT, mutex_type_name = ''default'', retry_tv_sec = 0, retry_tv_nsec = 0, blackhole_tokens = 0\<rparr>"

text \<open>What \<open>getopt\<close> returns; the lock test has no \<open>-d\<close> and no \<open>-i\<close>, so these are unknown to it.\<close>

datatype pthread_option = PT_t string | PT_d string | PT_i string | PT_unknown | PT_missing | PT_h

fun pthread_parse_option :: "pthread_test \<Rightarrow> pthread_option \<Rightarrow> pthread_args \<Rightarrow> pin_error + pthread_args" where
  "pthread_parse_option test (PT_t optarg) a = (case map_of pthread_mutex_types optarg of
       None \<Rightarrow> Inl (Exit (- 1))
     | Some kind \<Rightarrow> Inr (a\<lparr>mutex_kind := kind, mutex_type_name := optarg\<rparr>))"
| "pthread_parse_option Trylock_Test (PT_d optarg) a = (let ns_per_s = 1000000000; nsec = fst (strtoul optarg 0) in
     Inr (a\<lparr>retry_tv_sec := nsec div ns_per_s, retry_tv_nsec := nsec mod ns_per_s\<rparr>))"
| "pthread_parse_option Trylock_Test (PT_i optarg) a = Inr (a\<lparr>blackhole_tokens := fst (strtoul optarg 0)\<rparr>)"
| "pthread_parse_option Lock_Test (PT_d optarg) a = Inl (Exit 2)"
| "pthread_parse_option Lock_Test (PT_i optarg) a = Inl (Exit 2)"
| "pthread_parse_option test PT_unknown a = Inl (Exit 2)"
| "pthread_parse_option test PT_missing a = Inl (Exit 2)"
| "pthread_parse_option test PT_h a = Inl (Exit 2)"

fun pthread_mutex_parse_args :: "pthread_test \<Rightarrow> pthread_option list \<Rightarrow> pthread_args \<Rightarrow> pin_error + pthread_args" where
  "pthread_mutex_parse_args test [] a = Inr a"
| "pthread_mutex_parse_args test (opt # opts) a = (case pthread_parse_option test opt a of Inl e \<Rightarrow> Inl e | Inr a' \<Rightarrow> pthread_mutex_parse_args test opts a')"

text \<open>The name of the test in the report.\<close>

definition pthread_test_type_name :: "pthread_test \<Rightarrow> pthread_args \<Rightarrow> string" where
  "pthread_test_type_name test a = (case test of
       Lock_Test \<Rightarrow> ''{mutex_type='' @ mutex_type_name a @ ''}''
     | Trylock_Test \<Rightarrow> ''{mutex_type='' @ mutex_type_name a @ '', retry_delay_ns='' @ decimal (unat (1000000000 * retry_tv_sec a + retry_tv_nsec a)) @
         '', blackhole_tokens='' @ decimal (unat (blackhole_tokens a)) @ ''}'')"

section \<open>The threads\<close>

datatype pthread_pc = PtIdle | PtTry | PtHold | PtExit

record pthread_state =
  pt_mutex :: pthread_mutex
  pt_pc :: "tid \<Rightarrow> pthread_pc"

text \<open>The old mutex is destroyed, whatever is in its place, and a new one made: the result of \<open>pthread_mutex_destroy\<close> is not looked at, and \<open>pthread_mutex_init\<close> writes the whole mutex.
  \<open>old\<close> is what the memory holds: a mutex of the last measurement, which a cancelled thread may have left locked, or what \<open>do_alloc\<close> has filled it with. POSIX leaves
  both calls undefined then; the model has what the C library does.\<close>

definition pthread_mutex_test_init :: "pthread_mutex \<Rightarrow> pthread_args \<Rightarrow> pin_error + pthread_state" where
  "pthread_mutex_test_init old a = (let (_, m) = pthread_mutex_destroy old in
     if pthread_mutexattr_settype (mutex_kind a) \<noteq> 0 then Inl (Exit 1)
     else Inr \<lparr>pt_mutex = pthread_mutex_init (mutex_kind a) m, pt_pc = (\<lambda>_. PtIdle)\<rparr>)"

lemma pthread_test_init: "pthread_mutexattr_settype (mutex_kind a) = 0 \<Longrightarrow>
    pthread_mutex_test_init old a = Inr \<lparr>pt_mutex = \<lparr>mx_kind = mutex_kind a, mx_owner = None, mx_count = 0\<rparr>, pt_pc = (\<lambda>_. PtIdle)\<rparr>"
  by (simp add: pthread_mutex_test_init_def pthread_mutex_init_def split: prod.split)

text \<open>\<open>lock_acquire\<close>: a thread that waits in \<open>pthread_mutex_lock\<close> tries again, as one does that sleeps between calls of \<open>pthread_mutex_trylock\<close>; any other error ends the program.\<close>

definition pt_acquired :: "tid \<Rightarrow> int \<times> pthread_mutex \<Rightarrow> pthread_state \<Rightarrow> pthread_state" where
  "pt_acquired i r s = s\<lparr>pt_mutex := snd r, pt_pc := (pt_pc s)(i := if fst r = 0 then PtHold else PtExit)\<rparr>"

definition pt_wait :: "tid \<Rightarrow> pthread_state \<Rightarrow> pthread_state" where
  "pt_wait i s = s\<lparr>pt_pc := (pt_pc s)(i := PtTry)\<rparr>"

definition pt_lock_acquire :: "pthread_test \<Rightarrow> tid \<Rightarrow> pthread_state \<Rightarrow> pthread_state" where
  "pt_lock_acquire test i s = (case test of
       Lock_Test \<Rightarrow> (case pthread_mutex_lock i (pt_mutex s) of None \<Rightarrow> pt_wait i s | Some r \<Rightarrow> pt_acquired i r s)
     | Trylock_Test \<Rightarrow> (let r = pthread_mutex_trylock i (pt_mutex s) in if fst r = EBUSY then pt_wait i s else pt_acquired i r s))"

text \<open>\<open>lock_release\<close> only prints an error.\<close>

definition pt_lock_release :: "tid \<Rightarrow> pthread_state \<Rightarrow> pthread_state" where
  "pt_lock_release i s = s\<lparr>pt_mutex := snd (pthread_mutex_unlock i (pt_mutex s)), pt_pc := (pt_pc s)(i := PtIdle)\<rparr>"

definition pt_step :: "pthread_test \<Rightarrow> nat \<Rightarrow> tid \<Rightarrow> pthread_state \<Rightarrow> pthread_state" where
  "pt_step test N i s = (if i < N then (case pt_pc s i of PtHold \<Rightarrow> pt_lock_release i s | PtExit \<Rightarrow> s | _ \<Rightarrow> pt_lock_acquire test i s) else s)"

definition pt_holds :: "pthread_state \<Rightarrow> tid \<Rightarrow> bool" where
  "pt_holds s i \<longleftrightarrow> pt_pc s i = PtHold"

section \<open>The owner\<close>

definition pt_init :: "pthread_state \<Rightarrow> bool" where
  "pt_init s \<longleftrightarrow> (\<exists>old a. pthread_mutex_test_init old a = Inr s)"

text \<open>The owner of the mutex is the thread inside, which owns it once, and no call has failed.\<close>

definition pt_inv :: "nat \<Rightarrow> pthread_state \<Rightarrow> bool" where
  "pt_inv N s \<longleftrightarrow> (\<forall>i. pt_pc s i = PtHold \<longleftrightarrow> mx_owner (pt_mutex s) = Some i) \<and> mx_count (pt_mutex s) \<le> 1 \<and>
     (\<forall>i. pt_pc s i \<noteq> PtExit) \<and> (\<forall>i\<ge>N. pt_pc s i = PtIdle)"

lemmas pt_step_defs = pt_step_def pt_lock_acquire_def pt_lock_release_def pt_acquired_def pt_wait_def pthread_mutex_lock_def pthread_mutex_trylock_def
  pthread_mutex_unlock_def error_numbers mutex_kinds Let_def

lemma pt_inv_step:
  assumes "pt_inv N s"
  shows "pt_inv N (pt_step test N i s)"
proof (cases "i < N")
  case True
  have o: "\<And>j. pt_pc s j = PtHold \<longleftrightarrow> mx_owner (pt_mutex s) = Some j" and c: "mx_count (pt_mutex s) \<le> 1" and e: "\<And>j. pt_pc s j \<noteq> PtExit"
    and n: "\<And>j. N \<le> j \<Longrightarrow> pt_pc s j = PtIdle" using assms by (auto simp: pt_inv_def)
  show ?thesis
  proof (cases "pt_pc s i = PtHold")
    case h: True
    with o have "mx_owner (pt_mutex s) = Some i" by simp
    then have "pt_step test N i s = s\<lparr>pt_mutex := (pt_mutex s)\<lparr>mx_owner := None, mx_count := 0\<rparr>, pt_pc := (pt_pc s)(i := PtIdle)\<rparr>"
      using True h c by (simp add: pt_step_defs)
    then show ?thesis using o e n h by (auto simp: pt_inv_def)
  next
    case h: False
    then have p: "pt_step test N i s = pt_lock_acquire test i s" using True e [of i] by (cases "pt_pc s i") (simp_all add: pt_step_def)
    show ?thesis
    proof (cases "mx_owner (pt_mutex s)")
      case None
      then have "pt_lock_acquire test i s = s\<lparr>pt_mutex := (pt_mutex s)\<lparr>mx_owner := Some i, mx_count := 1\<rparr>, pt_pc := (pt_pc s)(i := PtHold)\<rparr>"
        by (cases test) (simp_all add: pt_step_defs)
      then show ?thesis using o e n True None by (auto simp: pt_inv_def p)
    next
      case (Some j)
      then have "pt_lock_acquire test i s = pt_wait i s" using o [of i] h by (cases test) (auto simp: pt_step_defs)
      then show ?thesis using o c e n h True by (auto simp: pt_inv_def p pt_wait_def)
    qed
  qed
qed (use assms in \<open>simp add: pt_step_def\<close>)

lemma pt_init_inv: "pt_init s \<Longrightarrow> pt_inv N s" "pt_init s \<Longrightarrow> pt_pc s i = PtIdle"
  by (auto simp: pt_init_def pt_inv_def pthread_mutex_test_init_def pthread_mutex_init_def Let_def case_prod_beta split: if_splits)

interpretation pthread: lock_system pt_init "pt_step test N" "pt_inv N" pt_holds id for test N
proof
  show "pt_inv N s" if "pt_init s" for s by (rule pt_init_inv(1) [OF that])
  show "pt_inv N (pt_step test N l s)" if "pt_inv N s" for l s by (rule pt_inv_step [OF that])
  show "i = j" if "pt_inv N s" "pt_holds s i" "pt_holds s j" for s i j
    using that by (auto simp: pt_inv_def pt_holds_def)
  show "pt_holds (pt_step test N l s) j = pt_holds s j" if "j \<noteq> id l" for l s j
    using that by (auto simp: pt_holds_def pt_step_def pt_lock_acquire_def pt_lock_release_def pt_acquired_def pt_wait_def Let_def split: pthread_pc.split pthread_test.split option.split)
qed (simp add: pt_init_inv(2) pt_holds_def)

section \<open>Properties\<close>

lemma pt_inv_owner:
  assumes "pt_inv N s"
  shows "(pt_holds s i \<and> pt_holds s j \<longrightarrow> i = j) \<and> (pt_holds s i \<longleftrightarrow> mx_owner (pt_mutex s) = Some i) \<and> pt_pc s i \<noteq> PtExit \<and>
    (pt_holds s i \<longrightarrow> fst (pthread_mutex_unlock i (pt_mutex s)) = 0 \<and> mx_owner (snd (pthread_mutex_unlock i (pt_mutex s))) = None)"
  using assms by (auto simp: pt_inv_def pt_holds_def pthread_mutex_unlock_def)

lemma pthread_kinds_valid: "pthread_mutex_parse_args test opts a = Inr a' \<Longrightarrow> pthread_mutexattr_settype (mutex_kind a) = 0 \<Longrightarrow> pthread_mutexattr_settype (mutex_kind a') = 0"
proof (induction opts arbitrary: a)
  case (Cons opt opts)
  then obtain b where b: "pthread_parse_option test opt a = Inr b" "pthread_mutex_parse_args test opts b = Inr a'" by (auto split: sum.splits)
  have "pthread_mutexattr_settype (mutex_kind b) = 0"
    using b(1) Cons.prems(2) by (cases opt; cases test) (auto simp: pthread_mutexattr_settype_def pthread_mutex_types_def mutex_kinds Let_def split: option.splits if_splits)
  with Cons.IH [OF b(2)] show ?case .
qed simp

text \<open>C13: with every accepted choice of the kind of mutex, both tests are locks and none of their error branches is taken: the mutex can be made, whatever is in its place; at any time at most one
  thread is inside, and it is the owner of the mutex; no call of \<open>lock_acquire\<close> ends the program, whether the mutex is normal, recursive, error-checking or adaptive; and every call of
  \<open>pthread_mutex_unlock\<close> returns 0 and makes the mutex free.\<close>

theorem pthread_tests_never_fail:
  assumes "pthread_mutex_parse_args test opts pthread_args_default = Inr a"
  shows "\<exists>s0. pthread_mutex_test_init old a = Inr s0 \<and> (\<forall>ls i j. let s = run (pt_step test N) ls s0 in
    (pt_holds s i \<and> pt_holds s j \<longrightarrow> i = j) \<and> (pt_holds s i \<longleftrightarrow> mx_owner (pt_mutex s) = Some i) \<and> pt_pc s i \<noteq> PtExit \<and>
    (pt_holds s i \<longrightarrow> fst (pthread_mutex_unlock i (pt_mutex s)) = 0 \<and> mx_owner (snd (pthread_mutex_unlock i (pt_mutex s))) = None))"
proof -
  have "pthread_mutexattr_settype (mutex_kind a) = 0"
    using pthread_kinds_valid [OF assms] by (simp add: pthread_args_default_def pthread_mutexattr_settype_def mutex_kinds)
  then obtain s0 where s0: "pthread_mutex_test_init old a = Inr s0" by (simp add: pthread_test_init)
  have "pt_inv N (run (pt_step test N) ls s0)" for ls
    by (rule pthread.inv_run [OF pt_init_inv(1)]) (use s0 in \<open>auto simp: pt_init_def\<close>)
  note inv = this [THEN pt_inv_owner]
  show ?thesis unfolding Let_def using s0 inv by blast
qed

text \<open>A recursive mutex, made where a cancelled measurement has left a locked one: thread 1 waits while thread 0 is inside and then gets it.\<close>

theorem pthread_tests_never_fail_witness:
  "let old = \<lparr>mx_kind = 0, mx_owner = Some 5, mx_count = 1\<rparr> in \<exists>a s0. pthread_mutex_parse_args Trylock_Test [PT_t ''recursive'', PT_d ''2000000001''] pthread_args_default = Inr a \<and>
     retry_tv_sec a = 2 \<and> retry_tv_nsec a = 1 \<and> pthread_mutex_test_init old a = Inr s0 \<and>
     (let s = run (pt_step Trylock_Test 2) [0, 1, 0, 1] s0 in pt_holds s 1 \<and> \<not> pt_holds s 0)"
proof -
  let ?old = "\<lparr>mx_kind = 0, mx_owner = Some 5, mx_count = 1\<rparr>"
  define a where "a = \<lparr>mutex_kind = 1, mutex_type_name = ''recursive'', retry_tv_sec = 2, retry_tv_nsec = 1, blackhole_tokens = 0 :: u64\<rparr>"
  have a: "pthread_mutex_parse_args Trylock_Test [PT_t ''recursive'', PT_d ''2000000001''] pthread_args_default = Inr a"
    by (simp add: a_def pthread_args_default_def pthread_mutex_types_def mutex_kinds strtoul_def scan_number_def scan_sign_def scan_radix_def c_isspace_def digit_val_def)
  then obtain s0 where s0: "pthread_mutex_test_init ?old a = Inr s0"
    and one: "\<And>ls i j. let s = run (pt_step Trylock_Test 2) ls s0 in pt_holds s i \<and> pt_holds s j \<longrightarrow> i = j"
    using pthread_tests_never_fail [OF a, of ?old 2] unfolding Let_def by blast
  have "s0 = \<lparr>pt_mutex = \<lparr>mx_kind = 1, mx_owner = None, mx_count = 0\<rparr>, pt_pc = (\<lambda>_. PtIdle)\<rparr>"
    using s0 by (simp add: a_def pthread_test_init pthread_mutexattr_settype_def mutex_kinds)
  then have "pt_holds (run (pt_step Trylock_Test 2) [0, 1, 0, 1] s0) 1" by (simp add: pt_step_defs pt_holds_def)
  moreover from this one [of "[0, 1, 0, 1]" 0 1] have "\<not> pt_holds (run (pt_step Trylock_Test 2) [0, 1, 0, 1] s0) 0" by (auto simp: Let_def simp del: run.simps)
  moreover have "retry_tv_sec a = 2" "retry_tv_nsec a = 1" by (simp_all add: a_def)
  ultimately show ?thesis unfolding Let_def using a s0 by blast
qed

text \<open>A delay is split into seconds and nanoseconds that \<open>nanosleep\<close> accepts, and the sum that the report shows is the delay.\<close>

lemma retry_delay_roundtrip:
  assumes "pthread_parse_option Trylock_Test (PT_d optarg) a = Inr a'"
  shows "unat (retry_tv_nsec a') < 1000000000" "1000000000 * retry_tv_sec a' + retry_tv_nsec a' = fst (strtoul optarg 0)"
proof -
  have "retry_tv_sec a' = fst (strtoul optarg 0) div 1000000000" "retry_tv_nsec a' = fst (strtoul optarg 0) mod 1000000000" using assms by (auto simp: Let_def)
  then show "unat (retry_tv_nsec a') < 1000000000" "1000000000 * retry_tv_sec a' + retry_tv_nsec a' = fst (strtoul optarg 0)"
    by (simp_all only: mult_div_mod_eq) (simp add: unat_mod)
qed

end
