(* ===== verification/Measure.thy ===== *)
theory Measure
  imports Lock_Prelude
begin

text \<open>
  The measurement loops of \<open>hmr\<close> (\<open>measure.c\<close>), the client of every lock: a thread calls \<open>lock_acquire\<close> and
  \<open>lock_release\<close> over and over, either for a number of clock ticks or for a number of acquisitions, adds up the depths
  that \<open>lock_acquire\<close> returns and counts its iterations. The loops are written once, over the operations of a lock
  algorithm; the interface \<open>measured_lock\<close> states what they rely on, and the models of the locks provide it.
\<close>

section \<open>The operations of a lock\<close>

text \<open>Where a thread is with respect to the two calls it makes: outside, in \<open>lock_acquire\<close>, between the calls, in \<open>lock_release\<close>.\<close>

datatype call_phase = Outside | Acquiring | Inside | Releasing

text \<open>A lock algorithm: its step function, the thread that a label moves, the phase of a thread, and the value that
  \<open>lock_acquire\<close> has returned to a thread inside.\<close>

record ('l, 's) lock_alg =
  la_step :: "'l \<Rightarrow> 's \<Rightarrow> 's"
  la_mover :: "'l \<Rightarrow> tid"
  la_phase :: "'s \<Rightarrow> tid \<Rightarrow> call_phase"
  la_depth :: "'s \<Rightarrow> tid \<Rightarrow> u64"

fun next_phase :: "call_phase \<Rightarrow> call_phase \<Rightarrow> bool" where
  "next_phase Outside q \<longleftrightarrow> q \<noteq> Releasing"
| "next_phase Acquiring q \<longleftrightarrow> q = Acquiring \<or> q = Inside"
| "next_phase Inside q \<longleftrightarrow> q \<noteq> Acquiring"
| "next_phase Releasing q \<longleftrightarrow> q = Releasing \<or> q = Outside"

section \<open>The loops\<close>

text \<open>The fields of \<open>thread_args_t\<close> that the loops read. \<open>target_10p\<close> and \<open>target_90p\<close> are the products
  \<open>num_acquires * 0.1\<close> and \<open>num_acquires * 0.9\<close>, which the code computes in double.\<close>

record thread_args =
  num_acquires :: u64
  run_limit_ticks :: u64
  run_limit_inner_loop_iters :: u64
  target_10p :: u64
  target_90p :: u64

record milestones =
  hwtimer_10p :: u64
  hwtimer_25p :: u64
  hwtimer_50p :: u64
  hwtimer_75p :: u64
  hwtimer_90p :: u64

text \<open>The local variables of \<open>hmr\<close> and the two members of its \<open>cleanup_struct_t\<close> that the loops keep up to date.\<close>

record hmr_locals =
  lock_acquires :: u64
  total_depth :: u64
  inner :: u64
  ticks_start :: u64
  ticks_end :: u64
  hwtimers :: milestones
  cs_lock_acquires :: u64
  cs_total_depth :: u64

text \<open>Positions: before the first reading of the clock; at the test of the inner loop; before the reading of the clock that ends a
  pass of the timed loop; at the test of the counted loop; in the pair of calls; after them; at the end.\<close>

datatype measure_pc = MsStart | MsInner | MsTicks | MsCount | MsLock | MsPost | MsDone

record 's measure_state =
  ms_lock :: 's
  ms_pc :: "tid \<Rightarrow> measure_pc"
  ms_locals :: "tid \<Rightarrow> hmr_locals"

definition hmr_locals_init :: hmr_locals where
  "hmr_locals_init = \<lparr>lock_acquires = 0, total_depth = 0, inner = 0, ticks_start = 0, ticks_end = 0,
     hwtimers = \<lparr>hwtimer_10p = 0, hwtimer_25p = 0, hwtimer_50p = 0, hwtimer_75p = 0, hwtimer_90p = 0\<rparr>,
     cs_lock_acquires = 0, cs_total_depth = 0\<rparr>"

definition measure_start :: "'s \<Rightarrow> 's measure_state" where
  "measure_start s = \<lparr>ms_lock = s, ms_pc = (\<lambda>_. MsStart), ms_locals = (\<lambda>_. hmr_locals_init)\<rparr>"

text \<open>\<open>update_timer_tick_progress\<close>: at most one milestone is recorded per iteration.\<close>

definition update_timer_tick_progress :: "thread_args \<Rightarrow> u64 \<Rightarrow> u64 \<Rightarrow> milestones \<Rightarrow> milestones" where
  "update_timer_tick_progress x now acquires m = (let target_25p = num_acquires x div 4 in
     if target_10p x < acquires \<and> hwtimer_10p m = 0 then m\<lparr>hwtimer_10p := now\<rparr>
     else if target_25p < acquires \<and> hwtimer_25p m = 0 then m\<lparr>hwtimer_25p := now\<rparr>
     else if target_25p * 2 < acquires \<and> hwtimer_50p m = 0 then m\<lparr>hwtimer_50p := now\<rparr>
     else if target_25p * 3 < acquires \<and> hwtimer_75p m = 0 then m\<lparr>hwtimer_75p := now\<rparr>
     else if target_90p x < acquires \<and> hwtimer_90p m = 0 then m\<lparr>hwtimer_90p := now\<rparr>
     else m)"

text \<open>The start of the chosen loop; \<open>now\<close> is what \<open>get_raw_counter\<close> returns.\<close>

definition measure_begin :: "thread_args \<Rightarrow> u64 \<Rightarrow> hmr_locals \<Rightarrow> measure_pc \<times> hmr_locals" where
  "measure_begin x now v =
     (if run_limit_ticks x \<noteq> 0 then (MsInner, v\<lparr>ticks_start := now, inner := 0\<rparr>) else (MsCount, v\<lparr>ticks_start := now\<rparr>))"

definition inner_test :: "thread_args \<Rightarrow> hmr_locals \<Rightarrow> measure_pc \<times> hmr_locals" where
  "inner_test x v = (if inner v < run_limit_inner_loop_iters x then MsLock else MsTicks, v)"

text \<open>The end of a pass of the timed loop, and its test.\<close>

definition ticks_test :: "thread_args \<Rightarrow> u64 \<Rightarrow> hmr_locals \<Rightarrow> measure_pc \<times> hmr_locals" where
  "ticks_test x now v =
     (let v = v\<lparr>ticks_end := now, cs_total_depth := total_depth v, cs_lock_acquires := lock_acquires v\<rparr>
      in if ticks_end v - ticks_start v < run_limit_ticks x then (MsInner, v\<lparr>inner := 0\<rparr>) else (MsDone, v))"

definition count_test :: "thread_args \<Rightarrow> u64 \<Rightarrow> hmr_locals \<Rightarrow> measure_pc \<times> hmr_locals" where
  "count_test x now v =
     (if num_acquires x = 0 \<or> lock_acquires v < num_acquires x then (MsLock, v) else (MsDone, v\<lparr>ticks_end := now\<rparr>))"

text \<open>The rest of the body, after \<open>blackhole(post_count)\<close>.\<close>

definition measure_post :: "thread_args \<Rightarrow> u64 \<Rightarrow> hmr_locals \<Rightarrow> measure_pc \<times> hmr_locals" where
  "measure_post x now v =
     (if run_limit_ticks x \<noteq> 0 then (MsInner, v\<lparr>lock_acquires := lock_acquires v + 1, inner := inner v + 1\<rparr>)
      else (MsCount, v\<lparr>hwtimers := update_timer_tick_progress x now (lock_acquires v) (hwtimers v),
        lock_acquires := lock_acquires v + 1, cs_lock_acquires := lock_acquires v + 1, cs_total_depth := total_depth v\<rparr>))"

text \<open>The calls: one access of the lock algorithm. When \<open>lock_acquire\<close> has returned, its value is added to \<open>total_depth\<close>.\<close>

definition measure_call :: "('l, 's) lock_alg \<Rightarrow> 'l \<Rightarrow> 's \<Rightarrow> hmr_locals \<Rightarrow> measure_pc \<times> hmr_locals" where
  "measure_call A l s v = (let t = la_mover A l; s' = la_step A l s in
     (if la_phase A s t \<noteq> Outside \<and> la_phase A s' t = Outside then MsPost else MsLock,
      if la_phase A s t \<noteq> Inside \<and> la_phase A s' t = Inside then v\<lparr>total_depth := total_depth v + la_depth A s' t\<rparr> else v))"

definition measure_local :: "('l, 's) lock_alg \<Rightarrow> thread_args \<Rightarrow> 'l \<Rightarrow> u64 \<Rightarrow> 's \<Rightarrow> measure_pc \<Rightarrow> hmr_locals \<Rightarrow> measure_pc \<times> hmr_locals" where
  "measure_local A x l now s p v = (case p of
       MsStart \<Rightarrow> measure_begin x now v | MsInner \<Rightarrow> inner_test x v | MsTicks \<Rightarrow> ticks_test x now v
     | MsCount \<Rightarrow> count_test x now v | MsLock \<Rightarrow> measure_call A l s v | MsPost \<Rightarrow> measure_post x now v | MsDone \<Rightarrow> (p, v))"

definition measure_step :: "('l, 's) lock_alg \<Rightarrow> nat \<Rightarrow> thread_args \<Rightarrow> 'l \<times> u64 \<Rightarrow> 's measure_state \<Rightarrow> 's measure_state" where
  "measure_step A N x = (\<lambda>(l, now) s. let t = la_mover A l in
     if t < N then (case measure_local A x l now (ms_lock s) (ms_pc s t) (ms_locals s t) of (p, v) \<Rightarrow>
       s\<lparr>ms_lock := if ms_pc s t = MsLock then la_step A l (ms_lock s) else ms_lock s,
         ms_pc := (ms_pc s)(t := p), ms_locals := (ms_locals s)(t := v)\<rparr>) else s)"

text \<open>The acquisitions of a run, with the depth each has returned.\<close>

definition measure_acquired :: "('l, 's) lock_alg \<Rightarrow> nat \<Rightarrow> 'l \<times> u64 \<Rightarrow> 's measure_state \<Rightarrow> (tid \<times> u64) list" where
  "measure_acquired A N = (\<lambda>(l, now) s. let t = la_mover A l; s' = la_step A l (ms_lock s) in
     if t < N \<and> ms_pc s t = MsLock \<and> la_phase A (ms_lock s) t \<noteq> Inside \<and> la_phase A s' t = Inside
     then [(t, la_depth A s' t)] else [])"

text \<open>What a thread leaves in \<open>results\<close>: at the end of \<open>hmr\<close>, and in \<open>thread_cleanup_routine\<close> when it is cancelled.\<close>

record per_thread_results =
  res_lock_acquires :: u64
  res_hmrdepth :: u64
  res_hwtimer_start :: u64
  res_hwtimer_end :: u64

definition hmr_results :: "hmr_locals \<Rightarrow> per_thread_results" where
  "hmr_results v = \<lparr>res_lock_acquires = lock_acquires v, res_hmrdepth = total_depth v,
     res_hwtimer_start = ticks_start v, res_hwtimer_end = ticks_end v\<rparr>"

definition thread_cleanup_routine :: "u64 \<Rightarrow> hmr_locals \<Rightarrow> per_thread_results" where
  "thread_cleanup_routine now v = \<lparr>res_lock_acquires = cs_lock_acquires v, res_hmrdepth = cs_total_depth v,
     res_hwtimer_start = ticks_start v, res_hwtimer_end = now\<rparr>"

lemmas measure_defs = measure_begin_def inner_test_def ticks_test_def count_test_def measure_post_def

section \<open>What the local variables mean\<close>

text \<open>In the counted loop the iterations never exceed \<open>num_acquires\<close>; in the timed loop the cleanup structure is behind by
  exactly the iterations of the current pass.\<close>

definition counted_ok :: "thread_args \<Rightarrow> measure_pc \<Rightarrow> hmr_locals \<Rightarrow> bool" where
  "counted_ok x p v \<longleftrightarrow> p \<noteq> MsInner \<and> p \<noteq> MsTicks \<and> cs_lock_acquires v = lock_acquires v \<and>
     (num_acquires x \<noteq> 0 \<longrightarrow> lock_acquires v \<le> num_acquires x \<and>
       ((p = MsLock \<or> p = MsPost) \<longrightarrow> lock_acquires v < num_acquires x)) \<and>
     (p = MsDone \<longrightarrow> num_acquires x \<noteq> 0 \<and> lock_acquires v = num_acquires x)"

definition timed_ok :: "thread_args \<Rightarrow> measure_pc \<Rightarrow> hmr_locals \<Rightarrow> bool" where
  "timed_ok x p v \<longleftrightarrow> p \<noteq> MsCount \<and> inner v \<le> run_limit_inner_loop_iters x \<and>
     ((p = MsLock \<or> p = MsPost) \<longrightarrow> inner v < run_limit_inner_loop_iters x) \<and>
     (if p = MsDone then cs_lock_acquires v = lock_acquires v \<and> run_limit_ticks x \<le> ticks_end v - ticks_start v
      else lock_acquires v = cs_lock_acquires v + inner v)"

definition locals_ok :: "thread_args \<Rightarrow> measure_pc \<Rightarrow> hmr_locals \<Rightarrow> bool" where
  "locals_ok x p v \<longleftrightarrow> (if run_limit_ticks x = 0 then counted_ok x p v else timed_ok x p v) \<and>
     (p = MsStart \<longrightarrow> v = hmr_locals_init)"

lemma word_succ_le: "a < b \<Longrightarrow> a + 1 \<le> (b :: u64)"
  by (simp add: inc_le)

lemma locals_ok_local:
  assumes "locals_ok x p v" and "measure_local A x l now s p v = (p', v')"
  shows "locals_ok x p' v'"
proof (cases "run_limit_ticks x = 0")
  case True
  with assms word_succ_le [of "lock_acquires v" "num_acquires x"] show ?thesis
    by (cases p) (auto simp: measure_local_def measure_defs measure_call_def locals_ok_def counted_ok_def hmr_locals_init_def Let_def split: if_splits)
next
  case False
  with assms word_succ_le [of "inner v" "run_limit_inner_loop_iters x"] show ?thesis
    by (cases p) (auto simp: measure_local_def measure_defs measure_call_def locals_ok_def timed_ok_def hmr_locals_init_def Let_def add.assoc split: if_splits)
qed

section \<open>The interface between the loops and a lock\<close>

text \<open>The work a thread still has, in steps; \<open>busy\<close> when it is between the start of \<open>lock_acquire\<close> and the end of \<open>lock_release\<close>.\<close>

definition iterations_left :: "thread_args \<Rightarrow> hmr_locals \<Rightarrow> nat" where
  "iterations_left x v = (if run_limit_ticks x = 0 then unat (num_acquires x) - unat (lock_acquires v)
     else unat (run_limit_inner_loop_iters x) - unat (inner v))"

definition measure_work :: "thread_args \<Rightarrow> bool \<Rightarrow> measure_pc \<Rightarrow> hmr_locals \<Rightarrow> nat" where
  "measure_work x busy p v = (let k = 4 * iterations_left x v in case p of
       MsStart \<Rightarrow> 3 + k | MsInner \<Rightarrow> 2 + k | MsTicks \<Rightarrow> 1 | MsCount \<Rightarrow> 2 + k
     | MsLock \<Rightarrow> (if busy then k else 1 + k) | MsPost \<Rightarrow> k - 1 | MsDone \<Rightarrow> 0)"

lemma unat_succ: "a < (b :: u64) \<Longrightarrow> unat (a + 1) = Suc (unat a)"
proof -
  assume "a < b"
  moreover have "unat b < 2 ^ 64" using unsigned_less [of b] by simp
  ultimately have "unat a + 1 < 2 ^ 64" by (simp add: word_less_nat_alt)
  then show ?thesis by (simp add: unat_word_ariths)
qed

text \<open>Outside the calls a thread can always go on with its own work, for a suitable reading of the clock.\<close>

lemma measure_local_less:
  assumes ok: "locals_ok x p v" and limit: "run_limit_ticks x \<noteq> 0 \<or> num_acquires x \<noteq> 0" and p: "p \<noteq> MsLock" "p \<noteq> MsDone"
    and m: "measure_local A x l (ticks_start v + run_limit_ticks x) s p v = (p', v')"
  shows "measure_work x False p' v' < measure_work x b p v"
proof -
  have "unat (lock_acquires v) < unat (num_acquires x)" "unat (lock_acquires v + 1) = Suc (unat (lock_acquires v))"
    if "lock_acquires v < num_acquires x" using that unat_succ [OF that] by (simp_all add: word_less_nat_alt)
  moreover have "unat (inner v) < unat (run_limit_inner_loop_iters x)" "unat (inner v + 1) = Suc (unat (inner v))"
    if "inner v < run_limit_inner_loop_iters x" using that unat_succ [OF that] by (simp_all add: word_less_nat_alt)
  ultimately show ?thesis using ok limit p m
    by (cases p; cases "run_limit_ticks x = 0")
      (auto simp: measure_local_def measure_defs measure_work_def iterations_left_def locals_ok_def counted_ok_def timed_ok_def
        hmr_locals_init_def Let_def split: if_splits)
qed

text \<open>A thread is busy with the lock only at the calls, and its variables are as described.\<close>

definition measure_inv :: "('l, 's) lock_alg \<Rightarrow> ('s \<Rightarrow> bool) \<Rightarrow> thread_args \<Rightarrow> 's measure_state \<Rightarrow> bool" where
  "measure_inv A good x s \<longleftrightarrow> good (ms_lock s) \<and>
     (\<forall>t. (ms_pc s t \<noteq> MsLock \<longrightarrow> la_phase A (ms_lock s) t = Outside) \<and> locals_ok x (ms_pc s t) (ms_locals s t))"

definition thread_work :: "('l, 's) lock_alg \<Rightarrow> thread_args \<Rightarrow> 's measure_state \<Rightarrow> tid \<Rightarrow> nat" where
  "thread_work A x s t = measure_work x (la_phase A (ms_lock s) t \<noteq> Outside) (ms_pc s t) (ms_locals s t)"

text \<open>The calls of \<open>lock_acquire\<close> that have returned to a thread, by its variables: the iterations it has counted and the one it is in.
  The acquisitions of a thread in a history.\<close>

definition acquisitions :: "('l, 's) lock_alg \<Rightarrow> 's measure_state \<Rightarrow> tid \<Rightarrow> u64" where
  "acquisitions A s t = lock_acquires (ms_locals s t) +
     (if ms_pc s t = MsPost \<or> la_phase A (ms_lock s) t \<in> {Inside, Releasing} then 1 else 0)"

definition depths_of :: "tid \<Rightarrow> (tid \<times> u64) list \<Rightarrow> u64 list" where
  "depths_of t es = map snd (filter (\<lambda>e. fst e = t) es)"

lemma depths_of_append: "depths_of t (es @ fs) = depths_of t es @ depths_of t fs"
  by (simp add: depths_of_def)

section \<open>What a measurement promises\<close>

text \<open>Every measurement that has a limit can be completed by all threads, from every state of every run.\<close>

definition measurable :: "('l, 's) lock_alg \<Rightarrow> nat \<Rightarrow> 's \<Rightarrow> bool" where
  "measurable A N s \<longleftrightarrow> (\<forall>x ls. run_limit_ticks x \<noteq> 0 \<or> num_acquires x \<noteq> 0 \<longrightarrow>
     (\<exists>ms. \<forall>t<N. ms_pc (run (measure_step A N x) (ls @ ms) (measure_start s)) t = MsDone))"

text \<open>What a thread reports at the end is the number of its acquisitions (the number that was asked for, in the counted loop)
  and the sum of the depths they returned, as 64-bit numbers.\<close>

definition measured_exactly :: "('l, 's) lock_alg \<Rightarrow> nat \<Rightarrow> 's \<Rightarrow> bool" where
  "measured_exactly A N s \<longleftrightarrow> (\<forall>x ls t.
     let s' = run (measure_step A N x) ls (measure_start s); r = hmr_results (ms_locals s' t);
         ds = depths_of t (observe (measure_acquired A N) (measure_step A N x) ls (measure_start s))
     in ms_pc s' t = MsDone \<longrightarrow> res_lock_acquires r = of_nat (length ds) \<and> res_hmrdepth r = sum_list ds \<and>
       (if run_limit_ticks x = 0 then res_lock_acquires r = num_acquires x
        else run_limit_ticks x \<le> res_hwtimer_end r - res_hwtimer_start r))"

text \<open>The laws of a lock: the phases of a thread follow each other and change only when it moves; a thread outside can
  call \<open>lock_acquire\<close>; and while somebody is busy, somebody who is busy can bring the lock closer to being unused.\<close>

locale measured_lock = invariant_system init "la_step A" inv
  for init :: "'s \<Rightarrow> bool" and A :: "('l, 's) lock_alg" and inv :: "'s \<Rightarrow> bool" +
  fixes N :: nat and dist :: "'s \<Rightarrow> nat"
  assumes outside_init: "init s \<Longrightarrow> la_phase A s i = Outside"
    and phase_other: "inv s \<Longrightarrow> j \<noteq> la_mover A l \<Longrightarrow> la_phase A (la_step A l s) j = la_phase A s j"
    and phase_next: "inv s \<Longrightarrow> next_phase (la_phase A s (la_mover A l)) (la_phase A (la_step A l s) (la_mover A l))"
    and enters: "inv s \<Longrightarrow> i < N \<Longrightarrow> la_phase A s i = Outside \<Longrightarrow>
      \<exists>l. la_mover A l = i \<and> la_phase A (la_step A l s) i \<noteq> Outside"
    and drains: "inv s \<Longrightarrow> la_phase A s i \<noteq> Outside \<Longrightarrow>
      \<exists>l. la_mover A l < N \<and> la_phase A s (la_mover A l) \<noteq> Outside \<and> dist (la_step A l s) < dist s"
begin

lemma step_other:
  assumes "measure_inv A inv x s" "j \<noteq> la_mover A l"
  shows "ms_pc (measure_step A N x (l, now) s) j = ms_pc s j" "ms_locals (measure_step A N x (l, now) s) j = ms_locals s j"
    "la_phase A (ms_lock (measure_step A N x (l, now) s)) j = la_phase A (ms_lock s) j"
  using assms by (auto simp: measure_step_def measure_inv_def phase_other Let_def split: prod.split)

lemma step_own:
  assumes "la_mover A l = t" "t < N"
  shows "(ms_pc (measure_step A N x (l, now) s) t, ms_locals (measure_step A N x (l, now) s) t)
      = measure_local A x l now (ms_lock s) (ms_pc s t) (ms_locals s t)"
    "ms_lock (measure_step A N x (l, now) s) = (if ms_pc s t = MsLock then la_step A l (ms_lock s) else ms_lock s)"
  using assms by (auto simp: measure_step_def Let_def split: prod.split)

lemma measure_inv_step:
  assumes m: "measure_inv A inv x s"
  shows "measure_inv A inv x (measure_step A N x l s)"
proof (cases l)
  case (Pair l now)
  let ?t = "la_mover A l" and ?s = "measure_step A N x (l, now) s"
  show ?thesis
  proof (cases "?t < N")
    case True
    note own = step_own [OF refl True, of x now s]
    from m have i: "inv (ms_lock s)" by (simp add: measure_inv_def)
    then have inv': "inv (ms_lock ?s)" unfolding own(2) by (simp add: inv_step)
    have "locals_ok x (ms_pc ?s ?t) (ms_locals ?s ?t)"
      by (rule locals_ok_local [OF _ own(1) [symmetric]]) (use m in \<open>simp add: measure_inv_def\<close>)
    moreover have "ms_pc ?s ?t \<noteq> MsLock \<longrightarrow> la_phase A (ms_lock ?s) ?t = Outside"
    proof (cases "ms_pc s ?t = MsLock")
      case l: True
      then show ?thesis using own by (auto simp: measure_local_def measure_call_def Let_def split: if_splits)
    next
      case False
      with m have "la_phase A (ms_lock s) ?t = Outside" by (simp add: measure_inv_def)
      with False show ?thesis unfolding own(2) by simp
    qed
    ultimately have ok: "(ms_pc ?s t \<noteq> MsLock \<longrightarrow> la_phase A (ms_lock ?s) t = Outside) \<and> locals_ok x (ms_pc ?s t) (ms_locals ?s t)" for t
      using m step_other [OF m, where l = l and now = now and j = t] by (cases "t = ?t") (simp_all add: measure_inv_def)
    with inv' have "measure_inv A inv x ?s" by (simp add: measure_inv_def)
    then show ?thesis by (simp add: Pair)
  qed (use m Pair in \<open>simp add: measure_step_def Let_def\<close>)
qed

lemma measure_inv_start: "init s \<Longrightarrow> measure_inv A inv x (measure_start s)"
  by (auto simp: measure_inv_def measure_start_def inv_init outside_init locals_ok_def counted_ok_def timed_ok_def hmr_locals_init_def)

lemma measure_inv_run: "init s \<Longrightarrow> measure_inv A inv x (run (measure_step A N x) ls (measure_start s))"
proof -
  have "measure_inv A inv x s \<Longrightarrow> measure_inv A inv x (run (measure_step A N x) ls s)" for s
    by (induction ls arbitrary: s) (simp_all add: measure_inv_step)
  then show "init s \<Longrightarrow> ?thesis" by (simp add: measure_inv_start)
qed

text \<open>The lock sees a run of its own: the calls of the threads are a schedule of it.\<close>

lemma lock_run: "\<exists>ks. ms_lock (run (measure_step A N x) ls s) = run (la_step A) ks (ms_lock s)"
proof (induction ls arbitrary: s)
  case Nil
  show ?case by (metis run.simps(1))
next
  case (Cons l ls)
  obtain l' now where l: "l = (l', now)" by (cases l)
  from Cons obtain ks where ks: "ms_lock (run (measure_step A N x) (l # ls) s) = run (la_step A) ks (ms_lock (measure_step A N x l s))"
    by fastforce
  have "ms_lock (measure_step A N x l s) = ms_lock s \<or> ms_lock (measure_step A N x l s) = la_step A l' (ms_lock s)"
    unfolding l by (auto simp: measure_step_def Let_def split: prod.split)
  then have "run (la_step A) ks (ms_lock (measure_step A N x l s)) \<in> {run (la_step A) ks (ms_lock s), run (la_step A) (l' # ks) (ms_lock s)}"
    by auto
  with ks show ?case by (metis insert_iff singletonD)
qed

subsection \<open>The loops end\<close>

lemma work_other: "measure_inv A inv x s \<Longrightarrow> j \<noteq> la_mover A l \<Longrightarrow> thread_work A x (measure_step A N x (l, now) s) j = thread_work A x s j"
  using step_other [of x s j l now] by (simp add: thread_work_def)

lemma work_less:
  assumes m: "measure_inv A inv x s" and t: "la_mover A l = t" "t < N"
    and less: "thread_work A x (measure_step A N x (l, now) s) t < thread_work A x s t"
  shows "(\<Sum>j<N. thread_work A x (measure_step A N x (l, now) s) j) < (\<Sum>j<N. thread_work A x s j)"
proof (rule sum_strict_mono_ex1)
  show "\<forall>j\<in>{..<N}. thread_work A x (measure_step A N x (l, now) s) j \<le> thread_work A x s j"
    using work_other [OF m, of _ l now] less t by (metis le_refl less_imp_le)
  show "\<exists>j\<in>{..<N}. thread_work A x (measure_step A N x (l, now) s) j < thread_work A x s j" using less t by blast
qed simp

text \<open>While nobody is busy, a thread that is not done can work.\<close>

lemma idle_works:
  assumes m: "measure_inv A inv x s" and limit: "run_limit_ticks x \<noteq> 0 \<or> num_acquires x \<noteq> 0"
    and t: "t < N" "ms_pc s t \<noteq> MsDone" and out: "la_phase A (ms_lock s) t = Outside"
  shows "\<exists>l. (\<Sum>j<N. thread_work A x (measure_step A N x l s) j) < (\<Sum>j<N. thread_work A x s j)"
proof -
  from m have inv: "inv (ms_lock s)" and ok: "locals_ok x (ms_pc s t) (ms_locals s t)" by (auto simp: measure_inv_def)
  from enters [OF inv t(1) out] obtain l where l: "la_mover A l = t" "la_phase A (la_step A l (ms_lock s)) t \<noteq> Outside" by blast
  let ?now = "ticks_start (ms_locals s t) + run_limit_ticks x"
  let ?s = "measure_step A N x (l, ?now) s"
  note own = step_own [OF l(1) t(1), of x ?now s]
  have "thread_work A x ?s t < thread_work A x s t"
  proof (cases "ms_pc s t = MsLock")
    case True
    with own l out show ?thesis
      by (auto simp: thread_work_def measure_work_def measure_local_def measure_call_def iterations_left_def Let_def split: if_splits)
  next
    case False
    with own(2) out have "la_phase A (ms_lock ?s) t = Outside" by simp
    then show ?thesis using measure_local_less [OF ok limit False t(2) own(1) [symmetric]] by (simp add: thread_work_def)
  qed
  then show ?thesis using work_less [OF m l(1) t(1)] by blast
qed

text \<open>While somebody is busy, a step that brings the lock closer to being unused leaves no more work than there was.\<close>

lemma busy_works:
  assumes m: "measure_inv A inv x s" and i: "la_phase A (ms_lock s) i \<noteq> Outside"
  shows "\<exists>l. (\<Sum>j<N. thread_work A x (measure_step A N x l s) j) \<le> (\<Sum>j<N. thread_work A x s j) \<and>
    dist (ms_lock (measure_step A N x l s)) < dist (ms_lock s)"
proof -
  from m have "inv (ms_lock s)" by (simp add: measure_inv_def)
  from drains [OF this i] obtain l where l: "la_mover A l < N" "la_phase A (ms_lock s) (la_mover A l) \<noteq> Outside"
    "dist (la_step A l (ms_lock s)) < dist (ms_lock s)" by blast
  let ?t = "la_mover A l" and ?s = "measure_step A N x (l, 0) s"
  have p: "ms_pc s ?t = MsLock" using m l(2) by (auto simp: measure_inv_def)
  note own = step_own [OF refl l(1), of x 0 s]
  have "thread_work A x ?s j \<le> thread_work A x s j" for j
  proof (cases "j = ?t")
    case True
    with own p l(2) show ?thesis
      by (auto simp: thread_work_def measure_work_def measure_local_def measure_call_def iterations_left_def Let_def split: if_splits)
  qed (simp add: work_other [OF m])
  then have "(\<Sum>j<N. thread_work A x ?s j) \<le> (\<Sum>j<N. thread_work A x s j)" by (rule sum_mono)
  moreover have "dist (ms_lock ?s) < dist (ms_lock s)" using own(2) p l(3) by simp
  ultimately show ?thesis by blast
qed

lemma measurement_ends:
  assumes "run_limit_ticks x \<noteq> 0 \<or> num_acquires x \<noteq> 0" and "measure_inv A inv x s"
  shows "\<exists>ls. \<forall>t<N. ms_pc (run (measure_step A N x) ls s) t = MsDone"
  using assms(2)
proof (induction s rule: wf_induct_rule [OF wf_measures, of "[\<lambda>s. \<Sum>j<N. thread_work A x s j, \<lambda>s. dist (ms_lock s)]"])
  case (1 s)
  let ?W = "\<lambda>s. \<Sum>j<N. thread_work A x s j"
  show ?case
  proof (cases "\<forall>t<N. ms_pc s t = MsDone")
    case True
    then have "\<forall>t<N. ms_pc (run (measure_step A N x) [] s) t = MsDone" by simp
    then show ?thesis by blast
  next
    case False
    have "\<exists>l. ?W (measure_step A N x l s) < ?W s \<or>
      ?W (measure_step A N x l s) \<le> ?W s \<and> dist (ms_lock (measure_step A N x l s)) < dist (ms_lock s)"
      using False idle_works [OF 1(2) assms(1)] busy_works [OF 1(2)] by meson
    then obtain l where "(measure_step A N x l s, s) \<in> measures [?W, \<lambda>s. dist (ms_lock s)]" by (auto simp: nat_less_le)
    from 1(1) [OF this measure_inv_step [OF 1(2)]] obtain ls where
      "\<forall>t<N. ms_pc (run (measure_step A N x) (l # ls) s) t = MsDone" by auto
    then show ?thesis by blast
  qed
qed

subsection \<open>The results are right\<close>

lemma step_counts:
  assumes m: "measure_inv A inv x s"
  shows "of_nat (length (depths_of t (measure_acquired A N l s))) + acquisitions A s t = acquisitions A (measure_step A N x l s) t"
    and "sum_list (depths_of t (measure_acquired A N l s)) + total_depth (ms_locals s t) = total_depth (ms_locals (measure_step A N x l s) t)"
proof -
  obtain l' now where l: "l = (l', now)" by (cases l)
  let ?u = "la_mover A l'" and ?s = "measure_step A N x (l', now) s"
  have "of_nat (length (depths_of t (measure_acquired A N (l', now) s))) + acquisitions A s t = acquisitions A ?s t \<and>
    sum_list (depths_of t (measure_acquired A N (l', now) s)) + total_depth (ms_locals s t) = total_depth (ms_locals ?s t)"
  proof (cases "t = ?u \<and> t < N")
    case True
    note own = step_own [OF True [THEN conjunct1, symmetric] True [THEN conjunct2], of x now s]
    have o: "ms_pc s t \<noteq> MsLock \<Longrightarrow> la_phase A (ms_lock s) t = Outside" and inv: "inv (ms_lock s)" using m by (auto simp: measure_inv_def)
    show ?thesis
    proof (cases "ms_pc s t = MsLock")
      case p: True
      have "next_phase (la_phase A (ms_lock s) t) (la_phase A (la_step A l' (ms_lock s)) t)" using phase_next [OF inv, of l'] True by simp
      with True own p show ?thesis
        by (cases "la_phase A (ms_lock s) t"; cases "la_phase A (la_step A l' (ms_lock s)) t")
          (simp_all add: measure_acquired_def acquisitions_def depths_of_def measure_local_def measure_call_def Let_def add.commute)
    next
      case False
      with own o have "acquisitions A ?s t = acquisitions A s t \<and> total_depth (ms_locals ?s t) = total_depth (ms_locals s t)"
        by (cases "ms_pc s t") (auto simp: acquisitions_def measure_local_def measure_defs Let_def split: if_splits)
      with False True show ?thesis by (auto simp: measure_acquired_def depths_of_def Let_def)
    qed
  next
    case False
    then have "depths_of t (measure_acquired A N (l', now) s) = []" by (auto simp: measure_acquired_def depths_of_def Let_def)
    moreover have "acquisitions A ?s t = acquisitions A s t \<and> ms_locals ?s t = ms_locals s t"
    proof (cases "t = ?u")
      case True
      with False show ?thesis by (simp add: measure_step_def)
    qed (use step_other [OF m] in \<open>simp add: acquisitions_def\<close>)
    ultimately show ?thesis by simp
  qed
  then show "of_nat (length (depths_of t (measure_acquired A N l s))) + acquisitions A s t = acquisitions A (measure_step A N x l s) t"
    "sum_list (depths_of t (measure_acquired A N l s)) + total_depth (ms_locals s t) = total_depth (ms_locals (measure_step A N x l s) t)"
    unfolding l by auto
qed

lemma run_counts:
  assumes "measure_inv A inv x s"
  shows "of_nat (length (depths_of t (observe (measure_acquired A N) (measure_step A N x) ls s))) + acquisitions A s t
      = acquisitions A (run (measure_step A N x) ls s) t \<and>
    sum_list (depths_of t (observe (measure_acquired A N) (measure_step A N x) ls s)) + total_depth (ms_locals s t)
      = total_depth (ms_locals (run (measure_step A N x) ls s) t)"
  using assms
proof (induction ls arbitrary: s)
  case (Cons l ls)
  note step = step_counts [OF Cons.prems, of t l, symmetric]
  from Cons.IH [OF measure_inv_step [OF Cons.prems], of l] show ?case
    unfolding step observe.simps run.simps depths_of_append length_append sum_list_append of_nat_add by (simp only: ac_simps)
qed (simp add: depths_of_def)

lemma init_measurable: "init s \<Longrightarrow> measurable A N s"
  unfolding measurable_def using measurement_ends measure_inv_run by (simp add: run_append)

lemma init_measured_exactly:
  assumes "init s"
  shows "measured_exactly A N s"
  unfolding measured_exactly_def Let_def
proof (intro allI impI)
  fix x ls t
  let ?s = "run (measure_step A N x) ls (measure_start s)"
  let ?ds = "depths_of t (observe (measure_acquired A N) (measure_step A N x) ls (measure_start s))"
  assume d: "ms_pc ?s t = MsDone"
  have m: "measure_inv A inv x ?s" by (rule measure_inv_run [OF assms])
  with d have out: "la_phase A (ms_lock ?s) t = Outside" and ok: "locals_ok x MsDone (ms_locals ?s t)"
    by (metis measure_inv_def measure_pc.distinct(39), metis measure_inv_def)
  have "of_nat (length ?ds) = lock_acquires (ms_locals ?s t)" "sum_list ?ds = total_depth (ms_locals ?s t)"
    using run_counts [OF measure_inv_start [OF assms], of t x ls] d out outside_init [OF assms]
    by (simp_all add: acquisitions_def measure_start_def hmr_locals_init_def)
  with ok show "res_lock_acquires (hmr_results (ms_locals ?s t)) = of_nat (length ?ds) \<and>
      res_hmrdepth (hmr_results (ms_locals ?s t)) = sum_list ?ds \<and>
      (if run_limit_ticks x = 0 then res_lock_acquires (hmr_results (ms_locals ?s t)) = num_acquires x
       else run_limit_ticks x \<le> res_hwtimer_end (hmr_results (ms_locals ?s t)) - res_hwtimer_start (hmr_results (ms_locals ?s t)))"
    by (auto simp: hmr_results_def locals_ok_def counted_ok_def timed_ok_def)
qed

end

end
