(* ===== verification/Measured_Locks.thy ===== *)
theory Measured_Locks
  imports Lock_Refinement TBB_Progress Word_Locks Pthread_Mutex Measure
begin

text \<open>
  The locks as the measurement loops see them: for each algorithm the phases of its two calls and the depth that
  \<open>lock_acquire\<close> returns, and the proof that it keeps the laws of the interface \<open>measured_lock\<close>.
\<close>

section \<open>A rank for every position\<close>

text \<open>Many of the proofs that a lock can be drained count the accesses that are left, thread by thread.\<close>

lemma rank_drains:
  assumes "i < N" "pc' = (pc :: tid \<Rightarrow> 'p)(i := p)" "rank p < (rank (pc i) :: nat)"
  shows "(\<Sum>j<N. rank (pc' j)) < (\<Sum>j<N. rank (pc j))"
  using sum_fun_upd_less [OF assms(1), of rank p pc] assms(2,3) by simp

section \<open>Ticket lock\<close>

fun ticket_phase :: "ticket_pc \<Rightarrow> call_phase" where
  "ticket_phase TkIdle = Outside" | "ticket_phase (TkSpin _) = Acquiring" | "ticket_phase (TkCS _) = Inside" | "ticket_phase (TkRel _) = Releasing"

fun ticket_returned :: "ticket_pc \<Rightarrow> u64" where
  "ticket_returned (TkCS d) = d" | "ticket_returned _ = 0"

definition ticket_alg :: "arch \<Rightarrow> nat \<Rightarrow> (tid, ticket_state) lock_alg" where
  "ticket_alg a N = \<lparr>la_step = ticket_step a N, la_mover = id, la_phase = (\<lambda>s i. ticket_phase (tk_pc s i)),
     la_depth = (\<lambda>s i. ticket_returned (tk_pc s i))\<rparr>"

interpretation measured_ticket: measured_lock "ticket_init a N" "ticket_alg a N" "ticket_inv a N" N "\<lambda>s. \<Sum>j<N. ticket_work (tk_pc s j)" for a N
proof
  note defs = ticket_alg_def ticket_step_def ticket_lock_acquire_def ticket_spin_def ticket_lock_release_def ticket_release_store_def Let_def
  fix s i j l
  show "la_phase (ticket_alg a N) s i = Outside" if "ticket_init a N s"
    using that by (auto simp: ticket_alg_def ticket_init_def ticket_start_def)
  show "ticket_inv a N s" if "ticket_init a N s" using that by (rule ticket.inv_init)
  show "ticket_inv a N (la_step (ticket_alg a N) l s)" if "ticket_inv a N s" using ticket.inv_step [OF that] by (simp add: ticket_alg_def)
  show "la_phase (ticket_alg a N) (la_step (ticket_alg a N) l s) j = la_phase (ticket_alg a N) s j" if "j \<noteq> la_mover (ticket_alg a N) l"
    using that by (cases "tk_pc s l") (auto simp: defs split: arch.split)
  show "next_phase (la_phase (ticket_alg a N) s (la_mover (ticket_alg a N) l)) (la_phase (ticket_alg a N) (la_step (ticket_alg a N) l s) (la_mover (ticket_alg a N) l))"
    by (cases "tk_pc s l") (auto simp: defs split: arch.split)
  show "\<exists>l. la_mover (ticket_alg a N) l = i \<and> la_phase (ticket_alg a N) (la_step (ticket_alg a N) l s) i \<noteq> Outside"
    if "i < N" "la_phase (ticket_alg a N) s i = Outside"
    using that by (intro exI [of _ i], cases "tk_pc s i") (auto simp: defs)
  show "\<exists>l. la_mover (ticket_alg a N) l < N \<and> la_phase (ticket_alg a N) s (la_mover (ticket_alg a N) l) \<noteq> Outside \<and>
      (\<Sum>j<N. ticket_work (tk_pc (la_step (ticket_alg a N) l s) j)) < (\<Sum>j<N. ticket_work (tk_pc s j))"
    if inv: "ticket_inv a N s" and i: "la_phase (ticket_alg a N) s i \<noteq> Outside"
  proof -
    from inv obtain q where q: "ticket_queue a N s q" by (auto simp: ticket_inv_def)
    with i have "i \<in> set q" by (auto simp: ticket_queue_def ticket_alg_def)
    then obtain h q' where e: "q = h # q'" by (cases q) auto
    with q have h: "h < N" "tk_pc s h \<noteq> TkIdle" by (auto simp: ticket_queue_def)
    from ticket_first_moves [OF q [unfolded e]] obtain p where
      "tk_pc (ticket_step a N h s) = (tk_pc s)(h := p)" "ticket_work p < ticket_work (tk_pc s h)" by blast
    from rank_drains [OF h(1) this] h show ?thesis
      by (intro exI [of _ h], cases "tk_pc s h") (auto simp: ticket_alg_def)
  qed
qed

section \<open>Queued spinlock\<close>

definition q_phase :: "q_pc \<Rightarrow> call_phase" where
  "q_phase p = (case p of QIdle \<Rightarrow> Outside | QCS _ \<Rightarrow> Inside | _ \<Rightarrow> Acquiring)"

definition queued_alg :: "nat \<Rightarrow> (tid, q_state) lock_alg" where
  "queued_alg N = \<lparr>la_step = q_step N, la_mover = id, la_phase = (\<lambda>s i. q_phase (q_pc s i)),
     la_depth = (\<lambda>s i. case q_pc s i of QCS d \<Rightarrow> d | _ \<Rightarrow> 0)\<rparr>"

lemma q_phase_Outside [simp]: "q_phase p = Outside \<longleftrightarrow> p = QIdle"
  by (cases p) (simp_all add: q_phase_def)

interpretation measured_queued: measured_lock "\<lambda>s. N \<le> 16383 \<and> s = mcs_init_locks" "queued_alg N" "\<lambda>s. q_inv N s \<and> q_live s" N "\<lambda>s. \<Sum>j<N. q_rank (q_pc s j)" for N
proof
  fix s i j l
  show "la_phase (queued_alg N) s i = Outside" if "N \<le> 16383 \<and> s = mcs_init_locks"
    using that by (simp add: queued_alg_def mcs_init_locks_def)
  show "q_inv N s \<and> q_live s" if "N \<le> 16383 \<and> s = mcs_init_locks" using that by (rule queued_progress.inv_init)
  show "q_inv N (la_step (queued_alg N) l s) \<and> q_live (la_step (queued_alg N) l s)" if "q_inv N s \<and> q_live s"
    using queued_progress.inv_step [OF that] by (simp add: queued_alg_def)
  show "la_phase (queued_alg N) (la_step (queued_alg N) l s) j = la_phase (queued_alg N) s j" if "j \<noteq> la_mover (queued_alg N) l"
    using that by (simp add: queued_alg_def q_step_other)
  show "next_phase (la_phase (queued_alg N) s (la_mover (queued_alg N) l)) (la_phase (queued_alg N) (la_step (queued_alg N) l s) (la_mover (queued_alg N) l))"
    by (cases "l < N"; cases "q_pc s l") (auto simp: queued_alg_def q_phase_def q_step_defs q_xchg_def xchg_tail_def q_claim_def
        queued_fetch_set_pending_acquire_def q_set_val_def split: option.splits)
  show "\<exists>l. la_mover (queued_alg N) l = i \<and> la_phase (queued_alg N) (la_step (queued_alg N) l s) i \<noteq> Outside"
    if "i < N" "la_phase (queued_alg N) s i = Outside"
    using that by (intro exI [of _ i]) (auto simp: queued_alg_def q_step_defs)
  show "\<exists>l. la_mover (queued_alg N) l < N \<and> la_phase (queued_alg N) s (la_mover (queued_alg N) l) \<noteq> Outside \<and>
      (\<Sum>j<N. q_rank (q_pc (la_step (queued_alg N) l s) j)) < (\<Sum>j<N. q_rank (q_pc s j))"
    if inv: "q_inv N s \<and> q_live s" and i: "la_phase (queued_alg N) s i \<noteq> Outside"
  proof -
    from i inv obtain k where k: "q_pc s k \<noteq> QIdle" "\<not> q_blocked s k" using q_someone_moves [of N s i] by (auto simp: queued_alg_def)
    with inv have n: "k < N" unfolding q_inv_def by (meson linorder_not_less)
    have "q_pc (q_step N k s) = (q_pc s)(k := q_pc (q_step N k s) k)" using q_step_other [of _ k N s] by auto
    from rank_drains [OF n this, of q_rank] q_rank_step [OF _ n k] inv k n show ?thesis
      by (intro exI [of _ k]) (simp add: queued_alg_def)
  qed
qed

section \<open>CLH lock\<close>

fun clh_phase :: "clh_pc \<Rightarrow> call_phase" where
  "clh_phase ClhIdle = Outside" | "clh_phase ClhCS = Inside" | "clh_phase (ClhUnlock _) = Releasing" | "clh_phase (ClhReuse _) = Releasing"
| "clh_phase _ = Acquiring"

definition clh_alg :: "bool \<Rightarrow> nat \<Rightarrow> (tid, clh_state) lock_alg" where
  "clh_alg w N = \<lparr>la_step = clh_step w N, la_mover = id, la_phase = (\<lambda>s i. clh_phase (clh_pc s i)), la_depth = (\<lambda>s i. 1)\<rparr>"

fun clh_rank :: "clh_pc \<Rightarrow> nat" where
  "clh_rank ClhIdle = 0" | "clh_rank (ClhReuse _) = 1" | "clh_rank ClhArmed = 9" | "clh_rank p = clh_work p + 1"

lemma clh_phase_Outside [simp]: "clh_phase p = Outside \<longleftrightarrow> p = ClhIdle"
  by (cases p) simp_all

text \<open>A thread on its way to the queue or out of it is not held up, and otherwise the first of the queue is not.\<close>

lemma clh_someone_moves:
  assumes inv: "clh_inv N s" and i: "i < N" "clh_pc s i \<noteq> ClhIdle"
  shows "\<exists>k. k < N \<and> clh_pc s k \<noteq> ClhIdle \<and> clh_rank (clh_pc (clh_step w N k s) k) < clh_rank (clh_pc s k)"
proof (cases "clh_queued (clh_pc s i)")
  case True
  from inv obtain b q where q: "clh_queue N s b q" by (auto simp: clh_inv_def)
  with True i have "i \<in> set q" by (auto simp: clh_queue_def)
  then obtain h q' where e: "q = h # q'" by (cases q) auto
  with q have h: "h < N" "clh_queued (clh_pc s h)" by (auto simp: clh_queue_def)
  have "clh_rank (clh_pc (clh_step w N h s) h) \<le> clh_work (clh_pc (clh_step w N h s) h) + 1"
    using h by (cases "clh_pc s h") (auto simp: clh_step_def clh_step_defs clh_queued_def)
  also have "\<dots> < clh_rank (clh_pc s h)" using clh_first_moves [OF q [unfolded e], of w] h
    by (cases "clh_pc s h") (auto simp: clh_queued_def)
  finally show ?thesis using h by (intro exI [of _ h]) (auto simp: clh_queued_def)
next
  case False
  with i show ?thesis by (intro exI [of _ i], cases "clh_pc s i") (auto simp: clh_queued_def clh_step_def clh_step_defs)
qed

interpretation measured_clh: measured_lock "clh_init N" "clh_alg w N" "\<lambda>s. clh_inv N s \<and> (\<forall>i\<ge>N. clh_pc s i = ClhIdle)" N
  "\<lambda>s. \<Sum>j<N. clh_rank (clh_pc s j)" for w N
proof
  fix s i j l
  have idle: "clh_pc s i = ClhIdle" if "clh_init N s" for s i
  proof -
    have "clh_pc (fold clh_thread_local_init ks s) = clh_pc s" for ks s
      by (induction ks arbitrary: s) (simp_all add: clh_thread_local_init_def)
    with that show ?thesis by (auto simp: clh_init_def clh_start_def clh_lock_init_def split: if_splits)
  qed
  show "la_phase (clh_alg w N) s i = Outside" if "clh_init N s" using idle [OF that] by (simp add: clh_alg_def)
  show "clh_inv N s \<and> (\<forall>i\<ge>N. clh_pc s i = ClhIdle)" if "clh_init N s" using idle [OF that] clh.inv_init [OF that] by simp
  show "clh_inv N (la_step (clh_alg w N) l s) \<and> (\<forall>i\<ge>N. clh_pc (la_step (clh_alg w N) l s) i = ClhIdle)"
    if "clh_inv N s \<and> (\<forall>i\<ge>N. clh_pc s i = ClhIdle)"
    using that clh.inv_step [of N s w l] clh_step_other [of _ l w N s] by (auto simp: clh_alg_def) (metis clh_step_def linorder_not_less)
  show "la_phase (clh_alg w N) (la_step (clh_alg w N) l s) j = la_phase (clh_alg w N) s j" if "j \<noteq> la_mover (clh_alg w N) l"
    using that by (simp add: clh_alg_def clh_step_other)
  show "next_phase (la_phase (clh_alg w N) s (la_mover (clh_alg w N) l)) (la_phase (clh_alg w N) (la_step (clh_alg w N) l s) (la_mover (clh_alg w N) l))"
    by (cases "clh_pc s l") (auto simp: clh_alg_def clh_step_def clh_step_defs)
  show "\<exists>l. la_mover (clh_alg w N) l = i \<and> la_phase (clh_alg w N) (la_step (clh_alg w N) l s) i \<noteq> Outside"
    if "i < N" "la_phase (clh_alg w N) s i = Outside"
    using that by (intro exI [of _ i]) (auto simp: clh_alg_def clh_step_def clh_step_defs)
  show "\<exists>l. la_mover (clh_alg w N) l < N \<and> la_phase (clh_alg w N) s (la_mover (clh_alg w N) l) \<noteq> Outside \<and>
      (\<Sum>j<N. clh_rank (clh_pc (la_step (clh_alg w N) l s) j)) < (\<Sum>j<N. clh_rank (clh_pc s j))"
    if inv: "clh_inv N s \<and> (\<forall>i\<ge>N. clh_pc s i = ClhIdle)" and i: "la_phase (clh_alg w N) s i \<noteq> Outside"
  proof -
    from i inv have "i < N" "clh_pc s i \<noteq> ClhIdle" by (auto simp: clh_alg_def) (meson linorder_not_less)
    then obtain k where k: "k < N" "clh_pc s k \<noteq> ClhIdle" "clh_rank (clh_pc (clh_step w N k s) k) < clh_rank (clh_pc s k)"
      using clh_someone_moves [OF inv [THEN conjunct1]] by blast
    have "clh_pc (clh_step w N k s) = (clh_pc s)(k := clh_pc (clh_step w N k s) k)" using clh_step_other [of _ k w N s] by auto
    from rank_drains [OF k(1) this k(3)] k show ?thesis by (intro exI [of _ k]) (simp add: clh_alg_def)
  qed
qed

section \<open>Swap mutex\<close>

fun swap_phase :: "swap_pc \<Rightarrow> call_phase" where
  "swap_phase SwIdle = Outside" | "swap_phase SwSwap = Acquiring" | "swap_phase SwHold = Inside"

definition swap_alg :: "nat \<Rightarrow> (tid, swap_state) lock_alg" where
  "swap_alg N = \<lparr>la_step = swap_step N, la_mover = id, la_phase = (\<lambda>s i. swap_phase (sw_pc s i)), la_depth = (\<lambda>s i. 0)\<rparr>"

fun swap_rank :: "swap_pc \<Rightarrow> nat" where
  "swap_rank SwIdle = 0" | "swap_rank SwSwap = 2" | "swap_rank SwHold = 1"

interpretation measured_swap: measured_lock "\<lambda>s. s = swap_start" "swap_alg N" "\<lambda>s. swap_inv s \<and> (\<forall>i\<ge>N. sw_pc s i = SwIdle)" N
  "\<lambda>s. \<Sum>j<N. swap_rank (sw_pc s j)" for N
proof
  note defs = swap_alg_def swap_step_def swap_lock_acquire_def swap_lock_release_def Let_def
  fix s i j l
  show "la_phase (swap_alg N) s i = Outside" if "s = swap_start" using that by (simp add: swap_alg_def swap_start_def)
  show "swap_inv s \<and> (\<forall>i\<ge>N. sw_pc s i = SwIdle)" if "s = swap_start" using that swap.inv_init by (simp add: swap_start_def)
  show "swap_inv (la_step (swap_alg N) l s) \<and> (\<forall>i\<ge>N. sw_pc (la_step (swap_alg N) l s) i = SwIdle)" if "swap_inv s \<and> (\<forall>i\<ge>N. sw_pc s i = SwIdle)"
    using that swap_inv_step [of s N l] by (cases "sw_pc s l") (auto simp: defs)
  show "la_phase (swap_alg N) (la_step (swap_alg N) l s) j = la_phase (swap_alg N) s j" if "j \<noteq> la_mover (swap_alg N) l"
    using that by (cases "sw_pc s l") (auto simp: defs)
  show "next_phase (la_phase (swap_alg N) s (la_mover (swap_alg N) l)) (la_phase (swap_alg N) (la_step (swap_alg N) l s) (la_mover (swap_alg N) l))"
    by (cases "sw_pc s l") (auto simp: defs)
  show "\<exists>l. la_mover (swap_alg N) l = i \<and> la_phase (swap_alg N) (la_step (swap_alg N) l s) i \<noteq> Outside"
    if "i < N" "la_phase (swap_alg N) s i = Outside" using that by (intro exI [of _ i], cases "sw_pc s i") (auto simp: defs)
  show "\<exists>l. la_mover (swap_alg N) l < N \<and> la_phase (swap_alg N) s (la_mover (swap_alg N) l) \<noteq> Outside \<and>
      (\<Sum>j<N. swap_rank (sw_pc (la_step (swap_alg N) l s) j)) < (\<Sum>j<N. swap_rank (sw_pc s j))"
    if inv: "swap_inv s \<and> (\<forall>i\<ge>N. sw_pc s i = SwIdle)" and i: "la_phase (swap_alg N) s i \<noteq> Outside"
  proof -
    obtain k where k: "k < N" "sw_pc s k \<noteq> SwIdle" "swap_rank (sw_pc (swap_step N k s) k) < swap_rank (sw_pc s k)"
    proof (cases "\<exists>k. sw_pc s k = SwHold")
      case True
      then obtain k where k: "sw_pc s k = SwHold" by blast
      with inv have "k < N" by (metis linorder_not_less swap_pc.distinct(3))
      with k show ?thesis by (intro that [of k]) (simp_all add: defs)
    next
      case False
      with inv have "sw_lock s = 0" using flag_ok_zero [of "sw_lock s" "\<lambda>i. sw_pc s i = SwHold"] by (simp add: swap_inv_def)
      moreover from False i have "sw_pc s i = SwSwap" by (cases "sw_pc s i") (auto simp: swap_alg_def)
      moreover from this inv have "i < N" by (metis linorder_not_less swap_pc.distinct(1))
      ultimately show ?thesis by (intro that [of i]) (simp_all add: defs)
    qed
    have "sw_pc (swap_step N k s) = (sw_pc s)(k := sw_pc (swap_step N k s) k)" by (cases "sw_pc s k") (auto simp: defs)
    from rank_drains [OF k(1) this k(3)] k show ?thesis by (intro exI [of _ k], cases "sw_pc s k") (simp_all add: swap_alg_def)
  qed
qed

section \<open>POSIX mutex\<close>

fun pt_phase :: "pthread_pc \<Rightarrow> call_phase" where
  "pt_phase PtIdle = Outside" | "pt_phase PtTry = Acquiring" | "pt_phase PtHold = Inside" | "pt_phase PtExit = Acquiring"

definition pthread_alg :: "pthread_test \<Rightarrow> nat \<Rightarrow> (tid, pthread_state) lock_alg" where
  "pthread_alg test N = \<lparr>la_step = pt_step test N, la_mover = id, la_phase = (\<lambda>s i. pt_phase (pt_pc s i)), la_depth = (\<lambda>s i. 0)\<rparr>"

fun pt_rank :: "pthread_pc \<Rightarrow> nat" where
  "pt_rank PtIdle = 0" | "pt_rank PtTry = 2" | "pt_rank PtHold = 1" | "pt_rank PtExit = 0"

lemma pt_step_other: "j \<noteq> i \<Longrightarrow> pt_pc (pt_step test N i s) j = pt_pc s j"
  by (auto simp: pt_step_def pt_lock_acquire_def pt_lock_release_def pt_acquired_def pt_wait_def Let_def split: pthread_pc.split pthread_test.split option.split)

text \<open>What a step does to the thread that takes it.\<close>

lemma pt_step_own:
  assumes "pt_inv N s" "i < N"
  shows "pt_pc (pt_step test N i s) i = (if pt_pc s i = PtHold then PtIdle else if mx_owner (pt_mutex s) = None then PtHold else PtTry)"
proof -
  have o: "pt_pc s i = PtHold \<longleftrightarrow> mx_owner (pt_mutex s) = Some i" and e: "pt_pc s i \<noteq> PtExit" using assms(1) by (simp_all add: pt_inv_def)
  show ?thesis
  proof (cases "mx_owner (pt_mutex s) = Some i")
    case True
    then show ?thesis using o assms(2) by (simp add: pt_step_def pt_lock_release_def)
  next
    case False
    have "pt_step test N i s = pt_lock_acquire test i s" using False o e assms(2) by (cases "pt_pc s i") (simp_all add: pt_step_def)
    then show ?thesis using False o by (cases test; cases "mx_owner (pt_mutex s)") (auto simp: pt_step_defs)
  qed
qed

interpretation measured_pthread: measured_lock pt_init "pthread_alg test N" "pt_inv N" N "\<lambda>s. \<Sum>j<N. pt_rank (pt_pc s j)" for test N
proof
  fix s i j l
  show "la_phase (pthread_alg test N) s i = Outside" if "pt_init s" using pt_init_inv(2) [OF that] by (simp add: pthread_alg_def)
  show "pt_inv N s" if "pt_init s" using that by (rule pt_init_inv(1))
  show "pt_inv N (la_step (pthread_alg test N) l s)" if "pt_inv N s" using pt_inv_step [OF that] by (simp add: pthread_alg_def)
  show "la_phase (pthread_alg test N) (la_step (pthread_alg test N) l s) j = la_phase (pthread_alg test N) s j" if "j \<noteq> la_mover (pthread_alg test N) l"
    using that by (simp add: pthread_alg_def pt_step_other)
  show "next_phase (la_phase (pthread_alg test N) s (la_mover (pthread_alg test N) l)) (la_phase (pthread_alg test N) (la_step (pthread_alg test N) l s) (la_mover (pthread_alg test N) l))"
    if "pt_inv N s"
  proof (cases "l < N")
    case True
    have "pt_pc s l \<noteq> PtExit" using that by (simp add: pt_inv_def)
    then show ?thesis using pt_step_own [OF that True, of test] by (cases "pt_pc s l") (simp_all add: pthread_alg_def)
  qed (cases "pt_pc s l"; simp add: pthread_alg_def pt_step_def)
  show "\<exists>l. la_mover (pthread_alg test N) l = i \<and> la_phase (pthread_alg test N) (la_step (pthread_alg test N) l s) i \<noteq> Outside"
    if "pt_inv N s" "i < N" "la_phase (pthread_alg test N) s i = Outside"
    using that pt_step_own [of N s i] by (intro exI [of _ i], cases "pt_pc s i") (auto simp: pthread_alg_def)
  show "\<exists>l. la_mover (pthread_alg test N) l < N \<and> la_phase (pthread_alg test N) s (la_mover (pthread_alg test N) l) \<noteq> Outside \<and>
      (\<Sum>j<N. pt_rank (pt_pc (la_step (pthread_alg test N) l s) j)) < (\<Sum>j<N. pt_rank (pt_pc s j))"
    if inv: "pt_inv N s" and i: "la_phase (pthread_alg test N) s i \<noteq> Outside"
  proof -
    define k where "k = (case mx_owner (pt_mutex s) of None \<Rightarrow> i | Some k \<Rightarrow> k)"
    have busy: "pt_pc s k = PtHold \<or> mx_owner (pt_mutex s) = None \<and> pt_pc s k = PtTry"
      using inv i by (cases "mx_owner (pt_mutex s)"; cases "pt_pc s i") (auto simp: k_def pt_inv_def pthread_alg_def)
    then have k: "k < N" using inv by (metis linorder_not_less pt_inv_def pthread_pc.distinct(1,3))
    have less: "pt_rank (pt_pc (pt_step test N k s) k) < pt_rank (pt_pc s k)" using busy pt_step_own [OF inv k, of test] by auto
    have "pt_pc (pt_step test N k s) = (pt_pc s)(k := pt_pc (pt_step test N k s) k)" using pt_step_other by fastforce
    from rank_drains [OF k this less] busy k show ?thesis by (intro exI [of _ k]) (auto simp: pthread_alg_def)
  qed
qed

section \<open>Hybrid spinlock\<close>

definition hy_phase :: "hy_pc \<Rightarrow> call_phase" where
  "hy_phase p = (case p of HIdle \<Rightarrow> Outside | HCS \<Rightarrow> Inside | HRel _ \<Rightarrow> Releasing | _ \<Rightarrow> Acquiring)"

definition hybrid_alg :: "hybrid \<Rightarrow> nat \<Rightarrow> (tid, hy_state) lock_alg" where
  "hybrid_alg v N = \<lparr>la_step = hy_step v N, la_mover = id, la_phase = (\<lambda>s i. hy_phase (h_pc s i)), la_depth = (\<lambda>s i. ucast (h_depth s i))\<rparr>"

lemma hy_phase_Outside [simp]: "hy_phase p = Outside \<longleftrightarrow> p = HIdle"
  by (cases p) (simp_all add: hy_phase_def)

lemma hybrid_drains:
  assumes inv: "h_inv v N s" and i: "h_pc s i \<noteq> HIdle"
  shows "\<exists>k. k < N \<and> h_pc s k \<noteq> HIdle \<and>
    (\<Sum>j<N. h_rank (h_val (hy_step v N k s)) (h_pc (hy_step v N k s) j)) < (\<Sum>j<N. h_rank (h_val s) (h_pc s j))"
proof -
  obtain k where k: "h_pc s k \<noteq> HIdle" "\<not> h_blocked v s k" "\<And>j t val nx. j \<noteq> k \<Longrightarrow> h_pc s j \<noteq> HDestroy t val nx"
    using h_choose [OF inv] i by blast
  have n: "k < N" using h_inv_less [OF inv k(1)] .
  let ?s = "hy_step v N k s"
  have "h_rank (h_val ?s) (h_pc ?s j) = h_rank (h_val s) (h_pc s j)" if "j \<noteq> k" for j
    using h_rank_word [OF k(3) [OF that]] h_step_other [OF that, of v N s] by simp
  with h_rank_step [OF inv n k(1,2)] have "h_rank (h_val ?s) (h_pc ?s j) \<le> h_rank (h_val s) (h_pc s j)" for j
    by (cases "j = k") simp_all
  then have "(\<Sum>j<N. h_rank (h_val ?s) (h_pc ?s j)) < (\<Sum>j<N. h_rank (h_val s) (h_pc s j))"
    using h_rank_step [OF inv n k(1,2)] n by (intro sum_strict_mono_ex1) auto
  with n k(1) show ?thesis by blast
qed

interpretation measured_hybrid: measured_lock "h_init v N" "hybrid_alg v N" "h_inv v N" N "\<lambda>s. \<Sum>j<N. h_rank (h_val s) (h_pc s j)" for v N
proof
  fix s i j l
  show "la_phase (hybrid_alg v N) s i = Outside" if "h_init v N s"
    using that by (simp add: hybrid_alg_def hy_init_locks_def)
  show "h_inv v N s" if "h_init v N s" using that by (rule hybrid.inv_init)
  show "h_inv v N (la_step (hybrid_alg v N) l s)" if "h_inv v N s" using hybrid.inv_step [OF that] by (simp add: hybrid_alg_def)
  show "la_phase (hybrid_alg v N) (la_step (hybrid_alg v N) l s) j = la_phase (hybrid_alg v N) s j" if "j \<noteq> la_mover (hybrid_alg v N) l"
    using that by (simp add: hybrid_alg_def h_step_other)
  show "next_phase (la_phase (hybrid_alg v N) s (la_mover (hybrid_alg v N) l)) (la_phase (hybrid_alg v N) (la_step (hybrid_alg v N) l s) (la_mover (hybrid_alg v N) l))"
    by (cases "l < N"; cases "h_pc s l"; cases v) (auto simp: hybrid_alg_def hy_phase_def h_step_defs split: option.splits)
  show "\<exists>l. la_mover (hybrid_alg v N) l = i \<and> la_phase (hybrid_alg v N) (la_step (hybrid_alg v N) l s) i \<noteq> Outside"
    if "i < N" "la_phase (hybrid_alg v N) s i = Outside"
    using that by (intro exI [of _ i]) (auto simp: hybrid_alg_def h_step_defs)
  show "\<exists>l. la_mover (hybrid_alg v N) l < N \<and> la_phase (hybrid_alg v N) s (la_mover (hybrid_alg v N) l) \<noteq> Outside \<and>
      (\<Sum>j<N. h_rank (h_val (la_step (hybrid_alg v N) l s)) (h_pc (la_step (hybrid_alg v N) l s) j)) < (\<Sum>j<N. h_rank (h_val s) (h_pc s j))"
    if "h_inv v N s" "la_phase (hybrid_alg v N) s i \<noteq> Outside"
    using hybrid_drains [OF that(1), of i] that(2) by (simp add: hybrid_alg_def)
qed

section \<open>Optimistic spin queue\<close>

definition o_phase :: "osq_pc \<Rightarrow> call_phase" where
  "o_phase p = (case p of OIdle \<Rightarrow> Outside | OCS \<Rightarrow> Inside | OUnlockXchg \<Rightarrow> Releasing | OGrant _ \<Rightarrow> Releasing
     | OWaitTail None _ \<Rightarrow> Releasing | OWaitCas None _ \<Rightarrow> Releasing | OWaitNext None _ \<Rightarrow> Releasing | OWaitXchg None _ \<Rightarrow> Releasing
     | _ \<Rightarrow> Acquiring)"

definition osq_alg :: "int \<Rightarrow> nat \<Rightarrow> (tid, osq_state) lock_alg" where
  "osq_alg retry N = \<lparr>la_step = osq_step retry N, la_mover = id, la_phase = (\<lambda>s i. o_phase (o_pc s i)), la_depth = (\<lambda>s i. 1)\<rparr>"

lemma o_phase_Outside [simp]: "o_phase p = Outside \<longleftrightarrow> p = OIdle"
  by (cases p) (simp_all add: o_phase_def split: option.split)

text \<open>A thread that starts a call does not bring the queue closer to being unused.\<close>

lemma o_idle_not_closer:
  assumes "i < N" "o_pc s i = OIdle"
  shows "\<not> o_movable retry N s i"
proof -
  have "o_dist N s < o_dist N (osq_step retry N i s)"
    by (rule o_closer [OF assms(1)]) (use assms in \<open>auto simp: osq_step_def osq_init_locked_def o_rank_defs\<close>)
  then show ?thesis by simp
qed

interpretation measured_osq: measured_lock "\<lambda>s. N < 2 ^ 31 \<and> s = osq_queue_init" "osq_alg retry N" "o_inv N" N "o_dist N" for retry N
proof
  fix s i j l
  show "la_phase (osq_alg retry N) s i = Outside" if "N < 2 ^ 31 \<and> s = osq_queue_init"
    using that by (simp add: osq_alg_def osq_queue_init_def)
  show "o_inv N s" if "N < 2 ^ 31 \<and> s = osq_queue_init" using that by (rule osq.inv_init)
  show "o_inv N (la_step (osq_alg retry N) l s)" if "o_inv N s" using osq.inv_step [OF that] by (simp add: osq_alg_def)
  show "la_phase (osq_alg retry N) (la_step (osq_alg retry N) l s) j = la_phase (osq_alg retry N) s j" if "j \<noteq> la_mover (osq_alg retry N) l"
    using that by (simp add: osq_alg_def o_step_other)
  show "next_phase (la_phase (osq_alg retry N) s (la_mover (osq_alg retry N) l)) (la_phase (osq_alg retry N) (la_step (osq_alg retry N) l s) (la_mover (osq_alg retry N) l))"
    by (cases "l < N"; cases "o_pc s l") (auto simp: osq_alg_def o_phase_def osq_step_def osq_step_defs split: option.splits)
  show "\<exists>l. la_mover (osq_alg retry N) l = i \<and> la_phase (osq_alg retry N) (la_step (osq_alg retry N) l s) i \<noteq> Outside"
    if "i < N" "la_phase (osq_alg retry N) s i = Outside"
    using that by (intro exI [of _ i]) (auto simp: osq_alg_def osq_step_def osq_init_locked_def)
  show "\<exists>l. la_mover (osq_alg retry N) l < N \<and> la_phase (osq_alg retry N) s (la_mover (osq_alg retry N) l) \<noteq> Outside \<and>
      o_dist N (la_step (osq_alg retry N) l s) < o_dist N s"
    if inv: "o_inv N s" and i: "la_phase (osq_alg retry N) s i \<noteq> Outside"
  proof -
    from o_some_moves [OF inv, of retry] i obtain k where k: "o_movable retry N s k" by (auto simp: osq_alg_def)
    then have "k < N" by (cases "k < N") (simp_all add: osq_step_def)
    with k o_idle_not_closer [of k N s retry] show ?thesis by (intro exI [of _ k]) (auto simp: osq_alg_def)
  qed
qed

section \<open>Reader-writer mutex\<close>

fun tbb_phase :: "tbb_pc \<Rightarrow> call_phase" where
  "tbb_phase TbIdle = Outside" | "tbb_phase TbWHold = Inside" | "tbb_phase TbRHold = Inside" | "tbb_phase _ = Acquiring"

definition tbb_alg :: "nat \<Rightarrow> (tid, tbb_state) lock_alg" where
  "tbb_alg N = \<lparr>la_step = tbb_step N, la_mover = id, la_phase = (\<lambda>s i. tbb_phase (tb_pc s i)), la_depth = (\<lambda>s i. 1)\<rparr>"

lemma tbb_phase_Outside [simp]: "tbb_phase p = Outside \<longleftrightarrow> p = TbIdle"
  by (cases p) simp_all

lemma tbb_step_other: "j \<noteq> i \<Longrightarrow> tb_pc (tbb_step N i s) j = tb_pc s j"
  by (cases "tb_pc s i") (auto simp: tbb_step_def tbb_step_defs)

lemma tbb_idle_not_closer:
  assumes "i < N" "tb_pc s i = TbIdle"
  shows "\<not> tbb_distance N (tbb_step N i s) < tbb_distance N s"
proof -
  have "tbb_distance N s < tbb_distance N (tbb_step N i s)"
    by (rule tbb_rank_closer [OF assms(1), where p = TbIdle])
      (use assms in \<open>auto simp: tbb_step_def tbb_step_defs tbb_rank_def fun_eq_iff\<close>)
  then show ?thesis by simp
qed

interpretation measured_tbb: measured_lock "tbb_init N" "tbb_alg N" "\<lambda>s. tbb_inv N s \<and> tbb_asked s" N "tbb_distance N" for N
proof
  fix s i j l
  show "la_phase (tbb_alg N) s i = Outside" if "tbb_init N s"
    using that by (auto simp: tbb_alg_def tbb_init_def tbb_init_locks_def)
  show "tbb_inv N s \<and> tbb_asked s" if "tbb_init N s" using that by (rule tbb_progress.inv_init)
  show "tbb_inv N (la_step (tbb_alg N) l s) \<and> tbb_asked (la_step (tbb_alg N) l s)" if "tbb_inv N s \<and> tbb_asked s"
    using tbb_progress.inv_step [OF that] by (simp add: tbb_alg_def)
  show "la_phase (tbb_alg N) (la_step (tbb_alg N) l s) j = la_phase (tbb_alg N) s j" if "j \<noteq> la_mover (tbb_alg N) l"
    using that by (simp add: tbb_alg_def tbb_step_other)
  show "next_phase (la_phase (tbb_alg N) s (la_mover (tbb_alg N) l)) (la_phase (tbb_alg N) (la_step (tbb_alg N) l s) (la_mover (tbb_alg N) l))"
    by (cases "l < N"; cases "tb_pc s l") (auto simp: tbb_alg_def tbb_step_def tbb_step_defs)
  show "\<exists>l. la_mover (tbb_alg N) l = i \<and> la_phase (tbb_alg N) (la_step (tbb_alg N) l s) i \<noteq> Outside"
    if "i < N" "la_phase (tbb_alg N) s i = Outside"
    using that by (intro exI [of _ i]) (auto simp: tbb_alg_def tbb_step_def tbb_step_defs)
  show "\<exists>l. la_mover (tbb_alg N) l < N \<and> la_phase (tbb_alg N) s (la_mover (tbb_alg N) l) \<noteq> Outside \<and>
      tbb_distance N (la_step (tbb_alg N) l s) < tbb_distance N s"
    if inv: "tbb_inv N s \<and> tbb_asked s" and i: "la_phase (tbb_alg N) s i \<noteq> Outside"
  proof -
    from tbb_someone_moves [of N s] inv i obtain k where k: "tbb_distance N (tbb_step N k s) < tbb_distance N s" by (auto simp: tbb_alg_def)
    then have "k < N" by (cases "k < N") (simp_all add: tbb_step_def)
    with k tbb_idle_not_closer [of k N s] show ?thesis by (intro exI [of _ k]) (auto simp: tbb_alg_def)
  qed
qed

end
