(* ===== verification/Start_Barrier.thy ===== *)
theory Start_Barrier
  imports Lock_Prelude
begin

text \<open>
  How the worker threads of \<open>measure.c\<close> start together: the handshake of \<open>hmr\<close> through \<open>p_sync_lock\<close> and
  \<open>p_ready_lock\<close>, and the sense-reversing barrier \<open>synchronize_threads\<close>, which they pass several times on the same
  word (six times in \<open>calibrate_timer\<close>, once more before the measurement, and once more for the optimistic spin
  queue). What a thread does between two barriers touches none of these words. A step is one access.
\<close>

section \<open>The barrier and the handshake\<close>

definition SENSE_BIT_MASK :: u64 where "SENSE_BIT_MASK = push_bit 60 1"

text \<open>Positions of a thread; \<open>r\<close> is the number of barriers it has passed, \<open>gs\<close> its local \<open>global_sense\<close>.\<close>

datatype hmr_pc = HmrStart | HmrWaitReady | HmrMarshal | HmrReady | HmrWaitSync
  | SyncRead nat | SyncAdd nat u64 | SyncStore nat u64 | SyncWait nat u64 | HmrRun

record hmr_state =
  p_sync_lock :: u64
  p_ready_lock :: u64
  p_calibrate_lock :: u64
  hmr_pc :: "tid \<Rightarrow> hmr_pc"

abbreviation hmr_goto :: "tid \<Rightarrow> hmr_pc \<Rightarrow> hmr_state \<Rightarrow> hmr_state" where
  "hmr_goto i p s \<equiv> s\<lparr>hmr_pc := (hmr_pc s)(i := p)\<rparr>"

text \<open>\<open>run_one_experiment\<close> clears the words before it creates the threads.\<close>

definition hmr_start :: hmr_state where
  "hmr_start = \<lparr>p_sync_lock = 0, p_ready_lock = 0, p_calibrate_lock = 0, hmr_pc = (\<lambda>_. HmrStart)\<rparr>"

definition hmr_register :: "tid \<Rightarrow> hmr_state \<Rightarrow> hmr_state" where
  "hmr_register i s = hmr_goto i (if i = 0 then HmrWaitReady else HmrReady) (s\<lparr>p_sync_lock := p_sync_lock s + 2\<rparr>)"

definition hmr_wait_ready :: "nat \<Rightarrow> tid \<Rightarrow> hmr_state \<Rightarrow> hmr_state" where
  "hmr_wait_ready N i s = (if p_ready_lock s = of_nat N - 1 then hmr_goto i HmrMarshal s else s)"

definition hmr_marshal :: "tid \<Rightarrow> hmr_state \<Rightarrow> hmr_state" where
  "hmr_marshal i s = hmr_goto i (SyncRead 0) (s\<lparr>p_sync_lock := p_sync_lock s + 1\<rparr>)"

definition hmr_ready :: "tid \<Rightarrow> hmr_state \<Rightarrow> hmr_state" where
  "hmr_ready i s = hmr_goto i HmrWaitSync (s\<lparr>p_ready_lock := p_ready_lock s + 1\<rparr>)"

definition hmr_wait_sync :: "nat \<Rightarrow> tid \<Rightarrow> hmr_state \<Rightarrow> hmr_state" where
  "hmr_wait_sync N i s = (if p_sync_lock s = (of_nat N * 2) OR 1 then hmr_goto i (SyncRead 0) s else s)"

text \<open>After the last of \<open>R\<close> barriers the thread runs the measurement.\<close>

definition barrier_passed :: "nat \<Rightarrow> nat \<Rightarrow> hmr_pc" where
  "barrier_passed R r = (if Suc r < R then SyncRead (Suc r) else HmrRun)"

definition sync_read :: "tid \<Rightarrow> nat \<Rightarrow> hmr_state \<Rightarrow> hmr_state" where
  "sync_read i r s = hmr_goto i (SyncAdd r (p_calibrate_lock s AND SENSE_BIT_MASK)) s"

definition tmp_sense :: "u64 \<Rightarrow> u64" where
  "tmp_sense gs = NOT gs AND SENSE_BIT_MASK"

definition sync_add :: "nat \<Rightarrow> tid \<Rightarrow> nat \<Rightarrow> u64 \<Rightarrow> hmr_state \<Rightarrow> hmr_state" where
  "sync_add N i r gs s = (let old_barrier = p_calibrate_lock s in
     hmr_goto i (if old_barrier = ((of_nat N - 1) * 2) OR gs then SyncStore r gs else SyncWait r gs)
       (s\<lparr>p_calibrate_lock := old_barrier + 2\<rparr>))"

definition sync_store :: "nat \<Rightarrow> tid \<Rightarrow> nat \<Rightarrow> u64 \<Rightarrow> hmr_state \<Rightarrow> hmr_state" where
  "sync_store R i r gs s = hmr_goto i (barrier_passed R r) (s\<lparr>p_calibrate_lock := tmp_sense gs\<rparr>)"

text \<open>\<open>wait32\<close> on the upper half of the word.\<close>

definition sync_wait :: "nat \<Rightarrow> tid \<Rightarrow> nat \<Rightarrow> u64 \<Rightarrow> hmr_state \<Rightarrow> hmr_state" where
  "sync_wait R i r gs s = (let local_sense = ucast (drop_bit 32 (tmp_sense gs)) :: u32 in
     if ucast (drop_bit 32 (p_calibrate_lock s)) = local_sense then hmr_goto i (barrier_passed R r) s else s)"

definition hmr_step :: "nat \<Rightarrow> nat \<Rightarrow> tid \<Rightarrow> hmr_state \<Rightarrow> hmr_state" where
  "hmr_step N R i s = (if i < N then (case hmr_pc s i of
       HmrStart \<Rightarrow> hmr_register i s | HmrWaitReady \<Rightarrow> hmr_wait_ready N i s | HmrMarshal \<Rightarrow> hmr_marshal i s
     | HmrReady \<Rightarrow> hmr_ready i s | HmrWaitSync \<Rightarrow> hmr_wait_sync N i s
     | SyncRead r \<Rightarrow> sync_read i r s | SyncAdd r gs \<Rightarrow> sync_add N i r gs s | SyncStore r gs \<Rightarrow> sync_store R i r gs s
     | SyncWait r gs \<Rightarrow> sync_wait R i r gs s | HmrRun \<Rightarrow> s) else s)"

lemmas hmr_step_defs = hmr_register_def hmr_wait_ready_def hmr_marshal_def hmr_ready_def hmr_wait_sync_def sync_read_def
  sync_add_def sync_store_def sync_wait_def Let_def

section \<open>The word of the barrier\<close>

definition sense :: "nat \<Rightarrow> u64" where
  "sense k = (if odd k then push_bit 60 1 else 0)"

definition barrier_word :: "nat \<Rightarrow> nat \<Rightarrow> u64" where
  "barrier_word k c = sense k + of_nat (2 * c)"

lemma unat_barrier_word: "c < 2 ^ 31 \<Longrightarrow> unat (barrier_word k c) = (if odd k then 2 ^ 60 else 0) + 2 * c"
proof -
  assume c: "c < 2 ^ 31"
  have "barrier_word k c = of_nat ((if odd k then 2 ^ 60 else 0) + 2 * c)" by (simp add: barrier_word_def sense_def push_bit_eq_mult)
  moreover have "(if odd k then 2 ^ 60 else 0) + 2 * c < (2 ^ 64 :: nat)" using c by simp
  ultimately show ?thesis by (simp only: unat_of_nat) simp
qed

lemma and_push_bit_1: "w AND push_bit n 1 = (if bit w n then push_bit n 1 else 0)" for w :: "'a::len word"
  by (rule bit_eqI) (auto simp: bit_simps)

lemma and_sense_mask: "(w :: u64) AND SENSE_BIT_MASK = (if bit w 60 then push_bit 60 1 else 0)"
  unfolding SENSE_BIT_MASK_def by (rule and_push_bit_1)

lemma bit_unat: "bit w n \<longleftrightarrow> odd (unat w div 2 ^ n)" for w :: "'a::len word"
  using bit_unsigned_iff [of w n, where 'a = nat] by (simp add: bit_iff_odd [of "unat w"])

lemma sense_of_barrier: "c < 2 ^ 31 \<Longrightarrow> barrier_word k c AND SENSE_BIT_MASK = sense k"
proof -
  assume c: "c < 2 ^ 31"
  have "bit (barrier_word k c) 60 \<longleftrightarrow> odd (unat (barrier_word k c) div 2 ^ 60)"
    by (rule bit_unat)
  also have "\<dots> \<longleftrightarrow> odd k"
  proof -
    have "(2 ^ 60 + 2 * c) div 2 ^ 60 = 1" "2 * c div 2 ^ 60 = 0" using c by (simp_all add: div_nat_eqI)
    then show ?thesis by (simp only: unat_barrier_word [OF c]) simp
  qed
  finally show ?thesis by (simp add: and_sense_mask sense_def)
qed

lemma tmp_sense_flips: "tmp_sense (sense k) = sense (Suc k)"
  by (simp add: tmp_sense_def and_sense_mask sense_def bit_simps)

lemma upper_half: "c < 2 ^ 31 \<Longrightarrow> unat (ucast (drop_bit 32 (barrier_word k c)) :: u32) = (if odd k then 2 ^ 28 else 0)"
proof -
  assume c: "c < 2 ^ 31"
  have "unat (drop_bit 32 (barrier_word k c)) = ((if odd k then 2 ^ 60 else 0) + 2 * c) div 2 ^ 32"
    by (simp only: unat_drop_bit_eq unat_barrier_word [OF c] drop_bit_eq_div [where 'a = nat])
  also have "\<dots> = (if odd k then 2 ^ 28 else 0)"
  proof -
    have "(2 ^ 60 + 2 * c) div 2 ^ 32 = 2 ^ 28" "2 * c div 2 ^ 32 = 0" using c by (simp_all add: div_nat_eqI)
    then show ?thesis by simp
  qed
  finally show ?thesis by (simp only: unsigned_ucast_eq) (simp add: take_bit_nat_def)
qed

lemma wait_condition:
  assumes "c < 2 ^ 31"
  shows "(ucast (drop_bit 32 (barrier_word k c)) :: u32) = ucast (drop_bit 32 (tmp_sense (sense r))) \<longleftrightarrow> odd k = odd (Suc r)"
proof -
  have "tmp_sense (sense r) = barrier_word (Suc r) 0" by (simp add: tmp_sense_flips barrier_word_def)
  then show ?thesis using upper_half [OF assms, of k] upper_half [of 0 "Suc r"] by (simp only: word_unat_eq_iff [where 'a = 32]) auto
qed

lemma last_test:
  assumes "0 < N" "N < 2 ^ 31" "c < N"
  shows "barrier_word k c = ((of_nat N - 1) * 2) OR sense k \<longleftrightarrow> c = N - 1"
proof -
  have n: "(of_nat N - 1) * 2 = (of_nat (2 * (N - 1)) :: u64)" using assms(1) by (simp add: of_nat_diff)
  have "(of_nat (2 * (N - 1)) :: u64) AND sense k = 0"
  proof (cases "odd k")
    case True
    have "\<not> bit (of_nat (2 * (N - 1)) :: u64) 60"
    proof -
      have "unat (of_nat (2 * (N - 1)) :: u64) = 2 * (N - 1)" using assms by (simp only: unat_of_nat) simp
      moreover have "2 * (N - 1) div 2 ^ 60 = 0" using assms by simp
      ultimately show ?thesis by (simp only: bit_unat) simp
    qed
    then show ?thesis using True and_sense_mask [of "of_nat (2 * (N - 1))"] by (simp add: sense_def SENSE_BIT_MASK_def)
  qed (simp add: sense_def)
  then have "((of_nat N - 1) * 2) OR sense k = barrier_word k (N - 1)"
    unfolding n barrier_word_def using disjunctive_add_eq_or by (metis add.commute)
  moreover have "barrier_word k c = barrier_word k (N - 1) \<longleftrightarrow> c = N - 1"
    using assms unat_barrier_word [of c k] unat_barrier_word [of "N - 1" k] by (auto simp: word_unat_eq_iff)
  ultimately show ?thesis by simp
qed

lemma barrier_word_add: "barrier_word k c + 2 = barrier_word k (Suc c)"
  by (simp add: barrier_word_def)

section \<open>Counting threads\<close>

lemma card_upd:
  fixes N :: nat
  assumes "i < N"
  shows "card {j. j < N \<and> P j ((f(i := p)) j)} + (if P i (f i) then 1 else 0) = card {j. j < N \<and> P j (f j)} + (if P i p then 1 else 0)"
proof -
  let ?A = "{j. j < N \<and> j \<noteq> i \<and> P j (f j)}"
  have "card {j. j < N \<and> P j (g j)} = card ?A + (if P i (g i) then 1 else 0)" if "\<And>j. j \<noteq> i \<Longrightarrow> g j = f j" for g
  proof -
    have "j < N \<and> P j (g j) \<longleftrightarrow> j \<in> (if P i (g i) then insert i ?A else ?A)" for j
      using assms that [of j] by (cases "j = i") auto
    then have "{j. j < N \<and> P j (g j)} = (if P i (g i) then insert i ?A else ?A)" by blast
    moreover have "finite ?A" "i \<notin> ?A" by auto
    ultimately show ?thesis by simp
  qed
  from this [of f] this [of "f(i := p)"] show ?thesis by simp
qed

lemma card_below: "card {j. j < N \<and> P j} \<le> N"
  using card_mono [of "{..<N}" "{j. j < N \<and> P j}"] by auto

lemma card_below_all: "card {j. j < N \<and> P j} = N \<longleftrightarrow> (\<forall>j<N. P j)"
proof
  assume "card {j. j < N \<and> P j} = N"
  then have "{j. j < N \<and> P j} = {..<N}" by (intro card_subset_eq) auto
  then show "\<forall>j<N. P j" by auto
next
  assume "\<forall>j<N. P j"
  then have "{j. j < N \<and> P j} = {..<N}" by auto
  then show "card {j. j < N \<and> P j} = N" by simp
qed

section \<open>The barrier is used in rounds\<close>

definition hmr_arrived :: "nat \<Rightarrow> hmr_pc \<Rightarrow> bool" where
  "hmr_arrived k p = (case p of SyncStore r _ \<Rightarrow> r = k | SyncWait r _ \<Rightarrow> r = k | _ \<Rightarrow> False)"

definition hmr_round_ok :: "nat \<Rightarrow> nat \<Rightarrow> hmr_pc \<Rightarrow> bool" where
  "hmr_round_ok R k p = (case p of
       SyncRead r \<Rightarrow> r = k \<and> k < R | SyncAdd r gs \<Rightarrow> r = k \<and> gs = sense k \<and> k < R | SyncStore r gs \<Rightarrow> r = k \<and> gs = sense k \<and> k < R
     | SyncWait r gs \<Rightarrow> gs = sense r \<and> r < R \<and> (r = k \<or> Suc r = k) | HmrRun \<Rightarrow> k = R | _ \<Rightarrow> k = 0)"

definition hmr_count :: "nat \<Rightarrow> nat \<Rightarrow> hmr_state \<Rightarrow> nat" where
  "hmr_count N k s = card {j. j < N \<and> hmr_arrived k (hmr_pc s j)}"

text \<open>In round \<open>k\<close>: the word counts the threads that have arrived, and the last of them is about to open the barrier.\<close>

definition hmr_barrier_inv :: "nat \<Rightarrow> nat \<Rightarrow> nat \<Rightarrow> hmr_state \<Rightarrow> bool" where
  "hmr_barrier_inv N R k s \<longleftrightarrow> p_calibrate_lock s = barrier_word k (hmr_count N k s) \<and> (\<forall>j<N. hmr_round_ok R k (hmr_pc s j)) \<and>
     (hmr_count N k s = N \<longleftrightarrow> (\<exists>j<N. \<exists>gs. hmr_pc s j = SyncStore k gs)) \<and>
     (\<forall>i<N. \<forall>j<N. \<forall>gs hs. hmr_pc s i = SyncStore k gs \<longrightarrow> hmr_pc s j = SyncStore k hs \<longrightarrow> i = j)"

lemma hmr_goto_count:
  "i < N \<Longrightarrow> hmr_count N k (hmr_goto i p s) + (if hmr_arrived k (hmr_pc s i) then 1 else 0) = hmr_count N k s + (if hmr_arrived k p then 1 else 0)"
  using card_upd [of i N "\<lambda>_. hmr_arrived k" "hmr_pc s" p] by (simp add: hmr_count_def)

lemma hmr_count_word [simp]: "hmr_count N k (s\<lparr>p_calibrate_lock := w\<rparr>) = hmr_count N k s" "hmr_count N k (s\<lparr>p_sync_lock := w\<rparr>) = hmr_count N k s"
  "hmr_count N k (s\<lparr>p_ready_lock := w\<rparr>) = hmr_count N k s"
  by (simp_all add: hmr_count_def)

text \<open>A step that does not arrive at the barrier and leaves its word alone.\<close>

lemma hmr_barrier_inv_quiet:
  assumes inv: "hmr_barrier_inv N R k s" and i: "i < N" and p: "hmr_round_ok R k p" "\<not> hmr_arrived k p" "\<not> hmr_arrived k (hmr_pc s i)"
    and s': "p_calibrate_lock s' = p_calibrate_lock s" "hmr_pc s' = (hmr_pc s)(i := p)"
  shows "hmr_barrier_inv N R k s'"
proof -
  have c: "hmr_count N k s' = hmr_count N k s" using hmr_goto_count [OF i, where k = k and p = p and s = s] p(2,3) s'(2) by (simp add: hmr_count_def)
  have st: "hmr_pc s' j = SyncStore k gs \<longleftrightarrow> hmr_pc s j = SyncStore k gs" for j gs
    using p(2,3) by (auto simp: s'(2) hmr_arrived_def split: hmr_pc.splits)
  have "\<forall>j<N. hmr_round_ok R k (hmr_pc s' j)" using inv p(1) by (simp add: hmr_barrier_inv_def s'(2))
  then show ?thesis using inv c st s'(1) unfolding hmr_barrier_inv_def by simp
qed

lemma hmr_add_inv:
  assumes inv: "hmr_barrier_inv N R k s" and i: "i < N" "N < 2 ^ 31" and p: "hmr_pc s i = SyncAdd r gs"
  shows "hmr_barrier_inv N R k (sync_add N i r gs s)"
proof -
  let ?c = "hmr_count N k s" and ?s = "sync_add N i r gs s"
  have r: "r = k" "gs = sense k" "k < R" using inv i p by (auto simp: hmr_barrier_inv_def hmr_round_ok_def)
  have na: "\<not> hmr_arrived k (hmr_pc s i)" by (simp add: p hmr_arrived_def)
  then have "?c \<noteq> N" unfolding hmr_count_def card_below_all using i by blast
  then have cN: "?c < N" using card_below [of N "\<lambda>j. hmr_arrived k (hmr_pc s j)"] by (simp add: hmr_count_def)
  have no: "hmr_pc s j \<noteq> SyncStore k hs" if "j < N" for j hs using inv \<open>?c \<noteq> N\<close> that unfolding hmr_barrier_inv_def by blast
  have t: "p_calibrate_lock s = ((of_nat N - 1) * 2) OR sense k \<longleftrightarrow> ?c = N - 1"
    using inv last_test [of N ?c k] i cN by (simp add: hmr_barrier_inv_def)
  let ?p = "if ?c = N - 1 then SyncStore k (sense k) else SyncWait k (sense k)"
  have s: "?s = hmr_goto i ?p (s\<lparr>p_calibrate_lock := p_calibrate_lock s + 2\<rparr>)" using t r by (simp add: sync_add_def)
  have "hmr_arrived k ?p" by (simp add: hmr_arrived_def)
  then have c: "hmr_count N k ?s = Suc ?c" using hmr_goto_count [OF i(1), where k = k and p = ?p and s = "s\<lparr>p_calibrate_lock := p_calibrate_lock s + 2\<rparr>"] na by (simp add: s)
  have w: "p_calibrate_lock ?s = barrier_word k (hmr_count N k ?s)"
    using inv barrier_word_add [of k ?c] unfolding c by (simp add: s hmr_barrier_inv_def)
  have pc: "hmr_pc ?s j = (if j = i then ?p else hmr_pc s j)" for j by (simp add: s)
  have "\<forall>j<N. hmr_round_ok R k (hmr_pc ?s j)" using inv r(3) by (auto simp: pc hmr_barrier_inv_def hmr_round_ok_def)
  moreover have "hmr_count N k ?s = N \<longleftrightarrow> (\<exists>j<N. \<exists>gs. hmr_pc ?s j = SyncStore k gs)"
    using cN i no unfolding c pc by auto
  moreover have "i' = j" if "i' < N" "j < N" "hmr_pc ?s i' = SyncStore k gs" "hmr_pc ?s j = SyncStore k hs" for i' j gs hs
    using that no unfolding pc by (auto split: if_splits)
  ultimately show ?thesis using w unfolding hmr_barrier_inv_def by blast
qed

lemma hmr_store_inv:
  assumes inv: "hmr_barrier_inv N R k s" and i: "i < N" "N < 2 ^ 31" and p: "hmr_pc s i = SyncStore r gs"
  shows "hmr_barrier_inv N R (Suc k) (sync_store R i r gs s)"
proof -
  let ?s = "sync_store R i r gs s"
  have r: "r = k" "gs = sense k" "k < R" using inv i p by (auto simp: hmr_barrier_inv_def hmr_round_ok_def)
  have "hmr_count N k s = N" using inv i p r unfolding hmr_barrier_inv_def by blast
  then have a: "hmr_arrived k (hmr_pc s j)" if "j < N" for j using that unfolding hmr_count_def card_below_all by blast
  have w: "hmr_pc s j = SyncWait k (sense k)" if "j < N" "j \<noteq> i" for j
  proof -
    have ok: "hmr_round_ok R k (hmr_pc s j)" using inv that by (simp add: hmr_barrier_inv_def)
    have "hmr_pc s j \<noteq> SyncStore k hs" for hs using inv that i p r unfolding hmr_barrier_inv_def by blast
    then show ?thesis using a [OF that(1)] ok by (cases "hmr_pc s j") (auto simp: hmr_arrived_def hmr_round_ok_def)
  qed
  have pc: "hmr_pc ?s j = (if j = i then barrier_passed R k else hmr_pc s j)" for j by (simp add: sync_store_def r)
  have n: "\<not> hmr_arrived (Suc k) (hmr_pc ?s j)" if "j < N" for j
    using w that by (auto simp: pc hmr_arrived_def barrier_passed_def)
  then have "{j. j < N \<and> hmr_arrived (Suc k) (hmr_pc ?s j)} = {}" by blast
  then have c: "hmr_count N (Suc k) ?s = 0" by (simp add: hmr_count_def)
  have "p_calibrate_lock ?s = barrier_word (Suc k) 0" by (simp add: sync_store_def r tmp_sense_flips barrier_word_def)
  moreover have "\<forall>j<N. hmr_round_ok R (Suc k) (hmr_pc ?s j)"
    using w r(3) by (auto simp: pc hmr_round_ok_def barrier_passed_def)
  moreover have ns: "hmr_pc ?s j \<noteq> SyncStore (Suc k) hs" if "j < N" for j hs using n [OF that] by (auto simp: hmr_arrived_def)
  ultimately show ?thesis using c i(1) unfolding hmr_barrier_inv_def by auto
qed

lemma hmr_wait_inv:
  assumes inv: "hmr_barrier_inv N R k s" and i: "i < N" "N < 2 ^ 31" and p: "hmr_pc s i = SyncWait r gs"
  shows "hmr_barrier_inv N R k (sync_wait R i r gs s)" "Suc r = k \<Longrightarrow> hmr_pc (sync_wait R i r gs s) i = barrier_passed R r"
proof -
  have r: "gs = sense r" "r < R" "r = k \<or> Suc r = k" using inv i p by (auto simp: hmr_barrier_inv_def hmr_round_ok_def)
  have b: "hmr_count N k s < 2 ^ 31" using card_below [of N "\<lambda>j. hmr_arrived k (hmr_pc s j)"] i(2) by (simp add: hmr_count_def)
  have w: "(ucast (drop_bit 32 (p_calibrate_lock s)) :: u32) = ucast (drop_bit 32 (tmp_sense gs)) \<longleftrightarrow> odd k = odd (Suc r)"
    using inv wait_condition [OF b, of k r] r(1) by (simp add: hmr_barrier_inv_def)
  show "Suc r = k \<Longrightarrow> hmr_pc (sync_wait R i r gs s) i = barrier_passed R r" using w by (auto simp: sync_wait_def)
  show "hmr_barrier_inv N R k (sync_wait R i r gs s)"
  proof (cases "Suc r = k")
    case True
    have "hmr_barrier_inv N R k (hmr_goto i (barrier_passed R r) s)"
      by (rule hmr_barrier_inv_quiet [OF inv i(1)]) (use True r p in \<open>auto simp: hmr_round_ok_def barrier_passed_def hmr_arrived_def\<close>)
    then show ?thesis using w True by (auto simp: sync_wait_def)
  next
    case False
    then have "sync_wait R i r gs s = s" using w r by (auto simp: sync_wait_def)
    then show ?thesis using inv by simp
  qed
qed

lemma hmr_barrier_inv_step:
  assumes inv: "hmr_barrier_inv N R k s" and N: "N < 2 ^ 31" "0 < R"
  shows "\<exists>k'. hmr_barrier_inv N R k' (hmr_step N R i s)"
proof (cases "i < N")
  case True
  note i = True N(1)
  have ok: "hmr_round_ok R k (hmr_pc s i)" using inv True by (simp add: hmr_barrier_inv_def)
  have b: "hmr_count N k s < 2 ^ 31" using card_below [of N "\<lambda>j. hmr_arrived k (hmr_pc s j)"] N(1) by (simp add: hmr_count_def)
  have g: "p_calibrate_lock s AND SENSE_BIT_MASK = sense k" using inv sense_of_barrier [OF b, of k] by (simp add: hmr_barrier_inv_def)
  note q = hmr_barrier_inv_quiet [OF inv True]
  show ?thesis
  proof (cases "hmr_pc s i")
    case HmrStart
    then show ?thesis using True ok by (intro exI [of _ k] q [of "if i = 0 then HmrWaitReady else HmrReady"])
      (auto simp: hmr_step_def hmr_step_defs hmr_round_ok_def hmr_arrived_def)
  next
    case HmrWaitReady
    show ?thesis
    proof (cases "p_ready_lock s = of_nat N - 1")
      case True
      then show ?thesis using HmrWaitReady \<open>i < N\<close> ok by (intro exI [of _ k] q [of HmrMarshal])
        (auto simp: hmr_step_def hmr_step_defs hmr_round_ok_def hmr_arrived_def)
    qed (use HmrWaitReady True inv in \<open>auto simp: hmr_step_def hmr_step_defs\<close>)
  next
    case HmrMarshal
    then show ?thesis using True ok N by (intro exI [of _ k] q [of "SyncRead 0"])
      (auto simp: hmr_step_def hmr_step_defs hmr_round_ok_def hmr_arrived_def)
  next
    case HmrReady
    then show ?thesis using True ok by (intro exI [of _ k] q [of HmrWaitSync])
      (auto simp: hmr_step_def hmr_step_defs hmr_round_ok_def hmr_arrived_def)
  next
    case HmrWaitSync
    show ?thesis
    proof (cases "p_sync_lock s = (of_nat N * 2) OR 1")
      case True
      then show ?thesis using HmrWaitSync \<open>i < N\<close> ok N by (intro exI [of _ k] q [of "SyncRead 0"])
        (auto simp: hmr_step_def hmr_step_defs hmr_round_ok_def hmr_arrived_def)
    qed (use HmrWaitSync True inv in \<open>auto simp: hmr_step_def hmr_step_defs\<close>)
  next
    case (SyncRead r)
    then show ?thesis using True ok g by (intro exI [of _ k] q [of "SyncAdd r (sense k)"])
      (auto simp: hmr_step_def hmr_step_defs hmr_round_ok_def hmr_arrived_def)
  next
    case (SyncAdd r gs)
    then show ?thesis using hmr_add_inv [OF inv i SyncAdd] True by (auto simp: hmr_step_def)
  next
    case (SyncStore r gs)
    then show ?thesis using hmr_store_inv [OF inv i SyncStore] True by (auto simp: hmr_step_def)
  next
    case (SyncWait r gs)
    then show ?thesis using hmr_wait_inv(1) [OF inv i SyncWait] True by (auto simp: hmr_step_def)
  qed (use inv True in \<open>auto simp: hmr_step_def\<close>)
qed (use inv in \<open>auto simp: hmr_step_def\<close>)

end
