(* ===== verification/Start_Progress.thy ===== *)
theory Start_Progress
  imports Start_Barrier
begin

text \<open>
  The handshake of the worker threads, and that they all reach the measurement: no thread is left behind in a
  barrier that the others have passed, however they are scheduled.
\<close>

section \<open>The handshake\<close>

text \<open>Past the handshake, and, for the threads other than the first, past the increment of \<open>p_ready_lock\<close>.\<close>

definition hmr_open :: "hmr_pc \<Rightarrow> bool" where
  "hmr_open p = (case p of HmrStart \<Rightarrow> False | HmrWaitReady \<Rightarrow> False | HmrMarshal \<Rightarrow> False | HmrReady \<Rightarrow> False | HmrWaitSync \<Rightarrow> False | _ \<Rightarrow> True)"

definition hmr_readied :: "tid \<Rightarrow> hmr_pc \<Rightarrow> bool" where
  "hmr_readied i p \<longleftrightarrow> i \<noteq> 0 \<and> p \<noteq> HmrStart \<and> p \<noteq> HmrReady"

definition hmr_side :: "tid \<Rightarrow> hmr_pc \<Rightarrow> bool" where
  "hmr_side i p = (case p of HmrWaitReady \<Rightarrow> i = 0 | HmrMarshal \<Rightarrow> i = 0 | HmrReady \<Rightarrow> i \<noteq> 0 | HmrWaitSync \<Rightarrow> i \<noteq> 0 | _ \<Rightarrow> True)"

definition hmr_shake_inv :: "nat \<Rightarrow> hmr_state \<Rightarrow> bool" where
  "hmr_shake_inv N s \<longleftrightarrow>
     p_sync_lock s = of_nat (2 * card {j. j < N \<and> hmr_pc s j \<noteq> HmrStart} + (if hmr_open (hmr_pc s 0) then 1 else 0)) \<and>
     p_ready_lock s = of_nat (card {j. j < N \<and> hmr_readied j (hmr_pc s j)}) \<and>
     (\<forall>j<N. hmr_side j (hmr_pc s j)) \<and>
     (hmr_pc s 0 = HmrMarshal \<or> hmr_open (hmr_pc s 0) \<longrightarrow> (\<forall>j<N. j \<noteq> 0 \<longrightarrow> hmr_readied j (hmr_pc s j))) \<and>
     (\<forall>j<N. hmr_open (hmr_pc s j) \<longrightarrow> hmr_open (hmr_pc s 0))"

lemma hmr_open_simps [simp]:
  "\<not> hmr_open HmrStart" "\<not> hmr_open HmrWaitReady" "\<not> hmr_open HmrMarshal" "\<not> hmr_open HmrReady" "\<not> hmr_open HmrWaitSync"
  "hmr_open (SyncRead r)" "hmr_open (SyncAdd r gs)" "hmr_open (SyncStore r gs)" "hmr_open (SyncWait r gs)" "hmr_open HmrRun"
  "hmr_open (barrier_passed R r)"
  by (simp_all add: hmr_open_def barrier_passed_def)

lemma hmr_side_simps [simp]:
  "hmr_side i HmrStart" "hmr_side i HmrWaitReady \<longleftrightarrow> i = 0" "hmr_side i HmrMarshal \<longleftrightarrow> i = 0" "hmr_side i HmrReady \<longleftrightarrow> i \<noteq> 0"
  "hmr_side i HmrWaitSync \<longleftrightarrow> i \<noteq> 0" "hmr_open p \<Longrightarrow> hmr_side i p"
  by (auto simp: hmr_side_def hmr_open_def split: hmr_pc.splits)

lemma card_others: "0 < N \<Longrightarrow> card {j. j < N \<and> j \<noteq> (0::nat) \<and> P j} = N - 1 \<longleftrightarrow> (\<forall>j<N. j \<noteq> 0 \<longrightarrow> P j)"
proof
  assume "card {j. j < N \<and> j \<noteq> 0 \<and> P j} = N - 1"
  then have e: "{j. j < N \<and> j \<noteq> 0 \<and> P j} = {1..<N}" by (intro card_subset_eq) auto
  have "P j" if "j < N" "j \<noteq> 0" for j
  proof -
    have "j \<in> {1..<N}" using that by simp
    then show ?thesis unfolding e [symmetric] by simp
  qed
  then show "\<forall>j<N. j \<noteq> 0 \<longrightarrow> P j" by blast
next
  assume "\<forall>j<N. j \<noteq> 0 \<longrightarrow> P j"
  then have "{j. j < N \<and> j \<noteq> 0 \<and> P j} = {1..<N}" by auto
  then show "card {j. j < N \<and> j \<noteq> 0 \<and> P j} = N - 1" by simp
qed

lemma hmr_ready_full:
  assumes inv: "hmr_shake_inv N s" and N: "0 < N" "N < 2 ^ 31"
  shows "p_ready_lock s = of_nat N - 1 \<longleftrightarrow> (\<forall>j<N. j \<noteq> 0 \<longrightarrow> hmr_readied j (hmr_pc s j))"
proof -
  have c: "card {j. j < N \<and> hmr_readied j (hmr_pc s j)} \<le> N" by (rule card_below)
  have "(of_nat N - 1 :: u64) = of_nat (N - 1)" using N by (simp add: of_nat_diff)
  moreover have "(of_nat a :: u64) = of_nat b \<longleftrightarrow> a = b" if "a \<le> N" "b \<le> N" for a b
    using that N by (simp add: word_unat_eq_iff unat_of_nat)
  ultimately have "p_ready_lock s = of_nat N - 1 \<longleftrightarrow> card {j. j < N \<and> hmr_readied j (hmr_pc s j)} = N - 1"
    using inv c by (simp add: hmr_shake_inv_def)
  also have "{j. j < N \<and> hmr_readied j (hmr_pc s j)} = {j. j < N \<and> j \<noteq> 0 \<and> hmr_readied j (hmr_pc s j)}" by (auto simp: hmr_readied_def)
  finally show ?thesis using card_others [OF N(1)] by simp
qed

lemma hmr_sync_full:
  assumes inv: "hmr_shake_inv N s" and N: "N < 2 ^ 31"
  shows "p_sync_lock s = (of_nat N * 2) OR 1 \<longleftrightarrow> hmr_open (hmr_pc s 0) \<and> (\<forall>j<N. hmr_pc s j \<noteq> HmrStart)"
proof -
  let ?c = "card {j. j < N \<and> hmr_pc s j \<noteq> HmrStart}" and ?b = "if hmr_open (hmr_pc s 0) then 1 else 0 :: nat"
  have c: "?c \<le> N" by (rule card_below)
  have "(of_nat N * 2 :: u64) AND 1 = 0" by (simp add: and_one_eq even_iff_mod_2_eq_zero [symmetric])
  then have e: "(of_nat N * 2 :: u64) OR 1 = of_nat (2 * N + 1)" using disjunctive_add_eq_or [of "of_nat N * 2 :: u64" 1] by (simp add: mult.commute add.commute)
  have "(of_nat (2 * ?c + ?b) :: u64) = of_nat (2 * N + 1) \<longleftrightarrow> 2 * ?c + ?b = 2 * N + 1"
    using c N by (simp only: word_unat_eq_iff unat_of_nat) auto
  then have "p_sync_lock s = (of_nat N * 2) OR 1 \<longleftrightarrow> 2 * ?c + ?b = 2 * N + 1"
    using inv unfolding e hmr_shake_inv_def by simp
  also have "\<dots> \<longleftrightarrow> hmr_open (hmr_pc s 0) \<and> ?c = N" using c by auto
  finally show ?thesis by (simp add: card_below_all)
qed

text \<open>The general form of a step: the thread moves on, and the words count it.\<close>

lemma hmr_shake_move:
  assumes inv: "hmr_shake_inv N s" and i: "i < N" "hmr_side i p" "p \<noteq> HmrStart" and pc: "hmr_pc s' = (hmr_pc s)(i := p)"
    and y: "p_sync_lock s' = p_sync_lock s + of_nat ((if hmr_pc s i = HmrStart then 2 else 0) + (if i = 0 \<and> hmr_open p \<and> \<not> hmr_open (hmr_pc s i) then 1 else 0))"
    and d: "p_ready_lock s' = p_ready_lock s + of_nat (if hmr_readied i p \<and> \<not> hmr_readied i (hmr_pc s i) then 1 else 0)"
    and o: "hmr_open (hmr_pc s i) \<Longrightarrow> hmr_open p" "hmr_readied i (hmr_pc s i) \<Longrightarrow> hmr_readied i p"
    and f: "i = 0 \<Longrightarrow> p = HmrMarshal \<or> hmr_open p \<Longrightarrow> \<forall>j<N. j \<noteq> 0 \<longrightarrow> hmr_readied j (hmr_pc s j)"
    and z: "i \<noteq> 0 \<Longrightarrow> hmr_open p \<Longrightarrow> hmr_open (hmr_pc s 0)"
  shows "hmr_shake_inv N s'"
proof -
  have cs: "card {j. j < N \<and> hmr_pc s' j \<noteq> HmrStart} = card {j. j < N \<and> hmr_pc s j \<noteq> HmrStart} + (if hmr_pc s i = HmrStart then 1 else 0)"
    unfolding pc using card_upd [OF i(1), where P = "\<lambda>_ q. q \<noteq> HmrStart" and f = "hmr_pc s" and p = p] i(3) by (simp del: fun_upd_apply split: if_splits)
  have cr: "card {j. j < N \<and> hmr_readied j (hmr_pc s' j)} =
      card {j. j < N \<and> hmr_readied j (hmr_pc s j)} + (if hmr_readied i p \<and> \<not> hmr_readied i (hmr_pc s i) then 1 else 0)"
    unfolding pc using card_upd [OF i(1), where P = hmr_readied and f = "hmr_pc s" and p = p] o(2) by (simp del: fun_upd_apply split: if_splits)
  have o0: "hmr_open (hmr_pc s' 0) \<longleftrightarrow> hmr_open (hmr_pc s 0) \<or> (i = 0 \<and> hmr_open p)" using o(1) by (auto simp: pc)
  have "p_sync_lock s' = of_nat (2 * card {j. j < N \<and> hmr_pc s' j \<noteq> HmrStart} + (if hmr_open (hmr_pc s' 0) then 1 else 0))"
    using inv o(1) unfolding cs o0 y hmr_shake_inv_def by (auto simp: algebra_simps)
  moreover have "p_ready_lock s' = of_nat (card {j. j < N \<and> hmr_readied j (hmr_pc s' j)})"
    using inv unfolding cr d hmr_shake_inv_def by simp
  moreover have "\<forall>j<N. hmr_side j (hmr_pc s' j)" using inv i by (simp add: hmr_shake_inv_def pc)
  moreover have "hmr_readied j (hmr_pc s' j)" if "hmr_pc s' 0 = HmrMarshal \<or> hmr_open (hmr_pc s' 0)" "j < N" "j \<noteq> 0" for j
  proof -
    have "\<forall>j<N. j \<noteq> 0 \<longrightarrow> hmr_readied j (hmr_pc s j)"
      using that(1) f inv by (cases "i = 0") (auto simp: pc hmr_shake_inv_def)
    then show ?thesis using that o(2) by (auto simp: pc)
  qed
  moreover have "\<forall>j<N. hmr_open (hmr_pc s' j) \<longrightarrow> hmr_open (hmr_pc s' 0)"
    using inv z o(1) unfolding o0 by (auto simp: pc hmr_shake_inv_def)
  ultimately show ?thesis unfolding hmr_shake_inv_def by blast
qed

lemma hmr_shake_inv_step:
  assumes inv: "hmr_shake_inv N s" and N: "0 < N" "N < 2 ^ 31"
  shows "hmr_shake_inv N (hmr_step N R i s)"
proof (cases "i < N")
  case i: True
  have side: "hmr_side i (hmr_pc s i)" using inv i by (simp add: hmr_shake_inv_def)
  note move = hmr_shake_move [OF inv i]
  note defs = hmr_step_def hmr_step_defs hmr_readied_def
  have keep: "hmr_shake_inv N s'" if "p_sync_lock s' = p_sync_lock s" "p_ready_lock s' = p_ready_lock s" "hmr_pc s' = (hmr_pc s)(i := p)"
      "hmr_open (hmr_pc s i)" "hmr_open p" for s' p
  proof -
    have n: "p \<noteq> HmrStart" "hmr_pc s i \<noteq> HmrStart" "p \<noteq> HmrReady" "hmr_pc s i \<noteq> HmrReady" using that(4,5) by auto
    have "hmr_open (hmr_pc s 0)" using inv i that(4) by (simp add: hmr_shake_inv_def)
    then have "\<forall>j<N. j \<noteq> 0 \<longrightarrow> hmr_readied j (hmr_pc s j)" "hmr_open (hmr_pc s 0)" using inv by (simp_all add: hmr_shake_inv_def)
    then show ?thesis using that n by (intro move [of p]) (auto simp: hmr_readied_def)
  qed
  show ?thesis
  proof (cases "hmr_pc s i")
    case HmrStart
    then show ?thesis using i by (intro move [of "if i = 0 then HmrWaitReady else HmrReady"]) (simp_all add: defs)
  next
    case HmrWaitReady
    then have "i = 0" using side by simp
    then show ?thesis using HmrWaitReady i inv hmr_ready_full [OF inv N]
      by (cases "p_ready_lock s = of_nat N - 1") (force simp: defs intro!: move [of HmrMarshal], simp add: defs)
  next
    case HmrMarshal
    then have "i = 0" using side by simp
    moreover have "\<forall>j<N. j \<noteq> 0 \<longrightarrow> hmr_readied j (hmr_pc s j)" using inv HmrMarshal \<open>i = 0\<close> by (simp add: hmr_shake_inv_def)
    ultimately show ?thesis using HmrMarshal i by (intro move [of "SyncRead 0"]) (simp_all add: defs)
  next
    case HmrReady
    then have "i \<noteq> 0" using side by simp
    then show ?thesis using HmrReady i by (intro move [of HmrWaitSync]) (simp_all add: defs)
  next
    case HmrWaitSync
    then have "i \<noteq> 0" using side by simp
    show ?thesis
    proof (cases "p_sync_lock s = (of_nat N * 2) OR 1")
      case True
      then have "hmr_open (hmr_pc s 0)" using hmr_sync_full [OF inv N(2)] by simp
      then show ?thesis using HmrWaitSync i True \<open>i \<noteq> 0\<close> by (intro move [of "SyncRead 0"]) (simp_all add: defs)
    qed (use HmrWaitSync i inv in \<open>simp add: defs\<close>)
  next
    case (SyncRead r)
    then show ?thesis using i by (intro keep [of _ "SyncAdd r (p_calibrate_lock s AND SENSE_BIT_MASK)"]) (simp_all add: defs)
  next
    case (SyncAdd r gs)
    then show ?thesis using i by (intro keep [of _ "hmr_pc (sync_add N i r gs s) i"]) (simp_all add: defs)
  next
    case (SyncStore r gs)
    then show ?thesis using i by (intro keep [of _ "barrier_passed R r"]) (simp_all add: defs)
  next
    case (SyncWait r gs)
    then have "hmr_step N R i s = s \<or> hmr_step N R i s = hmr_goto i (barrier_passed R r) s" using i by (simp add: defs)
    moreover have "hmr_shake_inv N (hmr_goto i (barrier_passed R r) s)" using SyncWait by (intro keep [of _ "barrier_passed R r"]) simp_all
    ultimately show ?thesis using inv by metis
  next
    case HmrRun
    then show ?thesis using inv i by (simp add: hmr_step_def)
  qed
qed (use inv in \<open>simp add: hmr_step_def\<close>)

section \<open>The whole invariant\<close>

definition hmr_inv :: "nat \<Rightarrow> nat \<Rightarrow> hmr_state \<Rightarrow> bool" where
  "hmr_inv N R s \<longleftrightarrow> 0 < N \<and> N < 2 ^ 31 \<and> 0 < R \<and> hmr_shake_inv N s \<and> (\<exists>k. hmr_barrier_inv N R k s)"

definition hmr_init :: "nat \<Rightarrow> nat \<Rightarrow> hmr_state \<Rightarrow> bool" where
  "hmr_init N R s \<longleftrightarrow> 0 < N \<and> N < 2 ^ 31 \<and> 0 < R \<and> s = hmr_start"

lemma hmr_inv_start: "hmr_init N R s \<Longrightarrow> hmr_inv N R s"
proof -
  assume i: "hmr_init N R s"
  have "hmr_barrier_inv N R 0 hmr_start"
    using i by (simp add: hmr_barrier_inv_def hmr_start_def hmr_init_def hmr_count_def hmr_arrived_def hmr_round_ok_def barrier_word_def sense_def)
  moreover have "hmr_shake_inv N hmr_start" by (simp add: hmr_shake_inv_def hmr_start_def hmr_readied_def)
  ultimately show ?thesis using i by (auto simp: hmr_init_def hmr_inv_def)
qed

interpretation hmr: invariant_system "hmr_init N R" "hmr_step N R" "hmr_inv N R" for N R
proof
  show "hmr_inv N R s" if "hmr_init N R s" for s using that by (rule hmr_inv_start)
  show "hmr_inv N R (hmr_step N R i s)" if "hmr_inv N R s" for i s
    using that hmr_shake_inv_step [of N s R i] hmr_barrier_inv_step [of N R _ s i] unfolding hmr_inv_def by blast
qed

section \<open>Progress\<close>

definition hmr_rank :: "nat \<Rightarrow> hmr_pc \<Rightarrow> nat" where
  "hmr_rank R p = (case p of HmrStart \<Rightarrow> 4 * R + 3 | HmrWaitReady \<Rightarrow> 4 * R + 2 | HmrMarshal \<Rightarrow> 4 * R + 1 | HmrReady \<Rightarrow> 4 * R + 2
     | HmrWaitSync \<Rightarrow> 4 * R + 1 | SyncRead r \<Rightarrow> 4 * (R - r) | SyncAdd r _ \<Rightarrow> 4 * (R - r) - 1 | SyncStore r _ \<Rightarrow> 4 * (R - r) - 2
     | SyncWait r _ \<Rightarrow> 4 * (R - r) - 2 | HmrRun \<Rightarrow> 0)"

definition hmr_distance :: "nat \<Rightarrow> nat \<Rightarrow> hmr_state \<Rightarrow> nat" where
  "hmr_distance N R s = (\<Sum>j<N. hmr_rank R (hmr_pc s j))"

lemma hmr_step_other: "j \<noteq> i \<Longrightarrow> hmr_pc (hmr_step N R i s) j = hmr_pc s j"
  by (cases "hmr_pc s i") (simp_all add: hmr_step_def hmr_step_defs)

lemma hmr_rank_less:
  assumes inv: "hmr_barrier_inv N R k s" and i: "i < N" "hmr_pc (hmr_step N R i s) i \<noteq> hmr_pc s i"
  shows "hmr_rank R (hmr_pc (hmr_step N R i s) i) < hmr_rank R (hmr_pc s i)"
proof -
  have ok: "hmr_round_ok R k (hmr_pc s i)" using inv i by (simp add: hmr_barrier_inv_def)
  show ?thesis using i ok
    by (cases "hmr_pc s i") (auto simp: hmr_step_def hmr_step_defs hmr_rank_def barrier_passed_def hmr_round_ok_def split: if_splits)
qed

lemma hmr_moves:
  assumes "i < N" and "hmr_pc s i \<in> {HmrStart, HmrMarshal, HmrReady} \<or> (\<exists>r. hmr_pc s i = SyncRead r) \<or>
    (\<exists>r gs. hmr_pc s i = SyncAdd r gs) \<or> (\<exists>r gs. hmr_pc s i = SyncStore r gs)"
  shows "hmr_pc (hmr_step N R i s) i \<noteq> hmr_pc s i"
  using assms by (auto simp: hmr_step_def hmr_step_defs barrier_passed_def split: if_splits)

text \<open>Somebody can move: whoever does not wait, a thread of the last round, or the first thread or all others in the handshake.\<close>

lemma hmr_enabled:
  assumes inv: "hmr_inv N R s" and n: "\<not> (\<forall>j<N. hmr_pc s j = HmrRun)"
  shows "\<exists>i<N. hmr_pc (hmr_step N R i s) i \<noteq> hmr_pc s i"
proof (rule ccontr)
  assume stuck: "\<not> ?thesis"
  have N: "0 < N" "N < 2 ^ 31" and sh: "hmr_shake_inv N s" using inv by (simp_all add: hmr_inv_def)
  obtain k where b: "hmr_barrier_inv N R k s" using inv by (auto simp: hmr_inv_def)
  have w: "hmr_pc s j = HmrWaitReady \<or> hmr_pc s j = HmrWaitSync \<or> (\<exists>r gs. hmr_pc s j = SyncWait r gs) \<or> hmr_pc s j = HmrRun" if "j < N" for j
    using hmr_moves [OF that, of s R] stuck that by (cases "hmr_pc s j") auto
  have side: "hmr_side j (hmr_pc s j)" and ok: "hmr_round_ok R k (hmr_pc s j)" if "j < N" for j
    using sh b that by (simp_all add: hmr_shake_inv_def hmr_barrier_inv_def)
  have nr: "hmr_pc s 0 \<noteq> HmrWaitReady"
  proof
    assume z: "hmr_pc s 0 = HmrWaitReady"
    have "hmr_readied j (hmr_pc s j)" if "j < N" "j \<noteq> 0" for j using w [OF that(1)] side [OF that(1)] that by (auto simp: hmr_readied_def)
    then have "hmr_pc (hmr_step N R 0 s) 0 \<noteq> hmr_pc s 0" using hmr_ready_full [OF sh N] z N by (simp add: hmr_step_def hmr_wait_ready_def)
    with stuck N show False by blast
  qed
  then have o0: "hmr_open (hmr_pc s 0)" using w [OF N(1)] side [OF N(1)] by auto
  have ns: "hmr_pc s j \<noteq> HmrWaitSync" if "j < N" for j
  proof
    assume z: "hmr_pc s j = HmrWaitSync"
    have "\<forall>j<N. hmr_pc s j \<noteq> HmrStart" using w by fastforce
    then have "hmr_pc (hmr_step N R j s) j \<noteq> hmr_pc s j" using hmr_sync_full [OF sh N(2)] o0 z that by (simp add: hmr_step_def hmr_wait_sync_def)
    with stuck that show False by blast
  qed
  have wr: "(\<exists>r gs. hmr_pc s j = SyncWait r gs) \<or> hmr_pc s j = HmrRun" if "j < N" for j
    using w [OF that] ns [OF that] side [OF that] nr by auto
  have wk: "hmr_pc s j = HmrRun \<or> hmr_pc s j = SyncWait k (sense k)" if j: "j < N" for j
  proof (cases "hmr_pc s j")
    case (SyncWait r gs)
    have "hmr_pc (hmr_step N R j s) j = barrier_passed R r" if "Suc r = k"
      using hmr_wait_inv(2) [OF b j N(2) SyncWait that] j SyncWait by (simp add: hmr_step_def)
    moreover have "barrier_passed R r \<noteq> SyncWait r gs" by (simp add: barrier_passed_def)
    ultimately have "Suc r \<noteq> k" using stuck j SyncWait by metis
    then show ?thesis using ok [OF j] SyncWait by (auto simp: hmr_round_ok_def)
  qed (use wr [OF j] in auto)
  obtain i where i: "i < N" "hmr_pc s i \<noteq> HmrRun" using n by blast
  then have "k < R" using wk [of i] ok [of i] by (auto simp: hmr_round_ok_def)
  then have all: "hmr_pc s j = SyncWait k (sense k)" if "j < N" for j using wk [OF that] ok [OF that] by (auto simp: hmr_round_ok_def)
  then have "hmr_count N k s = N" unfolding hmr_count_def card_below_all by (simp add: hmr_arrived_def)
  then show False using b all unfolding hmr_barrier_inv_def by fastforce
qed

interpretation hmr: progress_system "hmr_init N R" "hmr_step N R" "hmr_inv N R" "\<lambda>s. \<forall>j<N. hmr_pc s j = HmrRun" "hmr_distance N R" for N R
proof
  show "\<exists>i. hmr_distance N R (hmr_step N R i s) < hmr_distance N R s" if inv: "hmr_inv N R s" and n: "\<not> (\<forall>j<N. hmr_pc s j = HmrRun)" for s
  proof -
    from hmr_enabled [OF inv n] obtain i where i: "i < N" "hmr_pc (hmr_step N R i s) i \<noteq> hmr_pc s i" by blast
    obtain k where b: "hmr_barrier_inv N R k s" using inv by (auto simp: hmr_inv_def)
    have "hmr_distance N R (hmr_step N R i s) < hmr_distance N R s" unfolding hmr_distance_def
    proof (rule sum_strict_mono_ex1)
      show "\<forall>j\<in>{..<N}. hmr_rank R (hmr_pc (hmr_step N R i s) j) \<le> hmr_rank R (hmr_pc s j)"
        using hmr_rank_less [OF b i] hmr_step_other [of _ i N R s] by (metis less_imp_le_nat order_refl)
      show "\<exists>j\<in>{..<N}. hmr_rank R (hmr_pc (hmr_step N R i s) j) < hmr_rank R (hmr_pc s j)"
        using hmr_rank_less [OF b i] i by blast
    qed simp
    then show ?thesis ..
  qed
qed

section \<open>Properties\<close>

text \<open>At or behind the \<open>r\<close>-th barrier.\<close>

definition hmr_passed :: "nat \<Rightarrow> hmr_pc \<Rightarrow> bool" where
  "hmr_passed r p = (case p of SyncRead q \<Rightarrow> r < q | SyncAdd q _ \<Rightarrow> r < q | SyncStore q _ \<Rightarrow> r < q | SyncWait q _ \<Rightarrow> r < q | HmrRun \<Rightarrow> True | _ \<Rightarrow> False)"

text \<open>C23: the barrier separates the rounds: when one thread has passed the \<open>r\<close>-th barrier, every thread has at least
  arrived at it, although the same word is used for all barriers and threads of the next round are already counted
  while slow threads of the last one have not noticed yet; so no thread measures before all have been calibrated.\<close>

theorem barrier_separates_rounds:
  assumes "0 < N" "N < 2 ^ 31" "r < R" and "s = run (hmr_step N R) ls hmr_start" and "i < N" "hmr_passed r (hmr_pc s i)" and "j < N"
  shows "hmr_arrived r (hmr_pc s j) \<or> hmr_passed r (hmr_pc s j)"
proof -
  have "hmr_inv N R s" unfolding assms(4) by (rule hmr.reachable_inv) (use assms in \<open>simp add: hmr_init_def\<close>)
  then obtain k where b: "hmr_barrier_inv N R k s" by (auto simp: hmr_inv_def)
  have ok: "hmr_round_ok R k (hmr_pc s i)" "hmr_round_ok R k (hmr_pc s j)" using b assms by (simp_all add: hmr_barrier_inv_def)
  have "r < k" using ok(1) assms(3,6) by (auto simp: hmr_round_ok_def hmr_passed_def split: hmr_pc.splits)
  then show ?thesis using ok(2) by (auto simp: hmr_round_ok_def hmr_passed_def hmr_arrived_def split: hmr_pc.splits)
qed

text \<open>Two threads; thread 1 has passed the first barrier and thread 0 still waits in it.\<close>

definition two_threads :: "tid list" where
  "two_threads = [0, 1, 1, 0, 0, 1, 0, 0, 1, 1, 1]"

theorem barrier_separates_rounds_witness:
  "hmr_pc (run (hmr_step 2 7) two_threads hmr_start) 1 = SyncRead 1 \<and> hmr_arrived 0 (hmr_pc (run (hmr_step 2 7) two_threads hmr_start) 0)"
proof -
  let ?s = "run (hmr_step 2 7) two_threads hmr_start"
  have p: "hmr_pc ?s 1 = SyncRead 1" "\<not> hmr_passed 0 (hmr_pc ?s 0)" by code_simp+
  then have "hmr_passed 0 (hmr_pc ?s 1)" by (simp add: hmr_passed_def)
  with barrier_separates_rounds [of 2 0 7 ?s two_threads 1 0] p show ?thesis by simp
qed

text \<open>Every start succeeds: from every reachable state all threads can still reach the measurement; no thread is
  left behind in a barrier that the others have passed.\<close>

theorem all_threads_start:
  assumes "0 < N" "N < 2 ^ 31" "0 < R"
  shows "\<exists>ms. \<forall>j<N. hmr_pc (run (hmr_step N R) (ls @ ms) hmr_start) j = HmrRun"
  using hmr.never_stuck [of N R hmr_start ls] assms by (simp add: hmr_init_def)

theorem all_threads_start_witness:
  "\<exists>ms. \<forall>j<2. hmr_pc (run (hmr_step 2 7) (two_threads @ ms) hmr_start) j = HmrRun"
  using all_threads_start [of 2 7 two_threads] by simp

end
