(* ===== verification/Experiment.thy ===== *)
theory Experiment
  imports Measured_Locks Start_Progress
begin

text \<open>
  Measurements with the locks of the suite, and whole experiments: the worker threads go through the start of \<open>hmr\<close>
  (\<open>Start_Barrier\<close>), where they wait for each other, and then through the measurement loop (\<open>Measure\<close>) with the lock.
\<close>

section \<open>The two parts of \<open>hmr\<close>\<close>

record 's hmr_run =
  ex_start :: hmr_state
  ex_measure :: "'s measure_state"

text \<open>A label is a step of a thread in the start, or in the measurement once it has left the last barrier.\<close>

datatype 'l hmr_label = Sync tid | Loop 'l u64

definition experiment_start :: "'s \<Rightarrow> 's hmr_run" where
  "experiment_start s = \<lparr>ex_start = hmr_start, ex_measure = measure_start s\<rparr>"

fun experiment_step :: "('l, 's) lock_alg \<Rightarrow> nat \<Rightarrow> nat \<Rightarrow> thread_args \<Rightarrow> 'l hmr_label \<Rightarrow> 's hmr_run \<Rightarrow> 's hmr_run" where
  "experiment_step A N R x (Sync i) s = s\<lparr>ex_start := hmr_step N R i (ex_start s)\<rparr>"
| "experiment_step A N R x (Loop l now) s =
     (if hmr_pc (ex_start s) (la_mover A l) = HmrRun then s\<lparr>ex_measure := measure_step A N x (l, now) (ex_measure s)\<rparr> else s)"

lemma experiment_parts:
  "\<exists>ks ms. ex_start (run (experiment_step A N R x) ls s) = run (hmr_step N R) ks (ex_start s) \<and>
     ex_measure (run (experiment_step A N R x) ls s) = run (measure_step A N x) ms (ex_measure s)"
proof (induction ls arbitrary: s)
  case Nil
  show ?case by (metis run.simps(1))
next
  case (Cons l ls)
  let ?s = "experiment_step A N R x l s"
  from Cons obtain ks ms where r: "ex_start (run (experiment_step A N R x) ls ?s) = run (hmr_step N R) ks (ex_start ?s)"
    "ex_measure (run (experiment_step A N R x) ls ?s) = run (measure_step A N x) ms (ex_measure ?s)" by blast
  have e: "ex_start ?s = run (hmr_step N R) (case l of Sync i \<Rightarrow> [i] | _ \<Rightarrow> []) (ex_start s)" by (cases l) simp_all
  have f: "ex_measure ?s = run (measure_step A N x)
      (case l of Loop m now \<Rightarrow> if hmr_pc (ex_start s) (la_mover A m) = HmrRun then [(m, now)] else [] | _ \<Rightarrow> []) (ex_measure s)"
    by (cases l) simp_all
  from r(1) [unfolded e run_append [symmetric]] r(2) [unfolded f run_append [symmetric]] show ?case
    unfolding run.simps(2) by blast
qed

lemma experiment_sync: "run (experiment_step A N R x) (map Sync ks) s = s\<lparr>ex_start := run (hmr_step N R) ks (ex_start s)\<rparr>"
  by (induction ks arbitrary: s) simp_all

lemma experiment_loop:
  assumes "\<forall>j<N. hmr_pc (ex_start s) j = HmrRun"
  shows "run (experiment_step A N R x) (map (\<lambda>(l, now). Loop l now) ms) s = s\<lparr>ex_measure := run (measure_step A N x) ms (ex_measure s)\<rparr>"
  using assms
proof (induction ms arbitrary: s)
  case (Cons m ms)
  obtain l now where m: "m = (l, now)" by (cases m)
  have "experiment_step A N R x (Loop l now) s = s\<lparr>ex_measure := measure_step A N x (l, now) (ex_measure s)\<rparr>"
    using Cons.prems by (cases "la_mover A l < N") (simp_all add: measure_step_def)
  then show ?case using Cons by (simp add: m)
qed simp

text \<open>A thread that has begun its measurement has left the last barrier.\<close>

lemma begun_run:
  "ms_pc (ex_measure (run (experiment_step A N R x) ls (experiment_start s))) i \<noteq> MsStart \<Longrightarrow>
   i < N \<and> hmr_pc (ex_start (run (experiment_step A N R x) ls (experiment_start s))) i = HmrRun"
proof -
  define begun where "begun s \<longleftrightarrow> (\<forall>i. ms_pc (ex_measure s) i \<noteq> MsStart \<longrightarrow> i < N \<and> hmr_pc (ex_start s) i = HmrRun)" for s :: "'a hmr_run"
  have "begun (experiment_step A N R x l s)" if "begun s" for l s
  proof (cases l)
    case (Sync j)
    have "hmr_pc (hmr_step N R j (ex_start s)) i = HmrRun" if "hmr_pc (ex_start s) i = HmrRun" for i
      using that hmr_step_other [of i j N R "ex_start s"] by (cases "i = j") (simp_all add: hmr_step_def)
    with that Sync show ?thesis by (simp add: begun_def)
  next
    case (Loop m now)
    have "ms_pc (measure_step A N x (m, now) (ex_measure s)) i = ms_pc (ex_measure s) i" if "i \<noteq> la_mover A m \<or> \<not> i < N" for i
      using that by (auto simp: measure_step_def Let_def split: prod.split)
    with that Loop show ?thesis by (auto simp: begun_def) metis+
  qed
  then have "begun s \<Longrightarrow> begun (run (experiment_step A N R x) ls s)" for s by (induction ls arbitrary: s) simp_all
  moreover have "begun (experiment_start s)" by (simp add: begun_def experiment_start_def measure_start_def)
  ultimately show "ms_pc (ex_measure (run (experiment_step A N R x) ls (experiment_start s))) i \<noteq> MsStart \<Longrightarrow> ?thesis"
    unfolding begun_def by blast
qed

section \<open>Properties\<close>

text \<open>A measurement that has a limit, in ticks or in acquisitions, can always be completed: whatever the threads have done so far
  and wherever they are in the lock, all of them can still leave the loop, even though threads that are done no longer
  take part in the lock. This holds for every build of the ticket lock, the CLH lock, the reader-writer mutex, the
  queued and the hybrid spinlocks, the optimistic spin queue, the swap mutex and the POSIX mutex.\<close>

theorem measurement_completes:
  "(N * stride a \<le> 65536 \<longrightarrow> measurable (ticket_alg a N) N ticket_start) \<and>
   (clh_start N = Some c \<longrightarrow> measurable (clh_alg w N) N c) \<and>
   (N < 2 ^ 62 \<longrightarrow> measurable (tbb_alg N) N (tbb_init_locks p cpulist)) \<and>
   (N \<le> 16383 \<longrightarrow> measurable (queued_alg N) N mcs_init_locks) \<and>
   (N \<le> 16383 \<and> (v = Old_Fast_Dequeue \<longrightarrow> N \<le> 256) \<longrightarrow> measurable (hybrid_alg v N) N hy_init_locks) \<and>
   (N < 2 ^ 31 \<longrightarrow> measurable (osq_alg retry N) N osq_queue_init) \<and>
   measurable (swap_alg N) N swap_start \<and>
   (pt_init t \<longrightarrow> measurable (pthread_alg test N) N t)"
  by (intro conjI impI; (rule measured_ticket.init_measurable measured_clh.init_measurable measured_tbb.init_measurable
        measured_queued.init_measurable measured_hybrid.init_measurable measured_osq.init_measurable measured_swap.init_measurable measured_pthread.init_measurable)?)
    (auto simp: ticket_init_def clh_init_def tbb_init_def)

text \<open>A measurement of one acquisition per thread.\<close>

definition once :: thread_args where
  "once = \<lparr>num_acquires = 1, run_limit_ticks = 0, run_limit_inner_loop_iters = 0, target_10p = 0, target_90p = 0\<rparr>"

text \<open>C12: what a thread reports is what happened: at the end of its measurement \<open>lock_acquires\<close> is the number of times
  \<open>lock_acquire\<close> has returned to it, \<open>hmrdepth\<close> is the sum of the values returned, both as 64-bit numbers; the counted loop has made exactly
  \<open>num_acquires\<close> acquisitions, and the timed loop has run for at least \<open>run_limit_ticks\<close> by its own clock readings.\<close>

theorem measurement_exact:
  "(N * stride a \<le> 65536 \<longrightarrow> measured_exactly (ticket_alg a N) N ticket_start) \<and>
   (clh_start N = Some c \<longrightarrow> measured_exactly (clh_alg w N) N c) \<and>
   (N < 2 ^ 62 \<longrightarrow> measured_exactly (tbb_alg N) N (tbb_init_locks p cpulist)) \<and>
   (N \<le> 16383 \<longrightarrow> measured_exactly (queued_alg N) N mcs_init_locks) \<and>
   (N \<le> 16383 \<and> (v = Old_Fast_Dequeue \<longrightarrow> N \<le> 256) \<longrightarrow> measured_exactly (hybrid_alg v N) N hy_init_locks) \<and>
   (N < 2 ^ 31 \<longrightarrow> measured_exactly (osq_alg retry N) N osq_queue_init) \<and>
   measured_exactly (swap_alg N) N swap_start \<and>
   (pt_init t \<longrightarrow> measured_exactly (pthread_alg test N) N t)"
  by (intro conjI impI; (rule measured_ticket.init_measured_exactly measured_clh.init_measured_exactly measured_tbb.init_measured_exactly
        measured_queued.init_measured_exactly measured_hybrid.init_measured_exactly measured_osq.init_measured_exactly measured_swap.init_measured_exactly measured_pthread.init_measured_exactly)?)
    (auto simp: ticket_init_def clh_init_def tbb_init_def)


text \<open>Two threads with a ticket lock and one acquisition each.\<close>

theorem measurement_exact_witness:
  "let ls = map (\<lambda>i. (i, 0)) [0, 0, 1, 1, 0, 1, 1, 0, 0, 0, 0, 1, 1, 1, 1, 1];
       s = run (measure_step (ticket_alg AArch64_LSE 2) 2 once) ls (measure_start ticket_start)
   in ms_pc s 1 = MsDone \<and> total_depth (ms_locals s 1) =
     sum_list (depths_of 1 (observe (measure_acquired (ticket_alg AArch64_LSE 2) 2) (measure_step (ticket_alg AArch64_LSE 2) 2 once) ls (measure_start ticket_start)))"
proof -
  let ?ls = "map (\<lambda>i. (i, 0 :: u64)) [0, 0, 1, 1, 0, 1, 1, 0, 0, 0, 0, 1, 1, 1, 1, 1 :: nat]"
  let ?s = "run (measure_step (ticket_alg AArch64_LSE 2) 2 once) ?ls (measure_start ticket_start)"
  have d: "ms_pc ?s 1 = MsDone" by code_simp
  have "measured_exactly (ticket_alg AArch64_LSE 2) 2 ticket_start" using measurement_exact [where N = 2 and a = AArch64_LSE] by (simp add: stride_def)
  then have "res_hmrdepth (hmr_results (ms_locals ?s 1)) =
      sum_list (depths_of 1 (observe (measure_acquired (ticket_alg AArch64_LSE 2) 2) (measure_step (ticket_alg AArch64_LSE 2) 2 once) ?ls (measure_start ticket_start)))"
    using d unfolding measured_exactly_def Let_def by blast
  then show ?thesis using d by (simp only: Let_def hmr_results_def per_thread_results.simps)
qed

text \<open>From every state that the worker threads can reach, some still before or in a barrier of the start and others already
  measuring, all threads can finish.\<close>

definition completable :: "('l, 's) lock_alg \<Rightarrow> nat \<Rightarrow> 's \<Rightarrow> bool" where
  "completable A N s \<longleftrightarrow> (\<forall>R x ls. 0 < R \<and> (run_limit_ticks x \<noteq> 0 \<or> num_acquires x \<noteq> 0) \<longrightarrow>
     (\<exists>ms. \<forall>t<N. ms_pc (ex_measure (run (experiment_step A N R x) (ls @ ms) (experiment_start s))) t = MsDone))"

lemma measurable_completable:
  assumes "measurable A N s" "0 < N" "N < 2 ^ 31"
  shows "completable A N s"
  unfolding completable_def
proof (intro allI impI, elim conjE)
  fix R :: nat and x :: thread_args and ls :: "'a hmr_label list"
  assume R: "0 < R" and x: "run_limit_ticks x \<noteq> 0 \<or> num_acquires x \<noteq> 0"
  obtain ks ms where p: "ex_start (run (experiment_step A N R x) ls (experiment_start s)) = run (hmr_step N R) ks hmr_start"
    "ex_measure (run (experiment_step A N R x) ls (experiment_start s)) = run (measure_step A N x) ms (measure_start s)"
    using experiment_parts [of A N R x ls "experiment_start s"] by (auto simp: experiment_start_def)
  obtain js where j: "\<forall>j<N. hmr_pc (run (hmr_step N R) (ks @ js) hmr_start) j = HmrRun"
    using hmr.never_stuck [of N R hmr_start ks] assms R by (auto simp: hmr_init_def)
  obtain ns where n: "\<forall>t<N. ms_pc (run (measure_step A N x) (ms @ ns) (measure_start s)) t = MsDone"
    using assms(1) x unfolding measurable_def by blast
  have "\<forall>t<N. ms_pc (ex_measure (run (experiment_step A N R x) (ls @ map Sync js @ map (\<lambda>(l, now). Loop l now) ns) (experiment_start s))) t = MsDone"
    using n j by (simp add: run_append experiment_sync p experiment_loop)
  then show "\<exists>ms. \<forall>t<N. ms_pc (ex_measure (run (experiment_step A N R x) (ls @ ms) (experiment_start s))) t = MsDone" by blast
qed

text \<open>An experiment that has a limit, in ticks or in acquisitions, can always be completed: whatever the threads have done so far,
  whether they are at the handshake, in a barrier or anywhere in the lock, all of them can still pass the barriers and
  leave the measurement loop, even though threads that are done no longer take part in the lock. This holds for every
  build of the ticket lock, the CLH lock, the reader-writer mutex, the queued and the hybrid spinlocks, the optimistic
  spin queue, the swap mutex and the POSIX mutex.\<close>

theorem experiment_completes:
  assumes "0 < N" "N < 2 ^ 31"
  shows "(N * stride a \<le> 65536 \<longrightarrow> completable (ticket_alg a N) N ticket_start) \<and>
   (clh_start N = Some c \<longrightarrow> completable (clh_alg w N) N c) \<and>
   completable (tbb_alg N) N (tbb_init_locks p cpulist) \<and>
   (N \<le> 16383 \<longrightarrow> completable (queued_alg N) N mcs_init_locks) \<and>
   (N \<le> 16383 \<and> (v = Old_Fast_Dequeue \<longrightarrow> N \<le> 256) \<longrightarrow> completable (hybrid_alg v N) N hy_init_locks) \<and>
   completable (osq_alg retry N) N osq_queue_init \<and>
   completable (swap_alg N) N swap_start \<and>
   (pt_init t \<longrightarrow> completable (pthread_alg test N) N t)"
  using assms(2) by (intro conjI impI measurable_completable [OF _ assms]) (use measurement_completes [of N a c w p cpulist v retry t test] in simp_all)

text \<open>Three threads with a CLH lock, of which one has not started yet.\<close>

theorem experiment_completes_witness:
  "\<exists>s ms. clh_start 3 = Some s \<and>
     (\<forall>t<3. ms_pc (ex_measure (run (experiment_step (clh_alg True 3) 3 1 once) ([Sync 0, Sync 1, Sync 1, Sync 0] @ ms) (experiment_start s))) t = MsDone)"
proof -
  obtain s where s: "clh_start 3 = Some s" by (simp add: clh_start_def clh_lock_init_def)
  then have "completable (clh_alg True 3) 3 s" using experiment_completes [where N = 3] by simp
  moreover have "num_acquires once \<noteq> 0" by (simp add: once_def)
  ultimately show ?thesis unfolding completable_def using s zero_less_one by blast
qed

text \<open>Nobody measures while somebody still calibrates: once a thread has begun its measurement, every thread has arrived at the last
  barrier of the start.\<close>

theorem measurement_after_calibration:
  assumes "0 < N" "N < 2 ^ 31" "0 < R" and "s' = run (experiment_step A N R x) ls (experiment_start s)"
    and "ms_pc (ex_measure s') i \<noteq> MsStart" "j < N"
  shows "hmr_pc (ex_start s') j = HmrRun \<or> (\<exists>gs. hmr_pc (ex_start s') j = SyncWait (R - 1) gs)"
proof -
  let ?h = "ex_start s'"
  have i: "i < N" "hmr_pc ?h i = HmrRun" using begun_run [where A = A and N = N and R = R and x = x and ls = ls and s = s and i = i] assms(4,5) by simp_all
  obtain ks where "?h = run (hmr_step N R) ks hmr_start"
    using experiment_parts [of A N R x ls "experiment_start s"] assms(4) by (auto simp: experiment_start_def)
  then have "hmr_inv N R ?h" using hmr.reachable_inv [of N R hmr_start ks] assms by (simp add: hmr_init_def)
  then obtain k where b: "hmr_barrier_inv N R k ?h" by (auto simp: hmr_inv_def)
  have ok: "hmr_round_ok R k (hmr_pc ?h i)" "hmr_round_ok R k (hmr_pc ?h j)" using b i(1) assms(6) by (auto simp only: hmr_barrier_inv_def)
  then have "k = R" using i by (simp add: hmr_round_ok_def)
  with ok(2) assms(3) show ?thesis by (cases "hmr_pc ?h j") (auto simp: hmr_round_ok_def)
qed

text \<open>Thread 1 has begun its measurement and thread 0 has not noticed yet that the barrier is open.\<close>

theorem measurement_after_calibration_witness:
  "let s = run (experiment_step (swap_alg 2) 2 1 once) (map Sync [0, 1, 1, 0, 0, 1, 0, 0, 1, 1, 1] @ [Loop 1 9]) (experiment_start swap_start)
   in ms_pc (ex_measure s) 1 = MsCount \<and> hmr_pc (ex_start s) 0 = SyncWait 0 0"
proof -
  let ?s = "run (experiment_step (swap_alg 2) 2 1 once) (map Sync [0, 1, 1, 0, 0, 1, 0, 0, 1, 1, 1] @ [Loop 1 9]) (experiment_start swap_start)"
  have p: "ms_pc (ex_measure ?s) 1 = MsCount" "hmr_pc (ex_start ?s) 0 \<noteq> HmrRun" "hmr_pc (ex_start ?s) 0 \<noteq> SyncWait 0 1" "hmr_pc (ex_start ?s) 0 = SyncWait 0 0" by code_simp+
  with measurement_after_calibration [of 2 1 ?s "swap_alg 2" once _ swap_start 1 0, OF _ _ _ refl] show ?thesis by simp
qed


section \<open>Interrupted and short measurements\<close>

text \<open>What the loop keeps true of the position and the variables of one thread, for readings of the clock that satisfy \<open>Q\<close>.\<close>

lemma locals_run:
  assumes init: "J MsStart hmr_locals_init"
    and step: "\<And>l now s p v p' v'. Q now \<Longrightarrow> J p v \<Longrightarrow> measure_local A x l now s p v = (p', v') \<Longrightarrow> J p' v'"
    and ls: "\<forall>l\<in>set ls. Q (snd l)"
  shows "J (ms_pc (run (measure_step A N x) ls (measure_start s)) t) (ms_locals (run (measure_step A N x) ls (measure_start s)) t)"
proof -
  have one: "\<forall>t. J (ms_pc (measure_step A N x l s) t) (ms_locals (measure_step A N x l s) t)"
    if j: "\<forall>t. J (ms_pc s t) (ms_locals s t)" and q: "Q (snd l)" for l s
  proof (cases l)
    case (Pair l' now)
    let ?t = "la_mover A l'"
    obtain p v where m: "measure_local A x l' now (ms_lock s) (ms_pc s ?t) (ms_locals s ?t) = (p, v)"
      by (cases "measure_local A x l' now (ms_lock s) (ms_pc s ?t) (ms_locals s ?t)")
    have "J p v" by (rule step [OF _ _ m]) (use j q Pair in simp_all)
    then show ?thesis using j m by (simp add: Pair measure_step_def Let_def)
  qed
  have "\<forall>t. J (ms_pc s t) (ms_locals s t) \<Longrightarrow> J (ms_pc (run (measure_step A N x) ls s) t) (ms_locals (run (measure_step A N x) ls s) t)" for s
    using ls by (induction ls arbitrary: s) (simp_all add: one)
  moreover have "\<forall>t. J (ms_pc (measure_start s) t) (ms_locals (measure_start s) t)" using init by (simp add: measure_start_def)
  ultimately show ?thesis by blast
qed

lemma locals_ok_init: "locals_ok x MsStart hmr_locals_init"
  by (simp add: locals_ok_def counted_ok_def timed_ok_def hmr_locals_init_def)

lemma locals_ok_run: "locals_ok x (ms_pc (run (measure_step A N x) ls (measure_start s)) t) (ms_locals (run (measure_step A N x) ls (measure_start s)) t)"
  by (rule locals_run [where Q = "\<lambda>_. True"]) (auto intro: locals_ok_init locals_ok_local)

text \<open>A thread that is cancelled, at whatever point, reports through \<open>thread_cleanup_routine\<close> all the iterations it has counted, except
  that the timed loop may lose those of its current pass, of which there are at most \<open>run_limit_inner_loop_iters\<close>.\<close>

theorem cancelled_results:
  "lock_acquires (ms_locals (run (measure_step A N x) ls (measure_start s)) t)
     - res_lock_acquires (thread_cleanup_routine now (ms_locals (run (measure_step A N x) ls (measure_start s)) t))
   \<le> (if run_limit_ticks x = 0 then 0 else run_limit_inner_loop_iters x)"
  using locals_ok_run [of x A N ls s t]
  by (auto simp: thread_cleanup_routine_def locals_ok_def counted_ok_def timed_ok_def split: if_splits)

text \<open>Milestones: with increasing targets, each is recorded in the iteration after the one whose number is its target.\<close>

definition milestones_ok :: "thread_args \<Rightarrow> nat \<Rightarrow> milestones \<Rightarrow> bool" where
  "milestones_ok x a m \<longleftrightarrow> (let q = unat (num_acquires x) div 4 in
     (hwtimer_10p m \<noteq> 0 \<longleftrightarrow> unat (target_10p x) + 1 < a) \<and> (hwtimer_25p m \<noteq> 0 \<longleftrightarrow> q + 1 < a) \<and>
     (hwtimer_50p m \<noteq> 0 \<longleftrightarrow> q * 2 + 1 < a) \<and> (hwtimer_75p m \<noteq> 0 \<longleftrightarrow> q * 3 + 1 < a) \<and>
     (hwtimer_90p m \<noteq> 0 \<longleftrightarrow> unat (target_90p x) + 1 < a))"

definition targets_increase :: "thread_args \<Rightarrow> bool" where
  "targets_increase x \<longleftrightarrow> (let q = unat (num_acquires x) div 4 in unat (target_10p x) < q \<and> 0 < q \<and> q * 3 < unat (target_90p x))"

lemma unat_quarters: "unat (num_acquires x div 4 * k) = unat (num_acquires x) div 4 * unat k" if "unat k \<le> 3"
proof -
  have "unat (num_acquires x) div 4 * unat k \<le> unat (num_acquires x) div 4 * 3" using that by simp
  also have "\<dots> \<le> unat (num_acquires x)" by simp
  also have "\<dots> < 2 ^ 64" using unsigned_less [of "num_acquires x"] by simp
  finally show ?thesis by (simp add: unat_word_ariths(2) unat_div)
qed

lemma update_milestones:
  assumes "targets_increase x" "milestones_ok x (unat a) m" "now \<noteq> 0"
  shows "milestones_ok x (Suc (unat a)) (update_timer_tick_progress x now a m)"
proof -
  have q: "unat (num_acquires x div 4) = unat (num_acquires x) div 4" "unat (num_acquires x div 4 * 2) = unat (num_acquires x) div 4 * 2"
    "unat (num_acquires x div 4 * 3) = unat (num_acquires x) div 4 * 3"
    using unat_quarters [of 2 x] unat_quarters [of 3 x] by (simp_all add: unat_div)
  define n where "n = unat (num_acquires x) div 4"
  have i: "unat (target_10p x) < n" "0 < n" "n * 3 < unat (target_90p x)" using assms(1) by (simp_all add: targets_increase_def n_def Let_def)
  note h = assms(2) [unfolded milestones_ok_def Let_def n_def [symmetric]]
  have c: "(target_10p x < a \<and> hwtimer_10p m = 0) = (unat a = unat (target_10p x) + 1)" "(num_acquires x div 4 < a \<and> hwtimer_25p m = 0) = (unat a = n + 1)"
    "(num_acquires x div 4 * 2 < a \<and> hwtimer_50p m = 0) = (unat a = n * 2 + 1)" "(num_acquires x div 4 * 3 < a \<and> hwtimer_75p m = 0) = (unat a = n * 3 + 1)"
    "(target_90p x < a \<and> hwtimer_90p m = 0) = (unat a = unat (target_90p x) + 1)"
    unfolding word_less_nat_alt q n_def [symmetric] using h by linarith+
  consider "unat a = unat (target_10p x) + 1" | "unat a = n + 1" | "unat a = n * 2 + 1" | "unat a = n * 3 + 1" | "unat a = unat (target_90p x) + 1"
    | "unat a \<notin> {unat (target_10p x) + 1, n + 1, n * 2 + 1, n * 3 + 1, unat (target_90p x) + 1}" by blast
  then show ?thesis unfolding update_timer_tick_progress_def milestones_ok_def Let_def c n_def [symmetric]
    by cases (use h i assms(3) in auto)
qed


lemma milestones_run:
  assumes x: "run_limit_ticks x = 0" "targets_increase x" and ls: "\<forall>l\<in>set ls. snd l \<noteq> 0"
  shows "milestones_ok x (unat (lock_acquires (ms_locals (run (measure_step A N x) ls (measure_start s)) t)))
    (hwtimers (ms_locals (run (measure_step A N x) ls (measure_start s)) t))"
proof -
  let ?J = "\<lambda>p v. locals_ok x p v \<and> milestones_ok x (unat (lock_acquires v)) (hwtimers v)"
  have n: "num_acquires x \<noteq> 0" using x(2) by (auto simp: targets_increase_def)
  have "?J p' v'" if "now \<noteq> 0" "?J p v" "measure_local A x l now s p v = (p', v')" for l now s p v p' v'
  proof
    show "locals_ok x p' v'" by (rule locals_ok_local [OF _ that(3)]) (use that(2) in simp)
    show "milestones_ok x (unat (lock_acquires v')) (hwtimers v')"
    proof (cases "p = MsPost")
      case True
      with that x(1) n have a: "lock_acquires v < num_acquires x" by (simp add: locals_ok_def counted_ok_def)
      from True that(3) x(1) have "lock_acquires v' = lock_acquires v + 1" "hwtimers v' = update_timer_tick_progress x now (lock_acquires v) (hwtimers v)"
        by (auto simp: measure_local_def measure_post_def)
      with update_milestones [OF x(2) _ that(1)] that(2) unat_succ [OF a] show ?thesis by simp
    next
      case False
      with that have "lock_acquires v' = lock_acquires v" "hwtimers v' = hwtimers v"
        by (cases p; auto simp: measure_local_def measure_defs measure_call_def Let_def split: if_splits)+
      with that show ?thesis by simp
    qed
  qed
  moreover have "?J MsStart hmr_locals_init" by (rule conjI [OF locals_ok_init]) (simp add: milestones_ok_def hmr_locals_init_def Let_def)
  ultimately have "?J (ms_pc (run (measure_step A N x) ls (measure_start s)) t) (ms_locals (run (measure_step A N x) ls (measure_start s)) t)"
    using ls by (intro locals_run [where J = ?J and Q = "\<lambda>now. now \<noteq> 0"]) blast+
  then show ?thesis by simp
qed

lemma short_run_no_90p:
  assumes x: "run_limit_ticks x = 0" "num_acquires x \<noteq> 0" "unat (num_acquires x) \<le> unat (target_90p x) + 1"
  shows "hwtimer_90p (hwtimers (ms_locals (run (measure_step A N x) ls (measure_start s)) t)) = 0"
proof -
  let ?J = "\<lambda>p v. locals_ok x p v \<and> hwtimer_90p (hwtimers v) = 0"
  have "?J p' v'" if "?J p v" "measure_local A x l now s p v = (p', v')" for l now s p v p' v'
  proof
    show "locals_ok x p' v'" by (rule locals_ok_local [OF _ that(2)]) (use that(1) in simp)
    show "hwtimer_90p (hwtimers v') = 0"
    proof (cases "p = MsPost")
      case True
      with that x(1,2) have "unat (lock_acquires v) < unat (num_acquires x)" by (simp add: locals_ok_def counted_ok_def word_less_nat_alt)
      then have "\<not> target_90p x < lock_acquires v" using x(3) by (simp add: word_less_nat_alt)
      with True that x(1) show ?thesis by (auto simp: measure_local_def measure_post_def update_timer_tick_progress_def Let_def)
    next
      case False
      with that show ?thesis by (cases p; auto simp: measure_local_def measure_defs measure_call_def Let_def split: if_splits)
    qed
  qed
  moreover have "?J MsStart hmr_locals_init" by (rule conjI [OF locals_ok_init]) (simp add: hmr_locals_init_def)
  ultimately have "?J (ms_pc (run (measure_step A N x) ls (measure_start s)) t) (ms_locals (run (measure_step A N x) ls (measure_start s)) t)"
    by (intro locals_run [where J = ?J and Q = "\<lambda>_. True"]) blast+
  then show ?thesis by simp
qed

text \<open>C30: the progress milestones of a counted measurement are all recorded exactly when it makes at least 11 acquisitions per
  thread. For fewer, the one for 90 percent is still 0 at the end, since the test comes before the increment, and the report
  subtracts the start time from it. The two targets the code computes in double are taken to be a tenth and nine tenths.\<close>

theorem milestones_need_11_acquires:
  assumes "run_limit_ticks x = 0" "unat (target_10p x) = unat (num_acquires x) div 10" "unat (target_90p x) = 9 * unat (num_acquires x) div 10"
    and "\<forall>l\<in>set ls. snd l \<noteq> 0" and "ms_pc (run (measure_step A N x) ls (measure_start s)) t = MsDone"
    and "m = hwtimers (ms_locals (run (measure_step A N x) ls (measure_start s)) t)"
  shows "(0 \<notin> {hwtimer_10p m, hwtimer_25p m, hwtimer_50p m, hwtimer_75p m, hwtimer_90p m}) \<longleftrightarrow> 11 \<le> unat (num_acquires x)"
proof -
  let ?n = "unat (num_acquires x)"
  have d: "num_acquires x \<noteq> 0" "lock_acquires (ms_locals (run (measure_step A N x) ls (measure_start s)) t) = num_acquires x"
    using locals_ok_run [of x A N ls s t] assms(1,5) by (simp_all add: locals_ok_def counted_ok_def)
  show ?thesis
  proof (cases "11 \<le> ?n")
    case True
    have b: "?n div 10 < ?n div 4" "0 < ?n div 4" "?n div 4 * 3 < 9 * ?n div 10" "9 * ?n div 10 + 1 < ?n" using True by linarith+
    then have "targets_increase x" by (simp add: targets_increase_def assms(2,3))
    from milestones_run [OF assms(1) this assms(4), of A N s t] have "milestones_ok x ?n m" by (simp add: d assms(6))
    with b True show ?thesis by (simp add: milestones_ok_def assms(2,3) Let_def)
  next
    case False
    then have "?n \<le> 9 * ?n div 10 + 1" by linarith
    then have "hwtimer_90p m = 0" using short_run_no_90p [OF assms(1) d(1), of A N ls s t] assms(3,6) by simp
    with False show ?thesis by simp
  qed
qed


text \<open>One thread that makes a single acquisition of the swap mutex; its clock reads 7 all the time.\<close>

theorem milestones_need_11_acquires_witness:
  "0 \<in> (let m = hwtimers (ms_locals (run (measure_step (swap_alg 1) 1 once) (replicate 6 (0, 7)) (measure_start swap_start)) 0)
     in {hwtimer_10p m, hwtimer_25p m, hwtimer_50p m, hwtimer_75p m, hwtimer_90p m})"
proof -
  let ?s = "run (measure_step (swap_alg 1) 1 once) (replicate 6 (0, 7)) (measure_start swap_start)"
  have "ms_pc ?s 0 = MsDone" by code_simp
  moreover have "unat (target_10p once) = unat (num_acquires once) div 10" "unat (target_90p once) = 9 * unat (num_acquires once) div 10"
    "run_limit_ticks once = 0" "\<not> 11 \<le> unat (num_acquires once)" by (simp_all add: once_def)
  ultimately show ?thesis
    using milestones_need_11_acquires [of once "replicate 6 (0, 7)" "swap_alg 1" 1 swap_start 0, OF _ _ _ _ _ refl] unfolding Let_def by simp
qed

end
