(* ===== verification/Command_Line.thy ===== *)
theory Command_Line
  imports Complex_Main Placement Lock_Memory Cpu_Frequency Delays Experiment
begin

text \<open>
  From the command line to the measurements: the options of \<open>parse_args\<close> (\<open>args.c\<close>), the checks of \<open>main\<close> (\<open>lockhammer.c\<close>), and its loops over the
  placements, the critical and parallel durations and the iterations. The options are those \<open>getopt_long\<close> returns, with their arguments. What the
  code computes in double is a parameter: the value \<open>strtod\<close> gives for \<open>-D\<close>, and the number of ticks for it.
\<close>

section \<open>Options\<close>

record duration =
  dur_t :: u64
  dur_unit :: units

record test_args =
  a_num_acquires :: u64
  a_crits :: "duration list"
  a_pars :: "duration list"
  a_scheduling_policy :: int
  a_pinorders :: "pinorder list"
  a_timeout_usec :: u64
  a_hugepagesz :: int
  a_use_mmap :: bool
  a_mmap_hugepage_offset_exists :: bool
  a_print_hugepage_physaddr :: bool
  a_mmap_hugepage_offset :: u64
  a_mmap_hugepage_physaddr :: u64
  a_hwtimer_frequency :: u64
  a_estimate_hwtimer_freq_cpu :: u64
  a_run_limit_seconds :: rat
  a_run_limit_ticks :: u64
  a_run_limit_inner_loop_iters :: u64
  a_ignore_unknown_scaling_governor :: bool
  a_suppress_cpu_frequency_warnings :: bool
  a_cpuorder_filename :: "string option"
  a_json_output_filename :: "string option"
  a_disable_outline_atomics_lse :: bool
  a_tag :: "string option"
  a_verbose :: nat
  a_iterations :: u64
  a_blackhole_numtries :: u64

text \<open>The defaults that \<open>main\<close> sets.\<close>

definition default_args :: test_args where
  "default_args = \<lparr>a_num_acquires = 0, a_crits = [], a_pars = [], a_scheduling_policy = 0, a_pinorders = [], a_timeout_usec = 0, a_hugepagesz = 0,
     a_use_mmap = False, a_mmap_hugepage_offset_exists = False, a_print_hugepage_physaddr = False, a_mmap_hugepage_offset = 0, a_mmap_hugepage_physaddr = 0,
     a_hwtimer_frequency = 0, a_estimate_hwtimer_freq_cpu = - 1, a_run_limit_seconds = 0, a_run_limit_ticks = 0, a_run_limit_inner_loop_iters = 10,
     a_ignore_unknown_scaling_governor = False, a_suppress_cpu_frequency_warnings = False, a_cpuorder_filename = None, a_json_output_filename = None,
     a_disable_outline_atomics_lse = False, a_tag = None, a_verbose = 1, a_iterations = 1, a_blackhole_numtries = 15\<rparr>"

datatype cmd_option =
    Opt_timeout_usecs string | Opt_a string | Opt_parallel_nanoseconds string | Opt_parallel_instructions string
  | Opt_critical_nanoseconds string | Opt_critical_instructions string | Opt_c string | Opt_p string | Opt_n string | Opt_t string | Opt_o string
  | Opt_S string | Opt_D string | Opt_O string | Opt_I string | Opt_M string | Opt_hugepage_offset string | Opt_hugepage_physaddr string
  | Opt_print_hugepage_physaddr | Opt_hwtimer_frequency string | Opt_json string | Opt_Y | Opt_Z | Opt_estimate_hwtimer_freq_cpu string | Opt_C string
  | Opt_more_verbose | Opt_blackhole_numtries string | Opt_disable_outline_atomics_lse | Opt_T string | Opt_v | Opt_unknown | Opt_missing | Opt_h

definition duration_parse_error :: "string \<Rightarrow> string \<Rightarrow> bool" where
  "duration_parse_error endptr optarg \<longleftrightarrow> endptr \<noteq> [] \<and> (if endptr = ''ns'' \<or> endptr = ''in'' then optarg = endptr else True)"

text \<open>The body of \<open>-c\<close> and of \<open>-p\<close>.\<close>

definition parse_duration :: "string \<Rightarrow> pin_error + duration" where
  "parse_duration optarg = (case strtoul optarg 10 of (optval, endptr, _) \<Rightarrow>
     if duration_parse_error endptr optarg then Inl (Exit (- 1))
     else Inr \<lparr>dur_t = optval, dur_unit = if endptr = ''ns'' then NS else INSTS\<rparr>)"

definition scheduling_policy_map :: "(string \<times> int) list" where
  "scheduling_policy_map = [(''NOT SET'', - 1), (''FIFO'', 1), (''RR'', 2), (''OTHER'', 0)]"

definition parse_scheduling_policy :: "string \<Rightarrow> pin_error + int" where
  "parse_scheduling_policy optarg = (case find (\<lambda>(name, _). strcasecmp_equal optarg name) scheduling_policy_map of
     Some (_, v) \<Rightarrow> Inr v | None \<Rightarrow> Inl (Exit (- 1)))"

abbreviation map_result :: "('a \<Rightarrow> 'b) \<Rightarrow> pin_error + 'a \<Rightarrow> pin_error + 'b" where
  "map_result f r \<equiv> case r of Inl e \<Rightarrow> Inl e | Inr x \<Rightarrow> Inr (f x)"

abbreviation strtoul_value :: "string \<Rightarrow> nat \<Rightarrow> u64" where
  "strtoul_value s b \<equiv> fst (strtoul s b)"

text \<open>One round of the loop of \<open>parse_args\<close>.\<close>

fun parse_option :: "(string \<Rightarrow> rat) \<Rightarrow> system_info \<Rightarrow> cmd_option \<Rightarrow> test_args \<Rightarrow> pin_error + test_args" where
  "parse_option strtod si (Opt_timeout_usecs s) a = Inr (a\<lparr>a_timeout_usec := strtoul_value s 0\<rparr>)"
| "parse_option strtod si (Opt_a s) a = (case strtoul s 10 of (optval, endptr, _) \<Rightarrow>
     if \<not> (s \<noteq> [] \<and> endptr = []) then Inl (Exit (- 1)) else Inr (a\<lparr>a_num_acquires := optval\<rparr>))"
| "parse_option strtod si (Opt_parallel_nanoseconds s) a = Inr (a\<lparr>a_pars := a_pars a @ [\<lparr>dur_t = strtoul_value s 10, dur_unit = NS\<rparr>]\<rparr>)"
| "parse_option strtod si (Opt_parallel_instructions s) a = Inr (a\<lparr>a_pars := a_pars a @ [\<lparr>dur_t = strtoul_value s 10, dur_unit = INSTS\<rparr>]\<rparr>)"
| "parse_option strtod si (Opt_critical_nanoseconds s) a = Inr (a\<lparr>a_crits := a_crits a @ [\<lparr>dur_t = strtoul_value s 10, dur_unit = NS\<rparr>]\<rparr>)"
| "parse_option strtod si (Opt_critical_instructions s) a = Inr (a\<lparr>a_crits := a_crits a @ [\<lparr>dur_t = strtoul_value s 10, dur_unit = INSTS\<rparr>]\<rparr>)"
| "parse_option strtod si (Opt_c s) a = map_result (\<lambda>d. a\<lparr>a_crits := a_crits a @ [d]\<rparr>) (parse_duration s)"
| "parse_option strtod si (Opt_p s) a = map_result (\<lambda>d. a\<lparr>a_pars := a_pars a @ [d]\<rparr>) (parse_duration s)"
| "parse_option strtod si (Opt_n s) a = Inr (a\<lparr>a_iterations := strtoul_value s 10\<rparr>)"
| "parse_option strtod si (Opt_t s) a = map_result (\<lambda>po. a\<lparr>a_pinorders := a_pinorders a @ [po]\<rparr>) (pinorder_t (num_online_cores si) s)"
| "parse_option strtod si (Opt_o s) a = map_result (\<lambda>po. a\<lparr>a_pinorders := a_pinorders a @ [po]\<rparr>) (pinorder_o (num_cores si) s)"
| "parse_option strtod si (Opt_S s) a = map_result (\<lambda>v. a\<lparr>a_scheduling_policy := v\<rparr>) (parse_scheduling_policy s)"
| "parse_option strtod si (Opt_D s) a = Inr (a\<lparr>a_run_limit_seconds := strtod s\<rparr>)"
| "parse_option strtod si (Opt_O s) a = Inr (a\<lparr>a_run_limit_ticks := strtoul_value s 0\<rparr>)"
| "parse_option strtod si (Opt_I s) a = Inr (a\<lparr>a_run_limit_inner_loop_iters := strtoul_value s 0\<rparr>)"
| "parse_option strtod si (Opt_M s) a = map_result (\<lambda>v. a\<lparr>a_use_mmap := True, a_hugepagesz := v\<rparr>) (parse_hugepage_parameter s)"
| "parse_option strtod si (Opt_hugepage_offset s) a = Inr (a\<lparr>a_mmap_hugepage_offset_exists := True, a_mmap_hugepage_offset := strtoul_value s 0\<rparr>)"
| "parse_option strtod si (Opt_hugepage_physaddr s) a = Inr (a\<lparr>a_mmap_hugepage_physaddr := strtoul_value s 0\<rparr>)"
| "parse_option strtod si Opt_print_hugepage_physaddr a = Inr (a\<lparr>a_print_hugepage_physaddr := True\<rparr>)"
| "parse_option strtod si (Opt_hwtimer_frequency s) a = Inr (a\<lparr>a_hwtimer_frequency := strtoul_value s 0\<rparr>)"
| "parse_option strtod si (Opt_json s) a = Inr (a\<lparr>a_json_output_filename := Some s\<rparr>)"
| "parse_option strtod si Opt_Y a = Inr (a\<lparr>a_ignore_unknown_scaling_governor := True\<rparr>)"
| "parse_option strtod si Opt_Z a = Inr (a\<lparr>a_suppress_cpu_frequency_warnings := True\<rparr>)"
| "parse_option strtod si (Opt_estimate_hwtimer_freq_cpu s) a = Inr (a\<lparr>a_estimate_hwtimer_freq_cpu := strtoul_value s 0\<rparr>)"
| "parse_option strtod si (Opt_C s) a = Inr (a\<lparr>a_cpuorder_filename := Some s\<rparr>)"
| "parse_option strtod si Opt_more_verbose a = Inr (a\<lparr>a_verbose := 3\<rparr>)"
| "parse_option strtod si (Opt_blackhole_numtries s) a = Inr (a\<lparr>a_blackhole_numtries := strtoul_value s 0\<rparr>)"
| "parse_option strtod si Opt_disable_outline_atomics_lse a = Inr (a\<lparr>a_disable_outline_atomics_lse := True\<rparr>)"
| "parse_option strtod si (Opt_T s) a = Inr (a\<lparr>a_tag := Some s\<rparr>)"
| "parse_option strtod si Opt_v a = Inr (a\<lparr>a_verbose := if a_verbose a \<ge> 2 then 3 else 2\<rparr>)"
| "parse_option strtod si Opt_unknown a = Inl (Exit (- 1))"
| "parse_option strtod si Opt_missing a = Inl (Exit (- 1))"
| "parse_option strtod si Opt_h a = Inl (Exit (- 1))"

fun parse_options :: "(string \<Rightarrow> rat) \<Rightarrow> system_info \<Rightarrow> cmd_option list \<Rightarrow> test_args \<Rightarrow> pin_error + test_args" where
  "parse_options strtod si [] a = Inr a"
| "parse_options strtod si (opt # opts) a = (case parse_option strtod si opt a of Inl e \<Rightarrow> Inl e | Inr a' \<Rightarrow> parse_options strtod si opts a')"

text \<open>What the program gets from its command line: \<open>argc\<close>, which counts the name of the program, the options \<open>getopt_long\<close> returns, \<open>optind\<close> at the
  end, and \<open>this_arg\<close>, the argument at \<open>optind\<close> before the last call, \<open>None\<close> for the null pointer at the end of \<open>argv\<close>.\<close>

record command =
  cmd_argc :: nat
  cmd_opts :: "cmd_option list"
  cmd_optind :: nat
  cmd_this_arg :: "string option"

text \<open>Arguments are required, and none may be left over that does not stand behind \<open>--\<close>.\<close>

definition parse_args :: "(string \<Rightarrow> rat) \<Rightarrow> system_info \<Rightarrow> command \<Rightarrow> test_args \<Rightarrow> pin_error + test_args" where
  "parse_args strtod si cmd a = (if cmd_argc cmd = 1 then Inl (Exit (- 1)) else
     (case parse_options strtod si (cmd_opts cmd) a of Inl e \<Rightarrow> Inl e
      | Inr a' \<Rightarrow> if cmd_argc cmd > cmd_optind cmd \<and> cmd_this_arg cmd \<noteq> None \<and> cmd_this_arg cmd \<noteq> Some ''--'' then Inl (Exit (- 1)) else Inr a'))"

section \<open>The checks of \<open>main\<close>\<close>

text \<open>The run limits: one of \<open>-a\<close>, \<open>-D\<close> and \<open>-O\<close>. \<open>is_root\<close> is \<open>geteuid() == 0\<close>.\<close>

definition check_args :: "bool \<Rightarrow> test_args \<Rightarrow> bool" where
  "check_args is_root a \<longleftrightarrow> a_crits a \<noteq> [] \<and> a_pars a \<noteq> [] \<and> \<not> (a_run_limit_seconds a \<noteq> 0 \<and> a_run_limit_ticks a \<noteq> 0) \<and>
     \<not> ((a_run_limit_seconds a \<noteq> 0 \<or> a_run_limit_ticks a \<noteq> 0) \<and> a_num_acquires a \<noteq> 0) \<and>
     \<not> (a_num_acquires a = 0 \<and> \<not> (a_run_limit_seconds a \<noteq> 0 \<or> a_run_limit_ticks a \<noteq> 0)) \<and>
     \<not> (a_mmap_hugepage_physaddr a \<noteq> 0 \<and> (\<not> is_root \<or> \<not> a_use_mmap a))"

text \<open>\<open>ticks s\<close> is \<open>(unsigned long)(s * counter_frequency)\<close>.\<close>

definition set_run_limit :: "(rat \<Rightarrow> u64) \<Rightarrow> test_args \<Rightarrow> test_args" where
  "set_run_limit ticks a = (if a_run_limit_seconds a \<noteq> 0 then a\<lparr>a_run_limit_ticks := ticks (a_run_limit_seconds a)\<rparr> else a)"

definition set_pinorders :: "system_info \<Rightarrow> test_args \<Rightarrow> test_args" where
  "set_pinorders si a = (if a_pinorders a = [] then a\<lparr>a_pinorders := [\<lparr>cpu_list = None, po_num_threads = of_nat (num_avail_cores si), ileave = 0\<rparr>]\<rparr> else a)"

text \<open>\<open>po->num_threads\<close> after the loop that makes the CPU lists.\<close>

definition pinorder_threads :: "system_info \<Rightarrow> pinorder \<Rightarrow> nat" where
  "pinorder_threads si po = (if po_num_threads po = 0 then num_avail_cores si else unat (po_num_threads po))"

fun place_pinorders :: "system_info \<Rightarrow> u64 list \<Rightarrow> pinorder list \<Rightarrow> pin_error + (nat \<times> nat list) list" where
  "place_pinorders si ord [] = Inr []"
| "place_pinorders si ord (po # pos) = (case generate_cpu_list si ord po of Inl e \<Rightarrow> Inl e
   | Inr cpus \<Rightarrow> map_result (\<lambda>ps. (pinorder_threads si po, cpus) # ps) (place_pinorders si ord pos))"

text \<open>The CPU of thread \<open>i\<close>; \<open>None\<close> is a read behind the end of the list.\<close>

definition run_on_this_cpu :: "nat list \<Rightarrow> nat \<Rightarrow> nat option" where
  "run_on_this_cpu cpus i = (if i < length cpus then Some (cpus ! i) else None)"

section \<open>The measurements\<close>

text \<open>What a thread is given: \<open>thread_args[i]\<close>; and one call of \<open>run_one_experiment\<close>.\<close>

record thread_setup =
  ts_thread_num :: nat
  ts_num_threads :: nat
  ts_cpu :: "nat option"
  ts_args :: thread_args
  ts_delays :: delay_args
  ts_numtries :: u64

record measurement =
  me_threads :: "thread_setup list"
  me_meas_number :: nat
  me_test_number :: nat
  me_iteration :: nat

text \<open>\<open>p10\<close> and \<open>p90\<close> are the products with 0.1 and 0.9 that the threads compute in double.\<close>

definition thread_setup_of :: "(u64 \<Rightarrow> u64) \<Rightarrow> (u64 \<Rightarrow> u64) \<Rightarrow> test_args \<Rightarrow> nat \<times> nat list \<Rightarrow> duration \<Rightarrow> duration \<Rightarrow> nat \<Rightarrow> thread_setup" where
  "thread_setup_of p10 p90 a p crit par i =
     \<lparr>ts_thread_num = i, ts_num_threads = fst p, ts_cpu = run_on_this_cpu (snd p) i,
      ts_args = \<lparr>num_acquires = a_num_acquires a, run_limit_ticks = a_run_limit_ticks a, run_limit_inner_loop_iters = a_run_limit_inner_loop_iters a,
        target_10p = p10 (a_num_acquires a), target_90p = p90 (a_num_acquires a)\<rparr>,
      ts_delays = \<lparr>hold = dur_t crit, post = dur_t par, hold_unit = dur_unit crit, post_unit = dur_unit par, hold_count = 0, post_count = 0\<rparr>,
      ts_numtries = a_blackhole_numtries a\<rparr>"

text \<open>A \<open>for\<close> loop over a list whose body has a result and changes the counters.\<close>

fun for_each :: "('i \<Rightarrow> 'c \<Rightarrow> 'r list \<times> 'c) \<Rightarrow> 'i list \<Rightarrow> 'c \<Rightarrow> 'r list \<times> 'c" where
  "for_each body [] c = ([], c)"
| "for_each body (i # is') c = (case body i c of (rs, c') \<Rightarrow> case for_each body is' c' of (rs', c'') \<Rightarrow> (rs @ rs', c''))"

text \<open>The nested loops of \<open>main\<close>, with \<open>measurement_counter\<close> and \<open>test_counter\<close>.\<close>

definition measurement_loops :: "(nat \<times> nat list \<Rightarrow> duration \<Rightarrow> duration \<Rightarrow> nat \<Rightarrow> thread_setup) \<Rightarrow> (nat \<times> nat list) list \<Rightarrow> duration list \<Rightarrow> duration list \<Rightarrow> nat \<Rightarrow>
    nat \<times> nat \<Rightarrow> measurement list \<times> nat \<times> nat" where
  "measurement_loops prepare ps crits pars iterations =
     for_each (\<lambda>p. for_each (\<lambda>crit. for_each (\<lambda>par (measurement_counter, test_counter).
       for_each (\<lambda>iteration (measurement_counter, test_counter).
           ([\<lparr>me_threads = map (prepare p crit par) [0..<fst p], me_meas_number = measurement_counter + 1, me_test_number = test_counter, me_iteration = iteration\<rparr>],
            (measurement_counter + 1, test_counter)))
         [1..<Suc iterations] (measurement_counter, test_counter + 1)) pars) crits) ps"

text \<open>The environment of the program: the functions computed in double, the root user, the file of \<open>-C\<close>, the files under \<open>/sys\<close>, the answers of \<open>mmap\<close>, \<open>munmap\<close> and
  \<open>posix_memalign\<close>, the size of a page, and the translation of addresses.\<close>

record main_env =
  env_strtod :: "string \<Rightarrow> rat"
  env_ticks :: "rat \<Rightarrow> u64"
  env_10p :: "u64 \<Rightarrow> u64"
  env_90p :: "u64 \<Rightarrow> u64"
  env_root :: bool
  env_cpu_order :: "string \<Rightarrow> u64 list option"
  env_files :: "string \<Rightarrow> string option"
  env_mmap :: "nat \<Rightarrow> u64 option"
  env_munmap :: "u64 \<Rightarrow> bool"
  env_aligned :: "u64 option"
  env_pagesize :: u64
  env_virt_to_phys :: "u64 \<Rightarrow> u64 option"

definition env_phys :: "main_env \<Rightarrow> phys_cache \<Rightarrow> u64 \<Rightarrow> pin_error + (u64 \<times> phys_cache)" where
  "env_phys env = get_phys_addr (env_pagesize env) (env_root env) (env_virt_to_phys env)"

definition read_cpu_order :: "main_env \<Rightarrow> test_args \<Rightarrow> pin_error + u64 list" where
  "read_cpu_order env a = (case a_cpuorder_filename a of None \<Rightarrow> Inr []
   | Some fn \<Rightarrow> (case env_cpu_order env fn of None \<Rightarrow> Inl (Exit (- 1))
       | Some ord \<Rightarrow> if length ord > MAXTHREADS then Inl Overrun else Inr ord))"

text \<open>The rest of \<open>main\<close>, from the placement on.\<close>

definition run_measurements :: "main_env \<Rightarrow> system_info \<Rightarrow> test_args \<Rightarrow> pin_error + measurement list" where
  "run_measurements env si a = (case read_cpu_order env a of Inl e \<Rightarrow> Inl e | Inr ord \<Rightarrow>
     (case place_pinorders si ord (a_pinorders (set_pinorders si a)) of Inl e \<Rightarrow> Inl e | Inr ps \<Rightarrow>
       (case check_frequencies (env_files env) (a_ignore_unknown_scaling_governor a) ps of Inl e \<Rightarrow> Inl e | Inr _ \<Rightarrow>
         Inr (fst (measurement_loops (thread_setup_of (env_10p env) (env_90p env) a) ps (a_crits a) (a_pars a) (unat (a_iterations a)) (0, 0))))))"

text \<open>With \<open>--print-hugepage-physaddr\<close>: a huge page is mapped and its address printed.\<close>

definition print_physaddr :: "main_env \<Rightarrow> test_args \<Rightarrow> pin_error + measurement list" where
  "print_physaddr env a = (if a_hugepagesz a = HUGEPAGES_NONE \<or> \<not> env_root env then Inl (Exit (- 1)) else
     (case do_hugepage_alloc (env_mmap env) (env_munmap env) (env_phys env) (a_hugepagesz a) (a_mmap_hugepage_physaddr a) phys_cache_init of Inl e \<Rightarrow> Inl e
      | Inr (va, _) \<Rightarrow> map_result (\<lambda>_. []) (env_phys env phys_cache_init va)))"

text \<open>The whole of \<open>main\<close>: the measurements it makes, none when it only estimates the frequency of the timer or prints an address. The parser for the arguments behind
  \<open>--\<close> belongs to the lock.\<close>

definition lockhammer_main :: "main_env \<Rightarrow> system_info \<Rightarrow> command \<Rightarrow> pin_error + measurement list" where
  "lockhammer_main env si cmd = (case parse_args (env_strtod env) si cmd default_args of Inl e \<Rightarrow> Inl e | Inr a \<Rightarrow>
     if a_estimate_hwtimer_freq_cpu a \<noteq> - 1 then Inr []
     else if a_print_hugepage_physaddr a then print_physaddr env a
     else if \<not> check_args (env_root env) a then Inl (Exit (- 1))
     else (case do_alloc (env_mmap env) (env_munmap env) (env_aligned env) (env_phys env) (a_hugepagesz a) (a_mmap_hugepage_physaddr a) phys_cache_init of Inl e \<Rightarrow> Inl e
       | Inr _ \<Rightarrow> run_measurements env si (set_run_limit (env_ticks env) a)))"

end
