(* ===== verification/Command_Correct.thy ===== *)
theory Command_Correct
  imports Command_Line
begin

text \<open>
  What a command line means: the durations and placements that are written on it are those of the measurements, which are made in the order of the nested loops and
  numbered from 1; and every measurement that an accepted command line leads to can be completed, except for a run limit that is too short
  to be a tick of the timer, with which the measurement never ends.
\<close>

section \<open>Loops\<close>

text \<open>A loop whose body has \<open>L\<close> results and changes the counters by \<open>f\<close>.\<close>

lemma for_each_nth:
  assumes "\<And>i c. i \<in> set xs \<Longrightarrow> length (fst (body i c)) = L \<and> snd (body i c) = f c"
  shows "length (fst (for_each body xs c)) = length xs * L \<and> snd (for_each body xs c) = (f ^^ length xs) c \<and>
    (\<forall>k < length xs * L. fst (for_each body xs c) ! k = fst (body (xs ! (k div L)) ((f ^^ (k div L)) c)) ! (k mod L))"
  using assms
proof (induction xs arbitrary: c)
  case (Cons x xs)
  let ?r = "for_each body xs (f c)"
  have b: "length (fst (body x c)) = L" "snd (body x c) = f c" using Cons.prems by simp_all
  have e: "for_each body (x # xs) c = (fst (body x c) @ fst ?r, snd ?r)" using b(2) by (cases "body x c"; cases ?r) simp
  have ih: "length (fst ?r) = length xs * L" "snd ?r = (f ^^ length xs) (f c)"
    "\<And>k. k < length xs * L \<Longrightarrow> fst ?r ! k = fst (body (xs ! (k div L)) ((f ^^ (k div L)) (f c))) ! (k mod L)"
    using Cons.IH [of "f c"] Cons.prems by auto
  have "(fst (body x c) @ fst ?r) ! k = fst (body ((x # xs) ! (k div L)) ((f ^^ (k div L)) c)) ! (k mod L)" if k: "k < length (x # xs) * L" for k
  proof (cases "k < L")
    case True
    then show ?thesis using b by (simp add: nth_append)
  next
    case False
    moreover have "0 < L" using k by (cases L) simp_all
    ultimately have "k div L = Suc ((k - L) div L)" "k mod L = (k - L) mod L" "k - L < length xs * L" using k by (simp_all add: le_div_geq le_mod_geq)
    then show ?thesis using False b ih(3) [of "k - L"] by (simp add: nth_append funpow_swap1)
  qed
  then show ?case unfolding e using b ih by (simp add: funpow_swap1)
qed simp

text \<open>The counters of measurements and tests advance by \<open>a\<close> and \<open>b\<close>.\<close>

definition advance :: "nat \<Rightarrow> nat \<Rightarrow> nat \<times> nat \<Rightarrow> nat \<times> nat" where
  "advance a b c = (fst c + a, snd c + b)"

lemma advance_funpow: "(advance a b ^^ n) (m, t) = (m + n * a, t + n * b)"
  by (induction n) (simp_all add: advance_def algebra_simps)

lemma for_each_counters:
  assumes "\<And>i c. i \<in> set xs \<Longrightarrow> length (fst (body i c)) = L \<and> snd (body i c) = advance a b c"
  shows "length (fst (for_each body xs c)) = length xs * L" "snd (for_each body xs c) = advance (length xs * a) (length xs * b) c"
    "k < length xs * L \<Longrightarrow> fst (for_each body xs (m, t)) ! k = fst (body (xs ! (k div L)) (m + k div L * a, t + k div L * b)) ! (k mod L)"
  using for_each_nth [of xs body L "advance a b" c, OF assms] for_each_nth [of xs body L "advance a b" "(m, t)", OF assms] advance_funpow [of "length xs" a b "fst c" "snd c"]
  by (simp_all add: advance_funpow advance_def)

lemma div_parts: "(k mod (c * m)) div m = k div m mod c" "(k mod (c * m)) mod m = k mod m" if "0 < m" for k c m :: nat
  using that by (simp_all add: mult.commute [of c m] mod_mult2_eq)

text \<open>The \<open>k\<close>-th measurement, counted from 0.\<close>

definition nth_measurement :: "(nat \<times> nat list \<Rightarrow> duration \<Rightarrow> duration \<Rightarrow> nat \<Rightarrow> thread_setup) \<Rightarrow> (nat \<times> nat list) list \<Rightarrow> duration list \<Rightarrow> duration list \<Rightarrow>
    nat \<Rightarrow> nat \<Rightarrow> measurement" where
  "nth_measurement prepare ps crits pars n k =
     (let p = ps ! (k div (length crits * (length pars * n))); crit = crits ! (k div (length pars * n) mod length crits); par = pars ! (k div n mod length pars)
      in \<lparr>me_threads = map (prepare p crit par) [0..<fst p], me_meas_number = k + 1, me_test_number = k div n + 1, me_iteration = k mod n + 1\<rparr>)"

lemma measurement_loops_nth:
  assumes ms_def: "ms = fst (measurement_loops prepare ps crits pars n (0, 0))"
  shows "length ms = length ps * (length crits * (length pars * n))" "k < length ms \<Longrightarrow> ms ! k = nth_measurement prepare ps crits pars n k"
proof -
  define C R where "C = length crits" and "R = length pars"
  define it where "it p crit par = (\<lambda>iteration (mc :: nat, tc :: nat).
    ([\<lparr>me_threads = map (prepare p crit par) [0..<fst p], me_meas_number = mc + 1, me_test_number = tc, me_iteration = iteration\<rparr>], (mc + 1, tc)))" for p crit par
  define its where "its = [1..<Suc n]"
  define pr where "pr p crit = (\<lambda>par (mc, tc). for_each (it p crit par) its (mc, tc + 1))" for p crit
  define cr where "cr p = (\<lambda>crit. for_each (pr p crit) pars)" for p
  define pn where "pn = (\<lambda>p. for_each (cr p) crits)"
  have ms: "ms = fst (for_each pn ps (0, 0))" unfolding ms_def measurement_loops_def pn_def cr_def pr_def it_def its_def by simp
  have its: "length its = n" "\<And>j. j < n \<Longrightarrow> its ! j = j + 1" by (simp_all add: its_def del: upt_Suc)
  have i: "length (fst (it p crit par x c)) = 1 \<and> snd (it p crit par x c) = advance 1 0 c" for p crit par x c
    by (cases c) (simp add: it_def advance_def)
  note iL = for_each_counters [where body = "it p crit par" and xs = its and L = 1 and a = 1 and b = 0 for p crit par, OF i, unfolded its(1)]
  have p: "length (fst (pr p crit x c)) = n \<and> snd (pr p crit x c) = advance n 1 c" for p crit x c
    using iL(1,2) [of p crit x "advance 0 1 c"] by (cases c) (simp add: pr_def advance_def)
  have pk: "fst (pr p crit par (m, t)) ! j =
      \<lparr>me_threads = map (prepare p crit par) [0..<fst p], me_meas_number = m + j + 1, me_test_number = t + 1, me_iteration = j + 1\<rparr>" if "j < n" for p crit par m t j
    using iL(3) [of j p crit par m "t + 1"] that its(2) [OF that] by (simp add: pr_def) (simp add: it_def)
  note pL = for_each_counters [where body = "pr p crit" and xs = pars for p crit, OF p, folded R_def]
  have c: "length (fst (cr p x c)) = R * n \<and> snd (cr p x c) = advance (R * n) R c" for p x c
    using pL(1,2) [of p x c] by (simp add: cr_def)
  note cL = for_each_counters [where body = "cr p" and xs = crits for p, OF c, folded C_def]
  have q: "length (fst (pn x c)) = C * (R * n) \<and> snd (pn x c) = advance (C * (R * n)) (C * R) c" for x c
    using cL(1,2) [of x c] by (simp add: pn_def)
  note qL = for_each_counters [where body = pn and xs = ps, OF q]
  show l: "length ms = length ps * (length crits * (length pars * n))" using qL(1) by (simp add: ms C_def R_def)
  assume k: "k < length ms"
  then have n: "0 < n" "0 < R" "0 < C" using l by (auto simp: C_def R_def intro: gr0I)
  have kq: "k < length ps * (C * (R * n))" using k l by (simp add: C_def R_def)
  define a b d e where "a = k div (C * (R * n))" and "b = k div (R * n) mod C" and "d = k div n mod R" and "e = k mod n"
  have r: "k mod (C * (R * n)) div (R * n) = b" "k mod (C * (R * n)) mod (R * n) = k mod (R * n)" "k mod (R * n) div n = d" "k mod (R * n) mod n = e"
    using div_parts [of "R * n" k C] div_parts [of n k R] n by (simp_all add: b_def d_def e_def)
  have lt: "b < C" "d < R" "e < n" "k mod (C * (R * n)) < C * (R * n)" "k mod (R * n) < R * n" using n by (simp_all add: b_def d_def e_def)
  have sum: "a * (C * (R * n)) + b * (R * n) + d * n + e = k"
  proof -
    have "b * (R * n) + k mod (R * n) = k mod (C * (R * n))" using r(1,2) div_mult_mod_eq [of "k mod (C * (R * n))" "R * n"] by simp
    moreover have "d * n + e = k mod (R * n)" using r(3,4) div_mult_mod_eq [of "k mod (R * n)" n] by simp
    moreover have "a * (C * (R * n)) + k mod (C * (R * n)) = k" by (simp only: a_def div_mult_mod_eq)
    ultimately show ?thesis by linarith
  qed
  have tsum: "a * (C * R) + b * R + d = k div n"
  proof -
    have "k = n * (a * (C * R) + b * R + d) + e" using sum by (simp add: algebra_simps)
    then show ?thesis using lt(3) by simp
  qed
  have "ms ! k = fst (pn (ps ! a) (a * (C * (R * n)), a * (C * R))) ! (k mod (C * (R * n)))"
    using qL(3) [OF kq, of 0 0] by (simp add: ms a_def)
  also have "\<dots> = fst (cr (ps ! a) (crits ! b) (a * (C * (R * n)) + b * (R * n), a * (C * R) + b * R)) ! (k mod (R * n))"
    using cL(3) [OF lt(4), of "ps ! a" "a * (C * (R * n))" "a * (C * R)"] by (simp add: pn_def r)
  also have "\<dots> = fst (pr (ps ! a) (crits ! b) (pars ! d) (a * (C * (R * n)) + b * (R * n) + d * n, a * (C * R) + b * R + d)) ! e"
    using pL(3) [OF lt(5), of "ps ! a" "crits ! b" "a * (C * (R * n)) + b * (R * n)" "a * (C * R) + b * R"] by (simp add: cr_def r)
  also have "\<dots> = nth_measurement prepare ps crits pars n k"
    using lt(3) by (simp add: pk sum tsum nth_measurement_def Let_def a_def [unfolded C_def R_def, symmetric] b_def [unfolded C_def R_def, symmetric]
        d_def [unfolded R_def, symmetric] e_def [symmetric])
  finally show "ms ! k = nth_measurement prepare ps crits pars n k" .
qed

section \<open>What is written is what is read\<close>

definition show_duration :: "duration \<Rightarrow> string" where
  "show_duration d = decimal (unat (dur_t d)) @ (if dur_unit d = NS then ''ns'' else ''in'')"

lemma parse_show_duration: "dur_unit d \<noteq> NOT_SET \<Longrightarrow> parse_duration (show_duration d) = Inr d"
proof -
  assume u: "dur_unit d \<noteq> NOT_SET"
  let ?rest = "if dur_unit d = NS then ''ns'' else ''in''"
  have l: "unat (dur_t d) < 2 ^ 64" using unsigned_less [of "dur_t d"] by simp
  have "strtoul (show_duration d) 10 = (of_nat (unat (dur_t d)), ?rest, False)"
    unfolding show_duration_def by (rule strtoul_decimal) (use l in \<open>auto simp: digit_val_def\<close>)
  moreover have "show_duration d \<noteq> ?rest" using decimal_nonempty by (simp add: show_duration_def)
  moreover have "dur_unit d = (if ?rest = ''ns'' then NS else INSTS)" using u by (cases "dur_unit d") simp_all
  ultimately show ?thesis by (simp add: parse_duration_def duration_parse_error_def)
qed

lemma parse_options_append:
  "parse_options strtod si (xs @ ys) a = (case parse_options strtod si xs a of Inl e \<Rightarrow> Inl e | Inr a' \<Rightarrow> parse_options strtod si ys a')"
  by (induction xs arbitrary: a) (auto split: sum.split)

lemma parse_crits:
  "\<forall>d\<in>set cs. dur_unit d \<noteq> NOT_SET \<Longrightarrow> parse_options strtod si (map (\<lambda>d. Opt_c (show_duration d)) cs) a = Inr (a\<lparr>a_crits := a_crits a @ cs\<rparr>)"
  by (induction cs arbitrary: a) (simp_all add: parse_show_duration)

lemma parse_pars:
  "\<forall>d\<in>set ds. dur_unit d \<noteq> NOT_SET \<Longrightarrow> parse_options strtod si (map (\<lambda>d. Opt_p (show_duration d)) ds) a = Inr (a\<lparr>a_pars := a_pars a @ ds\<rparr>)"
  by (induction ds arbitrary: a) (simp_all add: parse_show_duration)

text \<open>The CPUs of a list of ranges, if it can be given to \<open>-o\<close> on a machine with \<open>n\<close> CPUs.\<close>

definition cpus_of :: "(nat \<times> nat \<times> nat) list \<Rightarrow> nat list" where
  "cpus_of rs = concat (map cpu_range rs)"

definition ranges_ok :: "nat \<Rightarrow> (nat \<times> nat \<times> nat) list \<Rightarrow> bool" where
  "ranges_ok n rs \<longleftrightarrow> rs \<noteq> [] \<and> (\<forall>r\<in>set rs. range_ok n r) \<and> distinct (cpus_of rs)"

definition pinorder_of :: "(nat \<times> nat \<times> nat) list \<Rightarrow> pinorder" where
  "pinorder_of rs = \<lparr>cpu_list = Some (map of_nat (cpus_of rs)), po_num_threads = of_nat (length (cpus_of rs)), ileave = 0\<rparr>"

lemma parse_pinorders:
  "num_cores si \<le> 1024 \<Longrightarrow> \<forall>rs\<in>set rss. ranges_ok (num_cores si) rs \<Longrightarrow>
   parse_options strtod si (map (\<lambda>rs. Opt_o (show_ranges rs)) rss) a = Inr (a\<lparr>a_pinorders := a_pinorders a @ map pinorder_of rss\<rparr>)"
proof (induction rss arbitrary: a)
  case (Cons rs rss)
  then have "pinorder_o (num_cores si) (show_ranges rs) = Inr (pinorder_of rs)"
    using pinorder_list_roundtrip [of rs "num_cores si"] by (simp add: ranges_ok_def pinorder_of_def cpus_of_def Let_def)
  with Cons show ?case by simp
qed simp

lemma cpus_of_bounds:
  assumes "ranges_ok n rs"
  shows "c \<in> set (cpus_of rs) \<Longrightarrow> c < n" "length (cpus_of rs) \<le> n" "cpus_of rs \<noteq> []"
proof -
  show b: "c < n" if "c \<in> set (cpus_of rs)" for c using that cpu_range_below assms by (fastforce simp: ranges_ok_def cpus_of_def)
  have "length (cpus_of rs) = card (set (cpus_of rs))" using assms by (simp add: ranges_ok_def distinct_card)
  also have "\<dots> \<le> card {..<n}" using b by (intro card_mono) auto
  finally show "length (cpus_of rs) \<le> n" by simp
  have r: "hd rs \<in> set rs" using assms by (simp add: ranges_ok_def)
  have "cpu_range (hd rs) \<noteq> []" using r assms by (auto simp: ranges_ok_def range_ok_def cpu_range_def range_up_def range_down_def split: prod.splits)
  with r show "cpus_of rs \<noteq> []" by (auto simp: cpus_of_def)
qed

lemma place_written:
  assumes "num_cores si \<le> MAXTHREADS" "\<forall>rs\<in>set rss. ranges_ok (num_cores si) rs"
  shows "place_pinorders si ord (map pinorder_of rss) = Inr (map (\<lambda>rs. (length (cpus_of rs), cpus_of rs)) rss)"
  using assms(2)
proof (induction rss)
  case (Cons rs rss)
  have ok: "ranges_ok (num_cores si) rs" using Cons.prems by simp
  have l: "length (cpus_of rs) \<le> 513" "0 < length (cpus_of rs)" using cpus_of_bounds [OF ok] assms(1) by (auto simp: MAXTHREADS_def)
  then have u: "unat (of_nat (length (cpus_of rs)) :: u64) = length (cpus_of rs)" by (simp add: unat_of_nat)
  then have t: "pinorder_threads si (pinorder_of rs) = length (cpus_of rs)" using l by (auto simp: pinorder_threads_def pinorder_of_def)
  have "map unat (map of_nat (cpus_of rs) :: u32 list) = cpus_of rs"
    using cpus_of_bounds(1) [OF ok] assms(1) by (fastforce intro!: map_idI simp: comp_def unat_of_nat MAXTHREADS_def)
  moreover have "\<not> MAXTHREADS < (if po_num_threads (pinorder_of rs) = 0 then num_avail_cores si else unat (po_num_threads (pinorder_of rs)))"
    using t l by (simp add: pinorder_threads_def MAXTHREADS_def)
  ultimately have "generate_cpu_list si ord (pinorder_of rs) = Inr (cpus_of rs)" by (simp add: generate_cpu_list_def Let_def) (simp add: pinorder_of_def)
  then show ?case using Cons t by simp
qed simp

section \<open>Properties\<close>

text \<open>The CPUs run at a fixed frequency.\<close>

definition frequency_ok :: "main_env \<Rightarrow> bool" where
  "frequency_ok env \<longleftrightarrow> get_boost_value (env_files env) = 0 \<and> (\<forall>cpu. steady_cpu (env_files env) cpu)"

text \<open>A command line that consists of options.\<close>

definition only_options :: "command \<Rightarrow> cmd_option list \<Rightarrow> bool" where
  "only_options cmd opts \<longleftrightarrow> cmd_opts cmd = opts \<and> cmd_argc cmd \<noteq> 1 \<and> cmd_argc cmd \<le> cmd_optind cmd"

lemma parse_only_options: "only_options cmd opts \<Longrightarrow> parse_args strtod si cmd a = parse_options strtod si opts a"
  by (auto simp: only_options_def parse_args_def split: sum.split)

text \<open>C11: a command line means what it says: written out in decimal, with \<open>-o\<close> for each list of CPU ranges, \<open>-c\<close> and \<open>-p\<close> for each duration in nanoseconds or
  instructions, \<open>-a\<close> and \<open>-n\<close>, it makes exactly one measurement for every CPU list, critical duration, parallel duration and iteration, in the order of nested loops; the
  \<open>k\<close>-th has number \<open>k + 1\<close>, one thread for every CPU of its list in the order of the list, and gives each of them the durations and the number of
  acquisitions of the command line. The CPU lists are such as the loops of \<open>-o\<close> can handle (\<open>ranges_ok\<close>): not empty, their CPUs exist and are distinct, the steps are between 1 and \<open>2 ^ 30\<close>, and no range counts downwards to 0 or
  to a CPU below its step, with which the loop would run over. The machine has at most \<open>MAXTHREADS\<close> CPUs, they run at a fixed frequency (otherwise \<open>main\<close> stops) and there is memory for the lock;
  the number of acquisitions is not 0 and there are fewer than \<open>2 ^ 64 - 1\<close> iterations, which would never end.\<close>

theorem command_line_means:
  assumes "num_cores si \<le> MAXTHREADS" "rss \<noteq> []" "\<forall>rs\<in>set rss. ranges_ok (num_cores si) rs"
    and "crits \<noteq> []" "pars \<noteq> []" "\<forall>d\<in>set (crits @ pars). dur_unit d \<noteq> NOT_SET"
    and "0 < num" "num < 2 ^ 64" "n < 2 ^ 64 - 1" "frequency_ok env" "env_aligned env \<noteq> None"
    and "only_options cmd (map (\<lambda>rs. Opt_o (show_ranges rs)) rss @ map (\<lambda>d. Opt_c (show_duration d)) crits @ map (\<lambda>d. Opt_p (show_duration d)) pars @
      [Opt_a (decimal num), Opt_n (decimal n)])"
  shows "\<exists>ms. lockhammer_main env si cmd = Inr ms \<and> length ms = length rss * (length crits * (length pars * n)) \<and>
    (\<forall>k<length ms. let cpus = cpus_of (rss ! (k div (length crits * (length pars * n)))); m = ms ! k in
      me_meas_number m = k + 1 \<and> me_test_number m = k div n + 1 \<and> me_iteration m = k mod n + 1 \<and> map ts_cpu (me_threads m) = map Some cpus \<and>
      (\<forall>t\<in>set (me_threads m). ts_num_threads t = length cpus \<and> num_acquires (ts_args t) = of_nat num \<and> run_limit_ticks (ts_args t) = 0 \<and>
        (let crit = crits ! (k div (length pars * n) mod length crits); par = pars ! (k div n mod length pars) in
         hold (ts_delays t) = dur_t crit \<and> hold_unit (ts_delays t) = dur_unit crit \<and> post (ts_delays t) = dur_t par \<and> post_unit (ts_delays t) = dur_unit par)))"
proof -
  let ?ps = "map (\<lambda>rs. (length (cpus_of rs), cpus_of rs)) rss"
  define a where "a = default_args\<lparr>a_pinorders := map pinorder_of rss, a_crits := crits, a_pars := pars, a_num_acquires := of_nat num, a_iterations := of_nat n\<rparr>"
  have "num_cores si \<le> 1024" using assms(1) by (simp add: MAXTHREADS_def)
  moreover have "strtoul (decimal num) 10 = (of_nat num, [], False)" "strtoul (decimal n) 10 = (of_nat n, [], False)"
    using strtoul_decimal [of "[]" 10 num] strtoul_decimal [of "[]" 10 n] assms(8,9) by simp_all
  ultimately have "parse_args (env_strtod env) si cmd default_args = Inr a"
    using assms(3,6) decimal_nonempty parse_only_options [OF assms(12)]
    by (simp add: parse_options_append parse_pinorders parse_crits parse_pars a_def) (simp add: default_args_def)
  moreover have u: "(of_nat num :: u64) \<noteq> 0" "unat (of_nat n :: u64) = n" using assms(7-9) by (simp_all add: word_unat_eq_iff unat_of_nat)
  moreover have "set_run_limit (env_ticks env) a = a" "a_estimate_hwtimer_freq_cpu a = - 1" "\<not> a_print_hugepage_physaddr a"
    by (simp_all add: set_run_limit_def a_def default_args_def)
  moreover have "check_args (env_root env) a" using assms(4,5) u by (simp add: check_args_def a_def default_args_def)
  moreover have "a_hugepagesz a = HUGEPAGES_NONE" by (simp add: a_def default_args_def HUGEPAGES_NONE_def)
  ultimately have "lockhammer_main env si cmd = run_measurements env si a" using assms(11) by (auto simp: lockhammer_main_def do_alloc_def)
  moreover have "read_cpu_order env a = Inr []" "a_pinorders (set_pinorders si a) = map pinorder_of rss"
    using assms(2) by (simp_all add: read_cpu_order_def set_pinorders_def a_def default_args_def)
  moreover have "fst (hd ?ps) \<noteq> 0" using assms(2,3) cpus_of_bounds(3) by (cases rss) auto
  then have "check_frequencies (env_files env) False ?ps = Inr ()"
    using assms(10) by (subst check_frequencies_iff) (auto simp: frequency_ok_def)
  ultimately have m: "lockhammer_main env si cmd =
      Inr (fst (measurement_loops (thread_setup_of (env_10p env) (env_90p env) a) ?ps crits pars n (0, 0)))"
    using place_written [OF assms(1,3)] u by (simp add: run_measurements_def a_def) (simp add: default_args_def)
  define ms where "ms = fst (measurement_loops (thread_setup_of (env_10p env) (env_90p env) a) ?ps crits pars n (0, 0))"
  note l = measurement_loops_nth [OF ms_def]
  have cpus: "map (run_on_this_cpu cpus) [0..<length cpus] = map Some cpus" for cpus
    by (rule nth_equalityI) (simp_all add: run_on_this_cpu_def)
  have idx: "k div (length crits * (length pars * n)) < length rss" if "k < length ms" for k
    using that l(1) by (simp add: less_mult_imp_div_less)
  show ?thesis
    unfolding m ms_def [symmetric]
  proof (intro exI conjI allI impI)
    fix k
    assume k: "k < length ms"
    show "let cpus = cpus_of (rss ! (k div (length crits * (length pars * n)))); m = ms ! k in
      me_meas_number m = k + 1 \<and> me_test_number m = k div n + 1 \<and> me_iteration m = k mod n + 1 \<and> map ts_cpu (me_threads m) = map Some cpus \<and>
      (\<forall>t\<in>set (me_threads m). ts_num_threads t = length cpus \<and> num_acquires (ts_args t) = of_nat num \<and> run_limit_ticks (ts_args t) = 0 \<and>
        (let crit = crits ! (k div (length pars * n) mod length crits); par = pars ! (k div n mod length pars) in
         hold (ts_delays t) = dur_t crit \<and> hold_unit (ts_delays t) = dur_unit crit \<and> post (ts_delays t) = dur_t par \<and> post_unit (ts_delays t) = dur_unit par))"
      using idx [OF k] cpus
      by (simp add: l(2) [OF k] nth_measurement_def Let_def thread_setup_of_def comp_def a_def) (simp add: default_args_def)
  qed (simp_all add: l(1))
qed

text \<open>What every measurement of an accepted command line has.\<close>

lemma accepted_measurement:
  assumes "lockhammer_main env si cmd = Inr ms" "m \<in> set ms" "0 < num_avail_cores si"
  obtains a where "parse_args (env_strtod env) si cmd default_args = Inr a" "check_args (env_root env) a"
    "0 < length (me_threads m)" "length (me_threads m) \<le> MAXTHREADS"
    "\<And>t. t \<in> set (me_threads m) \<Longrightarrow> num_acquires (ts_args t) = a_num_acquires a \<and>
      run_limit_ticks (ts_args t) = a_run_limit_ticks (set_run_limit (env_ticks env) a)"
proof -
  obtain a where a: "parse_args (env_strtod env) si cmd default_args = Inr a" "check_args (env_root env) a"
    "run_measurements env si (set_run_limit (env_ticks env) a) = Inr ms"
    using assms(1,2) by (auto simp: lockhammer_main_def print_physaddr_def split: sum.splits if_splits)
  let ?a = "set_run_limit (env_ticks env) a"
  let ?prepare = "thread_setup_of (env_10p env) (env_90p env) ?a"
  obtain ord ps where ps: "place_pinorders si ord (a_pinorders (set_pinorders si ?a)) = Inr ps"
    "ms = fst (measurement_loops ?prepare ps (a_crits ?a) (a_pars ?a) (unat (a_iterations ?a)) (0, 0))"
    using a(3) by (auto simp: run_measurements_def split: sum.splits if_splits)
  have placed: "0 < fst p \<and> fst p \<le> MAXTHREADS" if "place_pinorders si ord pos = Inr ps" "p \<in> set ps" for pos ps p
    using that
  proof (induction pos arbitrary: ps)
    case (Cons po pos)
    then obtain cpus ps' where c: "generate_cpu_list si ord po = Inr cpus" "place_pinorders si ord pos = Inr ps'" "ps = (pinorder_threads si po, cpus) # ps'"
      by (auto split: sum.splits)
    have "pinorder_threads si po \<le> MAXTHREADS" using c(1) by (auto simp: generate_cpu_list_def pinorder_threads_def Let_def split: if_splits)
    moreover have "0 < pinorder_threads si po" using assms(3) by (simp add: pinorder_threads_def unat_gt_0)
    ultimately show ?case using Cons c by auto
  qed simp
  obtain k where k: "k < length ms" "m = ms ! k" using assms(2) by (auto simp: in_set_conv_nth)
  note l = measurement_loops_nth [OF ps(2)]
  define p where "p = ps ! (k div (length (a_crits ?a) * (length (a_pars ?a) * unat (a_iterations ?a))))"
  have p: "p \<in> set ps" using k(1) l(1) by (simp add: p_def less_mult_imp_div_less)
  obtain crit par where m: "me_threads m = map (?prepare p crit par) [0..<fst p]"
    unfolding k(2) l(2) [OF k(1)] nth_measurement_def p_def Let_def measurement.simps by blast
  have "num_acquires (ts_args t) = a_num_acquires a \<and> run_limit_ticks (ts_args t) = a_run_limit_ticks ?a" if "t \<in> set (me_threads m)" for t
    using that m by (auto simp: thread_setup_of_def set_run_limit_def)
  with a(1,2) m placed [OF ps(1) p] that [of a] show ?thesis by simp
qed

lemma parse_option_seconds:
  "parse_option strtod si opt a = Inr a' \<Longrightarrow> a_run_limit_seconds a' = (case opt of Opt_D s \<Rightarrow> strtod s | _ \<Rightarrow> a_run_limit_seconds a)"
  by (cases opt) (auto split: sum.splits prod.splits if_splits)

text \<open>The run limit in seconds is the one of the last \<open>-D\<close>.\<close>

lemma parse_options_seconds:
  "parse_options strtod si opts a = Inr a' \<Longrightarrow> a_run_limit_seconds a' = a_run_limit_seconds a \<or> (\<exists>s. Opt_D s \<in> set opts \<and> a_run_limit_seconds a' = strtod s)"
proof (induction opts arbitrary: a)
  case (Cons opt opts)
  then obtain b where b: "parse_option strtod si opt a = Inr b" "parse_options strtod si opts b = Inr a'" by (auto split: sum.splits)
  show ?case using Cons.IH [OF b(2)] parse_option_seconds [OF b(1)] by (cases opt) auto
qed simp

text \<open>All threads can finish, from every state of the experiment.\<close>

definition experiment_ends :: "('l, 's) lock_alg \<Rightarrow> 's \<Rightarrow> measurement \<Rightarrow> bool" where
  "experiment_ends A s m \<longleftrightarrow> (let N = length (me_threads m) in 0 < N \<and> (\<forall>t\<in>set (me_threads m). \<forall>R ls. 0 < R \<longrightarrow>
     (\<exists>ms. \<forall>i<N. ms_pc (ex_measure (run (experiment_step A N R (ts_args t)) (ls @ ms) (experiment_start s))) i = MsDone)))"

lemma completable_ends:
  assumes "completable A (length (me_threads m)) s" "me_threads m \<noteq> []"
    and "\<And>t. t \<in> set (me_threads m) \<Longrightarrow> run_limit_ticks (ts_args t) \<noteq> 0 \<or> num_acquires (ts_args t) \<noteq> 0"
  shows "experiment_ends A s m"
  using assms by (auto simp: experiment_ends_def completable_def Let_def)

text \<open>C10: a measurement that an accepted command line leads to can be completed, whatever has happened so far, under one condition that \<open>main\<close> does not check: a run limit in seconds
  (\<open>-D\<close>) other than 0 is at least a tick of the timer, so that its number of ticks is not 0. This holds with the ticket, CLH, TBB, queued, plain and fast-dequeue hybrid, optimistic spin queue and
  swap locks and with the POSIX mutex: the checks of \<open>main\<close> leave only numbers of threads for which these locks work, and exactly one limit. The machine has an available CPU.
  Left out are the old hybrid lock, which needs fewer threads than \<open>main\<close> allows, and the event mutex and the object monitor, which lose wake-ups.\<close>

theorem accepted_experiments_complete:
  assumes "lockhammer_main env si cmd = Inr ms" "m \<in> set ms" "0 < num_avail_cores si"
    and "\<And>s. Opt_D s \<in> set (cmd_opts cmd) \<Longrightarrow> env_strtod env s \<noteq> 0 \<Longrightarrow> env_ticks env (env_strtod env s) \<noteq> 0"
    and "N = length (me_threads m)" "v \<noteq> Old_Fast_Dequeue"
  shows "experiment_ends (ticket_alg b N) ticket_start m \<and> (clh_start N = Some c \<longrightarrow> experiment_ends (clh_alg w N) c m) \<and>
    experiment_ends (tbb_alg N) (tbb_init_locks p cpulist) m \<and> experiment_ends (queued_alg N) mcs_init_locks m \<and>
    experiment_ends (hybrid_alg v N) hy_init_locks m \<and> experiment_ends (osq_alg retry N) osq_queue_init m \<and>
    experiment_ends (swap_alg N) swap_start m \<and> (pt_init s \<longrightarrow> experiment_ends (pthread_alg test N) s m)"
proof -
  obtain a where par: "parse_args (env_strtod env) si cmd default_args = Inr a" and a: "check_args (env_root env) a" "0 < N" "N \<le> MAXTHREADS"
    "\<And>t. t \<in> set (me_threads m) \<Longrightarrow> num_acquires (ts_args t) = a_num_acquires a \<and>
      run_limit_ticks (ts_args t) = a_run_limit_ticks (set_run_limit (env_ticks env) a)"
    using accepted_measurement [OF assms(1-3)] assms(5) by blast
  have n: "0 < N" "N < 2 ^ 31" "N \<le> 16383" "N * stride b \<le> 65536" using a(2,3) by (cases b; simp add: MAXTHREADS_def stride_def)+
  have sec: "env_ticks env (a_run_limit_seconds a) \<noteq> 0" if "a_run_limit_seconds a \<noteq> 0"
    using parse_options_seconds [of "env_strtod env" si "cmd_opts cmd" default_args a] par that assms(4)
    by (auto simp: parse_args_def default_args_def split: if_splits sum.splits)
  have "run_limit_ticks (ts_args t) \<noteq> 0 \<or> num_acquires (ts_args t) \<noteq> 0" if "t \<in> set (me_threads m)" for t
    using a(4) [OF that] a(1) sec by (auto simp: check_args_def set_run_limit_def)
  note e = completable_ends [where m = m, folded assms(5), OF _ _ this]
  have "me_threads m \<noteq> []" using n(1) assms(5) by auto
  then show ?thesis using experiment_completes [OF n(1,2), of b c w p cpulist v retry s test] n(3,4) assms(6) by (intro conjI impI e) simp_all
qed

text \<open>Two threads for a second and a half on a machine of four CPUs, with a timer of 100 MHz.\<close>

definition example_env :: main_env where
  "example_env = \<lparr>env_strtod = (\<lambda>s. if s = ''1.5'' then 3 / 2 else if s = ''1e-9'' then 1 / 1000000000 else 0), env_ticks = (\<lambda>s. word_of_int \<lfloor>s * 100000000\<rfloor>),
     env_10p = (\<lambda>n. n div 10), env_90p = (\<lambda>n. n - n div 10), env_root = False, env_cpu_order = (\<lambda>_. None), env_files = (\<lambda>_. None), env_mmap = (\<lambda>_. None), env_munmap = (\<lambda>_. True),
     env_aligned = Some 0x10000, env_pagesize = 4096, env_virt_to_phys = (\<lambda>_. None)\<rparr>"

text \<open>A command line of \<open>n\<close> words that \<open>getopt_long\<close> has read to its end.\<close>

definition command_of :: "nat \<Rightarrow> cmd_option list \<Rightarrow> command" where
  "command_of n opts = \<lparr>cmd_argc = n, cmd_opts = opts, cmd_optind = n, cmd_this_arg = None\<rparr>"

lemma command_of_only: "n \<noteq> 1 \<Longrightarrow> only_options (command_of n opts) opts" "cmd_opts (command_of n opts) = opts"
  by (simp_all add: only_options_def command_of_def)

text \<open>There is no frequency scaling on that machine.\<close>

lemma example_frequency: "frequency_ok example_env" "check_frequencies (env_files example_env) False [p] = Inr () \<longleftrightarrow> fst p \<noteq> 0 \<and> fst p \<le> length (snd p)"
proof -
  have g: "get_proc_file_first_line (env_files example_env) f = []" for f by (simp add: get_proc_file_first_line_def example_env_def)
  have b: "get_boost_value (env_files example_env) = 0" unfolding get_boost_value_def g by (simp add: strtoll_def scan_number_def scan_sign_def scan_radix_def)
  have s: "steady_cpu (env_files example_env) cpu" for cpu
    unfolding steady_cpu_def get_scaling_driver_def get_scaling_governor_def get_scaling_min_freq_def get_scaling_max_freq_def get_scaling_string_def g by simp
  show "frequency_ok example_env" using b s by (simp add: frequency_ok_def)
  show "check_frequencies (env_files example_env) False [p] = Inr () \<longleftrightarrow> fst p \<noteq> 0 \<and> fst p \<le> length (snd p)"
    using b s by (auto simp: check_frequencies_def check_cpufreq_boost_is_OK_def check_if_cpufreq_governors_of_pinorder_are_ok_def list_all_iff governor_ok_steady)
qed

definition four_cpus :: system_info where
  "four_cpus = \<lparr>num_cores = 4, num_online_cores = 4, avail_cores = {0, 1, 2, 3}, num_avail_cores = 4\<rparr>"

lemmas number_defs = strsep_def strtoul_def scan_number_def scan_sign_def scan_radix_def c_isspace_def digit_val_def

text \<open>Option \<open>-t\<close> on that machine, one critical and one parallel duration, and a run limit in seconds.\<close>

lemma example_place: "place_pinorders four_cpus [] [\<lparr>cpu_list = None, po_num_threads = of_nat (Suc n), ileave = 0\<rparr>] = Inr [(Suc n, [0..<Suc n])]" if "n < 4"
proof -
  have "n = 0 \<or> n = 1 \<or> n = 2 \<or> n = 3" using that by linarith
  then show ?thesis
    by (auto simp: four_cpus_def generate_cpu_list_def pinorder_threads_def MAXTHREADS_def place_numeric_filter upt_rec Let_def)
qed

lemma example_main:
  assumes "parse_args (env_strtod example_env) four_cpus cmd default_args = Inr (default_args\<lparr>a_pinorders := [\<lparr>cpu_list = None, po_num_threads = of_nat (Suc n), ileave = 0\<rparr>],
    a_crits := [crit], a_pars := [par], a_run_limit_seconds := s\<rparr>)" "s \<noteq> 0" "n < 4"
  shows "\<exists>m. lockhammer_main example_env four_cpus cmd = Inr [m] \<and> length (me_threads m) = Suc n"
proof -
  define a where "a = default_args\<lparr>a_pinorders := [\<lparr>cpu_list = None, po_num_threads = of_nat (Suc n), ileave = 0\<rparr>], a_crits := [crit], a_pars := [par],
    a_run_limit_seconds := s, a_run_limit_ticks := env_ticks example_env s\<rparr>"
  have "lockhammer_main example_env four_cpus cmd = run_measurements example_env four_cpus a"
    using assms(2) by (simp add: lockhammer_main_def assms(1)) (simp add: default_args_def check_args_def set_run_limit_def a_def do_alloc_def HUGEPAGES_NONE_def example_env_def)
  moreover have "read_cpu_order example_env a = Inr []" "a_pinorders (set_pinorders four_cpus a) = [\<lparr>cpu_list = None, po_num_threads = of_nat (Suc n), ileave = 0\<rparr>]"
    "a_crits a = [crit]" "a_pars a = [par]" "unat (a_iterations a) = 1" "\<not> a_ignore_unknown_scaling_governor a"
    by (simp_all add: read_cpu_order_def set_pinorders_def a_def default_args_def example_env_def)
  moreover have "check_frequencies (env_files example_env) False [(Suc n, [0..<Suc n])] = Inr ()" unfolding example_frequency(2) by simp
  ultimately show ?thesis by (simp add: run_measurements_def example_place [OF assms(3)] measurement_loops_def del: of_nat_Suc upt_Suc place_pinorders.simps) simp
qed

theorem accepted_experiments_complete_witness:
  "\<exists>m. lockhammer_main example_env four_cpus (command_of 9 [Opt_t ''2'', Opt_c ''0'', Opt_p ''10ns'', Opt_D ''1.5'']) = Inr [m] \<and> experiment_ends (queued_alg 2) mcs_init_locks m"
proof -
  let ?opts = "[Opt_t ''2'', Opt_c ''0'', Opt_p ''10ns'', Opt_D ''1.5'']"
  have "parse_args (env_strtod example_env) four_cpus (command_of 9 ?opts) default_args = Inr (default_args\<lparr>a_pinorders := [\<lparr>cpu_list = None, po_num_threads = of_nat (Suc 1), ileave = 0\<rparr>],
      a_crits := [\<lparr>dur_t = 0, dur_unit = INSTS\<rparr>], a_pars := [\<lparr>dur_t = 10, dur_unit = NS\<rparr>], a_run_limit_seconds := 3 / 2\<rparr>)"
    by (simp add: parse_args_def command_of_def pinorder_t_def parse_num_threads_def number_defs parse_duration_def duration_parse_error_def four_cpus_def default_args_def example_env_def)
  from example_main [OF this] obtain m where m: "lockhammer_main example_env four_cpus (command_of 9 ?opts) = Inr [m]" "length (me_threads m) = 2" by auto
  have "env_ticks example_env (env_strtod example_env s) \<noteq> 0" if "Opt_D s \<in> set (cmd_opts (command_of 9 ?opts))" for s
    using that by (simp add: example_env_def command_of_def)
  moreover have "m \<in> set [m]" "0 < num_avail_cores four_cpus" "Fast_Dequeue \<noteq> Old_Fast_Dequeue" by (simp_all add: four_cpus_def)
  ultimately have "experiment_ends (queued_alg 2) mcs_init_locks m"
    using accepted_experiments_complete [OF m(1) _ _ _ m(2) [symmetric]] by blast
  with m(1) show ?thesis by blast
qed

text \<open>C40: a run limit in seconds that is too short to be a tick of the timer is accepted and then never ends: the number of ticks is rounded down to 0, which the threads take for a counted
  measurement, and the number of acquisitions 0 for one without a limit. No thread ever leaves its loop, with whatever lock.\<close>

theorem short_run_limit_never_ends:
  assumes "lockhammer_main env si cmd = Inr ms" "m \<in> set ms" "0 < num_avail_cores si"
    and "parse_args (env_strtod env) si cmd default_args = Inr a" "a_run_limit_seconds a \<noteq> 0" "env_ticks env (a_run_limit_seconds a) = 0"
    and "t \<in> set (me_threads m)"
  shows "ms_pc (run (measure_step A N (ts_args t)) ls (measure_start s)) i \<noteq> MsDone"
proof -
  obtain b where b: "parse_args (env_strtod env) si cmd default_args = Inr b" "check_args (env_root env) b"
    "\<And>t. t \<in> set (me_threads m) \<Longrightarrow> num_acquires (ts_args t) = a_num_acquires b \<and>
      run_limit_ticks (ts_args t) = a_run_limit_ticks (set_run_limit (env_ticks env) b)"
    using accepted_measurement [OF assms(1-3)] by blast
  have "num_acquires (ts_args t) = 0" "run_limit_ticks (ts_args t) = 0"
    using b(2) b(3) [OF assms(7)] b(1) assms(4-6) by (auto simp: check_args_def set_run_limit_def)
  with locals_ok_run [of "ts_args t" A N ls s i] show ?thesis by (auto simp: locals_ok_def counted_ok_def)
qed

text \<open>One nanosecond, a tenth of a tick.\<close>

theorem short_run_limit_never_ends_witness:
  "\<exists>m. lockhammer_main example_env four_cpus (command_of 9 [Opt_t ''1'', Opt_c ''0'', Opt_p ''0'', Opt_D ''1e-9'']) = Inr [m] \<and>
     (\<forall>ls i. ms_pc (run (measure_step (swap_alg 1) 1 (ts_args (hd (me_threads m)))) ls (measure_start swap_start)) i \<noteq> MsDone)"
proof -
  let ?opts = "[Opt_t ''1'', Opt_c ''0'', Opt_p ''0'', Opt_D ''1e-9'']"
  let ?a = "default_args\<lparr>a_pinorders := [\<lparr>cpu_list = None, po_num_threads = of_nat (Suc 0), ileave = 0\<rparr>],
      a_crits := [\<lparr>dur_t = 0, dur_unit = INSTS\<rparr>], a_pars := [\<lparr>dur_t = 0, dur_unit = INSTS\<rparr>], a_run_limit_seconds := 1 / 1000000000\<rparr>"
  have a: "parse_args (env_strtod example_env) four_cpus (command_of 9 ?opts) default_args = Inr ?a" "a_run_limit_seconds ?a = 1 / 1000000000"
    by (simp_all add: parse_args_def command_of_def pinorder_t_def parse_num_threads_def number_defs parse_duration_def duration_parse_error_def four_cpus_def default_args_def example_env_def)
  from example_main [OF a(1)] obtain m where m: "lockhammer_main example_env four_cpus (command_of 9 ?opts) = Inr [m]" "length (me_threads m) = 1" by auto
  have "hd (me_threads m) \<in> set (me_threads m)" using m(2) by (cases "me_threads m") auto
  moreover have "\<lfloor>1 / 10 :: rat\<rfloor> = 0" by (simp add: floor_eq_iff)
  then have "env_ticks example_env (1 / 1000000000) = 0" by (simp add: example_env_def)
  ultimately show ?thesis using short_run_limit_never_ends [OF m(1) _ _ a(1), of m "hd (me_threads m)" "swap_alg 1" 1 _ swap_start] a(2) m(1) by (simp add: four_cpus_def)
qed

text \<open>\<open>-o 0-1:1 -o 3-2:1 -c 100ns -p 3in -p 5in -a 9 -n 2\<close>: eight measurements; the seventh is the first of the fourth test.\<close>

theorem command_line_means_witness:
  "\<exists>ms. lockhammer_main example_env four_cpus (command_of 15 (map (\<lambda>rs. Opt_o (show_ranges rs)) [[(0, 1, 1)], [(3, 2, 1)]] @
       map (\<lambda>d. Opt_c (show_duration d)) [\<lparr>dur_t = 100, dur_unit = NS\<rparr>] @
       map (\<lambda>d. Opt_p (show_duration d)) [\<lparr>dur_t = 3, dur_unit = INSTS\<rparr>, \<lparr>dur_t = 5, dur_unit = INSTS\<rparr>] @ [Opt_a (decimal 9), Opt_n (decimal 2)])) = Inr ms \<and>
     length ms = 8 \<and> me_test_number (ms ! 6) = 4 \<and> map ts_cpu (me_threads (ms ! 6)) = [Some 3, Some 2] \<and>
     (\<forall>t\<in>set (me_threads (ms ! 6)). post (ts_delays t) = 5)"
proof -
  have c: "cpus_of [(0, 1, 1)] = [0, 1]" "cpus_of [(3, 2, 1)] = [3, 2]" by (simp_all add: cpus_of_def cpu_range_def range_up_def range_down_def upt_rec)
  have "\<forall>rs\<in>set [[(0, 1, 1)], [(3, 2, 1)]]. ranges_ok (num_cores four_cpus) rs" using c by (simp add: ranges_ok_def range_ok_def four_cpus_def)
  moreover have "env_aligned example_env \<noteq> None" by (simp add: example_env_def)
  moreover have "num_cores four_cpus \<le> MAXTHREADS" by (simp add: four_cpus_def MAXTHREADS_def)
  ultimately obtain ms where ms: "lockhammer_main example_env four_cpus (command_of 15 (map (\<lambda>rs. Opt_o (show_ranges rs)) [[(0, 1, 1)], [(3, 2, 1)]] @
       map (\<lambda>d. Opt_c (show_duration d)) [\<lparr>dur_t = 100, dur_unit = NS\<rparr>] @
       map (\<lambda>d. Opt_p (show_duration d)) [\<lparr>dur_t = 3, dur_unit = INSTS\<rparr>, \<lparr>dur_t = 5, dur_unit = INSTS\<rparr>] @ [Opt_a (decimal 9), Opt_n (decimal 2)])) = Inr ms"
    "length ms = 8" and k: "\<And>k. k < 8 \<Longrightarrow> me_test_number (ms ! k) = k div 2 + 1 \<and> map ts_cpu (me_threads (ms ! k)) = map Some (cpus_of ([[(0, 1, 1)], [(3, 2, 1)]] ! (k div 4))) \<and>
      (\<forall>t\<in>set (me_threads (ms ! k)). post (ts_delays t) = dur_t ([\<lparr>dur_t = 3, dur_unit = INSTS\<rparr>, \<lparr>dur_t = 5, dur_unit = INSTS\<rparr>] ! (k div 2 mod 2)))"
    using command_line_means [of four_cpus "[[(0, 1, 1)], [(3, 2, 1)]]" "[\<lparr>dur_t = 100, dur_unit = NS\<rparr>]"
        "[\<lparr>dur_t = 3, dur_unit = INSTS\<rparr>, \<lparr>dur_t = 5, dur_unit = INSTS\<rparr>]" 9 2 example_env, OF _ _ _ _ _ _ _ _ _ example_frequency(1) _ command_of_only(1) [of 15]]
    by (auto simp: Let_def numeral_2_eq_2 [symmetric])
  show ?thesis using ms k [of 6] c by (intro exI [of _ ms] conjI) simp_all
qed

end
