(* ===== verification/JVM_Monitor.thy ===== *)
theory JVM_Monitor
  imports Lock_Prelude
begin

text \<open>
  The monitor of \<open>ext/jvm/jvm_objectmonitor.h\<close>, the lock behind Java's \<open>synchronized\<close>: spinning with an
  adaptive limit, a lock-free stack of arriving threads (\<open>_cxq\<close>), a doubly linked list of waiting threads
  (\<open>_EntryList\<close>) that only the owner touches, the heir presumptive \<open>_succ\<close> that saves wake-ups, and parking
  on a restricted-range semaphore made of a mutex and a condition variable.

  A thread has at most one \<open>ObjectWaiter\<close> (a stack object of \<open>jvmObjectMonitorEnterI\<close>) and one \<open>ParkEvent\<close>, so
  both are named by the thread. A label is the thread that moves and a choice of the environment, which matters
  for a thread that waits for its condition variable: it sleeps on until it is signalled, it wakes up
  spuriously, or its timeout has expired. One step
  is one access to shared memory; a read of a field that only the reader or the owner of the monitor writes is
  part of the access that follows it.
\<close>

section \<open>Data\<close>

datatype TStates = TS_UNDEF | TS_READY | TS_RUN | TS_WAIT | TS_ENTER | TS_CXQ

text \<open>A \<open>_prev\<close> pointer: the stack object is made with the poison value \<open>0xBAD\<close>.\<close>

datatype ow_ptr = OW_NULL | OW_BAD | OW tid

text \<open>The knobs are static and never assigned; branches that these values exclude are left out below.\<close>

definition Knob_PreSpin :: nat where "Knob_PreSpin = 10"
definition Knob_SpinBase :: int where "Knob_SpinBase = 0"
definition Knob_SpinLimit :: int where "Knob_SpinLimit = 5000"
definition Knob_Poverty :: int where "Knob_Poverty = 1000"
definition Knob_Bonus :: int where "Knob_Bonus = 100"
definition Knob_Penalty :: int where "Knob_Penalty = 200"
definition MAX_RECHECK_INTERVAL :: nat where "MAX_RECHECK_INTERVAL = 1000"

lemmas knob_defs = Knob_PreSpin_def Knob_SpinBase_def Knob_SpinLimit_def Knob_Poverty_def Knob_Bonus_def Knob_Penalty_def
  MAX_RECHECK_INTERVAL_def

text \<open>
  The calls of \<open>jvmObjectMonitorTrySpin\<close> and of \<open>jvmObjectMonitorTryLock\<close>. A number with a call in the loop of
  \<open>jvmObjectMonitorEnterI\<close> is \<open>recheckInterval\<close>; the number of \<open>TPre\<close> is \<open>ctr\<close>.
\<close>

datatype spin_site = SpinEarly | SpinEnterI | SpinFutile nat

datatype try_site = TPre spin_site nat | TAbort spin_site | TEnterI | TPush | TLoop nat | TWake nat

text \<open>Positions inside the functions, with the locals that are live.\<close>

datatype spin_pos = SDur | SDurStore int | SAdmit | SSucc0 int | SSucc0Store int
  | SOwner int "tid option" | SCas | SSucc int tid | SSuccStore int tid | SDecay int tid | SDecayStore int tid int
  | SGotSucc | SGotSuccStore | SAbort | SAbortStore

datatype park_pos = PRead | PCas int | PLock | PInc | PTest | PBlock | PWait | PRelock bool | PDec | PEvent | PUnlock | PGuar

datatype unlink_pos = UState | UNextPrev "tid option" ow_ptr | UPrevNext "tid option" ow_ptr
  | UEntry "tid option" | UEntryStore "tid option" | UCxq | UCxqCas | UReread | UWalk "tid option" "tid option"

datatype exit_pos = XFix | XResp | XDrop | XEntry | XCxq "tid option" | XSucc | XCas | XGuar | XPick | XPickCxq
  | XDetach "tid option" | XSetEntry "tid option" | XState tid "tid option" | XPrev tid "tid option" | XNext tid
  | XSucc2 | XPick2 | XEpSucc tid | XEpDrop tid

text \<open>How \<open>pthread_cond_wait\<close> and \<open>pthread_cond_timedwait\<close> go on.\<close>

datatype wakeup = Sleeps | Spurious | Timeout

datatype unpark_pos = NXchg | NLock | NRead | NUnlock int | NSignal

text \<open>
  \<open>MVMError\<close> is the \<open>abort()\<close> of a failed \<open>guarantee\<close>, \<open>MCrash\<close> an access through a null or poisoned pointer.
\<close>

datatype om_pc = MIdle | MTry try_site | MTryCas try_site | MSpin spin_site spin_pos
  | MCountInc | MNodeInit | MEventInit | MParkedInit | MPush | MPushCas "tid option" | MRespEntry | MRespCas
  | MLoopResp nat | MPark bool nat park_pos | MFutile nat | MFutileStore nat
  | MUnlink unlink_pos | MEgSucc | MEgSuccStore | MEgResp | MEgRespStore | MCountDec
  | MCS int | MExit exit_pos | MUnpark tid unpark_pos | MVMError | MCrash

record om_state =
  m_owner :: "tid option"
  m_EntryList :: "tid option"
  m_cxq :: "tid option"
  m_succ :: "tid option"
  m_Responsible :: "tid option"
  m_SpinDuration :: int
  m_count :: int
  w_next :: "tid \<Rightarrow> tid option"
  w_prev :: "tid \<Rightarrow> ow_ptr"
  w_TState :: "tid \<Rightarrow> TStates"
  e_Event :: "tid \<Rightarrow> int"
  e_nParked :: "tid \<Rightarrow> int"
  e_mutex :: "tid \<Rightarrow> tid option"
  e_signalled :: "tid \<Rightarrow> bool"
  m_pc :: "tid \<Rightarrow> om_pc"

abbreviation m_goto :: "tid \<Rightarrow> om_pc \<Rightarrow> om_state \<Rightarrow> om_state" where
  "m_goto i p s \<equiv> s\<lparr>m_pc := (m_pc s)(i := p)\<rparr>"

abbreviation ow_of :: "tid option \<Rightarrow> ow_ptr" where
  "ow_of p \<equiv> case p of None \<Rightarrow> OW_NULL | Some w \<Rightarrow> OW w"

text \<open>\<open>jvm_init_locks\<close>, with \<open>parkevent_init\<close> for every thread.\<close>

definition jvm_init_locks :: om_state where
  "jvm_init_locks = \<lparr>m_owner = None, m_EntryList = None, m_cxq = None, m_succ = None, m_Responsible = None,
     m_SpinDuration = 0, m_count = 0, w_next = (\<lambda>_. None), w_prev = (\<lambda>_. OW_NULL), w_TState = (\<lambda>_. TS_UNDEF),
     e_Event = (\<lambda>_. 0), e_nParked = (\<lambda>_. 0), e_mutex = (\<lambda>_. None), e_signalled = (\<lambda>_. False), m_pc = (\<lambda>_. MIdle)\<rparr>"

section \<open>Deadlines\<close>

definition NANOSECS_PER_SEC :: int where "NANOSECS_PER_SEC = 1000000000"
definition NANOSECS_PER_MILLISEC :: int where "NANOSECS_PER_MILLISEC = 1000000"

text \<open>\<open>compute_abstime\<close> over the time \<open>(tv_sec, tv_nsec)\<close> that \<open>clock_gettime(CLOCK_MONOTONIC)\<close> returns.\<close>

definition compute_abstime :: "int \<times> int \<Rightarrow> int \<Rightarrow> int \<times> int" where
  "compute_abstime now millis0 = (let millis = max 0 millis0;
     seconds = min 50000000 (millis div 1000);
     nanos = snd now + (millis mod 1000) * NANOSECS_PER_MILLISEC
   in if nanos \<ge> NANOSECS_PER_SEC then (fst now + seconds + 1, nanos - NANOSECS_PER_SEC) else (fst now + seconds, nanos))"

section \<open>Spinning\<close>

text \<open>Where the thread goes on after \<open>TrySpin\<close> returned 1 or 0.\<close>

definition spin_won :: "spin_site \<Rightarrow> om_pc" where
  "spin_won site = (case site of SpinEarly \<Rightarrow> MCS 1 | SpinEnterI \<Rightarrow> MCountDec | SpinFutile _ \<Rightarrow> MUnlink UState)"

definition spin_lost :: "spin_site \<Rightarrow> om_pc" where
  "spin_lost site = (case site of SpinEarly \<Rightarrow> MCountInc | SpinEnterI \<Rightarrow> MNodeInit | SpinFutile r \<Rightarrow> MFutile r)"

definition try_won :: "try_site \<Rightarrow> om_pc" where
  "try_won t = (case t of TPre site _ \<Rightarrow> MSpin site SDur | TAbort site \<Rightarrow> spin_won site
     | TEnterI \<Rightarrow> MCountDec | TPush \<Rightarrow> MCountDec | TLoop _ \<Rightarrow> MUnlink UState | TWake _ \<Rightarrow> MUnlink UState)"

definition try_lost :: "try_site \<Rightarrow> om_pc" where
  "try_lost t = (case t of
       TPre site ctr \<Rightarrow> (case ctr of 0 \<Rightarrow> MSpin site SAdmit | Suc k \<Rightarrow> MTry (TPre site k))
     | TAbort site \<Rightarrow> spin_lost site
     | TEnterI \<Rightarrow> MTry (TPre SpinEnterI Knob_PreSpin)
     | TPush \<Rightarrow> MPush
     | TLoop r \<Rightarrow> MLoopResp r
     | TWake r \<Rightarrow> MTry (TPre (SpinFutile r) Knob_PreSpin))"

text \<open>\<open>jvmObjectMonitorTryLock\<close>: the read of the owner and the compare-and-exchange.\<close>

definition jvmObjectMonitorTryLock :: "tid \<Rightarrow> try_site \<Rightarrow> om_state \<Rightarrow> om_state" where
  "jvmObjectMonitorTryLock i t s = m_goto i (if m_owner s = None then MTryCas t else try_lost t) s"

definition TryLock_cas :: "tid \<Rightarrow> try_site \<Rightarrow> om_state \<Rightarrow> om_state" where
  "TryLock_cas i t s = (if m_owner s = None then m_goto i (try_won t) (s\<lparr>m_owner := Some i\<rparr>) else m_goto i (try_lost t) s)"

text \<open>The head of the main spin loop, \<open>while (--ctr >= 0)\<close>; \<open>BackOffMask\<close> is 0, so every round probes the owner.\<close>

definition spin_round :: "spin_site \<Rightarrow> int \<Rightarrow> tid option \<Rightarrow> om_pc" where
  "spin_round site ctr prv = (if ctr - 1 \<ge> 0 then MSpin site (SOwner (ctr - 1) prv) else MSpin site SAbort)"

definition jvmObjectMonitorTrySpin :: "tid \<Rightarrow> spin_site \<Rightarrow> spin_pos \<Rightarrow> om_state \<Rightarrow> om_state" where
  "jvmObjectMonitorTrySpin i site p s = (case p of
       SDur \<Rightarrow> (let x = m_SpinDuration s in
         m_goto i (if x < Knob_SpinLimit then MSpin site (SDurStore (max x Knob_Poverty + Knob_Bonus)) else spin_won site) s)
     | SDurStore x \<Rightarrow> m_goto i (spin_won site) (s\<lparr>m_SpinDuration := x\<rparr>)
     | SAdmit \<Rightarrow> (let ctr = max (m_SpinDuration s) Knob_SpinBase in
         m_goto i (if ctr \<le> 0 then spin_lost site else MSpin site (SSucc0 ctr)) s)
     | SSucc0 ctr \<Rightarrow> m_goto i (if m_succ s = None then MSpin site (SSucc0Store ctr) else spin_round site ctr None) s
     | SSucc0Store ctr \<Rightarrow> m_goto i (spin_round site ctr None) (s\<lparr>m_succ := Some i\<rparr>)
     | SOwner ctr prv \<Rightarrow> m_goto i (case m_owner s of
         None \<Rightarrow> MSpin site SCas
       | Some ox \<Rightarrow> (if prv \<noteq> Some ox \<and> prv \<noteq> None then MSpin site SAbort else MSpin site (SSucc ctr ox))) s
     | SCas \<Rightarrow> (if m_owner s = None then m_goto i (MSpin site SGotSucc) (s\<lparr>m_owner := Some i\<rparr>) else m_goto i (MSpin site SAbort) s)
     | SSucc ctr prv \<Rightarrow> m_goto i (MSpin site (if m_succ s = None then SSuccStore ctr prv else SDecay ctr prv)) s
     | SSuccStore ctr prv \<Rightarrow> m_goto i (MSpin site (SDecay ctr prv)) (s\<lparr>m_succ := Some i\<rparr>)
     | SDecay ctr prv \<Rightarrow> (let x = m_SpinDuration s in
         m_goto i (if x > 0 then MSpin site (SDecayStore ctr prv (max (x - Knob_Penalty) 0)) else spin_round site ctr (Some prv)) s)
     | SDecayStore ctr prv x \<Rightarrow> m_goto i (spin_round site ctr (Some prv)) (s\<lparr>m_SpinDuration := x\<rparr>)
     | SGotSucc \<Rightarrow> m_goto i (MSpin site (if m_succ s = Some i then SGotSuccStore else SDur)) s
     | SGotSuccStore \<Rightarrow> m_goto i (MSpin site SDur) (s\<lparr>m_succ := None\<rparr>)
     | SAbort \<Rightarrow> m_goto i (if m_succ s = Some i then MSpin site SAbortStore else spin_lost site) s
     | SAbortStore \<Rightarrow> m_goto i (MTry (TAbort site)) (s\<lparr>m_succ := None\<rparr>))"

section \<open>Parking\<close>

text \<open>
  \<open>park\<close> and \<open>parkTimed\<close> (\<open>timed\<close>): take one from \<open>_Event\<close>; if it was 0, wait until it is not negative, or until
  the timeout. \<open>pthread_mutex_lock\<close> does not move while the mutex is taken, \<open>pthread_mutex_unlock\<close> opens it, and
  \<open>pthread_cond_wait\<close> opens it and waits, in one step.
\<close>

definition park_return :: "bool \<Rightarrow> nat \<Rightarrow> om_pc" where
  "park_return timed r = MTry (TWake (if timed then min (r * 8) MAX_RECHECK_INTERVAL else r))"

definition park_done :: "bool \<Rightarrow> nat \<Rightarrow> om_pc" where
  "park_done timed r = (if timed then park_return timed r else MPark timed r PGuar)"

definition park :: "wakeup \<Rightarrow> tid \<Rightarrow> bool \<Rightarrow> nat \<Rightarrow> park_pos \<Rightarrow> om_state \<Rightarrow> om_state" where
  "park env i timed r p s = (case p of
       PRead \<Rightarrow> m_goto i (if timed \<and> e_nParked s i \<noteq> 0 then MVMError else MPark timed r (PCas (e_Event s i))) s
     | PCas v \<Rightarrow> (if e_Event s i = v then
         m_goto i (if v < 0 then MVMError else if v = 0 then MPark timed r PLock else park_done timed r)
           (s\<lparr>e_Event := (e_Event s)(i := v - 1)\<rparr>)
         else m_goto i (MPark timed r PRead) s)
     | PLock \<Rightarrow> (if e_mutex s i = None then m_goto i (MPark timed r PInc) (s\<lparr>e_mutex := (e_mutex s)(i := Some i)\<rparr>) else s)
     | PInc \<Rightarrow> (if e_nParked s i = 0 then m_goto i (MPark timed r PTest) (s\<lparr>e_nParked := (e_nParked s)(i := 1)\<rparr>)
         else m_goto i MVMError s)
     | PTest \<Rightarrow> m_goto i (MPark timed r (if e_Event s i < 0 then PBlock else PDec)) s
     | PBlock \<Rightarrow> m_goto i (MPark timed r PWait) (s\<lparr>e_mutex := (e_mutex s)(i := None), e_signalled := (e_signalled s)(i := False)\<rparr>)
     | PWait \<Rightarrow> (if timed \<and> env = Timeout then m_goto i (MPark timed r (PRelock True)) s
         else if env \<noteq> Sleeps \<or> e_signalled s i then m_goto i (MPark timed r (PRelock False)) s else s)
     | PRelock timeout \<Rightarrow> (if e_mutex s i = None then
         m_goto i (MPark timed r (if timeout then PDec else PTest)) (s\<lparr>e_mutex := (e_mutex s)(i := Some i)\<rparr>) else s)
     | PDec \<Rightarrow> m_goto i (MPark timed r PEvent) (s\<lparr>e_nParked := (e_nParked s)(i := e_nParked s i - 1)\<rparr>)
     | PEvent \<Rightarrow> m_goto i (MPark timed r PUnlock) (s\<lparr>e_Event := (e_Event s)(i := 0)\<rparr>)
     | PUnlock \<Rightarrow> m_goto i (park_done timed r) (s\<lparr>e_mutex := (e_mutex s)(i := None)\<rparr>)
     | PGuar \<Rightarrow> m_goto i (if e_Event s i \<ge> 0 then park_return timed r else MVMError) s)"

text \<open>\<open>unpark\<close> of the event of \<open>w\<close>. A signal wakes a thread that waits for the condition variable, if there is one.\<close>

definition om_waits :: "om_pc \<Rightarrow> bool" where
  "om_waits p = (case p of MPark _ _ PWait \<Rightarrow> True | _ \<Rightarrow> False)"

definition unpark :: "tid \<Rightarrow> tid \<Rightarrow> unpark_pos \<Rightarrow> om_state \<Rightarrow> om_state" where
  "unpark i w p s = (case p of
       NXchg \<Rightarrow> m_goto i (if e_Event s w \<ge> 0 then MIdle else MUnpark w NLock) (s\<lparr>e_Event := (e_Event s)(w := 1)\<rparr>)
     | NLock \<Rightarrow> (if e_mutex s w = None then m_goto i (MUnpark w NRead) (s\<lparr>e_mutex := (e_mutex s)(w := Some i)\<rparr>) else s)
     | NRead \<Rightarrow> m_goto i (MUnpark w (NUnlock (e_nParked s w))) s
     | NUnlock n \<Rightarrow> m_goto i (if n \<noteq> 0 then MUnpark w NSignal else MIdle) (s\<lparr>e_mutex := (e_mutex s)(w := None)\<rparr>)
     | NSignal \<Rightarrow> m_goto i MIdle (s\<lparr>e_signalled := (e_signalled s)(w := e_signalled s w \<or> om_waits (m_pc s w))\<rparr>))"

section \<open>Entering\<close>

definition jvmObjectMonitorEnter :: "tid \<Rightarrow> om_state \<Rightarrow> om_state" where
  "jvmObjectMonitorEnter i s = (if m_owner s = None then m_goto i (MCS 1) (s\<lparr>m_owner := Some i\<rparr>)
     else m_goto i (MTry (TPre SpinEarly Knob_PreSpin)) s)"

definition Enter_count_inc :: "tid \<Rightarrow> om_state \<Rightarrow> om_state" where
  "Enter_count_inc i s = m_goto i (MTry TEnterI) (s\<lparr>m_count := m_count s + 1\<rparr>)"

definition Enter_count_dec :: "tid \<Rightarrow> om_state \<Rightarrow> om_state" where
  "Enter_count_dec i s = (let depth = m_count s - 1 in m_goto i (MCS depth) (s\<lparr>m_count := depth\<rparr>))"

text \<open>
  \<open>jvmObjectMonitorEnterI\<close>: the stack object and \<open>parkevent_init\<close>, which makes the mutex anew. (When the mutex is
  in use this is undefined in POSIX; here it just opens the mutex.)
\<close>

definition EnterI_node :: "tid \<Rightarrow> om_state \<Rightarrow> om_state" where
  "EnterI_node i s = m_goto i MEventInit (s\<lparr>w_next := (w_next s)(i := None), w_prev := (w_prev s)(i := OW_BAD),
     w_TState := (w_TState s)(i := TS_CXQ), e_mutex := (e_mutex s)(i := None)\<rparr>)"

definition parkevent_init_event :: "tid \<Rightarrow> om_state \<Rightarrow> om_state" where
  "parkevent_init_event i s = m_goto i MParkedInit (s\<lparr>e_Event := (e_Event s)(i := 0)\<rparr>)"

definition parkevent_init_parked :: "tid \<Rightarrow> om_state \<Rightarrow> om_state" where
  "parkevent_init_parked i s = m_goto i MPush (s\<lparr>e_nParked := (e_nParked s)(i := 0)\<rparr>)"

definition EnterI_push :: "tid \<Rightarrow> om_state \<Rightarrow> om_state" where
  "EnterI_push i s = m_goto i (MPushCas (m_cxq s)) (s\<lparr>w_next := (w_next s)(i := m_cxq s)\<rparr>)"

definition EnterI_push_cas :: "tid \<Rightarrow> tid option \<Rightarrow> om_state \<Rightarrow> om_state" where
  "EnterI_push_cas i nxt s = (if m_cxq s = nxt
     then m_goto i (if nxt = None then MRespEntry else MTry (TLoop 1)) (s\<lparr>m_cxq := Some i\<rparr>)
     else m_goto i (MTry TPush) s)"

definition EnterI_resp_entry :: "tid \<Rightarrow> om_state \<Rightarrow> om_state" where
  "EnterI_resp_entry i s = m_goto i (if m_EntryList s = None then MRespCas else MTry (TLoop 1)) s"

definition EnterI_resp_cas :: "tid \<Rightarrow> om_state \<Rightarrow> om_state" where
  "EnterI_resp_cas i s = m_goto i (MTry (TLoop 1)) (if m_Responsible s = None then s\<lparr>m_Responsible := Some i\<rparr> else s)"

definition EnterI_choose_park :: "tid \<Rightarrow> nat \<Rightarrow> om_state \<Rightarrow> om_state" where
  "EnterI_choose_park i r s = m_goto i (MPark (m_Responsible s = Some i) r PRead) s"

definition EnterI_futile :: "tid \<Rightarrow> nat \<Rightarrow> om_state \<Rightarrow> om_state" where
  "EnterI_futile i r s = m_goto i (if m_succ s = Some i then MFutileStore r else MTry (TLoop r)) s"

definition EnterI_futile_store :: "tid \<Rightarrow> nat \<Rightarrow> om_state \<Rightarrow> om_state" where
  "EnterI_futile_store i r s = m_goto i (MTry (TLoop r)) (s\<lparr>m_succ := None\<rparr>)"

text \<open>\<open>UnlinkAfterAcquire\<close>: out of the doubly linked list, or out of the stack that others push on.\<close>

definition UnlinkAfterAcquire :: "tid \<Rightarrow> unlink_pos \<Rightarrow> om_state \<Rightarrow> om_state" where
  "UnlinkAfterAcquire i p s = (case p of
       UState \<Rightarrow> m_goto i (MUnlink (if w_TState s i = TS_ENTER then UNextPrev (w_next s i) (w_prev s i) else UCxq)) s
     | UNextPrev nxt prv \<Rightarrow> m_goto i (MUnlink (UPrevNext nxt prv))
         (case nxt of None \<Rightarrow> s | Some n \<Rightarrow> s\<lparr>w_prev := (w_prev s)(n := prv)\<rparr>)
     | UPrevNext nxt prv \<Rightarrow> (case prv of OW_BAD \<Rightarrow> m_goto i MCrash s
         | OW_NULL \<Rightarrow> m_goto i (MUnlink (UEntry nxt)) s
         | OW q \<Rightarrow> m_goto i (MUnlink (UEntry nxt)) (s\<lparr>w_next := (w_next s)(q := nxt)\<rparr>))
     | UEntry nxt \<Rightarrow> m_goto i (if m_EntryList s = Some i then MUnlink (UEntryStore nxt) else MEgSucc) s
     | UEntryStore nxt \<Rightarrow> m_goto i MEgSucc (s\<lparr>m_EntryList := nxt\<rparr>)
     | UCxq \<Rightarrow> m_goto i (MUnlink (if m_cxq s = Some i then UCxqCas else UWalk (m_cxq s) None)) s
     | UCxqCas \<Rightarrow> (if m_cxq s = Some i then m_goto i MEgSucc (s\<lparr>m_cxq := w_next s i\<rparr>) else m_goto i (MUnlink UReread) s)
     | UReread \<Rightarrow> m_goto i (MUnlink (UWalk (m_cxq s) None)) s
     | UWalk p q \<Rightarrow> (case p of None \<Rightarrow> m_goto i MCrash s
         | Some w \<Rightarrow> (if w = i then (case q of None \<Rightarrow> m_goto i MCrash s
              | Some q \<Rightarrow> m_goto i MEgSucc (s\<lparr>w_next := (w_next s)(q := w_next s i)\<rparr>))
            else m_goto i (MUnlink (UWalk (w_next s w) (Some w))) s)))"

text \<open>The end of \<open>jvmObjectMonitorEnterI\<close>.\<close>

definition EnterI_succ :: "tid \<Rightarrow> om_state \<Rightarrow> om_state" where
  "EnterI_succ i s = m_goto i (if m_succ s = Some i then MEgSuccStore else MEgResp) s"

definition EnterI_succ_store :: "tid \<Rightarrow> om_state \<Rightarrow> om_state" where
  "EnterI_succ_store i s = m_goto i MEgResp (s\<lparr>m_succ := None\<rparr>)"

definition EnterI_resp :: "tid \<Rightarrow> om_state \<Rightarrow> om_state" where
  "EnterI_resp i s = m_goto i (if m_Responsible s = Some i then MEgRespStore else MCountDec) s"

definition EnterI_resp_store :: "tid \<Rightarrow> om_state \<Rightarrow> om_state" where
  "EnterI_resp_store i s = m_goto i MCountDec (s\<lparr>m_Responsible := None\<rparr>)"

section \<open>Leaving\<close>

definition jvmObjectMonitorExit :: "tid \<Rightarrow> exit_pos \<Rightarrow> om_state \<Rightarrow> om_state" where
  "jvmObjectMonitorExit i p s = (let go = (\<lambda>p. m_goto i (MExit p)) in case p of
       XFix \<Rightarrow> go XResp (s\<lparr>m_owner := Some i\<rparr>)
     | XResp \<Rightarrow> go XDrop (s\<lparr>m_Responsible := None\<rparr>)
     | XDrop \<Rightarrow> go XEntry (s\<lparr>m_owner := None\<rparr>)
     | XEntry \<Rightarrow> go (XCxq (m_EntryList s)) s
     | XCxq e \<Rightarrow> (if e = None \<and> m_cxq s = None then m_goto i MIdle s else go XSucc s)
     | XSucc \<Rightarrow> (if m_succ s \<noteq> None then m_goto i MIdle s else go XCas s)
     | XCas \<Rightarrow> (if m_owner s = None then go XGuar (s\<lparr>m_owner := Some i\<rparr>) else m_goto i MIdle s)
     | XGuar \<Rightarrow> (if m_owner s = Some i then go XPick s else m_goto i MVMError s)
     | XPick \<Rightarrow> (case m_EntryList s of Some w \<Rightarrow> go (XEpSucc w) s | None \<Rightarrow> go XPickCxq s)
     | XPickCxq \<Rightarrow> go (if m_cxq s = None then XDrop else XDetach (m_cxq s)) s
     | XDetach w \<Rightarrow> (if m_cxq s = w then go (XSetEntry w) (s\<lparr>m_cxq := None\<rparr>) else go (XDetach (m_cxq s)) s)
     | XSetEntry w \<Rightarrow> go (case w of None \<Rightarrow> XSucc2 | Some p \<Rightarrow> XState p None) (s\<lparr>m_EntryList := w\<rparr>)
     | XState p q \<Rightarrow> (if w_TState s p = TS_CXQ then go (XPrev p q) (s\<lparr>w_TState := (w_TState s)(p := TS_ENTER)\<rparr>)
         else m_goto i MVMError s)
     | XPrev p q \<Rightarrow> go (XNext p) (s\<lparr>w_prev := (w_prev s)(p := ow_of q)\<rparr>)
     | XNext p \<Rightarrow> go (case w_next s p of None \<Rightarrow> XSucc2 | Some n \<Rightarrow> XState n (Some p)) s
     | XSucc2 \<Rightarrow> go (if m_succ s \<noteq> None then XDrop else XPick2) s
     | XPick2 \<Rightarrow> (case m_EntryList s of None \<Rightarrow> go XDrop s
         | Some w \<Rightarrow> (if w_TState s w = TS_ENTER then go (XEpSucc w) s else m_goto i MVMError s))
     | XEpSucc w \<Rightarrow> go (XEpDrop w) (s\<lparr>m_succ := Some w\<rparr>)
     | XEpDrop w \<Rightarrow> m_goto i (MUnpark w NXchg) (s\<lparr>m_owner := None\<rparr>))"

text \<open>\<open>lock_release\<close> begins with a look at the owner.\<close>

definition Exit_check :: "tid \<Rightarrow> om_state \<Rightarrow> om_state" where
  "Exit_check i s = m_goto i (MExit (if m_owner s = Some i then XResp else XFix)) s"

definition om_step :: "nat \<Rightarrow> tid \<times> wakeup \<Rightarrow> om_state \<Rightarrow> om_state" where
  "om_step N l s = (let i = fst l in if i < N then (case m_pc s i of
       MIdle \<Rightarrow> jvmObjectMonitorEnter i s
     | MTry t \<Rightarrow> jvmObjectMonitorTryLock i t s
     | MTryCas t \<Rightarrow> TryLock_cas i t s
     | MSpin site p \<Rightarrow> jvmObjectMonitorTrySpin i site p s
     | MCountInc \<Rightarrow> Enter_count_inc i s
     | MNodeInit \<Rightarrow> EnterI_node i s
     | MEventInit \<Rightarrow> parkevent_init_event i s
     | MParkedInit \<Rightarrow> parkevent_init_parked i s
     | MPush \<Rightarrow> EnterI_push i s
     | MPushCas nxt \<Rightarrow> EnterI_push_cas i nxt s
     | MRespEntry \<Rightarrow> EnterI_resp_entry i s
     | MRespCas \<Rightarrow> EnterI_resp_cas i s
     | MLoopResp r \<Rightarrow> EnterI_choose_park i r s
     | MPark timed r p \<Rightarrow> park (snd l) i timed r p s
     | MFutile r \<Rightarrow> EnterI_futile i r s
     | MFutileStore r \<Rightarrow> EnterI_futile_store i r s
     | MUnlink p \<Rightarrow> UnlinkAfterAcquire i p s
     | MEgSucc \<Rightarrow> EnterI_succ i s
     | MEgSuccStore \<Rightarrow> EnterI_succ_store i s
     | MEgResp \<Rightarrow> EnterI_resp i s
     | MEgRespStore \<Rightarrow> EnterI_resp_store i s
     | MCountDec \<Rightarrow> Enter_count_dec i s
     | MCS _ \<Rightarrow> Exit_check i s
     | MExit p \<Rightarrow> jvmObjectMonitorExit i p s
     | MUnpark w p \<Rightarrow> unpark i w p s
     | MVMError \<Rightarrow> s
     | MCrash \<Rightarrow> s) else s)"

end
