(* ===== verification/JVM_Owner.thy ===== *)
theory JVM_Owner
  imports JVM_Monitor Lock_Spec
begin

text \<open>
  Who owns the monitor: the positions at which a thread owns it are exactly those it reaches only after a
  successful compare-and-exchange of \<open>_owner\<close>. Mutual exclusion follows from the owner field alone.
\<close>

definition om_owns :: "om_pc \<Rightarrow> bool" where
  "om_owns p = (case p of
       MSpin _ q \<Rightarrow> (case q of SDur \<Rightarrow> True | SDurStore _ \<Rightarrow> True | SGotSucc \<Rightarrow> True | SGotSuccStore \<Rightarrow> True | _ \<Rightarrow> False)
     | MUnlink _ \<Rightarrow> True | MEgSucc \<Rightarrow> True | MEgSuccStore \<Rightarrow> True | MEgResp \<Rightarrow> True | MEgRespStore \<Rightarrow> True
     | MCountDec \<Rightarrow> True | MCS _ \<Rightarrow> True
     | MExit q \<Rightarrow> (case q of XEntry \<Rightarrow> False | XCxq _ \<Rightarrow> False | XSucc \<Rightarrow> False | XCas \<Rightarrow> False | _ \<Rightarrow> True)
     | _ \<Rightarrow> False)"

lemmas om_op_defs = jvmObjectMonitorEnter_def jvmObjectMonitorTryLock_def TryLock_cas_def jvmObjectMonitorTrySpin_def
  Enter_count_inc_def EnterI_node_def parkevent_init_event_def parkevent_init_parked_def EnterI_push_def EnterI_push_cas_def
  EnterI_resp_entry_def EnterI_resp_cas_def EnterI_choose_park_def park_def EnterI_futile_def EnterI_futile_store_def
  UnlinkAfterAcquire_def EnterI_succ_def EnterI_succ_store_def EnterI_resp_def EnterI_resp_store_def Enter_count_dec_def
  Exit_check_def jvmObjectMonitorExit_def unpark_def

lemmas om_goto_defs = spin_won_def spin_lost_def try_won_def try_lost_def spin_round_def park_return_def park_done_def

lemma om_owns_goto [simp]:
  "om_owns (spin_won site)" "\<not> om_owns (spin_lost site)" "om_owns (try_won t)" "\<not> om_owns (try_lost t)"
  "\<not> om_owns (spin_round site ctr prv)" "\<not> om_owns (park_return timed r)" "\<not> om_owns (park_done timed r)"
  by (auto simp: om_owns_def om_goto_defs split: spin_site.split try_site.split nat.split)

lemma om_owns_simps [simp]:
  "\<not> om_owns MIdle" "\<not> om_owns (MTry t)" "\<not> om_owns (MTryCas t)" "\<not> om_owns MCountInc" "\<not> om_owns MNodeInit"
  "\<not> om_owns MEventInit" "\<not> om_owns MParkedInit" "\<not> om_owns MPush" "\<not> om_owns (MPushCas n)" "\<not> om_owns MRespEntry"
  "\<not> om_owns MRespCas" "\<not> om_owns (MLoopResp r)" "\<not> om_owns (MPark b r p)" "\<not> om_owns (MFutile r)" "\<not> om_owns (MFutileStore r)"
  "om_owns (MUnlink u)" "om_owns MEgSucc" "om_owns MEgSuccStore" "om_owns MEgResp" "om_owns MEgRespStore" "om_owns MCountDec"
  "om_owns (MCS d)" "\<not> om_owns (MUnpark w np)" "\<not> om_owns MVMError" "\<not> om_owns MCrash"
  by (simp_all add: om_owns_def)

lemma om_owns_spin [simp]:
  "om_owns (MSpin site q) = (case q of SDur \<Rightarrow> True | SDurStore _ \<Rightarrow> True | SGotSucc \<Rightarrow> True | SGotSuccStore \<Rightarrow> True | _ \<Rightarrow> False)"
  "om_owns (MExit x) = (case x of XEntry \<Rightarrow> False | XCxq _ \<Rightarrow> False | XSucc \<Rightarrow> False | XCas \<Rightarrow> False | _ \<Rightarrow> True)"
  by (simp_all add: om_owns_def)

definition om_owner_inv :: "om_state \<Rightarrow> bool" where
  "om_owner_inv s \<longleftrightarrow> (\<forall>i. om_owns (m_pc s i) \<longrightarrow> m_owner s = Some i) \<and> (\<forall>i. m_pc s i \<noteq> MExit XFix)"

lemma om_step_other: "j \<noteq> fst l \<Longrightarrow> m_pc (om_step N l s) j = m_pc s j"
proof (cases "fst l < N")
  case True
  assume j: "j \<noteq> fst l"
  show ?thesis
  proof (cases "m_pc s (fst l)")
    case (MSpin site p)
    then show ?thesis using j by (cases p) (simp_all add: om_step_def Let_def om_op_defs)
  next
    case (MPark timed r p)
    then show ?thesis using j by (cases p) (simp_all add: om_step_def om_op_defs Let_def)
  next
    case (MUnlink p)
    then show ?thesis using j by (cases p) (simp_all add: om_step_def om_op_defs Let_def split: option.split ow_ptr.split)
  next
    case (MExit p)
    then show ?thesis using j by (cases p) (simp_all add: om_step_def om_op_defs Let_def split: option.split)
  next
    case (MUnpark w p)
    then show ?thesis using j by (cases p) (simp_all add: om_step_def om_op_defs Let_def)
  qed (use j in \<open>simp_all add: om_step_def om_op_defs Let_def\<close>)
qed (simp add: om_step_def Let_def)

text \<open>What a step does to the ownership: nothing, taking a free monitor, or giving the own one up.\<close>

definition om_own_change :: "tid \<Rightarrow> om_state \<Rightarrow> om_state \<Rightarrow> bool" where
  "om_own_change i s s' \<longleftrightarrow>
     m_owner s' = m_owner s \<and> (om_owns (m_pc s' i) \<longrightarrow> om_owns (m_pc s i)) \<or>
     m_owner s = None \<and> m_owner s' = Some i \<or>
     om_owns (m_pc s i) \<and> m_owner s' = None \<and> \<not> om_owns (m_pc s' i)"

lemma om_step_own:
  assumes inv: "om_owner_inv s"
  shows "om_own_change (fst l) s (om_step N l s) \<and> m_pc (om_step N l s) (fst l) \<noteq> MExit XFix"
proof (cases "fst l < N")
  case True
  let ?i = "fst l"
  have nf: "m_pc s ?i \<noteq> MExit XFix" using inv by (simp add: om_owner_inv_def)
  have ow: "om_owns (m_pc s ?i) \<Longrightarrow> m_owner s = Some ?i" using inv by (simp add: om_owner_inv_def)
  have g: "spin_won site \<noteq> MExit XFix" "spin_lost site \<noteq> MExit XFix" "try_won t \<noteq> MExit XFix" "try_lost t \<noteq> MExit XFix"
    "spin_round site c o' \<noteq> MExit XFix" "park_return b r \<noteq> MExit XFix" "park_done b r \<noteq> MExit XFix" for site t c o' b r
    by (auto simp: om_goto_defs split: spin_site.split try_site.split nat.split)
  note defs = om_own_change_def om_step_def om_op_defs Let_def
  show ?thesis
  proof (cases "m_pc s ?i")
    case (MSpin site p)
    then show ?thesis using True g by (cases p) (simp_all add: defs split: option.split)
  next
    case (MPark timed r p)
    then show ?thesis using True g by (cases p) (simp_all add: defs)
  next
    case (MUnlink p)
    then show ?thesis using True by (cases p) (simp_all add: defs split: option.split ow_ptr.split)
  next
    case (MExit p)
    then show ?thesis using True nf ow by (cases p) (simp_all add: defs split: option.split)
  next
    case (MUnpark w p)
    then show ?thesis using True by (cases p) (simp_all add: defs)
  next
    case (MCS d)
    then show ?thesis using True ow by (simp add: defs)
  qed (use True g in \<open>simp_all add: defs\<close>)
qed (use inv in \<open>simp add: om_own_change_def om_step_def Let_def om_owner_inv_def\<close>)

text \<open>The owner is at one of its positions, unless it has failed.\<close>

lemma om_step_conv:
  assumes ow: "m_owner s = Some (fst l) \<Longrightarrow> om_owns (m_pc s (fst l))" and o: "m_owner (om_step N l s) = Some (fst l)"
  shows "om_owns (m_pc (om_step N l s) (fst l)) \<or> m_pc (om_step N l s) (fst l) = MVMError \<or> m_pc (om_step N l s) (fst l) = MCrash"
proof (cases "fst l < N")
  case True
  note defs = om_step_def om_op_defs Let_def
  show ?thesis
  proof (cases "m_pc s (fst l)")
    case (MSpin site p)
    then show ?thesis using True ow o by (cases p) (auto simp: defs split: option.splits if_splits)
  next
    case (MPark timed r p)
    then show ?thesis using True ow o by (cases p) (auto simp: defs split: if_splits)
  next
    case (MUnlink p)
    then show ?thesis using True by (cases p) (auto simp: defs split: option.split ow_ptr.split)
  next
    case (MExit p)
    then show ?thesis using True ow o by (cases p) (auto simp: defs split: option.splits if_splits)
  next
    case (MUnpark w p)
    then show ?thesis using True ow o by (cases p) (auto simp: defs split: if_splits)
  qed (use True ow o in \<open>auto simp: defs split: if_splits\<close>)
qed (use ow o in \<open>simp add: om_step_def Let_def\<close>)

lemma om_owner_inv_step: "om_owner_inv s \<Longrightarrow> om_owner_inv (om_step N l s)"
proof -
  assume inv: "om_owner_inv s"
  let ?s = "om_step N l s" and ?i = "fst l"
  have o: "m_pc ?s j = m_pc s j" if "j \<noteq> ?i" for j using that by (rule om_step_other)
  have own: "om_owns (m_pc s j) \<Longrightarrow> m_owner s = Some j" for j using inv by (simp add: om_owner_inv_def)
  have c: "om_own_change ?i s ?s" "m_pc ?s ?i \<noteq> MExit XFix" using om_step_own [OF inv] by simp_all
  have "m_owner ?s = Some j" if "om_owns (m_pc ?s j)" for j
  proof (cases "j = ?i")
    case True
    then show ?thesis using that c(1) own [of ?i] by (auto simp: om_own_change_def)
  next
    case False
    then show ?thesis using that c(1) own [of j] own [of ?i] o [OF False] by (auto simp: om_own_change_def)
  qed
  moreover have "m_pc ?s j \<noteq> MExit XFix" for j using c(2) o [of j] inv by (cases "j = ?i") (simp_all add: om_owner_inv_def)
  ultimately show ?thesis by (simp add: om_owner_inv_def)
qed

interpretation jvm: lock_system
  "\<lambda>s. s = jvm_init_locks" "om_step N" om_owner_inv "\<lambda>s i. om_owns (m_pc s i)" fst for N
proof
  show "om_owner_inv s" if "s = jvm_init_locks" for s using that by (simp add: om_owner_inv_def jvm_init_locks_def)
  show "om_owner_inv (om_step N l s)" if "om_owner_inv s" for l s using that by (rule om_owner_inv_step)
  show "i = j" if "om_owner_inv s" "om_owns (m_pc s i)" "om_owns (m_pc s j)" for s i j
    using that unfolding om_owner_inv_def by (metis option.inject)
  show "om_owns (m_pc (om_step N l s) j) = om_owns (m_pc s j)" if "j \<noteq> fst l" for s j l using om_step_other [OF that] by simp
  show "\<not> om_owns (m_pc s i)" if "s = jvm_init_locks" for s i using that by (simp add: jvm_init_locks_def)
qed

end
