(* ===== verification/JVM_Lists.thy ===== *)
theory JVM_Lists
  imports JVM_Owner
begin

text \<open>
  The queues of the monitor: the stack \<open>_cxq\<close> and the doubly linked \<open>_EntryList\<close> hold exactly the waiting threads,
  each once. While the owner is in the middle of unlinking its node, the lists are those it will have made when
  it is done (\<open>eff_next\<close>, \<open>eff_prev\<close>, \<open>eff_entry\<close>); while it moves the stack over to the entry list, a part of the
  list is still marked \<open>TS_CXQ\<close>.
\<close>

section \<open>Linked lists\<close>

primrec chain :: "('a \<Rightarrow> 'a option) \<Rightarrow> 'a option \<Rightarrow> 'a list \<Rightarrow> bool" where
  "chain nx h [] \<longleftrightarrow> h = None"
| "chain nx h (a # as) \<longleftrightarrow> h = Some a \<and> chain nx (nx a) as"

primrec backl :: "(tid \<Rightarrow> ow_ptr) \<Rightarrow> ow_ptr \<Rightarrow> tid list \<Rightarrow> bool" where
  "backl pv q [] \<longleftrightarrow> True"
| "backl pv q (a # as) \<longleftrightarrow> pv a = q \<and> backl pv (OW a) as"

definition last_ptr :: "tid list \<Rightarrow> ow_ptr" where
  "last_ptr xs = (if xs = [] then OW_NULL else OW (last xs))"

lemma chain_upd: "u \<notin> set xs \<Longrightarrow> chain (nx(u := v)) h xs = chain nx h xs"
  by (induction xs arbitrary: h) auto

lemma backl_upd: "u \<notin> set xs \<Longrightarrow> backl (pv(u := v)) q xs = backl pv q xs"
  by (induction xs arbitrary: q) auto

lemma chain_None [simp]: "chain nx None xs \<longleftrightarrow> xs = []"
  by (cases xs) auto

lemma chain_Some: "chain nx (Some a) xs \<longleftrightarrow> (\<exists>ys. xs = a # ys \<and> chain nx (nx a) ys)"
  by (cases xs) auto

lemma chain_hd: "chain nx h xs \<Longrightarrow> h = (if xs = [] then None else Some (hd xs))"
  by (cases xs) auto

lemma chain_mid: "chain nx h (xs @ a # ys) \<Longrightarrow> chain nx (nx a) ys"
  by (induction xs arbitrary: h) auto

lemma chain_mid_hd: "chain nx h (xs @ a # ys) \<Longrightarrow> nx a = (if ys = [] then None else Some (hd ys))"
  by (rule chain_hd) (rule chain_mid)

lemma backl_app: "backl pv q (xs @ ys) \<longleftrightarrow> backl pv q xs \<and> backl pv (if xs = [] then q else OW (last xs)) ys"
  by (induction xs arbitrary: q) auto

lemma backl_mid: "backl pv OW_NULL (xs @ a # ys) \<Longrightarrow> pv a = last_ptr xs"
  by (auto simp: backl_app last_ptr_def)

text \<open>Taking an element out.\<close>

lemma chain_remove:
  "chain nx h (xs @ a # ys) \<Longrightarrow> distinct (xs @ a # ys) \<Longrightarrow> xs \<noteq> [] \<Longrightarrow> chain (nx(last xs := nx a)) h (xs @ ys)"
proof (induction xs arbitrary: h)
  case (Cons x xs)
  show ?case
  proof (cases "xs = []")
    case True
    have "chain (nx(x := nx a)) (nx a) ys" using Cons.prems chain_upd [of x ys nx "nx a" "nx a"] True by simp
    moreover have "(nx(x := nx a)) x = nx a" "h = Some x" using Cons.prems by simp_all
    ultimately show ?thesis unfolding True by (simp only: append_Cons append_Nil last.simps chain.simps simp_thms if_True)
  next
    case False
    then have "x \<noteq> last xs" using Cons.prems(2) by auto
    then show ?thesis using Cons.IH [of "nx x"] Cons.prems False by simp
  qed
qed simp

lemma backl_remove:
  assumes b: "backl pv OW_NULL (xs @ a # ys)" and d: "distinct (xs @ a # ys)"
  shows "backl (case ys of [] \<Rightarrow> pv | n # _ \<Rightarrow> pv(n := pv a)) OW_NULL (xs @ ys)"
proof (cases ys)
  case Nil
  then show ?thesis using b by (simp add: backl_app)
next
  case (Cons n zs)
  with d have "n \<notin> set xs" "n \<notin> set zs" by auto
  then show ?thesis using b Cons by (simp add: backl_app backl_upd split: if_splits)
qed

section \<open>Which threads wait, and what the owner is doing\<close>

definition site_queued :: "spin_site \<Rightarrow> bool" where
  "site_queued site = (case site of SpinFutile _ \<Rightarrow> True | _ \<Rightarrow> False)"

definition try_queued :: "try_site \<Rightarrow> bool" where
  "try_queued t = (case t of TPre site _ \<Rightarrow> site_queued site | TAbort site \<Rightarrow> site_queued site | TLoop _ \<Rightarrow> True | TWake _ \<Rightarrow> True
     | _ \<Rightarrow> False)"

definition om_queued :: "om_pc \<Rightarrow> bool" where
  "om_queued p = (case p of MTry t \<Rightarrow> try_queued t | MTryCas t \<Rightarrow> try_queued t | MSpin site _ \<Rightarrow> site_queued site
     | MRespEntry \<Rightarrow> True | MRespCas \<Rightarrow> True | MLoopResp _ \<Rightarrow> True | MPark _ _ _ \<Rightarrow> True | MFutile _ \<Rightarrow> True | MFutileStore _ \<Rightarrow> True
     | MUnlink u \<Rightarrow> (case u of UNextPrev _ _ \<Rightarrow> False | UPrevNext _ _ \<Rightarrow> False | UEntry _ \<Rightarrow> False | UEntryStore _ \<Rightarrow> False | _ \<Rightarrow> True)
     | _ \<Rightarrow> False)"

definition om_phase :: "om_state \<Rightarrow> om_pc" where
  "om_phase s = (case m_owner s of None \<Rightarrow> MIdle | Some i \<Rightarrow> m_pc s i)"

text \<open>The fields as they will be when the owner has unlinked its node.\<close>

definition eff_prev :: "om_pc \<Rightarrow> (tid \<Rightarrow> ow_ptr) \<Rightarrow> tid \<Rightarrow> ow_ptr" where
  "eff_prev p pv = (case p of MUnlink (UNextPrev (Some n) prv) \<Rightarrow> pv(n := prv) | _ \<Rightarrow> pv)"

definition eff_next :: "om_pc \<Rightarrow> (tid \<Rightarrow> tid option) \<Rightarrow> tid \<Rightarrow> tid option" where
  "eff_next p nx = (case p of MUnlink (UNextPrev nxt (OW q)) \<Rightarrow> nx(q := nxt) | MUnlink (UPrevNext nxt (OW q)) \<Rightarrow> nx(q := nxt) | _ \<Rightarrow> nx)"

definition eff_entry :: "om_pc \<Rightarrow> tid option \<Rightarrow> tid option \<Rightarrow> tid option" where
  "eff_entry p own e = (case p of
       MUnlink (UNextPrev nxt _) \<Rightarrow> if e = own then nxt else e
     | MUnlink (UPrevNext nxt _) \<Rightarrow> if e = own then nxt else e
     | MUnlink (UEntry nxt) \<Rightarrow> if e = own then nxt else e
     | MUnlink (UEntryStore nxt) \<Rightarrow> nxt
     | MExit (XSetEntry w) \<Rightarrow> w
     | _ \<Rightarrow> e)"

definition entered :: "(tid \<Rightarrow> ow_ptr) \<Rightarrow> (tid \<Rightarrow> TStates) \<Rightarrow> tid list \<Rightarrow> bool" where
  "entered pv ts ds \<longleftrightarrow> backl pv OW_NULL ds \<and> (\<forall>b\<in>set ds. ts b = TS_ENTER)"

text \<open>How far the owner has come in marking the entry list and setting its \<open>_prev\<close> fields.\<close>

definition entry_shape :: "om_pc \<Rightarrow> (tid \<Rightarrow> ow_ptr) \<Rightarrow> (tid \<Rightarrow> TStates) \<Rightarrow> tid list \<Rightarrow> bool" where
  "entry_shape p pv ts es = (case p of
       MExit (XSetEntry _) \<Rightarrow> \<forall>b\<in>set es. ts b = TS_CXQ
     | MExit (XState a q) \<Rightarrow> \<exists>ds rs. es = ds @ a # rs \<and> entered pv ts ds \<and> (\<forall>b\<in>set (a # rs). ts b = TS_CXQ) \<and> ow_of q = last_ptr ds
     | MExit (XPrev a q) \<Rightarrow> \<exists>ds rs. es = ds @ a # rs \<and> entered pv ts ds \<and> ts a = TS_ENTER \<and> (\<forall>b\<in>set rs. ts b = TS_CXQ) \<and> ow_of q = last_ptr ds
     | MExit (XNext a) \<Rightarrow> \<exists>ds rs. es = ds @ a # rs \<and> entered pv ts (ds @ [a]) \<and> (\<forall>b\<in>set rs. ts b = TS_CXQ)
     | _ \<Rightarrow> entered (eff_prev p pv) ts es)"

text \<open>What the owner knows at the other positions; \<open>i\<close> is the owner.\<close>

definition owner_local :: "om_pc \<Rightarrow> tid \<Rightarrow> om_state \<Rightarrow> tid list \<Rightarrow> tid list \<Rightarrow> bool" where
  "owner_local p i s cs es = (case p of
       MUnlink u \<Rightarrow> (case u of
           UNextPrev nxt prv \<Rightarrow> prv \<noteq> OW_BAD \<and> (\<forall>q. prv = OW q \<longrightarrow> q \<in> set es) \<and> (\<forall>n. nxt = Some n \<longrightarrow> n \<in> set es)
         | UPrevNext nxt prv \<Rightarrow> prv \<noteq> OW_BAD \<and> (\<forall>q. prv = OW q \<longrightarrow> q \<in> set es)
         | UEntryStore nxt \<Rightarrow> m_EntryList s = Some i
         | UCxq \<Rightarrow> i \<in> set cs | UCxqCas \<Rightarrow> i \<in> set cs
         | UReread \<Rightarrow> i \<in> set cs \<and> hd cs \<noteq> i
         | UWalk p q \<Rightarrow> (\<exists>as bs. cs = as @ bs \<and> chain (w_next s) p bs \<and> i \<in> set bs \<and>
             (case q of None \<Rightarrow> hd bs \<noteq> i | Some b \<Rightarrow> as \<noteq> [] \<and> last as = b))
         | _ \<Rightarrow> True)
     | MExit x \<Rightarrow> (case x of XPickCxq \<Rightarrow> es = [] | XDetach _ \<Rightarrow> es = [] | XEpSucc w \<Rightarrow> w \<in> set es | XEpDrop w \<Rightarrow> w \<in> set es | _ \<Rightarrow> True)
     | _ \<Rightarrow> True)"

definition om_lists :: "om_state \<Rightarrow> tid list \<Rightarrow> tid list \<Rightarrow> bool" where
  "om_lists s cs es \<longleftrightarrow> distinct (cs @ es) \<and> (\<forall>i. i \<in> set cs \<or> i \<in> set es \<longleftrightarrow> om_queued (m_pc s i)) \<and>
     chain (w_next s) (m_cxq s) cs \<and> (\<forall>a\<in>set cs. w_TState s a = TS_CXQ) \<and>
     chain (eff_next (om_phase s) (w_next s)) (eff_entry (om_phase s) (m_owner s) (m_EntryList s)) es \<and>
     entry_shape (om_phase s) (w_prev s) (w_TState s) es \<and>
     (\<forall>i. m_owner s = Some i \<longrightarrow> owner_local (om_phase s) i s cs es)"

lemma om_lists_distinct: "om_lists s cs es \<Longrightarrow> distinct (cs @ es)"
  and om_lists_mem: "om_lists s cs es \<Longrightarrow> i \<in> set cs \<or> i \<in> set es \<longleftrightarrow> om_queued (m_pc s i)"
  and om_lists_cxq: "om_lists s cs es \<Longrightarrow> chain (w_next s) (m_cxq s) cs"
  and om_lists_cxq_state: "om_lists s cs es \<Longrightarrow> a \<in> set cs \<Longrightarrow> w_TState s a = TS_CXQ"
  and om_lists_entry: "om_lists s cs es \<Longrightarrow>
    chain (eff_next (om_phase s) (w_next s)) (eff_entry (om_phase s) (m_owner s) (m_EntryList s)) es"
  and om_lists_shape: "om_lists s cs es \<Longrightarrow> entry_shape (om_phase s) (w_prev s) (w_TState s) es"
  and om_lists_local: "om_lists s cs es \<Longrightarrow> m_owner s = Some i \<Longrightarrow> owner_local (om_phase s) i s cs es"
  by (simp_all add: om_lists_def)

lemma om_listsI:
  assumes "distinct (cs @ es)" "\<And>i. i \<in> set cs \<or> i \<in> set es \<longleftrightarrow> om_queued (m_pc s i)"
    and "chain (w_next s) (m_cxq s) cs" "\<And>a. a \<in> set cs \<Longrightarrow> w_TState s a = TS_CXQ"
    and "chain (eff_next (om_phase s) (w_next s)) (eff_entry (om_phase s) (m_owner s) (m_EntryList s)) es"
    and "entry_shape (om_phase s) (w_prev s) (w_TState s) es"
    and "\<And>i. m_owner s = Some i \<Longrightarrow> owner_local (om_phase s) i s cs es"
  shows "om_lists s cs es"
  unfolding om_lists_def using assms by blast

text \<open>A node that is not linked yet.\<close>

definition node_fresh :: "om_pc \<Rightarrow> bool" where
  "node_fresh p = (case p of MEventInit \<Rightarrow> True | MParkedInit \<Rightarrow> True | MPush \<Rightarrow> True | MPushCas _ \<Rightarrow> True
     | MTry TPush \<Rightarrow> True | MTryCas TPush \<Rightarrow> True | _ \<Rightarrow> False)"

definition node_local :: "om_state \<Rightarrow> tid \<Rightarrow> bool" where
  "node_local s i \<longleftrightarrow> (node_fresh (m_pc s i) \<longrightarrow> w_TState s i = TS_CXQ) \<and>
     (\<forall>nxt. m_pc s i = MPushCas nxt \<longrightarrow> w_next s i = nxt) \<and> (m_owner s = Some i \<longrightarrow> om_owns (m_pc s i))"

section \<open>Steps that do not touch the lists\<close>

text \<open>Phases in which the lists are complete and the owner knows nothing special.\<close>

definition om_free :: "om_pc \<Rightarrow> bool" where
  "om_free p = (case p of MUnlink u \<Rightarrow> u = UState
     | MExit x \<Rightarrow> (case x of XPickCxq \<Rightarrow> False | XDetach _ \<Rightarrow> False | XSetEntry _ \<Rightarrow> False | XState _ _ \<Rightarrow> False | XPrev _ _ \<Rightarrow> False
         | XNext _ \<Rightarrow> False | XEpSucc _ \<Rightarrow> False | XEpDrop _ \<Rightarrow> False | _ \<Rightarrow> True)
     | _ \<Rightarrow> True)"

definition om_quiet :: "om_pc \<Rightarrow> bool" where
  "om_quiet p = (case p of MNodeInit \<Rightarrow> False | MPush \<Rightarrow> False | MPushCas _ \<Rightarrow> False | MUnlink _ \<Rightarrow> False
     | MExit x \<Rightarrow> (case x of XEntry \<Rightarrow> True | XCxq _ \<Rightarrow> True | XSucc \<Rightarrow> True | XCas \<Rightarrow> True | _ \<Rightarrow> False) | _ \<Rightarrow> True)"

definition list_fields :: "om_state \<Rightarrow> (tid \<Rightarrow> tid option) \<times> (tid \<Rightarrow> ow_ptr) \<times> (tid \<Rightarrow> TStates) \<times> tid option \<times> tid option" where
  "list_fields s = (w_next s, w_prev s, w_TState s, m_cxq s, m_EntryList s)"

lemmas om_class_defs = om_queued_def try_queued_def site_queued_def om_free_def node_fresh_def

lemma om_queued_simps [simp]:
  "\<not> om_queued MIdle" "om_queued (MTry t) \<longleftrightarrow> try_queued t"
  "om_queued (MTryCas t) \<longleftrightarrow> try_queued t"
  "om_queued (MSpin site q) \<longleftrightarrow> site_queued site" "\<not> om_queued MCountInc"
  "\<not> om_queued MNodeInit" "\<not> om_queued MEventInit" "\<not> om_queued MParkedInit" "\<not> om_queued MPush"
  "\<not> om_queued (MPushCas n)" "om_queued MRespEntry" "om_queued MRespCas" "om_queued (MLoopResp r)"
  "om_queued (MPark b r pp)" "om_queued (MFutile r)" "om_queued (MFutileStore r)" "\<not> om_queued MEgSucc"
  "\<not> om_queued MEgSuccStore" "\<not> om_queued MEgResp" "\<not> om_queued MEgRespStore" "\<not> om_queued MCountDec"
  "\<not> om_queued (MCS d)" "\<not> om_queued (MExit x)" "\<not> om_queued (MUnpark w np)"
  "try_queued (TPre site ctr) \<longleftrightarrow> site_queued site" "try_queued (TAbort site) \<longleftrightarrow> site_queued site" "\<not> try_queued TEnterI"
  "\<not> try_queued TPush" "try_queued (TLoop r)" "try_queued (TWake r)"
  "\<not> site_queued SpinEarly" "\<not> site_queued SpinEnterI" "site_queued (SpinFutile r)"
  by (simp_all add: om_queued_def try_queued_def site_queued_def)

lemma om_free_simps [simp]:
  "om_free MIdle" "om_free (MTry t)" "om_free (MTryCas t)" "om_free (MSpin site q)" "om_free MCountInc"
  "om_free MNodeInit" "om_free MEventInit" "om_free MParkedInit" "om_free MPush" "om_free (MPushCas n)"
  "om_free MRespEntry" "om_free MRespCas" "om_free (MLoopResp r)" "om_free (MPark b r pp)" "om_free (MFutile r)"
  "om_free (MFutileStore r)" "om_free MEgSucc" "om_free MEgSuccStore" "om_free MEgResp" "om_free MEgRespStore"
  "om_free MCountDec" "om_free (MCS d)" "om_free (MUnpark w np)"
  "om_free MVMError" "om_free MCrash" "om_free (MUnlink u) \<longleftrightarrow> u = UState"
  "om_free (MExit x) = (case x of XPickCxq \<Rightarrow> False | XDetach _ \<Rightarrow> False | XSetEntry _ \<Rightarrow> False | XState _ _ \<Rightarrow> False | XPrev _ _ \<Rightarrow> False
     | XNext _ \<Rightarrow> False | XEpSucc _ \<Rightarrow> False | XEpDrop _ \<Rightarrow> False | _ \<Rightarrow> True)"
  by (simp_all add: om_free_def)

lemma node_fresh_simps [simp]:
  "\<not> node_fresh MIdle" "node_fresh (MTry t) \<longleftrightarrow> t = TPush"
  "node_fresh (MTryCas t) \<longleftrightarrow> t = TPush" "\<not> node_fresh (MSpin site q)"
  "\<not> node_fresh MCountInc" "\<not> node_fresh MNodeInit" "node_fresh MEventInit" "node_fresh MParkedInit"
  "node_fresh MPush" "node_fresh (MPushCas n)" "\<not> node_fresh MRespEntry" "\<not> node_fresh MRespCas"
  "\<not> node_fresh (MLoopResp r)" "\<not> node_fresh (MPark b r pp)" "\<not> node_fresh (MFutile r)"
  "\<not> node_fresh (MFutileStore r)" "\<not> node_fresh (MUnlink u)" "\<not> node_fresh MEgSucc"
  "\<not> node_fresh MEgSuccStore" "\<not> node_fresh MEgResp" "\<not> node_fresh MEgRespStore"
  "\<not> node_fresh MCountDec" "\<not> node_fresh (MCS d)" "\<not> node_fresh (MExit x)"
  "\<not> node_fresh (MUnpark w np)"
  by (auto simp: node_fresh_def split: try_site.split)

lemma om_class_goto [simp]:
  "om_queued (spin_won site) = site_queued site" "om_queued (spin_lost site) = site_queued site"
  "om_queued (try_won t) = try_queued t" "om_queued (try_lost t) = try_queued t"
  "om_queued (spin_round site ctr prv) = site_queued site" "om_queued (park_return b r)" "om_queued (park_done b r)"
  "om_free (spin_won site)" "om_free (spin_lost site)" "om_free (try_won t)" "om_free (try_lost t)"
  "om_free (spin_round site ctr prv)" "om_free (park_return b r)" "om_free (park_done b r)"
  by (auto simp: om_class_defs om_goto_defs split: spin_site.split try_site.split nat.split)

lemma node_fresh_goto [simp]:
  "\<not> node_fresh (spin_won site)" "\<not> node_fresh (spin_lost site)" "\<not> node_fresh (try_won t)" "node_fresh (try_lost t) \<longleftrightarrow> t = TPush"
  "\<not> node_fresh (spin_round site ctr prv)" "\<not> node_fresh (park_return b r)" "\<not> node_fresh (park_done b r)"
  by (auto simp: om_class_defs om_goto_defs split: spin_site.split try_site.split nat.split)

lemma not_push_goto [simp]:
  "spin_won site \<noteq> MPushCas n" "spin_lost site \<noteq> MPushCas n" "try_won t \<noteq> MPushCas n" "try_lost t \<noteq> MPushCas n"
  "spin_round site ctr prv \<noteq> MPushCas n" "park_return b r \<noteq> MPushCas n" "park_done b r \<noteq> MPushCas n"
  by (auto simp: om_goto_defs split: spin_site.split try_site.split nat.split)

lemma om_quiet_step:
  assumes q: "om_quiet (m_pc s (fst l))"
  shows "list_fields (om_step N l s) = list_fields s \<and>
    (m_pc (om_step N l s) (fst l) = MVMError \<or> om_queued (m_pc (om_step N l s) (fst l)) = om_queued (m_pc s (fst l)) \<and>
      om_free (m_pc (om_step N l s) (fst l)) \<and> (node_fresh (m_pc (om_step N l s) (fst l)) \<longrightarrow> node_fresh (m_pc s (fst l))) \<and>
      (\<forall>nxt. m_pc (om_step N l s) (fst l) \<noteq> MPushCas nxt))"
proof (cases "fst l < N")
  case True
  note defs = list_fields_def om_step_def om_op_defs Let_def om_quiet_def
  show ?thesis
  proof (cases "m_pc s (fst l)")
    case (MSpin site p)
    then show ?thesis using True by (cases p) (simp_all add: defs split: option.split)
  next
    case (MPark timed r p)
    then show ?thesis using True by (cases p) (simp_all add: defs)
  next
    case (MExit p)
    then show ?thesis using True q by (cases p) (simp_all add: defs split: option.split)
  next
    case (MUnpark w p)
    then show ?thesis using True by (cases p) (simp_all add: defs)
  qed (use True q in \<open>simp_all add: defs\<close>)
next
  case False
  then show ?thesis using q by (cases "m_pc s (fst l)") (auto simp: list_fields_def om_step_def Let_def om_quiet_def om_free_def split: exit_pos.splits)
qed

lemma om_free_phase:
  assumes "om_free p"
  shows "eff_prev p pv = pv" "eff_next p nx = nx" "eff_entry p own e = e" "entry_shape p pv ts es \<longleftrightarrow> entered pv ts es"
    "owner_local p i s cs es"
proof -
  note defs = eff_prev_def eff_next_def eff_entry_def entry_shape_def owner_local_def
  have "eff_prev p pv = pv \<and> eff_next p nx = nx \<and> eff_entry p own e = e \<and> (entry_shape p pv ts es \<longleftrightarrow> entered pv ts es) \<and>
    owner_local p i s cs es"
  proof (cases p)
    case (MUnlink u)
    then show ?thesis using assms by (simp add: defs)
  next
    case (MExit x)
    then show ?thesis using assms by (cases x) (simp_all add: defs)
  qed (simp_all add: defs)
  then show "eff_prev p pv = pv" "eff_next p nx = nx" "eff_entry p own e = e" "entry_shape p pv ts es \<longleftrightarrow> entered pv ts es"
    "owner_local p i s cs es" by simp_all
qed

lemma list_fields_eq:
  assumes "list_fields s' = list_fields s"
  shows "w_next s' = w_next s" "w_prev s' = w_prev s" "w_TState s' = w_TState s" "m_cxq s' = m_cxq s" "m_EntryList s' = m_EntryList s"
  using assms by (simp_all add: list_fields_def)

lemma owner_local_fields:
  assumes f: "list_fields s' = list_fields s"
  shows "owner_local p i s' cs es = owner_local p i s cs es"
  unfolding owner_local_def list_fields_eq [OF f] by (rule refl)

lemma om_lists_frame:
  assumes l: "om_lists s cs es" and f: "list_fields s' = list_fields s" and q: "\<And>j. om_queued (m_pc s' j) = om_queued (m_pc s j)"
    and p: "om_phase s' = om_phase s \<and> m_owner s' = m_owner s \<or> om_free (om_phase s) \<and> om_free (om_phase s')"
  shows "om_lists s' cs es"
proof -
  note e = list_fields_eq [OF f] owner_local_fields [OF f]
  from p show ?thesis
  proof
    assume "om_phase s' = om_phase s \<and> m_owner s' = m_owner s"
    then show ?thesis using l q by (simp add: om_lists_def e)
  next
    assume p: "om_free (om_phase s) \<and> om_free (om_phase s')"
    show ?thesis using l q unfolding om_lists_def by (simp add: om_free_phase p e)
  qed
qed

lemma om_phase_step:
  assumes inv: "om_owner_inv s" "m_owner s = Some i \<Longrightarrow> om_owns (m_pc s i)" and c: "om_own_change i s s'"
    and o: "\<And>j. j \<noteq> i \<Longrightarrow> m_pc s' j = m_pc s j" and f: "om_free (m_pc s i)" "om_free (m_pc s' i)"
  shows "om_phase s' = om_phase s \<and> m_owner s' = m_owner s \<or> om_free (om_phase s) \<and> om_free (om_phase s')"
proof -
  from c show ?thesis unfolding om_own_change_def
  proof (elim disjE conjE)
    assume "m_owner s' = m_owner s"
    then show ?thesis using o f by (cases "m_owner s = Some i") (auto simp: om_phase_def split: option.splits)
  next
    assume "m_owner s = None" "m_owner s' = Some i"
    then show ?thesis using f by (simp add: om_phase_def)
  next
    assume "om_owns (m_pc s i)" "m_owner s' = None"
    moreover from this have "m_owner s = Some i" using inv by (simp add: om_owner_inv_def)
    ultimately show ?thesis using f by (simp add: om_phase_def)
  qed
qed

section \<open>The invariant and its frame\<close>

definition om_list_inv :: "om_state \<Rightarrow> bool" where
  "om_list_inv s \<longleftrightarrow> om_owner_inv s \<and> (\<exists>cs es. om_lists s cs es) \<and> (\<forall>i. node_local s i)"

lemma om_list_inv_owner: "om_list_inv s \<Longrightarrow> om_owner_inv s"
  and om_list_inv_local: "om_list_inv s \<Longrightarrow> node_local s i"
  by (simp_all add: om_list_inv_def)

lemma om_list_inv_own: "om_list_inv s \<Longrightarrow> m_owner s = Some i \<longleftrightarrow> om_owns (m_pc s i)"
  using om_list_inv_owner [of s] om_list_inv_local [of s i] unfolding om_owner_inv_def node_local_def by blast

lemma om_list_invI:
  assumes inv: "om_list_inv s" and l: "om_lists (om_step N l s) cs es"
    and e: "m_pc (om_step N l s) (fst l) \<noteq> MVMError" "m_pc (om_step N l s) (fst l) \<noteq> MCrash"
    and n: "node_fresh (m_pc (om_step N l s) (fst l)) \<Longrightarrow> w_TState (om_step N l s) (fst l) = TS_CXQ"
      "\<And>nxt. m_pc (om_step N l s) (fst l) = MPushCas nxt \<Longrightarrow> w_next (om_step N l s) (fst l) = nxt"
    and o: "\<And>j. j \<noteq> fst l \<Longrightarrow> node_fresh (m_pc s j) \<Longrightarrow> w_TState (om_step N l s) j = w_TState s j \<and> w_next (om_step N l s) j = w_next s j"
  shows "om_list_inv (om_step N l s)"
proof -
  let ?s = "om_step N l s"
  note ow = om_list_inv_owner [OF inv]
  have "node_local ?s j" for j
  proof (cases "j = fst l")
    case True
    have "m_owner ?s = Some (fst l) \<longrightarrow> om_owns (m_pc ?s (fst l))"
      using om_step_conv [of s l N] om_list_inv_own [OF inv, of "fst l"] e by blast
    with True n show ?thesis by (simp add: node_local_def)
  next
    case False
    note pc = om_step_other [OF False, of N s]
    have "m_owner ?s = Some j \<longrightarrow> m_owner s = Some j"
      using om_step_own [OF ow, of l N] False by (auto simp: om_own_change_def)
    then have "m_owner ?s = Some j \<longrightarrow> om_owns (m_pc ?s j)" using om_list_inv_own [OF inv, of j] pc by simp
    moreover have "node_fresh (m_pc s j) \<longrightarrow> w_TState s j = TS_CXQ" "\<And>nxt. m_pc s j = MPushCas nxt \<Longrightarrow> w_next s j = nxt"
      using om_list_inv_local [OF inv, of j] by (simp_all add: node_local_def)
    ultimately show ?thesis using o [OF False] pc by (auto simp: node_local_def)
  qed
  with l om_owner_inv_step [OF ow] show ?thesis by (auto simp: om_list_inv_def)
qed

text \<open>A step that leaves the lists alone and keeps the thread in the queue, or out of it.\<close>

lemma om_list_inv_keep:
  assumes inv: "om_list_inv s" and f: "list_fields (om_step N l s) = list_fields s"
    and q: "om_queued (m_pc (om_step N l s) (fst l)) = om_queued (m_pc s (fst l))"
    and fr: "om_free (m_pc s (fst l))" "om_free (m_pc (om_step N l s) (fst l))"
    and e: "m_pc (om_step N l s) (fst l) \<noteq> MVMError" "m_pc (om_step N l s) (fst l) \<noteq> MCrash"
    and n: "node_fresh (m_pc (om_step N l s) (fst l)) \<Longrightarrow> node_fresh (m_pc s (fst l))"
      "\<And>nxt. m_pc (om_step N l s) (fst l) \<noteq> MPushCas nxt"
  shows "om_list_inv (om_step N l s)"
proof -
  from inv obtain cs es where l: "om_lists s cs es" by (auto simp: om_list_inv_def)
  have "om_lists (om_step N l s) cs es"
  proof (rule om_lists_frame [OF l f])
    show "om_queued (m_pc (om_step N l s) j) = om_queued (m_pc s j)" for j
      using q om_step_other [of j l N s] by (cases "j = fst l") auto
    show "om_phase (om_step N l s) = om_phase s \<and> m_owner (om_step N l s) = m_owner s \<or>
      om_free (om_phase s) \<and> om_free (om_phase (om_step N l s))"
      using om_step_own [OF om_list_inv_owner [OF inv], of l N] om_list_inv_own [OF inv, of "fst l"]
      by (intro om_phase_step [OF om_list_inv_owner [OF inv] _ _ om_step_other fr]) simp_all
  qed
  then show ?thesis
  proof (rule om_list_invI [OF inv _ e])
    show "w_TState (om_step N l s) (fst l) = TS_CXQ" if "node_fresh (m_pc (om_step N l s) (fst l))"
      using om_list_inv_local [OF inv, of "fst l"] n(1) [OF that] list_fields_eq [OF f] by (simp add: node_local_def)
  qed (use n(2) list_fields_eq [OF f] in simp_all)
qed

lemma om_quiet_free: "om_quiet p \<Longrightarrow> om_free p"
  by (cases p) (auto simp: om_quiet_def split: exit_pos.splits)

lemma om_list_inv_quiet:
  assumes inv: "om_list_inv s" and q: "om_quiet (m_pc s (fst l))"
    and e: "m_pc (om_step N l s) (fst l) \<noteq> MVMError" "m_pc (om_step N l s) (fst l) \<noteq> MCrash"
  shows "om_list_inv (om_step N l s)"
  using om_quiet_step [OF q, of N] om_quiet_free [OF q] e by (intro om_list_inv_keep [OF inv]) auto

end
