(* ===== verification/JVM_Queue.thy ===== *)
theory JVM_Queue
  imports JVM_Lists
begin

text \<open>
  The steps that change the queues of the monitor: pushing on \<open>_cxq\<close>, unlinking after an acquisition, and moving
  the stack over to \<open>_EntryList\<close>.
\<close>

section \<open>Steps of threads that do not own the monitor\<close>

lemma chain_cong: "(\<And>a. a \<in> set xs \<Longrightarrow> f a = g a) \<Longrightarrow> chain f h xs = chain g h xs"
  by (induction xs arbitrary: h) simp_all

lemma backl_cong: "(\<And>a. a \<in> set xs \<Longrightarrow> f a = g a) \<Longrightarrow> backl f q xs = backl g q xs"
  by (induction xs arbitrary: q) simp_all

lemma eff_next_at: "f a = g a \<Longrightarrow> eff_next p f a = eff_next p g a"
  by (simp add: eff_next_def split: om_pc.split unlink_pos.split ow_ptr.split)

lemma eff_prev_at: "f a = g a \<Longrightarrow> eff_prev p f a = eff_prev p g a"
  by (simp add: eff_prev_def split: om_pc.split unlink_pos.split option.split)

lemma entered_cong:
  "(\<And>a. a \<in> set ds \<Longrightarrow> f a = g a \<and> t a = u a) \<Longrightarrow> entered f t ds = entered g u ds"
  using backl_cong [of ds f g OW_NULL] by (auto simp: entered_def)

lemma entry_shape_cong:
  assumes a: "\<And>a. a \<in> set es \<Longrightarrow> f a = g a \<and> t a = u a" and e: "entry_shape p f t es"
  shows "entry_shape p g u es"
proof -
  have ef: "entered f t es = entered g u es" by (rule entered_cong) (rule a)
  show ?thesis
proof (cases p)
  case (MExit x)
  show ?thesis
  proof (cases x)
    case (XState y q)
    with e MExit obtain ds rs where d: "es = ds @ y # rs" "entered f t ds" "\<forall>b\<in>set (y # rs). t b = TS_CXQ" "ow_of q = last_ptr ds"
      by (auto simp: entry_shape_def)
    moreover have "entered f t ds = entered g u ds" by (rule entered_cong) (use a d(1) in auto)
    moreover have "\<forall>b\<in>set (y # rs). u b = TS_CXQ" using d(1,3) a by auto
    ultimately show ?thesis using d MExit XState by (auto simp: entry_shape_def)
  next
    case (XPrev y q)
    with e MExit obtain ds rs where d: "es = ds @ y # rs" "entered f t ds" "t y = TS_ENTER" "\<forall>b\<in>set rs. t b = TS_CXQ" "ow_of q = last_ptr ds"
      by (auto simp: entry_shape_def)
    moreover have "entered f t ds = entered g u ds" by (rule entered_cong) (use a d(1) in auto)
    moreover have "u y = TS_ENTER" using d(1,3) a [of y] by simp
    moreover have "\<forall>b\<in>set rs. u b = TS_CXQ" using d(1,4) a by auto
    ultimately show ?thesis using d MExit XPrev by (auto simp: entry_shape_def)
  next
    case (XNext y)
    with e MExit obtain ds rs where d: "es = ds @ y # rs" "entered f t (ds @ [y])" "\<forall>b\<in>set rs. t b = TS_CXQ"
      by (auto simp: entry_shape_def)
    moreover have "entered f t (ds @ [y]) = entered g u (ds @ [y])" by (rule entered_cong) (use a d(1) in auto)
    moreover have "\<forall>b\<in>set rs. u b = TS_CXQ" using d(1,3) a by auto
    ultimately show ?thesis using d MExit XNext by (auto simp: entry_shape_def)
  next
    case (XSetEntry w)
    then show ?thesis using e a MExit by (auto simp: entry_shape_def)
  qed (use e MExit ef in \<open>simp_all add: entry_shape_def eff_prev_def\<close>)
next
  case (MUnlink v)
  have "eff_prev p f b = eff_prev p g b \<and> t b = u b" if "b \<in> set es" for b
    using a [OF that] eff_prev_at [of f b g p] by simp
  then have "entered (eff_prev p f) t es = entered (eff_prev p g) u es" by (rule entered_cong)
  then show ?thesis using e MUnlink by (simp add: entry_shape_def)
qed (use e ef in \<open>simp_all add: entry_shape_def eff_prev_def\<close>)
qed

text \<open>A step that changes fields of nodes outside the queues only.\<close>

lemma om_lists_outside:
  assumes l: "om_lists s cs es" and p: "om_phase s' = om_phase s" "m_owner s' = m_owner s"
    and q: "\<And>j. om_queued (m_pc s' j) = om_queued (m_pc s j)" and c: "m_cxq s' = m_cxq s" "m_EntryList s' = m_EntryList s"
    and a: "\<And>a. a \<in> set cs \<or> a \<in> set es \<Longrightarrow> w_next s' a = w_next s a \<and> w_prev s' a = w_prev s a \<and> w_TState s' a = w_TState s a"
  shows "om_lists s' cs es"
proof -
  have ts: "w_TState s' a = TS_CXQ" if "a \<in> set cs" for a using a [of a] om_lists_cxq_state [OF l that] that by simp
  have n: "chain (w_next s') h xs = chain (w_next s) h xs" if "set xs \<subseteq> set cs" for h xs
    by (rule chain_cong) (use a that in blast)
  have "chain (eff_next (om_phase s) (w_next s')) h es = chain (eff_next (om_phase s) (w_next s)) h es" for h
    by (rule chain_cong) (rule eff_next_at, use a in blast)
  moreover have "entry_shape (om_phase s) (w_prev s') (w_TState s') es"
    by (rule entry_shape_cong [of es "w_prev s" "w_prev s'" "w_TState s" "w_TState s'"]) (use a om_lists_shape [OF l] in auto)
  moreover have "owner_local (om_phase s) i s' cs es" if "owner_local (om_phase s) i s cs es" for i
  proof (cases "om_phase s")
    case (MUnlink u)
    then show ?thesis
    proof (cases u)
      case (UWalk x y)
      with that MUnlink obtain as bs where ab: "cs = as @ bs" "chain (w_next s) x bs" "i \<in> set bs"
        "case y of None \<Rightarrow> hd bs \<noteq> i | Some b \<Rightarrow> as \<noteq> [] \<and> last as = b" by (auto simp: owner_local_def)
      moreover from this have "chain (w_next s') x bs" using n [of bs] by simp
      ultimately show ?thesis using MUnlink UWalk by (auto simp: owner_local_def)
    qed (use that MUnlink c in \<open>simp_all add: owner_local_def\<close>)
  next
    case (MExit x)
    then show ?thesis using that by (cases x) (simp_all add: owner_local_def)
  qed (simp_all add: owner_local_def)
  ultimately show ?thesis
    using om_lists_distinct [OF l] om_lists_mem [OF l] om_lists_cxq [OF l] om_lists_cxq_state [OF l] om_lists_entry [OF l]
      om_lists_local [OF l] n [of cs] ts by (intro om_listsI) (simp_all add: q c p)
qed

lemma om_phase_other:
  assumes "m_owner s' = m_owner s" "m_owner s \<noteq> Some i" "\<And>j. j \<noteq> i \<Longrightarrow> m_pc s' j = m_pc s j"
  shows "om_phase s' = om_phase s"
  using assms by (auto simp: om_phase_def split: option.split)

lemma om_list_inv_node:
  assumes inv: "om_list_inv s" and p: "m_pc s (fst l) = MNodeInit \<or> m_pc s (fst l) = MPush" and N: "fst l < N"
  shows "om_list_inv (om_step N l s)"
proof -
  let ?s = "om_step N l s" and ?i = "fst l"
  from inv obtain cs es where l: "om_lists s cs es" by (auto simp: om_list_inv_def)
  have o: "m_owner s \<noteq> Some ?i" using om_list_inv_own [OF inv, of ?i] p by auto
  have ni: "?i \<notin> set cs" "?i \<notin> set es" using om_lists_mem [OF l, of ?i] p by auto
  have q: "\<not> om_queued (m_pc s ?i)" "\<not> om_queued (m_pc ?s ?i)" "m_owner ?s = m_owner s"
    using p N by (auto simp: om_step_def Let_def EnterI_node_def EnterI_push_def)
  have "om_lists ?s cs es"
  proof (rule om_lists_outside [OF l])
    show "om_phase ?s = om_phase s" by (rule om_phase_other [OF q(3) o]) (rule om_step_other)
    show "om_queued (m_pc ?s j) = om_queued (m_pc s j)" for j using q om_step_other [of j l N s] by (cases "j = ?i") simp_all
    show "w_next ?s a = w_next s a \<and> w_prev ?s a = w_prev s a \<and> w_TState ?s a = w_TState s a" if "a \<in> set cs \<or> a \<in> set es" for a
    proof -
      have "a \<noteq> ?i" using that ni by auto
      then show ?thesis using p N by (auto simp: om_step_def Let_def EnterI_node_def EnterI_push_def)
    qed
  qed (use p N in \<open>auto simp: om_step_def Let_def EnterI_node_def EnterI_push_def\<close>)
  moreover have "node_fresh (m_pc s ?i) \<longrightarrow> w_TState s ?i = TS_CXQ" using om_list_inv_local [OF inv, of ?i] by (simp add: node_local_def)
  ultimately show ?thesis
    by (intro om_list_invI [OF inv]) (use p N in \<open>auto simp: om_step_def Let_def EnterI_node_def EnterI_push_def\<close>)
qed

text \<open>The push.\<close>

lemma owner_local_push:
  assumes l: "owner_local p j s cs es" and i: "i \<noteq> j" and s: "w_next s' = w_next s" "m_EntryList s' = m_EntryList s"
  shows "owner_local p j s' (i # cs) es"
proof (cases p)
  case (MUnlink u)
  then show ?thesis
  proof (cases u)
    case (UWalk x y)
    with l MUnlink obtain as bs where ab: "cs = as @ bs" "chain (w_next s) x bs" "j \<in> set bs"
      "case y of None \<Rightarrow> hd bs \<noteq> j | Some b \<Rightarrow> as \<noteq> [] \<and> last as = b" by (auto simp: owner_local_def)
    then have "i # cs = (i # as) @ bs \<and> chain (w_next s') x bs \<and> j \<in> set bs \<and>
      (case y of None \<Rightarrow> hd bs \<noteq> j | Some b \<Rightarrow> i # as \<noteq> [] \<and> last (i # as) = b)" using s by (auto split: option.splits)
    then have "\<exists>as bs. i # cs = as @ bs \<and> chain (w_next s') x bs \<and> j \<in> set bs \<and>
      (case y of None \<Rightarrow> hd bs \<noteq> j | Some b \<Rightarrow> as \<noteq> [] \<and> last as = b)" by blast
    then show ?thesis unfolding owner_local_def MUnlink UWalk by simp
  qed (use l MUnlink i s in \<open>simp_all add: owner_local_def\<close>)
next
  case (MExit x)
  then show ?thesis using l by (cases x) (simp_all add: owner_local_def)
qed (simp_all add: owner_local_def)

lemma om_list_inv_push_cas:
  assumes inv: "om_list_inv s" and p: "m_pc s (fst l) = MPushCas nxt" and N: "fst l < N"
  shows "om_list_inv (om_step N l s)"
proof (cases "m_cxq s = nxt")
  case False
  then show ?thesis using p N om_list_inv_local [OF inv, of "fst l"]
    by (intro om_list_inv_keep [OF inv]) (simp_all add: om_step_def Let_def EnterI_push_cas_def list_fields_def)
next
  case True
  let ?s = "om_step N l s" and ?i = "fst l"
  from inv obtain cs es where l: "om_lists s cs es" by (auto simp: om_list_inv_def)
  have o: "m_owner s \<noteq> Some ?i" using om_list_inv_own [OF inv, of ?i] p by simp
  have ni: "?i \<notin> set cs" "?i \<notin> set es" using om_lists_mem [OF l, of ?i] p by auto
  have loc: "w_TState s ?i = TS_CXQ" "w_next s ?i = m_cxq s" using om_list_inv_local [OF inv, of ?i] p True by (simp_all add: node_local_def)
  have e: "?s = m_goto ?i (if nxt = None then MRespEntry else MTry (TLoop 1)) (s\<lparr>m_cxq := Some ?i\<rparr>)"
    using p N True by (simp add: om_step_def Let_def EnterI_push_cas_def)
  have ph: "om_phase ?s = om_phase s" by (rule om_phase_other [OF _ o om_step_other]) (simp add: e)
  have "om_lists ?s (?i # cs) es"
  proof (rule om_listsI)
    show "j \<in> set (?i # cs) \<or> j \<in> set es \<longleftrightarrow> om_queued (m_pc ?s j)" for j
      using om_lists_mem [OF l, of j] ni by (cases "j = ?i") (simp_all add: e)
    show "owner_local (om_phase ?s) j ?s (?i # cs) es" if "m_owner ?s = Some j" for j
      unfolding ph by (rule owner_local_push [of _ _ s]) (use that o om_lists_local [OF l] in \<open>auto simp: e\<close>)
    show "distinct ((?i # cs) @ es)" using om_lists_distinct [OF l] ni by simp
    show "chain (w_next ?s) (m_cxq ?s) (?i # cs)" using om_lists_cxq [OF l] loc by (simp add: e)
    show "w_TState ?s a = TS_CXQ" if "a \<in> set (?i # cs)" for a using that loc om_lists_cxq_state [OF l, of a] by (auto simp: e)
    show "chain (eff_next (om_phase ?s) (w_next ?s)) (eff_entry (om_phase ?s) (m_owner ?s) (m_EntryList ?s)) es"
      unfolding ph using om_lists_entry [OF l] by (simp add: e)
    show "entry_shape (om_phase ?s) (w_prev ?s) (w_TState ?s) es" unfolding ph using om_lists_shape [OF l] by (simp add: e)
  qed
  then show ?thesis using loc by (intro om_list_invI [OF inv]) (auto simp: e split: if_splits)
qed

section \<open>Steps of the owner\<close>

text \<open>Phases in which the fields are as they look.\<close>

definition om_plain :: "om_pc \<Rightarrow> bool" where
  "om_plain p = (case p of
       MUnlink u \<Rightarrow> (case u of UNextPrev _ _ \<Rightarrow> False | UPrevNext _ _ \<Rightarrow> False | UEntry _ \<Rightarrow> False | UEntryStore _ \<Rightarrow> False | _ \<Rightarrow> True)
     | MExit x \<Rightarrow> (case x of XSetEntry _ \<Rightarrow> False | XState _ _ \<Rightarrow> False | XPrev _ _ \<Rightarrow> False | XNext _ \<Rightarrow> False | _ \<Rightarrow> True)
     | _ \<Rightarrow> True)"

lemma om_plain_phase:
  assumes "om_plain p"
  shows "eff_prev p pv = pv" "eff_next p nx = nx" "eff_entry p own e = e" "entry_shape p pv ts es \<longleftrightarrow> entered pv ts es"
proof -
  note defs = eff_prev_def eff_next_def eff_entry_def entry_shape_def
  have "eff_prev p pv = pv \<and> eff_next p nx = nx \<and> eff_entry p own e = e \<and> (entry_shape p pv ts es \<longleftrightarrow> entered pv ts es)"
  proof (cases p)
    case (MUnlink u)
    then show ?thesis using assms by (cases u) (simp_all add: defs om_plain_def)
  next
    case (MExit x)
    then show ?thesis using assms by (cases x) (simp_all add: defs om_plain_def)
  qed (simp_all add: defs)
  then show "eff_prev p pv = pv" "eff_next p nx = nx" "eff_entry p own e = e" "entry_shape p pv ts es \<longleftrightarrow> entered pv ts es" by simp_all
qed

lemma om_owner_phase: "m_owner s = Some i \<Longrightarrow> om_phase s = m_pc s i"
  by (simp add: om_phase_def)

text \<open>What is to be shown of the lists after a step of the owner \<open>i\<close>, which stays the owner.\<close>

lemma om_own_listsI:
  assumes l: "om_lists s cs es" and i: "m_owner s = Some i" "m_owner s' = Some i" and pc: "\<And>j. j \<noteq> i \<Longrightarrow> m_pc s' j = m_pc s j"
    and d: "distinct (cs' @ es')" and m: "\<And>j. j \<noteq> i \<Longrightarrow> j \<in> set cs' \<or> j \<in> set es' \<longleftrightarrow> j \<in> set cs \<or> j \<in> set es"
      "i \<in> set cs' \<or> i \<in> set es' \<longleftrightarrow> om_queued (m_pc s' i)"
    and c: "chain (w_next s') (m_cxq s') cs'" "\<And>a. a \<in> set cs' \<Longrightarrow> w_TState s' a = TS_CXQ"
    and e: "chain (eff_next (m_pc s' i) (w_next s')) (eff_entry (m_pc s' i) (Some i) (m_EntryList s')) es'"
      "entry_shape (m_pc s' i) (w_prev s') (w_TState s') es'"
    and o: "owner_local (m_pc s' i) i s' cs' es'"
  shows "om_lists s' cs' es'"
proof (rule om_listsI [OF d])
  note ph = om_owner_phase [OF i(2)]
  show "j \<in> set cs' \<or> j \<in> set es' \<longleftrightarrow> om_queued (m_pc s' j)" for j
    using m om_lists_mem [OF l, of j] pc by (cases "j = i") simp_all
  show "owner_local (om_phase s') j s' cs' es'" if "m_owner s' = Some j" for j using that i(2) o ph by simp
qed (use c e i(2) om_owner_phase [OF i(2)] in simp_all)

text \<open>A step of the owner as an intermediate lemma: everything else of the invariant is the same for all of them.\<close>

lemma om_owner_fresh: "om_owns p \<Longrightarrow> \<not> node_fresh p"
  by (cases p) (auto split: try_site.splits)

lemma om_list_inv_owner_step:
  assumes inv: "om_list_inv s" and i: "om_owns (m_pc s (fst l))" "om_owns (m_pc (om_step N l s) (fst l))"
    and l: "\<And>cs es. om_lists s cs es \<Longrightarrow> \<exists>cs' es'. om_lists (om_step N l s) cs' es'"
    and o: "\<And>j. j \<noteq> fst l \<Longrightarrow> node_fresh (m_pc s j) \<Longrightarrow> w_TState (om_step N l s) j = w_TState s j \<and> w_next (om_step N l s) j = w_next s j"
  shows "om_list_inv (om_step N l s)"
proof -
  from inv obtain cs es where "om_lists s cs es" by (auto simp: om_list_inv_def)
  from l [OF this] obtain cs' es' where "om_lists (om_step N l s) cs' es'" by blast
  moreover have "m_pc (om_step N l s) (fst l) \<noteq> MVMError" "m_pc (om_step N l s) (fst l) \<noteq> MCrash" using i by auto
  ultimately show ?thesis using om_owner_fresh [OF i(2)] i(2) by (intro om_list_invI [OF inv _ _ _ _ _ o]) auto
qed

lemma om_list_inv_plain:
  assumes inv: "om_list_inv s" and i: "om_owns (m_pc s (fst l))" "om_owns (m_pc (om_step N l s) (fst l))"
    and f: "list_fields (om_step N l s) = list_fields s" "m_owner (om_step N l s) = m_owner s"
      "om_queued (m_pc (om_step N l s) (fst l)) = om_queued (m_pc s (fst l))"
    and p: "om_plain (m_pc s (fst l))" "om_plain (m_pc (om_step N l s) (fst l))"
    and o: "\<And>cs es. om_lists s cs es \<Longrightarrow> owner_local (m_pc (om_step N l s) (fst l)) (fst l) s cs es"
  shows "om_list_inv (om_step N l s)"
proof (rule om_list_inv_owner_step [OF inv i])
  fix cs es assume l: "om_lists s cs es"
  have ow: "m_owner s = Some (fst l)" using om_list_inv_own [OF inv] i by simp
  note e = list_fields_eq [OF f(1)] om_plain_phase [OF p(1)] om_plain_phase [OF p(2)] om_owner_phase [OF ow]
  have "om_lists (om_step N l s) cs es"
    by (rule om_own_listsI [OF l ow _ om_step_other om_lists_distinct [OF l]])
      (use f ow om_lists_mem [OF l, of "fst l"] om_lists_cxq [OF l] om_lists_cxq_state [OF l] om_lists_entry [OF l] om_lists_shape [OF l]
        o [OF l] owner_local_fields [OF f(1)] in \<open>simp_all add: e\<close>)
  then show "\<exists>cs' es'. om_lists (om_step N l s) cs' es'" by blast
qed (use list_fields_eq [OF f(1)] in simp)

section \<open>Unlinking\<close>

lemma om_plain_simps [simp]:
  "om_plain (MUnlink UState)" "om_plain (MUnlink UCxq)" "om_plain (MUnlink UCxqCas)" "om_plain (MUnlink UReread)"
  "om_plain (MUnlink (UWalk a b))" "om_plain MEgSucc"
  by (simp_all add: om_plain_def)

lemma om_queued_unlink [simp]:
  "om_queued (MUnlink u) = (case u of UNextPrev _ _ \<Rightarrow> False | UPrevNext _ _ \<Rightarrow> False | UEntry _ \<Rightarrow> False | UEntryStore _ \<Rightarrow> False | _ \<Rightarrow> True)"
  by (simp add: om_queued_def)

lemma fresh_not_queued: "node_fresh p \<Longrightarrow> \<not> om_queued p"
  by (cases p) (auto simp: node_fresh_def split: try_site.splits)

text \<open>Taking the owner's node out of the entry list, as it will be when the three writes are done.\<close>

lemma om_unlink_entry:
  assumes l: "om_lists s cs es" and i: "m_owner s = Some i" and p: "m_pc s i = MUnlink UState" and t: "w_TState s i = TS_ENTER"
    and s': "s' = m_goto i (MUnlink (UNextPrev (w_next s i) (w_prev s i))) s"
  shows "\<exists>es'. om_lists s' cs es'"
proof -
  note ph = om_owner_phase [OF i] p
  have "i \<in> set cs \<or> i \<in> set es" using om_lists_mem [OF l, of i] p by simp
  moreover have "i \<notin> set cs" using om_lists_cxq_state [OF l, of i] t by auto
  ultimately obtain xs ys where es: "es = xs @ i # ys" by (auto dest: split_list)
  note d = om_lists_distinct [OF l, unfolded es]
  have ch: "chain (w_next s) (m_EntryList s) (xs @ i # ys)" using om_lists_entry [OF l] by (simp add: ph om_plain_phase es)
  have en: "entered (w_prev s) (w_TState s) (xs @ i # ys)" using om_lists_shape [OF l] by (simp add: ph om_plain_phase es)
  have nx: "w_next s i = (if ys = [] then None else Some (hd ys))" by (rule chain_mid_hd [OF ch])
  have pv: "w_prev s i = last_ptr xs" using en by (auto simp: entered_def dest: backl_mid)
  let ?p = "MUnlink (UNextPrev (w_next s i) (w_prev s i))"
  have "om_lists s' cs (xs @ ys)"
  proof (rule om_own_listsI [OF l i])
    show "chain (eff_next (m_pc s' i) (w_next s')) (eff_entry (m_pc s' i) (Some i) (m_EntryList s')) (xs @ ys)"
    proof (cases "xs = []")
      case True
      then show ?thesis using ch by (simp add: s' eff_next_def eff_entry_def pv last_ptr_def)
    next
      case False
      then have "m_EntryList s \<noteq> Some i" using chain_hd [OF ch] d by (cases xs) auto
      moreover have "chain ((w_next s)(last xs := w_next s i)) (m_EntryList s) (xs @ ys)" using chain_remove [OF ch _ False] d by simp
      ultimately show ?thesis using False by (simp add: s' eff_next_def eff_entry_def pv last_ptr_def)
    qed
    have "backl (eff_prev ?p (w_prev s)) OW_NULL (xs @ ys)"
    proof (cases ys)
      case Nil
      then show ?thesis using en by (simp add: eff_prev_def nx entered_def backl_app)
    next
      case (Cons n zs)
      then show ?thesis using backl_remove [of "w_prev s" xs i ys] en d by (simp add: eff_prev_def nx entered_def)
    qed
    then show "entry_shape (m_pc s' i) (w_prev s') (w_TState s') (xs @ ys)"
      using en by (simp add: s' entry_shape_def entered_def)
    show "owner_local (m_pc s' i) i s' cs (xs @ ys)"
      using d by (auto simp: s' owner_local_def pv nx last_ptr_def split: if_splits)
    show "distinct (cs @ xs @ ys)" using d by simp
    show "j \<in> set cs \<or> j \<in> set (xs @ ys) \<longleftrightarrow> j \<in> set cs \<or> j \<in> set es" if "j \<noteq> i" for j using that by (auto simp: es)
    show "i \<in> set cs \<or> i \<in> set (xs @ ys) \<longleftrightarrow> om_queued (m_pc s' i)" using d by (auto simp: s')
  qed (use i om_lists_cxq [OF l] om_lists_cxq_state [OF l] in \<open>simp_all add: s'\<close>)
  then show ?thesis ..
qed

text \<open>The three writes make the effective fields the real ones.\<close>

lemma om_unlink_write:
  assumes l: "om_lists s cs es" and i: "m_owner s = Some i" "m_owner s' = Some i"
    and pc: "m_pc s' = (m_pc s)(i := p')" "\<not> om_queued (m_pc s i)" "\<not> om_queued p'"
    and f: "m_cxq s' = m_cxq s" "w_TState s' = w_TState s" "\<And>a. a \<notin> set es \<Longrightarrow> w_next s' a = w_next s a"
    and e: "eff_next p' (w_next s') = eff_next (m_pc s i) (w_next s)" "eff_prev p' (w_prev s') = eff_prev (m_pc s i) (w_prev s)"
      "eff_entry p' (Some i) (m_EntryList s') = eff_entry (m_pc s i) (Some i) (m_EntryList s)"
    and sh: "\<And>pv ts. entry_shape p' pv ts es \<longleftrightarrow> entered (eff_prev p' pv) ts es"
      "\<And>pv ts. entry_shape (m_pc s i) pv ts es \<longleftrightarrow> entered (eff_prev (m_pc s i) pv) ts es"
    and o: "owner_local p' i s' cs es"
  shows "om_lists s' cs es"
proof (rule om_own_listsI [OF l i])
  note ph = om_owner_phase [OF i(1)]
  have "chain (w_next s') (m_cxq s) cs = chain (w_next s) (m_cxq s) cs"
    by (rule chain_cong) (use f(3) om_lists_distinct [OF l] in auto)
  then show "chain (w_next s') (m_cxq s') cs" using om_lists_cxq [OF l] f by simp
  show "i \<in> set cs \<or> i \<in> set es \<longleftrightarrow> om_queued (m_pc s' i)" using om_lists_mem [OF l, of i] pc by simp
  show "chain (eff_next (m_pc s' i) (w_next s')) (eff_entry (m_pc s' i) (Some i) (m_EntryList s')) es"
    using om_lists_entry [OF l] by (simp add: pc e ph i)
  show "entry_shape (m_pc s' i) (w_prev s') (w_TState s') es" using om_lists_shape [OF l] by (simp add: pc sh e f ph)
qed (use om_lists_distinct [OF l] om_lists_cxq_state [OF l] f o pc in simp_all)

lemma om_list_inv_unlink_write:
  assumes inv: "om_list_inv s" and p: "m_pc s (fst l) = MUnlink u" "\<not> om_queued (MUnlink u)" and N: "fst l < N"
  shows "om_list_inv (om_step N l s)"
proof -
  let ?i = "fst l" and ?s = "om_step N l s"
  have ow: "m_owner s = Some ?i" using om_list_inv_own [OF inv] p by simp
  note ph = om_owner_phase [OF ow]
  have st: "?s = UnlinkAfterAcquire ?i u s" using p N by (simp add: om_step_def Let_def)
  note effs = eff_next_def eff_prev_def eff_entry_def entry_shape_def UnlinkAfterAcquire_def
  from inv obtain cs es where l: "om_lists s cs es" by (auto simp: om_list_inv_def)
  have lo: "owner_local (m_pc s ?i) ?i s cs es" using om_lists_local [OF l ow] ph by simp
  have fr: "a \<notin> set es" if "node_fresh (m_pc s a)" for a
    using om_lists_mem [OF l, of a] fresh_not_queued [OF that] by simp
  have "om_lists ?s cs es \<and> om_owns (m_pc ?s ?i) \<and> (\<forall>j. node_fresh (m_pc s j) \<longrightarrow> w_TState ?s j = w_TState s j \<and> w_next ?s j = w_next s j)"
  proof (cases u)
    case (UNextPrev nxt prv)
    have "om_lists ?s cs es"
      by (rule om_unlink_write [OF l ow, of _ "MUnlink (UPrevNext nxt prv)"])
        (use p lo ow in \<open>auto simp: st UNextPrev effs owner_local_def split: option.split ow_ptr.split\<close>)
    then show ?thesis by (auto simp: st UNextPrev UnlinkAfterAcquire_def split: option.split)
  next
    case (UPrevNext nxt prv)
    have "om_lists ?s cs es"
      by (rule om_unlink_write [OF l ow, of _ "MUnlink (UEntry nxt)"])
        (use p lo ow in \<open>auto simp: st UPrevNext effs owner_local_def split: ow_ptr.split\<close>)
    moreover have "\<forall>j. node_fresh (m_pc s j) \<longrightarrow> w_next ?s j = w_next s j" "om_owns (m_pc ?s ?i)" "w_TState ?s = w_TState s"
      using lo p fr by (auto simp: st UPrevNext UnlinkAfterAcquire_def owner_local_def split: ow_ptr.split)
    ultimately show ?thesis by simp
  next
    case (UEntry nxt)
    have "om_lists ?s cs es"
      by (rule om_unlink_write [OF l ow, of _ "if m_EntryList s = Some ?i then MUnlink (UEntryStore nxt) else MEgSucc"])
        (use p lo ow in \<open>auto simp: st UEntry effs owner_local_def\<close>)
    then show ?thesis by (simp add: st UEntry UnlinkAfterAcquire_def)
  next
    case (UEntryStore nxt)
    have "om_lists ?s cs es"
      by (rule om_unlink_write [OF l ow, of _ MEgSucc]) (use p lo ow in \<open>auto simp: st UEntryStore effs owner_local_def\<close>)
    then show ?thesis by (simp add: st UEntryStore UnlinkAfterAcquire_def)
  qed (use p in simp_all)
  then show ?thesis using p by (intro om_list_inv_owner_step [OF inv]) auto
qed

text \<open>Out of the stack: at the top with a compare-and-exchange, further down behind the predecessor that the walk found.\<close>

lemma om_lists_entry_plain:
  assumes l: "om_lists s cs es" and i: "m_owner s = Some i" "om_plain (m_pc s i)"
  shows "chain (w_next s) (m_EntryList s) es" "entered (w_prev s) (w_TState s) es"
  using om_lists_entry [OF l] om_lists_shape [OF l] by (simp_all add: om_owner_phase [OF i(1)] om_plain_phase [OF i(2)])

lemma om_pop_cxq:
  assumes l: "om_lists s cs es" and i: "m_owner s = Some i" "m_pc s i = MUnlink UCxqCas" and c: "m_cxq s = Some i"
    and s': "s' = m_goto i MEgSucc (s\<lparr>m_cxq := w_next s i\<rparr>)"
  shows "\<exists>cs'. om_lists s' cs' es"
proof -
  from om_lists_cxq [OF l] c obtain cs' where cs: "cs = i # cs'" "chain (w_next s) (w_next s i) cs'" by (auto simp: chain_Some)
  note d = om_lists_distinct [OF l]
  have pl: "om_plain (m_pc s i)" by (simp add: i)
  have "om_lists s' cs' es"
    by (rule om_own_listsI [OF l i(1)])
      (use i cs d om_lists_cxq_state [OF l] om_lists_entry_plain [OF l i(1) pl] in
        \<open>auto simp: s' om_plain_phase owner_local_def\<close>)
  then show ?thesis ..
qed

lemma om_walk_unlink:
  assumes l: "om_lists s cs es" and i: "m_owner s = Some i" "m_pc s i = MUnlink (UWalk (Some i) (Some b))"
    and s': "s' = m_goto i MEgSucc (s\<lparr>w_next := (w_next s)(b := w_next s i)\<rparr>)"
  shows "\<exists>cs'. om_lists s' cs' es" "b \<in> set cs"
proof -
  have pl: "om_plain (m_pc s i)" by (simp add: i)
  note d = om_lists_distinct [OF l] and e = om_lists_entry_plain [OF l i(1) pl]
  from om_lists_local [OF l i(1)] obtain as bs where ab: "cs = as @ bs" "chain (w_next s) (Some i) bs" "as \<noteq> []" "last as = b"
    by (auto simp: om_owner_phase [OF i(1)] i(2) owner_local_def)
  then obtain ys where bs: "bs = i # ys" by (auto simp: chain_Some)
  show b: "b \<in> set cs" using ab(1,3,4) by auto
  then have ne: "b \<notin> set es" using d by auto
  have "distinct (as @ i # ys)" using d ab(1) bs by auto
  then have c: "chain ((w_next s)(b := w_next s i)) (m_cxq s) (as @ ys)"
    using chain_remove [of "w_next s" "m_cxq s" as i ys] om_lists_cxq [OF l] ab bs by simp
  have ce: "chain ((w_next s)(b := w_next s i)) (m_EntryList s) es" using e(1) chain_upd [OF ne] by simp
  have "om_lists s' (as @ ys) es"
  proof (rule om_own_listsI [OF l i(1)])
    show "chain (w_next s') (m_cxq s') (as @ ys)" using c by (simp add: s' del: fun_upd_apply)
    show "chain (eff_next (m_pc s' i) (w_next s')) (eff_entry (m_pc s' i) (Some i) (m_EntryList s')) es"
      using ce by (simp add: s' om_plain_phase)
  qed (use i d ab bs om_lists_cxq_state [OF l] e in \<open>auto simp: s' om_plain_phase owner_local_def\<close>)
  then show "\<exists>cs'. om_lists s' cs' es" ..
qed

lemma owner_local_walk_start:
  "i \<in> set cs \<Longrightarrow> hd cs \<noteq> i \<Longrightarrow> chain (w_next s) h cs \<Longrightarrow> owner_local (MUnlink (UWalk h None)) i s cs es"
  unfolding owner_local_def by (simp, intro exI [of _ "[]"] exI [of _ cs]) simp

lemma om_list_inv_unlink_cxq:
  assumes inv: "om_list_inv s" and p: "m_pc s (fst l) = MUnlink u" "om_queued (MUnlink u)" and N: "fst l < N"
  shows "om_list_inv (om_step N l s)"
proof -
  let ?i = "fst l" and ?s = "om_step N l s"
  have ow: "m_owner s = Some ?i" using om_list_inv_own [OF inv] p by simp
  note ph = om_owner_phase [OF ow]
  have st: "?s = UnlinkAfterAcquire ?i u s" using p N by (simp add: om_step_def Let_def)
  from inv obtain cs0 es0 where l0: "om_lists s cs0 es0" by (auto simp: om_list_inv_def)
  have lo0: "owner_local (m_pc s ?i) ?i s cs0 es0" using om_lists_local [OF l0 ow] ph by simp
  have lo: "owner_local (m_pc s ?i) ?i s cs es" if "om_lists s cs es" for cs es using om_lists_local [OF that ow] ph by simp
  have fr: "a \<notin> set cs0" if "node_fresh (m_pc s a)" for a
    using om_lists_mem [OF l0, of a] fresh_not_queued [OF that] by simp
  note defs = st UnlinkAfterAcquire_def list_fields_def
  show ?thesis
  proof (cases u)
    case UState
    show ?thesis
    proof (cases "w_TState s ?i = TS_ENTER")
      case True
      have "\<exists>cs' es'. om_lists ?s cs' es'" using om_unlink_entry [OF l0 ow _ True refl] p UState True by (auto simp: defs)
      then show ?thesis using p UState True by (intro om_list_inv_owner_step [OF inv]) (simp_all add: defs)
    next
      case False
      have "?i \<in> set cs" if l: "om_lists s cs es" for cs es
      proof -
        have "om_plain (m_pc s ?i)" by (simp add: p UState)
        then have "?i \<notin> set es" using om_lists_entry_plain(2) [OF l ow] False by (auto simp: entered_def)
        then show ?thesis using om_lists_mem [OF l, of ?i] p UState by simp
      qed
      then show ?thesis using p UState False by (intro om_list_inv_plain [OF inv]) (simp_all add: defs owner_local_def)
    qed
  next
    case UCxq
    have "hd cs \<noteq> ?i" "?i \<in> set cs" "chain (w_next s) (m_cxq s) cs" if "om_lists s cs es" "m_cxq s \<noteq> Some ?i" for cs es
      using chain_hd [OF om_lists_cxq [OF that(1)]] that(2) lo [OF that(1)] om_lists_cxq [OF that(1)] p UCxq
      by (auto simp: owner_local_def split: if_splits)
    moreover have "owner_local (MUnlink UCxqCas) ?i s cs es" if "om_lists s cs es" for cs es
      using lo [OF that] p UCxq by (simp add: owner_local_def)
    ultimately show ?thesis using p UCxq by (intro om_list_inv_plain [OF inv]) (auto simp: defs intro: owner_local_walk_start)
  next
    case UCxqCas
    show ?thesis
    proof (cases "m_cxq s = Some ?i")
      case True
      have "\<exists>cs' es'. om_lists ?s cs' es'" using om_pop_cxq [OF l0 ow _ True refl] p UCxqCas True by (auto simp: defs)
      then show ?thesis using p UCxqCas True by (intro om_list_inv_owner_step [OF inv]) (simp_all add: defs)
    next
      case False
      have "?i \<in> set cs \<and> hd cs \<noteq> ?i" if "om_lists s cs es" for cs es
        using chain_hd [OF om_lists_cxq [OF that]] False lo [OF that] p UCxqCas by (auto simp: owner_local_def split: if_splits)
      then show ?thesis using p UCxqCas False by (intro om_list_inv_plain [OF inv]) (simp_all add: defs owner_local_def)
    qed
  next
    case UReread
    have "?i \<in> set cs \<and> hd cs \<noteq> ?i \<and> chain (w_next s) (m_cxq s) cs" if "om_lists s cs es" for cs es
      using lo [OF that] om_lists_cxq [OF that] p UReread by (auto simp: owner_local_def)
    then show ?thesis using p UReread by (intro om_list_inv_plain [OF inv]) (auto simp: defs intro: owner_local_walk_start)
  next
    case (UWalk x y)
    obtain w where x: "x = Some w" using lo0 p UWalk by (cases x) (auto simp: owner_local_def)
    show ?thesis
    proof (cases "w = ?i")
      case True
      obtain b where y: "y = Some b" using lo0 p UWalk x True by (cases y) (auto simp: owner_local_def chain_Some)
      have pc: "m_pc s ?i = MUnlink (UWalk (Some ?i) (Some b))" using p UWalk x y True by simp
      note w = om_walk_unlink [OF l0 ow pc refl]
      have e: "?s = m_goto ?i MEgSucc (s\<lparr>w_next := (w_next s)(b := w_next s ?i)\<rparr>)" using UWalk x y True by (simp add: defs)
      have "\<exists>cs' es'. om_lists ?s cs' es'" using w(1) unfolding e by blast
      moreover have "w_next ?s j = w_next s j" if "node_fresh (m_pc s j)" for j using fr [OF that] w(2) by (auto simp: e)
      ultimately show ?thesis using p by (intro om_list_inv_owner_step [OF inv]) (simp_all add: e)
    next
      case False
      have "owner_local (MUnlink (UWalk (w_next s w) (Some w))) ?i s cs es" if l: "om_lists s cs es" for cs es
      proof -
        from lo [OF l] p UWalk x obtain as bs where ab: "cs = as @ w # bs" "chain (w_next s) (w_next s w) bs" "?i \<in> set (w # bs)"
          by (auto simp: owner_local_def chain_Some)
        then have "cs = (as @ [w]) @ bs \<and> chain (w_next s) (w_next s w) bs \<and> ?i \<in> set bs \<and>
          (case Some w of None \<Rightarrow> hd bs \<noteq> ?i | Some b \<Rightarrow> as @ [w] \<noteq> [] \<and> last (as @ [w]) = b)" using False by auto
        then show ?thesis unfolding owner_local_def by (simp only: om_pc.case unlink_pos.case) blast
      qed
      then show ?thesis using p UWalk x False by (intro om_list_inv_plain [OF inv]) (simp_all add: defs)
    qed
  qed (use p in simp_all)
qed

section \<open>Leaving\<close>

lemma om_plain_exit [simp]:
  "om_plain (MExit x) = (case x of XSetEntry _ \<Rightarrow> False | XState _ _ \<Rightarrow> False | XPrev _ _ \<Rightarrow> False | XNext _ \<Rightarrow> False | _ \<Rightarrow> True)"
  by (simp add: om_plain_def)

lemmas om_shape_defs = eff_next_def eff_prev_def eff_entry_def entry_shape_def owner_local_def

text \<open>The whole stack becomes the entry list.\<close>

lemma om_detach:
  assumes l: "om_lists s cs es" and i: "m_owner s = Some i" "m_pc s i = MExit (XDetach w)" and c: "m_cxq s = w"
    and s': "s' = m_goto i (MExit (XSetEntry w)) (s\<lparr>m_cxq := None\<rparr>)"
  shows "om_lists s' [] cs"
proof -
  have es: "es = []" using om_lists_local [OF l i(1)] by (simp add: om_owner_phase [OF i(1)] i(2) owner_local_def)
  show ?thesis
    by (rule om_own_listsI [OF l i(1)])
      (use i c es om_lists_mem [OF l, of i] om_lists_distinct [OF l] om_lists_cxq [OF l] om_lists_cxq_state [OF l] in \<open>auto simp: s' om_shape_defs\<close>)
qed

text \<open>A step of the loop that marks the nodes: the lists stay, the mark moves on.\<close>

lemma om_mark:
  assumes l: "om_lists s cs es" and i: "m_owner s = Some i" "m_owner s' = Some i" and pc: "m_pc s' = (m_pc s)(i := MExit x)" "\<not> om_queued (m_pc s i)"
    and f: "w_next s' = w_next s" "m_cxq s' = m_cxq s" "\<And>a. a \<notin> set es \<Longrightarrow> w_TState s' a = w_TState s a"
      "eff_entry (MExit x) (Some i) (m_EntryList s') = eff_entry (m_pc s i) (Some i) (m_EntryList s)" "eff_next (m_pc s i) (w_next s) = w_next s"
    and o: "entry_shape (MExit x) (w_prev s') (w_TState s') es" "owner_local (MExit x) i s' cs es"
  shows "om_lists s' cs es"
proof (rule om_own_listsI [OF l i])
  note ph = om_owner_phase [OF i(1)]
  show "w_TState s' a = TS_CXQ" if "a \<in> set cs" for a
    using that om_lists_cxq_state [OF l that] f(3) [of a] om_lists_distinct [OF l] by auto
  show "chain (eff_next (m_pc s' i) (w_next s')) (eff_entry (m_pc s' i) (Some i) (m_EntryList s')) es"
    using om_lists_entry [OF l] f by (simp add: pc ph i eff_next_def)
  show "i \<in> set cs \<or> i \<in> set es \<longleftrightarrow> om_queued (m_pc s' i)" using om_lists_mem [OF l, of i] pc by simp
qed (use f o om_lists_distinct [OF l] om_lists_cxq [OF l] in \<open>simp_all add: pc\<close>)

lemma entered_snoc: "entered pv ts ds \<Longrightarrow> pv a = last_ptr ds \<Longrightarrow> ts a = TS_ENTER \<Longrightarrow> entered pv ts (ds @ [a])"
  by (auto simp: entered_def backl_app last_ptr_def)

lemma entered_upd: "a \<notin> set ds \<Longrightarrow> entered pv (ts(a := t)) ds = entered pv ts ds" "a \<notin> set ds \<Longrightarrow> entered (pv(a := q)) ts ds = entered pv ts ds"
  by (rule entered_cong; auto)+

text \<open>The four steps of the loop.\<close>

lemma om_mark_start:
  assumes l: "om_lists s cs es" and i: "m_owner s = Some i" "m_pc s i = MExit (XSetEntry w)"
    and s': "s' = m_goto i (MExit (case w of None \<Rightarrow> XSucc2 | Some p \<Rightarrow> XState p None)) (s\<lparr>m_EntryList := w\<rparr>)"
  shows "om_lists s' cs es"
proof -
  note ph = om_owner_phase [OF i(1)] i(2)
  have ch: "chain (w_next s) w es" using om_lists_entry [OF l] by (simp add: ph eff_next_def eff_entry_def)
  have ts: "\<forall>b\<in>set es. w_TState s b = TS_CXQ" using om_lists_shape [OF l] by (simp add: ph entry_shape_def)
  show ?thesis
  proof (rule om_mark [OF l i(1)])
    show "entry_shape (MExit (case w of None \<Rightarrow> XSucc2 | Some p \<Rightarrow> XState p None)) (w_prev s') (w_TState s') es"
    proof (cases w)
      case None
      then show ?thesis using ch by (simp add: entry_shape_def entered_def)
    next
      case (Some p)
      with ch obtain rs where "es = p # rs" by (auto simp: chain_Some)
      then have "es = [] @ p # rs \<and> entered (w_prev s') (w_TState s') [] \<and> (\<forall>b\<in>set (p # rs). w_TState s' b = TS_CXQ) \<and> ow_of None = last_ptr []"
        using ts by (simp add: s' entered_def last_ptr_def)
      then show ?thesis unfolding entry_shape_def Some by (simp only: om_pc.case exit_pos.case option.case) blast
    qed
  qed (use i in \<open>auto simp: s' om_shape_defs split: option.split\<close>)
qed

lemma om_mark_state:
  assumes l: "om_lists s cs es" and i: "m_owner s = Some i" "m_pc s i = MExit (XState a q)"
    and s': "s' = m_goto i (MExit (XPrev a q)) (s\<lparr>w_TState := (w_TState s)(a := TS_ENTER)\<rparr>)"
  shows "om_lists s' cs es" "w_TState s a = TS_CXQ" "a \<in> set es"
proof -
  note ph = om_owner_phase [OF i(1)] i(2)
  from om_lists_shape [OF l] obtain ds rs where d: "es = ds @ a # rs" "entered (w_prev s) (w_TState s) ds"
    "\<forall>b\<in>set (a # rs). w_TState s b = TS_CXQ" "ow_of q = last_ptr ds" by (auto simp: ph entry_shape_def)
  show "w_TState s a = TS_CXQ" "a \<in> set es" using d by simp_all
  have di: "a \<notin> set ds" "a \<notin> set rs" using om_lists_distinct [OF l] d(1) by auto
  show "om_lists s' cs es"
  proof (rule om_mark [OF l i(1)])
    have "es = ds @ a # rs \<and> entered (w_prev s') (w_TState s') ds \<and> w_TState s' a = TS_ENTER \<and> (\<forall>b\<in>set rs. w_TState s' b = TS_CXQ) \<and> ow_of q = last_ptr ds"
      using d di by (auto simp: s' entered_upd)
    then show "entry_shape (MExit (XPrev a q)) (w_prev s') (w_TState s') es"
      unfolding entry_shape_def by (simp only: om_pc.case exit_pos.case) blast
  qed (use i d(1) in \<open>auto simp: s' eff_next_def eff_entry_def owner_local_def\<close>)
qed

lemma om_mark_prev:
  assumes l: "om_lists s cs es" and i: "m_owner s = Some i" "m_pc s i = MExit (XPrev a q)"
    and s': "s' = m_goto i (MExit (XNext a)) (s\<lparr>w_prev := (w_prev s)(a := ow_of q)\<rparr>)"
  shows "om_lists s' cs es"
proof -
  note ph = om_owner_phase [OF i(1)] i(2)
  from om_lists_shape [OF l] obtain ds rs where d: "es = ds @ a # rs" "entered (w_prev s) (w_TState s) ds"
    "w_TState s a = TS_ENTER" "\<forall>b\<in>set rs. w_TState s b = TS_CXQ" "ow_of q = last_ptr ds" by (auto simp: ph entry_shape_def)
  have di: "a \<notin> set ds" using om_lists_distinct [OF l] d(1) by auto
  show ?thesis
  proof (rule om_mark [OF l i(1)])
    have "entered (w_prev s') (w_TState s') (ds @ [a])" using d di by (intro entered_snoc) (simp_all add: s' entered_upd)
    then have "es = ds @ a # rs \<and> entered (w_prev s') (w_TState s') (ds @ [a]) \<and> (\<forall>b\<in>set rs. w_TState s' b = TS_CXQ)"
      using d by (simp add: s')
    then show "entry_shape (MExit (XNext a)) (w_prev s') (w_TState s') es"
      unfolding entry_shape_def by (simp only: om_pc.case exit_pos.case) blast
  qed (use i in \<open>auto simp: s' eff_next_def eff_entry_def owner_local_def\<close>)
qed

lemma om_mark_next:
  assumes l: "om_lists s cs es" and i: "m_owner s = Some i" "m_pc s i = MExit (XNext a)"
    and s': "s' = m_goto i (MExit (case w_next s a of None \<Rightarrow> XSucc2 | Some n \<Rightarrow> XState n (Some a))) s"
  shows "om_lists s' cs es"
proof -
  note ph = om_owner_phase [OF i(1)] i(2)
  from om_lists_shape [OF l] obtain ds rs where d: "es = ds @ a # rs" "entered (w_prev s) (w_TState s) (ds @ [a])"
    "\<forall>b\<in>set rs. w_TState s b = TS_CXQ" by (auto simp: ph entry_shape_def)
  have "chain (w_next s) (m_EntryList s) (ds @ a # rs)" using om_lists_entry [OF l] d(1) by (simp add: ph eff_next_def eff_entry_def)
  then have nx: "w_next s a = (if rs = [] then None else Some (hd rs))" by (rule chain_mid_hd)
  show ?thesis
  proof (rule om_mark [OF l i(1)])
    show "entry_shape (MExit (case w_next s a of None \<Rightarrow> XSucc2 | Some n \<Rightarrow> XState n (Some a))) (w_prev s') (w_TState s') es"
    proof (cases rs)
      case Nil
      then show ?thesis using d nx by (simp add: entry_shape_def s' eff_prev_def)
    next
      case (Cons n zs)
      then have "es = (ds @ [a]) @ n # zs \<and> entered (w_prev s') (w_TState s') (ds @ [a]) \<and> (\<forall>b\<in>set (n # zs). w_TState s' b = TS_CXQ) \<and>
        ow_of (Some a) = last_ptr (ds @ [a])" using d by (simp add: s' last_ptr_def)
      then show ?thesis unfolding entry_shape_def nx using Cons by (simp only: om_pc.case exit_pos.case option.case list.simps if_False list.sel) blast
    qed
  qed (use i in \<open>auto simp: s' om_shape_defs split: option.split\<close>)
qed

lemma om_queued_exit: "\<not> om_queued (MExit x)" "\<not> node_fresh (MExit x)"
  by simp_all

lemma om_list_inv_exit:
  assumes inv: "om_list_inv s" and p: "m_pc s (fst l) = MExit x" "om_owns (MExit x)" and N: "fst l < N"
  shows "om_list_inv (om_step N l s)"
proof -
  let ?i = "fst l" and ?s = "om_step N l s"
  have ow: "m_owner s = Some ?i" using om_list_inv_own [OF inv] p by simp
  have ph: "om_phase s = MExit x" using om_owner_phase [OF ow] p by simp
  have st: "?s = jvmObjectMonitorExit ?i x s" using p N by (simp add: om_step_def Let_def)
  from inv obtain cs0 es0 where l0: "om_lists s cs0 es0" by (auto simp: om_list_inv_def)
  have lo: "owner_local (MExit x) ?i s cs es" if "om_lists s cs es" for cs es using om_lists_local [OF that ow] ph by simp
  have hd: "m_EntryList s = (if es = [] then None else Some (hd es))" "entered (w_prev s) (w_TState s) es"
    if "om_lists s cs es" "om_plain (MExit x)" for cs es
  proof -
    have pl: "om_plain (m_pc s ?i)" using that(2) p(1) by simp
    note e = om_lists_entry_plain [OF that(1) ow pl]
    show "m_EntryList s = (if es = [] then None else Some (hd es))" by (rule chain_hd [OF e(1)])
    show "entered (w_prev s) (w_TState s) es" by (rule e(2))
  qed
  note defs = st jvmObjectMonitorExit_def Let_def list_fields_def
  note keep = om_list_inv_keep [OF inv] and plain = om_list_inv_plain [OF inv] and step = om_list_inv_owner_step [OF inv]
  show ?thesis
  proof (cases x)
    case XFix
    then show ?thesis using om_list_inv_owner [OF inv] p by (simp add: om_owner_inv_def)
  next
    case XResp
    then show ?thesis using p by (intro keep) (simp_all add: defs)
  next
    case XDrop
    then show ?thesis using p by (intro keep) (simp_all add: defs)
  next
    case XGuar
    then show ?thesis using p ow by (intro keep) (simp_all add: defs)
  next
    case XPick
    have "es = []" if "om_lists s cs es" "m_EntryList s = None" for cs es using hd(1) [OF that(1)] that(2) XPick by (auto split: if_splits)
    moreover have "w \<in> set es" if "om_lists s cs es" "m_EntryList s = Some w" for cs es w
      using hd(1) [OF that(1)] that(2) XPick by (auto split: if_splits)
    ultimately show ?thesis using p XPick by (intro plain) (auto simp: defs owner_local_def split: option.splits)
  next
    case XPickCxq
    then show ?thesis using p lo by (intro plain) (auto simp: defs owner_local_def)
  next
    case (XDetach w)
    show ?thesis
    proof (cases "m_cxq s = w")
      case True
      have "\<exists>cs' es'. om_lists ?s cs' es'" using om_detach [OF l0 ow _ True refl] p XDetach True by (auto simp: defs)
      then show ?thesis using p XDetach True by (intro step) (simp_all add: defs)
    next
      case False
      then show ?thesis using p lo XDetach by (intro plain) (auto simp: defs owner_local_def)
    qed
  next
    case (XSetEntry w)
    have "\<exists>cs' es'. om_lists ?s cs' es'" using om_mark_start [OF l0 ow _ refl, of w] p XSetEntry by (auto simp: defs)
    then show ?thesis using p XSetEntry by (intro step) (simp_all add: defs split: option.split)
  next
    case (XState a q)
    note m = om_mark_state [OF l0 ow _ refl, of a q]
    have t: "w_TState s a = TS_CXQ" "a \<in> set es0" using m p XState by simp_all
    have e: "?s = m_goto ?i (MExit (XPrev a q)) (s\<lparr>w_TState := (w_TState s)(a := TS_ENTER)\<rparr>)" using XState t by (simp add: defs)
    have "\<exists>cs' es'. om_lists ?s cs' es'" using m(1) p XState unfolding e by blast
    moreover have "j \<noteq> a" if "node_fresh (m_pc s j)" for j using om_lists_mem [OF l0, of j] fresh_not_queued [OF that] t by auto
    ultimately show ?thesis using p XState by (intro step) (auto simp: e)
  next
    case (XPrev a q)
    have "\<exists>cs' es'. om_lists ?s cs' es'" using om_mark_prev [OF l0 ow _ refl, of a q] p XPrev by (auto simp: defs)
    then show ?thesis using p XPrev by (intro step) (simp_all add: defs)
  next
    case (XNext a)
    have "\<exists>cs' es'. om_lists ?s cs' es'" using om_mark_next [OF l0 ow _ refl, of a] p XNext by (auto simp: defs)
    then show ?thesis using p XNext by (intro step) (simp_all add: defs split: option.split)
  next
    case XSucc2
    then show ?thesis using p by (intro keep) (simp_all add: defs)
  next
    case XPick2
    have w: "w \<in> set es" "w_TState s w = TS_ENTER" if "om_lists s cs es" "m_EntryList s = Some w" for cs es w
      using hd [OF that(1)] that(2) XPick2 by (auto simp: entered_def split: if_splits)
    show ?thesis using p XPick2 w w(2) [OF l0] by (intro plain) (auto simp: defs owner_local_def split: option.splits)
  next
    case (XEpSucc w)
    then show ?thesis using p lo by (intro plain) (auto simp: defs owner_local_def)
  next
    case (XEpDrop w)
    have e: "?s = m_goto ?i (MUnpark w NXchg) (s\<lparr>m_owner := None\<rparr>)" using XEpDrop by (simp add: defs)
    have pl: "om_plain (m_pc s ?i)" "om_plain MIdle" by (simp_all add: p XEpDrop om_plain_def)
    note en = om_lists_entry_plain [OF l0 ow pl(1)] and pm = om_plain_phase [OF pl(2)]
    have "om_lists ?s cs0 es0"
    proof (rule om_listsI)
      show "j \<in> set cs0 \<or> j \<in> set es0 \<longleftrightarrow> om_queued (m_pc ?s j)" for j using om_lists_mem [OF l0, of j] p by (simp add: e)
    qed (use om_lists_distinct [OF l0] om_lists_cxq [OF l0] om_lists_cxq_state [OF l0] en in \<open>simp_all add: e om_phase_def pm\<close>)
    then show ?thesis by (intro om_list_invI [OF inv]) (simp_all add: e)
  qed (use p in simp_all)
qed

lemma om_quiet_crash: "om_quiet (m_pc s (fst l)) \<Longrightarrow> m_pc s (fst l) \<noteq> MCrash \<Longrightarrow> m_pc (om_step N l s) (fst l) \<noteq> MCrash"
proof (cases "fst l < N")
  case True
  assume a: "om_quiet (m_pc s (fst l))" "m_pc s (fst l) \<noteq> MCrash"
  have g: "spin_won site \<noteq> MCrash" "spin_lost site \<noteq> MCrash" "try_won t \<noteq> MCrash" "try_lost t \<noteq> MCrash"
    "spin_round site c o' \<noteq> MCrash" "park_return b r \<noteq> MCrash" "park_done b r \<noteq> MCrash" for site t c o' b r
    by (auto simp: om_goto_defs split: spin_site.split try_site.split nat.split)
  note defs = om_step_def om_op_defs Let_def om_quiet_def
  show ?thesis
  proof (cases "m_pc s (fst l)")
    case (MSpin site p)
    then show ?thesis using True g by (cases p) (simp_all add: defs split: option.split)
  next
    case (MPark timed r p)
    then show ?thesis using True g by (cases p) (simp_all add: defs)
  next
    case (MExit p)
    then show ?thesis using True a by (cases p) (simp_all add: defs)
  next
    case (MUnpark w p)
    then show ?thesis using True by (cases p) (simp_all add: defs)
  qed (use True g a in \<open>simp_all add: defs\<close>)
qed (simp add: om_step_def Let_def)

text \<open>Every step that does not fail keeps the queues intact, and no step of \<open>jvmObjectMonitorExit\<close> or of \<open>UnlinkAfterAcquire\<close> fails.\<close>

lemma om_list_inv_step:
  assumes inv: "om_list_inv s" and e: "om_quiet (m_pc s (fst l)) \<Longrightarrow> m_pc (om_step N l s) (fst l) \<noteq> MVMError"
    and c: "m_pc s (fst l) \<noteq> MCrash"
  shows "om_list_inv (om_step N l s)"
proof (cases "fst l < N")
  case True
  have nc: "m_pc (om_step N l s) (fst l) \<noteq> MCrash" if "om_quiet (m_pc s (fst l))"
    using om_quiet_step [OF that, of N] om_quiet_crash [OF that c] by blast
  have q: "om_list_inv (om_step N l s)" if "om_quiet (m_pc s (fst l))" using om_list_inv_quiet [OF inv that e nc] that by blast
  show ?thesis
  proof (cases "m_pc s (fst l)")
    case (MExit x)
    show ?thesis
    proof (cases "om_owns (MExit x)")
      case True
      then show ?thesis using om_list_inv_exit [OF inv MExit] \<open>fst l < N\<close> by blast
    next
      case False
      then show ?thesis using MExit by (intro q) (cases x; simp add: om_quiet_def)
    qed
  next
    case (MUnlink u)
    then show ?thesis using om_list_inv_unlink_cxq [OF inv MUnlink _ True] om_list_inv_unlink_write [OF inv MUnlink _ True] by blast
  qed (use q om_list_inv_node [OF inv _ True] om_list_inv_push_cas [OF inv _ True] in \<open>auto simp: om_quiet_def\<close>)
qed (use inv in \<open>simp add: om_step_def Let_def\<close>)

end
