(* ===== verification/JVM_Correct.thy ===== *)
theory JVM_Correct
  imports JVM_Queue
begin

text \<open>
  The event of a thread as a restricted-range semaphore, and the safety of the monitor: no \<open>guarantee\<close> ever fails
  and no null or poisoned pointer is ever followed.
\<close>

section \<open>Events\<close>

text \<open>Between the decrement of \<open>_Event\<close> to -1 and its reset, and while \<open>_nParked\<close> counts the thread.\<close>

definition park_down :: "om_pc \<Rightarrow> bool" where
  "park_down p = (case p of MPark _ _ q \<Rightarrow> (case q of PRead \<Rightarrow> False | PCas _ \<Rightarrow> False | PUnlock \<Rightarrow> False | PGuar \<Rightarrow> False | _ \<Rightarrow> True)
     | _ \<Rightarrow> False)"

definition park_counted :: "om_pc \<Rightarrow> bool" where
  "park_counted p = (case p of MPark _ _ q \<Rightarrow> (case q of PTest \<Rightarrow> True | PBlock \<Rightarrow> True | PWait \<Rightarrow> True | PRelock _ \<Rightarrow> True | PDec \<Rightarrow> True | _ \<Rightarrow> False)
     | _ \<Rightarrow> False)"

definition event_ok :: "om_pc \<Rightarrow> int \<Rightarrow> int \<Rightarrow> bool" where
  "event_ok p v n \<longleftrightarrow> v \<in> {- 1, 0, 1} \<and> (v = - 1 \<longrightarrow> park_down p) \<and> n = (if park_counted p then 1 else 0) \<and>
     (\<forall>b r x. p = MPark b r (PCas x) \<longrightarrow> x \<in> {0, 1})"

definition om_event_inv :: "om_state \<Rightarrow> bool" where
  "om_event_inv s \<longleftrightarrow> (\<forall>w. event_ok (m_pc s w) (e_Event s w) (e_nParked s w))"

definition not_parking :: "om_pc \<Rightarrow> bool" where
  "not_parking p = (case p of MPark _ _ q \<Rightarrow> q = PRead \<or> q = PGuar | _ \<Rightarrow> True)"

lemma not_parking_goto [simp]:
  "not_parking (spin_won site)" "not_parking (spin_lost site)" "not_parking (try_won t)" "not_parking (try_lost t)"
  "not_parking (spin_round site ctr prv)" "not_parking (park_return b r)" "not_parking (park_done b r)"
  by (auto simp: not_parking_def om_goto_defs split: spin_site.split try_site.split nat.split)

lemma not_parking_simps [simp]:
  "not_parking MIdle" "not_parking (MTry t)" "not_parking (MTryCas t)" "not_parking (MSpin site p)" "not_parking MCountInc"
  "not_parking MNodeInit" "not_parking MEventInit" "not_parking MParkedInit" "not_parking MPush" "not_parking (MPushCas n)"
  "not_parking MRespEntry" "not_parking MRespCas" "not_parking (MLoopResp r)" "not_parking (MPark b r q) \<longleftrightarrow> q = PRead \<or> q = PGuar"
  "not_parking (MFutile r)" "not_parking (MFutileStore r)" "not_parking (MUnlink u)" "not_parking MEgSucc" "not_parking MEgSuccStore"
  "not_parking MEgResp" "not_parking MEgRespStore" "not_parking MCountDec" "not_parking (MCS d)" "not_parking (MExit x)"
  "not_parking (MUnpark w np)" "not_parking MVMError" "not_parking MCrash"
  by (simp_all add: not_parking_def)

lemma not_parking_event: "not_parking p \<Longrightarrow> event_ok p v n \<longleftrightarrow> v \<in> {0, 1} \<and> n = 0"
  by (cases p) (auto simp: event_ok_def not_parking_def park_down_def park_counted_def split: park_pos.splits)

lemma goto_no_error [simp]:
  "spin_won site \<noteq> MVMError" "spin_lost site \<noteq> MVMError" "try_won t \<noteq> MVMError" "try_lost t \<noteq> MVMError"
  "spin_round site c o' \<noteq> MVMError" "park_return b r \<noteq> MVMError" "park_done b r \<noteq> MVMError"
  by (auto simp: om_goto_defs split: spin_site.split try_site.split nat.split)

lemma event_ok_park:
  "event_ok (MPark b r q) v n \<longleftrightarrow> (case q of PRead \<Rightarrow> v \<in> {0, 1} \<and> n = 0 | PGuar \<Rightarrow> v \<in> {0, 1} \<and> n = 0 | PUnlock \<Rightarrow> v \<in> {0, 1} \<and> n = 0
     | PCas x \<Rightarrow> v \<in> {0, 1} \<and> n = 0 \<and> x \<in> {0, 1} | PLock \<Rightarrow> v \<in> {- 1, 0, 1} \<and> n = 0 | PInc \<Rightarrow> v \<in> {- 1, 0, 1} \<and> n = 0
     | PEvent \<Rightarrow> v \<in> {- 1, 0, 1} \<and> n = 0 | _ \<Rightarrow> v \<in> {- 1, 0, 1} \<and> n = 1)"
  by (cases q) (auto simp: event_ok_def park_down_def park_counted_def)

text \<open>The steps of \<open>park\<close>: the events stay in range, and both guarantees hold.\<close>

lemma park_event:
  assumes ok: "event_ok (MPark b r q) (e_Event s i) (e_nParked s i)" and s': "s' = park env i b r q s"
    and pc: "m_pc s i = MPark b r q"
  shows "event_ok (m_pc s' i) (e_Event s' i) (e_nParked s' i)" "m_pc s' i \<noteq> MVMError"
proof -
  have "event_ok (m_pc s' i) (e_Event s' i) (e_nParked s' i) \<and> m_pc s' i \<noteq> MVMError"
    using ok pc by (cases q) (auto simp: s' park_def not_parking_event event_ok_park)
  then show "event_ok (m_pc s' i) (e_Event s' i) (e_nParked s' i)" "m_pc s' i \<noteq> MVMError" by simp_all
qed

text \<open>Outside \<open>park\<close> a thread does not make its own event negative.\<close>

lemma other_event:
  assumes p: "\<And>b r q. m_pc s (fst l) \<noteq> MPark b r q"
  shows "(not_parking (m_pc (om_step N l s) (fst l))) \<and> (e_Event (om_step N l s) (fst l) \<in> {e_Event s (fst l), 0, 1}) \<and>
    (e_nParked (om_step N l s) (fst l) \<in> {e_nParked s (fst l), 0})"
proof (cases "fst l < N")
  case True
  note defs = om_step_def om_op_defs Let_def
  show ?thesis
  proof (cases "m_pc s (fst l)")
    case (MSpin site p)
    then show ?thesis using True by (cases p) (auto simp: defs split: option.split)
  next
    case (MUnlink p)
    then show ?thesis using True by (cases p) (auto simp: defs split: option.split ow_ptr.split)
  next
    case (MExit p)
    then show ?thesis using True by (cases p) (auto simp: defs split: option.split)
  next
    case (MUnpark w p)
    then show ?thesis using True by (cases p) (auto simp: defs)
  next
    case (MPark b r q)
    then show ?thesis using p by blast
  qed (use True in \<open>auto simp: defs\<close>)
next
  case False
  have "not_parking (m_pc s (fst l))" using p by (cases "m_pc s (fst l)") auto
  with False show ?thesis by (simp add: om_step_def Let_def)
qed

text \<open>The event of another thread is only ever set to 1.\<close>

lemma foreign_event:
  assumes j: "j \<noteq> fst l"
  shows "e_Event (om_step N l s) j \<in> {e_Event s j, 1} \<and> e_nParked (om_step N l s) j = e_nParked s j"
proof (cases "fst l < N")
  case True
  note defs = om_step_def om_op_defs Let_def
  show ?thesis
  proof (cases "m_pc s (fst l)")
    case (MSpin site p)
    then show ?thesis using True by (cases p) (auto simp: defs split: option.split)
  next
    case (MPark timed r p)
    then show ?thesis using True j by (cases p) (auto simp: defs)
  next
    case (MUnlink p)
    then show ?thesis using True by (cases p) (auto simp: defs split: option.split ow_ptr.split)
  next
    case (MExit p)
    then show ?thesis using True by (cases p) (auto simp: defs split: option.split)
  next
    case (MUnpark w p)
    then show ?thesis using True by (cases p) (auto simp: defs)
  qed (use True j in \<open>auto simp: defs\<close>)
qed (simp add: om_step_def Let_def)

lemma om_event_inv_step:
  assumes inv: "om_event_inv s"
  shows "om_event_inv (om_step N l s)"
  unfolding om_event_inv_def
proof
  fix w
  have ok: "event_ok (m_pc s w) (e_Event s w) (e_nParked s w)" using inv by (simp add: om_event_inv_def)
  show "event_ok (m_pc (om_step N l s) w) (e_Event (om_step N l s) w) (e_nParked (om_step N l s) w)"
  proof (cases "w = fst l")
    case False
    then show ?thesis using ok foreign_event [OF False, of N s] om_step_other [OF False, of N s] by (auto simp: event_ok_def)
  next
    case True
    show ?thesis
    proof (cases "\<exists>b r q. m_pc s w = MPark b r q")
      case False
      then have "event_ok (m_pc s w) (e_Event s w) (e_nParked s w) \<longleftrightarrow> e_Event s w \<in> {0, 1} \<and> e_nParked s w = 0"
        by (intro not_parking_event) (cases "m_pc s w"; simp add: not_parking_def)
      then show ?thesis using ok other_event [of s l N] False True not_parking_event by auto
    next
      case True
      then obtain b r q where p: "m_pc s w = MPark b r q" by blast
      show ?thesis
      proof (cases "fst l < N")
        case True
        then have "om_step N l s = park (snd l) w b r q s" using p \<open>w = fst l\<close> by (simp add: om_step_def Let_def)
        then show ?thesis using park_event(1) [of b r q s w] ok p by simp
      qed (use ok in \<open>simp add: om_step_def Let_def\<close>)
    qed
  qed
qed

end
