(* ===== verification/JVM_Properties.thy ===== *)
theory JVM_Properties
  imports JVM_Correct
begin

text \<open>
  What the monitor promises and what it does not: mutual exclusion, intact queues, events and spin limits in
  range, the deadline of a timed wait, and a wake-up that is lost because an event in use is initialized again.
\<close>

section \<open>No step fails\<close>

definition om_inv :: "om_state \<Rightarrow> bool" where
  "om_inv s \<longleftrightarrow> om_list_inv s \<and> om_event_inv s \<and> (\<forall>i. m_pc s i \<noteq> MVMError \<and> m_pc s i \<noteq> MCrash)"

lemma om_quiet_no_error:
  assumes a: "om_quiet (m_pc s (fst l))" "m_pc s (fst l) \<noteq> MVMError" and ev: "om_event_inv s"
  shows "m_pc (om_step N l s) (fst l) \<noteq> MVMError"
proof (cases "fst l < N")
  case True
  note defs = om_step_def om_op_defs Let_def om_quiet_def
  show ?thesis
  proof (cases "m_pc s (fst l)")
    case (MSpin site p)
    then show ?thesis using True by (cases p) (simp_all add: defs split: option.split)
  next
    case (MPark timed r p)
    then have "om_step N l s = park (snd l) (fst l) timed r p s" using True by (simp add: om_step_def Let_def)
    moreover have "event_ok (MPark timed r p) (e_Event s (fst l)) (e_nParked s (fst l))"
      using ev MPark unfolding om_event_inv_def by metis
    ultimately show ?thesis using park_event(2) MPark by metis
  next
    case (MExit p)
    then show ?thesis using True a by (cases p) (simp_all add: defs)
  next
    case (MUnpark w p)
    then show ?thesis using True by (cases p) (simp_all add: defs)
  qed (use True a in \<open>simp_all add: defs\<close>)
qed (use a in \<open>simp add: om_step_def Let_def\<close>)

text \<open>A failing step of the owner would leave the monitor owned by a thread that is at none of its positions.\<close>

lemma om_loud_no_error:
  assumes inv: "om_list_inv s" "om_list_inv (om_step N l s)" and q: "\<not> om_quiet (m_pc s (fst l))"
  shows "m_pc (om_step N l s) (fst l) \<noteq> MVMError \<and> m_pc (om_step N l s) (fst l) \<noteq> MCrash"
proof (cases "m_owner (om_step N l s) = Some (fst l)")
  case True
  then have "om_owns (m_pc (om_step N l s) (fst l))" using om_list_inv_own [OF inv(2)] by simp
  then show ?thesis by auto
next
  case False
  show ?thesis
  proof (cases "fst l < N")
    case True
    have own: "om_owns (m_pc s (fst l)) \<Longrightarrow> m_owner s = Some (fst l)" using om_list_inv_own [OF inv(1)] by simp
    note defs = om_step_def om_op_defs Let_def
    show ?thesis
    proof (cases "m_pc s (fst l)")
      case (MUnlink u)
      then show ?thesis using True False own by (cases u) (auto simp: defs split: option.splits ow_ptr.splits)
    next
      case (MExit x)
      then show ?thesis using True False own q by (cases x) (auto simp: defs om_quiet_def split: option.splits if_splits)
    qed (use True q in \<open>auto simp: defs om_quiet_def\<close>)
  next
    case N: False
    then show ?thesis using q by (auto simp: om_step_def Let_def om_quiet_def)
  qed
qed

lemma om_inv_step: "om_inv s \<Longrightarrow> om_inv (om_step N l s)"
proof -
  assume inv: "om_inv s"
  then have i: "om_list_inv s" "om_event_inv s" "\<And>i. m_pc s i \<noteq> MVMError" "\<And>i. m_pc s i \<noteq> MCrash" by (simp_all add: om_inv_def)
  have q: "m_pc (om_step N l s) (fst l) \<noteq> MVMError \<and> m_pc (om_step N l s) (fst l) \<noteq> MCrash" if "om_quiet (m_pc s (fst l))"
    using om_quiet_no_error [OF that i(3,2)] om_quiet_crash [OF that i(4)] by blast
  have l: "om_list_inv (om_step N l s)" by (rule om_list_inv_step [OF i(1) _ i(4)]) (use q in blast)
  have "m_pc (om_step N l s) j \<noteq> MVMError \<and> m_pc (om_step N l s) j \<noteq> MCrash" for j
    using q om_loud_no_error [OF i(1) l] om_step_other [of j l N s] i(3,4) by (cases "j = fst l") auto
  with l om_event_inv_step [OF i(2)] show ?thesis by (simp add: om_inv_def)
qed

lemma om_inv_init: "om_inv jvm_init_locks"
proof -
  have "om_lists jvm_init_locks [] []"
    by (rule om_listsI) (simp_all add: jvm_init_locks_def om_phase_def om_shape_defs entered_def)
  moreover have "node_local jvm_init_locks i" for i by (simp add: node_local_def jvm_init_locks_def)
  ultimately have "om_list_inv jvm_init_locks" using jvm.inv_init by (auto simp: om_list_inv_def)
  then show ?thesis by (simp add: om_inv_def om_event_inv_def not_parking_event jvm_init_locks_def)
qed

interpretation jvm_safe: invariant_system "\<lambda>s. s = jvm_init_locks" "om_step N" om_inv for N
  by unfold_locales (simp_all add: om_inv_init om_inv_step)

section \<open>The spin limit\<close>

text \<open>\<open>_SpinDuration\<close> is written without protection; every value that a thread has computed is in range.\<close>

definition om_spin_inv :: "om_state \<Rightarrow> bool" where
  "om_spin_inv s \<longleftrightarrow> m_SpinDuration s \<in> {0..5099} \<and>
     (\<forall>i site x. m_pc s i = MSpin site (SDurStore x) \<longrightarrow> x \<in> {0..5099}) \<and>
     (\<forall>i site c p x. m_pc s i = MSpin site (SDecayStore c p x) \<longrightarrow> x \<in> {0..5099})"

definition spin_pc_ok :: "om_pc \<Rightarrow> bool" where
  "spin_pc_ok p = (case p of MSpin _ (SDurStore x) \<Rightarrow> x \<in> {0..5099} | MSpin _ (SDecayStore _ _ x) \<Rightarrow> x \<in> {0..5099} | _ \<Rightarrow> True)"

lemma om_spin_inv_alt: "om_spin_inv s \<longleftrightarrow> m_SpinDuration s \<in> {0..5099} \<and> (\<forall>i. spin_pc_ok (m_pc s i))"
  unfolding om_spin_inv_def spin_pc_ok_def by (fastforce split: om_pc.splits spin_pos.splits)

lemma spin_pc_ok_goto [simp]:
  "spin_pc_ok (spin_won site)" "spin_pc_ok (spin_lost site)" "spin_pc_ok (try_won t)" "spin_pc_ok (try_lost t)"
  "spin_pc_ok (spin_round site ctr prv)" "spin_pc_ok (park_return b r)" "spin_pc_ok (park_done b r)"
  by (auto simp: spin_pc_ok_def om_goto_defs split: spin_site.split try_site.split nat.split)

lemma spin_step_ok:
  assumes d: "m_SpinDuration s \<in> {0..5099}" and p: "spin_pc_ok (m_pc s (fst l))"
  shows "m_SpinDuration (om_step N l s) \<in> {0..5099} \<and> spin_pc_ok (m_pc (om_step N l s) (fst l))"
proof (cases "fst l < N")
  case True
  note defs = om_step_def om_op_defs Let_def
  have o: "spin_pc_ok q" if "\<And>site x. q \<noteq> MSpin site x" for q using that by (cases q) (auto simp: spin_pc_ok_def)
  show ?thesis
  proof (cases "m_pc s (fst l)")
    case (MSpin site q)
    have s: "spin_pc_ok (MSpin site' q') = (case q' of SDurStore x \<Rightarrow> x \<in> {0..5099} | SDecayStore _ _ x \<Rightarrow> x \<in> {0..5099} | _ \<Rightarrow> True)" for site' q'
      by (cases q') (simp_all add: spin_pc_ok_def)
    show ?thesis using True MSpin d p by (cases q) (auto simp: defs s o knob_defs split: option.split)
  next
    case (MPark timed r p)
    then show ?thesis using True d by (cases p) (auto simp: defs o)
  next
    case (MUnlink p)
    then show ?thesis using True d by (cases p) (auto simp: defs o split: option.split ow_ptr.split)
  next
    case (MExit p)
    then show ?thesis using True d by (cases p) (auto simp: defs o split: option.split)
  next
    case (MUnpark w p)
    then show ?thesis using True d by (cases p) (auto simp: defs o)
  qed (use True d in \<open>auto simp: defs o\<close>)
qed (use d p in \<open>simp add: om_step_def Let_def\<close>)

interpretation jvm_spin: invariant_system "\<lambda>s. s = jvm_init_locks" "om_step N" om_spin_inv for N
proof
  show "om_spin_inv s" if "s = jvm_init_locks" for s using that by (simp add: om_spin_inv_def jvm_init_locks_def)
  show "om_spin_inv (om_step N l s)" if inv: "om_spin_inv s" for l s
  proof -
    have d: "m_SpinDuration s \<in> {0..5099}" "\<And>i. spin_pc_ok (m_pc s i)" using inv by (simp_all add: om_spin_inv_alt)
    have "spin_pc_ok (m_pc (om_step N l s) j)" for j
      using spin_step_ok [OF d(1) d(2) [of "fst l"], of N] d(2) om_step_other [of j l N s] by (cases "j = fst l") simp_all
    with spin_step_ok [OF d(1) d(2) [of "fst l"], of N] show ?thesis by (simp add: om_spin_inv_alt)
  qed
qed

section \<open>A lost wake-up\<close>

text \<open>
  \<open>jvmObjectMonitorEnterI\<close> initializes the thread's event every time it is called, also while another thread is
  still inside \<open>unpark\<close> of the previous round and holds its mutex. Thread 0 wakes thread 1, but is delayed before it
  locks the mutex of the event; thread 1 gets the monitor without it, leaves, and comes back while thread 2 is
  the owner. Thread 0 locks the mutex, thread 1 initializes it and locks it too, and tests \<open>_Event\<close>; thread 0
  unlocks the mutex, and thread 2 signals before thread 1 waits.
\<close>

definition lost_schedule :: "(tid \<times> wakeup) list" where
  "lost_schedule = (0, Sleeps) # replicate 38 (1, Sleeps) @ replicate 20 (0, Sleeps) @ replicate 22 (1, Sleeps) @ (2, Sleeps) #
     replicate 27 (1, Sleeps) @ (0, Sleeps) # replicate 7 (1, Sleeps) @ (2, Sleeps) # (2, Sleeps) # replicate 7 (1, Sleeps) @
     (0, Sleeps) # (0, Sleeps) # (0, Sleeps) # replicate 22 (2, Sleeps) @ [(1, Sleeps)]"

text \<open>Positions from which a thread neither clears nor overwrites \<open>_succ\<close> without having seen it again.\<close>

definition om_harmless :: "om_pc \<Rightarrow> bool" where
  "om_harmless p = (case p of
       MSpin _ q \<Rightarrow> (case q of SSucc0Store _ \<Rightarrow> False | SSuccStore _ _ \<Rightarrow> False | SGotSuccStore \<Rightarrow> False | SAbortStore \<Rightarrow> False | _ \<Rightarrow> True)
     | MFutileStore _ \<Rightarrow> False | MEgSuccStore \<Rightarrow> False | MUnpark _ _ \<Rightarrow> False
     | MExit x \<Rightarrow> (case x of XResp \<Rightarrow> True | XDrop \<Rightarrow> True | XEntry \<Rightarrow> True | XCxq _ \<Rightarrow> True | XSucc \<Rightarrow> True | XFix \<Rightarrow> True | _ \<Rightarrow> False)
     | _ \<Rightarrow> True)"

lemma om_harmless_goto [simp]:
  "om_harmless (spin_won site)" "om_harmless (spin_lost site)" "om_harmless (try_won t)" "om_harmless (try_lost t)"
  "om_harmless (spin_round site ctr prv)" "om_harmless (park_return b r)" "om_harmless (park_done b r)"
  by (auto simp: om_harmless_def om_goto_defs split: spin_site.split try_site.split nat.split)

definition om_stranded :: "tid \<Rightarrow> om_state \<Rightarrow> bool" where
  "om_stranded w s \<longleftrightarrow> om_waits (m_pc s w) \<and> \<not> e_signalled s w \<and> m_succ s = Some w \<and> (\<forall>j. j \<noteq> w \<longrightarrow> om_harmless (m_pc s j))"

lemma om_stranded_other:
  assumes s: "om_stranded w s" and l: "fst l \<noteq> w"
  shows "m_succ (om_step N l s) = Some w \<and> e_signalled (om_step N l s) w = e_signalled s w \<and> om_harmless (m_pc (om_step N l s) (fst l))"
proof (cases "fst l < N")
  case True
  have h: "om_harmless (m_pc s (fst l))" "m_succ s = Some w" using s l by (simp_all add: om_stranded_def)
  note defs = om_step_def om_op_defs Let_def
  have o: "om_harmless q" if "\<And>site x. q \<noteq> MSpin site x" "\<And>x. q \<noteq> MExit x" "\<And>r. q \<noteq> MFutileStore r" "q \<noteq> MEgSuccStore" "\<And>v n. q \<noteq> MUnpark v n" for q
    using that by (cases q) (auto simp: om_harmless_def)
  have sp: "om_harmless (MSpin site q) = (case q of SSucc0Store _ \<Rightarrow> False | SSuccStore _ _ \<Rightarrow> False | SGotSuccStore \<Rightarrow> False | SAbortStore \<Rightarrow> False | _ \<Rightarrow> True)"
    and ex: "om_harmless (MExit x) = (case x of XResp \<Rightarrow> True | XDrop \<Rightarrow> True | XEntry \<Rightarrow> True | XCxq _ \<Rightarrow> True | XSucc \<Rightarrow> True | XFix \<Rightarrow> True | _ \<Rightarrow> False)" for site q x
    by (simp_all add: om_harmless_def)
  show ?thesis
  proof (cases "m_pc s (fst l)")
    case (MSpin site q)
    then show ?thesis using True h l by (cases q) (auto simp: defs sp o split: option.split)
  next
    case (MPark timed r p)
    then show ?thesis using True h l by (cases p) (auto simp: defs o)
  next
    case (MUnlink p)
    then show ?thesis using True h by (cases p) (auto simp: defs o split: option.split ow_ptr.split)
  next
    case (MExit p)
    then show ?thesis using True h by (cases p) (auto simp: defs ex o)
  next
    case (MUnpark v p)
    then show ?thesis using h by (simp add: om_harmless_def)
  next
    case (MFutileStore r)
    then show ?thesis using h by (simp add: om_harmless_def)
  next
    case MEgSuccStore
    then show ?thesis using h by (simp add: om_harmless_def)
  qed (use True h l in \<open>auto simp: defs sp ex o\<close>)
qed (use s l in \<open>simp add: om_step_def Let_def om_stranded_def\<close>)

lemma om_stranded_step:
  assumes s: "om_stranded w s" and l: "fst l = w \<Longrightarrow> snd l = Sleeps"
  shows "om_stranded w (om_step N l s)"
proof (cases "fst l = w")
  case True
  obtain b r where "m_pc s w = MPark b r PWait"
    using s by (auto simp: om_stranded_def om_waits_def split: om_pc.splits park_pos.splits)
  then have "om_step N l s = s" using s l True by (simp add: om_stranded_def om_step_def Let_def park_def)
  with s show ?thesis by simp
next
  case False
  then have w: "m_pc (om_step N l s) w = m_pc s w" using om_step_other [of w l N s] by auto
  have "om_harmless (m_pc (om_step N l s) j)" if "j \<noteq> w" for j
    using om_stranded_other [OF s False, of N] om_step_other [of j l N s] s that by (cases "j = fst l") (auto simp: om_stranded_def)
  then show ?thesis using om_stranded_other [OF s False, of N] s w by (simp add: om_stranded_def)
qed

lemma om_stranded_run:
  "om_stranded w s \<Longrightarrow> (\<And>l. l \<in> set ms \<Longrightarrow> fst l = w \<Longrightarrow> snd l = Sleeps) \<Longrightarrow> om_stranded w (run (om_step N) ms s)"
proof (induction ms arbitrary: s)
  case (Cons l ms)
  have "om_stranded w (om_step N l s)" by (rule om_stranded_step [OF Cons.prems(1)]) (use Cons.prems(2) [of l] in simp)
  then show ?case using Cons.IH Cons.prems(2) by simp
qed simp

lemma run_replicate_numeral: "run f (replicate (numeral n) l @ ls) s = run f (l # replicate (pred_numeral n) l @ ls) s"
  by (simp add: numeral_eq_Suc)

lemma lost_state:
  "run (om_step 3) lost_schedule jvm_init_locks = \<lparr>m_owner = None, m_EntryList = Some 1, m_cxq = None, m_succ = Some 1,
     m_Responsible = None, m_SpinDuration = 0, m_count = 1, w_next = (\<lambda>_. None), w_prev = (\<lambda>_. OW_NULL)(1 := OW_NULL),
     w_TState = (\<lambda>_. TS_UNDEF)(1 := TS_ENTER), e_Event = (\<lambda>_. 0)(1 := 1), e_nParked = (\<lambda>_. 0)(1 := 1),
     e_mutex = (\<lambda>_. None), e_signalled = (\<lambda>_. False)(1 := False),
     m_pc = (\<lambda>_. MIdle)(0 := MIdle, 2 := MIdle, 1 := MPark False 1 PWait)\<rparr>"
  by (simp add: lost_schedule_def run_replicate_numeral om_step_def om_op_defs Let_def jvm_init_locks_def om_goto_defs
      knob_defs om_waits_def)

lemma lost_stranded: "om_stranded 1 (run (om_step 3) lost_schedule jvm_init_locks)"
  unfolding lost_state by (auto simp: om_stranded_def om_waits_def om_harmless_def)

section \<open>Properties\<close>

text \<open>C3: mutual exclusion of the monitor: in every reachable state, whatever the timeouts and spurious wake-ups, at
  most one thread is at a position where it owns the monitor, and the field \<open>_owner\<close> names it.\<close>

theorem jvm_mutual_exclusion:
  assumes "s = run (om_step N) ls jvm_init_locks" and "om_owns (m_pc s i)"
  shows "m_owner s = Some i \<and> (om_owns (m_pc s j) \<longrightarrow> i = j)"
proof -
  have "om_owner_inv s" unfolding assms(1) by (rule jvm.reachable_inv) (rule refl)
  then show ?thesis using assms(2) unfolding om_owner_inv_def by (metis option.inject)
qed

text \<open>Thread 0 owns the monitor while thread 1 spins.\<close>

theorem jvm_mutual_exclusion_witness:
  "m_owner (run (om_step 2) [(0, Sleeps), (1, Sleeps), (1, Sleeps)] jvm_init_locks) = Some 0 \<and>
   \<not> om_owns (m_pc (run (om_step 2) [(0, Sleeps), (1, Sleeps), (1, Sleeps)] jvm_init_locks) 1)"
proof -
  let ?s = "run (om_step 2) [(0, Sleeps), (1, Sleeps), (1, Sleeps)] jvm_init_locks"
  have o: "om_owns (m_pc ?s 0)" by code_simp
  show ?thesis using jvm_mutual_exclusion [OF refl [of ?s] o, of 1] by simp
qed

text \<open>C15: the queues are intact in every reachable state: the waiting threads are split without repetition between
  the stack \<open>_cxq\<close>, linked by \<open>_next\<close> and marked \<open>TS_CXQ\<close>, and the entry list; while nobody owns the monitor the
  entry list is linked by \<open>_next\<close> from \<open>_EntryList\<close>, by \<open>_prev\<close> backwards, and marked \<open>TS_ENTER\<close>; no \<open>guarantee\<close> fails
  and no null or poisoned pointer is followed; and the thread an owner is about to wake is in the entry list.\<close>

theorem jvm_queues_intact:
  assumes "s = run (om_step N) ls jvm_init_locks"
  shows "(\<exists>cs es. distinct (cs @ es) \<and> (\<forall>i. i \<in> set (cs @ es) \<longleftrightarrow> om_queued (m_pc s i)) \<and>
       chain (w_next s) (m_cxq s) cs \<and> (\<forall>a\<in>set cs. w_TState s a = TS_CXQ) \<and>
       (m_owner s = None \<longrightarrow> chain (w_next s) (m_EntryList s) es \<and> backl (w_prev s) OW_NULL es \<and> (\<forall>a\<in>set es. w_TState s a = TS_ENTER)) \<and>
       (\<forall>i w. m_pc s i = MExit (XEpSucc w) \<or> m_pc s i = MExit (XEpDrop w) \<longrightarrow> w \<in> set es)) \<and>
     (\<forall>i. m_pc s i \<noteq> MVMError \<and> m_pc s i \<noteq> MCrash)"
proof -
  have inv: "om_inv s" unfolding assms by (rule jvm_safe.reachable_inv) (rule refl)
  then obtain cs es where l: "om_lists s cs es" unfolding om_inv_def om_list_inv_def by blast
  have own: "om_owner_inv s" unfolding assms by (rule jvm.reachable_inv) (rule refl)
  have "w \<in> set es" if p: "m_pc s i = MExit (XEpSucc w) \<or> m_pc s i = MExit (XEpDrop w)" for i w
  proof -
    have "om_owns (m_pc s i)" using p by auto
    then have o: "m_owner s = Some i" using own by (simp add: om_owner_inv_def)
    then show ?thesis using om_lists_local [OF l o] p by (auto simp: om_phase_def owner_local_def)
  qed
  moreover have "chain (w_next s) (m_EntryList s) es \<and> backl (w_prev s) OW_NULL es \<and> (\<forall>a\<in>set es. w_TState s a = TS_ENTER)" if "m_owner s = None"
    using om_lists_entry [OF l] om_lists_shape [OF l] that
    by (simp add: om_phase_def om_shape_defs entered_def)
  moreover have "i \<in> set (cs @ es) \<longleftrightarrow> om_queued (m_pc s i)" for i using om_lists_mem [OF l] by simp
  ultimately have b: "distinct (cs @ es) \<and> (\<forall>i. i \<in> set (cs @ es) \<longleftrightarrow> om_queued (m_pc s i)) \<and>
       chain (w_next s) (m_cxq s) cs \<and> (\<forall>a\<in>set cs. w_TState s a = TS_CXQ) \<and>
       (m_owner s = None \<longrightarrow> chain (w_next s) (m_EntryList s) es \<and> backl (w_prev s) OW_NULL es \<and> (\<forall>a\<in>set es. w_TState s a = TS_ENTER)) \<and>
       (\<forall>i w. m_pc s i = MExit (XEpSucc w) \<or> m_pc s i = MExit (XEpDrop w) \<longrightarrow> w \<in> set es)"
    using om_lists_distinct [OF l] om_lists_cxq [OF l] om_lists_cxq_state [OF l] by blast
  show ?thesis by (rule conjI, rule exI [of _ cs], rule exI [of _ es], rule b) (use inv in \<open>simp add: om_inv_def\<close>)
qed

text \<open>The state of the lost wake-up below: thread 1 is the only member of the entry list.\<close>

theorem jvm_queues_intact_witness:
  "\<exists>es. chain (w_next (run (om_step 3) lost_schedule jvm_init_locks)) (m_EntryList (run (om_step 3) lost_schedule jvm_init_locks)) es \<and> set es = {1}"
proof -
  let ?s = "run (om_step 3) lost_schedule jvm_init_locks"
  have o: "m_owner ?s = None" by (simp add: lost_state)
  from jvm_queues_intact [OF refl [of ?s]] o obtain cs es where
    m: "\<forall>i. i \<in> set (cs @ es) \<longleftrightarrow> om_queued (m_pc ?s i)" and c: "chain (w_next ?s) (m_cxq ?s) cs" and e: "chain (w_next ?s) (m_EntryList ?s) es"
    by blast
  have "cs = []" using c by (cases cs) (simp_all add: lost_state)
  then have "i \<in> set es \<longleftrightarrow> i = 1" for i using m by (simp add: lost_state)
  then have "set es = {1}" by blast
  then show ?thesis using e by blast
qed

text \<open>Ranges in every reachable state: \<open>_Event\<close> is a restricted-range semaphore with values -1, 0 and 1, \<open>_nParked\<close>
  is 0 or 1, and the unprotected \<open>_SpinDuration\<close> stays below \<open>Knob_SpinLimit + Knob_Bonus\<close> and never negative.\<close>

theorem jvm_fields_in_range:
  assumes "s = run (om_step N) ls jvm_init_locks"
  shows "e_Event s i \<in> {- 1, 0, 1} \<and> e_nParked s i \<in> {0, 1} \<and> 0 \<le> m_SpinDuration s \<and> m_SpinDuration s < Knob_SpinLimit + Knob_Bonus"
proof -
  have "om_event_inv s" "om_spin_inv s" using jvm_safe.reachable_inv [OF refl] jvm_spin.reachable_inv [OF refl] by (simp_all add: om_inv_def assms)
  then have "event_ok (m_pc s i) (e_Event s i) (e_nParked s i)" "m_SpinDuration s \<in> {0..5099}" by (simp_all add: om_event_inv_def om_spin_inv_def)
  then show ?thesis by (simp add: event_ok_def knob_defs)
qed

theorem jvm_fields_in_range_witness:
  "e_Event (run (om_step 3) lost_schedule jvm_init_locks) 1 = 1 \<and> (1::int) \<in> {- 1, 0, 1}"
proof -
  let ?s = "run (om_step 3) lost_schedule jvm_init_locks"
  have "e_Event ?s 1 = 1" by (simp add: lost_state)
  with jvm_fields_in_range [OF refl [of ?s], of 1] show ?thesis by simp
qed

text \<open>The deadline of a timed wait is normalized (its nanoseconds are below one second) and lies exactly
  \<open>millis\<close> milliseconds after the current time, for a wait that is not negative and below 50000001 seconds.\<close>

theorem compute_abstime_correct:
  assumes now: "0 \<le> snd now" "snd now < NANOSECS_PER_SEC" and m: "0 \<le> millis" "millis < 50000001000"
  shows "0 \<le> snd (compute_abstime now millis) \<and> snd (compute_abstime now millis) < NANOSECS_PER_SEC \<and>
    fst (compute_abstime now millis) * NANOSECS_PER_SEC + snd (compute_abstime now millis) =
    fst now * NANOSECS_PER_SEC + snd now + millis * NANOSECS_PER_MILLISEC"
proof -
  define q r where "q = millis div 1000" and "r = millis mod 1000"
  then have d: "millis = q * 1000 + r" "0 \<le> r" "r < 1000" by simp_all
  have "min 50000000 q = q" using m unfolding q_def by linarith
  with m have c: "compute_abstime now millis = (let nanos = snd now + r * 1000000 in
      if nanos \<ge> 1000000000 then (fst now + q + 1, nanos - 1000000000) else (fst now + q, nanos))"
    unfolding q_def r_def by (simp add: compute_abstime_def Let_def NANOSECS_PER_SEC_def NANOSECS_PER_MILLISEC_def max_def)
  show ?thesis unfolding c Let_def NANOSECS_PER_SEC_def NANOSECS_PER_MILLISEC_def
    using now d by (auto simp: NANOSECS_PER_SEC_def)
qed

theorem compute_abstime_correct_witness:
  "compute_abstime (7, 999999999) 2001 = (10, 999999) \<and> (10 * 1000000000 + 999999 :: int) = 7 * 1000000000 + 999999999 + 2001 * 1000000"
  using compute_abstime_correct [of "(7, 999999999)" 2001]
  by (simp add: compute_abstime_def NANOSECS_PER_SEC_def NANOSECS_PER_MILLISEC_def)

text \<open>C36: a wake-up is lost. There is a run of three threads after which the monitor is free, threads 0 and 2 have
  left their critical sections, and thread 1 waits in \<open>park\<close> although its \<open>_Event\<close> is 1; and whatever the other
  threads do from there, thread 1 never leaves the wait, unless its condition variable wakes it spuriously.\<close>

theorem jvm_lost_wakeup:
  "m_owner (run (om_step 3) lost_schedule jvm_init_locks) = None \<and>
   m_pc (run (om_step 3) lost_schedule jvm_init_locks) 0 = MIdle \<and> m_pc (run (om_step 3) lost_schedule jvm_init_locks) 2 = MIdle \<and>
   m_pc (run (om_step 3) lost_schedule jvm_init_locks) 1 = MPark False 1 PWait \<and>
   e_Event (run (om_step 3) lost_schedule jvm_init_locks) 1 = 1 \<and> (\<forall>l\<in>set lost_schedule. snd l = Sleeps) \<and>
   (\<forall>ms. (\<forall>l\<in>set ms. fst l = 1 \<longrightarrow> snd l = Sleeps) \<longrightarrow>
      om_waits (m_pc (run (om_step 3) ms (run (om_step 3) lost_schedule jvm_init_locks)) 1))"
proof -
  have "om_waits (m_pc (run (om_step 3) ms (run (om_step 3) lost_schedule jvm_init_locks)) 1)"
    if "\<forall>l\<in>set ms. fst l = 1 \<longrightarrow> snd l = Sleeps" for ms
    using om_stranded_run [OF lost_stranded, of ms 3] that by (simp add: om_stranded_def)
  moreover have "\<forall>l\<in>set lost_schedule. snd l = Sleeps" by (simp add: lost_schedule_def)
  ultimately show ?thesis by (simp add: lost_state)
qed

text \<open>Both other threads go through the monitor again, and thread 1 still waits.\<close>

theorem jvm_lost_wakeup_witness:
  "om_waits (m_pc (run (om_step 3) ([(0, Sleeps), (1, Sleeps)] @ replicate 7 (0, Timeout) @ replicate 8 (2, Sleeps))
     (run (om_step 3) lost_schedule jvm_init_locks)) 1)"
  by (rule jvm_lost_wakeup [THEN conjunct2, THEN conjunct2, THEN conjunct2, THEN conjunct2, THEN conjunct2, THEN conjunct2,
        THEN spec, THEN mp]) auto

end
