(* ===== verification/JVM_Init.thy ===== *)
theory JVM_Init
  imports JVM_Monitor
begin

text \<open>
  Initialization of the object monitor before every measurement: \<open>jvm_init_locks\<close> is called once per experiment and finds
  what the previous one has left, which may have been cancelled anywhere. The events are destroyed, freed and allocated again;
  the monitor itself lives in the memory of the test lock, which must not move. \<open>JVM_Monitor\<close> starts from the state
  reached here. (The functions for nodes on the heap, \<open>MALLOC_OBJECTWAITER\<close>, are not compiled.)
\<close>

section \<open>Events\<close>

text \<open>\<open>struct ParkEvent\<close>; of the two POSIX objects only whether they are initialized. The null pointers and \<open>NO_THREAD\<close> are \<open>None\<close>.\<close>

record ParkEvent =
  pe_Event :: int
  pe_nParked :: int
  pe_mutex :: bool
  pe_cond :: bool
  pe_Assoc :: "tid option"
  pe_FreeNext :: "nat option"
  pe_AssociatedWith :: "tid option"
  pe_ListNext :: "nat option"
  pe_OnList :: int
  pe_TState :: int
  pe_Notified :: int

definition parkevent_init :: "ParkEvent \<Rightarrow> ParkEvent" where
  "parkevent_init p = p\<lparr>pe_cond := True, pe_mutex := True, pe_Event := 0, pe_nParked := 0, pe_Assoc := None, pe_FreeNext := None,
     pe_AssociatedWith := None, pe_ListNext := None, pe_OnList := 0, pe_TState := 0, pe_Notified := 0\<rparr>"

definition parkevent_destroy :: "ParkEvent \<Rightarrow> ParkEvent" where
  "parkevent_destroy p = parkevent_init (p\<lparr>pe_cond := False, pe_mutex := False\<rparr>)"

section \<open>The monitor\<close>

text \<open>\<open>struct ObjectMonitor\<close>.\<close>

record ObjectMonitor =
  om_owner :: "tid option"
  om_EntryList :: "tid option"
  om_cxq :: "tid option"
  om_succ :: "tid option"
  om_Responsible :: "tid option"
  om_Spinner :: int
  om_SpinDuration :: int
  om_count :: int

text \<open>The global variables; \<open>omonitor\<close> is a pointer, \<open>None\<close> before the first measurement. \<open>leaked\<close> counts the POSIX objects in memory that was
  freed while they were initialized.\<close>

record jvm_globals =
  park_events :: "ParkEvent list option"
  park_events_length :: nat
  omonitor :: "u64 option"
  monitor :: ObjectMonitor
  BackOffMask :: int
  leaked :: nat

definition live_objects :: "ParkEvent list \<Rightarrow> nat" where
  "live_objects es = sum_list (map (\<lambda>p. of_bool (pe_mutex p) + of_bool (pe_cond p)) es)"

datatype jvm_error = Alloc_failed | Omonitor_moved

definition Knob_SpinBackOff :: nat where "Knob_SpinBackOff = 0"

text \<open>The first part of \<open>jvm_init_locks\<close>: destroy and free the events.\<close>

definition free_park_events :: "jvm_globals \<Rightarrow> jvm_globals" where
  "free_park_events g = (case park_events g of None \<Rightarrow> g
   | Some es \<Rightarrow> let es = map parkevent_destroy (take (park_events_length g) es) @ drop (park_events_length g) es
     in g\<lparr>park_events := None, park_events_length := 0, leaked := leaked g + live_objects es\<rparr>)"

text \<open>\<open>posix_memalign\<close> for \<open>num_threads\<close> events returns \<open>memory\<close>, with whatever is in it, or fails.\<close>

definition alloc_park_events :: "ParkEvent list option \<Rightarrow> nat \<Rightarrow> jvm_globals \<Rightarrow> jvm_error + jvm_globals" where
  "alloc_park_events memory num_threads g = (case park_events g of
       Some _ \<Rightarrow> Inr g
     | None \<Rightarrow> (case memory of None \<Rightarrow> Inl Alloc_failed
         | Some es \<Rightarrow> Inr (g\<lparr>park_events := Some (map parkevent_init (take num_threads es) @ drop num_threads es), park_events_length := num_threads\<rparr>)))"

definition set_omonitor :: "u64 \<Rightarrow> jvm_globals \<Rightarrow> jvm_error + jvm_globals" where
  "set_omonitor lock g = (case omonitor g of None \<Rightarrow> Inr (g\<lparr>omonitor := Some lock\<rparr>)
   | Some m \<Rightarrow> if m \<noteq> lock then Inl Omonitor_moved else Inr g)"

definition init_monitor :: "jvm_globals \<Rightarrow> jvm_globals" where
  "init_monitor g = g\<lparr>monitor := (monitor g)\<lparr>om_owner := None, om_EntryList := None, om_cxq := None, om_Spinner := 0, om_SpinDuration := 0,
     om_count := 0, om_succ := None, om_Responsible := None\<rparr>, BackOffMask := 2 ^ Knob_SpinBackOff - 1\<rparr>"

definition jvm_reinit_locks :: "ParkEvent list option \<Rightarrow> u64 \<Rightarrow> nat \<Rightarrow> jvm_globals \<Rightarrow> jvm_error + jvm_globals" where
  "jvm_reinit_locks memory lock num_threads g = (case alloc_park_events memory num_threads (free_park_events g) of
       Inl e \<Rightarrow> Inl e
     | Inr g \<Rightarrow> (case set_omonitor lock g of Inl e \<Rightarrow> Inl e | Inr g \<Rightarrow> Inr (init_monitor g)))"

text \<open>The state in which \<open>num_threads\<close> threads start to use the monitor: nobody has a node yet or is in an event.\<close>

definition jvm_begin :: "jvm_globals \<Rightarrow> om_state" where
  "jvm_begin g = (let m = monitor g; e = (\<lambda>f i. case park_events g of Some es \<Rightarrow> if i < length es then f (es ! i) else 0 | None \<Rightarrow> 0) in
     \<lparr>m_owner = om_owner m, m_EntryList = om_EntryList m, m_cxq = om_cxq m, m_succ = om_succ m, m_Responsible = om_Responsible m,
      m_SpinDuration = om_SpinDuration m, m_count = om_count m, w_next = (\<lambda>_. None), w_prev = (\<lambda>_. OW_NULL), w_TState = (\<lambda>_. TS_UNDEF),
      e_Event = e pe_Event, e_nParked = e pe_nParked, e_mutex = (\<lambda>_. None), e_signalled = (\<lambda>_. False), m_pc = (\<lambda>_. MIdle)\<rparr>)"

lemma parkevent_init_fields [simp]:
  "pe_Event (parkevent_init p) = 0" "pe_nParked (parkevent_init p) = 0" "pe_mutex (parkevent_init p)" "pe_cond (parkevent_init p)"
  by (simp_all add: parkevent_init_def)

lemma free_park_events_fields [simp]: "park_events (free_park_events g) = None" "omonitor (free_park_events g) = omonitor g"
  by (simp_all add: free_park_events_def Let_def split: option.split)

lemma alloc_after_free:
  "length es = n \<Longrightarrow> alloc_park_events (Some es) n (free_park_events g) =
     Inr ((free_park_events g)\<lparr>park_events := Some (map parkevent_init es), park_events_length := n\<rparr>)"
  by (simp add: alloc_park_events_def)

text \<open>C28: every measurement with the object monitor starts afresh: whatever an earlier one has left in the monitor and its
  events, and whatever the new memory holds, when the initialization returns the state is the one that the
  theorems about the monitor start from, with an initialized event for every thread. It returns unless
  the allocation fails or the lock has moved.\<close>

theorem jvm_measurement_starts_fresh:
  assumes "length es = n"
  shows "(case jvm_reinit_locks (Some es) lock n g of
      Inr g' \<Rightarrow> jvm_begin g' = jvm_init_locks \<and> omonitor g' = Some lock \<and> park_events_length g' = n \<and>
        (\<exists>ps. park_events g' = Some ps \<and> length ps = n \<and> (\<forall>p\<in>set ps. pe_mutex p \<and> pe_cond p))
    | Inl e \<Rightarrow> e = Omonitor_moved \<and> (\<exists>m. omonitor g = Some m \<and> m \<noteq> lock))"
proof -
  define g1 where "g1 = (free_park_events g)\<lparr>park_events := Some (map parkevent_init es), park_events_length := n\<rparr>"
  have a: "alloc_park_events (Some es) n (free_park_events g) = Inr g1" using alloc_after_free [OF assms] by (simp add: g1_def)
  have b: "park_events g1 = Some (map parkevent_init es)" "park_events_length g1 = n" "omonitor g1 = omonitor g" by (simp_all add: g1_def)
  show ?thesis
  proof (cases "set_omonitor lock g1")
    case (Inl e)
    then show ?thesis using a b by (auto simp: jvm_reinit_locks_def set_omonitor_def split: option.splits if_splits)
  next
    case (Inr g2)
    then have c: "omonitor g2 = Some lock" "park_events g2 = Some (map parkevent_init es)" "park_events_length g2 = n"
      using b by (auto simp: set_omonitor_def split: option.splits if_splits)
    have "jvm_begin (init_monitor g2) = jvm_init_locks"
      by (simp add: jvm_begin_def init_monitor_def jvm_init_locks_def c Let_def fun_eq_iff)
    with a Inr c assms show ?thesis by (auto simp: jvm_reinit_locks_def init_monitor_def)
  qed
qed

text \<open>The first measurement, with two events in memory that holds arbitrary values, and a second one of three threads.\<close>

definition junk :: ParkEvent where
  "junk = \<lparr>pe_Event = 7, pe_nParked = -3, pe_mutex = False, pe_cond = False, pe_Assoc = Some 9, pe_FreeNext = Some 1, pe_AssociatedWith = None,
     pe_ListNext = None, pe_OnList = 4, pe_TState = 5, pe_Notified = 6\<rparr>"

definition jvm_globals_zero :: jvm_globals where
  "jvm_globals_zero = \<lparr>park_events = None, park_events_length = 0, omonitor = None,
     monitor = \<lparr>om_owner = Some 1, om_EntryList = None, om_cxq = None, om_succ = None, om_Responsible = None, om_Spinner = 0, om_SpinDuration = 0, om_count = 8\<rparr>,
     BackOffMask = 0, leaked = 0\<rparr>"

theorem jvm_measurement_starts_fresh_witness:
  "\<exists>g g'. jvm_reinit_locks (Some [junk, junk]) 4096 2 jvm_globals_zero = Inr g \<and> jvm_reinit_locks (Some [junk, junk, junk]) 4096 3 g = Inr g' \<and>
     jvm_begin g' = jvm_init_locks"
proof -
  obtain g where g: "jvm_reinit_locks (Some [junk, junk]) 4096 2 jvm_globals_zero = Inr g" "omonitor g = Some 4096"
    by (simp add: jvm_reinit_locks_def alloc_park_events_def free_park_events_def set_omonitor_def jvm_globals_zero_def init_monitor_def)
  then obtain g' where g': "jvm_reinit_locks (Some [junk, junk, junk]) 4096 3 g = Inr g'"
    using jvm_measurement_starts_fresh [of "[junk, junk, junk]" 3, where lock = 4096 and g = g] by (auto split: sum.splits)
  with jvm_measurement_starts_fresh [of "[junk, junk, junk]" 3, where lock = 4096 and g = g] g show ?thesis by auto
qed

text \<open>Every further measurement leaks the POSIX objects of the one before: \<open>parkevent_destroy\<close> initializes what it has
  destroyed, and the memory is then freed.\<close>

lemma live_after_destroy: "live_objects (map parkevent_destroy es) = 2 * length es"
  by (induction es) (simp_all add: live_objects_def parkevent_destroy_def)

theorem jvm_reinit_leaks:
  assumes "park_events g = Some es" "park_events_length g = length es" "jvm_reinit_locks memory lock n g = Inr g'"
  shows "leaked g' = leaked g + 2 * length es"
  using assms live_after_destroy [of es]
  by (auto simp: jvm_reinit_locks_def free_park_events_def alloc_park_events_def set_omonitor_def init_monitor_def Let_def
      split: option.splits sum.splits if_splits)

end
