(* ===== verification/Lk_Atomics.thy ===== *)
theory Lk_Atomics
  imports Atomics
begin

text \<open>
  The primitives the Linux locks are written with: \<open>lk_atomics.h\<close> (32-bit compare-exchange,
  fetch-or, 16-bit exchange, sized single accesses, the spin loops \<open>smp_cond_load_*\<close>) and
  \<open>lk_cmpxchg.h\<close> (compare-exchange and exchange generated for the sizes 1, 2, 4 and 8 and the
  four orderings). Memory is a 64-bit cell; an access of \<open>n\<close> bits at its address touches the
  low \<open>n\<close> bits (little endian) and leaves the others as they are.
\<close>

section \<open>Parts of a cell\<close>

definition put_low :: "nat \<Rightarrow> u64 \<Rightarrow> u64 \<Rightarrow> u64" where
  "put_low n m v = (m AND NOT (mask n)) OR take_bit n v"

lemma take_bit_put_low [simp]: "take_bit n (put_low n m v) = take_bit n v"
  unfolding put_low_def by (rule bit_word_eqI) (auto simp: bit_simps)

lemma put_low_rest: "drop_bit n (put_low n m v) = drop_bit n m"
  unfolding put_low_def by (rule bit_word_eqI) (auto simp: bit_simps dest: bit_imp_le_length)

lemma put_low_self [simp]: "put_low n m m = m"
  unfolding put_low_def by (rule bit_word_eqI) (auto simp: bit_simps)

lemma put_low_full: "64 \<le> n \<Longrightarrow> put_low n m v = v"
  unfolding put_low_def by (rule bit_word_eqI) (auto simp: bit_simps)

section \<open>Single accesses\<close>

text \<open>\<open>__read_once_size\<close>: \<open>res\<close> keeps what it held when the size is none of 1, 2, 4, 8.\<close>

definition read_once_size :: "u64 \<Rightarrow> u64 \<Rightarrow> nat \<Rightarrow> u64" where
  "read_once_size p res sz =
     (if sz = 1 then put_low 8 res p
      else if sz = 2 then put_low 16 res p
      else if sz = 4 then put_low 32 res p
      else if sz = 8 then put_low 64 res p
      else res)"

definition write_once_size :: "u64 \<Rightarrow> u64 \<Rightarrow> nat \<Rightarrow> u64" where
  "write_once_size p res sz =
     (if sz = 1 then put_low 8 p res
      else if sz = 2 then put_low 16 p res
      else if sz = 4 then put_low 32 p res
      else if sz = 8 then put_low 64 p res
      else p)"

text \<open>\<open>__smp_store_release\<close>: \<open>stlrb\<close>, \<open>stlrh\<close>, \<open>stlr\<close> by size on AArch64, \<open>WRITE_ONCE\<close> elsewhere.\<close>

definition smp_store_release :: "arch \<Rightarrow> nat \<Rightarrow> u64 \<Rightarrow> u64 \<Rightarrow> u64" where
  "smp_store_release a sz p v =
     (if a = X86_64 then write_once_size p v sz
      else if sz = 1 then put_low 8 p v
      else if sz = 2 then put_low 16 p v
      else if sz = 4 then put_low 32 p v
      else if sz = 8 then put_low 64 p v
      else p)"

text \<open>\<open>__smp_load_acquire\<close> into a fresh union \<open>__u\<close>, whose content before the load is \<open>junk\<close>.\<close>

definition smp_load_acquire :: "arch \<Rightarrow> nat \<Rightarrow> u64 \<Rightarrow> u64 \<Rightarrow> u64" where
  "smp_load_acquire a sz junk p =
     (if a = X86_64 then read_once_size p junk sz
      else if sz = 1 then put_low 8 junk p
      else if sz = 2 then put_low 16 junk p
      else if sz = 4 then put_low 32 junk p
      else if sz = 8 then put_low 64 junk p
      else junk)"

section \<open>Spin loops\<close>

text \<open>
  \<open>__cmpwait_relaxed(ptr, val)\<close> loads the location again and, when it still holds \<open>val\<close>, waits
  for an event; true means that it went to wait.
\<close>

definition cmpwait_relaxed :: "u64 \<Rightarrow> u64 \<Rightarrow> bool" where
  "cmpwait_relaxed v val \<longleftrightarrow> (v XOR val) AND mask 32 = 0"

text \<open>
  \<open>smp_cond_load_acquire\<close> and \<open>smp_cond_load_relaxed\<close>: the list holds what successive loads of the
  location return (an AArch64 pass makes a second one in \<open>__cmpwait_relaxed\<close>). The result is the
  value that left the loop and the number of waits for an event or calls of \<open>cpu_relax\<close> on the
  way; \<open>None\<close> when the loop is still running after these loads.
\<close>

fun smp_cond_load :: "arch \<Rightarrow> (u64 \<Rightarrow> bool) \<Rightarrow> u64 list \<Rightarrow> (u64 \<times> nat) option" where
  "smp_cond_load a cond_expr [] = None"
| "smp_cond_load a cond_expr (VAL # vs) =
     (if cond_expr VAL then Some (VAL, 0)
      else if a = X86_64 then map_option (apsnd Suc) (smp_cond_load a cond_expr vs)
      else (case vs of [] \<Rightarrow> None
            | v # ws \<Rightarrow> map_option (apsnd (\<lambda>k. if cmpwait_relaxed v VAL then Suc k else k))
                         (smp_cond_load a cond_expr ws)))"

text \<open>\<open>arch_mcs_spin_lock_contended\<close>: \<open>while (!smp_load_acquire(l)) cpu_relax()\<close>; the loads made.\<close>

fun arch_mcs_spin_lock_contended :: "u32 list \<Rightarrow> nat option" where
  "arch_mcs_spin_lock_contended [] = None"
| "arch_mcs_spin_lock_contended (v # vs) =
     (if v \<noteq> 0 then Some 1 else map_option Suc (arch_mcs_spin_lock_contended vs))"

definition arch_mcs_spin_unlock_contended :: "arch \<Rightarrow> u64 \<Rightarrow> u64" where
  "arch_mcs_spin_unlock_contended a l = smp_store_release a 4 l 1"

section \<open>32-bit compare-exchange, fetch-or and 16-bit exchange\<close>

definition atomic_cmpxchg_acquire32 :: "arch \<Rightarrow> u32 attempt list \<Rightarrow> u32 \<Rightarrow> u32 \<Rightarrow> u32 \<Rightarrow> u32 rmw option" where
  "atomic_cmpxchg_acquire32 a as ptr exp val = (case a of
     X86_64 \<Rightarrow> Some (atomic_rmw AcqRel (cas_instr val exp) ptr)
   | AArch64_LSE \<Rightarrow> Some (atomic_rmw Acquire (cas_instr val exp) ptr)
   | AArch64_LLSC \<Rightarrow> exclusive_loop Acquire (cas_eor val exp) as ptr)"

definition atomic_cmpxchg_release32 :: "arch \<Rightarrow> u32 attempt list \<Rightarrow> u32 \<Rightarrow> u32 \<Rightarrow> u32 \<Rightarrow> u32 rmw option" where
  "atomic_cmpxchg_release32 a as ptr exp val = (case a of
     X86_64 \<Rightarrow> Some (atomic_rmw AcqRel (cas_instr val exp) ptr)
   | AArch64_LSE \<Rightarrow> Some (atomic_rmw Release (cas_instr val exp) ptr)
   | AArch64_LLSC \<Rightarrow> exclusive_loop Release (cas_eor val exp) as ptr)"

definition atomic_cmpxchg_relaxed32 :: "arch \<Rightarrow> u32 attempt list \<Rightarrow> u32 \<Rightarrow> u32 \<Rightarrow> u32 \<Rightarrow> u32 rmw option" where
  "atomic_cmpxchg_relaxed32 a as ptr exp val = (case a of
     X86_64 \<Rightarrow> Some (atomic_rmw AcqRel (cas_instr val exp) ptr)
   | AArch64_LSE \<Rightarrow> Some (atomic_rmw Relaxed (cas_instr val exp) ptr)
   | AArch64_LLSC \<Rightarrow> exclusive_loop Relaxed (cas_eor val exp) as ptr)"

text \<open>The \<open>try\<close> forms: what the access did, the new content of \<open>*exp\<close> and the truth value returned.\<close>

definition try_result :: "u32 \<Rightarrow> u32 rmw \<Rightarrow> u32 rmw \<times> u32 \<times> bool" where
  "try_result tmp r = (let old = rmw_old r in if old \<noteq> tmp then (r, old, False) else (r, tmp, True))"

definition atomic_try_cmpxchg_acquire32 :: "arch \<Rightarrow> u32 attempt list \<Rightarrow> u32 \<Rightarrow> u32 \<Rightarrow> u32 \<Rightarrow> (u32 rmw \<times> u32 \<times> bool) option" where
  "atomic_try_cmpxchg_acquire32 a as ptr exp val =
     map_option (try_result exp) (atomic_cmpxchg_acquire32 a as ptr exp val)"

definition atomic_try_cmpxchg_relaxed32 :: "arch \<Rightarrow> u32 attempt list \<Rightarrow> u32 \<Rightarrow> u32 \<Rightarrow> u32 \<Rightarrow> (u32 rmw \<times> u32 \<times> bool) option" where
  "atomic_try_cmpxchg_relaxed32 a as ptr exp val =
     map_option (try_result exp) (atomic_cmpxchg_relaxed32 a as ptr exp val)"

text \<open>
  The x86-64 body of \<open>atomic_fetch_or_acquire32\<close>: \<open>while (!try_cmpxchg(&counter, &old_val, old_val | i))\<close>.
  In a pass the other threads may store to the counter before the compare-exchange; one that
  fails is the load of the next pass.
\<close>

fun fetch_or_loop :: "u32 \<Rightarrow> u32 attempt list \<Rightarrow> u32 \<Rightarrow> u32 \<Rightarrow> u32 rmw option" where
  "fetch_or_loop i [] old_val m = None"
| "fetch_or_loop i (a # as) old_val m =
     (case atomic_try_cmpxchg_acquire32 X86_64 [] (overwrite (before_store a) m) old_val (old_val OR i) of
        None \<Rightarrow> None
      | Some (r, old, ok) \<Rightarrow> if ok then Some r else fetch_or_loop i as old (rmw_new r))"

definition atomic_fetch_or_acquire32 :: "arch \<Rightarrow> u32 attempt list \<Rightarrow> u32 \<Rightarrow> u32 \<Rightarrow> u32 rmw option" where
  "atomic_fetch_or_acquire32 a as i v = (case a of
     X86_64 \<Rightarrow> fetch_or_loop i as v v
   | AArch64_LSE \<Rightarrow> Some (atomic_rmw Acquire (\<lambda>old. Some (old OR i)) v)
   | AArch64_LLSC \<Rightarrow> exclusive_loop AcqRel (\<lambda>old. Some (old OR i)) as v)"

definition xchg_release16 :: "arch \<Rightarrow> u16 attempt list \<Rightarrow> u16 \<Rightarrow> u16 \<Rightarrow> u16 rmw option" where
  "xchg_release16 a as ptr val = (case a of
     X86_64 \<Rightarrow> Some (atomic_rmw AcqRel (\<lambda>old. Some val) ptr)
   | AArch64_LSE \<Rightarrow> Some (atomic_rmw Release (\<lambda>old. Some val) ptr)
   | AArch64_LLSC \<Rightarrow> exclusive_loop Release (\<lambda>old. Some val) as ptr)"

section \<open>Sized compare-exchange and exchange\<close>

text \<open>The suffixes the generator macros are expanded with: none, \<open>_acq\<close>, \<open>_rel\<close>, \<open>_mb\<close>.\<close>

datatype sfx = Sfx | Sfx_acq | Sfx_rel | Sfx_mb

definition sfx_order :: "sfx \<Rightarrow> order" where
  "sfx_order x = (case x of Sfx \<Rightarrow> Relaxed | Sfx_acq \<Rightarrow> Acquire | Sfx_rel \<Rightarrow> Release | Sfx_mb \<Rightarrow> AcqRel)"

text \<open>
  \<open>__CMPXCHG_CASE(w, sz, \<dots>)\<close>: load-exclusive of \<open>n\<close> bits, zero-extended; \<open>eor\<close> with the register
  \<open>old\<close> at the register width \<open>w\<close> (32 bits, or 64 for size 8); store-exclusive of \<open>n\<close> bits. The full
  barrier of the \<open>_mb\<close> case follows the successful store only.
\<close>

definition cmpxchg_eor :: "nat \<Rightarrow> nat \<Rightarrow> u64 \<Rightarrow> u64 \<Rightarrow> u64 \<Rightarrow> u64 option" where
  "cmpxchg_eor w n old new m =
     (if take_bit w (take_bit n m XOR old) = 0 then Some (put_low n m new) else None)"

definition ll_sc_order :: "sfx \<Rightarrow> bool \<Rightarrow> order" where
  "ll_sc_order x stored = (case x of Sfx \<Rightarrow> Relaxed | Sfx_acq \<Rightarrow> Acquire
     | Sfx_rel \<Rightarrow> if stored then Release else Relaxed
     | Sfx_mb \<Rightarrow> if stored then AcqRel else Relaxed)"

definition ll_sc_cmpxchg_case :: "sfx \<Rightarrow> nat \<Rightarrow> u64 attempt list \<Rightarrow> u64 \<Rightarrow> u64 \<Rightarrow> u64 \<Rightarrow> (u64 \<times> u64 rmw) option" where
  "ll_sc_cmpxchg_case x n as ptr old new =
     (let w = (if n = 64 then 64 else 32) in
      map_option (\<lambda>r. (take_bit n (rmw_old r),
                       r\<lparr>rmw_order := ll_sc_order x (cmpxchg_eor w n old new (rmw_old r) \<noteq> None)\<rparr>))
        (exclusive_loop Relaxed (cmpxchg_eor w n old new) as ptr))"

text \<open>\<open>__LSE_CMPXCHG_CASE\<close>: \<open>cas\<close> with the ordering and size suffixes compares \<open>n\<close> bits of both.\<close>

definition lse_cmpxchg_case :: "sfx \<Rightarrow> nat \<Rightarrow> u64 \<Rightarrow> u64 \<Rightarrow> u64 \<Rightarrow> (u64 \<times> u64 rmw) option" where
  "lse_cmpxchg_case x n ptr old new =
     (let r = atomic_rmw (sfx_order x)
                (\<lambda>m. if take_bit n m = take_bit n old then Some (put_low n m new) else None) ptr
      in Some (take_bit n (rmw_old r), r))"

text \<open>\<open>__raw_cmpxchg\<close> with the \<open>lock\<close> prefix: \<open>cmpxchgb/w/l/q\<close>, a full barrier.\<close>

definition raw_cmpxchg :: "nat \<Rightarrow> u64 \<Rightarrow> u64 \<Rightarrow> u64 \<Rightarrow> (u64 \<times> u64 rmw) option" where
  "raw_cmpxchg n ptr old new =
     (let r = atomic_rmw AcqRel
                (\<lambda>m. if take_bit n m = take_bit n old then Some (put_low n m new) else None) ptr
      in Some (take_bit n (rmw_old r), r))"

text \<open>
  \<open>__CMPXCHG_GEN\<close>: the switch on the size, with the casts \<open>(u8)old\<close> and \<open>(u16)old\<close>; another size is
  \<open>unreachable()\<close>. On x86-64 \<open>__raw_cmpxchg\<close> has the same switch, whatever the suffix.
\<close>

definition cmpxchg_sfx :: "arch \<Rightarrow> sfx \<Rightarrow> u64 attempt list \<Rightarrow> u64 \<Rightarrow> u64 \<Rightarrow> u64 \<Rightarrow> nat \<Rightarrow> (u64 \<times> u64 rmw) option" where
  "cmpxchg_sfx a x as ptr old new sz =
     (if sz = 1 then (case a of
        AArch64_LLSC \<Rightarrow> ll_sc_cmpxchg_case x 8 as ptr (take_bit 8 old) new
      | AArch64_LSE \<Rightarrow> lse_cmpxchg_case x 8 ptr (take_bit 8 old) new
      | X86_64 \<Rightarrow> raw_cmpxchg 8 ptr old new)
      else if sz = 2 then (case a of
        AArch64_LLSC \<Rightarrow> ll_sc_cmpxchg_case x 16 as ptr (take_bit 16 old) new
      | AArch64_LSE \<Rightarrow> lse_cmpxchg_case x 16 ptr (take_bit 16 old) new
      | X86_64 \<Rightarrow> raw_cmpxchg 16 ptr old new)
      else if sz = 4 then (case a of
        AArch64_LLSC \<Rightarrow> ll_sc_cmpxchg_case x 32 as ptr old new
      | AArch64_LSE \<Rightarrow> lse_cmpxchg_case x 32 ptr old new
      | X86_64 \<Rightarrow> raw_cmpxchg 32 ptr old new)
      else if sz = 8 then (case a of
        AArch64_LLSC \<Rightarrow> ll_sc_cmpxchg_case x 64 as ptr old new
      | AArch64_LSE \<Rightarrow> lse_cmpxchg_case x 64 ptr old new
      | X86_64 \<Rightarrow> raw_cmpxchg 64 ptr old new)
      else None)"

text \<open>\<open>__XCHG_CASE\<close> and \<open>__XCHG_GEN\<close>; x86-64 has \<open>xchgb/w/l/q\<close> in \<open>__xchg_op\<close>.\<close>

definition xchg_case :: "arch \<Rightarrow> sfx \<Rightarrow> nat \<Rightarrow> u64 attempt list \<Rightarrow> u64 \<Rightarrow> u64 \<Rightarrow> (u64 \<times> u64 rmw) option" where
  "xchg_case a x n as v ptr =
     map_option (\<lambda>r. (take_bit n (rmw_old r), r))
       (case a of
          AArch64_LLSC \<Rightarrow> exclusive_loop (sfx_order x) (\<lambda>m. Some (put_low n m v)) as ptr
        | AArch64_LSE \<Rightarrow> Some (atomic_rmw (sfx_order x) (\<lambda>m. Some (put_low n m v)) ptr)
        | X86_64 \<Rightarrow> Some (atomic_rmw AcqRel (\<lambda>m. Some (put_low n m v)) ptr))"

definition xchg_sfx :: "arch \<Rightarrow> sfx \<Rightarrow> u64 attempt list \<Rightarrow> u64 \<Rightarrow> u64 \<Rightarrow> nat \<Rightarrow> (u64 \<times> u64 rmw) option" where
  "xchg_sfx a x as v ptr sz =
     (if sz = 1 then xchg_case a x 8 as v ptr
      else if sz = 2 then xchg_case a x 16 as v ptr
      else if sz = 4 then xchg_case a x 32 as v ptr
      else if sz = 8 then xchg_case a x 64 as v ptr
      else None)"

text \<open>\<open>atomic_cmpxchg*\<close> and \<open>atomic_xchg*\<close> on the \<open>int\<close> counter of an \<open>atomic_t\<close>.\<close>

definition atomic_cmpxchg :: "arch \<Rightarrow> sfx \<Rightarrow> u64 attempt list \<Rightarrow> u64 \<Rightarrow> u64 \<Rightarrow> u64 \<Rightarrow> (u64 \<times> u64 rmw) option" where
  "atomic_cmpxchg a x as v old new = cmpxchg_sfx a x as v old new 4"

definition atomic_xchg :: "arch \<Rightarrow> sfx \<Rightarrow> u64 attempt list \<Rightarrow> u64 \<Rightarrow> u64 \<Rightarrow> (u64 \<times> u64 rmw) option" where
  "atomic_xchg a x as v new = xchg_sfx a x as new v 4"

section \<open>The primitives are atomic\<close>

lemmas lk_op_defs = atomic_cmpxchg_acquire32_def atomic_cmpxchg_release32_def
  atomic_cmpxchg_relaxed32_def xchg_release16_def

interpretation cmpxchg_acquire32: atomic_operation "\<lambda>as m. atomic_cmpxchg_acquire32 a as m e v" "cas_instr v e" for a v e
  by (cases a; rule atomic_operation_body; force simp: lk_op_defs)

interpretation cmpxchg_release32: atomic_operation "\<lambda>as m. atomic_cmpxchg_release32 a as m e v" "cas_instr v e" for a v e
  by (cases a; rule atomic_operation_body; force simp: lk_op_defs)

interpretation cmpxchg_relaxed32: atomic_operation "\<lambda>as m. atomic_cmpxchg_relaxed32 a as m e v" "cas_instr v e" for a v e
  by (cases a; rule atomic_operation_body; force simp: lk_op_defs)

interpretation xchg_release16: atomic_operation "\<lambda>as m. xchg_release16 a as m v" "\<lambda>old. Some v" for a v
  by (cases a; rule atomic_operation_body; force simp: lk_op_defs)

text \<open>The compare-exchange loop of fetch-or: the value expected is always the one last read.\<close>

lemma fetch_or_pass:
  "fetch_or_loop i (a # as) m m =
     (let cell = overwrite (before_store a) m in
      if cell = m then Some (atomic_rmw AcqRel (\<lambda>old. Some (old OR i)) m) else fetch_or_loop i as cell cell)"
  by (simp add: atomic_try_cmpxchg_acquire32_def atomic_cmpxchg_acquire32_def try_result_def
      atomic_rmw_def cas_instr_def Let_def)

lemma fetch_or_loop_linear:
  "fetch_or_loop i as m m = Some r \<Longrightarrow> \<exists>old\<in>set (history as m). r = atomic_rmw AcqRel (\<lambda>old. Some (old OR i)) old"
proof (induction as arbitrary: m)
  case Nil
  then show ?case by simp
next
  case (Cons a as)
  let ?cell = "overwrite (before_store a) m"
  show ?case
  proof (cases "?cell = m")
    case True
    with Cons.prems show ?thesis by (auto simp: fetch_or_pass Let_def simp del: fetch_or_loop.simps)
  next
    case False
    with Cons.prems have "fetch_or_loop i as ?cell ?cell = Some r"
      by (simp add: fetch_or_pass Let_def del: fetch_or_loop.simps)
    from Cons.IH [OF this] False show ?thesis
      by (auto simp: Let_def overwrite_def split: option.splits)
  qed
qed

lemma fetch_or_loop_returns:
  "a \<in> set as \<Longrightarrow> store_exclusive_ok a \<Longrightarrow> \<exists>r. fetch_or_loop i as m m = Some r"
proof (induction as arbitrary: m)
  case (Cons b as)
  then show ?case
    by (cases "a = b")
      (auto simp: fetch_or_pass Let_def store_exclusive_ok_def overwrite_def simp del: fetch_or_loop.simps)
qed simp

interpretation fetch_or: atomic_operation "\<lambda>as m. atomic_fetch_or_acquire32 a as i m" "\<lambda>old. Some (old OR i)" for a i
proof (cases a)
  case X86_64
  show "atomic_operation (\<lambda>as m. atomic_fetch_or_acquire32 a as i m) (\<lambda>old. Some (old OR i))"
    unfolding X86_64 atomic_fetch_or_acquire32_def arch.case
    by unfold_locales (blast dest: fetch_or_loop_linear, rule fetch_or_loop_returns)
qed (rule atomic_operation_body; force simp: atomic_fetch_or_acquire32_def)+

section \<open>Sizes\<close>

text \<open>What all builds of a sized compare-exchange amount to.\<close>

definition sized_cas :: "nat \<Rightarrow> u64 \<Rightarrow> u64 \<Rightarrow> u64 \<Rightarrow> u64 option" where
  "sized_cas n old new m = (if take_bit n m = take_bit n old then Some (put_low n m new) else None)"

lemma eor_low_eq_0:
  assumes "n \<le> w"
  shows "take_bit w (take_bit n m XOR take_bit n old) = 0 \<longleftrightarrow> take_bit n m = take_bit n (old :: u64)"
  using assms by (auto simp: bit_eq_iff bit_simps)

lemma cmpxchg_eor_cast:
  "n \<le> w \<Longrightarrow> cmpxchg_eor w n (take_bit n old) new = sized_cas n old new"
  by (intro ext) (simp only: cmpxchg_eor_def sized_cas_def eor_low_eq_0)

lemma cmpxchg_eor_full: "cmpxchg_eor n n old new = sized_cas n old new"
proof -
  have "take_bit n (take_bit n m XOR old) = take_bit n (take_bit n m XOR take_bit n old)" for m
    by (simp add: take_bit_xor)
  then show ?thesis
    by (intro ext) (simp only: cmpxchg_eor_def sized_cas_def eor_low_eq_0 [OF order_refl])
qed

lemma sized_cas_cast [simp]: "sized_cas n (take_bit n old) new = sized_cas n old new"
  by (intro ext) (simp add: sized_cas_def)

text \<open>A case of either AArch64 build, or \<open>__raw_cmpxchg\<close>, reads and stores as \<open>sized_cas\<close> does.\<close>

definition sized_outcome :: "nat \<Rightarrow> (u64 \<Rightarrow> u64 option) \<Rightarrow> u64 attempt list \<Rightarrow> u64 \<Rightarrow> u64 \<times> u64 rmw \<Rightarrow> bool" where
  "sized_outcome n f as m res \<longleftrightarrow> (case res of (ret, r) \<Rightarrow>
     ret = take_bit n (rmw_old r) \<and> rmw_old r \<in> set (history as m) \<and>
     rmw_new r = (case f (rmw_old r) of None \<Rightarrow> rmw_old r | Some v \<Rightarrow> v))"

lemma sized_outcome_rmw:
  "sized_outcome n f as m (take_bit n m, atomic_rmw o' f m)"
  by (simp add: sized_outcome_def atomic_rmw_def split: option.split)

lemma sized_outcome_loop:
  assumes "exclusive_loop o' f as m = Some r"
  shows "sized_outcome n f as m (take_bit n (rmw_old r), r\<lparr>rmw_order := q\<rparr>)"
    and "sized_outcome n f as m (take_bit n (rmw_old r), r)"
  using exclusive_loop_linear [OF assms]
  by (auto simp: sized_outcome_def atomic_rmw_def split: option.split)

lemma cas_case_outcome:
  "lse_cmpxchg_case x n m old new = Some res \<Longrightarrow> sized_outcome n (sized_cas n old new) as m res"
  "raw_cmpxchg n m old new = Some res \<Longrightarrow> sized_outcome n (sized_cas n old new) as m res"
  using sized_outcome_rmw [of n "sized_cas n old new" as m]
  by (auto simp: lse_cmpxchg_case_def raw_cmpxchg_def Let_def sized_cas_def [abs_def] atomic_rmw_def)

lemma ll_sc_case_outcome:
  assumes "ll_sc_cmpxchg_case x n as m old new = Some res"
    and "cmpxchg_eor (if n = 64 then 64 else 32) n old new = sized_cas n old new"
  shows "sized_outcome n (sized_cas n old new) as m res"
proof -
  from assms obtain r where r: "exclusive_loop Relaxed (sized_cas n old new) as m = Some r"
    "\<exists>q. res = (take_bit n (rmw_old r), r\<lparr>rmw_order := q\<rparr>)"
    by (auto simp: ll_sc_cmpxchg_case_def Let_def simp del: if_split)
  from r(2) sized_outcome_loop(1) [OF r(1)] show ?thesis by blast
qed

lemma cmpxchg_eor_sizes:
  "cmpxchg_eor 32 8 (take_bit 8 old) new = sized_cas 8 old new"
  "cmpxchg_eor 32 16 (take_bit 16 old) new = sized_cas 16 old new"
  "cmpxchg_eor 32 32 old new = sized_cas 32 old new"
  "cmpxchg_eor 64 64 old new = sized_cas 64 old new"
  by (simp_all add: cmpxchg_eor_cast cmpxchg_eor_full)

lemma cmpxchg_sfx_outcome:
  assumes "sz \<in> {1, 2, 4, 8}" and "cmpxchg_sfx a x as m old new sz = Some res"
  shows "sized_outcome (8 * sz) (sized_cas (8 * sz) old new) as m res"
  using assms
  by (cases a)
    (auto simp: cmpxchg_sfx_def cmpxchg_eor_sizes dest!: ll_sc_case_outcome cas_case_outcome [where as = as])

lemma xchg_sfx_outcome:
  assumes "sz \<in> {1, 2, 4, 8}" and "xchg_sfx a x as v m sz = Some res"
  shows "sized_outcome (8 * sz) (\<lambda>m. Some (put_low (8 * sz) m v)) as m res"
  using assms
  by (cases a)
    (auto simp: xchg_sfx_def xchg_case_def atomic_rmw_def sized_outcome_def
      dest!: sized_outcome_loop(2))

section \<open>Spinning\<close>

lemma smp_cond_load_sound:
  "smp_cond_load a c vs = Some (v, k) \<Longrightarrow> c v \<and> v \<in> set vs"
proof (induction a c vs arbitrary: k rule: smp_cond_load.induct)
  case (2 a c u us)
  show ?case
  proof (cases "c u \<or> a = X86_64")
    case True
    with 2 show ?thesis by (auto split: if_splits)
  next
    case False
    with 2 show ?thesis by (cases us) auto
  qed
qed simp

text \<open>On AArch64 every second load is the one of \<open>__cmpwait_relaxed\<close>, so two loads are needed.\<close>

lemma smp_cond_load_stable:
  "c v \<Longrightarrow> c w \<Longrightarrow> \<exists>r. smp_cond_load a c (us @ [v, w]) = Some r"
proof (induction us rule: induct_list012)
  case (3 x y zs)
  then show ?case by (cases "a = X86_64") auto
qed auto

section \<open>Properties\<close>

text \<open>The 32-bit compare-exchange functions, fetch-or and the 16-bit exchange are one atomic access in
  all three builds: the value returned is one the cell had during the call, the value left is the
  one the C interface promises, and a call returns as soon as one pass is not disturbed. For
  fetch-or this covers the compare-exchange loop of the x86-64 build.\<close>

theorem lk_atomics_atomic:
  "(\<forall>cmpxchg\<in>{atomic_cmpxchg_acquire32, atomic_cmpxchg_release32, atomic_cmpxchg_relaxed32}. \<forall>r.
      cmpxchg a as m e v = Some r \<longrightarrow> rmw_old r \<in> set (history as m) \<and>
      rmw_new r = (if rmw_old r = e then v else rmw_old r)) \<and>
   (\<forall>r. atomic_fetch_or_acquire32 a as v m = Some r \<longrightarrow>
      rmw_old r \<in> set (history as m) \<and> rmw_new r = rmw_old r OR v) \<and>
   (\<forall>r. xchg_release16 a hs h g = Some r \<longrightarrow> rmw_old r \<in> set (history hs h) \<and> rmw_new r = g) \<and>
   ((\<exists>p\<in>set as. store_exclusive_ok p) \<longrightarrow>
      (\<exists>r. atomic_cmpxchg_acquire32 a as m e v = Some r) \<and> (\<exists>r. atomic_cmpxchg_release32 a as m e v = Some r) \<and>
      (\<exists>r. atomic_cmpxchg_relaxed32 a as m e v = Some r) \<and> (\<exists>r. atomic_fetch_or_acquire32 a as v m = Some r))"
proof (intro conjI ballI allI impI)
  fix cmpxchg r
  assume "cmpxchg \<in> {atomic_cmpxchg_acquire32, atomic_cmpxchg_release32, atomic_cmpxchg_relaxed32}"
    and r: "cmpxchg a as m e v = Some r"
  then show "rmw_old r \<in> set (history as m)" "rmw_new r = (if rmw_old r = e then v else rmw_old r)"
    using cmpxchg_acquire32.linear_fields [of a as m e v r] cmpxchg_release32.linear_fields [of a as m e v r]
      cmpxchg_relaxed32.linear_fields [of a as m e v r]
    by (auto simp: cas_instr_def)
qed (use fetch_or.linear_fields [of a as v m] xchg_release16.linear_fields [of a hs h g] in auto,
  (blast dest: cmpxchg_acquire32.returns cmpxchg_release32.returns cmpxchg_relaxed32.returns fetch_or.returns)+)

theorem lk_atomics_atomic_witness:
  "\<exists>r. atomic_fetch_or_acquire32 X86_64 [\<lparr>before_load = None, before_store = Some 8, spurious = False\<rparr>, quiet] 1 4 = Some r \<and>
     rmw_old r = 8 \<and> rmw_new r = 9"
proof -
  let ?as = "[\<lparr>before_load = None, before_store = Some 8, spurious = False\<rparr>, quiet] :: u32 attempt list"
  have r: "atomic_fetch_or_acquire32 X86_64 ?as 1 4 = Some \<lparr>rmw_old = 8, rmw_new = 9, rmw_order = AcqRel\<rparr>"
    by code_simp
  with lk_atomics_atomic [of X86_64 ?as 4 0 1 "[]" 0 0] show ?thesis by simp
qed

text \<open>The compare-exchange and exchange macros work on the object of 1, 2, 4 or 8 bytes they are given
  and on nothing else: the comparison is between the low bytes of the cell and of \<open>old\<close>, the
  neighbouring bytes keep their value, and the old object comes back zero-extended. This holds
  for x86-64, LSE and the exclusive loops alike.\<close>

theorem lk_sized_exchange:
  assumes "sz \<in> {1, 2, 4, 8}"
  shows "(cmpxchg_sfx a x as m old new sz = Some (ret, r) \<longrightarrow>
      rmw_old r \<in> set (history as m) \<and> ret = take_bit (8 * sz) (rmw_old r) \<and>
      take_bit (8 * sz) (rmw_new r) = (if ret = take_bit (8 * sz) old then take_bit (8 * sz) new else ret) \<and>
      drop_bit (8 * sz) (rmw_new r) = drop_bit (8 * sz) (rmw_old r)) \<and>
    (xchg_sfx a x as new m sz = Some (ret, r) \<longrightarrow>
      rmw_old r \<in> set (history as m) \<and> ret = take_bit (8 * sz) (rmw_old r) \<and>
      take_bit (8 * sz) (rmw_new r) = take_bit (8 * sz) new \<and>
      drop_bit (8 * sz) (rmw_new r) = drop_bit (8 * sz) (rmw_old r))"
  using cmpxchg_sfx_outcome [OF assms, of a x as m old new "(ret, r)"]
    xchg_sfx_outcome [OF assms, of a x as new m "(ret, r)"]
  by (auto simp: sized_outcome_def sized_cas_def put_low_rest split: if_splits)

theorem lk_sized_exchange_witness:
  "\<exists>r. cmpxchg_sfx AArch64_LLSC Sfx_acq [quiet] 0xABCD 0xFFCD 0x12 1 = Some (0xCD, r) \<and>
     take_bit 8 (rmw_new r) = 0x12 \<and> drop_bit 8 (rmw_new r) = 0xAB"
proof -
  have r: "cmpxchg_sfx AArch64_LLSC Sfx_acq [quiet] 0xABCD 0xFFCD 0x12 1 =
      Some (0xCD, \<lparr>rmw_old = 0xABCD, rmw_new = 0xAB12, rmw_order = Acquire\<rparr>)" by code_simp
  have "take_bit 8 (0xAB12 :: u64) = 0x12 \<and> drop_bit 8 (0xAB12 :: u64) = 0xAB" by code_simp
  with r lk_sized_exchange [of 1 AArch64_LLSC Sfx_acq "[quiet]" "0xABCD" "0xFFCD" "0x12" "0xCD"
      "\<lparr>rmw_old = 0xABCD, rmw_new = 0xAB12, rmw_order = Acquire\<rparr>"]
  show ?thesis by auto
qed

text \<open>A value published with \<open>smp_store_release\<close> is what \<open>smp_load_acquire\<close> of the same size reads, on
  every machine; the store leaves the bytes around the object alone.\<close>

theorem lk_store_load_roundtrip:
  assumes "sz \<in> {1, 2, 4, 8}"
  shows "take_bit (8 * sz) (smp_load_acquire a sz junk (smp_store_release a' sz p v)) = take_bit (8 * sz) v \<and>
         drop_bit (8 * sz) (smp_store_release a' sz p v) = drop_bit (8 * sz) p"
  using assms
  by (auto simp: smp_load_acquire_def smp_store_release_def read_once_size_def write_once_size_def put_low_rest)

theorem lk_store_load_roundtrip_witness:
  "take_bit 16 (smp_load_acquire AArch64_LSE 2 0 (smp_store_release X86_64 2 0x1111 0x77778888)) = 0x8888"
proof -
  have "take_bit 16 (0x77778888 :: u64) = 0x8888" by code_simp
  then show ?thesis
    using lk_store_load_roundtrip [of 2 AArch64_LSE 0 X86_64 "0x1111" "0x77778888"] by simp
qed

text \<open>\<open>smp_cond_load_acquire\<close> and \<open>smp_cond_load_relaxed\<close> leave their loop with a value that satisfies the
  condition and that the location had, and they do leave it once two successive loads satisfy it.\<close>

theorem lk_cond_load_correct:
  "(smp_cond_load a c vs = Some (v, k) \<longrightarrow> c v \<and> v \<in> set vs) \<and>
   (c v \<and> c w \<longrightarrow> (\<exists>r. smp_cond_load a c (us @ [v, w]) = Some r))"
  using smp_cond_load_sound smp_cond_load_stable by blast

theorem lk_cond_load_correct_witness:
  "(\<exists>r. smp_cond_load AArch64_LSE (\<lambda>v. v = 0) ([5, 5, 7] @ [0, 0]) = Some r)"
  using lk_cond_load_correct [of AArch64_LSE "\<lambda>v. v = 0" "[]" 0 0 0 "[5, 5, 7]"] by simp

end
