(* ===== verification/Queued_Whole_Word.thy ===== *)
theory Queued_Whole_Word
  imports Queued_Progress Lk_Atomics
begin

text \<open>
  The other build of \<open>queued_spinlock.h\<close>: for \<open>CONFIG_NR_CPUS\<close> of \<open>2 ^ 14\<close> and more the pending field is a single bit, the tail begins in the middle of a
  byte, and \<open>clear_pending\<close>, \<open>clear_pending_set_locked\<close> and \<open>xchg_tail\<close> work on the whole word. The build shown to be correct in
  \<open>Queued_Correct\<close> stores to bytes and half words. Here both are shown to make the same changes wherever the lock calls them.
  \<open>atomic_andnot\<close> and \<open>atomic_add\<close> are the kernel's and no part of this repository; they are parameters.
\<close>

section \<open>The layout\<close>

definition Q_PENDING_BITS :: "nat \<Rightarrow> nat" where
  "Q_PENDING_BITS config_nr_cpus = (if config_nr_cpus < 2 ^ 14 then 8 else 1)"

text \<open>\<open>_Q_TAIL_OFFSET\<close> is \<open>8 + b\<close> for \<open>b\<close> pending bits; the masks follow.\<close>

definition Q_LOCKED_PENDING_MASK_w :: "nat \<Rightarrow> u32" where
  "Q_LOCKED_PENDING_MASK_w b = Q_SET_MASK 8 0 OR Q_SET_MASK b 8"

definition Q_TAIL_MASK_w :: "nat \<Rightarrow> u32" where
  "Q_TAIL_MASK_w b = Q_SET_MASK 2 (8 + b) OR Q_SET_MASK (32 - (8 + b + 2)) (8 + b + 2)"

definition encode_tail_w :: "nat \<Rightarrow> nat \<Rightarrow> nat \<Rightarrow> u32" where
  "encode_tail_w b cpu idx = push_bit (8 + b + 2) (of_nat (cpu + 1)) OR push_bit (8 + b) (of_nat idx)"

section \<open>The operations\<close>

definition clear_pending_w :: "(u32 \<Rightarrow> u32 \<Rightarrow> u32) \<Rightarrow> u32 \<Rightarrow> u32" where
  "clear_pending_w atomic_andnot val = atomic_andnot Q_PENDING_VAL val"

definition clear_pending_set_locked_w :: "(u32 \<Rightarrow> u32 \<Rightarrow> u32) \<Rightarrow> u32 \<Rightarrow> u32" where
  "clear_pending_set_locked_w atomic_add val = atomic_add (- Q_PENDING_VAL + Q_LOCKED_VAL) val"

text \<open>The loop of \<open>xchg_tail\<close>; the list holds the contents of the word at the successive compare-exchanges. The last of them is
  what the access did.\<close>

fun xchg_tail_loop :: "nat \<Rightarrow> u32 \<Rightarrow> u32 list \<Rightarrow> u32 \<Rightarrow> u32 rmw option" where
  "xchg_tail_loop b tail [] val = None"
| "xchg_tail_loop b tail (m # ms) val =
     (let new = (val AND Q_LOCKED_PENDING_MASK_w b) OR tail in
      case atomic_cmpxchg_release32 AArch64_LSE [] m val new of
        None \<Rightarrow> None
      | Some r \<Rightarrow> if rmw_old r = val then Some r else xchg_tail_loop b tail ms (rmw_old r))"

section \<open>The same lock in two layouts\<close>

text \<open>The word of the other build for the fields of a state.\<close>

definition whole_word :: "nat \<Rightarrow> q_state \<Rightarrow> u32" where
  "whole_word b s = push_bit (8 + b) (ucast (q_tail s)) OR push_bit 8 (ucast (q_pending s)) OR ucast (q_locked s)"

lemma bit_whole_word:
  "b = 1 \<or> b = 8 \<Longrightarrow> q_pending s \<in> {0, 1} \<Longrightarrow> bit (whole_word b s) n \<longleftrightarrow>
     (if n < 8 then bit (q_locked s) n else if n < 8 + b then bit (q_pending s) (n - 8) else n < 32 \<and> bit (q_tail s) (n - (8 + b)))"
  by (auto simp: whole_word_def bit_simps dest: bit_imp_le_length)

lemma whole_word_8: "whole_word 8 s = q_val s"
  unfolding q_val_def by (rule bit_word_eqI) (auto simp: whole_word_def bit_simps bit_mk32 bit_mk16 dest: bit_imp_le_length)

lemma bit_less: "m < 2 ^ j \<Longrightarrow> bit (m :: nat) k \<Longrightarrow> k < j"
  by (metis bit_take_bit_iff linorder_not_le take_bit_nat_eq_self)

lemma encode_tail_w_code:
  assumes "cpu < 16383" "idx < 4" "b = 1 \<or> b = 8"
  shows "encode_tail_w b cpu idx = push_bit (8 + b) (ucast (hi16 (encode_tail cpu idx)))"
proof (rule bit_word_eqI)
  fix n
  assume n: "n < LENGTH(32)"
  define m where "m = cpu + 1"
  have c: "bit m j \<longrightarrow> j < 14" "bit idx j \<longrightarrow> j < 2" for j
    using bit_less [of m 14 j] bit_less [of idx 2 j] assms(1,2) by (auto simp: m_def)
  show "bit (encode_tail_w b cpu idx) n \<longleftrightarrow> bit (push_bit (8 + b) (ucast (hi16 (encode_tail cpu idx))) :: u32) n"
  proof (cases "8 + b \<le> n")
    case True
    then obtain k where k: "n = 8 + b + k" by (metis le_Suc_ex)
    then have k32: "k < 32" using n by simp
    have "bit (encode_tail_w b cpu idx) n \<longleftrightarrow> 2 \<le> k \<and> bit m (k - 2) \<or> bit idx k"
      unfolding encode_tail_w_def m_def [symmetric] using n k32 by (auto simp: k bit_simps)
    moreover have "bit (push_bit (8 + b) (ucast (hi16 (encode_tail cpu idx))) :: u32) n \<longleftrightarrow> k < 16 \<and> (2 \<le> k \<and> bit m (k - 2) \<or> bit idx k)"
      unfolding encode_tail_def m_def [symmetric] using n k32 by (auto simp: hi16_def k bit_simps)
    moreover have "k < 16" if "2 \<le> k \<and> bit m (k - 2) \<or> bit idx k" using that c(1) [of "k - 2"] c(2) [of k] by linarith
    ultimately show ?thesis by blast
  qed (simp add: encode_tail_w_def bit_simps)
qed

lemma clear_pending_same:
  assumes "b = 1 \<or> b = 8" "q_pending s \<in> {0, 1}"
  shows "whole_word b s AND NOT Q_PENDING_VAL = whole_word b (clear_pending s)"
proof (rule bit_word_eqI)
  fix n
  have "bit Q_PENDING_VAL n \<longleftrightarrow> n = 8" by (simp only: one_parts) (auto simp: bit_mk32 bit_mk16 bit_simps)
  moreover have "\<not> bit (q_pending s) k" if "k \<noteq> 0" for k using assms(2) that by (auto simp: bit_simps)
  ultimately show "bit (whole_word b s AND NOT Q_PENDING_VAL) n = bit (whole_word b (clear_pending s)) n" if "n < LENGTH(32)"
    using that assms(1) bit_whole_word [OF assms, of n] bit_whole_word [OF assms(1), of "clear_pending s" n]
    by (auto simp: bit_simps clear_pending_def)
qed

lemma take_over_same:
  assumes "b = 1 \<or> b = 8" "q_pending s = 1" "q_locked s = 0"
  shows "whole_word b s + (- Q_PENDING_VAL + Q_LOCKED_VAL) = whole_word b (clear_pending_set_locked s)"
proof -
  let ?t = "push_bit (8 + b) (ucast (q_tail s)) :: u32"
  have "whole_word b s = ?t OR Q_PENDING_VAL" by (simp add: whole_word_def assms)
  also have "\<dots> = ?t + Q_PENDING_VAL"
    by (rule disjunctive_add [symmetric]) (use assms(1) in \<open>simp only: one_parts, auto simp: bit_mk32 bit_mk16 bit_simps\<close>)
  finally have "whole_word b s + (- Q_PENDING_VAL + Q_LOCKED_VAL) = ?t + Q_LOCKED_VAL" by simp
  also have "\<dots> = ?t OR Q_LOCKED_VAL" by (rule disjunctive_add) (auto simp: bit_simps)
  also have "\<dots> = whole_word b (clear_pending_set_locked s)"
    by (simp add: whole_word_def clear_pending_set_locked_def one_parts [symmetric]) (simp add: lo8_def hi8_def)
  finally show ?thesis .
qed

lemma xchg_tail_same:
  assumes "b = 1 \<or> b = 8" "q_pending s \<in> {0, 1}"
  shows "(whole_word b s AND Q_LOCKED_PENDING_MASK_w b) OR push_bit (8 + b) (ucast t) = whole_word b (s\<lparr>q_tail := t\<rparr>)"
    and "whole_word b s AND Q_TAIL_MASK_w b = push_bit (8 + b) (ucast (q_tail s))"
proof -
  have p: "q_pending (s\<lparr>q_tail := t\<rparr>) \<in> {0, 1}" using assms(2) by simp
  show "(whole_word b s AND Q_LOCKED_PENDING_MASK_w b) OR push_bit (8 + b) (ucast t) = whole_word b (s\<lparr>q_tail := t\<rparr>)"
    by (rule bit_word_eqI) (use assms(1) in \<open>auto simp: bit_whole_word [OF assms] bit_whole_word [OF assms(1) p] Q_LOCKED_PENDING_MASK_w_def
        bit_Q_SET_MASK bit_simps dest: bit_imp_le_length\<close>)
  show "whole_word b s AND Q_TAIL_MASK_w b = push_bit (8 + b) (ucast (q_tail s))"
    by (rule bit_word_eqI) (use assms(1) in \<open>auto simp: bit_whole_word [OF assms] Q_TAIL_MASK_w_def bit_Q_SET_MASK bit_simps dest: bit_imp_le_length\<close>)
qed

text \<open>The compare-exchange that ends the loop.\<close>

lemma xchg_tail_loop_last:
  "xchg_tail_loop b tail ms val = Some r \<Longrightarrow> rmw_old r \<in> set (val # ms) \<and> rmw_new r = (rmw_old r AND Q_LOCKED_PENDING_MASK_w b) OR tail"
  by (induction ms arbitrary: val) (auto simp: atomic_cmpxchg_release32_def atomic_rmw_def cas_instr_def Let_def split: if_splits)

lemma xchg_tail_loop_ends: "\<exists>r. xchg_tail_loop b tail (ms @ [m, m]) val = Some r"
  by (induction ms arbitrary: val) (auto simp: atomic_cmpxchg_release32_def atomic_rmw_def cas_instr_def Let_def)

section \<open>Properties\<close>

text \<open>C27: the two builds of the queued spinlock make the same changes: in every reachable state, where a thread is about to give the pending bit back, to
  take the lock over with it, or to exchange the tail, the operations on the whole word, in the layout with one pending bit as in the one
  with eight, turn the word of that state into the word of the state that the stores to bytes and half words lead to. The exchange returns the
  same tail, whatever the other threads have stored between its attempts, and it returns once the word stands still for two of them.\<close>

theorem queued_builds_agree:
  assumes "N \<le> 16383" "s = run (q_step N) ls mcs_init_locks" "b = Q_PENDING_BITS config" "i < N"
    and "\<And>x v. andnot x v = v AND NOT x" "\<And>x v. add x v = v + x"
  shows "(q_pc s i = QClearPend \<longrightarrow> clear_pending_w andnot (whole_word b s) = whole_word b (clear_pending s)) \<and>
    (q_pc s i = QTake \<longrightarrow> clear_pending_set_locked_w add (whole_word b s) = whole_word b (clear_pending_set_locked s)) \<and>
    (q_pc s i = QXchg \<and> xchg_tail_loop b (encode_tail_w b i (q_idx s i)) ms val = Some r \<and> rmw_old r = whole_word b s \<longrightarrow>
      rmw_new r = whole_word b (snd (xchg_tail (encode_tail i (q_idx s i)) s)) \<and>
      rmw_old r AND Q_TAIL_MASK_w b = push_bit (8 + b) (ucast (hi16 (fst (xchg_tail (encode_tail i (q_idx s i)) s))))) \<and>
    (\<exists>r. xchg_tail_loop b tail (ms @ [m, m]) val = Some r)"
proof (intro conjI impI)
  have b: "b = 1 \<or> b = 8" by (simp add: assms(3) Q_PENDING_BITS_def)
  have inv: "q_inv N s" unfolding assms(2) by (rule queued.reachable_inv) (use assms(1) in simp)
  note l = q_inv_lock [OF inv]
  have p: "q_pending s \<in> {0, 1}" using l flag_ok_bit by (fastforce simp: q_lock_ok_def)
  show "clear_pending_w andnot (whole_word b s) = whole_word b (clear_pending s)"
    using clear_pending_same [OF b p] by (simp add: clear_pending_w_def assms(5))
  show "clear_pending_set_locked_w add (whole_word b s) = whole_word b (clear_pending_set_locked s)" if "q_pc s i = QTake"
  proof -
    have "q_locked s = 0" "q_pending s \<noteq> 0" using l that flag_ok_zero [of "q_pending s"] by (auto simp: q_lock_ok_def) (metis q_pender_simps(2))
    then show ?thesis using take_over_same [OF b] p by (simp add: clear_pending_set_locked_w_def assms(6))
  qed
  {
    assume x: "q_pc s i = QXchg \<and> xchg_tail_loop b (encode_tail_w b i (q_idx s i)) ms val = Some r \<and> rmw_old r = whole_word b s"
    have "q_idx s i = 0" using q_inv_idx [OF inv, of i] x by (simp add: q_queueing_def)
    then have e: "encode_tail_w b i (q_idx s i) = push_bit (8 + b) (ucast (hi16 (encode_tail i (q_idx s i))))"
      using encode_tail_w_code [OF _ _ b] assms(1,4) by simp
    show "rmw_new r = whole_word b (snd (xchg_tail (encode_tail i (q_idx s i)) s))"
      using xchg_tail_loop_last [OF x [THEN conjunct2, THEN conjunct1]] x xchg_tail_same(1) [OF b p, of "hi16 (encode_tail i (q_idx s i))"]
      by (simp add: e xchg_tail_def hi16_def)
    show "rmw_old r AND Q_TAIL_MASK_w b = push_bit (8 + b) (ucast (hi16 (fst (xchg_tail (encode_tail i (q_idx s i)) s))))"
      using x xchg_tail_same(2) [OF b p] by (simp add: xchg_tail_def push_tail)
  }
  show "\<exists>r. xchg_tail_loop b tail (ms @ [m, m]) val = Some r" by (rule xchg_tail_loop_ends)
qed

text \<open>Thread 0 has the lock, thread 1 has set the pending bit and waits for it; once thread 0 is gone, thread 1 takes over.\<close>

theorem queued_builds_agree_witness:
  "let s = run (q_step 2) [0, 1, 1, 0, 1] mcs_init_locks in
   q_pc s 1 = QTake \<and> clear_pending_set_locked_w (\<lambda>x v. v + x) (whole_word 1 s) = whole_word 1 (clear_pending_set_locked s)"
proof -
  let ?s = "run (q_step 2) [0, 1, 1, 0, 1] mcs_init_locks"
  have "q_pc ?s 1 = QTake" by code_simp
  then show ?thesis
    using queued_builds_agree [of 2 ?s "[0, 1, 1, 0, 1]" 1 "2 ^ 14" 1 "\<lambda>x v. v AND NOT x" "\<lambda>x v. v + x"]
    by (simp add: Q_PENDING_BITS_def Let_def del: run.simps)
qed

end
