(* ===== verification/Exclusive_Threads.thy ===== *)
theory Exclusive_Threads
  imports Atomics
begin

text \<open>
  The load/store-exclusive bodies of \<open>atomics.h\<close> run by several threads on one cell, instruction by instruction: a load-exclusive arms the monitor of its thread, a
  store-exclusive stores only if the monitor is still armed, and every store disarms the monitors of all threads. The interface \<open>atomic_operation\<close> looks at one call against
  arbitrary interference; here all threads run the code, and the calls turn out to be those of a cell that is accessed one call at a time.
\<close>

section \<open>The instructions\<close>

text \<open>A call with its operands, and what it stores in place of the value it loads, \<open>None\<close> where the loop is left without a store.\<close>

datatype atomic_call = Fetchadd64 u64 | Fetchsub64 u64 | Swap64 u64 | Cas64 u64 u64

fun call_update :: "atomic_call \<Rightarrow> u64 \<Rightarrow> u64 option" where
  "call_update (Fetchadd64 addend) old = Some (old + addend)"
| "call_update (Fetchsub64 addend) old = Some (old - addend)"
| "call_update (Swap64 val) old = Some val"
| "call_update (Cas64 val exp) old = cas_eor val exp old"

text \<open>A thread is outside, before the load-exclusive of its loop, or before the store-exclusive, with \<open>old\<close> and the value to be stored.\<close>

datatype xcl_pc = XclIdle | XclLoad atomic_call | XclStore atomic_call u64 u64

text \<open>\<open>xc_log\<close>: the calls that have returned, with their thread and the value they return, in the order of their last instruction.\<close>

record xcl_state =
  xc_cell :: u64
  xc_monitor :: "tid \<Rightarrow> bool"
  xc_pc :: "tid \<Rightarrow> xcl_pc"
  xc_log :: "(tid \<times> atomic_call \<times> u64) list"

definition xcl_start :: "u64 \<Rightarrow> xcl_state" where
  "xcl_start m = \<lparr>xc_cell = m, xc_monitor = (\<lambda>_. False), xc_pc = (\<lambda>_. XclIdle), xc_log = []\<rparr>"

text \<open>\<open>1: ldxr\<close>, with the computation up to the store-exclusive or to the exit.\<close>

definition load_exclusive :: "tid \<Rightarrow> atomic_call \<Rightarrow> xcl_state \<Rightarrow> xcl_state" where
  "load_exclusive i c s = (let old = xc_cell s; s = s\<lparr>xc_monitor := (xc_monitor s)(i := True)\<rparr> in
     case call_update c old of
       None \<Rightarrow> s\<lparr>xc_pc := (xc_pc s)(i := XclIdle), xc_log := xc_log s @ [(i, c, old)]\<rparr>
     | Some v \<Rightarrow> s\<lparr>xc_pc := (xc_pc s)(i := XclStore c old v)\<rparr>)"

text \<open>\<open>stxr; cbnz 1b\<close>; it may also fail on its own.\<close>

definition store_exclusive :: "tid \<Rightarrow> bool \<Rightarrow> atomic_call \<Rightarrow> u64 \<Rightarrow> u64 \<Rightarrow> xcl_state \<Rightarrow> xcl_state" where
  "store_exclusive i fails c old v s =
     (if xc_monitor s i \<and> \<not> fails
      then s\<lparr>xc_cell := v, xc_monitor := (\<lambda>_. False), xc_pc := (xc_pc s)(i := XclIdle), xc_log := xc_log s @ [(i, c, old)]\<rparr>
      else s\<lparr>xc_monitor := (xc_monitor s)(i := False), xc_pc := (xc_pc s)(i := XclLoad c)\<rparr>)"

text \<open>A label: the thread that moves, the call it makes if it is outside, and whether a store-exclusive fails on its own.\<close>

fun xcl_step :: "tid \<times> atomic_call \<times> bool \<Rightarrow> xcl_state \<Rightarrow> xcl_state" where
  "xcl_step (i, c, fails) s = (case xc_pc s i of
     XclIdle \<Rightarrow> load_exclusive i c s | XclLoad c' \<Rightarrow> load_exclusive i c' s | XclStore c' old v \<Rightarrow> store_exclusive i fails c' old v s)"

section \<open>The abstract cell\<close>

text \<open>The calls are made one after the other, each returns the content of the cell it finds; \<open>None\<close> if a call returns anything else.\<close>

fun cell_spec :: "(tid \<times> atomic_call \<times> u64) list \<Rightarrow> u64 \<Rightarrow> u64 option" where
  "cell_spec [] m = Some m"
| "cell_spec ((i, c, old) # log) m = (if old = m then cell_spec log (case call_update c m of None \<Rightarrow> m | Some v \<Rightarrow> v) else None)"

lemma cell_spec_append: "cell_spec (xs @ ys) m = Option.bind (cell_spec xs m) (cell_spec ys)"
  by (induction xs arbitrary: m) auto

text \<open>While a monitor is armed, the cell has the value that was loaded.\<close>

definition xcl_inv :: "u64 \<Rightarrow> xcl_state \<Rightarrow> bool" where
  "xcl_inv m s \<longleftrightarrow> cell_spec (xc_log s) m = Some (xc_cell s) \<and>
     (\<forall>i c old v. xc_pc s i = XclStore c old v \<longrightarrow> call_update c old = Some v \<and> (xc_monitor s i \<longrightarrow> xc_cell s = old))"

lemma load_exclusive_inv:
  assumes "xcl_inv m s"
  shows "xcl_inv m (load_exclusive i c s)"
  using assms by (cases "call_update c (xc_cell s)") (auto simp: xcl_inv_def load_exclusive_def cell_spec_append Let_def)

lemma store_exclusive_inv:
  assumes "xcl_inv m s" "xc_pc s i = XclStore c old v"
  shows "xcl_inv m (store_exclusive i fails c old v s)"
proof (cases "xc_monitor s i \<and> \<not> fails")
  case True
  moreover from this have "xc_cell s = old" "call_update c old = Some v" using assms by (auto simp: xcl_inv_def)
  ultimately show ?thesis using assms(1) by (auto simp: xcl_inv_def store_exclusive_def cell_spec_append)
qed (use assms in \<open>auto simp: xcl_inv_def store_exclusive_def\<close>)

interpretation exclusive_threads: invariant_system "\<lambda>s. s = xcl_start m" xcl_step "xcl_inv m" for m
proof
  show "xcl_inv m s" if "s = xcl_start m" for s using that by (simp add: xcl_inv_def xcl_start_def)
  show "xcl_inv m (xcl_step l s)" if "xcl_inv m s" for l s
    using that load_exclusive_inv store_exclusive_inv by (cases l; cases "xc_pc s (fst l)") auto
qed

section \<open>Properties\<close>

text \<open>The number of calls of a thread that have returned.\<close>

definition returned :: "tid \<Rightarrow> xcl_state \<Rightarrow> nat" where
  "returned i s = length (filter (\<lambda>(j, _). j = i) (xc_log s))"

lemma returned_load: "call_update c (xc_cell s) = None \<Longrightarrow> returned i (load_exclusive i c s) = Suc (returned i s)"
  by (simp add: load_exclusive_def returned_def)

lemma returned_store:
  "call_update c (xc_cell s) = Some v \<Longrightarrow>
   returned i (store_exclusive i False c (xc_cell s) v (load_exclusive i c s)) = Suc (returned i s)"
  by (simp add: load_exclusive_def store_exclusive_def returned_def Let_def)

text \<open>Two or three instructions of a thread without interference finish its call.\<close>

lemma finishes:
  assumes "xc_pc s i = XclIdle \<and> c' = c \<or> xc_pc s i = XclLoad c'"
  shows "\<exists>ls. set ls \<subseteq> {(i, c, False)} \<and> length ls \<le> 2 \<and> returned i (run xcl_step ls s) = Suc (returned i s)"
proof (cases "call_update c' (xc_cell s)")
  case None
  then show ?thesis using assms returned_load [of c' s i] by (intro exI [of _ "[(i, c, False)]"]) auto
next
  case (Some v)
  have "xcl_step (i, c, False) s = load_exclusive i c' s" using assms by auto
  moreover have "xc_pc (load_exclusive i c' s) i = XclStore c' (xc_cell s) v" using Some by (simp add: load_exclusive_def Let_def)
  ultimately show ?thesis using returned_store [OF Some, of i] by (intro exI [of _ "[(i, c, False), (i, c, False)]"]) simp
qed

text \<open>C32: calls of \<open>fetchadd64\<close>, \<open>fetchsub64\<close>, \<open>swap64\<close> and \<open>cas64\<close> that run as load/store-exclusive loops in any number of threads on one cell are linearizable, whatever the
  interleaving of their instructions and the spurious failures of their stores: in the order of their last instructions the calls that have returned are a history of a cell on which
  one call is made at a time, each of them has returned the value it found there, and the cell has the value this history leaves. And
  a thread that runs alone finishes a call with at most three instructions.\<close>

theorem exclusive_calls_linearizable:
  "let s = run xcl_step ls (xcl_start m) in cell_spec (xc_log s) m = Some (xc_cell s) \<and>
     (\<exists>ms. set ms \<subseteq> {(i, c, False)} \<and> length ms \<le> 3 \<and> returned i (run xcl_step (ls @ ms) (xcl_start m)) = Suc (returned i s))"
proof -
  let ?s = "run xcl_step ls (xcl_start m)"
  have "xcl_inv m ?s" by (rule exclusive_threads.reachable_inv) simp
  then have spec: "cell_spec (xc_log ?s) m = Some (xc_cell ?s)" by (simp add: xcl_inv_def)
  have "\<exists>ms. set ms \<subseteq> {(i, c, False)} \<and> length ms \<le> 3 \<and> returned i (run xcl_step ms ?s) = Suc (returned i ?s)"
  proof (cases "xc_pc ?s i")
    case XclIdle
    then obtain ms where "set ms \<subseteq> {(i, c, False)}" "length ms \<le> 2" "returned i (run xcl_step ms ?s) = Suc (returned i ?s)"
      using finishes [of ?s i c c] by blast
    then show ?thesis by (intro exI [of _ ms]) simp
  next
    case (XclLoad c')
    then obtain ms where "set ms \<subseteq> {(i, c, False)}" "length ms \<le> 2" "returned i (run xcl_step ms ?s) = Suc (returned i ?s)"
      using finishes [of ?s i c' c] by blast
    then show ?thesis by (intro exI [of _ ms]) simp
  next
    case (XclStore c' old v)
    let ?t = "xcl_step (i, c, False) ?s"
    show ?thesis
    proof (cases "xc_monitor ?s i")
      case True
      then have "returned i ?t = Suc (returned i ?s)" using XclStore by (simp add: store_exclusive_def returned_def)
      then show ?thesis by (intro exI [of _ "[(i, c, False)]"]) simp
    next
      case False
      then have t: "xc_pc ?t i = XclLoad c'" "returned i ?t = returned i ?s" using XclStore by (simp_all add: store_exclusive_def returned_def)
      obtain ms where "set ms \<subseteq> {(i, c, False)}" "length ms \<le> 2" "returned i (run xcl_step ms ?t) = Suc (returned i ?t)"
        using finishes [of ?t i c' c] t(1) by blast
      then show ?thesis using t(2) by (intro exI [of _ "(i, c, False) # ms"]) auto
    qed
  qed
  then show ?thesis using spec by (simp add: Let_def run_append)
qed

end
