(* ===== verification/Typed_Access.thy ===== *)
theory Typed_Access
  imports Lk_Atomics TBB_RW
begin

text \<open>
  The macros through which the locks reach the primitives: \<open>READ_ONCE\<close>, \<open>WRITE_ONCE\<close>, \<open>atomic_read\<close> and \<open>atomic_set\<close> (\<open>lk_atomics.h\<close>), the typed
  wrappers \<open>cmpxchg*\<close> and \<open>xchg*\<close> with the exchange of x86-64 (\<open>lk_cmpxchg.h\<close>), and the bodies of the primitives of \<open>tbb.h\<close> that the
  compiler's built-ins provide. A macro sees an object with a type: its operands are converted to \<open>unsigned long\<close> and back, with sign
  for a type that has one.
\<close>

section \<open>Types\<close>

text \<open>An integer type of \<open>size\<close> bytes; a value of it is an \<open>int\<close> in its range.\<close>

record ctype =
  ct_size :: nat
  ct_signed :: bool

definition ct_bits :: "ctype \<Rightarrow> nat" where
  "ct_bits T = 8 * ct_size T"

definition ct_values :: "ctype \<Rightarrow> int set" where
  "ct_values T = (if ct_signed T then {- (2 ^ (ct_bits T - 1)) ..< 2 ^ (ct_bits T - 1)} else {0 ..< 2 ^ ct_bits T})"

text \<open>\<open>(unsigned long)(x)\<close>, and the conversion \<open>(__typeof__(*(ptr)))\<close> of the result.\<close>

definition to_ulong :: "int \<Rightarrow> u64" where
  "to_ulong x = word_of_int x"

definition of_ulong :: "ctype \<Rightarrow> u64 \<Rightarrow> int" where
  "of_ulong T w = (if ct_signed T then signed_take_bit (ct_bits T - 1) (uint w) else take_bit (ct_bits T) (uint w))"

section \<open>Single accesses\<close>

text \<open>\<open>READ_ONCE(x)\<close> through a union, whose content was \<open>junk\<close>; the object is the low end of the cell.\<close>

definition READ_ONCE :: "ctype \<Rightarrow> u64 \<Rightarrow> u64 \<Rightarrow> int" where
  "READ_ONCE T junk x = of_ulong T (read_once_size x junk (ct_size T))"

text \<open>\<open>WRITE_ONCE(x, val)\<close>: the new cell and the value of the expression.\<close>

definition WRITE_ONCE :: "ctype \<Rightarrow> u64 \<Rightarrow> int \<Rightarrow> u64 \<times> int" where
  "WRITE_ONCE T x v = (let val = of_ulong T (to_ulong v) in (write_once_size x (to_ulong val) (ct_size T), val))"

text \<open>\<open>atomic_t\<close> has an \<open>int\<close> counter; \<open>atomic_read\<close> returns it as \<open>uint32_t\<close>.\<close>

definition c_int :: ctype where "c_int = \<lparr>ct_size = 4, ct_signed = True\<rparr>"

definition atomic_read :: "u64 \<Rightarrow> u64 \<Rightarrow> u32" where
  "atomic_read junk v = word_of_int (READ_ONCE c_int junk v)"

definition atomic_set :: "u64 \<Rightarrow> int \<Rightarrow> u64" where
  "atomic_set v i = fst (WRITE_ONCE c_int v i)"

section \<open>Compare-exchange and exchange\<close>

text \<open>\<open>__xchg_op(ptr, arg, xchg, "")\<close>: without a case for the size, nothing is exchanged and the argument comes back.\<close>

definition xchg_op :: "u64 \<Rightarrow> u64 \<Rightarrow> nat \<Rightarrow> u64 \<times> u64 rmw option" where
  "xchg_op ptr arg sz = (let instr = (\<lambda>n. let r = atomic_rmw AcqRel (\<lambda>m. Some (put_low n m arg)) ptr in (put_low n arg (rmw_old r), Some r)) in
     if sz = 1 then instr 8 else if sz = 2 then instr 16 else if sz = 4 then instr 32 else if sz = 8 then instr 64 else (arg, None))"

text \<open>\<open>__cmpxchg_wrapper\<close> and \<open>__xchg_wrapper\<close> of AArch64; on x86-64 \<open>cmpxchg(ptr, old, new)\<close> and \<open>xchg(ptr, v)\<close>, whose operands are
  first given the type of the object.\<close>

definition cmpxchg_wrapper :: "arch \<Rightarrow> sfx \<Rightarrow> ctype \<Rightarrow> u64 attempt list \<Rightarrow> u64 \<Rightarrow> int \<Rightarrow> int \<Rightarrow> (int \<times> u64 rmw) option" where
  "cmpxchg_wrapper a x T as ptr old new = (case a of
     X86_64 \<Rightarrow> map_option (apfst (of_ulong T)) (cmpxchg_sfx X86_64 x as ptr (to_ulong (of_ulong T (to_ulong old))) (to_ulong (of_ulong T (to_ulong new))) (ct_size T))
   | _ \<Rightarrow> map_option (apfst (of_ulong T)) (cmpxchg_sfx a x as ptr (to_ulong old) (to_ulong new) (ct_size T)))"

definition xchg_wrapper :: "arch \<Rightarrow> sfx \<Rightarrow> ctype \<Rightarrow> u64 attempt list \<Rightarrow> u64 \<Rightarrow> int \<Rightarrow> (int \<times> u64 rmw) option" where
  "xchg_wrapper a x T as ptr v = (case a of
     X86_64 \<Rightarrow> (case xchg_op ptr (to_ulong (of_ulong T (to_ulong v))) (ct_size T) of (ret, r) \<Rightarrow> map_option (\<lambda>r. (of_ulong T ret, r)) r)
   | _ \<Rightarrow> map_option (apfst (of_ulong T)) (xchg_sfx a x as (to_ulong v) ptr (ct_size T)))"

section \<open>The built-ins of \<open>tbb.h\<close>\<close>

text \<open>Compilers before 4.7.0 have the \<open>__sync\<close> built-ins, later ones the \<open>__atomic\<close> built-ins; the latter write the value found
  to \<open>comparand\<close>, which is returned.\<close>

datatype gcc_version = Before_4_7 | Since_4_7

definition sync_val_compare_and_swap :: "u64 \<Rightarrow> u64 \<Rightarrow> u64 \<Rightarrow> u64 rmw" where
  "sync_val_compare_and_swap ptr oldval newval = atomic_rmw AcqRel (cas_instr newval oldval) ptr"

text \<open>The strong form: success, the access, and the content of \<open>expected\<close> afterwards.\<close>

definition atomic_compare_exchange_n :: "u64 \<Rightarrow> u64 \<Rightarrow> u64 \<Rightarrow> bool \<times> u64 rmw \<times> u64" where
  "atomic_compare_exchange_n ptr expected desired =
     (let r = compare_exchange_weak AcqRel False expected desired ptr in
      if ptr = expected then (True, r, expected) else (False, r, rmw_old r))"

definition TBB_builtin_cmpswp8 :: "gcc_version \<Rightarrow> u64 \<Rightarrow> u64 \<Rightarrow> u64 \<Rightarrow> u64 \<times> u64 rmw" where
  "TBB_builtin_cmpswp8 g ptr val comparand = (case g of
     Before_4_7 \<Rightarrow> (let r = sync_val_compare_and_swap ptr comparand val in (rmw_old r, r))
   | Since_4_7 \<Rightarrow> (case atomic_compare_exchange_n ptr comparand val of (_, r, comparand) \<Rightarrow> (comparand, r)))"

definition TBB_builtin_fetchadd8 :: "gcc_version \<Rightarrow> u64 \<Rightarrow> u64 \<Rightarrow> u64 rmw" where
  "TBB_builtin_fetchadd8 g ptr val = atomic_rmw AcqRel (\<lambda>old. Some (old + val)) ptr"

definition TBB_builtin_or :: "gcc_version \<Rightarrow> u64 \<Rightarrow> u64 \<Rightarrow> u64 rmw" where
  "TBB_builtin_or g ptr addend = atomic_rmw AcqRel (\<lambda>old. Some (old OR addend)) ptr"

definition TBB_builtin_and :: "gcc_version \<Rightarrow> u64 \<Rightarrow> u64 \<Rightarrow> u64 rmw" where
  "TBB_builtin_and g ptr addend = atomic_rmw AcqRel (\<lambda>old. Some (old AND addend)) ptr"

text \<open>With local atomics the first two are \<open>cas64_acquire_release\<close> and \<open>fetchadd64_acquire_release\<close>.\<close>

definition TBB_machine_cmpswp8 :: "build \<Rightarrow> u64 attempt list \<Rightarrow> u64 \<Rightarrow> u64 \<Rightarrow> u64 \<Rightarrow> u64 rmw option" where
  "TBB_machine_cmpswp8 b as P V C = cas64_acquire_release b as P V C"

definition TBB_machine_fetchadd8 :: "build \<Rightarrow> u64 attempt list \<Rightarrow> u64 \<Rightarrow> u64 \<Rightarrow> u64 rmw option" where
  "TBB_machine_fetchadd8 b as P V = fetchadd64_acquire_release b as P V"

section \<open>Conversions\<close>

text \<open>The types the macros are used with: 1, 2, 4 or 8 bytes.\<close>

definition ct_ok :: "ctype \<Rightarrow> bool" where
  "ct_ok T \<longleftrightarrow> ct_size T \<in> {1, 2, 4, 8}"

lemma ct_bits_bound: "ct_ok T \<Longrightarrow> 0 < ct_bits T \<and> ct_bits T \<le> 64"
  by (auto simp: ct_ok_def ct_bits_def)

lemma of_ulong_eq_iff: "ct_ok T \<Longrightarrow> of_ulong T v = of_ulong T w \<longleftrightarrow> take_bit (ct_bits T) v = take_bit (ct_bits T) w"
proof -
  assume "ct_ok T"
  then have "Suc (ct_bits T - 1) = ct_bits T" using ct_bits_bound by simp
  then have "of_ulong T v = of_ulong T w \<longleftrightarrow> take_bit (ct_bits T) (uint v) = take_bit (ct_bits T) (uint w)"
    by (simp add: of_ulong_def signed_take_bit_eq_iff_take_bit_eq)
  also have "\<dots> \<longleftrightarrow> take_bit (ct_bits T) v = take_bit (ct_bits T) w"
    by (simp only: unsigned_take_bit_eq [symmetric] word_uint_eq_iff)
  finally show ?thesis .
qed

lemma of_ulong_take_bit: "ct_ok T \<Longrightarrow> of_ulong T (take_bit (ct_bits T) w) = of_ulong T w"
  by (simp add: of_ulong_eq_iff)

lemma of_to_ulong: "ct_ok T \<Longrightarrow> v \<in> ct_values T \<Longrightarrow> of_ulong T (to_ulong v) = v"
proof -
  assume T: "ct_ok T" "v \<in> ct_values T"
  note b = ct_bits_bound [OF T(1)]
  have u: "uint (to_ulong v) = take_bit 64 v" by (simp add: to_ulong_def uint_word_of_int_eq)
  show ?thesis
  proof (cases "ct_signed T")
    case True
    have "signed_take_bit (ct_bits T - 1) (take_bit 64 v) = signed_take_bit (ct_bits T - 1) v"
      using b by (simp add: signed_take_bit_eq_iff_take_bit_eq min_def)
    also have "\<dots> = v" using T(2) True by (intro signed_take_bit_int_eq_self) (auto simp: ct_values_def)
    finally show ?thesis using True by (simp add: of_ulong_def u)
  next
    case False
    have "take_bit (ct_bits T) (take_bit 64 v) = take_bit (ct_bits T) v" using b by (simp add: min_def)
    also have "\<dots> = v" using T(2) False by (intro take_bit_int_eq_self) (auto simp: ct_values_def)
    finally show ?thesis using False by (simp add: of_ulong_def u)
  qed
qed

lemma of_ulong_object: "ct_ok T \<Longrightarrow> v \<in> ct_values T \<Longrightarrow> of_ulong T w = v \<longleftrightarrow> take_bit (ct_bits T) w = take_bit (ct_bits T) (to_ulong v)"
  using of_to_ulong [of T v] of_ulong_eq_iff [of T w "to_ulong v"] by simp

lemma read_once_bits: "ct_ok T \<Longrightarrow> take_bit (ct_bits T) (read_once_size x junk (ct_size T)) = take_bit (ct_bits T) x"
  by (auto simp: ct_ok_def ct_bits_def read_once_size_def)

lemma write_once_bits:
  "ct_ok T \<Longrightarrow> take_bit (ct_bits T) (write_once_size x v (ct_size T)) = take_bit (ct_bits T) v \<and>
     drop_bit (ct_bits T) (write_once_size x v (ct_size T)) = drop_bit (ct_bits T) x"
  by (auto simp: ct_ok_def ct_bits_def write_once_size_def put_low_rest)

section \<open>Typed exchanges\<close>

lemma cmpxchg_wrapper_sized:
  "ct_ok T \<Longrightarrow> old \<in> ct_values T \<Longrightarrow> new \<in> ct_values T \<Longrightarrow>
   cmpxchg_wrapper a x T as m old new = map_option (apfst (of_ulong T)) (cmpxchg_sfx a x as m (to_ulong old) (to_ulong new) (ct_size T))"
  by (cases a) (simp_all add: cmpxchg_wrapper_def of_to_ulong)

lemma xchg_wrapper_sized:
  assumes T: "ct_ok T" and v: "v \<in> ct_values T"
  shows "xchg_wrapper a x T as m v = map_option (apfst (of_ulong T)) (xchg_sfx a x as (to_ulong v) m (ct_size T))"
proof (cases a)
  case X86_64
  have n: "of_ulong T (put_low n w m) = of_ulong T (take_bit n m)" if "ct_bits T = n" for n w
    using of_ulong_eq_iff [OF T, of "put_low n w m" m] of_ulong_take_bit [OF T, of m] that by simp
  show ?thesis using T X86_64 v n [of 8] n [of 16] n [of 32] n [of 64]
    by (auto simp: ct_ok_def ct_bits_def xchg_wrapper_def xchg_op_def xchg_sfx_def xchg_case_def of_to_ulong atomic_rmw_def Let_def)
qed (simp_all add: xchg_wrapper_def)

text \<open>C33: the typed macros do what they say for objects of every integer type, signed or not, also for negative operands, which are
  widened with their sign on the way: a compare-exchange returns the value the object had, stores the new one exactly if that was the expected one,
  an exchange always stores, and neither changes the bytes around the object; on x86-64, with LSE and with exclusive loops alike.\<close>

theorem lk_typed_exchange:
  assumes "ct_ok T" and "old \<in> ct_values T" and "new \<in> ct_values T"
  shows "(cmpxchg_wrapper a x T as m old new = Some (ret, r) \<longrightarrow> rmw_old r \<in> set (history as m) \<and> ret = of_ulong T (rmw_old r) \<and>
      of_ulong T (rmw_new r) = (if ret = old then new else ret) \<and> drop_bit (ct_bits T) (rmw_new r) = drop_bit (ct_bits T) (rmw_old r)) \<and>
    (xchg_wrapper a x T as m new = Some (ret, r) \<longrightarrow> rmw_old r \<in> set (history as m) \<and> ret = of_ulong T (rmw_old r) \<and>
      of_ulong T (rmw_new r) = new \<and> drop_bit (ct_bits T) (rmw_new r) = drop_bit (ct_bits T) (rmw_old r))"
proof (intro conjI impI)
  note b = ct_ok_def [of T] ct_bits_def [of T]
  note low = of_ulong_take_bit [OF assms(1)] and obj = of_ulong_object [OF assms(1)]
  {
    assume "cmpxchg_wrapper a x T as m old new = Some (ret, r)"
    then obtain w where w: "cmpxchg_sfx a x as m (to_ulong old) (to_ulong new) (ct_size T) = Some (w, r)" "ret = of_ulong T w"
      using cmpxchg_wrapper_sized [OF assms, of a x as m] by auto
    then have o: "sized_outcome (ct_bits T) (sized_cas (ct_bits T) (to_ulong old) (to_ulong new)) as m (w, r)"
      using cmpxchg_sfx_outcome [of "ct_size T"] assms(1) by (simp add: b)
    then have ret: "ret = of_ulong T (rmw_old r)" using w(2) by (simp add: sized_outcome_def low)
    have "take_bit (ct_bits T) (rmw_new r) = take_bit (ct_bits T) (if ret = old then to_ulong new else rmw_old r)"
      using o obj [OF assms(2), of "rmw_old r"] by (auto simp: sized_outcome_def sized_cas_def ret split: if_splits)
    then have "of_ulong T (rmw_new r) = of_ulong T (if ret = old then to_ulong new else rmw_old r)" using of_ulong_eq_iff [OF assms(1)] by blast
    then show "of_ulong T (rmw_new r) = (if ret = old then new else ret)" using of_to_ulong [OF assms(1,3)] by (simp add: ret)
    show "rmw_old r \<in> set (history as m)" "ret = of_ulong T (rmw_old r)" "drop_bit (ct_bits T) (rmw_new r) = drop_bit (ct_bits T) (rmw_old r)"
      using o ret by (auto simp: sized_outcome_def sized_cas_def put_low_rest split: if_splits)
  }
  {
    assume "xchg_wrapper a x T as m new = Some (ret, r)"
    then obtain w where w: "xchg_sfx a x as (to_ulong new) m (ct_size T) = Some (w, r)" "ret = of_ulong T w"
      using xchg_wrapper_sized [OF assms(1,3), of a x as m] by auto
    then have o: "sized_outcome (ct_bits T) (\<lambda>m. Some (put_low (ct_bits T) m (to_ulong new))) as m (w, r)"
      using xchg_sfx_outcome [of "ct_size T"] assms(1) by (simp add: b)
    then show "ret = of_ulong T (rmw_old r)" using w(2) by (simp add: sized_outcome_def low)
    show "rmw_old r \<in> set (history as m)" "of_ulong T (rmw_new r) = new" "drop_bit (ct_bits T) (rmw_new r) = drop_bit (ct_bits T) (rmw_old r)"
      using o obj [OF assms(3), of "rmw_new r"] by (auto simp: sized_outcome_def put_low_rest)
  }
qed

text \<open>An \<open>int\<close> that holds -5 is exchanged for 7; a neighbour holds 9.\<close>

theorem lk_typed_exchange_witness:
  "\<exists>r. cmpxchg_wrapper AArch64_LLSC Sfx_mb c_int [quiet] 0x9FFFFFFFB (- 5) 7 = Some (- 5, r) \<and> of_ulong c_int (rmw_new r) = 7 \<and>
     drop_bit 32 (rmw_new r) = drop_bit 32 (rmw_old r)"
proof -
  have "map_option fst (cmpxchg_wrapper AArch64_LLSC Sfx_mb c_int [quiet] 0x9FFFFFFFB (- 5) 7) = Some (- 5)" by code_simp
  then obtain r where "cmpxchg_wrapper AArch64_LLSC Sfx_mb c_int [quiet] 0x9FFFFFFFB (- 5) 7 = Some (- 5, r)" by auto
  with lk_typed_exchange [of c_int "- 5" 7 AArch64_LLSC Sfx_mb "[quiet]" "0x9FFFFFFFB" "- 5" r] show ?thesis
    by (simp add: ct_ok_def ct_values_def ct_bits_def c_int_def)
qed

text \<open>What is written with \<open>WRITE_ONCE\<close> or \<open>atomic_set\<close> is what \<open>READ_ONCE\<close> or \<open>atomic_read\<close> return; the bytes around the object stay.\<close>

theorem once_roundtrip:
  assumes "ct_ok T" "v \<in> ct_values T"
  shows "READ_ONCE T junk (fst (WRITE_ONCE T x v)) = v \<and> snd (WRITE_ONCE T x v) = v \<and>
    drop_bit (ct_bits T) (fst (WRITE_ONCE T x v)) = drop_bit (ct_bits T) x"
  using write_once_bits [OF assms(1), of x "to_ulong v"] read_once_bits [OF assms(1), of "fst (WRITE_ONCE T x v)" junk]
  by (simp add: READ_ONCE_def WRITE_ONCE_def of_to_ulong [OF assms] of_ulong_object [OF assms])

theorem atomic_set_read: "atomic_read junk (atomic_set v i) = word_of_int i"
proof -
  let ?val = "of_ulong c_int (to_ulong i)"
  have e: "?val = signed_take_bit 31 (take_bit 64 i)" by (simp add: of_ulong_def to_ulong_def c_int_def ct_bits_def uint_word_of_int_eq)
  have T: "ct_ok c_int" "?val \<in> ct_values c_int"
    using signed_take_bit_int_greater_eq_minus_exp [of 31 "take_bit 64 i"] signed_take_bit_int_less_exp [of 31 "take_bit 64 i"]
    unfolding e by (simp_all add: ct_ok_def ct_values_def c_int_def ct_bits_def)
  have "READ_ONCE c_int junk (atomic_set v i) = ?val"
    using once_roundtrip [OF T, of junk v] by (simp add: atomic_set_def WRITE_ONCE_def of_to_ulong [OF T])
  moreover have "(word_of_int ?val :: u32) = word_of_int i"
    unfolding e word_of_int_eq_iff by (simp add: take_bit_signed_take_bit)
  ultimately show ?thesis by (simp add: atomic_read_def)
qed

section \<open>The built-ins agree with the local atomics\<close>

text \<open>The primitives of \<open>tbb.h\<close> do the same in every configuration: the bodies with the built-ins of either compiler generation, and the local atomics in
  assembly once a pass is not disturbed, return the same value and leave the same word.\<close>

theorem tbb_configurations_agree:
  assumes "asm_build b"
  shows "TBB_machine_cmpswp8 b [quiet] m v c = Some (snd (TBB_builtin_cmpswp8 g m v c)) \<and> fst (TBB_builtin_cmpswp8 g m v c) = m \<and>
    TBB_machine_fetchadd8 b [quiet] m v = Some (TBB_builtin_fetchadd8 g m v) \<and>
    TBB_machine_or b [quiet] m v = Some (TBB_builtin_or g m v) \<and>
    TBB_machine_and b [quiet] m v = Some (TBB_builtin_and g m v)"
  using assms
  by (cases b; cases g) (auto simp: asm_build_def TBB_machine_cmpswp8_def TBB_machine_fetchadd8_def TBB_machine_or_def TBB_machine_and_def
      op_defs TBB_builtin_cmpswp8_def TBB_builtin_fetchadd8_def TBB_builtin_or_def TBB_builtin_and_def sync_val_compare_and_swap_def
      atomic_compare_exchange_n_def compare_exchange_weak_def atomic_rmw_def cas_instr_def cas_eor_def store_exclusive_ok_def overwrite_def Let_def)

end
