(* ===== verification/LLSC.thy ===== *)
theory LLSC
  imports Atomics
begin

text \<open>
  The load-linked/store-conditional primitives of \<open>ext/sms/base/llsc.h\<close>, in the ARMv7 and the
  ARMv8 (64-bit) versions and for all sizes, over a cell with the exclusive monitor of the
  calling thread. The orderings are the \<open>__ATOMIC_*\<close> constants the functions test for.
\<close>

section \<open>The exclusive monitor\<close>

datatype mem_order = ATOMIC_RELAXED | ATOMIC_CONSUME | ATOMIC_ACQUIRE | ATOMIC_RELEASE
  | ATOMIC_ACQ_REL | ATOMIC_SEQ_CST

text \<open>A call either calls \<open>abort()\<close> or returns.\<close>

datatype 'a outcome = Abort | Returns 'a

record 'w excl_cell =
  content :: 'w
  armed :: bool

text \<open>What the instructions do: a load-exclusive arms the monitor, a store-exclusive disarms it.\<close>

definition ldxr :: "order \<Rightarrow> 'w excl_cell \<Rightarrow> (order \<times> 'w) \<times> 'w excl_cell" where
  "ldxr o' c = ((o', content c), c\<lparr>armed := True\<rparr>)"

definition stxr :: "order \<Rightarrow> 'w \<Rightarrow> 'w excl_cell \<Rightarrow> (order \<times> u32) \<times> 'w excl_cell" where
  "stxr o' neu c = (if armed c then ((o', 0), c\<lparr>content := neu, armed := False\<rparr>)
                   else ((o', 1), c\<lparr>armed := False\<rparr>))"

text \<open>What can happen in between: another thread stores, or the monitor is lost.\<close>

datatype 'w interference = Other_store 'w | Monitor_lost

fun interfere :: "'w interference \<Rightarrow> 'w excl_cell \<Rightarrow> 'w excl_cell" where
  "interfere (Other_store v) c = c\<lparr>content := v, armed := False\<rparr>"
| "interfere Monitor_lost c = c\<lparr>armed := False\<rparr>"

section \<open>ARMv7: a separate barrier\<close>

text \<open>\<open>ldrex\<close>, then \<open>dmb\<close> when the caller asked for acquire; any other order is taken as relaxed.\<close>

definition ll8_v7 :: "mem_order \<Rightarrow> u8 excl_cell \<Rightarrow> ((order \<times> u8) \<times> u8 excl_cell) outcome" where
  "ll8_v7 mm c = Returns (ldxr (if mm = ATOMIC_ACQUIRE then Acquire else Relaxed) c)"

definition ll_v7 :: "mem_order \<Rightarrow> u32 excl_cell \<Rightarrow> ((order \<times> u32) \<times> u32 excl_cell) outcome" where
  "ll_v7 mm c = Returns (ldxr (if mm = ATOMIC_ACQUIRE then Acquire else Relaxed) c)"

text \<open>\<open>dmb\<close> before the \<open>strex\<close> when the caller asked for release.\<close>

definition sc_v7 :: "u32 \<Rightarrow> mem_order \<Rightarrow> u32 excl_cell \<Rightarrow> ((order \<times> u32) \<times> u32 excl_cell) outcome" where
  "sc_v7 neu mm c = Returns (stxr (if mm = ATOMIC_RELEASE then Release else Relaxed) neu c)"

text \<open>\<open>ldrexd\<close> and \<open>strexd\<close> move a 64-bit value in a pair of registers.\<close>

definition lld_v7 :: "mem_order \<Rightarrow> u64 excl_cell \<Rightarrow> ((order \<times> u64) \<times> u64 excl_cell) outcome" where
  "lld_v7 mm c = Returns (ldxr (if mm = ATOMIC_ACQUIRE then Acquire else Relaxed) c)"

definition scd_v7 :: "u64 \<Rightarrow> mem_order \<Rightarrow> u64 excl_cell \<Rightarrow> ((order \<times> u32) \<times> u64 excl_cell) outcome" where
  "scd_v7 neu mm c = Returns (stxr (if mm = ATOMIC_RELEASE then Release else Relaxed) neu c)"

section \<open>ARMv8: ordered instructions\<close>

definition ll8 :: "mem_order \<Rightarrow> u8 excl_cell \<Rightarrow> ((order \<times> u8) \<times> u8 excl_cell) outcome" where
  "ll8 mm c = (if mm = ATOMIC_ACQUIRE then Returns (ldxr Acquire c)
     else if mm = ATOMIC_RELAXED then Returns (ldxr Relaxed c) else Abort)"

definition ll16 :: "mem_order \<Rightarrow> u16 excl_cell \<Rightarrow> ((order \<times> u16) \<times> u16 excl_cell) outcome" where
  "ll16 mm c = (if mm = ATOMIC_ACQUIRE then Returns (ldxr Acquire c)
     else if mm = ATOMIC_RELAXED then Returns (ldxr Relaxed c) else Abort)"

definition ll32 :: "mem_order \<Rightarrow> u32 excl_cell \<Rightarrow> ((order \<times> u32) \<times> u32 excl_cell) outcome" where
  "ll32 mm c = (if mm = ATOMIC_ACQUIRE then Returns (ldxr Acquire c)
     else if mm = ATOMIC_RELAXED then Returns (ldxr Relaxed c) else Abort)"

definition ll64 :: "mem_order \<Rightarrow> u64 excl_cell \<Rightarrow> ((order \<times> u64) \<times> u64 excl_cell) outcome" where
  "ll64 mm c = (if mm = ATOMIC_ACQUIRE then Returns (ldxr Acquire c)
     else if mm = ATOMIC_RELAXED then Returns (ldxr Relaxed c) else Abort)"

definition sc8 :: "u8 \<Rightarrow> mem_order \<Rightarrow> u8 excl_cell \<Rightarrow> ((order \<times> u32) \<times> u8 excl_cell) outcome" where
  "sc8 neu mm c = (if mm = ATOMIC_RELEASE then Returns (stxr Release neu c)
     else if mm = ATOMIC_RELAXED then Returns (stxr Relaxed neu c) else Abort)"

definition sc32 :: "u32 \<Rightarrow> mem_order \<Rightarrow> u32 excl_cell \<Rightarrow> ((order \<times> u32) \<times> u32 excl_cell) outcome" where
  "sc32 neu mm c = (if mm = ATOMIC_RELEASE then Returns (stxr Release neu c)
     else if mm = ATOMIC_RELAXED then Returns (stxr Relaxed neu c) else Abort)"

definition sc64 :: "u64 \<Rightarrow> mem_order \<Rightarrow> u64 excl_cell \<Rightarrow> ((order \<times> u32) \<times> u64 excl_cell) outcome" where
  "sc64 neu mm c = (if mm = ATOMIC_RELEASE then Returns (stxr Release neu c)
     else if mm = ATOMIC_RELAXED then Returns (stxr Relaxed neu c) else Abort)"

text \<open>
  The 128-bit forms: memory holds the double word at the lower address and the one above it;
  \<open>i64[0]\<close> of the union (and the register \<open>%0\<close> beside \<open>%H0\<close>) is the low half of the value.
\<close>

definition pair128 :: "u64 \<times> u64 \<Rightarrow> 128 word" where
  "pair128 p = push_bit 64 (ucast (snd p)) OR ucast (fst p)"

definition halves128 :: "128 word \<Rightarrow> u64 \<times> u64" where
  "halves128 v = (ucast v, ucast (drop_bit 64 v))"

definition lld :: "mem_order \<Rightarrow> (u64 \<times> u64) excl_cell \<Rightarrow> ((order \<times> 128 word) \<times> (u64 \<times> u64) excl_cell) outcome" where
  "lld mm c = (if mm = ATOMIC_ACQUIRE then Returns (apfst (apsnd pair128) (ldxr Acquire c))
     else if mm = ATOMIC_RELAXED then Returns (apfst (apsnd pair128) (ldxr Relaxed c)) else Abort)"

definition scd :: "128 word \<Rightarrow> mem_order \<Rightarrow> (u64 \<times> u64) excl_cell \<Rightarrow> ((order \<times> u32) \<times> (u64 \<times> u64) excl_cell) outcome" where
  "scd neu mm c = (if mm = ATOMIC_RELEASE then Returns (stxr Release (halves128 neu) c)
     else if mm = ATOMIC_RELAXED then Returns (stxr Relaxed (halves128 neu) c) else Abort)"

section \<open>Load-linked, store-conditional\<close>

lemma interference_disarms:
  "es \<noteq> [] \<Longrightarrow> \<not> armed (fold interfere es c)"
proof (induction es arbitrary: c rule: rev_induct)
  case (snoc e es)
  then show ?case by (cases e) auto
qed simp

lemma interference_none: "armed (fold interfere es (c\<lparr>armed := True\<rparr>)) \<longleftrightarrow> es = []"
  by (cases "es = []") (auto simp: interference_disarms)

text \<open>
  The interface: a load-linked of the current content, and a store-conditional that stores, and
  returns 0, exactly when nothing interfered since.
\<close>

locale linked_pair =
  fixes ll :: "mem_order \<Rightarrow> 'c excl_cell \<Rightarrow> ((order \<times> 'w) \<times> 'c excl_cell) outcome"
    and sc :: "'w \<Rightarrow> mem_order \<Rightarrow> 'c excl_cell \<Rightarrow> ((order \<times> u32) \<times> 'c excl_cell) outcome"
    and view :: "'c \<Rightarrow> 'w" and repr :: "'w \<Rightarrow> 'c"
  assumes ll_ldxr: "ll mm c = Returns ((o', v), c') \<Longrightarrow> v = view (content c) \<and> c' = c\<lparr>armed := True\<rparr>"
    and sc_stxr: "sc neu mm c = Returns ((o', ret), c') \<Longrightarrow> ((o', ret), c') = stxr o' (repr neu) c"
    and view_repr: "view (repr w) = w"
begin

lemma ll_sc:
  assumes "ll mm c = Returns ((ol, v), c1)" and "sc neu mm' (fold interfere es c1) = Returns ((os, ret), c2)"
  shows "v = view (content c)" and "ret = 0 \<longleftrightarrow> es = []"
    and "ret = 0 \<Longrightarrow> view (content c2) = neu" and "ret \<noteq> 0 \<Longrightarrow> ret = 1 \<and> content c2 = content (fold interfere es c1)"
proof -
  show "v = view (content c)" using ll_ldxr [OF assms(1)] by simp
  have s: "((os, ret), c2) = stxr os (repr neu) (fold interfere es (c\<lparr>armed := True\<rparr>))"
    using ll_ldxr [OF assms(1)] sc_stxr [OF assms(2)] by simp
  then show "ret = 0 \<longleftrightarrow> es = []"
    by (simp add: stxr_def interference_none split: if_splits)
  from s show "ret = 0 \<Longrightarrow> view (content c2) = neu"
    by (auto simp: stxr_def view_repr split: if_splits)
  from s ll_ldxr [OF assms(1)]
  show "ret \<noteq> 0 \<Longrightarrow> ret = 1 \<and> content c2 = content (fold interfere es c1)"
    by (auto simp: stxr_def split: if_splits)
qed

end

lemmas llsc_defs = ll8_v7_def ll_v7_def sc_v7_def lld_v7_def scd_v7_def ll8_def ll16_def ll32_def
  ll64_def sc8_def sc32_def sc64_def lld_def scd_def

lemma pair128_halves128: "pair128 (halves128 v) = v"
  unfolding pair128_def halves128_def
  by (rule bit_word_eqI) (auto simp: bit_simps)

lemma halves128_pair128: "halves128 (pair128 p) = p"
proof (cases p)
  case (Pair l h)
  have "(ucast (pair128 (l, h)) :: u64) = l" "(ucast (drop_bit 64 (pair128 (l, h))) :: u64) = h"
    unfolding pair128_def by (rule bit_word_eqI; auto simp: bit_simps dest: bit_imp_le_length)+
  then show ?thesis by (simp add: Pair halves128_def)
qed

interpretation v7_32: linked_pair ll_v7 sc_v7 "\<lambda>w. w" "\<lambda>w. w"
  by unfold_locales (auto simp: llsc_defs ldxr_def stxr_def split: if_splits)

interpretation v7_64: linked_pair lld_v7 scd_v7 "\<lambda>w. w" "\<lambda>w. w"
  by unfold_locales (auto simp: llsc_defs ldxr_def stxr_def split: if_splits)

interpretation v8_8: linked_pair ll8 sc8 "\<lambda>w. w" "\<lambda>w. w"
  by unfold_locales (auto simp: llsc_defs ldxr_def stxr_def split: if_splits)

interpretation v8_32: linked_pair ll32 sc32 "\<lambda>w. w" "\<lambda>w. w"
  by unfold_locales (auto simp: llsc_defs ldxr_def stxr_def split: if_splits)

interpretation v8_64: linked_pair ll64 sc64 "\<lambda>w. w" "\<lambda>w. w"
  by unfold_locales (auto simp: llsc_defs ldxr_def stxr_def split: if_splits)

interpretation v8_128: linked_pair lld scd pair128 halves128
  by unfold_locales (auto simp: llsc_defs ldxr_def stxr_def pair128_halves128 split: if_splits)

text \<open>The ARMv8 load-linked functions call \<open>abort()\<close> for every order but acquire and relaxed, the
  store-conditional functions for every order but release and relaxed, and otherwise use an
  instruction of the order asked for; the ARMv7 functions never abort and silently treat the
  other orders, sequential consistency included, as relaxed.\<close>

lemma llsc_orders:
  "(ll8 mm c = Abort \<longleftrightarrow> mm \<notin> {ATOMIC_ACQUIRE, ATOMIC_RELAXED}) \<and>
   (ll16 mm h = Abort \<longleftrightarrow> mm \<notin> {ATOMIC_ACQUIRE, ATOMIC_RELAXED}) \<and>
   (ll32 mm w = Abort \<longleftrightarrow> mm \<notin> {ATOMIC_ACQUIRE, ATOMIC_RELAXED}) \<and>
   (ll64 mm d = Abort \<longleftrightarrow> mm \<notin> {ATOMIC_ACQUIRE, ATOMIC_RELAXED}) \<and>
   (lld mm p = Abort \<longleftrightarrow> mm \<notin> {ATOMIC_ACQUIRE, ATOMIC_RELAXED}) \<and>
   (sc8 x mm c = Abort \<longleftrightarrow> mm \<notin> {ATOMIC_RELEASE, ATOMIC_RELAXED}) \<and>
   (sc32 y mm w = Abort \<longleftrightarrow> mm \<notin> {ATOMIC_RELEASE, ATOMIC_RELAXED}) \<and>
   (sc64 z mm d = Abort \<longleftrightarrow> mm \<notin> {ATOMIC_RELEASE, ATOMIC_RELAXED}) \<and>
   (scd q mm p = Abort \<longleftrightarrow> mm \<notin> {ATOMIC_RELEASE, ATOMIC_RELAXED}) \<and>
   (\<exists>u. ll_v7 ATOMIC_SEQ_CST w = Returns ((Relaxed, content w), u)) \<and>
   (\<exists>u. lld_v7 ATOMIC_SEQ_CST d = Returns ((Relaxed, content d), u))"
  by (simp add: llsc_defs ldxr_def)

section \<open>Properties\<close>

text \<open>For the double-word pair \<open>lld\<close>/\<open>scd\<close> of ARMv8: the value read is the 128-bit value in memory,
  the store is done and 0 returned exactly when no other store and no loss of the monitor came in
  between, a load then reads the new value, and a failed store returns 1 and changes nothing.\<close>

theorem lld_scd_exclusive:
  assumes "lld mm c = Returns ((ol, v), c1)"
    and "scd neu mm' (fold interfere es c1) = Returns ((os, ret), c2)"
  shows "v = pair128 (content c) \<and> (ret = 0 \<longleftrightarrow> es = []) \<and>
         (ret = 0 \<longrightarrow> pair128 (content c2) = neu) \<and>
         (ret \<noteq> 0 \<longrightarrow> ret = 1 \<and> content c2 = content (fold interfere es c1))"
  using v8_128.ll_sc [OF assms] by blast

theorem lld_scd_exclusive_witness:
  "\<exists>c2. scd 5 ATOMIC_RELEASE (fold interfere [] \<lparr>content = (1, 2), armed = True\<rparr>) = Returns ((Release, 0), c2) \<and>
     pair128 (content c2) = 5"
proof -
  let ?c = "\<lparr>content = (1, 2), armed = False\<rparr> :: (u64 \<times> u64) excl_cell"
  have l: "lld ATOMIC_ACQUIRE ?c = Returns ((Acquire, pair128 (1, 2)), \<lparr>content = (1, 2), armed = True\<rparr>)"
    by (simp add: lld_def ldxr_def)
  have s: "scd 5 ATOMIC_RELEASE (fold interfere [] \<lparr>content = (1, 2), armed = True\<rparr>) =
      Returns ((Release, 0), \<lparr>content = (5, 0), armed = False\<rparr>)" by code_simp
  from lld_scd_exclusive [OF l s] s show ?thesis by auto
qed

end
