(* ===== verification/Spec2Isabelle.thy ===== *)
theory Spec2Isabelle
  imports Command_Correct JVM_Properties JVM_Init Queued_Whole_Word Exclusive_Threads Typed_Access LLSC
begin

text \<open>
  Verification of the lock algorithms of \<^emph>\<open>lockhammer\<close>, the benchmark under \<open>src/benchmarks/lockhammer\<close>, and of the parts
  of the benchmark that the algorithms rely on.

  \<^bold>\<open>The program.\<close> One executable is built per lock algorithm: a header under \<open>src/ext\<close> or \<open>tests/\<close> defines \<open>lock_acquire\<close> and
  \<open>lock_release\<close>, and macros for its options and its initialization. \<open>main\<close> (\<open>lockhammer.c\<close>) parses the command line (\<open>args.c\<close>), chooses
  the CPU of every worker thread and runs the experiments; the threads execute \<open>hmr\<close> (\<open>measure.c\<close>): they start together,
  calibrate their delay loop, meet at barriers, and then acquire and release the lock over and over. Everything atomic goes
  through \<open>atomics.h\<close>, the kernel's primitives in \<open>ext/linux/include\<close>, or \<open>ext/sms/base/llsc.h\<close>.

  \<^bold>\<open>How concurrency is modelled.\<close> Every algorithm is a total, executable function \<open>step l s\<close>: the state is a record with the shared
  fields at the width they have in the code and, for every thread, its position in the code with its local variables; the
  label names the thread that moves and, where the environment has a choice, that choice. One step is one access to shared
  memory. Theorems speak about \<open>run step ls s\<close> for an arbitrary schedule \<open>ls\<close>, so they hold for every interleaving. Memory is
  sequentially consistent: the accesses of a run are totally ordered; the orderings the code asks for are recorded in \<open>Atomics\<close>
  and \<open>LLSC\<close>, the effects of weaker ones are not modelled. A thread that cannot go on repeats a test, so a liveness theorem says that
  from every reachable state the goal can still be reached, not that a given scheduler gets there.

  \<^bold>\<open>Foundations.\<close> \<open>Lock_Prelude\<close>: machine types, halves and bytes of words, runs, and the interfaces \<open>invariant_system\<close>,
  \<open>mutex_system\<close>, \<open>fifo_system\<close> and \<open>progress_system\<close>, which the locks interpret. \<open>Lock_Spec\<close>: the abstract lock, a cell with at most one
  owner, the abstract reader-writer lock, and the interfaces \<open>lock_system\<close> and \<open>rw_system\<close> whose models refine them. \<open>C_Strings\<close>: \<open>strtoul\<close>, \<open>strtoll\<close>, \<open>strtok_r\<close> and \<open>strsep\<close> of the C library.
  \<open>Atomics\<close> (\<open>atomics.h\<close>), \<open>Lk_Atomics\<close> (\<open>lk_atomics.h\<close>, \<open>lk_cmpxchg.h\<close>) and \<open>LLSC\<close> (\<open>llsc.h\<close>): every body of every primitive on x86-64 and AArch64, with
  exclusive loops run against arbitrary interference; each takes effect at one instant and returns once a pass is
  undisturbed, and the built-in body of \<open>cas64\<close> is shown never to store. \<open>Exclusive_Threads\<close>: the same loops run by many threads, instruction by instruction, are linearizable. \<open>Typed_Access\<close>: the macros the locks call, on objects of every integer type, and
  the primitives of \<open>tbb.h\<close> on the built-ins of the compiler, which agree with those on local atomics.

  \<^bold>\<open>The locks.\<close>
  \<^item> \<open>Ticket_Lock\<close> (\<open>ext/linux/ticket_spinlock.h\<close>): mutual exclusion, first come first served, no deadlock, on all three builds, for as many threads as
    there are 16-bit tickets (half as many on x86-64, where a ticket counts 2).
  \<^item> \<open>CLH_Lock\<close> (\<open>ext/sms/clh_spinlock.h\<close>): the same for the queue of nodes that change hands, with and without wait-for-event.
  \<^item> \<open>Event_Mutex\<close> (\<open>ext/mysql\<close>, both headers): mutual exclusion, the random numbers, and a wake-up that the unprotected generation counter loses.
  \<^item> \<open>TBB_RW\<close>, \<open>TBB_Progress\<close> (\<open>ext/tbb\<close>): a writer is alone, the word counts the readers, and no thread is stuck, for fewer than \<open>2 ^ 62\<close> threads, the
    room above the two flag bits.
  \<^item> \<open>Queued_Spinlock\<close>, \<open>Queued_Correct\<close>, \<open>Queued_Progress\<close> (\<open>ext/linux/queued_spinlock.h\<close>): fast path, pending path and MCS queue; exclusion, order, no
    deadlock, and the fields of the word, for at most 16383 threads, the number \<open>CONFIG_NR_CPUS\<close> of the tail code; \<open>Queued_Whole_Word\<close>: the build whose
    pending field is one bit makes the same changes. \<open>MCS_Queue\<close> is the queue they share with
    \<open>Hybrid_Spinlock\<close>, \<open>Hybrid_Words\<close>, \<open>Hybrid_Correct\<close>, \<open>Hybrid_Progress\<close> (\<open>ext/linux/hybrid_spinlock*.h\<close>, one model with three variants), where the line of 8-bit tickets
    (\<open>Ticket_Line\<close>) is never longer than 5 or 6; the old variant admits two owners from 257 threads on, and up to 256 it is correct.
  \<^item> \<open>OSQ_Lock\<close>, \<open>OSQ_Correct\<close>, \<open>OSQ_Progress\<close> (\<open>ext/linux/osq_lock.h\<close>, with \<open>Adjacent\<close> for queues whose inner members leave): waiters that unlink
    themselves never break the queue; the bound \<open>2 ^ 31\<close> is that of a CPU number. \<open>OSQ_Options\<close>: the options and the tables made from them.
  \<^item> \<open>JVM_Monitor\<close>, \<open>JVM_Owner\<close>, \<open>JVM_Lists\<close>, \<open>JVM_Queue\<close>, \<open>JVM_Correct\<close>, \<open>JVM_Properties\<close> (\<open>ext/jvm/jvm_objectmonitor.h\<close>): exclusion, the two queues while
    the owner rearranges them, the range of every counter, and a lost wake-up. \<open>JVM_Init\<close>: initialization before every measurement, whatever the last one left.
  \<^item> \<open>Word_Locks\<close> (\<open>tests/\<close>): the swap mutex, and three counting algorithms whose word is exact, over the interface \<open>counting_system\<close>; with the
    built-ins, whose \<open>cas64\<close> never stores, one of them does not count.
    \<open>Pthread_Mutex\<close> (\<open>tests/pthread_mutex_*.h\<close>): both tests of the POSIX mutex, which never run into their error branches.

  \<open>Lock_Refinement\<close> interprets \<open>lock_system\<close> for the locks; the theorem below collects the refinements.

  \<^bold>\<open>The benchmark.\<close> \<open>Start_Barrier\<close>, \<open>Start_Progress\<close> (\<open>hmr\<close>, \<open>synchronize_threads\<close>): the barrier separates its rounds although all use the same word, and
  all threads reach the measurement, for fewer than \<open>2 ^ 31\<close> threads, the bound named in the source. \<open>Measure\<close>: the timed and the counted loop of
  \<open>hmr\<close> over the operations of a lock, with the interface \<open>measured_lock\<close> that states what the loops rely on: some thread inside or around the lock can
  always move on without the help of threads that are outside for good. \<open>Measured_Locks\<close> interprets it for eight locks; the
  event mutex and the object monitor do not have this property, since they lose wake-ups. \<open>Experiment\<close> puts start and measurement together: experiments can
  be completed, and their results are what happened, also for a cancelled thread. \<open>Pinorder\<close>, \<open>Pinorder_Correct\<close>, \<open>Placement\<close> (\<open>args.c\<close>, \<open>main\<close>): the CPU
  lists of \<open>-o\<close> and \<open>-t\<close>, what they mean, and where they go wrong; machines have at most 1024 CPUs, the size of a \<open>cpu_set_t\<close>. \<open>Calibrate\<close>, \<open>Delays\<close>
  (\<open>measure.c\<close>, and the back-off of \<open>osq_lock.h\<close>): the binary search for the delay returns whatever the timer reads, with a measurement
  next to the target, and with the closest delay when the timer is steady. \<open>Pagemap\<close> (\<open>ext/pagemap\<close>): the translation to physical addresses,
  over the answers of \<open>pread\<close>; \<open>Lock_Memory\<close> (\<open>alloc.c\<close>): the huge page at a requested address, found by at most ten mappings, the bound of the source.
  \<open>Cpu_Frequency\<close> (\<open>cpufreq-scaling-detect.c\<close>): which settings of the frequency are accepted. \<open>Command_Line\<close>, \<open>Command_Correct\<close> (\<open>args.c\<close>, \<open>main\<close>) put
  the parts together: all options, the checks of \<open>main\<close>, and its loops over placements, durations and iterations; the measurements are those that are written on
  the command line, for CPU lists that the loops of \<open>-o\<close> can handle; every measurement of an accepted command line can be completed, unless its run limit is shorter than a tick of the timer, and
  then it never ends.
  The locks are modelled with a compare-and-swap that stores when it reports success, as in the assembly builds; that the built-in bodies of \<open>atomics.h\<close> do not is shown in \<open>Atomics\<close>, and for the
  counting algorithms in \<open>Word_Locks\<close>.

  \<^bold>\<open>Not modelled.\<close> Memory reordering and caches; time: pause instructions, CPU and wall-clock times, timeouts with their signal, and what is computed
  in floating point (\<open>report.c\<close>, \<open>measure_blackhole_duration\<close>; the value of \<open>-D\<close>, the products of times and clock rates and the two milestones taken in double are
  parameters); the inside of the operating system and the C library: \<open>mmap\<close>, \<open>pread\<close> and the files under \<open>/sys\<close> are parameters, \<open>getopt\<close> is outside, so option parsers start from the
  options it returns, and the POSIX mutex is its documented behaviour; the creation of threads with their scheduling policy, and printing; the test \<open>empty.h\<close>, which does
  nothing; branches the build excludes (debug builds, constant knobs of the monitor, its nodes on the heap, the tracking of dynamic memory).
\<close>

section \<open>The locks refine their specifications\<close>

text \<open>C9: the locks that exclude refine their abstract specification. In every run of every schedule the acquisitions and releases of the ticket lock, the CLH lock, the event mutex, the
  queued spinlock, the three hybrid spinlocks, the optimistic spin queue, the object monitor, the swap mutex and both tests of the POSIX mutex form, in the order in which they happen, a history of a
  cell with at most one owner that is acquired only while free and released only by its owner, and the abstract owner is the thread that holds the algorithm; and the beginnings and
  ends of reading and writing of the reader-writer mutex form a history of an abstract reader-writer lock with the same writer and the same readers. The bounds on the number of threads are those
  of the fields of each lock word; the old hybrid lock, which the build does not use, is limited to 256 threads.\<close>

theorem locks_refine_abstract_lock:
  "(N * stride a \<le> 65536 \<longrightarrow> refines_lock ticket_holds (ticket_step a N) id ticket_start) \<and>
   (clh_start N = Some c \<longrightarrow> refines_lock clh_holds (clh_step w N) id c) \<and>
   refines_lock em_holds (em_step e N) fst event_mutex_init \<and>
   (N < 2 ^ 62 \<longrightarrow> refines_rw tbb_reads tbb_writes (tbb_step N) id (tbb_init_locks p cpulist)) \<and>
   (N \<le> 16383 \<longrightarrow> refines_lock (\<lambda>s i. q_owner (q_pc s i)) (q_step N) id mcs_init_locks) \<and>
   (N \<le> 16383 \<and> (v = Old_Fast_Dequeue \<longrightarrow> N \<le> 256) \<longrightarrow>
     refines_lock (\<lambda>s i. h_owner v (h_pc s i)) (hy_step v N) id hy_init_locks) \<and>
   (N < 2 ^ 31 \<longrightarrow> refines_lock (\<lambda>s i. o_owner (o_pc s i)) (osq_step retry N) id osq_queue_init) \<and>
   refines_lock (\<lambda>s i. om_owns (m_pc s i)) (om_step N) fst jvm_init_locks \<and>
   refines_lock swap_holds (swap_step N) id swap_start \<and>
   (pt_init t \<longrightarrow> refines_lock pt_holds (pt_step test N) id t)"
  by (intro conjI impI; (rule ticket_lock.refines clh_lock.refines event_mutex_lock.refines tbb_rw_lock.refines_reader_writer
        queued_lock.refines hybrid_lock.refines osq_lock.refines jvm.refines swap.refines pthread.refines)?) (auto simp: ticket_init_def clh_init_def tbb_init_def)

text \<open>Thread 0 releases the optimistic spin queue to thread 2 after thread 1 has left the queue.\<close>

theorem locks_refine_abstract_lock_witness:
  "lock_spec [Acquired 0, Released 0, Acquired 2] None = Some (Some 2) \<and>
   lock_history (\<lambda>s i. o_owner (o_pc s i)) (osq_step 0 3) id
     ([0, 0, 0, 0] @ replicate 6 1 @ replicate 6 2 @ replicate 9 1 @ [0, 0, 0, 2]) osq_queue_init = [Acquired 0, Released 0, Acquired 2]"
proof -
  let ?ls = "[0, 0, 0, 0] @ replicate 6 1 @ replicate 6 2 @ replicate 9 1 @ [0, 0, 0, 2]"
  have h: "lock_history (\<lambda>s i. o_owner (o_pc s i)) (osq_step 0 3) id ?ls osq_queue_init = [Acquired 0, Released 0, Acquired 2]"
    by code_simp
  have o: "o_owner (o_pc (run (osq_step 0 3) ?ls osq_queue_init) 2)" by code_simp
  have "refines_lock (\<lambda>s i. o_owner (o_pc s i)) (osq_step 0 3) id osq_queue_init"
    using locks_refine_abstract_lock [where N = 3 and retry = 0] by simp
  then obtain k where "lock_spec (lock_history (\<lambda>s i. o_owner (o_pc s i)) (osq_step 0 3) id ?ls osq_queue_init) None = Some k"
    "o_owner (o_pc (run (osq_step 0 3) ?ls osq_queue_init) 2) \<longleftrightarrow> k = Some 2" unfolding refines_lock_def by blast
  with h o show ?thesis by simp
qed

end
